(* ===== verification/Prelude.thy ===== *)
theory Prelude
  imports Main "HOL-Library.Word" "HOL-Library.Monad_Syntax"
begin

text \<open>
  Shared conventions of the development.

  Machine words (addresses, \<open>size_t\<close>, \<open>unsigned long\<close>, the contents of a stack slot)
  are \<open>32 word\<close>; the constant 0 is the null pointer. A C \<open>int\<close> or \<open>long\<close> variable is a
  HOL \<open>int\<close> that stays in the signed 32-bit range: \<open>s32\<close> is applied wherever the source
  computes a value that may leave it. Physical memory is a byte map; \<open>load32\<close> and
  \<open>store32\<close> are the little-endian accesses the compiler emits for a 4-byte object.

  A kernel routine that can stop for good is a function into \<open>option\<close>: \<open>None\<close> is the
  endless loop of a failed \<open>ASSERT\<close> (h/xeroskernel.h; in the production build the macro is
  \<open>if (!(x)) { while(1); }\<close>), a walk that never ends, or an access through a pointer the
  source never checks.
\<close>

unbundle bit_operations_syntax

type_synonym u8 = "8 word"
type_synonym u32 = "32 word"
type_synonym bytes = "32 word \<Rightarrow> 8 word"

named_theorems mem_simps \<open>loads and stores of the byte memory\<close>
named_theorems link_simps \<open>doubly linked lists\<close>

subsection \<open>Signed arithmetic of the machine\<close>

text \<open>The value a 32-bit signed variable holds after it is assigned \<open>x\<close>.\<close>

definition s32 :: "int \<Rightarrow> int" where
  "s32 x = signed_take_bit 31 x"

definition in_s32 :: "int \<Rightarrow> bool" where
  "in_s32 x \<longleftrightarrow> - (2 ^ 31) \<le> x \<and> x < 2 ^ 31"

lemma s32_id [simp]: "in_s32 x \<Longrightarrow> s32 x = x"
  by (simp add: s32_def in_s32_def signed_take_bit_int_eq_self)

lemma s32_range [simp]: "in_s32 (s32 x)"
  using signed_take_bit_int_greater_eq_minus_exp [of 31 x]
    signed_take_bit_int_less_exp [of 31 x]
  by (simp add: s32_def in_s32_def)

lemma s32_s32 [simp]: "s32 (s32 x) = s32 x"
  by simp

lemma in_s32_sint [simp]: "in_s32 (sint (w :: u32))"
  using sint_greater_eq [of w] sint_less [of w] by (simp add: in_s32_def)

lemma sint_word_of_int [simp]: "sint (word_of_int x :: u32) = s32 x"
  by (simp add: s32_def sint_sbintrunc')

subsection \<open>Asserting and checking\<close>

text \<open>\<open>ASSERT(b)\<close>: go on when \<open>b\<close> holds, never return otherwise.\<close>

definition ASSERT :: "bool \<Rightarrow> unit option" where
  "ASSERT b = (if b then Some () else None)"

lemma ASSERT_True [simp]: "ASSERT True = Some ()"
  by (simp add: ASSERT_def)

lemma ASSERT_False [simp]: "ASSERT False = None"
  by (simp add: ASSERT_def)

lemma ASSERT_eq_Some [simp]: "ASSERT b = Some u \<longleftrightarrow> b"
  by (simp add: ASSERT_def)

lemma bind_ASSERT_Some [simp]:
  "Option.bind (ASSERT b) f = Some y \<longleftrightarrow> b \<and> f () = Some y"
  by (simp add: ASSERT_def)

subsection \<open>Loops over a fixed range\<close>

text \<open>\<open>for (i = ...) body\<close>: the body runs on each element in turn and may stop for good.\<close>

primrec for_each :: "('a \<Rightarrow> 's \<Rightarrow> 's option) \<Rightarrow> 'a list \<Rightarrow> 's \<Rightarrow> 's option" where
  "for_each f [] s = Some s"
| "for_each f (x # xs) s = Option.bind (f x s) (for_each f xs)"

lemma for_each_append [simp]:
  "for_each f (xs @ ys) s = Option.bind (for_each f xs s) (for_each f ys)"
proof (induction xs arbitrary: s)
  case (Cons x xs)
  then show ?case by (cases "f x s") simp_all
qed simp

text \<open>A condition every pass keeps holds at the end.\<close>

lemma for_each_inv:
  assumes "for_each f xs s = Some s'" and "P s"
    and "\<And>x s s'. x \<in> set xs \<Longrightarrow> P s \<Longrightarrow> f x s = Some s' \<Longrightarrow> P s'"
  shows "P s'"
  using assms
proof (induction xs arbitrary: s)
  case (Cons x xs)
  then obtain t where "f x s = Some t" "for_each f xs t = Some s'"
    by (auto simp: bind_eq_Some_conv)
  with Cons show ?case by (meson list.set_intros)
qed simp

lemma for_each_total:
  assumes "P s" and "\<And>x s. x \<in> set xs \<Longrightarrow> P s \<Longrightarrow> \<exists>s'. f x s = Some s' \<and> P s'"
  shows "\<exists>s'. for_each f xs s = Some s' \<and> P s'"
  using assms
proof (induction xs arbitrary: s)
  case (Cons x xs)
  then obtain t where "f x s = Some t" "P t" by (meson list.set_intros(1))
  with Cons show ?case by simp
qed simp

subsection \<open>Byte memory\<close>

text \<open>\<open>memset\<close> and the zero-terminated string at an address, up to \<open>n\<close> characters of it.\<close>

definition fill_bytes :: "u32 \<Rightarrow> u8 \<Rightarrow> nat \<Rightarrow> bytes \<Rightarrow> bytes" where
  "fill_bytes a v n m = (\<lambda>x. if unat (x - a) < n then v else m x)"

definition load32 :: "bytes \<Rightarrow> u32 \<Rightarrow> u32" where
  "load32 m a = ucast (m a) OR push_bit 8 (ucast (m (a + 1)))
     OR push_bit 16 (ucast (m (a + 2))) OR push_bit 24 (ucast (m (a + 3)))"

definition store32 :: "bytes \<Rightarrow> u32 \<Rightarrow> u32 \<Rightarrow> bytes" where
  "store32 m a v = m(a := ucast v, a + 1 := ucast (drop_bit 8 v),
     a + 2 := ucast (drop_bit 16 v), a + 3 := ucast (drop_bit 24 v))"

text \<open>Two 4-byte objects at \<open>a\<close> and \<open>b\<close> do not overlap.\<close>

definition apart :: "u32 \<Rightarrow> u32 \<Rightarrow> bool" where
  "apart a b \<longleftrightarrow> 4 \<le> unat (a - b) \<and> 4 \<le> unat (b - a)"

text \<open>The four bytes of a word put together again.\<close>

lemma bytes_of_word:
  "ucast (ucast v :: u8) OR push_bit 8 (ucast (ucast (drop_bit 8 v) :: u8))
     OR push_bit 16 (ucast (ucast (drop_bit 16 v) :: u8))
     OR push_bit 24 (ucast (ucast (drop_bit 24 v) :: u8)) = (v :: u32)"
  apply (rule bit_word_eqI)
  apply (auto simp: bit_simps)
  subgoal for n by (cases "24 \<le> n") auto
  done

lemma load32_store32 [simp, mem_simps]: "load32 (store32 m a v) a = v"
  using bytes_of_word [of v] by (simp add: load32_def store32_def)

lemma apart_sym: "apart a b \<Longrightarrow> apart b a"
  by (simp add: apart_def)

lemma offset_neq:
  assumes "apart a b" and "i < 4" and "j < 4"
  shows "a + of_nat i \<noteq> b + of_nat j"
proof
  assume eq: "a + of_nat i = b + of_nat j"
  show False
  proof (cases "i \<le> j")
    case True
    with eq have "a - b = of_nat (j - i)" by (simp add: of_nat_diff algebra_simps)
    then have "unat (a - b) = j - i" using assms(3) by (simp add: unsigned_of_nat take_bit_nat_eq_self)
    with assms show False unfolding apart_def by linarith
  next
    case False
    with eq have "b - a = of_nat (i - j)" by (simp add: of_nat_diff algebra_simps)
    then have "unat (b - a) = i - j" using assms(2) by (simp add: unsigned_of_nat take_bit_nat_eq_self)
    with assms show False unfolding apart_def by linarith
  qed
qed

lemma load32_store32_apart [mem_simps]:
  assumes "apart a b"
  shows "load32 (store32 m a v) b = load32 m b"
proof -
  have n: "a + of_nat i \<noteq> b + of_nat j" if "i < 4" "j < 4" for i j
    using offset_neq [OF assms that] .
  show ?thesis
    using n [of 0 0] n [of 0 1] n [of 0 2] n [of 0 3] n [of 1 0] n [of 1 1] n [of 1 2] n [of 1 3]
      n [of 2 0] n [of 2 1] n [of 2 2] n [of 2 3] n [of 3 0] n [of 3 1] n [of 3 2] n [of 3 3]
    by (simp add: load32_def store32_def)
qed

end
