(* ===== verification/Dlist_Links.thy ===== *)
theory Dlist_Links
  imports Prelude
begin

text \<open>
  Doubly linked lists, shared by the free list of c/mem.c and by the process queues of
  c/pcb.c and c/sleep.c. A pointer type \<open>'p\<close> has a value for every node \<open>'a\<close> (\<open>ref\<close>) and a
  null. \<open>links ref prv nxt pv xs q\<close> says that the nodes \<open>xs\<close> are chained in this order by
  their \<open>prv\<close> and \<open>nxt\<close> fields, that the field before the first is \<open>pv\<close> and the field after
  the last is \<open>q\<close>.
\<close>

fun headp :: "('a \<Rightarrow> 'p) \<Rightarrow> 'a list \<Rightarrow> 'p \<Rightarrow> 'p" where
  "headp ref [] q = q"
| "headp ref (a # as) q = ref a"

fun lastp :: "('a \<Rightarrow> 'p) \<Rightarrow> 'p \<Rightarrow> 'a list \<Rightarrow> 'p" where
  "lastp ref pv [] = pv"
| "lastp ref pv (a # as) = lastp ref (ref a) as"

fun links :: "('a \<Rightarrow> 'p) \<Rightarrow> ('a \<Rightarrow> 'p) \<Rightarrow> ('a \<Rightarrow> 'p) \<Rightarrow> 'p \<Rightarrow> 'a list \<Rightarrow> 'p \<Rightarrow> bool" where
  "links ref prv nxt pv [] q = True"
| "links ref prv nxt pv (a # as) q =
     (prv a = pv \<and> nxt a = headp ref as q \<and> links ref prv nxt (ref a) as q)"

lemma headp_append [link_simps]: "headp ref (xs @ ys) q = headp ref xs (headp ref ys q)"
  by (cases xs) simp_all

lemma lastp_append [link_simps]: "lastp ref pv (xs @ ys) = lastp ref (lastp ref pv xs) ys"
  by (induction xs arbitrary: pv) simp_all

lemma lastp_snoc: "xs \<noteq> [] \<Longrightarrow> lastp ref pv xs = ref (last xs)"
  by (induction xs arbitrary: pv) auto

lemma lastp_conv: "lastp ref pv xs = (if xs = [] then pv else ref (last xs))"
  by (cases "xs = []") (simp_all add: lastp_snoc)

lemma links_append [link_simps]:
  "links ref prv nxt pv (xs @ ys) q \<longleftrightarrow>
     links ref prv nxt pv xs (headp ref ys q) \<and> links ref prv nxt (lastp ref pv xs) ys q"
  by (induction xs arbitrary: pv) (auto simp: headp_append)

text \<open>Only the fields of the nodes in the list matter.\<close>

lemma links_cong:
  assumes "\<And>a. a \<in> set xs \<Longrightarrow> prv' a = prv a" and "\<And>a. a \<in> set xs \<Longrightarrow> nxt' a = nxt a"
  shows "links ref prv' nxt' pv xs q = links ref prv nxt pv xs q"
  using assms by (induction xs arbitrary: pv) simp_all

lemma headp_conv: "headp ref xs q = (if xs = [] then q else ref (hd xs))"
  by (cases xs) simp_all

text \<open>
  Changing the \<open>nxt\<close> field of the last node changes the end of the chain, changing the \<open>prv\<close>
  field of the first one its start.
\<close>

lemma links_relink_end:
  assumes l: "links ref prv nxt pv xs q" and d: "distinct xs"
    and p: "\<And>x. x \<in> set xs \<Longrightarrow> prv' x = prv x"
    and n: "\<And>x. x \<in> set xs \<Longrightarrow> nxt' x = (if x = last xs then q' else nxt x)"
  shows "links ref prv' nxt' pv xs q'"
proof (cases xs rule: rev_cases)
  case (snoc ys a)
  have "links ref prv' nxt' pv ys (ref a) = links ref prv nxt pv ys (ref a)"
    using p n d snoc by (intro links_cong) auto
  then show ?thesis using l p n snoc by (simp add: link_simps)
qed simp

lemma links_relink_start:
  assumes l: "links ref prv nxt pv xs q" and d: "distinct xs"
    and p: "\<And>x. x \<in> set xs \<Longrightarrow> prv' x = (if x = hd xs then pv' else prv x)"
    and n: "\<And>x. x \<in> set xs \<Longrightarrow> nxt' x = nxt x"
  shows "links ref prv' nxt' pv' xs q"
proof (cases xs)
  case (Cons a ys)
  have "links ref prv' nxt' (ref a) ys q = links ref prv nxt (ref a) ys q"
    using p n d Cons by (intro links_cong) auto
  then show ?thesis using l p n Cons by simp
qed simp

text \<open>
  Unlinking the node \<open>c\<close>: its two neighbours are pointed at each other, every other field of
  the remaining nodes is as before.
\<close>

lemma links_remove:
  assumes l: "links ref prv nxt pv (as @ c # bs) q" and d: "distinct (as @ bs)"
    and p: "\<And>x. x \<in> set (as @ bs) \<Longrightarrow>
      prv' x = (if bs \<noteq> [] \<and> x = hd bs then lastp ref pv as else prv x)"
    and n: "\<And>x. x \<in> set (as @ bs) \<Longrightarrow>
      nxt' x = (if as \<noteq> [] \<and> x = last as then headp ref bs q else nxt x)"
  shows "links ref prv' nxt' pv (as @ bs) q"
proof -
  have *: "x \<in> set as \<Longrightarrow> \<not> (bs \<noteq> [] \<and> x = hd bs)"
    "x \<in> set bs \<Longrightarrow> \<not> (as \<noteq> [] \<and> x = last as)" for x
    using d by (auto dest: hd_in_set last_in_set)
  have "links ref prv nxt pv as (ref c)" and "links ref prv nxt (ref c) bs q"
    using l by (simp_all add: links_append)
  moreover have "prv' x = prv x" "nxt' x = (if x = last as then headp ref bs q else nxt x)"
    if "x \<in> set as" for x using that p [of x] n [of x] * by auto
  moreover have "prv' x = (if x = hd bs then lastp ref pv as else prv x)" "nxt' x = nxt x"
    if "x \<in> set bs" for x using that p [of x] n [of x] * by auto
  ultimately have "links ref prv' nxt' pv as (headp ref bs q)" and "links ref prv' nxt' (lastp ref pv as) bs q"
    using d links_relink_end [of ref prv nxt pv as _ prv' nxt' "headp ref bs q"]
      links_relink_start [of ref prv nxt _ bs q prv' "lastp ref pv as" nxt']
    by simp_all
  then show ?thesis by (simp add: links_append)
qed

text \<open>Linking a new node \<open>c\<close> in between.\<close>

lemma links_insert:
  assumes l: "links ref prv nxt pv (as @ bs) q" and d: "distinct (as @ bs)"
    and p: "\<And>x. x \<in> set (as @ bs) \<Longrightarrow>
      prv' x = (if bs \<noteq> [] \<and> x = hd bs then ref c else prv x)"
    and n: "\<And>x. x \<in> set (as @ bs) \<Longrightarrow>
      nxt' x = (if as \<noteq> [] \<and> x = last as then ref c else nxt x)"
    and c: "prv' c = lastp ref pv as" "nxt' c = headp ref bs q"
  shows "links ref prv' nxt' pv (as @ c # bs) q"
proof -
  have *: "x \<in> set as \<Longrightarrow> \<not> (bs \<noteq> [] \<and> x = hd bs)"
    "x \<in> set bs \<Longrightarrow> \<not> (as \<noteq> [] \<and> x = last as)" for x
    using d by (auto dest: hd_in_set last_in_set)
  have "links ref prv nxt pv as (headp ref bs q)" and "links ref prv nxt (lastp ref pv as) bs q"
    using l by (simp_all add: links_append)
  moreover have "prv' x = prv x" "nxt' x = (if x = last as then ref c else nxt x)"
    if "x \<in> set as" for x using that p [of x] n [of x] * by auto
  moreover have "prv' x = (if x = hd bs then ref c else prv x)" "nxt' x = nxt x"
    if "x \<in> set bs" for x using that p [of x] n [of x] * by auto
  ultimately have "links ref prv' nxt' pv as (ref c)" and "links ref prv' nxt' (ref c) bs q"
    using d links_relink_end [of ref prv nxt pv as _ prv' nxt' "ref c"]
      links_relink_start [of ref prv nxt _ bs q prv' "ref c" nxt']
    by simp_all
  then show ?thesis using c by (simp add: links_append)
qed

text \<open>The neighbours of a node in the chain.\<close>

lemma links_middle:
  assumes "links ref prv nxt pv (as @ c # bs) q"
  shows "prv c = lastp ref pv as" and "nxt c = headp ref bs q"
  using assms by (simp_all add: link_simps)

end
