(* ===== verification/Mem.thy ===== *)
theory Mem
  imports Dlist_Links
begin

text \<open>
  c/mem.c, the kernel's memory manager. The headers that precede each block are kept in a
  typed map from header addresses; the data bytes live in the byte memory of the kernel
  state. \<open>kmalloc\<close> and \<open>kfree\<close> are the source's list surgery on the \<open>prev\<close> and \<open>next\<close>
  fields. That they implement first fit and insertion with coalescing on the list of free
  regions is shown in Mem_Proofs, what the other components may rely on in Mem_Contract.
\<close>

subsection \<open>Data\<close>

record memory_header =
  mh_size :: u32
  mh_prev :: u32
  mh_next :: u32
  mh_sanity :: u32

record mem_state =
  headers :: "u32 \<Rightarrow> memory_header"
  g_free_list :: u32
  freemem :: int
  maxaddr :: u32

definition HOLESTART :: int where "HOLESTART = 640 * 1024"
definition HOLEEND :: int where "HOLEEND = (1024 + 600) * 1024"
definition KERNEL_STACK :: int where "KERNEL_STACK = 4 * 4096"

definition sizeof_header :: u32 where "sizeof_header = 16"

text \<open>\<open>block->data_start\<close> is the address just past the 16-byte header.\<close>

definition data_start :: "u32 \<Rightarrow> u32" where
  "data_start block = block + sizeof_header"

definition upd_header :: "u32 \<Rightarrow> (memory_header \<Rightarrow> memory_header) \<Rightarrow> mem_state \<Rightarrow> mem_state" where
  "upd_header a f s = s\<lparr>headers := (headers s)(a := f (headers s a))\<rparr>"

subsection \<open>Operations\<close>

definition kmem_maxaddr :: "mem_state \<Rightarrow> int" where
  "kmem_maxaddr s = sint (maxaddr s)"

definition kmem_freemem :: "mem_state \<Rightarrow> int" where
  "kmem_freemem s = freemem s"

definition round_to_paragraph :: "u32 \<Rightarrow> u32" where
  "round_to_paragraph val =
     (if val AND 0xf \<noteq> 0 then (val + 0x10) AND NOT 0xf else val)"

text \<open>The counting loop of \<open>kmem_get_free_list_length\<close>.\<close>

partial_function (option) free_list_count :: "mem_state \<Rightarrow> u32 \<Rightarrow> int \<Rightarrow> int option" where
  "free_list_count s ptr count =
     (if ptr = 0 then Some count
      else free_list_count s (mh_next (headers s ptr)) (s32 (count + 1)))"

definition kmem_get_free_list_length :: "mem_state \<Rightarrow> int option" where
  "kmem_get_free_list_length s = free_list_count s (g_free_list s) 0"

definition kmeminit :: "mem_state \<Rightarrow> mem_state option" where
  "kmeminit s = (
     let post = word_of_int HOLEEND;
         s = upd_header post (\<lambda>h. h\<lparr>mh_size := maxaddr s - word_of_int HOLEEND, mh_sanity := 0\<rparr>) s;
         memstart = round_to_paragraph (word_of_int (freemem s));
         s = s\<lparr>g_free_list := memstart\<rparr>;
         s = upd_header memstart
               (\<lambda>h. h\<lparr>mh_size := word_of_int HOLESTART - memstart, mh_sanity := 0\<rparr>) s;
         s = upd_header memstart (\<lambda>h. h\<lparr>mh_prev := 0, mh_next := post\<rparr>) s;
         s = upd_header post (\<lambda>h. h\<lparr>mh_prev := memstart, mh_next := 0\<rparr>) s
     in do {
       n \<leftarrow> kmem_get_free_list_length s;
       ASSERT (n = 2);
       Some s
     })"

definition split_free_block :: "u32 \<Rightarrow> u32 \<Rightarrow> mem_state \<Rightarrow> mem_state option" where
  "split_free_block block sz s = do {
     ASSERT (block \<noteq> 0);
     ASSERT (sz \<le> mh_size (headers s block));
     (if mh_size (headers s block) = sz then Some s
      else (
        let other_half = block + sz;
            s = upd_header other_half
                  (\<lambda>h. h\<lparr>mh_size := mh_size (headers s block) - sz, mh_prev := block,
                         mh_next := mh_next (headers s block), mh_sanity := 0\<rparr>) s;
            s = (if mh_next (headers s other_half) \<noteq> 0
                 then upd_header (mh_next (headers s other_half)) (\<lambda>h. h\<lparr>mh_prev := other_half\<rparr>) s
                 else s)
        in Some (upd_header block (\<lambda>h. h\<lparr>mh_next := other_half, mh_size := sz\<rparr>) s)))
   }"

text \<open>Taking \<open>curr\<close> off the free list, the body of the first-fit loop.\<close>

definition unlink_block :: "u32 \<Rightarrow> mem_state \<Rightarrow> mem_state" where
  "unlink_block cur s = (
     let s = (if mh_prev (headers s cur) \<noteq> 0
              then upd_header (mh_prev (headers s cur))
                     (\<lambda>h. h\<lparr>mh_next := mh_next (headers s cur)\<rparr>) s
              else s\<lparr>g_free_list := mh_next (headers s cur)\<rparr>)
     in (if mh_next (headers s cur) \<noteq> 0
         then upd_header (mh_next (headers s cur))
                (\<lambda>h. h\<lparr>mh_prev := mh_prev (headers s cur)\<rparr>) s
         else s))"

definition kmalloc_take :: "u32 \<Rightarrow> u32 \<Rightarrow> mem_state \<Rightarrow> (u32 \<times> mem_state) option" where
  "kmalloc_take size_required cur s = do {
     s \<leftarrow> split_free_block cur size_required s;
     let s = unlink_block cur s;
     let s = upd_header cur (\<lambda>h. h\<lparr>mh_size := size_required, mh_sanity := data_start cur\<rparr>) s;
     ASSERT (data_start cur AND 0xf = 0);
     Some (data_start cur, s)
   }"

partial_function (option) kmalloc_search ::
  "u32 \<Rightarrow> u32 \<Rightarrow> mem_state \<Rightarrow> (u32 \<times> mem_state) option" where
  "kmalloc_search size_required cur s =
     (if cur = 0 then Some (0, s)
      else if size_required \<le> mh_size (headers s cur) then kmalloc_take size_required cur s
      else kmalloc_search size_required (mh_next (headers s cur)) s)"

definition kmalloc :: "u32 \<Rightarrow> mem_state \<Rightarrow> (u32 \<times> mem_state) option" where
  "kmalloc sz s =
     (if sz = 0 \<or> word_of_int (kmem_maxaddr s) \<le> sz then Some (0, s)
      else kmalloc_search (round_to_paragraph sz + sizeof_header) (g_free_list s) s)"

definition coalesce_blocks :: "u32 \<Rightarrow> u32 \<Rightarrow> mem_state \<Rightarrow> int \<times> mem_state" where
  "coalesce_blocks block1 block2 s =
     (if block1 = 0 \<or> block2 = 0 then (0, s)
      else if block1 + mh_size (headers s block1) = block2 then
        (let s = upd_header block1 (\<lambda>h. h\<lparr>mh_next := mh_next (headers s block2)\<rparr>) s;
             s = (if mh_next (headers s block1) \<noteq> 0
                  then upd_header (mh_next (headers s block1)) (\<lambda>h. h\<lparr>mh_prev := block1\<rparr>) s
                  else s)
         in (1, upd_header block1
                  (\<lambda>h. h\<lparr>mh_size := mh_size (headers s block1) + mh_size (headers s block2)\<rparr>) s))
      else (0, s))"

text \<open>The walk of \<open>kfree\<close> to the place of the freed block: the pair of \<open>prev\<close> and \<open>curr\<close>.\<close>

partial_function (option) kfree_place ::
  "mem_state \<Rightarrow> u32 \<Rightarrow> u32 \<Rightarrow> u32 \<Rightarrow> (u32 \<times> u32) option" where
  "kfree_place s to_free prev cur =
     (if cur \<noteq> 0 \<and> cur < to_free
      then kfree_place s to_free cur (mh_next (headers s cur))
      else Some (prev, cur))"

text \<open>Linking \<open>to_free\<close> between \<open>prev\<close> and \<open>curr\<close>.\<close>

definition kfree_insert :: "u32 \<Rightarrow> u32 \<Rightarrow> u32 \<Rightarrow> mem_state \<Rightarrow> mem_state" where
  "kfree_insert to_free prev cur s = (
     let s = (if prev = 0 then s\<lparr>g_free_list := to_free\<rparr>
              else upd_header prev (\<lambda>h. h\<lparr>mh_next := to_free\<rparr>) s);
         s = upd_header to_free (\<lambda>h. h\<lparr>mh_prev := prev, mh_next := cur\<rparr>) s
     in (if cur \<noteq> 0 then upd_header cur (\<lambda>h. h\<lparr>mh_prev := to_free\<rparr>) s else s))"

definition kfree :: "u32 \<Rightarrow> mem_state \<Rightarrow> mem_state option" where
  "kfree ptr s =
     (if ptr = 0 then Some s
      else do {
        ASSERT (ptr AND 0xf = 0);
        let to_free = ptr - sizeof_header;
        ASSERT (mh_sanity (headers s to_free) = ptr);
        (prev, cur) \<leftarrow> kfree_place s to_free 0 (g_free_list s);
        let s = kfree_insert to_free prev cur s;
        let s = snd (coalesce_blocks to_free (mh_next (headers s to_free)) s);
        let s = snd (coalesce_blocks (mh_prev (headers s to_free)) to_free s);
        Some s
      })"

end
