(* ===== verification/I386.thy ===== *)
theory I386
  imports Prelude
begin

text \<open>
  c/i386.c and c/evec.c: segment limits and memory size, the two 8259A interrupt
  controllers, the interval timer and the interrupt descriptor table. A port reads back what
  was last written to it (true of the controllers' mask registers, the only ports the kernel
  reads here); \<open>out_log\<close> keeps the sequence of writes, which is what the chips see.
\<close>

record io_state =
  ports :: "u32 \<Rightarrow> u8"
  out_log :: "(u32 \<times> u8) list"
  interrupts_on :: bool

definition outb :: "u32 \<Rightarrow> u8 \<Rightarrow> io_state \<Rightarrow> io_state" where
  "outb port val s = s\<lparr>ports := (ports s)(port := val), out_log := out_log s @ [(port, val)]\<rparr>"

definition inb :: "u32 \<Rightarrow> io_state \<Rightarrow> u8" where
  "inb port s = ports s port"

definition ICU1 :: u32 where "ICU1 = 0x20"
definition ICU2 :: u32 where "ICU2 = 0xA0"
definition TIMER_IRQ :: u32 where "TIMER_IRQ = 0"
definition KEYBOARD_IRQ :: u32 where "KEYBOARD_IRQ = 1"
definition TIMER_1_PORT :: u32 where "TIMER_1_PORT = 0x40"
definition TIMER_MODE :: u32 where "TIMER_MODE = TIMER_1_PORT + 3"

text \<open>\<open>TIMER_DIV(x)\<close>: the divisor of the 1193182 Hz clock nearest to \<open>x\<close> interrupts a second.\<close>

definition TIMER_DIV :: "int \<Rightarrow> int" where
  "TIMER_DIV x = (1193182 + x div 2) div x"

subsection \<open>Memory size\<close>

definition sizmem :: int where "sizmem = 1024"

definition NBPG :: int where "NBPG = 4096"

text \<open>Segment descriptors: a segment starts at its base and ends in the page its limit names.\<close>

record sd =
  sd_lolimit :: "16 word"
  sd_lobase :: "16 word"
  sd_midbase :: u8
  sd_perm :: nat
  sd_iscode :: nat
  sd_isapp :: nat
  sd_dpl :: nat
  sd_present :: nat
  sd_hilimit :: "4 word"
  sd_avl :: nat
  sd_mbz :: nat
  sd_32b :: nat
  sd_gran :: nat
  sd_hibase :: u8

definition NGD :: nat where "NGD = 8"

definition null_sd :: sd where
  "null_sd = \<lparr>sd_lolimit = 0, sd_lobase = 0, sd_midbase = 0, sd_perm = 0, sd_iscode = 0, sd_isapp = 0, sd_dpl = 0,
     sd_present = 0, sd_hilimit = 0, sd_avl = 0, sd_mbz = 0, sd_32b = 0, sd_gran = 0, sd_hibase = 0\<rparr>"

definition kernel_sd :: "nat \<Rightarrow> nat \<Rightarrow> sd" where
  "kernel_sd perm iscode = \<lparr>sd_lolimit = 0xffff, sd_lobase = 0, sd_midbase = 0, sd_perm = perm, sd_iscode = iscode,
     sd_isapp = 1, sd_dpl = 0, sd_present = 1, sd_hilimit = 0xf, sd_avl = 0, sd_mbz = 0, sd_32b = 1, sd_gran = 1,
     sd_hibase = 0\<rparr>"

definition gdt_copy :: "sd list" where
  "gdt_copy = [null_sd, kernel_sd 6 1, kernel_sd 2 0, kernel_sd 2 0, kernel_sd 6 1] @ replicate (NGD - 5) null_sd"

definition set_limit :: "u32 \<Rightarrow> sd \<Rightarrow> sd" where
  "set_limit np psd = psd\<lparr>sd_lolimit := ucast np, sd_hilimit := ucast (drop_bit 16 np)\<rparr>"

text \<open>The table and the three variables \<open>setsegs\<close> sets, from the ends of the code and of the image.\<close>

record segs =
  seg_maxaddr :: u32
  seg_initsp :: int
  seg_freemem :: int
  seg_gdt :: "sd list"

definition code_pages :: "int \<Rightarrow> int" where
  "code_pages etext = (let e = s32 (etext + NBPG - 1) in if e < 0 then - (- e div NBPG) else e div NBPG)"

definition setsegs :: "int \<Rightarrow> int \<Rightarrow> segs" where
  "setsegs etext end_image =
     (let npages = sizmem;
          np = code_pages etext;
          gdt = gdt_copy;
          gdt = gdt[1 := set_limit (word_of_int np) (gdt ! 1)];
          gdt = gdt[2 := set_limit (word_of_int npages) (gdt ! 2)];
          gdt = gdt[3 := set_limit (word_of_int npages) (gdt ! 3)];
          gdt = gdt[4 := set_limit (word_of_int npages) (gdt ! 4)]
      in \<lparr>seg_maxaddr = word_of_int (npages * NBPG - 1),
          seg_initsp = s32 (end_image + 4 * 4096 - 4),
          seg_freemem = s32 (end_image + 4 * 4096),
          seg_gdt = gdt\<rparr>)"

subsection \<open>Interrupt controllers and timer\<close>

text \<open>\<open>disable\<close> of c/intr.S turns interrupts off and masks every line of both controllers.\<close>

definition disable_interrupts :: "io_state \<Rightarrow> io_state" where
  "disable_interrupts s = outb (ICU1 + 1) 0xff (outb (ICU2 + 1) 0xff (s\<lparr>interrupts_on := False\<rparr>))"

definition init8259 :: "io_state \<Rightarrow> io_state" where
  "init8259 s = disable_interrupts (fold (\<lambda>(p, v). outb p v)
     [(ICU1, 0x11), (ICU1 + 1, 0x20), (ICU1 + 1, 0x4), (ICU1 + 1, 0x1), (ICU1, 0xb),
      (ICU2, 0x11), (ICU2 + 1, 0x28), (ICU2 + 1, 0x2), (ICU2 + 1, 0xb), (ICU2, 0xb)] s)"

definition enable_irq :: "u32 \<Rightarrow> int \<Rightarrow> io_state \<Rightarrow> io_state" where
  "enable_irq irq dis s =
     (let port = (if irq < 8 then ICU1 + 1 else ICU2 + 1);
          irq = (if irq < 8 then irq else irq - 8);
          val = inb port s;
          val = (if dis \<noteq> 0 then val OR push_bit (unat irq) 1
                 else val AND NOT (push_bit (unat irq) 1))
      in outb port val s)"

definition initPIT :: "int \<Rightarrow> io_state \<Rightarrow> io_state" where
  "initPIT divisor s =
     (let s = outb TIMER_MODE (0x00 OR 0x04 OR 0x30) s;
          s = outb TIMER_1_PORT (word_of_int (TIMER_DIV divisor AND 0xff)) s;
          s = outb TIMER_1_PORT (word_of_int (drop_bit 8 (TIMER_DIV divisor))) s
      in enable_irq TIMER_IRQ 0 s)"

definition setEnabledKbd :: "int \<Rightarrow> io_state \<Rightarrow> io_state" where
  "setEnabledKbd enable s = enable_irq KEYBOARD_IRQ (if enable \<noteq> 0 then 0 else 1) s"

definition end_of_intr :: "io_state \<Rightarrow> io_state" where
  "end_of_intr s = outb ICU2 0x20 (outb ICU1 0x20 s)"

subsection \<open>Interrupt descriptors (c/evec.c, h/i386.h)\<close>

record idt_entry =
  igd_loffset :: "16 word"
  igd_segsel :: "16 word"
  igd_mbz :: nat
  igd_type :: nat
  igd_dpl :: nat
  igd_present :: nat
  igd_hoffset :: "16 word"

definition zero_idt_entry :: idt_entry where
  "zero_idt_entry = \<lparr>igd_loffset = 0, igd_segsel = 0, igd_mbz = 0, igd_type = 0, igd_dpl = 0,
     igd_present = 0, igd_hoffset = 0\<rparr>"

definition set_evec :: "nat \<Rightarrow> u32 \<Rightarrow> (nat \<Rightarrow> idt_entry) \<Rightarrow> (nat \<Rightarrow> idt_entry)" where
  "set_evec xnum handler idt = idt(xnum :=
     (idt xnum)\<lparr>igd_loffset := ucast handler, igd_segsel := 0x8, igd_mbz := 0, igd_type := 15,
                igd_dpl := 0, igd_present := 1, igd_hoffset := ucast (drop_bit 16 handler)\<rparr>)"

definition NID :: nat where "NID = 48"

definition initevec :: "(nat \<Rightarrow> u32) \<Rightarrow> io_state \<Rightarrow> (nat \<Rightarrow> idt_entry) \<times> io_state" where
  "initevec defevec s =
     (fold (\<lambda>i idt. set_evec i (defevec i) idt) [0..<NID] (\<lambda>_. zero_idt_entry), init8259 s)"

text \<open>The handler the processor finds in an entry.\<close>

definition gate_target :: "idt_entry \<Rightarrow> u32" where
  "gate_target e = ucast (igd_loffset e) OR push_bit 16 (ucast (igd_hoffset e))"

subsection \<open>Facts\<close>

lemma outb_simps [simp]:
  "ports (outb p v s) = (ports s)(p := v)"
  "out_log (outb p v s) = out_log s @ [(p, v)]"
  "interrupts_on (outb p v s) = interrupts_on s"
  by (simp_all add: outb_def)

lemma gate_target_set_evec: "gate_target (set_evec n h idt n) = h"
  unfolding gate_target_def set_evec_def
  by (rule bit_word_eqI) (auto simp: bit_simps)

lemma set_evec_other: "m \<noteq> n \<Longrightarrow> set_evec n h idt m = idt m"
  by (simp add: set_evec_def)

lemma fold_set_evec:
  "gate_target (fold (\<lambda>i idt. set_evec i (d i) idt) [0..<n] idt m) =
     (if m < n then d m else gate_target (idt m))"
  by (induction n) (auto simp: gate_target_set_evec set_evec_other less_Suc_eq)

lemma initevec_targets: "m < NID \<Longrightarrow> gate_target (fst (initevec d s) m) = d m"
  by (simp add: initevec_def fold_set_evec)

text \<open>The port and bit of an interrupt line.\<close>

definition irq_port :: "u32 \<Rightarrow> u32" where
  "irq_port irq = (if irq < 8 then ICU1 + 1 else ICU2 + 1)"

definition irq_masked :: "u32 \<Rightarrow> io_state \<Rightarrow> bool" where
  "irq_masked irq s = bit (ports s (irq_port irq)) (unat (if irq < 8 then irq else irq - 8))"

lemma irq_bit_less: "irq < 16 \<Longrightarrow> unat (if irq < 8 then irq else irq - 8 :: u32) < 8"
  by (auto simp: word_less_nat_alt unat_sub_if' word_le_nat_alt)

lemma irq_bit_inj:
  "irq < 16 \<Longrightarrow> irq' < 16 \<Longrightarrow> irq_port irq = irq_port irq' \<Longrightarrow>
   unat (if irq < 8 then irq else irq - 8 :: u32) = unat (if irq' < 8 then irq' else irq' - 8) \<Longrightarrow>
   irq = irq'"
  by (auto simp: irq_port_def ICU1_def ICU2_def split: if_splits dest!: word_unat_eq_iff [THEN iffD2])

lemma enable_irq_masked:
  assumes "irq < 16"
  shows "irq_masked irq (enable_irq irq dis s) \<longleftrightarrow> dis \<noteq> 0"
  using irq_bit_less [OF assms]
  by (auto simp: irq_masked_def enable_irq_def irq_port_def Let_def inb_def bit_simps)

lemma enable_irq_frame:
  assumes "irq < 16" and "irq' < 16" and "irq' \<noteq> irq"
  shows "irq_masked irq' (enable_irq irq dis s) = irq_masked irq' s"
proof -
  let ?b = "\<lambda>i :: u32. unat (if i < 8 then i else i - 8)"
  have "irq_port irq' \<noteq> irq_port irq \<or> ?b irq' \<noteq> ?b irq"
    using irq_bit_inj [OF assms(2,1)] assms(3) by blast
  then show ?thesis
    using irq_bit_less [OF assms(1)] irq_bit_less [OF assms(2)]
    by (auto simp: irq_masked_def enable_irq_def irq_port_def Let_def inb_def bit_simps)
qed

text \<open>After the controllers' initialisation every line is masked; the clock's is the first one opened.\<close>

lemma all_lines: "n < 8 \<Longrightarrow> bit (0xff :: u8) n"
proof -
  have "(0xff :: u8) = - 1" by simp
  then show "n < 8 \<Longrightarrow> bit (0xff :: u8) n" by (simp only: bit_minus_1_iff possible_bit_word) simp
qed

lemma init8259_masked: "irq < 16 \<Longrightarrow> irq_masked irq (init8259 s)"
  using all_lines [OF irq_bit_less [of irq]]
  by (auto simp: irq_masked_def init8259_def disable_interrupts_def irq_port_def ICU1_def ICU2_def)

lemma initPIT_masked:
  assumes "irq < 16"
  shows "irq_masked irq (initPIT d s) \<longleftrightarrow> irq \<noteq> TIMER_IRQ \<and> irq_masked irq s"
proof -
  have "irq_masked irq (outb p v s') = irq_masked irq s'" if "p \<noteq> ICU1 + 1" "p \<noteq> ICU2 + 1" for p v s'
    using that by (simp add: irq_masked_def irq_port_def)
  moreover have "TIMER_IRQ < 16" by (simp add: TIMER_IRQ_def)
  ultimately show ?thesis
    using assms enable_irq_masked [of TIMER_IRQ 0] enable_irq_frame [of TIMER_IRQ irq]
    by (cases "irq = TIMER_IRQ") (simp_all add: initPIT_def Let_def TIMER_MODE_def TIMER_1_PORT_def ICU1_def ICU2_def)
qed

lemma only_clock_enabled:
  "irq < 16 \<Longrightarrow> irq_masked irq (initPIT d (init8259 s)) \<longleftrightarrow> irq \<noteq> TIMER_IRQ"
  by (simp add: initPIT_masked init8259_masked)

text \<open>The processor's reading of a descriptor, and the size of a segment in bytes.\<close>

definition sd_base :: "sd \<Rightarrow> u32" where
  "sd_base d = ucast (sd_lobase d) OR push_bit 16 (ucast (sd_midbase d)) OR push_bit 24 (ucast (sd_hibase d))"

definition sd_bytes :: "sd \<Rightarrow> int" where
  "sd_bytes d = (uint (sd_hilimit d) * 2 ^ 16 + uint (sd_lolimit d) + 1) * (if sd_gran d = 1 then NBPG else 1)"

text \<open>The data segments start at 0 and have one page more than the memory the kernel counts on: a limit
  is the number of the last page.\<close>

lemma data_segments:
  assumes "i \<in> {2, 3, 4}"
  shows "sd_base (seg_gdt (setsegs etext e) ! i) = 0"
    and "sd_bytes (seg_gdt (setsegs etext e) ! i) = uint (seg_maxaddr (setsegs etext e)) + 1 + NBPG"
  using assms
  by (auto simp: setsegs_def Let_def gdt_copy_def set_limit_def kernel_sd_def null_sd_def NGD_def sd_base_def sd_bytes_def
      sizmem_def NBPG_def)

end
