(* ===== verification/Kernel.thy ===== *)
theory Kernel
  imports Mem I386
begin

text \<open>
  The data of the kernel (h/xeroskernel.h and the globals of c/pcb.c, c/sleep.c, c/disp.c and
  c/kbd.c): process control blocks, queues, keyboard, and the whole machine state the
  handlers work on. A pointer to a control block is \<open>pcbref option\<close>: entry \<open>i\<close> of
  \<open>g_pcb_table\<close>, or the idle process.
\<close>

subsection \<open>Constants\<close>

definition OK :: int where "OK = 1"
definition SYSERR :: int where "SYSERR = -1"
definition BLOCKERR :: int where "BLOCKERR = -5"
definition EINVAL :: int where "EINVAL = -6"
definition ENOMEM :: int where "ENOMEM = -7"
definition EPROCLIMIT :: int where "EPROCLIMIT = -8"
definition EBADF :: int where "EBADF = -11"
definition EBUSY :: int where "EBUSY = -13"

definition DEFAULT_STACK_SIZE :: int where "DEFAULT_STACK_SIZE = 8192"
definition TICK_LENGTH_IN_MS :: int where "TICK_LENGTH_IN_MS = 10"

definition PCB_TABLE_SIZE :: nat where "PCB_TABLE_SIZE = 32"
definition PCB_NUM_FDS :: nat where "PCB_NUM_FDS = 4"
definition SIGNAL_TABLE_SIZE :: nat where "SIGNAL_TABLE_SIZE = 32"

definition SYSPID_OK :: int where "SYSPID_OK = 0"
definition SYSPID_DNE :: int where "SYSPID_DNE = -1"
definition SYSPID_ME :: int where "SYSPID_ME = -2"
definition SYSERR_OTHER :: int where "SYSERR_OTHER = -3"
definition SYSKILL_TARGET_DNE :: int where "SYSKILL_TARGET_DNE = -712"
definition SYSKILL_INVALID_SIGNAL :: int where "SYSKILL_INVALID_SIGNAL = -651"
definition SYSWAIT_SIGNALLED :: int where "SYSWAIT_SIGNALLED = -2"
definition SYSHANDLER_INVALID_SIGNAL :: int where "SYSHANDLER_INVALID_SIGNAL = -1"
definition SYSHANDLER_INVALID_FUNCPTR :: int where "SYSHANDLER_INVALID_FUNCPTR = -2"
definition PROC_SIGNALLED :: int where "PROC_SIGNALLED = -362"
definition SIGNAL_DNE :: int where "SIGNAL_DNE = -2"

lemmas const_defs = OK_def SYSERR_def BLOCKERR_def EINVAL_def ENOMEM_def EPROCLIMIT_def EBADF_def
  EBUSY_def DEFAULT_STACK_SIZE_def TICK_LENGTH_IN_MS_def PCB_TABLE_SIZE_def PCB_NUM_FDS_def
  SIGNAL_TABLE_SIZE_def SYSPID_OK_def SYSPID_DNE_def SYSPID_ME_def SYSERR_OTHER_def
  SYSKILL_TARGET_DNE_def SYSKILL_INVALID_SIGNAL_def SYSWAIT_SIGNALLED_def
  SYSHANDLER_INVALID_SIGNAL_def SYSHANDLER_INVALID_FUNCPTR_def PROC_SIGNALLED_def SIGNAL_DNE_def

subsection \<open>Process control blocks\<close>

datatype pcbref = Table nat | IdleProc

datatype proc_state =
  PROC_STATE_READY | PROC_STATE_STOPPED | PROC_STATE_RUNNING | PROC_STATE_BLOCKED

fun proc_state_num :: "proc_state \<Rightarrow> int" where
  "proc_state_num PROC_STATE_READY = 0"
| "proc_state_num PROC_STATE_STOPPED = 1"
| "proc_state_num PROC_STATE_RUNNING = 2"
| "proc_state_num PROC_STATE_BLOCKED = 3"

datatype blocking_queue =
  SENDER | RECEIVER | WAITING | RECEIVE_ANY | SLEEP | DEVICE | NO_BLOCKER

fun blocking_queue_num :: "blocking_queue \<Rightarrow> int" where
  "blocking_queue_num SENDER = 0"
| "blocking_queue_num RECEIVER = 1"
| "blocking_queue_num WAITING = 2"
| "blocking_queue_num RECEIVE_ANY = 3"
| "blocking_queue_num SLEEP = 4"
| "blocking_queue_num DEVICE = 5"
| "blocking_queue_num NO_BLOCKER = 6"

text \<open>The two arrays of three queue pointers exist for the first three names only.\<close>

definition has_queue :: "blocking_queue \<Rightarrow> bool" where
  "has_queue q \<longleftrightarrow> q \<in> {SENDER, RECEIVER, WAITING}"

record pcb =
  pid :: int
  curr_state :: proc_state
  next_proc :: "pcbref option"
  prev_proc :: "pcbref option"
  cpu_time :: int
  memory_region :: u32
  esp :: u32
  args :: u32
  ret :: int
  signal_table :: u32
  signals_fired :: u32
  signals_enabled :: int
  fd_table :: "nat \<Rightarrow> nat option"
  blocking_proc :: "pcbref option"
  blocking_queue_name :: blocking_queue
  blocking_queue_heads :: "blocking_queue \<Rightarrow> pcbref option"
  blocking_queue_tails :: "blocking_queue \<Rightarrow> pcbref option"

text \<open>A control block after \<open>memset(proc, 0, sizeof(proc_ctrl_block_t))\<close>.\<close>

definition zero_pcb :: pcb where
  "zero_pcb = \<lparr>pid = 0, curr_state = PROC_STATE_READY, next_proc = None, prev_proc = None,
     cpu_time = 0, memory_region = 0, esp = 0, args = 0, ret = 0, signal_table = 0,
     signals_fired = 0, signals_enabled = 0, fd_table = (\<lambda>_. None), blocking_proc = None,
     blocking_queue_name = SENDER, blocking_queue_heads = (\<lambda>_. None),
     blocking_queue_tails = (\<lambda>_. None)\<rparr>"

subsection \<open>Keyboard data\<close>

record kbd_task =
  kt_pcb :: "pcbref option"
  kt_buf :: u32
  kt_buflen :: int
  kt_i :: int
  kt_waiting :: bool

record kbd_state =
  kbd_task_list :: "nat \<Rightarrow> kbd_task"
  kbd_task_refcount :: int
  kbd_refcount :: int
  kbd_current_type :: int
  kbd_done :: bool
  keystate_flag :: u32
  keyboard_buffer :: "nat \<Rightarrow> u8"
  buffer_head :: nat
  buffer_tail :: nat
  keyboard_eof :: u8
  keyboard_echo_flag :: u8

subsection \<open>Devices\<close>

text \<open>
  An entry of \<open>g_device_table\<close>. The function pointers of an entry are those of one driver;
  the keyboard's are the only ones the source has, and before initialisation they are null.
  \<open>dvioblk\<close> points to the device's block, one \<open>int\<close> in allocated memory.
\<close>

datatype driver = NullDriver | KbdDriver

record devsw =
  dvname :: string
  dvdriver :: driver
  dvioblk :: u32
  dvminor :: int

definition DEVICE_ID_KEYBOARD_NO_ECHO :: nat where "DEVICE_ID_KEYBOARD_NO_ECHO = 0"
definition DEVICE_ID_KEYBOARD :: nat where "DEVICE_ID_KEYBOARD = 1"
definition NUM_DEVICES_ID_ENUMS :: nat where "NUM_DEVICES_ID_ENUMS = 2"

subsection \<open>The kernel state\<close>

text \<open>
  Link-time addresses the code takes with \<open>&\<close>, the code segment selector, and the words of the
  kernel stack that a variable-argument call finds past its last argument.
\<close>

record image =
  addr_sysstop :: u32
  addr_sigtramp :: u32
  addr_idleproc :: u32
  code_segment :: "16 word"
  stack_junk :: "nat \<Rightarrow> u32"

record kernel =
  ram :: bytes
  heap :: mem_state
  image :: image
  procs :: "pcbref \<Rightarrow> pcb"
  queue_heads :: "proc_state \<Rightarrow> pcbref option"
  queue_tails :: "proc_state \<Rightarrow> pcbref option"
  sleeping_list :: "pcbref option"
  currproc :: pcbref
  kbd :: kbd_state
  device_table :: "nat \<Rightarrow> devsw"
  io :: io_state
  console :: "u8 list"

definition upd_proc :: "pcbref \<Rightarrow> (pcb \<Rightarrow> pcb) \<Rightarrow> kernel \<Rightarrow> kernel" where
  "upd_proc p f s = s\<lparr>procs := (procs s)(p := f (procs s p))\<rparr>"

definition upd_kbd :: "(kbd_state \<Rightarrow> kbd_state) \<Rightarrow> kernel \<Rightarrow> kernel" where
  "upd_kbd f s = s\<lparr>kbd := f (kbd s)\<rparr>"

definition write32 :: "u32 \<Rightarrow> u32 \<Rightarrow> kernel \<Rightarrow> kernel" where
  "write32 a v s = s\<lparr>ram := store32 (ram s) a v\<rparr>"

definition read32 :: "u32 \<Rightarrow> kernel \<Rightarrow> u32" where
  "read32 a s = load32 (ram s) a"

definition set_ret :: "pcbref \<Rightarrow> int \<Rightarrow> kernel \<Rightarrow> kernel" where
  "set_ret p v = upd_proc p (\<lambda>c. c\<lparr>ret := v\<rparr>)"

text \<open>Characters sent to the console.\<close>

definition put_chars :: "u8 list \<Rightarrow> kernel \<Rightarrow> kernel" where
  "put_chars cs s = s\<lparr>console := console s @ cs\<rparr>"

text \<open>\<open>kmalloc\<close> and \<open>kfree\<close> on the kernel state.\<close>

definition k_malloc :: "u32 \<Rightarrow> kernel \<Rightarrow> (u32 \<times> kernel) option" where
  "k_malloc sz s = map_option (\<lambda>(p, h). (p, s\<lparr>heap := h\<rparr>)) (kmalloc sz (heap s))"

definition k_free :: "u32 \<Rightarrow> kernel \<Rightarrow> kernel option" where
  "k_free p s = map_option (\<lambda>h. s\<lparr>heap := h\<rparr>) (kfree p (heap s))"

lemma upd_proc_simps [simp]:
  "procs (upd_proc p f s) = (procs s)(p := f (procs s p))"
  "ram (upd_proc p f s) = ram s" "heap (upd_proc p f s) = heap s"
  "image (upd_proc p f s) = image s"
  "queue_heads (upd_proc p f s) = queue_heads s" "queue_tails (upd_proc p f s) = queue_tails s"
  "sleeping_list (upd_proc p f s) = sleeping_list s" "currproc (upd_proc p f s) = currproc s"
  "kbd (upd_proc p f s) = kbd s" "device_table (upd_proc p f s) = device_table s"
  "io (upd_proc p f s) = io s" "console (upd_proc p f s) = console s"
  by (simp_all add: upd_proc_def)

lemma upd_kbd_simps [simp]:
  "kbd (upd_kbd g s) = g (kbd s)" "procs (upd_kbd g s) = procs s"
  "ram (upd_kbd g s) = ram s" "heap (upd_kbd g s) = heap s"
  "image (upd_kbd g s) = image s"
  "queue_heads (upd_kbd g s) = queue_heads s" "queue_tails (upd_kbd g s) = queue_tails s"
  "sleeping_list (upd_kbd g s) = sleeping_list s" "currproc (upd_kbd g s) = currproc s"
  "device_table (upd_kbd g s) = device_table s"
  "io (upd_kbd g s) = io s" "console (upd_kbd g s) = console s"
  by (simp_all add: upd_kbd_def)

lemma write32_simps [simp]:
  "ram (write32 a v s) = store32 (ram s) a v" "procs (write32 a v s) = procs s"
  "heap (write32 a v s) = heap s" "image (write32 a v s) = image s"
  "queue_heads (write32 a v s) = queue_heads s" "queue_tails (write32 a v s) = queue_tails s"
  "sleeping_list (write32 a v s) = sleeping_list s" "currproc (write32 a v s) = currproc s"
  "kbd (write32 a v s) = kbd s" "device_table (write32 a v s) = device_table s"
  "io (write32 a v s) = io s" "console (write32 a v s) = console s"
  by (simp_all add: write32_def)

end
