(* ===== verification/Queues.thy ===== *)
theory Queues
  imports Kernel
begin

text \<open>
  The process queues of c/pcb.c: the two primitives that add a control block to, or remove it
  from, a doubly linked queue given by a head and a tail pointer, the ready and stopped queues
  and their sanity walk, and the queues of processes blocked on another process. An argument of
  type \<open>pcbref\<close> is a non-null pointer, so its \<open>ASSERT(proc != NULL)\<close> holds by its type.
\<close>

type_synonym proc_map = "pcbref \<Rightarrow> pcb"
type_synonym proc_queue = "pcbref option \<times> pcbref option \<times> proc_map"

subsection \<open>The two primitives\<close>

definition add_proc_to_queue :: "pcbref \<Rightarrow> proc_queue \<Rightarrow> proc_queue option" where
  "add_proc_to_queue proc = (\<lambda>(head, tail, ps). do {
     (head, ps) \<leftarrow> (case head of
         None \<Rightarrow> Some (Some proc, ps)
       | Some h \<Rightarrow> (case tail of
           None \<Rightarrow> None
         | Some t \<Rightarrow> Some (head, ps(t := (ps t)\<lparr>next_proc := Some proc\<rparr>))));
     let ps = ps(proc := (ps proc)\<lparr>prev_proc := tail, next_proc := None\<rparr>);
     Some (head, Some proc, ps)
   })"

definition remove_proc_from_queue :: "pcbref \<Rightarrow> proc_queue \<Rightarrow> proc_queue" where
  "remove_proc_from_queue proc = (\<lambda>(head, tail, ps).
     let ps = (case prev_proc (ps proc) of
           None \<Rightarrow> ps
         | Some q \<Rightarrow> ps(q := (ps q)\<lparr>next_proc := next_proc (ps proc)\<rparr>));
         ps = (case next_proc (ps proc) of
           None \<Rightarrow> ps
         | Some q \<Rightarrow> ps(q := (ps q)\<lparr>prev_proc := prev_proc (ps proc)\<rparr>));
         head = (if head = Some proc then next_proc (ps proc) else head);
         tail = (if tail = Some proc then prev_proc (ps proc) else tail)
     in (head, tail, ps(proc := (ps proc)\<lparr>prev_proc := None, next_proc := None\<rparr>)))"

subsection \<open>The sanity walk\<close>

partial_function (option) verify_walk :: "proc_map \<Rightarrow> proc_state \<Rightarrow> pcbref \<Rightarrow> unit option" where
  "verify_walk ps i cur =
     (case next_proc (ps cur) of
        Some n \<Rightarrow> do {
          ASSERT (curr_state (ps cur) = i);
          p \<leftarrow> prev_proc (ps cur);
          ASSERT (next_proc (ps p) = Some cur);
          ASSERT (prev_proc (ps n) = Some cur);
          verify_walk ps i n
        }
      | None \<Rightarrow> do {
          (case prev_proc (ps cur) of
             Some p \<Rightarrow> ASSERT (next_proc (ps p) = Some cur)
           | None \<Rightarrow> Some ());
          ASSERT (curr_state (ps cur) = i);
          ASSERT (next_proc (ps cur) = None)
        })"

definition verify_queue :: "proc_map \<Rightarrow> proc_state \<Rightarrow> pcbref option \<Rightarrow> unit option" where
  "verify_queue ps i head =
     (case head of
        None \<Rightarrow> Some ()
      | Some cur \<Rightarrow> do {
          ASSERT (prev_proc (ps cur) = None);
          ASSERT (curr_state (ps cur) = i);
          cur \<leftarrow> (case next_proc (ps cur) of
              Some n \<Rightarrow> do { ASSERT (prev_proc (ps n) = Some cur); Some n }
            | None \<Rightarrow> Some cur);
          verify_walk ps i cur
        })"

definition verify_pcb_queues :: "kernel \<Rightarrow> unit option" where
  "verify_pcb_queues s = do {
     verify_queue (procs s) PROC_STATE_READY (queue_heads s PROC_STATE_READY);
     verify_queue (procs s) PROC_STATE_STOPPED (queue_heads s PROC_STATE_STOPPED)
   }"

subsection \<open>Ready and stopped queues\<close>

text \<open>\<open>new_state < NUM_G_PROC_QUEUES\<close>: only the first two states have a queue.\<close>

definition has_proc_queue :: "proc_state \<Rightarrow> bool" where
  "has_proc_queue st \<longleftrightarrow> 0 \<le> proc_state_num st \<and> proc_state_num st < 2"

definition get_pcb_queue :: "proc_state \<Rightarrow> kernel \<Rightarrow> proc_queue" where
  "get_pcb_queue st s = (queue_heads s st, queue_tails s st, procs s)"

definition put_pcb_queue :: "proc_state \<Rightarrow> proc_queue \<Rightarrow> kernel \<Rightarrow> kernel" where
  "put_pcb_queue st = (\<lambda>(h, t, ps) s. s\<lparr>procs := ps, queue_heads := (queue_heads s)(st := h),
     queue_tails := (queue_tails s)(st := t)\<rparr>)"

definition add_pcb_to_queue :: "pcbref \<Rightarrow> proc_state \<Rightarrow> kernel \<Rightarrow> kernel option" where
  "add_pcb_to_queue proc new_state s = do {
     ASSERT (curr_state (procs s proc) \<noteq> new_state);
     ASSERT (has_proc_queue new_state);
     let s = upd_proc proc (\<lambda>c. c\<lparr>curr_state := new_state\<rparr>) s;
     (if pid (procs s proc) = 0 then Some s
      else do {
        q \<leftarrow> add_proc_to_queue proc (get_pcb_queue new_state s);
        let s = put_pcb_queue new_state q s;
        verify_pcb_queues s;
        Some s
      })
   }"

definition remove_pcb_from_queue :: "pcbref \<Rightarrow> kernel \<Rightarrow> kernel option" where
  "remove_pcb_from_queue proc s = do {
     ASSERT (curr_state (procs s proc) \<noteq> PROC_STATE_RUNNING);
     ASSERT (has_proc_queue (curr_state (procs s proc)));
     let state = curr_state (procs s proc);
     let s = put_pcb_queue state (remove_proc_from_queue proc (get_pcb_queue state s)) s;
     verify_pcb_queues s;
     Some s
   }"

definition get_next_proc :: "kernel \<Rightarrow> (pcbref \<times> kernel) option" where
  "get_next_proc s = do {
     (proc, s) \<leftarrow> (case queue_heads s PROC_STATE_READY of
         Some p \<Rightarrow> do { s \<leftarrow> remove_pcb_from_queue p s; Some (p, s) }
       | None \<Rightarrow> Some (IdleProc, s));
     Some (proc, upd_proc proc (\<lambda>c. c\<lparr>curr_state := PROC_STATE_RUNNING\<rparr>) s)
   }"

definition get_idleproc :: pcbref where "get_idleproc = IdleProc"

text \<open>The C remainder truncates toward zero; the argument here is not negative.\<close>

definition pid_to_proc :: "int \<Rightarrow> kernel \<Rightarrow> pcbref option" where
  "pid_to_proc n s =
     (if 1 \<le> n then
        (let p = Table (nat ((n - 1) mod int PCB_TABLE_SIZE))
         in if pid (procs s p) = n \<and> curr_state (procs s p) \<noteq> PROC_STATE_STOPPED then Some p else None)
      else None)"

subsection \<open>Queues of blocked processes\<close>

definition get_blocking_queue :: "pcbref \<Rightarrow> blocking_queue \<Rightarrow> kernel \<Rightarrow> proc_queue" where
  "get_blocking_queue w q s =
     (blocking_queue_heads (procs s w) q, blocking_queue_tails (procs s w) q, procs s)"

definition put_blocking_queue ::
  "pcbref \<Rightarrow> blocking_queue \<Rightarrow> proc_queue \<Rightarrow> kernel \<Rightarrow> kernel" where
  "put_blocking_queue w q = (\<lambda>(h, t, ps) s. upd_proc w
     (\<lambda>c. c\<lparr>blocking_queue_heads := (blocking_queue_heads c)(q := h),
            blocking_queue_tails := (blocking_queue_tails c)(q := t)\<rparr>) (s\<lparr>procs := ps\<rparr>))"

text \<open>The two arrays have three entries; another name would index past them.\<close>

definition add_proc_to_blocking_queue ::
  "pcbref \<Rightarrow> pcbref option \<Rightarrow> blocking_queue \<Rightarrow> kernel \<Rightarrow> kernel option" where
  "add_proc_to_blocking_queue proc queue_owner queue s = do {
     w \<leftarrow> queue_owner;
     (if has_queue queue then Some () else None);
     q \<leftarrow> add_proc_to_queue proc (get_blocking_queue w queue s);
     let s = put_blocking_queue w queue q s;
     Some (upd_proc proc (\<lambda>c. c\<lparr>blocking_proc := Some w, blocking_queue_name := queue\<rparr>) s)
   }"

definition remove_proc_from_blocking_queue ::
  "pcbref \<Rightarrow> pcbref option \<Rightarrow> blocking_queue \<Rightarrow> kernel \<Rightarrow> (int \<times> kernel) option" where
  "remove_proc_from_blocking_queue proc queue_owner queue s = do {
     w \<leftarrow> queue_owner;
     (if blocking_queue_name (procs s proc) \<noteq> queue \<or> blocking_proc (procs s proc) \<noteq> Some w
      then Some (0, s)
      else do {
        ASSERT (curr_state (procs s proc) = PROC_STATE_BLOCKED);
        (if has_queue queue then Some () else None);
        let s = put_blocking_queue w queue (remove_proc_from_queue proc (get_blocking_queue w queue s)) s;
        Some (1, upd_proc proc (\<lambda>c. c\<lparr>blocking_proc := None, blocking_queue_name := NO_BLOCKER\<rparr>) s)
      })
   }"

end
