(* ===== verification/Queue_Facts.thy ===== *)
theory Queue_Facts
  imports Queues
begin

text \<open>
  The queue primitives of c/pcb.c implement first-in first-out queues with removal from the
  middle: \<open>queue_on\<close> reads a queue off the memory as a list, the locale \<open>fifo_queue\<close> is the
  contract its users rely on, interpreted on the code's own operations.
\<close>

subsection \<open>The list in the memory\<close>

definition queue_on :: "proc_queue \<Rightarrow> pcbref list \<Rightarrow> bool" where
  "queue_on = (\<lambda>(head, tail, ps) xs.
     links Some (\<lambda>p. prev_proc (ps p)) (\<lambda>p. next_proc (ps p)) None xs None \<and>
     head = headp Some xs None \<and> tail = lastp Some None xs \<and> distinct xs)"

lemma queue_on_cong:
  assumes "\<And>p. p \<in> set xs \<Longrightarrow> prev_proc (ps' p) = prev_proc (ps p)"
    and "\<And>p. p \<in> set xs \<Longrightarrow> next_proc (ps' p) = next_proc (ps p)"
  shows "queue_on (h, t, ps') xs = queue_on (h, t, ps) xs"
  using links_cong [of xs "\<lambda>p. prev_proc (ps' p)" "\<lambda>p. prev_proc (ps p)"] assms
  by (simp add: queue_on_def)

lemma queue_on_head: "queue_on (h, t, ps) xs \<Longrightarrow> h = (case xs of [] \<Rightarrow> None | x # _ \<Rightarrow> Some x)"
  by (cases xs) (auto simp: queue_on_def)

text \<open>The fields a queue operation does not touch.\<close>

definition same_but_links :: "pcb \<Rightarrow> pcb \<Rightarrow> bool" where
  "same_but_links c d \<longleftrightarrow>
     c\<lparr>prev_proc := None, next_proc := None\<rparr> = d\<lparr>prev_proc := None, next_proc := None\<rparr>"

lemma same_but_links_refl [simp]: "same_but_links c c"
  by (simp add: same_but_links_def)

lemma same_but_links_fields:
  assumes "same_but_links c d"
  shows "pid c = pid d" "curr_state c = curr_state d" "cpu_time c = cpu_time d"
    "memory_region c = memory_region d" "esp c = esp d" "args c = args d" "ret c = ret d"
    "signal_table c = signal_table d" "signals_fired c = signals_fired d"
    "signals_enabled c = signals_enabled d" "fd_table c = fd_table d"
    "blocking_proc c = blocking_proc d" "blocking_queue_name c = blocking_queue_name d"
    "blocking_queue_heads c = blocking_queue_heads d" "blocking_queue_tails c = blocking_queue_tails d"
  using assms by (cases c; cases d; simp add: same_but_links_def)+

lemma same_but_links_upd [simp]:
  "same_but_links (c\<lparr>next_proc := x\<rparr>) d = same_but_links c d"
  "same_but_links (c\<lparr>prev_proc := x\<rparr>) d = same_but_links c d"
  by (simp_all add: same_but_links_def)

lemma same_but_links_trans: "same_but_links a b \<Longrightarrow> same_but_links b c \<Longrightarrow> same_but_links a c"
  by (simp add: same_but_links_def)

subsection \<open>Adding and removing\<close>

lemma add_proc_to_queue_on:
  assumes q: "queue_on (h, t, ps) xs" and p: "p \<notin> set xs"
  obtains h' t' ps' where "add_proc_to_queue p (h, t, ps) = Some (h', t', ps')"
    and "queue_on (h', t', ps') (xs @ [p])"
    and "\<And>r. same_but_links (ps' r) (ps r)"
    and "\<And>r. r \<notin> set (xs @ [p]) \<Longrightarrow> ps' r = ps r"
proof (cases xs rule: rev_cases)
  case Nil
  let ?ps' = "ps(p := (ps p)\<lparr>prev_proc := None, next_proc := None\<rparr>)"
  have "add_proc_to_queue p (h, t, ps) = Some (Some p, Some p, ?ps')"
    using q Nil by (simp add: add_proc_to_queue_def queue_on_def)
  then show ?thesis by (rule that) (auto simp: queue_on_def Nil)
next
  case (snoc ys l)
  let ?ps = "(ps(l := (ps l)\<lparr>next_proc := Some p\<rparr>))"
  let ?ps' = "?ps(p := (?ps p)\<lparr>prev_proc := Some l, next_proc := None\<rparr>)"
  have ht: "h = Some (hd xs)" "t = Some l" "l \<noteq> p"
    using q snoc p by (auto simp: queue_on_def headp_conv lastp_append)
  then have run: "add_proc_to_queue p (h, t, ps) = Some (h, Some p, ?ps')"
    by (simp add: add_proc_to_queue_def Let_def)
  have "links Some (\<lambda>p. prev_proc (ps p)) (\<lambda>p. next_proc (ps p)) None (xs @ []) None"
    using q by (simp add: queue_on_def)
  then have "links Some (\<lambda>p. prev_proc (?ps' p)) (\<lambda>p. next_proc (?ps' p)) None (xs @ p # []) None"
    by (rule links_insert) (use q p snoc in \<open>auto simp: queue_on_def lastp_append\<close>)
  moreover have "h = headp Some (xs @ [p]) None"
    using ht snoc by (cases ys) simp_all
  ultimately have "queue_on (h, Some p, ?ps') (xs @ [p])"
    using q p by (simp add: queue_on_def lastp_append)
  then show ?thesis
    by (rule that [OF run]) (auto simp: snoc)
qed

lemma remove_proc_from_queue_on:
  assumes q: "queue_on (h, t, ps) (as @ p # bs)"
  obtains h' t' ps' where "remove_proc_from_queue p (h, t, ps) = (h', t', ps')"
    and "queue_on (h', t', ps') (as @ bs)"
    and "\<And>r. same_but_links (ps' r) (ps r)"
    and "\<And>r. r \<notin> set (as @ p # bs) \<Longrightarrow> ps' r = ps r"
    and "prev_proc (ps' p) = None" and "next_proc (ps' p) = None"
proof -
  have l: "links Some (\<lambda>p. prev_proc (ps p)) (\<lambda>p. next_proc (ps p)) None (as @ p # bs) None"
    and d: "distinct (as @ p # bs)" using q by (simp_all add: queue_on_def)
  note nb = links_middle [OF l]
  obtain h' t' ps' where run: "remove_proc_from_queue p (h, t, ps) = (h', t', ps')"
    by (metis prod_cases3)
  have pas: "p \<notin> set as" "p \<notin> set bs" "as \<noteq> [] \<Longrightarrow> last as \<noteq> p" "bs \<noteq> [] \<Longrightarrow> hd bs \<noteq> p"
    "as \<noteq> [] \<Longrightarrow> bs \<noteq> [] \<Longrightarrow> last as \<noteq> hd bs"
    using d hd_in_set [of bs] last_in_set [of as] by (auto, metis disjoint_iff)
  have ht: "h = (if as = [] then Some p else Some (hd as))" "t = (if bs = [] then Some p else Some (last bs))"
    using q by (auto simp: queue_on_def headp_append lastp_append headp_conv lastp_conv)
  have nb': "prev_proc (ps p) = (if as = [] then None else Some (last as))"
    "next_proc (ps p) = (if bs = [] then None else Some (hd bs))"
    using nb by (simp_all add: headp_conv lastp_conv)
  note defs = run [unfolded remove_proc_from_queue_def, simplified, unfolded nb' Let_def]
  have ps': "ps' r = (if r = p then (ps p)\<lparr>prev_proc := None, next_proc := None\<rparr>
      else if bs \<noteq> [] \<and> r = hd bs then (ps r)\<lparr>prev_proc := lastp Some None as\<rparr>
      else if as \<noteq> [] \<and> r = last as then (ps r)\<lparr>next_proc := headp Some bs None\<rparr>
      else ps r)" for r
    using defs pas by (cases "as = []"; cases "bs = []") (auto simp: headp_conv lastp_conv nb')
  have prv: "prev_proc (ps' r) = (if r = p then None
      else if bs \<noteq> [] \<and> r = hd bs then lastp Some None as else prev_proc (ps r))"
    and nxt: "next_proc (ps' r) = (if r = p then None
      else if as \<noteq> [] \<and> r = last as then headp Some bs None else next_proc (ps r))"
    and same: "same_but_links (ps' r) (ps r)"
    and frame: "r \<notin> set (as @ p # bs) \<Longrightarrow> ps' r = ps r" for r
    using pas(5) by (auto simp: ps' hd_in_set last_in_set)
  have ht': "h' = headp Some (as @ bs) None" "t' = lastp Some None (as @ bs)"
    using defs pas ht by (cases as; cases bs rule: rev_cases;
      force simp: headp_conv lastp_conv nb' split: if_splits)+
  have "links Some (\<lambda>p. prev_proc (ps' p)) (\<lambda>p. next_proc (ps' p)) None (as @ bs) None"
    using l by (rule links_remove) (use d in \<open>auto simp: prv nxt\<close>)
  then have "queue_on (h', t', ps') (as @ bs)" using d ht' by (simp add: queue_on_def)
  then show ?thesis
    by (rule that [OF run]) (use same frame prv nxt in auto)
qed

subsection \<open>The contract of a queue\<close>

text \<open>
  A queue of distinct elements that are added at the back and may leave from anywhere.
\<close>

locale fifo_queue =
  fixes enq :: "'a \<Rightarrow> 'q \<Rightarrow> 'q option"
    and deq :: "'a \<Rightarrow> 'q \<Rightarrow> 'q"
    and front :: "'q \<Rightarrow> 'a option"
    and contents :: "'q \<Rightarrow> 'a list \<Rightarrow> bool"
  assumes contents_distinct: "contents q xs \<Longrightarrow> distinct xs"
    and enq_contents: "contents q xs \<Longrightarrow> a \<notin> set xs \<Longrightarrow>
      \<exists>q'. enq a q = Some q' \<and> contents q' (xs @ [a])"
    and deq_contents: "contents q xs \<Longrightarrow> a \<in> set xs \<Longrightarrow> contents (deq a q) (remove1 a xs)"
    and front_contents: "contents q xs \<Longrightarrow> front q = (case xs of [] \<Rightarrow> None | a # _ \<Rightarrow> Some a)"
begin

lemma enq_all:
  assumes "contents q xs" and "distinct (xs @ ys)"
  shows "\<exists>q'. fold (\<lambda>a r. Option.bind r (enq a)) ys (Some q) = Some q' \<and> contents q' (xs @ ys)"
  using assms
proof (induction ys arbitrary: q xs)
  case (Cons y ys)
  from enq_contents [OF Cons.prems(1), of y] Cons.prems(2)
  obtain q1 where q1: "enq y q = Some q1" "contents q1 (xs @ [y])" by auto
  from Cons.IH [OF q1(2)] Cons.prems(2) show ?case using q1(1) by simp
qed simp

text \<open>One turn of a round robin: the front leaves and comes back at the end.\<close>

definition turn :: "'q \<Rightarrow> 'q option" where
  "turn q = (case front q of None \<Rightarrow> Some q | Some a \<Rightarrow> enq a (deq a q))"

lemma turn_rotates: "contents q xs \<Longrightarrow> \<exists>q'. turn q = Some q' \<and> contents q' (rotate1 xs)"
proof (cases xs)
  case (Cons a as)
  assume c: "contents q xs"
  have "contents (deq a q) as" using deq_contents [OF c, of a] Cons by simp
  moreover have "a \<notin> set as" using contents_distinct [OF c] Cons by simp
  ultimately show ?thesis
    using enq_contents [of "deq a q" as a] front_contents [OF c] Cons by (simp add: turn_def)
qed (simp add: turn_def front_contents)

fun turns :: "nat \<Rightarrow> 'q \<Rightarrow> 'q option" where
  "turns 0 q = Some q"
| "turns (Suc n) q = Option.bind (turn q) (turns n)"

lemma turns_rotate: "contents q xs \<Longrightarrow> \<exists>q'. turns n q = Some q' \<and> contents q' (rotate n xs)"
proof (induction n arbitrary: q xs)
  case (Suc n)
  obtain q1 where q1: "turn q = Some q1" "contents q1 (rotate1 xs)"
    using turn_rotates [OF Suc.prems] by blast
  from Suc.IH [OF q1(2)] q1(1) show ?case by (simp flip: rotate1_rotate_swap)
qed simp

text \<open>No element waits longer than the queue is long: after \<open>i\<close> turns element \<open>i\<close> is in front.\<close>

lemma no_starvation:
  assumes "contents q xs" and "i < length xs"
  shows "\<exists>q'. turns i q = Some q' \<and> front q' = Some (xs ! i)"
proof -
  obtain q' where q': "turns i q = Some q'" "contents q' (rotate i xs)"
    using turns_rotate [OF assms(1)] by blast
  have "hd (rotate i xs) = xs ! i" using assms(2) hd_rotate_conv_nth [of xs i] by (cases xs) auto
  moreover have "rotate i xs \<noteq> []" using assms(2) by auto
  ultimately show ?thesis
    using q' front_contents [OF q'(2)] by (cases "rotate i xs") auto
qed

end

interpretation pcbq: fifo_queue add_proc_to_queue remove_proc_from_queue fst queue_on
proof
  fix q :: proc_queue and xs :: "pcbref list" and a
  obtain h t ps where q: "q = (h, t, ps)" by (cases q)
  assume c: "queue_on q xs"
  then show "distinct xs" by (simp add: q queue_on_def)
  show "\<exists>q'. add_proc_to_queue a q = Some q' \<and> queue_on q' (xs @ [a])" if "a \<notin> set xs"
    using add_proc_to_queue_on [OF c [unfolded q] that] q by blast
  show "queue_on (remove_proc_from_queue a q) (remove1 a xs)" if a: "a \<in> set xs"
  proof -
    obtain as bs where xs: "xs = as @ a # bs" "a \<notin> set as" using split_list_first [OF a] by blast
    show ?thesis
      by (rule remove_proc_from_queue_on [of h t ps as a bs])
        (use c q xs in \<open>simp_all add: remove1_append\<close>)
  qed
  show "fst q = (case xs of [] \<Rightarrow> None | a # _ \<Rightarrow> Some a)"
    using queue_on_head [of h t ps xs] c q by simp
qed

subsection \<open>The sanity walk accepts every queue\<close>

lemma verify_walk_ok:
  assumes "links Some (\<lambda>p. prev_proc (ps p)) (\<lambda>p. next_proc (ps p)) pv (c # xs) None"
    and "\<And>p. p \<in> set (c # xs) \<Longrightarrow> curr_state (ps p) = i"
    and "pv = None \<Longrightarrow> xs = []" and "\<And>p. pv = Some p \<Longrightarrow> next_proc (ps p) = Some c"
  shows "verify_walk ps i c = Some ()"
  using assms
proof (induction xs arbitrary: pv c)
  case Nil
  then show ?case by (subst verify_walk.simps) (auto split: option.splits)
next
  case (Cons n xs)
  then obtain p where "pv = Some p" by (cases pv) auto
  moreover have "verify_walk ps i n = Some ()"
    by (rule Cons.IH [of "Some c"]) (use Cons.prems in auto)
  ultimately show ?case using Cons.prems by (subst verify_walk.simps) simp
qed

lemma verify_queue_ok:
  assumes "queue_on (h, t, ps) xs" and "\<And>p. p \<in> set xs \<Longrightarrow> curr_state (ps p) = i"
  shows "verify_queue ps i h = Some ()"
proof (cases xs)
  case Nil
  with assms show ?thesis by (simp add: queue_on_def verify_queue_def)
next
  case (Cons a as)
  show ?thesis
  proof (cases as)
    case Nil
    then show ?thesis using assms Cons verify_walk_ok [of ps None a "[]" i]
      by (simp add: queue_on_def verify_queue_def)
  next
    case (Cons b bs)
    then show ?thesis using assms \<open>xs = a # as\<close> verify_walk_ok [of ps "Some a" b bs i]
      by (simp add: queue_on_def verify_queue_def)
  qed
qed

end
