(* ===== verification/Sleep.thy ===== *)
theory Sleep
  imports Queues
begin

text \<open>
  c/sleep.c, the sleep device: processes wait on \<open>g_sleeping_list\<close>, a delta list ordered by
  wake-up time, in which \<open>ret\<close> of a process is the number of ticks it sleeps longer than the
  one before it. \<open>time\<close> is the machine's \<open>unsigned int\<close>.
\<close>

subsection \<open>The list\<close>

text \<open>The search loop of \<open>add_to_sleeping_list\<close>: the place between \<open>prev\<close> and \<open>entry\<close>.\<close>

partial_function (option) sleep_place ::
  "pcbref \<Rightarrow> pcbref option \<Rightarrow> pcbref option \<Rightarrow> proc_map \<Rightarrow>
     (pcbref option \<times> pcbref option \<times> proc_map) option" where
  "sleep_place proc prev entry ps =
     (case entry of
        None \<Rightarrow> Some (prev, None, ps)
      | Some e \<Rightarrow>
          (if ret (ps proc) > ret (ps e)
           then sleep_place proc (Some e) (next_proc (ps e))
                  (ps(proc := (ps proc)\<lparr>ret := s32 (ret (ps proc) - ret (ps e))\<rparr>))
           else Some (prev, Some e, ps)))"

definition add_to_sleeping_list :: "pcbref \<Rightarrow> kernel \<Rightarrow> kernel option" where
  "add_to_sleeping_list proc s = do {
     (prev, entry, ps) \<leftarrow> sleep_place proc None (sleeping_list s) (procs s);
     let (head, ps) = (case prev of
           None \<Rightarrow> (Some proc, ps)
         | Some q \<Rightarrow> (sleeping_list s, ps(q := (ps q)\<lparr>next_proc := Some proc\<rparr>)));
     let ps = ps(proc := (ps proc)\<lparr>next_proc := entry, prev_proc := prev\<rparr>);
     let ps = (case next_proc (ps proc) of
           None \<Rightarrow> ps
         | Some q \<Rightarrow> ps(q := (ps q)\<lparr>prev_proc := Some proc, ret := s32 (ret (ps q) - ret (ps proc))\<rparr>));
     Some (s\<lparr>sleeping_list := head, procs := ps\<rparr>)
   }"

definition remove_from_sleeping_list :: "pcbref \<Rightarrow> kernel \<Rightarrow> kernel option" where
  "remove_from_sleeping_list proc s = do {
     ASSERT (curr_state (procs s proc) = PROC_STATE_BLOCKED);
     let ps = procs s;
     let ps = (case prev_proc (ps proc) of
           None \<Rightarrow> ps
         | Some q \<Rightarrow> ps(q := (ps q)\<lparr>next_proc := next_proc (ps proc)\<rparr>));
     let ps = (case next_proc (ps proc) of
           None \<Rightarrow> ps
         | Some q \<Rightarrow> ps(q := (ps q)\<lparr>ret := s32 (ret (ps q) + ret (ps proc)),
                                    prev_proc := prev_proc (ps proc)\<rparr>));
     let head = (if sleeping_list s = Some proc then next_proc (ps proc) else sleeping_list s);
     let ps = ps(proc := (ps proc)\<lparr>prev_proc := None, next_proc := None\<rparr>);
     Some (s\<lparr>sleeping_list := head, procs := ps\<rparr>)
   }"

subsection \<open>Sleeping, waking, ticking\<close>

text \<open>Milliseconds to ticks, rounded up.\<close>

definition sleep_ticks :: "u32 \<Rightarrow> int" where
  "sleep_ticks time = s32 (uint time div TICK_LENGTH_IN_MS + (if uint time mod TICK_LENGTH_IN_MS \<noteq> 0 then 1 else 0))"

definition sleep :: "pcbref \<Rightarrow> u32 \<Rightarrow> kernel \<Rightarrow> kernel option" where
  "sleep proc time s = do {
     ASSERT (0 < time);
     let s = upd_proc proc (\<lambda>c. c\<lparr>curr_state := PROC_STATE_BLOCKED, blocking_queue_name := SLEEP,
                                  blocking_proc := None\<rparr>) s;
     let s = upd_proc proc (\<lambda>c. c\<lparr>ret := sleep_ticks time\<rparr>) s;
     add_to_sleeping_list proc s
   }"

definition wake :: "pcbref \<Rightarrow> kernel \<Rightarrow> kernel option" where
  "wake proc s = do {
     ASSERT (blocking_proc (procs s proc) = None);
     ASSERT (blocking_queue_name (procs s proc) = SLEEP);
     s \<leftarrow> remove_from_sleeping_list proc s;
     let s = upd_proc proc (\<lambda>c. c\<lparr>blocking_queue_name := NO_BLOCKER\<rparr>) s;
     Some (upd_proc proc (\<lambda>c. c\<lparr>ret := s32 (ret c * TICK_LENGTH_IN_MS)\<rparr>) s)
   }"

text \<open>The loop of \<open>tick\<close>: every process at the front whose time is up is woken.\<close>

partial_function (option) tick_expire :: "kernel \<Rightarrow> kernel option" where
  "tick_expire s =
     (case sleeping_list s of
        None \<Rightarrow> Some s
      | Some proc \<Rightarrow>
          (if ret (procs s proc) \<le> 0 then do {
             s \<leftarrow> wake proc s;
             s \<leftarrow> add_pcb_to_queue proc PROC_STATE_READY s;
             tick_expire s
           }
           else Some s))"

definition tick :: "kernel \<Rightarrow> kernel option" where
  "tick s =
     (case sleeping_list s of
        None \<Rightarrow> Some s
      | Some p \<Rightarrow> tick_expire (upd_proc p (\<lambda>c. c\<lparr>ret := s32 (ret c - 1)\<rparr>) s))"

end
