(* ===== verification/Sched_Inv.thy ===== *)
theory Sched_Inv
  imports Queue_Facts Sleep
begin

text \<open>
  Where every process is. The state and the blocking fields of a control block say in which
  queue it belongs (\<open>place_of\<close>); \<open>qinv s W qs\<close> says that each queue of the kernel holds exactly the
  processes that belong to it, in the order \<open>qs\<close>, except for those in \<open>W\<close>, which are between two
  queues. Each queue operation of c/pcb.c and c/sleep.c moves one process into or out of \<open>W\<close>.
\<close>

subsection \<open>Places\<close>

datatype place = In_ready | In_stopped | In_blocking pcbref blocking_queue | In_sleep

definition place_of :: "pcb \<Rightarrow> place option" where
  "place_of c = (case curr_state c of
       PROC_STATE_READY \<Rightarrow> Some In_ready
     | PROC_STATE_STOPPED \<Rightarrow> Some In_stopped
     | PROC_STATE_RUNNING \<Rightarrow> None
     | PROC_STATE_BLOCKED \<Rightarrow>
         (if blocking_queue_name c = SLEEP then Some In_sleep
          else if has_queue (blocking_queue_name c)
          then map_option (\<lambda>w. In_blocking w (blocking_queue_name c)) (blocking_proc c)
          else None))"

fun head_at :: "kernel \<Rightarrow> place \<Rightarrow> pcbref option" where
  "head_at s In_ready = queue_heads s PROC_STATE_READY"
| "head_at s In_stopped = queue_heads s PROC_STATE_STOPPED"
| "head_at s (In_blocking w q) = blocking_queue_heads (procs s w) q"
| "head_at s In_sleep = sleeping_list s"

fun tail_at :: "kernel \<Rightarrow> place \<Rightarrow> pcbref option" where
  "tail_at s In_ready = queue_tails s PROC_STATE_READY"
| "tail_at s In_stopped = queue_tails s PROC_STATE_STOPPED"
| "tail_at s (In_blocking w q) = blocking_queue_tails (procs s w) q"
| "tail_at s In_sleep = None"

definition valid :: "pcbref \<Rightarrow> bool" where
  "valid p \<longleftrightarrow> (\<exists>i<PCB_TABLE_SIZE. p = Table i)"

fun real_place :: "place \<Rightarrow> bool" where
  "real_place (In_blocking w q) = (valid w \<and> has_queue q)"
| "real_place pl = True"

definition chain_at :: "kernel \<Rightarrow> place \<Rightarrow> pcbref list \<Rightarrow> bool" where
  "chain_at s pl xs \<longleftrightarrow>
     links Some (\<lambda>p. prev_proc (procs s p)) (\<lambda>p. next_proc (procs s p)) None xs None \<and>
     distinct xs \<and> head_at s pl = headp Some xs None \<and>
     (pl \<noteq> In_sleep \<longrightarrow> tail_at s pl = lastp Some None xs)"

definition qinv :: "kernel \<Rightarrow> pcbref set \<Rightarrow> (place \<Rightarrow> pcbref list) \<Rightarrow> bool" where
  "qinv s W qs \<longleftrightarrow>
     (\<forall>pl. real_place pl \<longrightarrow> chain_at s pl (qs pl)) \<and>
     (\<forall>pl p. p \<in> set (qs pl) \<longleftrightarrow> valid p \<and> p \<notin> W \<and> place_of (procs s p) = Some pl) \<and>
     (\<forall>pl. \<not> real_place pl \<longrightarrow> qs pl = [])"

lemma place_of_same:
  assumes "same_but_links c d"
  shows "place_of c = place_of d"
  unfolding place_of_def same_but_links_fields [OF assms] ..

lemma chain_at_queue_on:
  "pl \<noteq> In_sleep \<Longrightarrow> chain_at s pl xs = queue_on (head_at s pl, tail_at s pl, procs s) xs"
  by (auto simp: chain_at_def queue_on_def)

lemma chain_at_cong:
  assumes "\<And>p. p \<in> set xs \<Longrightarrow> prev_proc (procs s' p) = prev_proc (procs s p)"
    and "\<And>p. p \<in> set xs \<Longrightarrow> next_proc (procs s' p) = next_proc (procs s p)"
    and "head_at s' pl = head_at s pl" and "tail_at s' pl = tail_at s pl"
  shows "chain_at s' pl xs = chain_at s pl xs"
  using links_cong [of xs "\<lambda>p. prev_proc (procs s' p)" "\<lambda>p. prev_proc (procs s p)"
    "\<lambda>p. next_proc (procs s' p)" "\<lambda>p. next_proc (procs s p)" Some None None] assms
  by (simp add: chain_at_def)

lemma qinvD:
  assumes "qinv s W qs"
  shows "real_place pl \<Longrightarrow> chain_at s pl (qs pl)"
    and "p \<in> set (qs pl) \<longleftrightarrow> valid p \<and> p \<notin> W \<and> place_of (procs s p) = Some pl"
    and "\<not> real_place pl \<Longrightarrow> qs pl = []"
  using assms by (auto simp: qinv_def)

text \<open>The places of the processes in queues are real ones.\<close>

lemma qinv_real:
  assumes "qinv s W qs" and "valid p" and "p \<notin> W" and "place_of (procs s p) = Some pl"
  shows "real_place pl" and "p \<in> set (qs pl)"
proof -
  show m: "p \<in> set (qs pl)" using assms qinvD(2) [OF assms(1)] by blast
  show "real_place pl" using qinvD(3) [OF assms(1), of pl] m by fastforce
qed

subsection \<open>Changing one queue\<close>

text \<open>
  A step that rewrites the links of one queue \<open>pl\<close> and moves at most one process \<open>p\<close> keeps the
  invariant for every other queue.
\<close>

lemma qinv_update:
  assumes inv: "qinv s W qs" and pl: "real_place pl"
    and p: "p \<in> W \<or> p \<in> set (qs pl)"
    and links: "\<And>r. r \<notin> set (qs pl) \<Longrightarrow> r \<noteq> p \<Longrightarrow> prev_proc (procs s' r) = prev_proc (procs s r) \<and>
      next_proc (procs s' r) = next_proc (procs s r)"
    and ends: "\<And>pl'. real_place pl' \<Longrightarrow> pl' \<noteq> pl \<Longrightarrow> head_at s' pl' = head_at s pl' \<and> tail_at s' pl' = tail_at s pl'"
    and places: "\<And>r. r \<noteq> p \<Longrightarrow> place_of (procs s' r) = place_of (procs s r)"
    and W': "W' - {p} = W - {p}" and pW: "p \<notin> W' \<Longrightarrow> place_of (procs s' p) = Some pl \<or> place_of (procs s' p) = None"
    and chain: "chain_at s' pl xs"
    and xs: "set xs = set (qs pl) - {p} \<union> (if p \<notin> W' \<and> valid p \<and> place_of (procs s' p) = Some pl then {p} else {})"
  shows "qinv s' W' (qs(pl := xs))"
  unfolding qinv_def
proof (intro conjI allI impI)
  fix pl' assume r: "real_place pl'"
  show "chain_at s' pl' ((qs(pl := xs)) pl')"
  proof (cases "pl' = pl")
    case False
    have "q \<notin> set (qs pl) \<and> q \<noteq> p" if "q \<in> set (qs pl')" for q
      using that False p qinvD(2) [OF inv, of q pl'] qinvD(2) [OF inv, of q pl] by auto
    then show ?thesis
      using chain_at_cong [of "qs pl'" s' s pl'] links ends [OF r False] qinvD(1) [OF inv r] False
      by simp
  qed (use chain in simp)
next
  fix pl' q
  have W: "q \<noteq> p \<Longrightarrow> q \<in> W' \<longleftrightarrow> q \<in> W" using W' by blast
  show "q \<in> set ((qs(pl := xs)) pl') \<longleftrightarrow> valid q \<and> q \<notin> W' \<and> place_of (procs s' q) = Some pl'"
  proof (cases "q = p")
    case True
    then show ?thesis
      using xs p pW qinvD(2) [OF inv, of p pl'] qinvD(2) [OF inv, of p pl]
      by (cases "pl' = pl") auto
  next
    case False
    then have "q \<in> set xs \<longleftrightarrow> q \<in> set (qs pl)" using xs by auto
    then show ?thesis
      using qinvD(2) [OF inv, of q pl'] qinvD(2) [OF inv, of q pl] places [OF False] W [OF False] by auto
  qed
next
  fix pl' assume "\<not> real_place pl'"
  with pl have "pl' \<noteq> pl" by blast
  then show "(qs(pl := xs)) pl' = []" using qinvD(3) [OF inv] \<open>\<not> real_place pl'\<close> by simp
qed

text \<open>A step that touches neither links nor ends nor places.\<close>

lemma qinv_cong:
  assumes "qinv s W qs"
    and "\<And>r. valid r \<Longrightarrow> prev_proc (procs s' r) = prev_proc (procs s r)"
    and "\<And>r. valid r \<Longrightarrow> next_proc (procs s' r) = next_proc (procs s r)"
    and "\<And>r. valid r \<Longrightarrow> r \<notin> W \<Longrightarrow> place_of (procs s' r) = place_of (procs s r)"
    and "\<And>pl. real_place pl \<Longrightarrow> head_at s' pl = head_at s pl"
    and "\<And>pl. real_place pl \<Longrightarrow> tail_at s' pl = tail_at s pl"
  shows "qinv s' W qs"
proof -
  have v: "valid p" if "p \<in> set (qs pl)" for p pl using that qinvD(2) [OF assms(1)] by blast
  have "chain_at s' pl (qs pl)" if "real_place pl" for pl
    using chain_at_cong [of "qs pl" s' s pl] assms that v qinvD(1) [OF assms(1) that] by simp
  moreover have "p \<in> set (qs pl) \<longleftrightarrow> valid p \<and> p \<notin> W \<and> place_of (procs s' p) = Some pl" for p pl
    using qinvD(2) [OF assms(1), of p pl] assms(4) [of p] by auto
  ultimately show ?thesis using qinvD(3) [OF assms(1)] by (simp add: qinv_def)
qed

subsection \<open>The ready and the stopped queue\<close>

text \<open>The place a state with a global queue stands for.\<close>

definition state_place :: "proc_state \<Rightarrow> place" where
  "state_place st = (if st = PROC_STATE_READY then In_ready else In_stopped)"

lemma has_proc_queue_cases:
  "has_proc_queue st \<longleftrightarrow> st = PROC_STATE_READY \<or> st = PROC_STATE_STOPPED"
  by (cases st) (auto simp: has_proc_queue_def)

lemma state_place_facts:
  assumes "has_proc_queue st"
  shows "real_place (state_place st)" "state_place st \<noteq> In_sleep"
    "head_at s (state_place st) = queue_heads s st" "tail_at s (state_place st) = queue_tails s st"
    "curr_state c = st \<Longrightarrow> place_of c = Some (state_place st)"
  using assms by (auto simp: has_proc_queue_cases state_place_def place_of_def)

lemma put_pcb_queue_simps [simp]:
  "procs (put_pcb_queue st (h, t, ps) s) = ps"
  "queue_heads (put_pcb_queue st (h, t, ps) s) = (queue_heads s)(st := h)"
  "queue_tails (put_pcb_queue st (h, t, ps) s) = (queue_tails s)(st := t)"
  "sleeping_list (put_pcb_queue st q s) = sleeping_list s"
  "ram (put_pcb_queue st q s) = ram s" "heap (put_pcb_queue st q s) = heap s"
  "image (put_pcb_queue st q s) = image s" "currproc (put_pcb_queue st q s) = currproc s"
  "kbd (put_pcb_queue st q s) = kbd s" "device_table (put_pcb_queue st q s) = device_table s"
  "io (put_pcb_queue st q s) = io s" "console (put_pcb_queue st q s) = console s"
  by (simp_all add: put_pcb_queue_def case_prod_beta)

text \<open>The parts of the state that queue operations do not touch.\<close>

definition same_rest :: "kernel \<Rightarrow> kernel \<Rightarrow> bool" where
  "same_rest s' s \<longleftrightarrow> ram s' = ram s \<and> heap s' = heap s \<and> image s' = image s \<and>
     currproc s' = currproc s \<and> kbd s' = kbd s \<and> device_table s' = device_table s \<and>
     io s' = io s \<and> console s' = console s"

lemma same_rest_refl [simp]: "same_rest s s"
  by (simp add: same_rest_def)

lemma same_rest_trans: "same_rest a b \<Longrightarrow> same_rest b c \<Longrightarrow> same_rest a c"
  by (simp add: same_rest_def)

lemma same_rest_upd [simp]:
  "same_rest (upd_proc p f s) s' = same_rest s s'"
  "same_rest s (upd_proc p f s') = same_rest s s'"
  "same_rest (put_pcb_queue st q s) s' = same_rest s s'"
  by (simp_all add: same_rest_def)

lemma queued_state:
  assumes "qinv s W qs" and st: "has_proc_queue st" and "p \<in> set (qs (state_place st))"
  shows "curr_state (procs s p) = st"
proof -
  have "place_of (procs s p) = Some (state_place st)" using qinvD(2) [OF assms(1)] assms(3) by blast
  then show ?thesis
    using st by (cases "curr_state (procs s p)")
      (auto simp: place_of_def state_place_def has_proc_queue_cases split: if_splits)
qed

text \<open>In a state where the invariant holds the sanity walk finds nothing to object to.\<close>

lemma verify_pcb_queues_ok:
  assumes "qinv s W qs"
  shows "verify_pcb_queues s = Some ()"
proof -
  have "verify_queue (procs s) st (queue_heads s st) = Some ()" if st: "has_proc_queue st" for st
  proof (rule verify_queue_ok)
    note f = state_place_facts [OF st]
    show "queue_on (queue_heads s st, queue_tails s st, procs s) (qs (state_place st))"
      using qinvD(1) [OF assms f(1)] f by (simp add: chain_at_queue_on)
    show "curr_state (procs s p) = st" if "p \<in> set (qs (state_place st))" for p
      using queued_state [OF assms st that] .
  qed
  then show ?thesis by (simp add: verify_pcb_queues_def has_proc_queue_cases)
qed

lemma add_pcb_to_queue_ok:
  assumes inv: "qinv s W qs" and p: "p \<in> W" "valid p" and pd: "pid (procs s p) \<noteq> 0"
    and st: "has_proc_queue st" "curr_state (procs s p) \<noteq> st"
  obtains s' where "add_pcb_to_queue p st s = Some s'"
    and "qinv s' (W - {p}) (qs(state_place st := qs (state_place st) @ [p]))"
    and "\<And>r. same_but_links (procs s' r)
      (if r = p then (procs s p)\<lparr>curr_state := st\<rparr> else procs s r)"
    and "same_rest s' s" and "sleeping_list s' = sleeping_list s"
proof -
  let ?s = "upd_proc p (\<lambda>c. c\<lparr>curr_state := st\<rparr>) s"
  let ?pl = "state_place st"
  note f = state_place_facts [OF st(1)]
  have pq: "p \<notin> set (qs ?pl)" using p qinvD(2) [OF inv] by blast
  have "chain_at s ?pl (qs ?pl)" using qinvD(1) [OF inv f(1)] .
  then have "queue_on (queue_heads s st, queue_tails s st, procs ?s) (qs ?pl)"
    using pq queue_on_cong [of "qs ?pl" "procs ?s" "procs s" "queue_heads s st" "queue_tails s st"]
    by (auto simp: chain_at_queue_on f)
  then obtain h t ps where a: "add_proc_to_queue p (queue_heads s st, queue_tails s st, procs ?s) = Some (h, t, ps)"
    and q: "queue_on (h, t, ps) (qs ?pl @ [p])"
    and same: "\<And>r. same_but_links (ps r) (procs ?s r)"
    and frame: "\<And>r. r \<notin> set (qs ?pl @ [p]) \<Longrightarrow> ps r = procs ?s r"
    by (rule add_proc_to_queue_on [OF _ pq]) blast
  let ?s' = "put_pcb_queue st (h, t, ps) ?s"
  have place: "place_of (ps r) = place_of (procs ?s r)" for r using place_of_same [OF same] .
  have bh: "blocking_queue_heads (ps r) = blocking_queue_heads (procs s r)"
    "blocking_queue_tails (ps r) = blocking_queue_tails (procs s r)" for r
    using same_but_links_fields(14,15) [OF same [of r]] by (auto split: if_splits)
  have inv': "qinv ?s' (W - {p}) (qs(?pl := qs ?pl @ [p]))"
  proof (rule qinv_update [OF inv f(1)])
    show "p \<in> W \<or> p \<in> set (qs ?pl)" using p by simp
    show "prev_proc (procs ?s' r) = prev_proc (procs s r) \<and> next_proc (procs ?s' r) = next_proc (procs s r)"
      if "r \<notin> set (qs ?pl)" "r \<noteq> p" for r using frame [of r] that by simp
    show "head_at ?s' pl' = head_at s pl' \<and> tail_at ?s' pl' = tail_at s pl'" if "pl' \<noteq> ?pl" for pl'
      using that st(1) bh by (cases pl') (auto simp: state_place_def has_proc_queue_cases)
    show "place_of (procs ?s' r) = place_of (procs s r)" if "r \<noteq> p" for r using place [of r] that by simp
    show "place_of (procs ?s' p) = Some ?pl \<or> place_of (procs ?s' p) = None"
      using place [of p] f(5) by simp
    show "chain_at ?s' ?pl (qs ?pl @ [p])" using q f by (simp add: chain_at_queue_on)
    show "set (qs ?pl @ [p]) = set (qs ?pl) - {p} \<union>
        (if p \<notin> W - {p} \<and> valid p \<and> place_of (procs ?s' p) = Some ?pl then {p} else {})"
      using pq place [of p] f(5) p by auto
  qed auto
  have "add_pcb_to_queue p st s = Some ?s'"
    using a st pd verify_pcb_queues_ok [OF inv'] by (simp add: add_pcb_to_queue_def get_pcb_queue_def)
  then show ?thesis
    by (rule that) (use inv' same in \<open>auto split: if_splits\<close>)
qed

lemma remove_pcb_from_queue_ok:
  assumes inv: "qinv s W qs" and p: "p \<notin> W" "valid p" and st: "has_proc_queue (curr_state (procs s p))"
  obtains s' where "remove_pcb_from_queue p s = Some s'"
    and "qinv s' (insert p W) (qs(state_place (curr_state (procs s p)) :=
           remove1 p (qs (state_place (curr_state (procs s p))))))"
    and "\<And>r. same_but_links (procs s' r) (procs s r)"
    and "same_rest s' s" and "sleeping_list s' = sleeping_list s"
proof -
  let ?st = "curr_state (procs s p)"
  let ?pl = "state_place ?st"
  note f = state_place_facts [OF st]
  have pl: "place_of (procs s p) = Some ?pl" using f(5) by simp
  have pq: "p \<in> set (qs ?pl)" using qinv_real(2) [OF inv p(2,1) pl] .
  then obtain as bs where xs: "qs ?pl = as @ p # bs" "p \<notin> set as"
    using split_list_first [of p "qs ?pl"] by blast
  have ch: "chain_at s ?pl (qs ?pl)" using qinvD(1) [OF inv f(1)] .
  then have "queue_on (queue_heads s ?st, queue_tails s ?st, procs s) (as @ p # bs)"
    by (simp add: chain_at_queue_on f xs)
  then obtain h t ps where r: "remove_proc_from_queue p (queue_heads s ?st, queue_tails s ?st, procs s) = (h, t, ps)"
    and q: "queue_on (h, t, ps) (as @ bs)"
    and same: "\<And>r. same_but_links (ps r) (procs s r)"
    and frame: "\<And>r. r \<notin> set (as @ p # bs) \<Longrightarrow> ps r = procs s r"
    by (rule remove_proc_from_queue_on) blast
  let ?s' = "put_pcb_queue ?st (h, t, ps) s"
  have place: "place_of (ps r) = place_of (procs s r)" for r using place_of_same [OF same] .
  have bh: "blocking_queue_heads (ps r) = blocking_queue_heads (procs s r)"
    "blocking_queue_tails (ps r) = blocking_queue_tails (procs s r)" for r
    using same_but_links_fields(14,15) [OF same [of r]] by auto
  have d: "distinct (as @ p # bs)" using ch xs by (simp add: chain_at_def)
  have inv': "qinv ?s' (insert p W) (qs(?pl := as @ bs))"
  proof (rule qinv_update [OF inv f(1)])
    show "p \<in> W \<or> p \<in> set (qs ?pl)" using pq by simp
    show "prev_proc (procs ?s' r) = prev_proc (procs s r) \<and> next_proc (procs ?s' r) = next_proc (procs s r)"
      if "r \<notin> set (qs ?pl)" "r \<noteq> p" for r using frame [of r] that xs by simp
    show "head_at ?s' pl' = head_at s pl' \<and> tail_at ?s' pl' = tail_at s pl'" if "pl' \<noteq> ?pl" for pl'
      using that st bh by (cases pl') (auto simp: state_place_def has_proc_queue_cases)
    show "chain_at ?s' ?pl (as @ bs)" using q f by (simp add: chain_at_queue_on)
    show "set (as @ bs) = set (qs ?pl) - {p} \<union>
        (if p \<notin> insert p W \<and> valid p \<and> place_of (procs ?s' p) = Some ?pl then {p} else {})"
      using d xs by auto
  qed (use place p in auto)
  have "remove_pcb_from_queue p s = Some ?s'"
    using r st verify_pcb_queues_ok [OF inv'] has_proc_queue_cases [of ?st]
    by (auto simp: remove_pcb_from_queue_def get_pcb_queue_def)
  then show ?thesis
    by (rule that) (use inv' same xs in \<open>auto simp: remove1_append\<close>)
qed

subsection \<open>Queues of blocked processes\<close>

text \<open>Equal up to the fields that hold queues together.\<close>

definition same_but_queues :: "pcb \<Rightarrow> pcb \<Rightarrow> bool" where
  "same_but_queues c d \<longleftrightarrow>
     c\<lparr>prev_proc := None, next_proc := None, blocking_queue_heads := \<lambda>_. None,
       blocking_queue_tails := \<lambda>_. None\<rparr> =
     d\<lparr>prev_proc := None, next_proc := None, blocking_queue_heads := \<lambda>_. None,
       blocking_queue_tails := \<lambda>_. None\<rparr>"

lemma same_but_queues_refl [simp]: "same_but_queues c c"
  by (simp add: same_but_queues_def)

lemma same_but_queues_trans: "same_but_queues a b \<Longrightarrow> same_but_queues b c \<Longrightarrow> same_but_queues a c"
  by (simp add: same_but_queues_def)

lemma same_but_queues_links: "same_but_links c d \<Longrightarrow> same_but_queues c d"
  by (cases c; cases d) (simp add: same_but_links_def same_but_queues_def)

lemma same_but_queues_fields:
  assumes "same_but_queues c d"
  shows "pid c = pid d" "curr_state c = curr_state d" "cpu_time c = cpu_time d"
    "memory_region c = memory_region d" "esp c = esp d" "args c = args d" "ret c = ret d"
    "signal_table c = signal_table d" "signals_fired c = signals_fired d"
    "signals_enabled c = signals_enabled d" "fd_table c = fd_table d"
    "blocking_proc c = blocking_proc d" "blocking_queue_name c = blocking_queue_name d"
  using assms by (cases c; cases d; simp add: same_but_queues_def)+

lemma place_of_queues: "same_but_queues c d \<Longrightarrow> place_of c = place_of d"
  unfolding place_of_def by (simp only: same_but_queues_fields)

lemma put_blocking_queue_simps [simp]:
  "procs (put_blocking_queue w q (h, t, ps) s) = ps(w := (ps w)
     \<lparr>blocking_queue_heads := (blocking_queue_heads (ps w))(q := h),
      blocking_queue_tails := (blocking_queue_tails (ps w))(q := t)\<rparr>)"
  "queue_heads (put_blocking_queue w q x s) = queue_heads s"
  "queue_tails (put_blocking_queue w q x s) = queue_tails s"
  "sleeping_list (put_blocking_queue w q x s) = sleeping_list s"
  "same_rest (put_blocking_queue w q x s) s' = same_rest s s'"
  by (simp_all add: put_blocking_queue_def case_prod_beta same_rest_def)

lemma has_queue_simps [simp]:
  "has_queue SENDER" "has_queue RECEIVER" "has_queue WAITING" "\<not> has_queue RECEIVE_ANY"
  "\<not> has_queue SLEEP" "\<not> has_queue DEVICE" "\<not> has_queue NO_BLOCKER"
  by (simp_all add: has_queue_def)

lemma place_of_blocked_on:
  assumes "curr_state c = PROC_STATE_BLOCKED" and "blocking_proc c = Some w"
    and "blocking_queue_name c = q" and "has_queue q"
  shows "place_of c = Some (In_blocking w q)"
  using assms by (auto simp: place_of_def)

text \<open>
  The caller may set the state to blocked before or after it is queued; either way it has its
  place once the state is set.
\<close>

lemma add_proc_to_blocking_queue_ok:
  assumes inv: "qinv s W qs" and p: "p \<in> W" "valid p" and w: "valid w" and q: "has_queue q"
  obtains s' where "add_proc_to_blocking_queue p (Some w) q s = Some s'"
    and "qinv (upd_proc p (\<lambda>c. c\<lparr>curr_state := PROC_STATE_BLOCKED\<rparr>) s') (W - {p})
      (qs(In_blocking w q := qs (In_blocking w q) @ [p]))"
    and "\<And>r. same_but_queues (procs s' r)
      (if r = p then (procs s p)\<lparr>blocking_proc := Some w, blocking_queue_name := q\<rparr> else procs s r)"
    and "same_rest s' s" and "sleeping_list s' = sleeping_list s"
    and "queue_heads s' = queue_heads s" and "queue_tails s' = queue_tails s"
proof -
  let ?pl = "In_blocking w q"
  have r: "real_place ?pl" using w q by simp
  have pq: "p \<notin> set (qs ?pl)" using p qinvD(2) [OF inv] by blast
  have "queue_on (blocking_queue_heads (procs s w) q, blocking_queue_tails (procs s w) q, procs s) (qs ?pl)"
    using qinvD(1) [OF inv r] by (simp add: chain_at_queue_on)
  then obtain h t ps where a: "add_proc_to_queue p (blocking_queue_heads (procs s w) q,
      blocking_queue_tails (procs s w) q, procs s) = Some (h, t, ps)"
    and qo: "queue_on (h, t, ps) (qs ?pl @ [p])"
    and same: "\<And>r. same_but_links (ps r) (procs s r)"
    and frame: "\<And>r. r \<notin> set (qs ?pl @ [p]) \<Longrightarrow> ps r = procs s r"
    by (rule add_proc_to_queue_on [OF _ pq]) blast
  let ?s1 = "put_blocking_queue w q (h, t, ps) s"
  let ?s' = "upd_proc p (\<lambda>c. c\<lparr>blocking_proc := Some w, blocking_queue_name := q\<rparr>) ?s1"
  let ?s2 = "upd_proc p (\<lambda>c. c\<lparr>curr_state := PROC_STATE_BLOCKED\<rparr>) ?s'"
  have run: "add_proc_to_blocking_queue p (Some w) q s = Some ?s'"
    using a q by (simp add: add_proc_to_blocking_queue_def get_blocking_queue_def)
  have l: "prev_proc (procs ?s2 r) = prev_proc (ps r)" "next_proc (procs ?s2 r) = next_proc (ps r)" for r
    by simp_all
  have bh: "blocking_queue_heads (procs ?s2 r) = (if r = w then (blocking_queue_heads (ps w))(q := h)
      else blocking_queue_heads (ps r))"
    "blocking_queue_tails (procs ?s2 r) = (if r = w then (blocking_queue_tails (ps w))(q := t)
      else blocking_queue_tails (ps r))" for r by simp_all
  have old: "blocking_queue_heads (ps r) = blocking_queue_heads (procs s r)"
    "blocking_queue_tails (ps r) = blocking_queue_tails (procs s r)" for r
    using same_but_links_fields(14,15) [OF same [of r]] by auto
  have sq: "same_but_queues (procs ?s' r)
      (if r = p then (procs s p)\<lparr>blocking_proc := Some w, blocking_queue_name := q\<rparr> else procs s r)" for r
    using same [of r] by (cases "ps r"; cases "procs s r") (auto simp: same_but_links_def same_but_queues_def)
  have place: "place_of (procs ?s2 r) = (if r = p then Some ?pl else place_of (procs s r))" for r
  proof (cases "r = p")
    case True
    then show ?thesis using place_of_blocked_on [of "procs ?s2 p" w q] q by simp
  next
    case False
    then have "procs ?s2 r = procs ?s' r" by simp
    then show ?thesis using place_of_queues [OF sq [of r]] False by simp
  qed
  have "qinv ?s2 (W - {p}) (qs(?pl := qs ?pl @ [p]))"
  proof (rule qinv_update [OF inv r])
    show "p \<in> W \<or> p \<in> set (qs ?pl)" using p by simp
    show "prev_proc (procs ?s2 r) = prev_proc (procs s r) \<and> next_proc (procs ?s2 r) = next_proc (procs s r)"
      if "r \<notin> set (qs ?pl)" "r \<noteq> p" for r using frame [of r] that l [of r] by simp
    show "head_at ?s2 pl' = head_at s pl' \<and> tail_at ?s2 pl' = tail_at s pl'" if "pl' \<noteq> ?pl" for pl'
      using that old by (cases pl') (auto split: if_splits)
    show "place_of (procs ?s2 r) = place_of (procs s r)" if "r \<noteq> p" for r using place [of r] that by simp
    show "place_of (procs ?s2 p) = Some ?pl \<or> place_of (procs ?s2 p) = None" using place [of p] by simp
    have "queue_on (h, t, procs ?s2) (qs ?pl @ [p])"
      using qo queue_on_cong [of "qs ?pl @ [p]" "procs ?s2" ps] l by blast
    moreover have "head_at ?s2 ?pl = h" "tail_at ?s2 ?pl = t" by simp_all
    ultimately show "chain_at ?s2 ?pl (qs ?pl @ [p])" by (simp add: chain_at_queue_on)
    show "set (qs ?pl @ [p]) = set (qs ?pl) - {p} \<union>
        (if p \<notin> W - {p} \<and> valid p \<and> place_of (procs ?s2 p) = Some ?pl then {p} else {})"
      using pq place [of p] p by auto
  qed auto
  then show ?thesis by (rule that [OF run]) (use sq in \<open>simp_all add: same_rest_def put_blocking_queue_def\<close>)
qed

lemma remove_proc_from_blocking_queue_ok:
  assumes inv: "qinv s W qs" and p: "p \<notin> W" "valid p"
    and b: "curr_state (procs s p) = PROC_STATE_BLOCKED" "blocking_proc (procs s p) = Some w"
      "blocking_queue_name (procs s p) = q" "has_queue q"
  obtains s' where "remove_proc_from_blocking_queue p (Some w) q s = Some (1, s')"
    and "qinv s' (insert p W) (qs(In_blocking w q := remove1 p (qs (In_blocking w q))))"
    and "\<And>r. same_but_queues (procs s' r)
      (if r = p then (procs s p)\<lparr>blocking_proc := None, blocking_queue_name := NO_BLOCKER\<rparr> else procs s r)"
    and "same_rest s' s" and "sleeping_list s' = sleeping_list s"
    and "queue_heads s' = queue_heads s" and "queue_tails s' = queue_tails s"
proof -
  let ?pl = "In_blocking w q"
  have pl: "place_of (procs s p) = Some ?pl" using place_of_blocked_on [OF b] .
  have r: "real_place ?pl" and pq: "p \<in> set (qs ?pl)" using qinv_real [OF inv p(2,1) pl] .
  then obtain as bs where xs: "qs ?pl = as @ p # bs" "p \<notin> set as"
    using split_list_first [of p "qs ?pl"] by blast
  have ch: "chain_at s ?pl (qs ?pl)" using qinvD(1) [OF inv r] .
  then have "queue_on (blocking_queue_heads (procs s w) q, blocking_queue_tails (procs s w) q, procs s) (as @ p # bs)"
    by (simp add: chain_at_queue_on xs)
  then obtain h t ps where a: "remove_proc_from_queue p (blocking_queue_heads (procs s w) q,
      blocking_queue_tails (procs s w) q, procs s) = (h, t, ps)"
    and qo: "queue_on (h, t, ps) (as @ bs)"
    and same: "\<And>r. same_but_links (ps r) (procs s r)"
    and frame: "\<And>r. r \<notin> set (as @ p # bs) \<Longrightarrow> ps r = procs s r"
    by (rule remove_proc_from_queue_on) blast
  let ?s1 = "put_blocking_queue w q (h, t, ps) s"
  let ?s' = "upd_proc p (\<lambda>c. c\<lparr>blocking_proc := None, blocking_queue_name := NO_BLOCKER\<rparr>) ?s1"
  have run: "remove_proc_from_blocking_queue p (Some w) q s = Some (1, ?s')"
    using a b by (simp add: remove_proc_from_blocking_queue_def get_blocking_queue_def)
  have l: "prev_proc (procs ?s' r) = prev_proc (ps r)" "next_proc (procs ?s' r) = next_proc (ps r)" for r
    by simp_all
  have old: "blocking_queue_heads (ps r) = blocking_queue_heads (procs s r)"
    "blocking_queue_tails (ps r) = blocking_queue_tails (procs s r)" for r
    using same_but_links_fields(14,15) [OF same [of r]] by auto
  have sq: "same_but_queues (procs ?s' r)
      (if r = p then (procs s p)\<lparr>blocking_proc := None, blocking_queue_name := NO_BLOCKER\<rparr> else procs s r)" for r
    using same [of r] by (cases "ps r"; cases "procs s r") (auto simp: same_but_links_def same_but_queues_def)
  have d: "distinct (as @ p # bs)" using ch xs by (simp add: chain_at_def)
  have "qinv ?s' (insert p W) (qs(?pl := as @ bs))"
  proof (rule qinv_update [OF inv r])
    show "p \<in> W \<or> p \<in> set (qs ?pl)" using pq by simp
    show "prev_proc (procs ?s' r) = prev_proc (procs s r) \<and> next_proc (procs ?s' r) = next_proc (procs s r)"
      if "r \<notin> set (qs ?pl)" "r \<noteq> p" for r using frame [of r] that l [of r] xs by simp
    show "head_at ?s' pl' = head_at s pl' \<and> tail_at ?s' pl' = tail_at s pl'" if "pl' \<noteq> ?pl" for pl'
      using that old by (cases pl') (auto split: if_splits)
    show "place_of (procs ?s' r) = place_of (procs s r)" if "r \<noteq> p" for r
      using place_of_queues [OF sq [of r]] that by simp
    have "queue_on (h, t, procs ?s') (as @ bs)"
      using qo queue_on_cong [of "as @ bs" "procs ?s'" ps] l by blast
    moreover have "head_at ?s' ?pl = h" "tail_at ?s' ?pl = t" by simp_all
    ultimately show "chain_at ?s' ?pl (as @ bs)" by (simp add: chain_at_queue_on)
    show "set (as @ bs) = set (qs ?pl) - {p} \<union>
        (if p \<notin> insert p W \<and> valid p \<and> place_of (procs ?s' p) = Some ?pl then {p} else {})"
      using d xs by auto
  qed auto
  then show ?thesis
    by (intro that [OF run]) (use sq xs in \<open>simp_all add: remove1_append same_rest_def put_blocking_queue_def\<close>)
qed

text \<open>Updates that leave the queue structure alone.\<close>

lemma qinv_upd_proc:
  assumes "qinv s W qs" and "prev_proc (f (procs s p)) = prev_proc (procs s p)"
    and "next_proc (f (procs s p)) = next_proc (procs s p)"
    and "blocking_queue_heads (f (procs s p)) = blocking_queue_heads (procs s p)"
    and "blocking_queue_tails (f (procs s p)) = blocking_queue_tails (procs s p)"
    and "p \<in> W \<or> \<not> valid p \<or> place_of (f (procs s p)) = place_of (procs s p)"
  shows "qinv (upd_proc p f s) W qs"
proof (rule qinv_cong [OF assms(1)])
  show "place_of (procs (upd_proc p f s) r) = place_of (procs s r)" if "valid r" "r \<notin> W" for r
    using assms(6) that by auto
  show "head_at (upd_proc p f s) pl = head_at s pl" for pl using assms(4) by (cases pl) auto
  show "tail_at (upd_proc p f s) pl = tail_at s pl" for pl using assms(5) by (cases pl) auto
qed (use assms(2,3) in auto)

lemma qinv_other:
  assumes "qinv s W qs" and "procs s' = procs s" and "queue_heads s' = queue_heads s"
    and "queue_tails s' = queue_tails s" and "sleeping_list s' = sleeping_list s"
  shows "qinv s' W qs"
proof (rule qinv_cong [OF assms(1)])
  show "head_at s' pl = head_at s pl" for pl using assms by (cases pl) auto
  show "tail_at s' pl = tail_at s pl" for pl using assms by (cases pl) auto
qed (use assms in auto)

lemma place_of_upd [simp]:
  "place_of (c\<lparr>ret := x\<rparr>) = place_of c" "place_of (c\<lparr>esp := x2\<rparr>) = place_of c"
  "place_of (c\<lparr>args := x3\<rparr>) = place_of c" "place_of (c\<lparr>cpu_time := x4\<rparr>) = place_of c"
  "place_of (c\<lparr>signals_fired := x5\<rparr>) = place_of c" "place_of (c\<lparr>signals_enabled := x6\<rparr>) = place_of c"
  "place_of (c\<lparr>fd_table := x7\<rparr>) = place_of c" "place_of (c\<lparr>memory_region := x8\<rparr>) = place_of c"
  "place_of (c\<lparr>signal_table := x9\<rparr>) = place_of c" "place_of (c\<lparr>pid := x10\<rparr>) = place_of c"
  by (simp_all add: place_of_def split: proc_state.split)

subsection \<open>The next process to run\<close>

lemma get_next_proc_ok:
  assumes inv: "qinv s W qs" and W: "\<And>p. p \<in> W \<Longrightarrow> curr_state (procs s p) \<noteq> PROC_STATE_READY \<or> \<not> valid p"
  obtains s' p where "get_next_proc s = Some (p, s')"
    and "p = (case qs In_ready of [] \<Rightarrow> IdleProc | x # _ \<Rightarrow> x)"
    and "qinv s' W (qs(In_ready := tl (qs In_ready)))"
    and "\<And>r. same_but_links (procs s' r)
      (if r = p then (procs s p)\<lparr>curr_state := PROC_STATE_RUNNING\<rparr> else procs s r)"
    and "same_rest s' s" and "sleeping_list s' = sleeping_list s"
proof (cases "qs In_ready")
  case Nil
  then have h: "queue_heads s PROC_STATE_READY = None"
    using qinvD(1) [OF inv, of In_ready] by (simp add: chain_at_def)
  let ?s' = "upd_proc IdleProc (\<lambda>c. c\<lparr>curr_state := PROC_STATE_RUNNING\<rparr>) s"
  have run: "get_next_proc s = Some (IdleProc, ?s')" using h by (simp add: get_next_proc_def)
  have "qinv ?s' W (qs(In_ready := tl (qs In_ready)))"
    using qinv_upd_proc [OF inv, of "\<lambda>c. c\<lparr>curr_state := PROC_STATE_RUNNING\<rparr>" IdleProc] Nil
    by (simp add: valid_def fun_upd_idem)
  then show ?thesis using Nil by (intro that [OF run]) auto
next
  case (Cons p xs)
  have ch: "chain_at s In_ready (p # xs)" using qinvD(1) [OF inv, of In_ready] Cons by simp
  then have h: "queue_heads s PROC_STATE_READY = Some p" and d: "p \<notin> set xs"
    by (auto simp: chain_at_def)
  have p: "valid p" "p \<notin> W" "place_of (procs s p) = Some In_ready"
    using qinvD(2) [OF inv, of p In_ready] Cons by auto
  then have st: "curr_state (procs s p) = PROC_STATE_READY"
    by (cases "curr_state (procs s p)") (auto simp: place_of_def split: if_splits)
  obtain s1 where s1: "remove_pcb_from_queue p s = Some s1"
    "qinv s1 (insert p W) (qs(state_place PROC_STATE_READY := remove1 p (qs (state_place PROC_STATE_READY))))"
    "\<And>r. same_but_links (procs s1 r) (procs s r)" "same_rest s1 s" "sleeping_list s1 = sleeping_list s"
    by (rule remove_pcb_from_queue_ok [OF inv p(2,1), unfolded st]) (auto simp: has_proc_queue_cases)
  let ?s' = "upd_proc p (\<lambda>c. c\<lparr>curr_state := PROC_STATE_RUNNING\<rparr>) s1"
  have q1: "qinv ?s' (insert p W) (qs(In_ready := xs))"
    using qinv_upd_proc [OF s1(2), of "\<lambda>c. c\<lparr>curr_state := PROC_STATE_RUNNING\<rparr>" p] Cons
    by (simp add: state_place_def)
  have "qinv ?s' W (qs(In_ready := xs))"
    using q1 unfolding qinv_def by (auto simp: place_of_def)
  moreover have run: "get_next_proc s = Some (p, ?s')" using h s1(1) by (simp add: get_next_proc_def)
  moreover have "same_but_links (procs ?s' r)
      (if r = p then (procs s p)\<lparr>curr_state := PROC_STATE_RUNNING\<rparr> else procs s r)" for r
    using s1(3) [of r] by (cases "procs s1 r"; cases "procs s r") (auto simp: same_but_links_def)
  ultimately show ?thesis using s1 Cons by (intro that [OF run]) auto
qed

end
