(* ===== verification/Delta_List.thy ===== *)
theory Delta_List
  imports Main
begin

text \<open>
  Delta lists: each entry has the time it waits longer than the one before it. \<open>dl_times\<close> reads
  off the absolute times, and the operations of c/sleep.c are specified on those: insertion in
  order, removal, and the passing of one tick.
\<close>

fun dl_times :: "int \<Rightarrow> ('a \<times> int) list \<Rightarrow> ('a \<times> int) list" where
  "dl_times acc [] = []"
| "dl_times acc ((a, d) # L) = (a, acc + d) # dl_times (acc + d) L"

text \<open>The entries a new time \<open>t\<close> passes, those it does not, and what is left of \<open>t\<close>.\<close>

fun dl_split :: "int \<Rightarrow> ('a \<times> int) list \<Rightarrow> ('a \<times> int) list \<times> ('a \<times> int) list \<times> int" where
  "dl_split t [] = ([], [], t)"
| "dl_split t ((b, u) # L) =
     (if t > u then (let (as, bs, t') = dl_split (t - u) L in ((b, u) # as, bs, t'))
      else ([], (b, u) # L, t))"

fun dl_lower :: "int \<Rightarrow> ('a \<times> int) list \<Rightarrow> ('a \<times> int) list" where
  "dl_lower t [] = []"
| "dl_lower t ((b, u) # L) = (b, u - t) # L"

definition dl_insert :: "'a \<Rightarrow> int \<Rightarrow> ('a \<times> int) list \<Rightarrow> ('a \<times> int) list" where
  "dl_insert a t L = (let (as, bs, t') = dl_split t L in as @ (a, t') # dl_lower t' bs)"

fun dl_remove :: "'a \<Rightarrow> ('a \<times> int) list \<Rightarrow> ('a \<times> int) list" where
  "dl_remove a [] = []"
| "dl_remove a ((b, u) # L) = (if a = b then dl_lower (- u) L else (b, u) # dl_remove a L)"

definition dl_ok :: "int \<Rightarrow> ('a \<times> int) list \<Rightarrow> bool" where
  "dl_ok bound L \<longleftrightarrow> distinct (map fst L) \<and> (\<forall>(a, d)\<in>set L. 0 \<le> d) \<and>
     sum_list (map snd L) \<le> bound \<and> (\<forall>a d L'. L = (a, d) # L' \<longrightarrow> 0 < d)"

text \<open>What holds in the middle of a tick, when the front may be due.\<close>

definition dl_bounded :: "int \<Rightarrow> ('a \<times> int) list \<Rightarrow> bool" where
  "dl_bounded bound L \<longleftrightarrow> (\<forall>(a, d)\<in>set L. 0 \<le> d) \<and> sum_list (map snd L) \<le> bound"

lemma dl_ok_bounded: "dl_ok bound L \<Longrightarrow> dl_bounded bound L"
  by (simp add: dl_ok_def dl_bounded_def)

lemma pair_list_cases:
  obtains "L = []" | b u K where "L = (b, u) # K"
  by (cases L) auto

lemma dl_times_append:
  "dl_times acc (K @ L) = dl_times acc K @ dl_times (acc + sum_list (map snd K)) L"
  by (induction acc K rule: dl_times.induct) (simp_all add: algebra_simps)

lemma dl_times_lower: "dl_times (acc + t) (dl_lower t L) = dl_times acc L"
  by (cases L rule: pair_list_cases) simp_all

lemma dl_times_fst [simp]: "map fst (dl_times acc L) = map fst L"
  by (induction acc L rule: dl_times.induct) simp_all

lemma dl_lower_fst [simp]: "map fst (dl_lower t L) = map fst L"
  by (cases L rule: pair_list_cases) simp_all

lemma dl_lower_sum: "L \<noteq> [] \<Longrightarrow> sum_list (map snd (dl_lower t L)) = sum_list (map snd L) - t"
  by (cases L rule: pair_list_cases) simp_all

lemma dl_times_mono:
  assumes "\<forall>(a, d)\<in>set L. 0 \<le> d" and "(a, t) \<in> set (dl_times acc L)"
  shows "acc \<le> t"
  using assms
proof (induction acc L rule: dl_times.induct)
  case (2 acc b d L)
  then show ?case by (cases "t = acc + d") auto
qed simp

text \<open>What the split guarantees.\<close>

lemma dl_split_facts:
  assumes "dl_split t L = (as, bs, t')"
  shows "L = as @ bs" and "t' = t - sum_list (map snd as)"
    and "0 < t \<Longrightarrow> 0 < t'" and "bs \<noteq> [] \<Longrightarrow> t' \<le> snd (hd bs)"
    and "0 < t \<Longrightarrow> \<forall>(a, d)\<in>set L. 0 \<le> d \<Longrightarrow> t' \<le> t"
  using assms
proof (induction t L arbitrary: as bs t' rule: dl_split.induct)
  case (2 t b u L)
  {
    case 1 then show ?case using "2.IH" by (auto split: if_splits prod.splits)
  next
    case 2 then show ?case using "2.IH" by (fastforce split: if_splits prod.splits)
  next
    case 3 then show ?case using "2.IH" by (fastforce split: if_splits prod.splits)
  next
    case 4 then show ?case using "2.IH" by (fastforce split: if_splits prod.splits)
  next
    case 5 then show ?case using "2.IH" by (fastforce split: if_splits prod.splits)
  }
qed auto

text \<open>Insertion keeps all other times and puts the new entry in order, before equal ones.\<close>

lemma dl_split_times:
  assumes "dl_split t L = (as, bs, t')" and "\<forall>(a, d)\<in>set L. 0 \<le> d"
  shows "dl_times acc as = takeWhile (\<lambda>(_, u). u < acc + t) (dl_times acc L)"
    and "dl_times (acc + sum_list (map snd as)) bs = dropWhile (\<lambda>(_, u). u < acc + t) (dl_times acc L)"
  using assms
proof (induction t L arbitrary: as bs t' acc rule: dl_split.induct)
  case (2 t b u L)
  {
    case 1
    then show ?case using "2.IH"(1) [of _ _ _ "acc + u"] by (auto split: if_splits prod.splits)
  next
    case 2
    then show ?case using "2.IH"(2) [of _ _ _ "acc + u"]
      by (auto split: if_splits prod.splits simp: algebra_simps)
  }
qed auto

lemma dl_insert_times:
  assumes "\<forall>(b, d)\<in>set L. 0 \<le> d"
  shows "dl_times 0 (dl_insert a t L) =
    takeWhile (\<lambda>(_, u). u < t) (dl_times 0 L) @ (a, t) # dropWhile (\<lambda>(_, u). u < t) (dl_times 0 L)"
proof -
  obtain as bs t' where s: "dl_split t L = (as, bs, t')" by (metis prod_cases3)
  have "dl_times 0 (dl_insert a t L) = dl_times 0 as @ (a, sum_list (map snd as) + t') #
      dl_times (sum_list (map snd as) + t') (dl_lower t' bs)"
    by (simp add: dl_insert_def s dl_times_append)
  then show ?thesis
    using dl_split_times [OF s assms, of 0] dl_split_facts(2) [OF s]
      dl_times_lower [of "sum_list (map snd as)" t' bs] by simp
qed

lemma dl_remove_times:
  assumes "distinct (map fst L)"
  shows "dl_times acc (dl_remove a L) = filter (\<lambda>(b, _). b \<noteq> a) (dl_times acc L)"
  using assms
proof (induction a L arbitrary: acc rule: dl_remove.induct)
  case (2 a b u L)
  show ?case
  proof (cases "a = b")
    case True
    have "a \<notin> fst ` set (dl_times (acc + u) L)"
      using 2(2) True dl_times_fst [of "acc + u" L] by (simp flip: set_map)
    then have "filter (\<lambda>(b, _). b \<noteq> a) (dl_times (acc + u) L) = dl_times (acc + u) L"
      by (force simp: filter_id_conv)
    then show ?thesis using True dl_times_lower [of "acc + u" "- u" L] by simp
  qed (use 2 in auto)
qed simp

lemma dl_insert_ok:
  assumes ok: "dl_ok bound L" and a: "a \<notin> fst ` set L" and t: "0 < t" "t \<le> bound"
  shows "dl_ok bound (dl_insert a t L)"
proof -
  obtain as bs t' where s: "dl_split t L = (as, bs, t')" by (metis prod_cases3)
  note f = dl_split_facts [OF s]
  have i: "dl_insert a t L = as @ (a, t') # dl_lower t' bs" by (simp add: dl_insert_def s)
  have "sum_list (map snd (dl_insert a t L)) \<le> bound"
  proof (cases bs)
    case Nil
    then show ?thesis using f(2) t by (simp add: i)
  next
    case (Cons b bs')
    then have "sum_list (map snd (dl_insert a t L)) = sum_list (map snd L)"
      using f(1) dl_lower_sum [of bs t'] unfolding i by simp
    then show ?thesis using ok by (simp add: dl_ok_def)
  qed
  moreover have "\<forall>(b, d)\<in>set (dl_insert a t L). 0 \<le> d"
    using ok f(1,3,4) t unfolding i by (cases bs rule: pair_list_cases) (auto simp: dl_ok_def)
  moreover have "distinct (map fst (dl_insert a t L))"
    using ok a f(1) unfolding i by (auto simp: dl_ok_def)
  moreover have "0 < d" if "dl_insert a t L = (b, d) # L'" for b d L'
    using that ok f(1,3) t unfolding i by (cases as) (auto simp: dl_ok_def)
  ultimately show ?thesis by (simp add: dl_ok_def)
qed

lemma dl_remove_facts:
  assumes "\<forall>(b, d)\<in>set L. 0 \<le> d"
  shows "map fst (dl_remove a L) = remove1 a (map fst L)"
    and "sum_list (map snd (dl_remove a L)) \<le> sum_list (map snd L)"
    and "\<forall>(b, d)\<in>set (dl_remove a L). 0 \<le> d"
  using assms
proof (induction a L rule: dl_remove.induct)
  case (2 a b u L)
  {
    case 1 then show ?case using "2.IH" by auto
  next
    case 2 then show ?case using "2.IH" by (cases L rule: pair_list_cases) auto
  next
    case 3 then show ?case using "2.IH" by (cases L rule: pair_list_cases) auto
  }
qed auto

lemma dl_remove_ok:
  assumes "dl_ok bound L"
  shows "dl_ok bound (dl_remove a L)"
proof -
  have nn: "\<forall>(b, d)\<in>set L. 0 \<le> d" using assms by (simp add: dl_ok_def)
  note f = dl_remove_facts [OF nn, of a]
  have "0 < d" if "dl_remove a L = (b, d) # L'" for b d L'
  proof (cases L)
    case (Cons x K)
    obtain c u where x: "x = (c, u)" by (cases x)
    have u: "0 < u" using assms Cons x by (simp add: dl_ok_def)
    show ?thesis
    proof (cases "a = c")
      case True
      with that Cons x u nn show ?thesis by (cases K rule: pair_list_cases) auto
    qed (use that Cons x u in auto)
  qed (use that in simp)
  then show ?thesis using assms f unfolding dl_ok_def by (auto intro: distinct_remove1 order_trans)
qed

subsection \<open>One tick\<close>

text \<open>Every entry is one tick closer; those whose time has come leave from the front.\<close>

definition dl_expire :: "('a \<times> int) list \<Rightarrow> ('a \<times> int) list" where
  "dl_expire L = dropWhile (\<lambda>(_, d). d \<le> 0) L"

definition dl_woken :: "('a \<times> int) list \<Rightarrow> ('a \<times> int) list" where
  "dl_woken L = takeWhile (\<lambda>(_, d). d \<le> 0) L"

lemma dl_times_shift: "dl_times (acc + k) L = map (\<lambda>(a, t). (a, t + k)) (dl_times acc L)"
proof (induction acc L rule: dl_times.induct)
  case (2 acc b d L)
  then show ?case by (simp add: add.commute add.left_commute)
qed simp

lemma dl_expire_times:
  assumes "\<forall>(b, d)\<in>set K. 0 \<le> d"
  shows "dl_times 0 (dl_expire K) = filter (\<lambda>(_, t). 0 < t) (dl_times 0 K)"
    and "map fst (dl_woken K) = map fst (filter (\<lambda>(_, t). t \<le> 0) (dl_times 0 K))"
  using assms
proof (induction K)
  case (Cons x K)
  obtain b d where x: "x = (b, d)" by (cases x)
  have pos: "0 < t" if "\<forall>(b, d)\<in>set (x # K). 0 \<le> d" "0 < d" "(c, t) \<in> set (dl_times d K)" for c t
    using dl_times_mono [of K c t d] that x by auto
  {
    case 1
    show ?case
    proof (cases "d = 0")
      case False
      then have d: "0 < d" using 1 x by auto
      then have "filter (\<lambda>(_, t). 0 < t) (dl_times d K) = dl_times d K"
        using pos [OF 1] by (auto simp: filter_id_conv)
      then show ?thesis using d by (simp add: dl_expire_def x)
    qed (use Cons.IH(1) 1 x in \<open>simp add: dl_expire_def\<close>)
  next
    case 2
    show ?case
    proof (cases "d = 0")
      case False
      then have d: "0 < d" using 2 x by auto
      then have "filter (\<lambda>(_, t). t \<le> 0) (dl_times d K) = []"
        using pos [OF 2] by (fastforce simp: filter_empty_conv)
      then show ?thesis using d by (simp add: dl_woken_def x)
    qed (use Cons.IH(2) 2 x in \<open>simp add: dl_woken_def\<close>)
  }
qed (simp_all add: dl_expire_def dl_woken_def)

text \<open>After a tick: who wakes, and what the others have left.\<close>

lemma dl_tick_times:
  assumes "dl_ok bound L"
  shows "dl_times 0 (dl_expire (dl_lower 1 L)) =
      map (\<lambda>(a, t). (a, t - 1)) (filter (\<lambda>(_, t). 1 < t) (dl_times 0 L))"
    and "map fst (dl_woken (dl_lower 1 L)) = map fst (filter (\<lambda>(_, t). t \<le> 1) (dl_times 0 L))"
proof -
  have nn: "\<forall>(b, d)\<in>set (dl_lower 1 L). 0 \<le> d"
    using assms by (cases L rule: pair_list_cases) (auto simp: dl_ok_def)
  have sh: "dl_times 0 (dl_lower 1 L) = map (\<lambda>(a, t). (a, t - 1)) (dl_times 0 L)"
    using dl_times_lower [of "- 1" 1 L] dl_times_shift [of 0 "- 1" L] by simp
  show "dl_times 0 (dl_expire (dl_lower 1 L)) =
      map (\<lambda>(a, t). (a, t - 1)) (filter (\<lambda>(_, t). 1 < t) (dl_times 0 L))"
    unfolding dl_expire_times(1) [OF nn] sh by (auto simp: filter_map comp_def intro!: arg_cong [of _ _ "map _"] filter_cong)
  show "map fst (dl_woken (dl_lower 1 L)) = map fst (filter (\<lambda>(_, t). t \<le> 1) (dl_times 0 L))"
    unfolding dl_expire_times(2) [OF nn] sh by (auto simp: filter_map comp_def split_beta' intro!: arg_cong [of _ _ "map _"] filter_cong)
qed

lemma dropWhile_suffix: "\<exists>K. L = K @ dropWhile P L \<and> (\<forall>x\<in>set K. P x)"
  by (rule exI [of _ "takeWhile P L"]) (auto dest: set_takeWhileD)

lemma dl_lower_bounded: "dl_ok bound L \<Longrightarrow> dl_bounded bound (dl_lower 1 L)"
  by (cases L rule: pair_list_cases) (auto simp: dl_ok_def dl_bounded_def)

lemma dl_expire_ok:
  assumes "dl_ok bound L"
  shows "dl_ok bound (dl_expire (dl_lower 1 L))"
proof (cases L rule: pair_list_cases)
  case (2 b u K)
  obtain X where X: "dl_lower 1 L = X @ dl_expire (dl_lower 1 L)"
    using dropWhile_suffix [of "dl_lower 1 L"] unfolding dl_expire_def by blast
  have nn: "\<forall>(b, d)\<in>set (dl_lower 1 L). 0 \<le> d" and d: "distinct (map fst (dl_lower 1 L))"
    and s: "sum_list (map snd (dl_lower 1 L)) \<le> bound"
    using assms 2 by (auto simp: dl_ok_def)
  have "0 \<le> sum_list (map snd X)"
    by (rule sum_list_nonneg) (use nn in \<open>subst (asm) X, auto\<close>)
  then have "sum_list (map snd (dl_expire (dl_lower 1 L))) \<le> bound"
    using s by (subst (asm) X) simp
  moreover have "distinct (map fst (dl_expire (dl_lower 1 L)))" using d by (subst (asm) X) simp
  moreover have "\<forall>(b, d)\<in>set (dl_expire (dl_lower 1 L)). 0 \<le> d" using nn by (subst (asm) X) auto
  moreover have "0 < d" if "dl_expire (dl_lower 1 L) = (a, d) # L'" for a d L'
    using dropWhile_eq_Cons_conv [of "\<lambda>(_, d). d \<le> 0" "dl_lower 1 L" "(a, d)" L'] that
    by (simp add: dl_expire_def)
  ultimately show ?thesis by (simp add: dl_ok_def)
qed (use assms in \<open>simp add: dl_expire_def\<close>)

end
