(* ===== verification/Sleep_Facts.thy ===== *)
theory Sleep_Facts
  imports Sched_Inv Delta_List
begin

text \<open>
  The sleep device of c/sleep.c keeps a delta list: \<open>deltas\<close> reads it off the control blocks, and
  the routines on the linked list are the operations on delta lists.
\<close>

definition deltas :: "kernel \<Rightarrow> pcbref list \<Rightarrow> (pcbref \<times> int) list" where
  "deltas s xs = map (\<lambda>p. (p, ret (procs s p))) xs"

text \<open>The longest sleep: \<open>2 ^ 32 - 1\<close> milliseconds, in ticks and rounded up.\<close>

definition MAX_TICKS :: int where "MAX_TICKS = 429496730"

lemma deltas_simps [simp]:
  "deltas s [] = []" "deltas s (p # xs) = (p, ret (procs s p)) # deltas s xs"
  "deltas s (xs @ ys) = deltas s xs @ deltas s ys" "map fst (deltas s xs) = xs"
  "fst ` set (deltas s xs) = set xs" "deltas s xs = [] \<longleftrightarrow> xs = []"
  by (auto simp: deltas_def comp_def image_iff)

lemma deltas_cong:
  "(\<And>p. p \<in> set xs \<Longrightarrow> ret (procs s' p) = ret (procs s p)) \<Longrightarrow> deltas s' xs = deltas s xs"
  by (simp add: deltas_def)

lemma sum_nonneg_bound:
  assumes "\<forall>(a, d)\<in>set L. 0 \<le> (d :: int)" and "(a, d) \<in> set L"
  shows "0 \<le> d" and "d \<le> sum_list (map snd L)"
proof -
  show "0 \<le> d" using assms by auto
  have "d \<in> set (map snd L)" using assms(2) by force
  moreover have "0 \<le> x" if "x \<in> set (map snd L)" for x using that assms(1) by auto
  ultimately show "d \<le> sum_list (map snd L)"
  proof (induction L)
    case (Cons x L)
    have "0 \<le> sum_list (map snd L)" by (rule sum_list_nonneg) (use Cons.prems in auto)
    then show ?case using Cons by (cases "d = snd x") (auto simp: add_increasing)
  qed simp
qed

lemma dl_ok_entry:
  assumes "dl_bounded MAX_TICKS L" and "(a, d) \<in> set L"
  shows "0 \<le> d" and "d \<le> MAX_TICKS" and "in_s32 d"
proof -
  show "0 \<le> d" "d \<le> MAX_TICKS"
    using sum_nonneg_bound [of L a d] assms by (auto simp: dl_bounded_def)
  then show "in_s32 d" by (simp add: in_s32_def MAX_TICKS_def)
qed

lemma dl_ok_ret:
  assumes "dl_bounded MAX_TICKS (deltas s xs)" and "p \<in> set xs"
  shows "0 \<le> ret (procs s p)" and "ret (procs s p) \<le> MAX_TICKS" and "in_s32 (ret (procs s p))"
  using dl_ok_entry [OF assms(1), of p "ret (procs s p)"] assms(2) by (auto simp: deltas_def)

subsection \<open>The search\<close>

lemma sleep_place_split:
  assumes "links Some (\<lambda>p. prev_proc (ps p)) (\<lambda>p. next_proc (ps p)) prev xs None"
    and "distinct xs" and "p \<notin> set xs"
    and "\<And>q. q \<in> set xs \<Longrightarrow> 0 \<le> ret (ps q) \<and> ret (ps q) < 2 ^ 31"
    and "0 \<le> ret (ps p)" and "ret (ps p) < 2 ^ 31"
    and "dl_split (ret (ps p)) (map (\<lambda>q. (q, ret (ps q))) xs) = (as, bs, t)"
  shows "sleep_place p prev (headp Some xs None) ps =
    Some (lastp Some prev (map fst as), headp Some (map fst bs) None, ps(p := (ps p)\<lparr>ret := t\<rparr>))"
  using assms
proof (induction xs arbitrary: prev ps as)
  case Nil
  then show ?case by (subst sleep_place.simps) (auto simp: fun_upd_idem)
next
  case (Cons q xs)
  show ?case
  proof (cases "ret (ps p) > ret (ps q)")
    case False
    then have "as = []" "bs = map (\<lambda>q. (q, ret (ps q))) (q # xs)" "t = ret (ps p)"
      using Cons.prems(7) by auto
    then show ?thesis using False by (subst sleep_place.simps) (simp add: fun_upd_idem)
  next
    case True
    let ?ps = "ps(p := (ps p)\<lparr>ret := ret (ps p) - ret (ps q)\<rparr>)"
    have in32: "in_s32 (ret (ps p) - ret (ps q))"
      using Cons.prems(4) [of q] Cons.prems(5,6) True by (auto simp: in_s32_def)
    have same: "map (\<lambda>q. (q, ret (?ps q))) xs = map (\<lambda>q. (q, ret (ps q))) xs"
      using Cons.prems(3) by auto
    from Cons.prems(7) True obtain as' where as': "as = (q, ret (ps q)) # as'"
      "dl_split (ret (ps p) - ret (ps q)) (map (\<lambda>q. (q, ret (ps q))) xs) = (as', bs, t)"
      by (auto split: prod.splits)
    have "sleep_place p (Some q) (headp Some xs None) ?ps =
        Some (lastp Some (Some q) (map fst as'), headp Some (map fst bs) None, ?ps(p := (?ps p)\<lparr>ret := t\<rparr>))"
    proof (rule Cons.IH)
      show "links Some (\<lambda>p. prev_proc (?ps p)) (\<lambda>p. next_proc (?ps p)) (Some q) xs None"
        using Cons.prems(1,3) links_cong [of xs "\<lambda>p. prev_proc (?ps p)" "\<lambda>p. prev_proc (ps p)"
          "\<lambda>p. next_proc (?ps p)" "\<lambda>p. next_proc (ps p)"] by auto
      show "dl_split (ret (?ps p)) (map (\<lambda>q. (q, ret (?ps q))) xs) = (as', bs, t)"
        unfolding same using as'(2) by simp
      show "ret (?ps p) < 2 ^ 31" using Cons.prems(4) [of q] Cons.prems(6) by auto
    qed (use Cons.prems True in auto)
    moreover have "next_proc (ps q) = headp Some xs None" using Cons.prems(1) by simp
    ultimately show ?thesis using True in32 as'(1) by (subst sleep_place.simps) simp
  qed
qed


subsection \<open>Insertion\<close>

text \<open>What the sleep routines may change in a control block.\<close>

abbreviation retimed :: "kernel \<Rightarrow> kernel \<Rightarrow> pcbref \<Rightarrow> bool" where
  "retimed s' s r \<equiv> same_but_links (procs s' r) ((procs s r)\<lparr>ret := ret (procs s' r)\<rparr>)"

lemma same_but_links_ret:
  "same_but_links c (d\<lparr>ret := x\<rparr>) \<Longrightarrow> ret c = x \<and> place_of c = place_of d \<and>
    blocking_queue_heads c = blocking_queue_heads d \<and> blocking_queue_tails c = blocking_queue_tails d"
  using place_of_same [of c "d\<lparr>ret := x\<rparr>"] same_but_links_fields(7,14,15) [of c "d\<lparr>ret := x\<rparr>"] by simp

lemma add_to_sleeping_list_ok:
  assumes inv: "qinv s W qs" and p: "p \<in> W" "valid p"
    and b: "place_of (procs s p) = Some In_sleep"
    and ok: "dl_bounded MAX_TICKS (deltas s (qs In_sleep))"
    and t: "0 < ret (procs s p)" "ret (procs s p) \<le> MAX_TICKS"
  obtains s' ys where "add_to_sleeping_list p s = Some s'"
    and "qinv s' (W - {p}) (qs(In_sleep := ys))"
    and "deltas s' ys = dl_insert p (ret (procs s p)) (deltas s (qs In_sleep))"
    and "set ys = insert p (set (qs In_sleep))"
    and "\<And>r. retimed s' s r"
    and "\<And>r. r \<notin> set ys \<Longrightarrow> ret (procs s' r) = ret (procs s r)"
    and "same_rest s' s" and "queue_heads s' = queue_heads s" and "queue_tails s' = queue_tails s"
proof -
  let ?xs = "qs In_sleep" and ?T = "ret (procs s p)"
  have ch: "chain_at s In_sleep ?xs" using qinvD(1) [OF inv, of In_sleep] by simp
  then have l: "links Some (\<lambda>p. prev_proc (procs s p)) (\<lambda>p. next_proc (procs s p)) None ?xs None"
    and d: "distinct ?xs" and h: "sleeping_list s = headp Some ?xs None"
    by (auto simp: chain_at_def)
  have px: "p \<notin> set ?xs" using p qinvD(2) [OF inv] by blast
  obtain as bs t' where sp: "dl_split ?T (deltas s ?xs) = (as, bs, t')" by (metis prod_cases3)
  note f = dl_split_facts [OF sp]
  let ?as = "map fst as" and ?bs = "map fst bs"
  have xs: "?xs = ?as @ ?bs" using arg_cong [OF f(1), of "map fst"] by simp
  have ab: "as = deltas s ?as" "bs = deltas s ?bs"
    using f(1) deltas_simps(3) [of s ?as ?bs, folded xs] append_eq_append_conv [of "deltas s ?as" as]
    by (simp_all add: deltas_def)
  have nn: "\<forall>(a, d)\<in>set (deltas s ?xs). 0 \<le> d" using ok by (simp add: dl_bounded_def)
  have t': "0 < t'" "t' \<le> ?T" using f(3,5) t(1) nn by auto
  have place: "sleep_place p None (sleeping_list s) (procs s) =
      Some (lastp Some None ?as, headp Some ?bs None, (procs s)(p := (procs s p)\<lparr>ret := t'\<rparr>))"
    unfolding h
  proof (rule sleep_place_split [OF l d px])
    show "0 \<le> ret (procs s q) \<and> ret (procs s q) < 2 ^ 31" if "q \<in> set ?xs" for q
      using dl_ok_ret [OF ok that] by (simp add: in_s32_def)
    show "?T < 2 ^ 31" using t by (simp add: MAX_TICKS_def)
    show "dl_split ?T (map (\<lambda>q. (q, ret (procs s q))) ?xs) = (as, bs, t')"
      using sp by (simp add: deltas_def)
  qed (use t in simp)
  define e where "e = hd ?bs"
  define q where "q = last ?as"
  have dj: "set ?as \<inter> set ?bs = {}" and sxs: "set ?xs = set ?as \<union> set ?bs"
    using d unfolding xs by simp_all
  have e: "e \<in> set ?bs" "e \<noteq> p" "e \<in> set ?xs" if "?bs \<noteq> []"
    using hd_in_set [OF that] px sxs unfolding e_def by auto
  have q: "q \<in> set ?as" "q \<noteq> p" if "?as \<noteq> []"
    using last_in_set [OF that] px sxs unfolding q_def by auto
  have eq: "q \<noteq> e" if "?as \<noteq> []" "?bs \<noteq> []" using e(1) q(1) that dj by blast
  have e32: "s32 (ret (procs s e) - t') = ret (procs s e) - t'" if "?bs \<noteq> []"
  proof -
    have "0 \<le> ret (procs s e)" "ret (procs s e) \<le> MAX_TICKS"
      using dl_ok_ret [OF ok e(3)] that by simp_all
    then show ?thesis using t' t(2) by (intro s32_id) (simp add: in_s32_def MAX_TICKS_def)
  qed
  define ps where "ps = (\<lambda>r. if r = p then (procs s p)\<lparr>ret := t', next_proc := headp Some ?bs None, prev_proc := lastp Some None ?as\<rparr>
      else if ?bs \<noteq> [] \<and> r = e then (procs s r)\<lparr>prev_proc := Some p, ret := ret (procs s e) - t'\<rparr>
      else if ?as \<noteq> [] \<and> r = q then (procs s r)\<lparr>next_proc := Some p\<rparr>
      else procs s r)"
  let ?s' = "s\<lparr>sleeping_list := headp Some (?as @ [p]) None, procs := ps\<rparr>"
  have run: "add_to_sleeping_list p s = Some ?s'"
  proof -
    show ?thesis
      using place e q eq e32
      by (cases "?as = []"; cases "?bs = []")
        (simp_all add: add_to_sleeping_list_def headp_conv lastp_conv h xs ps_def fun_eq_iff Let_def
          flip: e_def q_def)
  qed
  let ?ys = "?as @ p # ?bs"
  have prv: "prev_proc (ps r) = (if r = p then lastp Some None ?as else if ?bs \<noteq> [] \<and> r = e then Some p else prev_proc (procs s r))"
    and nxt: "next_proc (ps r) = (if r = p then headp Some ?bs None else if ?as \<noteq> [] \<and> r = q then Some p else next_proc (procs s r))"
    and rt: "ret (ps r) = (if r = p then t' else if ?bs \<noteq> [] \<and> r = e then ret (procs s e) - t' else ret (procs s r))"
    and same: "same_but_links (ps r) ((procs s r)\<lparr>ret := ret (ps r)\<rparr>)" for r
    using e(2) eq by (auto simp: ps_def same_but_links_def)
  have del: "deltas ?s' ?ys = dl_insert p ?T (deltas s ?xs)"
  proof -
    have "deltas ?s' ?as = as"
      using ab(1) px xs d e(1) rt by (subst ab(1), intro deltas_cong) (auto simp: disjoint_iff)
    moreover have "deltas ?s' ?bs = dl_lower t' bs"
    proof (cases bs rule: pair_list_cases)
      case (2 b u K)
      then have "u = ret (procs s b)" "e = b" using ab(2) by (simp_all add: e_def)
      moreover have "K = deltas s (map fst K)" using ab(2) 2 by simp
      moreover have "deltas ?s' (map fst K) = deltas s (map fst K)"
        using px xs d 2 rt \<open>e = b\<close> by (intro deltas_cong) auto
      ultimately show ?thesis using 2 e(2) rt by simp
    qed simp
    ultimately show ?thesis using rt by (simp add: dl_insert_def sp)
  qed
  have "qinv ?s' (W - {p}) (qs(In_sleep := ?ys))"
  proof (rule qinv_update [OF inv])
    show "p \<in> W \<or> p \<in> set ?xs" using p by simp
    show "prev_proc (procs ?s' r) = prev_proc (procs s r) \<and> next_proc (procs ?s' r) = next_proc (procs s r)"
      if "r \<notin> set ?xs" "r \<noteq> p" for r using that xs e(1) q(1) by (auto simp: prv nxt)
    show "head_at ?s' pl' = head_at s pl' \<and> tail_at ?s' pl' = tail_at s pl'"
      if "real_place pl'" "pl' \<noteq> In_sleep" for pl'
      using that same_but_links_ret [OF same] by (cases pl') auto
    show "place_of (procs ?s' r) = place_of (procs s r)" for r using same_but_links_ret [OF same, of r] by simp
    then show "place_of (procs ?s' p) = Some In_sleep \<or> place_of (procs ?s' p) = None" using b by simp
    have "links Some (\<lambda>p. prev_proc (ps p)) (\<lambda>p. next_proc (ps p)) None ?ys None"
    proof (rule links_insert)
      show "links Some (\<lambda>p. prev_proc (procs s p)) (\<lambda>p. next_proc (procs s p)) None (?as @ ?bs) None"
        using l xs by simp
    qed (use d px xs prv nxt in \<open>auto simp: e_def q_def\<close>)
    moreover have "distinct ?ys" using d px xs by auto
    ultimately show "chain_at ?s' In_sleep ?ys" by (simp add: chain_at_def headp_append)
    show "set ?ys = set ?xs - {p} \<union> (if p \<notin> W - {p} \<and> valid p \<and> place_of (procs ?s' p) = Some In_sleep then {p} else {})"
      using xs px p b same_but_links_ret [OF same, of p] by auto
  qed auto
  then show ?thesis
    by (rule that [OF run]) (use del same rt xs e(1) in \<open>auto simp: same_rest_def\<close>)
qed

subsection \<open>Removal\<close>

lemma place_of_sleep:
  "place_of c = Some In_sleep \<longleftrightarrow> curr_state c = PROC_STATE_BLOCKED \<and> blocking_queue_name c = SLEEP"
  by (auto simp: place_of_def split: proc_state.splits if_splits)

lemma dl_remove_append:
  "a \<notin> fst ` set K \<Longrightarrow> dl_remove a (K @ (a, u) # L) = K @ dl_lower (- u) L"
  by (induction K) auto

lemma remove_from_sleeping_list_ok:
  assumes inv: "qinv s W qs" and p: "p \<notin> W" "valid p"
    and b: "place_of (procs s p) = Some In_sleep"
    and ok: "dl_bounded MAX_TICKS (deltas s (qs In_sleep))"
  obtains s' where "remove_from_sleeping_list p s = Some s'"
    and "qinv s' (insert p W) (qs(In_sleep := remove1 p (qs In_sleep)))"
    and "deltas s' (remove1 p (qs In_sleep)) = dl_remove p (deltas s (qs In_sleep))"
    and "\<And>r. retimed s' s r"
    and "\<And>r. r \<notin> set (remove1 p (qs In_sleep)) \<Longrightarrow> ret (procs s' r) = ret (procs s r)"
    and "same_rest s' s" and "queue_heads s' = queue_heads s" and "queue_tails s' = queue_tails s"
proof -
  let ?xs = "qs In_sleep"
  have ch: "chain_at s In_sleep ?xs" using qinvD(1) [OF inv, of In_sleep] by simp
  have px: "p \<in> set ?xs" using qinv_real(2) [OF inv p(2,1) b] .
  then obtain as bs where xs: "?xs = as @ p # bs" "p \<notin> set as" using split_list_first [of p ?xs] by blast
  have l: "links Some (\<lambda>p. prev_proc (procs s p)) (\<lambda>p. next_proc (procs s p)) None (as @ p # bs) None"
    and d: "distinct (as @ p # bs)" and h: "sleeping_list s = headp Some (as @ p # bs) None"
    using ch xs by (auto simp: chain_at_def)
  note nb = links_middle [OF l]
  define e where "e = hd bs"
  define q where "q = last as"
  have e: "e \<in> set bs" "e \<noteq> p" if "bs \<noteq> []" using hd_in_set [OF that] d unfolding e_def by auto
  have q: "q \<in> set as" "q \<noteq> p" if "as \<noteq> []" using last_in_set [OF that] d unfolding q_def by auto
  have eq: "q \<noteq> e" if "as \<noteq> []" "bs \<noteq> []" using e(1) q(1) that d by auto
  have e32: "s32 (ret (procs s e) + ret (procs s p)) = ret (procs s e) + ret (procs s p)" if "bs \<noteq> []"
  proof -
    have "e \<in> set ?xs" using e(1) that xs by simp
    then show ?thesis using dl_ok_ret [OF ok px] dl_ok_ret [OF ok, of e]
      by (intro s32_id) (simp add: in_s32_def MAX_TICKS_def)
  qed
  define ps where "ps = (\<lambda>r. if r = p then (procs s p)\<lparr>next_proc := None, prev_proc := None\<rparr>
      else if bs \<noteq> [] \<and> r = e then (procs s r)\<lparr>prev_proc := lastp Some None as, ret := ret (procs s e) + ret (procs s p)\<rparr>
      else if as \<noteq> [] \<and> r = q then (procs s r)\<lparr>next_proc := headp Some bs None\<rparr>
      else procs s r)"
  let ?s' = "s\<lparr>sleeping_list := headp Some (as @ bs) None, procs := ps\<rparr>"
  have hp: "sleeping_list s = Some p \<longleftrightarrow> as = []" using h xs(2) by (cases as) auto
  have run: "remove_from_sleeping_list p s = Some ?s'"
    using nb e q eq e32 hp h b
    by (cases "as = []"; cases "bs = []")
      (simp_all add: remove_from_sleeping_list_def headp_conv lastp_conv ps_def fun_eq_iff Let_def
        place_of_sleep flip: e_def q_def)
  have prv: "prev_proc (ps r) = (if r = p then None else if bs \<noteq> [] \<and> r = e then lastp Some None as else prev_proc (procs s r))"
    and nxt: "next_proc (ps r) = (if r = p then None else if as \<noteq> [] \<and> r = q then headp Some bs None else next_proc (procs s r))"
    and rt: "ret (ps r) = (if r \<noteq> p \<and> bs \<noteq> [] \<and> r = e then ret (procs s e) + ret (procs s p) else ret (procs s r))"
    and same: "same_but_links (ps r) ((procs s r)\<lparr>ret := ret (ps r)\<rparr>)" for r
    using e(2) eq by (auto simp: ps_def same_but_links_def)
  have del: "deltas ?s' (as @ bs) = dl_remove p (deltas s ?xs)"
  proof -
    have "deltas ?s' as = deltas s as" using e(1) d by (intro deltas_cong) (auto simp: rt)
    moreover have "deltas ?s' bs = dl_lower (- ret (procs s p)) (deltas s bs)"
    proof (cases bs)
      case (Cons b K)
      then have "e = b" by (simp add: e_def)
      moreover have "deltas ?s' K = deltas s K"
        using d Cons \<open>e = b\<close> by (intro deltas_cong) (auto simp: rt)
      ultimately show ?thesis using Cons e(2) rt by simp
    qed simp
    ultimately show ?thesis using xs by (simp add: dl_remove_append)
  qed
  have "qinv ?s' (insert p W) (qs(In_sleep := as @ bs))"
  proof (rule qinv_update [OF inv])
    show "p \<in> W \<or> p \<in> set ?xs" using px by simp
    show "prev_proc (procs ?s' r) = prev_proc (procs s r) \<and> next_proc (procs ?s' r) = next_proc (procs s r)"
      if "r \<notin> set ?xs" "r \<noteq> p" for r using that xs e(1) q(1) by (auto simp: prv nxt)
    show "head_at ?s' pl' = head_at s pl' \<and> tail_at ?s' pl' = tail_at s pl'"
      if "real_place pl'" "pl' \<noteq> In_sleep" for pl'
      using that same_but_links_ret [OF same] by (cases pl') auto
    show "place_of (procs ?s' r) = place_of (procs s r)" for r using same_but_links_ret [OF same, of r] by simp
    have "links Some (\<lambda>p. prev_proc (ps p)) (\<lambda>p. next_proc (ps p)) None (as @ bs) None"
      using l by (rule links_remove) (use d in \<open>auto simp: prv nxt e_def q_def\<close>)
    then show "chain_at ?s' In_sleep (as @ bs)" using d by (simp add: chain_at_def)
    show "set (as @ bs) = set ?xs - {p} \<union>
        (if p \<notin> insert p W \<and> valid p \<and> place_of (procs ?s' p) = Some In_sleep then {p} else {})"
      using xs d by auto
  qed auto
  moreover have "remove1 p ?xs = as @ bs" using xs by (simp add: remove1_append)
  moreover have "ret (ps r) = ret (procs s r)" if "r \<notin> set (as @ bs)" for r using rt [of r] e(1) that by auto
  ultimately show ?thesis
    by (intro that [OF run]) (use del same in \<open>auto simp: same_rest_def\<close>)
qed

text \<open>Waking: off the list, no longer blocked, with the remaining delta as return value.\<close>

lemma wake_ok:
  assumes inv: "qinv s W qs" and p: "p \<notin> W" "valid p"
    and b: "place_of (procs s p) = Some In_sleep" "blocking_proc (procs s p) = None"
    and ok: "dl_bounded MAX_TICKS (deltas s (qs In_sleep))"
  obtains s' where "wake p s = Some s'"
    and "qinv s' (insert p W) (qs(In_sleep := remove1 p (qs In_sleep)))"
    and "deltas s' (remove1 p (qs In_sleep)) = dl_remove p (deltas s (qs In_sleep))"
    and "\<And>r. r \<noteq> p \<Longrightarrow> retimed s' s r"
    and "\<And>r. r \<noteq> p \<Longrightarrow> r \<notin> set (qs In_sleep) \<Longrightarrow> ret (procs s' r) = ret (procs s r)"
    and "same_but_links (procs s' p) ((procs s p)\<lparr>blocking_queue_name := NO_BLOCKER,
      ret := s32 (ret (procs s p) * TICK_LENGTH_IN_MS)\<rparr>)"
    and "same_rest s' s" and "queue_heads s' = queue_heads s" and "queue_tails s' = queue_tails s"
proof -
  let ?xs = "remove1 p (qs In_sleep)"
  obtain s1 where r1: "remove_from_sleeping_list p s = Some s1"
    "qinv s1 (insert p W) (qs(In_sleep := ?xs))"
    "deltas s1 ?xs = dl_remove p (deltas s (qs In_sleep))"
    "\<And>r. retimed s1 s r" "\<And>r. r \<notin> set ?xs \<Longrightarrow> ret (procs s1 r) = ret (procs s r)"
    "same_rest s1 s" "queue_heads s1 = queue_heads s" "queue_tails s1 = queue_tails s"
    by (rule remove_from_sleeping_list_ok [OF inv p b(1) ok]) blast
  have d: "distinct (qs In_sleep)" using qinvD(1) [OF inv, of In_sleep] by (simp add: chain_at_def)
  then have px: "p \<notin> set ?xs" by (simp add: distinct_remove1 set_remove1_eq)
  let ?f = "\<lambda>c. c\<lparr>blocking_queue_name := NO_BLOCKER, ret := s32 (ret c * TICK_LENGTH_IN_MS)\<rparr>"
  let ?s' = "upd_proc p ?f s1"
  have run: "wake p s = Some ?s'"
    using b r1(1) by (simp add: wake_def place_of_sleep upd_proc_def)
  have "qinv ?s' (insert p W) (qs(In_sleep := ?xs))" by (rule qinv_upd_proc [OF r1(2)]) auto
  moreover have "deltas ?s' ?xs = deltas s1 ?xs" using px by (intro deltas_cong) auto
  moreover have "same_but_links (procs ?s' p) ((procs s p)\<lparr>blocking_queue_name := NO_BLOCKER,
      ret := s32 (ret (procs s p) * TICK_LENGTH_IN_MS)\<rparr>)"
    using r1(4) [of p] r1(5) [of p] px
    by (cases "procs s1 p"; cases "procs s p") (auto simp: same_but_links_def)
  moreover have "ret (procs s1 r) = ret (procs s r)" if "r \<notin> set (qs In_sleep)" for r
    using r1(5) [of r] that set_remove1_subset [of p "qs In_sleep"] by blast
  ultimately show ?thesis using r1 by (intro that [OF run]) auto
qed

subsection \<open>One tick\<close>

lemma s32_0 [simp]: "s32 0 = 0"
  by (simp add: in_s32_def)

text \<open>A process that has slept its time: ready, and its call returns 0.\<close>

abbreviation woken :: "pcb \<Rightarrow> pcb" where
  "woken c \<equiv> c\<lparr>curr_state := PROC_STATE_READY, blocking_queue_name := NO_BLOCKER, ret := 0\<rparr>"

lemma tick_expire_ok:
  assumes "qinv s W qs" and "\<And>p. p \<in> set (qs In_sleep) \<Longrightarrow> pid (procs s p) \<noteq> 0 \<and> blocking_proc (procs s p) = None"
    and "dl_bounded MAX_TICKS (deltas s (qs In_sleep))"
  shows "\<exists>s' ys zs. tick_expire s = Some s' \<and> qs In_sleep = ys @ zs \<and>
    ys = map fst (dl_woken (deltas s (qs In_sleep))) \<and>
    deltas s' zs = dl_expire (deltas s (qs In_sleep)) \<and>
    qinv s' W (qs(In_sleep := zs, In_ready := qs In_ready @ ys)) \<and>
    (\<forall>r. same_but_links (procs s' r) (if r \<in> set ys then woken (procs s r) else procs s r)) \<and>
    same_rest s' s"
  using assms
proof (induction "qs In_sleep" arbitrary: s qs)
  case Nil
  then have "sleeping_list s = None" using qinvD(1) [OF Nil.prems(1), of In_sleep] by (simp add: chain_at_def)
  then have "tick_expire s = Some s" by (subst tick_expire.simps) simp
  moreover have "qs(In_sleep := [], In_ready := qs In_ready) = qs" using Nil by auto
  ultimately show ?case using Nil
    by (intro exI [of _ s] exI [of _ "[]"]) (simp add: dl_woken_def dl_expire_def del: fun_upd_apply)
next
  case (Cons p xs)
  note inv = Cons.prems(1) and hyp = Cons.hyps(2) [symmetric]
  have ch: "chain_at s In_sleep (p # xs)" using qinvD(1) [OF inv, of In_sleep] hyp by simp
  then have h: "sleeping_list s = Some p" and d: "p \<notin> set xs" by (auto simp: chain_at_def)
  have p: "valid p" "p \<notin> W" "place_of (procs s p) = Some In_sleep"
    using qinvD(2) [OF inv, of p In_sleep] hyp by auto
  have bp: "blocking_proc (procs s p) = None" "pid (procs s p) \<noteq> 0" using Cons.prems(2) [of p] hyp by auto
  show ?case
  proof (cases "ret (procs s p) \<le> 0")
    case False
    then have "tick_expire s = Some s" using h by (subst tick_expire.simps) simp
    moreover have "qs(In_sleep := p # xs, In_ready := qs In_ready) = qs" using hyp by auto
    ultimately show ?thesis using hyp False Cons.prems(1)
      by (intro exI [of _ s] exI [of _ "[]"] exI [of _ "p # xs"]) (simp add: dl_woken_def dl_expire_def)
  next
    case True
    then have r0: "ret (procs s p) = 0" using dl_ok_ret(1) [OF Cons.prems(3), of p] hyp by simp
    obtain s1 where w: "wake p s = Some s1"
      "qinv s1 (insert p W) (qs(In_sleep := remove1 p (qs In_sleep)))"
      "deltas s1 (remove1 p (qs In_sleep)) = dl_remove p (deltas s (qs In_sleep))"
      "\<And>r. r \<noteq> p \<Longrightarrow> retimed s1 s r"
      "\<And>r. r \<noteq> p \<Longrightarrow> r \<notin> set (qs In_sleep) \<Longrightarrow> ret (procs s1 r) = ret (procs s r)"
      "same_but_links (procs s1 p) ((procs s p)\<lparr>blocking_queue_name := NO_BLOCKER,
        ret := s32 (ret (procs s p) * TICK_LENGTH_IN_MS)\<rparr>)"
      "same_rest s1 s"
      by (rule wake_ok [OF inv p(2,1,3) bp(1) Cons.prems(3)]) blast
    have rm: "remove1 p (qs In_sleep) = xs" using hyp by simp
    have dl: "deltas s1 xs = deltas s xs"
      using w(3) rm hyp r0 by (cases xs) simp_all
    have sf: "curr_state (procs s1 p) \<noteq> PROC_STATE_READY" "pid (procs s1 p) \<noteq> 0"
      using same_but_links_fields(1,2) [OF w(6)] p(3) bp(2) by (auto simp: place_of_sleep)
    obtain s2 where a: "add_pcb_to_queue p PROC_STATE_READY s1 = Some s2"
      "qinv s2 (insert p W - {p}) ((qs(In_sleep := xs))(In_ready := (qs(In_sleep := xs)) In_ready @ [p]))"
      "\<And>r. same_but_links (procs s2 r) (if r = p then (procs s1 p)\<lparr>curr_state := PROC_STATE_READY\<rparr> else procs s1 r)"
      "same_rest s2 s1" "sleeping_list s2 = sleeping_list s1"
      by (rule add_pcb_to_queue_ok [OF w(2) [unfolded rm] _ p(1) sf(2) _ sf(1)])
        (auto simp: has_proc_queue_cases state_place_def)
    let ?qs = "qs(In_sleep := xs, In_ready := qs In_ready @ [p])"
    have r1: "ret (procs s1 r) = ret (procs s r)" if "r \<noteq> p" for r
    proof (cases "r \<in> set xs")
      case True
      then show ?thesis using dl by (simp add: deltas_def)
    qed (use w(5) [of r] that hyp in simp)
    have eff: "same_but_links (procs s2 r) (if r = p then woken (procs s p) else procs s r)" for r
    proof (cases "r = p")
      case True
      then show ?thesis using a(3) [of p] w(6) r0
        by (cases "procs s2 p"; cases "procs s1 p"; cases "procs s p") (simp add: same_but_links_def)
    next
      case False
      have "same_but_links (procs s1 r) (procs s r)" using w(4) [OF False] r1 [OF False] by simp
      then show ?thesis using a(3) [of r] False by (simp add: same_but_links_trans [of _ "procs s1 r"])
    qed
    have fx: "pid (procs s2 r) = pid (procs s r)" "blocking_proc (procs s2 r) = blocking_proc (procs s r)"
      "r \<noteq> p \<Longrightarrow> ret (procs s2 r) = ret (procs s r)" for r
      using same_but_links_fields(1,7,12) [OF eff [of r]] by (simp_all split: if_splits)
    have "xs = ?qs In_sleep" by simp
    moreover have q2: "qinv s2 W ?qs" using a(2) p(2) by simp
    moreover have "pid (procs s2 r) \<noteq> 0 \<and> blocking_proc (procs s2 r) = None" if "r \<in> set (?qs In_sleep)" for r
      using Cons.prems(2) [of r] that hyp fx by simp
    moreover have dl2: "deltas s2 xs = deltas s xs"
    proof (rule deltas_cong)
      show "ret (procs s2 q) = ret (procs s q)" if "q \<in> set xs" for q using fx(3) [of q] that d by auto
    qed
    moreover have "dl_bounded MAX_TICKS (deltas s2 (?qs In_sleep))"
      using Cons.prems(3) dl2 hyp r0 by (simp add: dl_bounded_def)
    ultimately obtain s' ys zs where ih: "tick_expire s2 = Some s'" "?qs In_sleep = ys @ zs"
      "ys = map fst (dl_woken (deltas s2 (?qs In_sleep)))"
      "deltas s' zs = dl_expire (deltas s2 (?qs In_sleep))"
      "qinv s' W (?qs(In_sleep := zs, In_ready := ?qs In_ready @ ys))"
      "\<And>r. same_but_links (procs s' r) (if r \<in> set ys then woken (procs s2 r) else procs s2 r)"
      "same_rest s' s2"
      using Cons.hyps(1) [of ?qs s2] by blast
    have "tick_expire s = Some s'"
      using h True w(1) a(1) ih(1) by (subst tick_expire.simps) simp
    moreover have "same_but_links (procs s' r) (if r \<in> set (p # ys) then woken (procs s r) else procs s r)" for r
      using ih(6) [of r] eff [of r] ih(2) d
      by (cases "procs s' r"; cases "procs s2 r"; cases "procs s r") (auto simp: same_but_links_def split: if_splits)
    moreover have "same_rest s' s" using ih(7) a(4) w(7) same_rest_trans by blast
    ultimately show ?thesis
      using ih(2-5) hyp dl2 r0
      by (intro exI [of _ s'] exI [of _ "p # ys"] exI [of _ zs])
        (simp add: dl_woken_def dl_expire_def fun_upd_twist)
  qed
qed

text \<open>
  A whole tick: the processes whose time is up go to the back of the ready queue, in the order
  they were due, and the delta list is the one with everybody's time reduced by one.
\<close>

lemma tick_ok:
  assumes inv: "qinv s W qs"
    and procs: "\<And>p. p \<in> set (qs In_sleep) \<Longrightarrow> pid (procs s p) \<noteq> 0 \<and> blocking_proc (procs s p) = None"
    and ok: "dl_ok MAX_TICKS (deltas s (qs In_sleep))"
  obtains s' ys zs where "tick s = Some s'" and "qs In_sleep = ys @ zs"
    and "ys = map fst (filter (\<lambda>(_, t). t \<le> 1) (dl_times 0 (deltas s (qs In_sleep))))"
    and "dl_times 0 (deltas s' zs) =
      map (\<lambda>(p, t). (p, t - 1)) (filter (\<lambda>(_, t). 1 < t) (dl_times 0 (deltas s (qs In_sleep))))"
    and "dl_ok MAX_TICKS (deltas s' zs)"
    and "qinv s' W (qs(In_sleep := zs, In_ready := qs In_ready @ ys))"
    and "\<And>r. r \<in> set ys \<Longrightarrow> same_but_links (procs s' r) (woken (procs s r))"
    and "\<And>r. r \<notin> set ys \<Longrightarrow> retimed s' s r"
    and "\<And>r. r \<notin> set (qs In_sleep) \<Longrightarrow> same_but_links (procs s' r) (procs s r)"
    and "same_rest s' s"
proof (cases "qs In_sleep")
  case Nil
  then have "sleeping_list s = None" using qinvD(1) [OF inv, of In_sleep] by (simp add: chain_at_def)
  then have run: "tick s = Some s" by (simp add: tick_def)
  have "qs(In_sleep := [], In_ready := qs In_ready) = qs" using Nil by auto
  then show ?thesis
    using inv ok Nil by (intro that [OF run, of "[]" "[]"]) (simp_all del: fun_upd_apply)
next
  case (Cons p xs)
  have ch: "chain_at s In_sleep (p # xs)" using qinvD(1) [OF inv, of In_sleep] Cons by simp
  then have h: "sleeping_list s = Some p" and d: "p \<notin> set xs" by (auto simp: chain_at_def)
  have r: "0 < ret (procs s p)" "in_s32 (ret (procs s p))"
    using dl_ok_ret [OF dl_ok_bounded [OF ok], of p] ok Cons by (auto simp: dl_ok_def)
  then have r1: "s32 (ret (procs s p) - 1) = ret (procs s p) - 1" by (intro s32_id) (simp add: in_s32_def)
  let ?s = "upd_proc p (\<lambda>c. c\<lparr>ret := s32 (ret c - 1)\<rparr>) s"
  have dl: "deltas ?s (qs In_sleep) = dl_lower 1 (deltas s (qs In_sleep))"
  proof -
    have "deltas ?s xs = deltas s xs" using d by (intro deltas_cong) auto
    then show ?thesis using Cons r1 by simp
  qed
  have "qinv ?s W qs" by (rule qinv_upd_proc [OF inv]) auto
  moreover have "pid (procs ?s q) \<noteq> 0 \<and> blocking_proc (procs ?s q) = None" if "q \<in> set (qs In_sleep)" for q
    using procs [OF that] procs [of p] Cons by auto
  moreover have "dl_bounded MAX_TICKS (deltas ?s (qs In_sleep))"
    unfolding dl using dl_lower_bounded [OF ok] .
  ultimately obtain s' ys zs where t: "tick_expire ?s = Some s'" "qs In_sleep = ys @ zs"
    "ys = map fst (dl_woken (deltas ?s (qs In_sleep)))"
    "deltas s' zs = dl_expire (deltas ?s (qs In_sleep))"
    "qinv s' W (qs(In_sleep := zs, In_ready := qs In_ready @ ys))"
    "\<And>r. same_but_links (procs s' r) (if r \<in> set ys then woken (procs ?s r) else procs ?s r)"
    "same_rest s' ?s"
    using tick_expire_ok [of ?s W qs] by blast
  have run: "tick s = Some s'" using h t(1) by (simp add: tick_def)
  note t' = t(3,4) [unfolded dl]
  show ?thesis
  proof (rule that [OF run t(2)])
    show "ys = map fst (filter (\<lambda>(_, t). t \<le> 1) (dl_times 0 (deltas s (qs In_sleep))))"
      unfolding t'(1) dl_tick_times(2) [OF ok] ..
    show "dl_times 0 (deltas s' zs) =
        map (\<lambda>(p, t). (p, t - 1)) (filter (\<lambda>(_, t). 1 < t) (dl_times 0 (deltas s (qs In_sleep))))"
      unfolding t'(2) dl_tick_times(1) [OF ok] ..
    show "dl_ok MAX_TICKS (deltas s' zs)" unfolding t'(2) by (rule dl_expire_ok [OF ok])
    show "same_but_links (procs s' r) (woken (procs s r))" if "r \<in> set ys" for r
      using t(6) [of r] that by (cases "r = p") (auto simp: upd_proc_def)
    show "retimed s' s r" if "r \<notin> set ys" for r
      using t(6) [of r] that by (cases "procs s' r"; cases "procs s r") (auto simp: same_but_links_def split: if_splits)
    show "same_but_links (procs s' r) (procs s r)" if "r \<notin> set (qs In_sleep)" for r
    proof -
      have "p \<in> set (qs In_sleep)" using Cons by simp
      then have "r \<noteq> p" using that by blast
      then show ?thesis using t(6) [of r] that t(2) by simp
    qed
  qed (use t in auto)
qed

text \<open>Going to sleep.\<close>

lemma sleep_ticks_bounds:
  assumes "0 < time"
  shows "sleep_ticks time = (uint time + 9) div 10" and "0 < sleep_ticks time" and "sleep_ticks time \<le> MAX_TICKS"
proof -
  have t: "0 < uint time" "uint time < 2 ^ 32"
    using assms word_less_def uint_lt2p [of time] by (simp_all add: word_less_def)
  let ?n = "uint time div 10 + (if uint time mod 10 \<noteq> 0 then 1 else 0)"
  have round: "u div 10 + (if u mod 10 \<noteq> 0 then 1 else 0) = (u + 9) div 10" for u :: int
    using div_mult_mod_eq [of u 10] div_mult_mod_eq [of "u + 9" 10] by (simp; linarith?)
  have n: "?n = (uint time + 9) div 10" by (rule round)
  have b: "0 < (uint time + 9) div 10" "(uint time + 9) div 10 \<le> MAX_TICKS"
    using t by (simp_all add: MAX_TICKS_def)
  then have "in_s32 ((uint time + 9) div 10)" by (simp add: in_s32_def MAX_TICKS_def)
  with n b show "sleep_ticks time = (uint time + 9) div 10" "0 < sleep_ticks time" "sleep_ticks time \<le> MAX_TICKS"
    by (simp_all add: sleep_ticks_def TICK_LENGTH_IN_MS_def)
qed

lemma sleep_ok:
  assumes inv: "qinv s W qs" and p: "p \<in> W" "valid p" and t: "0 < time"
    and ok: "dl_ok MAX_TICKS (deltas s (qs In_sleep))"
  obtains s' ys where "sleep p time s = Some s'"
    and "qinv s' (W - {p}) (qs(In_sleep := ys))"
    and "deltas s' ys = dl_insert p (sleep_ticks time) (deltas s (qs In_sleep))"
    and "set ys = insert p (set (qs In_sleep))"
    and "dl_ok MAX_TICKS (deltas s' ys)"
    and "\<And>r. r \<noteq> p \<Longrightarrow> retimed s' s r"
    and "\<And>r. r \<notin> set ys \<Longrightarrow> same_but_links (procs s' r) (procs s r)"
    and "same_but_links (procs s' p) ((procs s p)\<lparr>curr_state := PROC_STATE_BLOCKED,
      blocking_queue_name := SLEEP, blocking_proc := None, ret := ret (procs s' p)\<rparr>)"
    and "same_rest s' s" and "queue_heads s' = queue_heads s" and "queue_tails s' = queue_tails s"
proof -
  let ?f = "\<lambda>c. c\<lparr>curr_state := PROC_STATE_BLOCKED, blocking_queue_name := SLEEP, blocking_proc := None,
    ret := sleep_ticks time\<rparr>"
  let ?s = "upd_proc p ?f s"
  have px: "p \<notin> set (qs In_sleep)" using p qinvD(2) [OF inv] by blast
  have dl: "deltas ?s (qs In_sleep) = deltas s (qs In_sleep)" using px by (intro deltas_cong) auto
  have i: "qinv ?s W qs" by (rule qinv_upd_proc [OF inv]) (use p in auto)
  have pl: "place_of (procs ?s p) = Some In_sleep" by (simp add: place_of_def)
  have rp: "ret (procs ?s p) = sleep_ticks time" by simp
  obtain s' ys where a: "add_to_sleeping_list p ?s = Some s'"
    "qinv s' (W - {p}) (qs(In_sleep := ys))"
    "deltas s' ys = dl_insert p (ret (procs ?s p)) (deltas ?s (qs In_sleep))"
    "set ys = insert p (set (qs In_sleep))"
    "\<And>r. retimed s' ?s r" "\<And>r. r \<notin> set ys \<Longrightarrow> ret (procs s' r) = ret (procs ?s r)"
    "same_rest s' ?s" "queue_heads s' = queue_heads ?s" "queue_tails s' = queue_tails ?s"
    by (rule add_to_sleeping_list_ok [OF i p pl, unfolded dl rp, OF dl_ok_bounded [OF ok] sleep_ticks_bounds(2,3) [OF t]])
      (simp add: dl)
  have run: "sleep p time s = Some s'"
    using a(1) t by (simp add: sleep_def upd_proc_def comp_def)
  have "dl_ok MAX_TICKS (deltas s' ys)"
    unfolding a(3) rp dl using dl_insert_ok [OF ok _ sleep_ticks_bounds(2,3) [OF t]] px by simp
  moreover have "same_but_links (procs s' r) (procs s r)" if "r \<notin> set ys" for r
    using a(5) [of r] a(6) [OF that] a(4) that by (auto simp: upd_proc_def)
  moreover have "retimed s' s r" if "r \<noteq> p" for r using a(5) [of r] that by simp
  moreover have "same_but_links (procs s' p) ((procs s p)\<lparr>curr_state := PROC_STATE_BLOCKED,
      blocking_queue_name := SLEEP, blocking_proc := None, ret := ret (procs s' p)\<rparr>)"
    using a(5) [of p] by simp
  moreover note a(3) [unfolded rp dl]
  ultimately show ?thesis using a(2,4,7,8,9) by (intro that [OF run]) auto
qed

end
