(* ===== verification/Keyboard.thy ===== *)
theory Keyboard
  imports Queues
begin

text \<open>
  c/kbd.c, the keyboard device. The upper half (open, close, read, ioctl) runs in system calls,
  the lower half (\<open>keyboard_isr\<close>) in the interrupt; they share a ring of five bytes, one of which
  stays empty, and a table of the processes waiting for input, indexed by pid modulo 32.
\<close>

definition KBD_DEFAULT_EOF :: u8 where "KBD_DEFAULT_EOF = 0x04"
definition KBD_TASK_LIST_SIZE :: nat where "KBD_TASK_LIST_SIZE = PCB_TABLE_SIZE"
definition KEYBOARD_BUFFER_SIZE :: nat where "KEYBOARD_BUFFER_SIZE = 4 + 1"
definition KEYBOARD_PORT_DATA :: u32 where "KEYBOARD_PORT_DATA = 0x60"
definition KEYBOARD_PORT_CONTROL :: u32 where "KEYBOARD_PORT_CONTROL = 0x64"
definition KEYBOARD_STATE_SHIFT_BIT :: nat where "KEYBOARD_STATE_SHIFT_BIT = 0"
definition KEYBOARD_STATE_CTRL_BIT :: nat where "KEYBOARD_STATE_CTRL_BIT = 1"
definition KEYBOARD_STATE_CAPLOCK_BIT :: nat where "KEYBOARD_STATE_CAPLOCK_BIT = 2"
definition KEYBOARD_IOCTL_SET_EOF :: u32 where "KEYBOARD_IOCTL_SET_EOF = 53"
definition KEYBOARD_IOCTL_ENABLE_ECHO :: u32 where "KEYBOARD_IOCTL_ENABLE_ECHO = 55"
definition KEYBOARD_IOCTL_DISABLE_ECHO :: u32 where "KEYBOARD_IOCTL_DISABLE_ECHO = 56"
definition KEYBOARD_IOCTL_GET_EOF :: u32 where "KEYBOARD_IOCTL_GET_EOF = 57"
definition KEYBOARD_IOCTL_GET_ECHO :: u32 where "KEYBOARD_IOCTL_GET_ECHO = 58"

lemmas kbd_const_defs = KBD_DEFAULT_EOF_def KBD_TASK_LIST_SIZE_def KEYBOARD_BUFFER_SIZE_def
  KEYBOARD_PORT_DATA_def KEYBOARD_PORT_CONTROL_def KEYBOARD_STATE_SHIFT_BIT_def
  KEYBOARD_STATE_CTRL_BIT_def KEYBOARD_STATE_CAPLOCK_BIT_def KEYBOARD_IOCTL_SET_EOF_def
  KEYBOARD_IOCTL_ENABLE_ECHO_def KEYBOARD_IOCTL_DISABLE_ECHO_def KEYBOARD_IOCTL_GET_EOF_def
  KEYBOARD_IOCTL_GET_ECHO_def

text \<open>The macros of h/xeroskernel.h on a flag word.\<close>

definition FLAG_BIT_CHECK :: "u32 \<Rightarrow> nat \<Rightarrow> u32" where
  "FLAG_BIT_CHECK flag n = 1 AND drop_bit n flag"
definition FLAG_BIT_SET :: "nat \<Rightarrow> u32 \<Rightarrow> u32" where
  "FLAG_BIT_SET n flag = flag OR push_bit n 1"
definition FLAG_BIT_CLEAR :: "nat \<Rightarrow> u32 \<Rightarrow> u32" where
  "FLAG_BIT_CLEAR n flag = flag AND NOT (push_bit n 1)"
definition FLAG_BIT_TOGGLE :: "nat \<Rightarrow> u32 \<Rightarrow> u32" where
  "FLAG_BIT_TOGGLE n flag = flag XOR push_bit n 1"

subsection \<open>Scan codes\<close>

definition kbd_lower :: "u8 list" where
  "kbd_lower = [
     0, 0x1B, 0x31, 0x32, 0x33, 0x34, 0x35, 0x36,
     0x37, 0x38, 0x39, 0x30, 0x2D, 0x3D, 0x08, 0x09,
     0x71, 0x77, 0x65, 0x72, 0x74, 0x79, 0x75, 0x69,
     0x6F, 0x70, 0x5B, 0x5D, 0x0A, 0, 0x61, 0x73,
     0x64, 0x66, 0x67, 0x68, 0x6A, 0x6B, 0x6C, 0x3B,
     0x27, 0x60, 0, 0x5C, 0x7A, 0x78, 0x63, 0x76,
     0x62, 0x6E, 0x6D, 0x2C, 0x2E, 0x2F, 0, 0x2A,
     0, 0x20, 0, 0, 0, 0, 0, 0,
     0, 0, 0, 0, 0, 0, 0, 0,
     0, 0, 0x2D, 0, 0, 0, 0x2B, 0,
     0, 0, 0, 0]"

definition kbd_upper :: "u8 list" where
  "kbd_upper = [
     0, 0x1B, 0x21, 0x40, 0x23, 0x24, 0x25, 0x5E,
     0x26, 0x2A, 0x28, 0x29, 0x5F, 0x2B, 0x08, 0x09,
     0x51, 0x57, 0x45, 0x52, 0x54, 0x59, 0x55, 0x49,
     0x4F, 0x50, 0x7B, 0x7D, 0x0A, 0, 0x41, 0x53,
     0x44, 0x46, 0x47, 0x48, 0x4A, 0x4B, 0x4C, 0x3A,
     0x22, 0x7E, 0, 0x7C, 0x5A, 0x58, 0x43, 0x56,
     0x42, 0x4E, 0x4D, 0x3C, 0x3E, 0x3F, 0, 0,
     0, 0x20, 0, 0, 0, 0, 0, 0,
     0, 0, 0, 0, 0, 0, 0, 0x37,
     0x38, 0x39, 0x2D, 0x34, 0x35, 0x36, 0x2B, 0x31,
     0x32, 0x33, 0x30, 0x2E]"

definition kbd_ctrl :: "u8 list" where
  "kbd_ctrl = [
     0, 0x1B, 0, 0, 0, 0, 0, 0x1E,
     0, 0, 0, 0, 0x1F, 0, 0x7F, 0,
     0x11, 0x17, 0x05, 0x12, 0x14, 0x19, 0x15, 0x09,
     0x0F, 0x10, 0x1B, 0x1D, 0x0A, 0, 0x01, 0x13,
     0x04, 0x06, 0x07, 0x08, 0x0A, 0x0B, 0x0C, 0,
     0, 0, 0, 0x1C, 0x1A, 0x18, 0x03, 0x16,
     0x02, 0x0E, 0x0D, 0, 0, 0, 0, 0x10,
     0, 0x20, 0, 0, 0, 0, 0, 0,
     0, 0, 0, 0, 0, 0, 0, 0,
     0, 0, 0, 0, 0, 0, 0, 0,
     0, 0, 0, 0]"

definition scancode_char :: "u32 \<Rightarrow> nat \<Rightarrow> u8" where
  "scancode_char flag data =
     (if data < 0x54 then
        (if FLAG_BIT_CHECK flag KEYBOARD_STATE_CTRL_BIT \<noteq> 0 then kbd_ctrl ! data
         else if FLAG_BIT_CHECK flag KEYBOARD_STATE_SHIFT_BIT
                 XOR FLAG_BIT_CHECK flag KEYBOARD_STATE_CAPLOCK_BIT \<noteq> 0
         then kbd_upper ! data
         else kbd_lower ! data)
      else 0)"

text \<open>The switch on the shift, control and caps lock keys; the second step of a control release
  is the source's \<open>&= ~KEYBOARD_STATE_CTRL_BIT\<close>, whose operand is the bit's number 1.\<close>

definition scancode_flag :: "nat \<Rightarrow> u32 \<Rightarrow> u32" where
  "scancode_flag data flag =
     (if data = 0x2A \<or> data = 0x36 then FLAG_BIT_SET KEYBOARD_STATE_SHIFT_BIT flag
      else if data = 0xAA \<or> data = 0xB6 then FLAG_BIT_CLEAR KEYBOARD_STATE_SHIFT_BIT flag
      else if data = 0x1D then FLAG_BIT_SET KEYBOARD_STATE_CTRL_BIT flag
      else if data = 0x9D then
        FLAG_BIT_CLEAR KEYBOARD_STATE_CTRL_BIT flag AND NOT (of_nat KEYBOARD_STATE_CTRL_BIT)
      else if data = 0x3A then FLAG_BIT_TOGGLE KEYBOARD_STATE_CAPLOCK_BIT flag
      else flag)"

definition keyboard_process_scancode :: "nat \<Rightarrow> u32 \<Rightarrow> u8 \<times> u32" where
  "keyboard_process_scancode data flag =
     (let c = scancode_char flag data
      in (c, if c = 0 then scancode_flag data flag else flag))"

subsection \<open>Lower half\<close>

definition upd_task :: "nat \<Rightarrow> (kbd_task \<Rightarrow> kbd_task) \<Rightarrow> kernel \<Rightarrow> kernel" where
  "upd_task i f = upd_kbd (\<lambda>k. k\<lparr>kbd_task_list := (kbd_task_list k)(i := f (kbd_task_list k i))\<rparr>)"

abbreviation task :: "nat \<Rightarrow> kernel \<Rightarrow> kbd_task" where
  "task i s \<equiv> kbd_task_list (kbd s) i"

text \<open>The entry of a process in the task list.\<close>

definition kbd_slot :: "pcbref \<Rightarrow> kernel \<Rightarrow> nat" where
  "kbd_slot proc s = nat (pid (procs s proc) mod int KBD_TASK_LIST_SIZE)"

definition keyboard_unblock_proc :: "nat \<Rightarrow> kernel \<Rightarrow> kernel option" where
  "keyboard_unblock_proc i s = do {
     let s = upd_kbd (\<lambda>k. k\<lparr>kbd_task_refcount := s32 (kbd_task_refcount k - 1)\<rparr>) s;
     let s = upd_task i (\<lambda>t. t\<lparr>kt_waiting := False\<rparr>) s;
     p \<leftarrow> kt_pcb (task i s);
     let s = set_ret p (kt_i (task i s)) s;
     (if curr_state (procs s p) = PROC_STATE_BLOCKED then do {
        s \<leftarrow> add_pcb_to_queue p PROC_STATE_READY s;
        Some (upd_proc p (\<lambda>c. c\<lparr>blocking_queue_name := NO_BLOCKER\<rparr>) s)
      }
      else Some s)
   }"

definition keyboard_handle_eof :: "kernel \<Rightarrow> kernel option" where
  "keyboard_handle_eof s = do {
     let s = s\<lparr>io := setEnabledKbd 0 (io s)\<rparr>;
     let s = upd_kbd (\<lambda>k. k\<lparr>kbd_done := True\<rparr>) s;
     for_each (\<lambda>i s. if kt_waiting (task i s) then keyboard_unblock_proc i s else Some s)
       [0..<KBD_TASK_LIST_SIZE] s
   }"

text \<open>One waiting task takes the character.\<close>

definition task_take_char :: "u8 \<Rightarrow> nat \<Rightarrow> kernel \<Rightarrow> kernel option" where
  "task_take_char c i s =
     (if kt_waiting (task i s) then do {
        let s = s\<lparr>ram := (ram s)(kt_buf (task i s) + word_of_int (kt_i (task i s)) := c)\<rparr>;
        let s = upd_task i (\<lambda>t. t\<lparr>kt_i := s32 (kt_i t + 1)\<rparr>) s;
        (if kt_i (task i s) = kt_buflen (task i s) \<or> c = 0x0A then keyboard_unblock_proc i s
         else Some s)
      }
      else Some s)"

definition keyboard_process_char :: "u8 \<Rightarrow> kernel \<Rightarrow> kernel option" where
  "keyboard_process_char c s =
     (if c = keyboard_eof (kbd s) then keyboard_handle_eof s
      else for_each (task_take_char c) [0..<KBD_TASK_LIST_SIZE] s)"

partial_function (option) keyboard_flush_buffer :: "kernel \<Rightarrow> kernel option" where
  "keyboard_flush_buffer s =
     (if 0 < kbd_task_refcount (kbd s) \<and> buffer_tail (kbd s) \<noteq> buffer_head (kbd s) then do {
        s \<leftarrow> keyboard_process_char (keyboard_buffer (kbd s) (buffer_tail (kbd s))) s;
        keyboard_flush_buffer
          (upd_kbd (\<lambda>k. k\<lparr>buffer_tail := (buffer_tail k + 1) mod KEYBOARD_BUFFER_SIZE\<rparr>) s)
      }
      else Some s)"

text \<open>The ring takes a character unless it is full.\<close>

definition kbd_buffer_char :: "u8 \<Rightarrow> kbd_state \<Rightarrow> kbd_state" where
  "kbd_buffer_char c k =
     (if (buffer_head k + 1) mod KEYBOARD_BUFFER_SIZE \<noteq> buffer_tail k
      then k\<lparr>keyboard_buffer := (keyboard_buffer k)(buffer_head k := c),
             buffer_head := (buffer_head k + 1) mod KEYBOARD_BUFFER_SIZE\<rparr>
      else k)"

definition keyboard_isr :: "kernel \<Rightarrow> kernel option" where
  "keyboard_isr s =
     (let isDataPresent = 1 AND inb KEYBOARD_PORT_CONTROL (io s);
          data = unat (inb KEYBOARD_PORT_DATA (io s))
      in if isDataPresent \<noteq> 0 then
           (let (c, flag) = keyboard_process_scancode data (keystate_flag (kbd s));
                s = upd_kbd (\<lambda>k. k\<lparr>keystate_flag := flag\<rparr>) s
            in if c \<noteq> 0 then
                 (let s = (if keyboard_echo_flag (kbd s) \<noteq> 0 \<and> c \<noteq> keyboard_eof (kbd s)
                           then put_chars [c] s else s)
                  in if 0 < kbd_task_refcount (kbd s) then keyboard_process_char c s
                     else Some (upd_kbd (kbd_buffer_char c) s))
               else Some s)
         else Some s)"

subsection \<open>Upper half\<close>

text \<open>The block of a device holds one number, the echo flag it was created with.\<close>

definition orig_echo_flag :: "u32 \<Rightarrow> kernel \<Rightarrow> int" where
  "orig_echo_flag blk s = sint (read32 blk s)"

definition kbd_devsw_create :: "nat \<Rightarrow> int \<Rightarrow> kernel \<Rightarrow> kernel option" where
  "kbd_devsw_create entry echo_flag s = do {
     (blk, s) \<leftarrow> k_malloc 4 s;
     ASSERT (blk \<noteq> 0);
     let s = s\<lparr>device_table := (device_table s)(entry :=
       \<lparr>dvname = ''keyboard'', dvdriver = KbdDriver, dvioblk = blk, dvminor = echo_flag\<rparr>)\<rparr>;
     Some (write32 blk (word_of_int echo_flag) s)
   }"

definition kbd_init :: "kernel \<Rightarrow> int \<times> kernel" where
  "kbd_init s = (0, upd_kbd (\<lambda>k. k\<lparr>kbd_refcount := 0, kbd_done := False, buffer_head := 0,
     buffer_tail := 0, kbd_task_refcount := 0,
     kbd_task_list := (\<lambda>i. if i < KBD_TASK_LIST_SIZE
       then (kbd_task_list k i)\<lparr>kt_waiting := False\<rparr> else kbd_task_list k i)\<rparr>) s)"

definition kbd_open :: "pcbref \<Rightarrow> u32 \<Rightarrow> kernel \<Rightarrow> (int \<times> kernel) option" where
  "kbd_open proc blk s =
     (let echo_flag = orig_echo_flag blk s
      in if 0 < kbd_refcount (kbd s) then
           (if kbd_current_type (kbd s) \<noteq> echo_flag then Some (EBUSY, s)
            else Some (0, upd_kbd (\<lambda>k. k\<lparr>kbd_refcount := s32 (kbd_refcount k + 1)\<rparr>) s))
         else do {
           let s = upd_kbd (\<lambda>k. k\<lparr>kbd_refcount := 1, kbd_current_type := echo_flag,
             kbd_done := False, buffer_head := 0, buffer_tail := 0, keystate_flag := 0,
             keyboard_eof := KBD_DEFAULT_EOF, keyboard_echo_flag := word_of_int echo_flag\<rparr>) s;
           ASSERT (\<not> kt_waiting (task (kbd_slot proc s) s));
           Some (0, s\<lparr>io := setEnabledKbd 1 (io s)\<rparr>)
         })"

definition kbd_close :: "pcbref \<Rightarrow> u32 \<Rightarrow> kernel \<Rightarrow> int \<times> kernel" where
  "kbd_close proc blk s =
     (if kbd_refcount (kbd s) \<le> 0 then (EBADF, s)
      else
        (let s = upd_kbd (\<lambda>k. k\<lparr>kbd_refcount := s32 (kbd_refcount k - 1)\<rparr>) s;
             s = (if kbd_refcount (kbd s) = 0 then s\<lparr>io := setEnabledKbd 0 (io s)\<rparr> else s);
             s = (if kt_waiting (task (kbd_slot proc s) s)
                  then upd_kbd (\<lambda>k. k\<lparr>kbd_task_refcount := s32 (kbd_task_refcount k - 1)\<rparr>) s
                  else s)
         in (0, upd_task (kbd_slot proc s) (\<lambda>t. t\<lparr>kt_waiting := False\<rparr>) s)))"

definition kbd_read :: "pcbref \<Rightarrow> u32 \<Rightarrow> u32 \<Rightarrow> int \<Rightarrow> kernel \<Rightarrow> (int \<times> kernel) option" where
  "kbd_read proc blk buf buflen s = do {
     let i = kbd_slot proc s;
     let s = upd_kbd (\<lambda>k. k\<lparr>kbd_task_refcount := s32 (kbd_task_refcount k + 1)\<rparr>) s;
     let s = upd_task i (\<lambda>t. t\<lparr>kt_pcb := Some proc, kt_buf := buf, kt_i := 0,
                              kt_buflen := buflen, kt_waiting := True\<rparr>) s;
     s \<leftarrow> keyboard_flush_buffer s;
     Some (if kt_i (task i s) = buflen then buflen
           else if kbd_done (kbd s) then kt_i (task i s)
           else BLOCKERR, s)
   }"

definition kbd_write :: "pcbref \<Rightarrow> u32 \<Rightarrow> u32 \<Rightarrow> int \<Rightarrow> kernel \<Rightarrow> int \<times> kernel" where
  "kbd_write proc blk buf buflen s = (-1, s)"

definition kbd_ioctl_set_eof :: "u32 \<Rightarrow> kernel \<Rightarrow> int \<times> kernel" where
  "kbd_ioctl_set_eof arg s =
     (if arg = 0 then (SYSERR, s)
      else (0, upd_kbd (\<lambda>k. k\<lparr>keyboard_eof := ucast (read32 arg s)\<rparr>) s))"

definition kbd_ioctl :: "pcbref \<Rightarrow> u32 \<Rightarrow> u32 \<Rightarrow> u32 \<Rightarrow> kernel \<Rightarrow> int \<times> kernel" where
  "kbd_ioctl proc blk command arg s =
     (if command = KEYBOARD_IOCTL_SET_EOF then kbd_ioctl_set_eof arg s
      else if command = KEYBOARD_IOCTL_ENABLE_ECHO then
        (0, upd_kbd (\<lambda>k. k\<lparr>keyboard_echo_flag := 1\<rparr>) s)
      else if command = KEYBOARD_IOCTL_DISABLE_ECHO then
        (0, upd_kbd (\<lambda>k. k\<lparr>keyboard_echo_flag := 0\<rparr>) s)
      else if command = KEYBOARD_IOCTL_GET_EOF then (sint (keyboard_eof (kbd s)), s)
      else if command = KEYBOARD_IOCTL_GET_ECHO then (sint (keyboard_echo_flag (kbd s)), s)
      else (SYSERR, s))"

definition kbd_iint :: int where "kbd_iint = -1"
definition kbd_oint :: int where "kbd_oint = -1"

end
