(* ===== verification/Devices.thy ===== *)
theory Devices
  imports Keyboard
begin

text \<open>
  c/di_calls.c, the device-independent calls. A call goes through the function pointers of the
  device's table entry; \<open>NullDriver\<close> is an entry not initialised yet, whose pointers are null.
\<close>

definition di_init_devtable :: "kernel \<Rightarrow> kernel option" where
  "di_init_devtable s = do {
     s \<leftarrow> kbd_devsw_create DEVICE_ID_KEYBOARD_NO_ECHO 0 s;
     s \<leftarrow> kbd_devsw_create DEVICE_ID_KEYBOARD 1 s;
     for_each (\<lambda>i s. case dvdriver (device_table s i) of
         NullDriver \<Rightarrow> None
       | KbdDriver \<Rightarrow> Some (snd (kbd_init s))) [0..<NUM_DEVICES_ID_ENUMS] s
   }"

text \<open>1 for a descriptor that is out of range or not open, 0 otherwise.\<close>

definition check_fd :: "pcbref \<Rightarrow> int \<Rightarrow> kernel \<Rightarrow> int" where
  "check_fd proc fd s =
     (if fd < 0 \<or> fd \<ge> int PCB_NUM_FDS \<or> fd_table (procs s proc) (nat fd) = None then 1 else 0)"

text \<open>The first free descriptor, or \<open>PCB_NUM_FDS\<close>.\<close>

definition free_fd :: "pcbref \<Rightarrow> kernel \<Rightarrow> nat" where
  "free_fd proc s =
     length (takeWhile (\<lambda>fd. fd_table (procs s proc) fd \<noteq> None) [0..<PCB_NUM_FDS])"

definition set_fd :: "pcbref \<Rightarrow> nat \<Rightarrow> nat option \<Rightarrow> kernel \<Rightarrow> kernel" where
  "set_fd proc fd e = upd_proc proc (\<lambda>c. c\<lparr>fd_table := (fd_table c)(fd := e)\<rparr>)"

definition dvopen :: "devsw \<Rightarrow> pcbref \<Rightarrow> kernel \<Rightarrow> (int \<times> kernel) option" where
  "dvopen entry proc s = (case dvdriver entry of
     NullDriver \<Rightarrow> None | KbdDriver \<Rightarrow> kbd_open proc (dvioblk entry) s)"

definition dvclose :: "devsw \<Rightarrow> pcbref \<Rightarrow> kernel \<Rightarrow> (int \<times> kernel) option" where
  "dvclose entry proc s = (case dvdriver entry of
     NullDriver \<Rightarrow> None | KbdDriver \<Rightarrow> Some (kbd_close proc (dvioblk entry) s))"

definition di_open :: "pcbref \<Rightarrow> int \<Rightarrow> kernel \<Rightarrow> (int \<times> kernel) option" where
  "di_open proc device_no s =
     (if device_no < 0 \<or> device_no \<ge> int NUM_DEVICES_ID_ENUMS then Some (SYSERR, s)
      else
        (let fd = free_fd proc s
         in if fd \<ge> PCB_NUM_FDS then Some (SYSERR, s)
            else do {
              (result, s) \<leftarrow> dvopen (device_table s (nat device_no)) proc s;
              (if result \<noteq> 0 then Some (SYSERR, s)
               else Some (int fd, set_fd proc fd (Some (nat device_no)) s))
            }))"

definition di_close :: "pcbref \<Rightarrow> int \<Rightarrow> kernel \<Rightarrow> (int \<times> kernel) option" where
  "di_close proc fd s =
     (if check_fd proc fd s \<noteq> 0 then Some (SYSERR, s)
      else do {
        entry \<leftarrow> fd_table (procs s proc) (nat fd);
        (result, s) \<leftarrow> dvclose (device_table s entry) proc s;
        (if result \<noteq> 0 then Some (SYSERR, s)
         else Some (0, set_fd proc (nat fd) None s))
      })"

definition di_write :: "pcbref \<Rightarrow> int \<Rightarrow> u32 \<Rightarrow> int \<Rightarrow> kernel \<Rightarrow> (int \<times> kernel) option" where
  "di_write proc fd buf buflen s = do {
     ASSERT (buf \<noteq> 0);
     (if check_fd proc fd s \<noteq> 0 then Some (SYSERR, s)
      else do {
        entry \<leftarrow> fd_table (procs s proc) (nat fd);
        (case dvdriver (device_table s entry) of
           NullDriver \<Rightarrow> None
         | KbdDriver \<Rightarrow> Some (kbd_write proc (dvioblk (device_table s entry)) buf buflen s))
      })
   }"

definition di_read :: "pcbref \<Rightarrow> int \<Rightarrow> u32 \<Rightarrow> int \<Rightarrow> kernel \<Rightarrow> (int \<times> kernel) option" where
  "di_read proc fd buf buflen s =
     (if check_fd proc fd s \<noteq> 0 then Some (SYSERR, s)
      else do {
        entry \<leftarrow> fd_table (procs s proc) (nat fd);
        (case dvdriver (device_table s entry) of
           NullDriver \<Rightarrow> None
         | KbdDriver \<Rightarrow> kbd_read proc (dvioblk (device_table s entry)) buf buflen s)
      })"

definition di_ioctl :: "pcbref \<Rightarrow> int \<Rightarrow> u32 \<Rightarrow> u32 \<Rightarrow> kernel \<Rightarrow> (int \<times> kernel) option" where
  "di_ioctl proc fd command_code arg s =
     (if check_fd proc fd s \<noteq> 0 then Some (SYSERR, s)
      else do {
        entry \<leftarrow> fd_table (procs s proc) (nat fd);
        (case dvdriver (device_table s entry) of
           NullDriver \<Rightarrow> None
         | KbdDriver \<Rightarrow> Some (kbd_ioctl proc (dvioblk (device_table s entry)) command_code arg s))
      })"

end
