(* ===== verification/Signals.thy ===== *)
theory Signals
  imports Queues Keyboard
begin

text \<open>
  c/signal.c and the two helpers of c/create.c and c/pcb.c it rests on: the context frame a
  process resumes from, and the delivery of the pending signal with the highest number. A frame
  is eleven words on the process's stack; the word after it is the system call's first argument.
\<close>

subsection \<open>Context frames (h/xeroskernel.h, c/create.c)\<close>

definition cf_ebp :: u32 where "cf_ebp = 8"
definition cf_esp :: u32 where "cf_esp = 12"
definition cf_eax :: u32 where "cf_eax = 28"
definition cf_iret_eip :: u32 where "cf_iret_eip = 32"
definition cf_iret_cs :: u32 where "cf_iret_cs = 36"
definition cf_eflags :: u32 where "cf_eflags = 40"
definition cf_syscallargs :: u32 where "cf_syscallargs = 44"
definition sizeof_context_frame :: u32 where "sizeof_context_frame = 44"

lemmas cf_defs = cf_ebp_def cf_esp_def cf_eax_def cf_iret_eip_def cf_iret_cs_def cf_eflags_def
  cf_syscallargs_def sizeof_context_frame_def

definition STARTING_EFLAGS :: u32 where "STARTING_EFLAGS = 0x00003000"
definition ARM_INTERRUPTS :: u32 where "ARM_INTERRUPTS = 0x00000200"

text \<open>\<open>getCS()\<close> is the code segment selector of the running kernel.\<close>

definition setup_context_frame :: "u32 \<Rightarrow> u32 \<Rightarrow> kernel \<Rightarrow> kernel" where
  "setup_context_frame cf func s = (
     let s = s\<lparr>ram := fill_bytes cf 0xA5 (unat sizeof_context_frame) (ram s)\<rparr>;
         s = write32 (cf + cf_iret_eip) func s;
         s = write32 (cf + cf_iret_cs) (ucast (code_segment (image s))) s;
         s = write32 (cf + cf_eflags) (STARTING_EFLAGS OR ARM_INTERRUPTS) s;
         s = write32 (cf + cf_esp) (cf + 1) s
     in write32 (cf + cf_ebp) (read32 (cf + cf_esp) s) s)"

subsection \<open>Delivery\<close>

text \<open>Entry \<open>n\<close> of the signal table of a process.\<close>

definition signal_slot :: "pcb \<Rightarrow> nat \<Rightarrow> u32" where
  "signal_slot c n = signal_table c + 4 * of_nat n"

text \<open>The words \<open>signal\<close> pushes below the context at \<open>esp\<close>: the saved return value, the old
  context (second argument of \<open>sigtramp\<close>), the handler (first argument), a dummy return address.\<close>

definition signal :: "int \<Rightarrow> int \<Rightarrow> kernel \<Rightarrow> int \<times> kernel" where
  "signal n sig_no s =
     (case pid_to_proc n s of
        None \<Rightarrow> (SYSPID_DNE, s)
      | Some proc \<Rightarrow>
          (if sig_no < 0 \<or> sig_no \<ge> int SIGNAL_TABLE_SIZE then (SIGNAL_DNE, s)
           else
             (let s = upd_proc proc (\<lambda>c. c\<lparr>signals_enabled := 0\<rparr>) s;
                  stack_ptr = esp (procs s proc) - 4;
                  s = write32 stack_ptr (word_of_int (ret (procs s proc))) s;
                  stack_ptr = stack_ptr - 4;
                  s = write32 stack_ptr (esp (procs s proc)) s;
                  stack_ptr = stack_ptr - 4;
                  s = write32 stack_ptr (read32 (signal_slot (procs s proc) (nat sig_no)) s) s;
                  stack_ptr = stack_ptr - 4;
                  s = write32 stack_ptr 0xCAFECAFE s;
                  s = upd_proc proc (\<lambda>c. c\<lparr>esp := stack_ptr - sizeof_context_frame\<rparr>) s
              in (0, setup_context_frame (esp (procs s proc)) (addr_sigtramp (image s)) s))))"

text \<open>The search from bit 31 down; without a bit set the C loop would run below bit 0.\<close>

fun highest_signal :: "u32 \<Rightarrow> nat \<Rightarrow> nat option" where
  "highest_signal fired 0 = (if FLAG_BIT_CHECK fired 0 = 0 then None else Some 0)"
| "highest_signal fired (Suc n) =
     (if FLAG_BIT_CHECK fired (Suc n) = 0 then highest_signal fired n else Some (Suc n))"

definition call_highest_priority_signal :: "pcbref \<Rightarrow> kernel \<Rightarrow> kernel option" where
  "call_highest_priority_signal proc s = do {
     ASSERT (signals_fired (procs s proc) \<noteq> 0);
     signal_num \<leftarrow> highest_signal (signals_fired (procs s proc)) (SIGNAL_TABLE_SIZE - 1);
     let s = upd_proc proc (\<lambda>c. c\<lparr>signals_fired := FLAG_BIT_CLEAR signal_num (signals_fired c)\<rparr>) s;
     Some (snd (signal (pid (procs s proc)) (int signal_num) s))
   }"

end
