(* ===== verification/Pcb.thy ===== *)
theory Pcb
  imports Sleep Devices Signals
begin

text \<open>
  The life of a process: taking a control block from the table, marking signals, unblocking and
  clean-up (c/pcb.c), and creation (c/create.c).
\<close>

subsection \<open>Process information\<close>

text \<open>Offsets in \<open>processStatuses\<close> (h/xeroskernel.h): three arrays of 32 words.\<close>

definition ps_pid :: "nat \<Rightarrow> u32" where "ps_pid slot = 4 * of_nat slot"
definition ps_status :: "nat \<Rightarrow> u32" where "ps_status slot = 128 + 4 * of_nat slot"
definition ps_cpuTime :: "nat \<Rightarrow> u32" where "ps_cpuTime slot = 256 + 4 * of_nat slot"
definition sizeof_processStatuses :: int where "sizeof_processStatuses = 384"

definition proc_status :: "pcb \<Rightarrow> int" where
  "proc_status c = proc_state_num (curr_state c)
     + (if curr_state c = PROC_STATE_BLOCKED then blocking_queue_num (blocking_queue_name c) else 0)"

definition fill_proc_info :: "u32 \<Rightarrow> nat \<Rightarrow> pcbref \<Rightarrow> kernel \<Rightarrow> kernel option" where
  "fill_proc_info ps slot proc s = do {
     ASSERT (ps \<noteq> 0);
     ASSERT (slot < PCB_TABLE_SIZE);
     let s = write32 (ps + ps_pid slot) (word_of_int (pid (procs s proc))) s;
     let s = write32 (ps + ps_cpuTime slot)
               (word_of_int (cpu_time (procs s proc) * TICK_LENGTH_IN_MS)) s;
     Some (write32 (ps + ps_status slot) (word_of_int (proc_status (procs s proc))) s)
   }"

definition get_all_proc_info :: "u32 \<Rightarrow> kernel \<Rightarrow> (int \<times> kernel) option" where
  "get_all_proc_info ps s = do {
     ASSERT (ps \<noteq> 0);
     s \<leftarrow> fill_proc_info ps 0 get_idleproc s;
     (slot, s) \<leftarrow> for_each (\<lambda>i (slot, s).
         if curr_state (procs s (Table i)) \<noteq> PROC_STATE_STOPPED
         then map_option (\<lambda>s. (slot + 1, s)) (fill_proc_info ps (slot + 1) (Table i) s)
         else Some (slot, s))
       [0..<PCB_TABLE_SIZE] (0 :: nat, s);
     Some (int slot, s)
   }"

subsection \<open>Ending a blocked state early\<close>

definition signalled_ret :: "blocking_queue \<Rightarrow> int \<Rightarrow> int option" where
  "signalled_ret q r = (case q of
       SLEEP \<Rightarrow> Some r
     | RECEIVE_ANY \<Rightarrow> Some PROC_SIGNALLED
     | SENDER \<Rightarrow> Some PROC_SIGNALLED
     | RECEIVER \<Rightarrow> Some PROC_SIGNALLED
     | WAITING \<Rightarrow> Some SYSWAIT_SIGNALLED
     | DEVICE \<Rightarrow> Some SYSERR
     | NO_BLOCKER \<Rightarrow> None)"

definition resolve_blocking :: "pcbref \<Rightarrow> kernel \<Rightarrow> kernel option" where
  "resolve_blocking proc s = do {
     ASSERT (blocking_queue_name (procs s proc) \<noteq> NO_BLOCKER);
     ASSERT (curr_state (procs s proc) = PROC_STATE_BLOCKED);
     r \<leftarrow> signalled_ret (blocking_queue_name (procs s proc)) (ret (procs s proc));
     let s = set_ret proc r s;
     (case blocking_queue_name (procs s proc) of
        SLEEP \<Rightarrow> wake proc s
      | q \<Rightarrow>
        (if q = DEVICE \<or> q = RECEIVE_ANY then do {
           ASSERT (blocking_proc (procs s proc) = None);
           Some (upd_proc proc (\<lambda>c. c\<lparr>blocking_queue_name := NO_BLOCKER\<rparr>) s)
         }
         else if has_queue q then do {
           (n, s) \<leftarrow> remove_proc_from_blocking_queue proc (blocking_proc (procs s proc)) q s;
           ASSERT (n = 1);
           Some s
         }
         else None))
   }"

definition set_proc_signal :: "pcbref \<Rightarrow> int \<Rightarrow> kernel \<Rightarrow> (int \<times> kernel) option" where
  "set_proc_signal proc sig s =
     (if sig < 0 \<or> sig \<ge> int SIGNAL_TABLE_SIZE then Some (SYSKILL_INVALID_SIGNAL, s)
      else if read32 (signal_slot (procs s proc) (nat sig)) s \<noteq> 0 then do {
        let s = upd_proc proc (\<lambda>c. c\<lparr>signals_fired := FLAG_BIT_SET (nat sig) (signals_fired c)\<rparr>) s;
        (if curr_state (procs s proc) = PROC_STATE_BLOCKED then do {
           s \<leftarrow> resolve_blocking proc s;
           s \<leftarrow> add_pcb_to_queue proc PROC_STATE_READY s;
           Some (0, s)
         }
         else Some (0, s))
      }
      else Some (0, s))"

text \<open>Every process in a queue of the owner becomes ready, its return value as it was set.\<close>

partial_function (option) notify_blocked_procs ::
  "pcbref \<Rightarrow> blocking_queue \<Rightarrow> kernel \<Rightarrow> kernel option" where
  "notify_blocked_procs proc queue s =
     (case blocking_queue_heads (procs s proc) queue of
        None \<Rightarrow> Some s
      | Some cur \<Rightarrow> do {
          (n, s) \<leftarrow> remove_proc_from_blocking_queue cur (Some proc) queue s;
          ASSERT (n = 1);
          s \<leftarrow> add_pcb_to_queue cur PROC_STATE_READY s;
          notify_blocked_procs proc queue s
        })"

subsection \<open>Clean-up\<close>

definition cleanup_proc :: "pcbref \<Rightarrow> kernel \<Rightarrow> kernel option" where
  "cleanup_proc proc s = do {
     s \<leftarrow> k_free (memory_region (procs s proc)) s;
     s \<leftarrow> k_free (signal_table (procs s proc)) s;
     s \<leftarrow> notify_blocked_procs proc SENDER s;
     s \<leftarrow> notify_blocked_procs proc RECEIVER s;
     s \<leftarrow> notify_blocked_procs proc WAITING s;
     s \<leftarrow> (if blocking_queue_name (procs s proc) \<noteq> NO_BLOCKER then resolve_blocking proc s else Some s);
     s \<leftarrow> for_each (\<lambda>i s. map_option snd (di_close proc (int i) s)) [0..<PCB_NUM_FDS] s;
     add_pcb_to_queue proc PROC_STATE_STOPPED s
   }"

subsection \<open>Taking a control block\<close>

text \<open>The remainder of C, which truncates toward zero, for a positive divisor.\<close>

definition crem :: "int \<Rightarrow> int \<Rightarrow> int" where
  "crem x y = (if x < 0 then - ((- x) mod y) else x mod y)"

definition next_pid :: "int \<Rightarrow> int" where
  "next_pid old_pid =
     (let n = s32 (old_pid + int PCB_TABLE_SIZE)
      in if n < 1 then crem old_pid (int PCB_TABLE_SIZE) else n)"

text \<open>The bytes the \<open>memset\<close> of the new signal table clears: \<open>sizeof\<close> of a number, which is 4.\<close>

definition signal_table_cleared :: nat where "signal_table_cleared = 4"

definition get_next_available_pcb :: "kernel \<Rightarrow> (pcbref option \<times> kernel) option" where
  "get_next_available_pcb s =
     (case queue_heads s PROC_STATE_STOPPED of
        None \<Rightarrow> Some (None, s)
      | Some proc \<Rightarrow> do {
          s \<leftarrow> remove_pcb_from_queue proc s;
          let old_pid = pid (procs s proc);
          let s = upd_proc proc (\<lambda>_. zero_pcb) s;
          (tbl, s) \<leftarrow> k_malloc (of_nat (SIGNAL_TABLE_SIZE * 4)) s;
          let s = upd_proc proc (\<lambda>c. c\<lparr>signal_table := tbl\<rparr>) s;
          (if tbl = 0 then do {
             let s = upd_proc proc (\<lambda>c. c\<lparr>pid := old_pid\<rparr>) s;
             s \<leftarrow> add_pcb_to_queue proc PROC_STATE_STOPPED s;
             Some (None, s)
           }
           else do {
             let s = s\<lparr>ram := fill_bytes tbl 0 signal_table_cleared (ram s)\<rparr>;
             let s = upd_proc proc (\<lambda>c. c\<lparr>signals_enabled := 1, curr_state := PROC_STATE_STOPPED,
               blocking_queue_name := NO_BLOCKER, pid := next_pid old_pid\<rparr>) s;
             ASSERT (1 \<le> pid (procs s proc));
             Some (Some proc, s)
           })
        })"

subsection \<open>Creation\<close>

definition create :: "u32 \<Rightarrow> int \<Rightarrow> kernel \<Rightarrow> (int \<times> kernel) option" where
  "create func stack s =
     (if func = 0 then Some (EINVAL, s)
      else do {
        let stack = (if stack < DEFAULT_STACK_SIZE then DEFAULT_STACK_SIZE else stack);
        (stack_bottom, s) \<leftarrow> k_malloc (word_of_int stack) s;
        (if stack_bottom = 0 then Some (ENOMEM, s)
         else do {
           (new_proc, s) \<leftarrow> get_next_available_pcb s;
           (case new_proc of
              None \<Rightarrow> do { s \<leftarrow> k_free stack_bottom s; Some (EPROCLIMIT, s) }
            | Some p \<Rightarrow> do {
                let s = upd_proc p (\<lambda>c. c\<lparr>memory_region := stack_bottom\<rparr>) s;
                let fake_return_addr = stack_bottom + word_of_int stack - 4;
                let s = write32 fake_return_addr (addr_sysstop (image s)) s;
                let s = upd_proc p (\<lambda>c. c\<lparr>esp := fake_return_addr - sizeof_context_frame\<rparr>) s;
                let s = setup_context_frame (esp (procs s p)) func s;
                s \<leftarrow> add_pcb_to_queue p PROC_STATE_READY s;
                Some (pid (procs s p), s)
              })
         })
      })"

definition IDLE_PROC_STACK_SIZE :: u32 where "IDLE_PROC_STACK_SIZE = 1024"

definition init_idle_proc :: "pcbref \<Rightarrow> kernel \<Rightarrow> kernel option" where
  "init_idle_proc idle_proc s = do {
     let s = upd_proc idle_proc (\<lambda>_. zero_pcb) s;
     (stack_bottom, s) \<leftarrow> k_malloc IDLE_PROC_STACK_SIZE s;
     ASSERT (stack_bottom \<noteq> 0);
     let s = upd_proc idle_proc (\<lambda>c. c\<lparr>memory_region := stack_bottom,
       esp := stack_bottom + IDLE_PROC_STACK_SIZE - sizeof_context_frame\<rparr>) s;
     let s = setup_context_frame (esp (procs s idle_proc)) (addr_idleproc (image s)) s;
     Some (upd_proc idle_proc (\<lambda>c. c\<lparr>pid := 0, curr_state := PROC_STATE_BLOCKED\<rparr>) s)
   }"

definition pcb_table_init :: "kernel \<Rightarrow> kernel option" where
  "pcb_table_init s = do {
     ASSERT (4 * 8 = SIGNAL_TABLE_SIZE);
     let s = s\<lparr>queue_heads := (queue_heads s)(PROC_STATE_READY := None, PROC_STATE_STOPPED := None),
               queue_tails := (queue_tails s)(PROC_STATE_READY := None, PROC_STATE_STOPPED := None)\<rparr>;
     s \<leftarrow> for_each (\<lambda>i s.
         add_pcb_to_queue (Table i) PROC_STATE_STOPPED (upd_proc (Table i) (\<lambda>c. c\<lparr>pid := int i + 1\<rparr>) s))
       [0..<PCB_TABLE_SIZE] s;
     init_idle_proc IdleProc s
   }"

end
