(* ===== verification/Ctsw.thy ===== *)
theory Ctsw
  imports Pcb
begin

text \<open>
  c/ctsw.c, the context switcher. The processor's part (\<open>popa\<close>, \<open>iret\<close>, the interrupt entry and
  \<open>pusha\<close>) is written out on the byte memory; what the process does between the two is the
  environment's, a \<open>user_event\<close>: the registers and memory at the moment the interrupt comes, the
  entry point taken and what the two keyboard ports then hold.
\<close>

subsection \<open>The processor\<close>

record user_regs =
  r_edi :: u32
  r_esi :: u32
  r_ebp :: u32
  r_ebx :: u32
  r_edx :: u32
  r_ecx :: u32
  r_eax :: u32
  r_eip :: u32
  r_cs :: u32
  r_eflags :: u32
  r_sp :: u32

text \<open>\<open>popa\<close> skips the slot of the stack pointer; \<open>iret\<close> takes the last three words.\<close>

definition popa_iret :: "u32 \<Rightarrow> bytes \<Rightarrow> user_regs" where
  "popa_iret sp m = \<lparr>r_edi = load32 m sp, r_esi = load32 m (sp + 4), r_ebp = load32 m (sp + 8),
     r_ebx = load32 m (sp + 16), r_edx = load32 m (sp + 20), r_ecx = load32 m (sp + 24),
     r_eax = load32 m (sp + 28), r_eip = load32 m (sp + 32), r_cs = load32 m (sp + 36),
     r_eflags = load32 m (sp + 40), r_sp = sp + sizeof_context_frame\<rparr>"

definition push32 :: "u32 \<Rightarrow> u32 \<times> bytes \<Rightarrow> u32 \<times> bytes" where
  "push32 v = (\<lambda>(sp, m). (sp - 4, store32 m (sp - 4) v))"

text \<open>An interrupt pushes flags, code segment and return address, the entry point all registers;
  the stack pointer \<open>pusha\<close> stores is the one before it.\<close>

definition interrupt_entry :: "user_regs \<Rightarrow> bytes \<Rightarrow> u32 \<times> bytes" where
  "interrupt_entry r m = (
     let (sp, m) = push32 (r_eip r) (push32 (r_cs r) (push32 (r_eflags r) (r_sp r, m)))
     in push32 (r_edi r) (push32 (r_esi r) (push32 (r_ebp r) (push32 sp (push32 (r_ebx r)
          (push32 (r_edx r) (push32 (r_ecx r) (push32 (r_eax r) (sp, m)))))))))"

subsection \<open>The switch\<close>

definition CTSW_SYSCALL :: nat where "CTSW_SYSCALL = 0"
definition CTSW_TIMER :: nat where "CTSW_TIMER = 1"
definition CTSW_KEYBOARD :: nat where "CTSW_KEYBOARD = 2"

record user_event =
  ev_reason :: nat
  ev_regs :: user_regs
  ev_ram :: bytes
  ev_kbd_data :: u8
  ev_kbd_status :: u8

text \<open>Down to \<open>iret\<close>: deliver a signal, put the return value in the frame's \<open>eax\<close>.\<close>

definition ctsw_enter :: "pcbref \<Rightarrow> kernel \<Rightarrow> kernel option" where
  "ctsw_enter proc s = do {
     s \<leftarrow> (if signals_fired (procs s proc) \<noteq> 0 \<and> signals_enabled (procs s proc) \<noteq> 0
          then call_highest_priority_signal proc s else Some s);
     Some (write32 (esp (procs s proc) + cf_eax) (word_of_int (ret (procs s proc))) s)
   }"

text \<open>The registers the process continues with.\<close>

definition resumed_regs :: "pcbref \<Rightarrow> kernel \<Rightarrow> user_regs" where
  "resumed_regs proc s = popa_iret (esp (procs s proc)) (ram s)"

text \<open>From the common entry point on: the new context, the return value and the request.\<close>

definition ctsw_return :: "user_event \<Rightarrow> pcbref \<Rightarrow> kernel \<Rightarrow> (u32 \<times> kernel) option" where
  "ctsw_return ev proc s = (
     let (sp, m) = interrupt_entry (ev_regs ev) (ev_ram ev);
         s = s\<lparr>ram := m, io := (io s)\<lparr>ports := (ports (io s))
                 (KEYBOARD_PORT_DATA := ev_kbd_data ev, KEYBOARD_PORT_CONTROL := ev_kbd_status ev)\<rparr>\<rparr>;
         s = upd_proc proc (\<lambda>c. c\<lparr>esp := sp\<rparr>) s;
         s = set_ret proc (sint (read32 (sp + cf_eax) s)) s
     in if ev_reason ev = CTSW_SYSCALL then
          Some (read32 (sp + cf_syscallargs) s,
                upd_proc proc (\<lambda>c. c\<lparr>args := sp + cf_syscallargs + 4\<rparr>) s)
        else if ev_reason ev = CTSW_TIMER then
          Some (0, upd_proc proc (\<lambda>c. c\<lparr>args := 0xDEADBEEF\<rparr>) s)
        else if ev_reason ev = CTSW_KEYBOARD then
          Some (1, upd_proc proc (\<lambda>c. c\<lparr>args := 0xCAFEBABE\<rparr>) s)
        else None)"

definition ctsw_contextswitch :: "user_event \<Rightarrow> pcbref \<Rightarrow> kernel \<Rightarrow> (u32 \<times> kernel) option" where
  "ctsw_contextswitch ev proc s = do {
     s \<leftarrow> ctsw_enter proc s;
     ctsw_return ev proc s
   }"

text \<open>The entry points registered in the descriptor table (h/xeroskernel.h has the numbers).\<close>

definition TIMER_INTERRUPT_VALUE :: nat where "TIMER_INTERRUPT_VALUE = 32"
definition KEYBOARD_INTERRUPT_VALUE :: nat where "KEYBOARD_INTERRUPT_VALUE = 33"
definition SYSCALL_INTERRUPT_VALUE :: nat where "SYSCALL_INTERRUPT_VALUE = 50"

definition ctsw_init_evec ::
  "u32 \<Rightarrow> u32 \<Rightarrow> u32 \<Rightarrow> (nat \<Rightarrow> idt_entry) \<Rightarrow> (nat \<Rightarrow> idt_entry)" where
  "ctsw_init_evec timer_entry keyboard_entry syscall_entry idt =
     set_evec SYSCALL_INTERRUPT_VALUE syscall_entry
       (set_evec KEYBOARD_INTERRUPT_VALUE keyboard_entry
         (set_evec TIMER_INTERRUPT_VALUE timer_entry idt))"

end
