(* ===== verification/Libc.thy ===== *)
theory Libc
  imports Prelude
begin

text \<open>
  The string functions of lib/libxc the kernel and the shell use, on the byte memory. A function
  that scans for a terminator may never find one; then its value is \<open>None\<close>. A \<open>char\<close> is signed
  on this machine, so characters are compared through \<open>sint\<close>.
\<close>

subsection \<open>Blocks of bytes\<close>

fun memset_loop :: "bytes \<Rightarrow> u32 \<Rightarrow> u8 \<Rightarrow> nat \<Rightarrow> bytes" where
  "memset_loop m p c 0 = m"
| "memset_loop m p c (Suc n) = memset_loop (m(p := c)) (p + 1) c n"

definition memset :: "bytes \<Rightarrow> u32 \<Rightarrow> int \<Rightarrow> int \<Rightarrow> bytes" where
  "memset m pch c len = (if len \<le> 0 then m else memset_loop m pch (word_of_int c) (nat len))"

subsection \<open>Copying\<close>

fun strncpy_pad :: "bytes \<Rightarrow> u32 \<Rightarrow> nat \<Rightarrow> bytes" where
  "strncpy_pad m s1 0 = m"
| "strncpy_pad m s1 (Suc n) = strncpy_pad (m(s1 := 0)) (s1 + 1) n"

fun strncpy_loop :: "bytes \<Rightarrow> u32 \<Rightarrow> u32 \<Rightarrow> nat \<Rightarrow> bytes" where
  "strncpy_loop m s1 s2 0 = m"
| "strncpy_loop m s1 s2 (Suc n) =
     (let c = m s2; m = m(s1 := c)
      in if c = 0 then strncpy_pad m (s1 + 1) n
         else strncpy_loop m (s1 + 1) (s2 + 1) n)"

definition strncpy :: "bytes \<Rightarrow> u32 \<Rightarrow> u32 \<Rightarrow> int \<Rightarrow> bytes" where
  "strncpy m s1 s2 n = strncpy_loop m s1 s2 (nat n)"

partial_function (option) strcpy :: "bytes \<Rightarrow> u32 \<Rightarrow> u32 \<Rightarrow> bytes option" where
  "strcpy m s1 s2 =
     (let c = m s2; m = m(s1 := c)
      in if c = 0 then Some m else strcpy m (s1 + 1) (s2 + 1))"

text \<open>The address of the terminator.\<close>

partial_function (option) str_end :: "bytes \<Rightarrow> u32 \<Rightarrow> u32 option" where
  "str_end m s = (if m s = 0 then Some s else str_end m (s + 1))"

definition strcat :: "bytes \<Rightarrow> u32 \<Rightarrow> u32 \<Rightarrow> bytes option" where
  "strcat m s1 s2 = Option.bind (str_end m s1) (\<lambda>e. strcpy m e s2)"

partial_function (option) strncat_loop :: "bytes \<Rightarrow> u32 \<Rightarrow> u32 \<Rightarrow> int \<Rightarrow> bytes option" where
  "strncat_loop m s1 s2 n =
     (let c = m s2; m = m(s1 := c)
      in if c = 0 then Some m
         else if s32 (n - 1) < 0 then Some (m(s1 := 0))
         else strncat_loop m (s1 + 1) (s2 + 1) (s32 (n - 1)))"

definition strncat :: "bytes \<Rightarrow> u32 \<Rightarrow> u32 \<Rightarrow> int \<Rightarrow> bytes option" where
  "strncat m s1 s2 n = Option.bind (str_end m s1) (\<lambda>e. strncat_loop m e s2 n)"

subsection \<open>Scanning\<close>

partial_function (option) strlen_loop :: "bytes \<Rightarrow> u32 \<Rightarrow> int \<Rightarrow> int option" where
  "strlen_loop m s n = (if m s = 0 then Some n else strlen_loop m (s + 1) (s32 (n + 1)))"

definition strlen :: "bytes \<Rightarrow> u32 \<Rightarrow> int option" where
  "strlen m s = strlen_loop m s 0"

partial_function (option) strcmp :: "bytes \<Rightarrow> u32 \<Rightarrow> u32 \<Rightarrow> int option" where
  "strcmp m s1 s2 =
     (if m s1 = m s2 then (if m s1 = 0 then Some 0 else strcmp m (s1 + 1) (s2 + 1))
      else Some (sint (m s1) - sint (m s2)))"

fun strncmp_loop :: "bytes \<Rightarrow> u32 \<Rightarrow> u32 \<Rightarrow> nat \<Rightarrow> int" where
  "strncmp_loop m s1 s2 0 = 0"
| "strncmp_loop m s1 s2 (Suc n) =
     (if m s1 = m s2 then (if m s1 = 0 then 0 else strncmp_loop m (s1 + 1) (s2 + 1) n)
      else sint (m s1) - sint (m s2))"

definition strncmp :: "bytes \<Rightarrow> u32 \<Rightarrow> u32 \<Rightarrow> int \<Rightarrow> int" where
  "strncmp m s1 s2 n = strncmp_loop m s1 s2 (nat n)"

text \<open>\<open>index\<close> and \<open>rindex\<close>: the first and the last place of a character, 0 if there is none.\<close>

partial_function (option) index :: "bytes \<Rightarrow> u32 \<Rightarrow> u8 \<Rightarrow> u32 option" where
  "index m sp c = (if m sp = c then Some sp else if m sp = 0 then Some 0 else index m (sp + 1) c)"

partial_function (option) rindex_loop :: "bytes \<Rightarrow> u32 \<Rightarrow> u8 \<Rightarrow> u32 \<Rightarrow> u32 option" where
  "rindex_loop m sp c r =
     (let r = (if m sp = c then sp else r)
      in if m sp = 0 then Some r else rindex_loop m (sp + 1) c r)"

definition rindex :: "bytes \<Rightarrow> u32 \<Rightarrow> u8 \<Rightarrow> u32 option" where
  "rindex m sp c = rindex_loop m sp c 0"

subsection \<open>Numbers\<close>

definition is_digit :: "u8 \<Rightarrow> bool" where
  "is_digit c \<longleftrightarrow> sint (48 :: u8) \<le> sint c \<and> sint c \<le> sint (57 :: u8)"

text \<open>Skipping blanks and one sign: the sign, and where the digits start.\<close>

partial_function (option) atoi_start :: "bytes \<Rightarrow> u32 \<Rightarrow> (bool \<times> u32) option" where
  "atoi_start m p =
     (if m p = 0x20 \<or> m p = 0x09 then atoi_start m (p + 1)
      else if m p = 0x2D then Some (True, p + 1)
      else if m p = 0x2B then Some (False, p + 1)
      else Some (False, p))"

partial_function (option) atoi_digits :: "bytes \<Rightarrow> u32 \<Rightarrow> int \<Rightarrow> int option" where
  "atoi_digits m p n =
     (if is_digit (m p) then atoi_digits m (p + 1) (s32 (n * 10 + sint (m p) - 48)) else Some n)"

definition atoi :: "bytes \<Rightarrow> u32 \<Rightarrow> int option" where
  "atoi m p = do {
     (f, q) \<leftarrow> atoi_start m p;
     n \<leftarrow> atoi_digits m q 0;
     Some (if f then s32 (- n) else n)
   }"

text \<open>\<open>long\<close> is as wide as \<open>int\<close>, so \<open>atol\<close> is the same computation.\<close>

definition atol :: "bytes \<Rightarrow> u32 \<Rightarrow> int option" where
  "atol m p = do {
     (f, q) \<leftarrow> atoi_start m p;
     n \<leftarrow> atoi_digits m q 0;
     Some (if f then s32 (- n) else n)
   }"

definition c_abs :: "int \<Rightarrow> int" where
  "c_abs arg = (if arg < 0 then s32 (- arg) else arg)"

text \<open>The generator of rand.c: the new seed and the number returned.\<close>

definition rand_next :: "u32 \<Rightarrow> u32 \<times> int" where
  "rand_next randx =
     (let r = randx * 1103515245 + 12345 in (r, uint (drop_bit 16 r AND 0x7FFF)))"

text \<open>Swapping the bytes of \<open>n div 2\<close> half-words.\<close>

fun swab_loop :: "bytes \<Rightarrow> u32 \<Rightarrow> u32 \<Rightarrow> nat \<Rightarrow> bytes" where
  "swab_loop m pf pt 0 = m"
| "swab_loop m pf pt (Suc n) =
     (let lo = m pf; hi = m (pf + 1)
      in swab_loop (m(pt := hi, pt + 1 := lo)) (pf + 2) (pt + 2) n)"

definition swab :: "bytes \<Rightarrow> u32 \<Rightarrow> u32 \<Rightarrow> int \<Rightarrow> bytes" where
  "swab m pf pt n = swab_loop m pf pt (nat (n div 2))"

end
