(* ===== verification/Messages.thy ===== *)
theory Messages
  imports Pcb Libc
begin

text \<open>
  c/msg.c, the rendezvous between processes. A sender or receiver whose partner is not ready is
  put in the partner's queue of blocked senders or receivers. The copy is \<open>strncpy\<close>.
\<close>

text \<open>Arguments of a blocked call, read from the stack of the process.\<close>

definition arg :: "pcbref \<Rightarrow> nat \<Rightarrow> kernel \<Rightarrow> u32" where
  "arg proc i s = read32 (args (procs s proc) + 4 * of_nat i) s"

definition copy_message :: "u32 \<Rightarrow> u32 \<Rightarrow> u32 \<Rightarrow> u32 \<Rightarrow> kernel \<Rightarrow> kernel" where
  "copy_message dest src len1 len2 s = s\<lparr>ram := strncpy (ram s) dest src (sint (min len1 len2))\<rparr>"

definition send :: "pcbref \<Rightarrow> pcbref \<Rightarrow> u32 \<Rightarrow> u32 \<Rightarrow> kernel \<Rightarrow> (int \<times> kernel) option" where
  "send srcproc destproc buffer len s = do {
     ASSERT (buffer \<noteq> 0 \<and> 0 < len);
     (ready, s) \<leftarrow> (if blocking_queue_name (procs s destproc) = RECEIVE_ANY then Some (1, s)
       else remove_proc_from_blocking_queue destproc (Some srcproc) RECEIVER s);
     (if ready \<noteq> 0 then do {
        let s = (if blocking_queue_name (procs s destproc) = RECEIVE_ANY
          then (let s = upd_proc destproc (\<lambda>c. c\<lparr>blocking_queue_name := NO_BLOCKER\<rparr>) s
                in write32 (arg destproc 0 s) (word_of_int (pid (procs s srcproc))) s)
          else s);
        let s = copy_message (arg destproc 1 s) buffer (arg destproc 2 s) len s;
        ASSERT (curr_state (procs s destproc) = PROC_STATE_BLOCKED);
        let s = set_ret destproc SYSPID_OK s;
        s \<leftarrow> add_pcb_to_queue destproc PROC_STATE_READY s;
        Some (SYSPID_OK, s)
      }
      else do {
        s \<leftarrow> add_proc_to_blocking_queue srcproc (Some destproc) SENDER s;
        Some (BLOCKERR, s)
      })
   }"

definition recv :: "pcbref \<Rightarrow> pcbref \<Rightarrow> u32 \<Rightarrow> u32 \<Rightarrow> kernel \<Rightarrow> (int \<times> kernel) option" where
  "recv srcproc destproc buffer len s = do {
     ASSERT (buffer \<noteq> 0 \<and> 0 < len);
     (n, s) \<leftarrow> remove_proc_from_blocking_queue srcproc (Some destproc) SENDER s;
     (if n \<noteq> 0 then do {
        let s = copy_message buffer (arg srcproc 1 s) (arg srcproc 2 s) len s;
        ASSERT (curr_state (procs s srcproc) = PROC_STATE_BLOCKED);
        let s = set_ret srcproc SYSPID_OK s;
        s \<leftarrow> add_pcb_to_queue srcproc PROC_STATE_READY s;
        Some (SYSPID_OK, s)
      }
      else do {
        s \<leftarrow> add_proc_to_blocking_queue destproc (Some srcproc) RECEIVER s;
        Some (BLOCKERR, s)
      })
   }"

definition recv_any :: "pcbref \<Rightarrow> u32 \<Rightarrow> u32 \<Rightarrow> kernel \<Rightarrow> (int \<times> kernel) option" where
  "recv_any destproc buffer len s = do {
     ASSERT (buffer \<noteq> 0 \<and> 0 < len);
     (case blocking_queue_heads (procs s destproc) SENDER of
        Some srcproc \<Rightarrow> do {
          (n, s) \<leftarrow> remove_proc_from_blocking_queue srcproc (Some destproc) SENDER s;
          (if n = 0 then Some (SYSERR_OTHER, s)
           else do {
             let s = write32 (arg destproc 0 s) (word_of_int (pid (procs s srcproc))) s;
             let s = copy_message buffer (arg srcproc 1 s) (arg srcproc 2 s) len s;
             ASSERT (curr_state (procs s srcproc) = PROC_STATE_BLOCKED);
             let s = set_ret srcproc SYSPID_OK s;
             s \<leftarrow> add_pcb_to_queue srcproc PROC_STATE_READY s;
             Some (SYSPID_OK, s)
           })
        }
      | None \<Rightarrow> Some (BLOCKERR, upd_proc destproc (\<lambda>c. c\<lparr>blocking_queue_name := RECEIVE_ANY\<rparr>) s))
   }"

end
