(* ===== verification/Copyinout.thy ===== *)
theory Copyinout
  imports Kernel
begin

text \<open>
  c/copyinout.c, the checks on pointers a process hands to the kernel. Addresses are compared as
  signed \<open>long\<close>, as the source does; the sum of address and length wraps.
\<close>

definition falls_in_hole :: "int \<Rightarrow> bool" where
  "falls_in_hole addr \<longleftrightarrow> addr \<ge> HOLESTART \<and> addr < HOLEEND"

definition falls_in_kstack :: "int \<Rightarrow> kernel \<Rightarrow> bool" where
  "falls_in_kstack addr s \<longleftrightarrow>
     addr \<ge> kmem_freemem (heap s) - KERNEL_STACK \<and> addr < kmem_freemem (heap s)"

definition verify_usrptr :: "u32 \<Rightarrow> int \<Rightarrow> kernel \<Rightarrow> int option" where
  "verify_usrptr usrptr len s = do {
     ASSERT (0 < len \<and> len < KERNEL_STACK);
     let addr = sint usrptr;
     let end_addr = s32 (s32 (addr + len) - 1);
     (if addr \<le> 0 \<or> end_addr > kmem_maxaddr (heap s) then Some EINVAL
      else if falls_in_hole addr \<or> falls_in_hole end_addr \<or>
              falls_in_kstack addr s \<or> falls_in_kstack end_addr s then Some EINVAL
      else Some OK)
   }"

partial_function (option) verify_usrstr :: "u32 \<Rightarrow> kernel \<Rightarrow> int option" where
  "verify_usrstr str s = do {
     r \<leftarrow> verify_usrptr str 1 s;
     (if r \<noteq> OK then Some r
      else if ram s str \<noteq> 0 then verify_usrstr (str + 1) s
      else Some OK)
   }"

end
