(* ===== verification/Doprnt.thy ===== *)
theory Doprnt
  imports Libc
begin

text \<open>
  lib/libxc/doprnt.c, the formatter behind \<open>kprintf\<close> and \<open>sprintf\<close>: its value is the sequence of
  characters it hands to \<open>func\<close>. \<open>args\<close> are the words after the format on the caller's stack. The
  file is compiled without \<open>INT_NOT_LONG\<close>, so every number takes the \<open>long\<close> routines. The
  conversion buffer \<open>string\<close> has 20 bytes; a longer conversion overruns the stack frame,
  which is \<open>None\<close> here, as is a format or string without a terminator.
\<close>

subsection \<open>Digits\<close>

text \<open>
  The common shape of the six routines: \<open>temp\<close> is filled with the low digits first, the loop
  \<open>for(i = n; temp[i] == '0'; i--)\<close> drops leading zeros but keeps one digit, and the rest is
  written from the highest digit down.
\<close>

fun fill_digits :: "('n \<Rightarrow> u8) \<Rightarrow> ('n \<Rightarrow> 'n) \<Rightarrow> nat \<Rightarrow> 'n \<Rightarrow> u8 list" where
  "fill_digits dig shift 0 num = []"
| "fill_digits dig shift (Suc n) num = dig num # fill_digits dig shift n (shift num)"

definition strip_digits :: "u8 list \<Rightarrow> u8 list" where
  "strip_digits temp =
     (let ds = dropWhile (\<lambda>c. c = 0x30) (rev temp)
      in if ds = [] then [hd temp] else ds)"

definition hex_digit :: "u32 \<Rightarrow> u8" where
  "hex_digit d = (if d < 10 then 0x30 + ucast d else 0x61 + ucast d - 10)"

definition prt10 :: "u32 \<Rightarrow> u8 list" where
  "prt10 num = strip_digits (fill_digits (\<lambda>n. 0x30 + ucast (n mod 10)) (\<lambda>n. n div 10) 5 num)"

text \<open>A \<open>long\<close> divided by 10 rounds toward zero; the remainder has the sign of the number.\<close>

definition tdiv10 :: "int \<Rightarrow> int" where
  "tdiv10 n = (if n < 0 then - ((- n) div 10) else n div 10)"

definition trem10 :: "int \<Rightarrow> int" where
  "trem10 n = (if n < 0 then - ((- n) mod 10) else n mod 10)"

definition prtl10 :: "int \<Rightarrow> u8 list" where
  "prtl10 num = strip_digits (fill_digits (\<lambda>n. word_of_int (trem10 n) + 0x30) tdiv10 10 num)"

text \<open>The octal routines keep one bit, or two, of the highest digit.\<close>

definition mask_last :: "u8 \<Rightarrow> u8 list \<Rightarrow> u8 list" where
  "mask_last k temp = butlast temp @ [last temp AND k]"

definition prt8 :: "u32 \<Rightarrow> u8 list" where
  "prt8 num = strip_digits (mask_last 0x31
     (fill_digits (\<lambda>n. ucast (n AND 7) + 0x30) (\<lambda>n. drop_bit 3 n AND 0x3FFF) 6 num))"

text \<open>The shift of a negative \<open>long\<close> copies the sign; \<open>signed_drop_bit\<close> on the word does so.\<close>

definition prtl8 :: "u32 \<Rightarrow> u8 list" where
  "prtl8 num = strip_digits (mask_last 0x33
     (fill_digits (\<lambda>n. ucast (n AND 7) + 0x30) (signed_drop_bit 3) 11 num))"

definition prt16 :: "u32 \<Rightarrow> u8 list" where
  "prt16 num = strip_digits (fill_digits (\<lambda>n. hex_digit (n AND 0x0F)) (drop_bit 4) 4 num)"

definition prtl16 :: "u32 \<Rightarrow> u8 list" where
  "prtl16 num = strip_digits (fill_digits (\<lambda>n. hex_digit (n AND 0x0F)) (signed_drop_bit 4) 8 num)"

definition bit_digit :: "u32 \<Rightarrow> u8" where
  "bit_digit n = (if n AND 1 = 0 then 0x30 else 0x31)"

definition prt2 :: "u32 \<Rightarrow> u8 list" where
  "prt2 num = strip_digits (fill_digits bit_digit (drop_bit 1) 16 num)"

definition prtl2 :: "u32 \<Rightarrow> u8 list" where
  "prtl2 num = strip_digits (fill_digits bit_digit (signed_drop_bit 1) 32 num)"

text \<open>
  The unsigned decimal: a number with the top bit set has 1000000000 taken off until it is a
  non-negative \<open>long\<close>, and the count is added to the first digit.
\<close>

partial_function (option) split_billions :: "int \<Rightarrow> u8 \<Rightarrow> (int \<times> u8) option" where
  "split_billions n lead =
     (if n < 0 then split_billions (s32 (n - 1000000000)) (lead + 1) else Some (n, lead))"

definition print_unsigned :: "int \<Rightarrow> u8 list option" where
  "print_unsigned n = do {
     (n, lead) \<leftarrow> split_billions n 0;
     (case prtl10 n of
        [] \<Rightarrow> None
      | d # ds \<Rightarrow> Some ((d + lead) # ds))
   }"

subsection \<open>The conversion specification\<close>

record fmt_spec =
  sp_leftjust :: bool
  sp_fill :: u8
  sp_fmin :: int
  sp_fmax :: int

partial_function (option) fmt_number :: "bytes \<Rightarrow> u32 \<Rightarrow> int \<Rightarrow> (int \<times> u32) option" where
  "fmt_number m fmt n =
     (if is_digit (m fmt) then fmt_number m (fmt + 1) (s32 (n * 10 + sint (m fmt) - 48))
      else Some (n, fmt))"

text \<open>A width: \<open>*\<close> takes the next argument, otherwise digits.\<close>

definition fmt_width :: "bytes \<Rightarrow> (nat \<Rightarrow> u32) \<Rightarrow> u32 \<Rightarrow> nat \<Rightarrow> (int \<times> u32 \<times> nat) option" where
  "fmt_width m args fmt n =
     (if m fmt = 0x2A then Some (sint (args n), fmt + 1, n + 1)
      else map_option (\<lambda>(k, fmt). (k, fmt, n)) (fmt_number m fmt 0))"

definition parse_spec :: "bytes \<Rightarrow> (nat \<Rightarrow> u32) \<Rightarrow> u32 \<Rightarrow> nat \<Rightarrow> (fmt_spec \<times> u32 \<times> nat) option" where
  "parse_spec m args fmt n = do {
     let leftjust = (m fmt = 0x2D);
     let fmt = (if leftjust then fmt + 1 else fmt);
     let fill = (if m fmt = 0x30 then 0x30 else 0x20);
     let fmt = (if m fmt = 0x30 then fmt + 1 else fmt);
     (fmin, fmt, n) \<leftarrow> fmt_width m args fmt n;
     (fmax, fmt, n) \<leftarrow> (if m fmt = 0x2E then fmt_width m args (fmt + 1) n else Some (0, fmt, n));
     let fmt = (if m fmt = 0x6C then fmt + 1 else fmt);
     Some (\<lparr>sp_leftjust = leftjust, sp_fill = fill, sp_fmin = fmin, sp_fmax = fmax\<rparr>, fmt, n)
   }"

subsection \<open>Conversion\<close>

text \<open>The characters of a string argument.\<close>

partial_function (option) cstring :: "bytes \<Rightarrow> u32 \<Rightarrow> u8 list option" where
  "cstring m p =
     (if m p = 0 then Some [] else do { cs \<leftarrow> cstring m (p + 1); Some (m p # cs) })"

definition fits_string :: "u8 list \<Rightarrow> u8 list option" where
  "fits_string cs = (if length cs < 20 then Some cs else None)"

text \<open>
  One conversion: characters sent at once (an unknown letter), the new contents of \<open>string\<close>, the
  characters to print, whether a minus sign precedes them, and the specification after
  the case's changes to \<open>fill\<close> and \<open>fmax\<close>. An unknown letter prints what \<open>string\<close> held before.
\<close>

definition convert :: "bytes \<Rightarrow> u8 \<Rightarrow> u32 \<Rightarrow> u8 list \<Rightarrow> fmt_spec \<Rightarrow>
    (u8 list \<times> u8 list \<times> u8 list \<times> bool \<times> fmt_spec) option" where
  "convert m f a string sp = (
     let number = (\<lambda>sign cs. do {
           cs \<leftarrow> cs;
           string \<leftarrow> fits_string cs;
           Some ([], string, string, sign, sp\<lparr>sp_fmax := 0\<rparr>)
         })
     in if f = 0x63 then
          (let string = (if (ucast a :: u8) = 0 then [] else [ucast a])
           in Some ([], string, string, False, sp\<lparr>sp_fmax := 0, sp_fill := 0x20\<rparr>))
        else if f = 0x73 then
          map_option (\<lambda>cs. ([], string, cs, False, sp\<lparr>sp_fill := 0x20\<rparr>)) (cstring m a)
        else if f = 0x44 \<or> f = 0x64 then
          number (sint a < 0) (print_unsigned (if sint a < 0 then s32 (- sint a) else sint a))
        else if f = 0x55 \<or> f = 0x75 then number False (print_unsigned (sint a))
        else if f = 0x4F \<or> f = 0x6F then number False (Some (prtl8 a))
        else if f = 0x58 \<or> f = 0x78 then number False (Some (prtl16 a))
        else if f = 0x42 \<or> f = 0x62 then number False (Some (prtl2 a))
        else Some ([f], string, string, False, sp))"

definition MAXSTR :: int where "MAXSTR = 80"

definition clip :: "int \<Rightarrow> int" where
  "clip n = (if n > MAXSTR \<or> n < 0 then 0 else n)"

text \<open>Width, padding and sign.\<close>

definition layout :: "u8 list \<Rightarrow> bool \<Rightarrow> fmt_spec \<Rightarrow> u8 list" where
  "layout cs sign sp = (
     let fmin = clip (sp_fmin sp);
         fmax = clip (sp_fmax sp);
         length0 = int (length cs);
         len = (if fmax \<noteq> 0 \<and> length0 > fmax then fmax else length0);
         leading = (if fmax \<noteq> 0 \<or> fmin \<noteq> 0
                    then (if fmin \<noteq> 0 then fmin - len else 0) - (if sign then 1 else 0) else 0);
         pad = replicate (nat leading) (sp_fill sp)
     in (if sign \<and> sp_fill sp = 0x30 then [0x2D] else []) @
        (if sp_leftjust sp then [] else pad) @
        (if sign \<and> sp_fill sp = 0x20 then [0x2D] else []) @
        take (nat len) cs @
        (if sp_leftjust sp then pad else []))"

subsection \<open>The formatter\<close>

partial_function (option) doprnt_loop ::
  "bytes \<Rightarrow> (nat \<Rightarrow> u32) \<Rightarrow> u32 \<Rightarrow> nat \<Rightarrow> u8 list \<Rightarrow> u8 list \<Rightarrow> u8 list option" where
  "doprnt_loop m args fmt n string out =
     (if m fmt \<noteq> 0x25 then
        (if m fmt = 0 then Some out
         else doprnt_loop m args (fmt + 1) n string (out @ [m fmt]))
      else if m (fmt + 1) = 0x25 then doprnt_loop m args (fmt + 2) n string (out @ [0x25])
      else do {
        (sp, fmt, n) \<leftarrow> parse_spec m args (fmt + 1) n;
        (if m fmt = 0 then Some (out @ [0x25])
         else do {
           (now, string, cs, sign, sp) \<leftarrow> convert m (m fmt) (args n) string sp;
           doprnt_loop m args (fmt + 1) (n + 1) string (out @ now @ layout cs sign sp)
         })
      })"

text \<open>\<open>string0\<close> is what the uninitialised buffer holds at the call.\<close>

definition doprnt :: "bytes \<Rightarrow> u32 \<Rightarrow> (nat \<Rightarrow> u32) \<Rightarrow> u8 list \<Rightarrow> u8 list option" where
  "doprnt m fmt args string0 = doprnt_loop m args fmt 0 string0 []"

text \<open>
  \<open>sprintf\<close>: the characters go to memory one by one, then a terminator. The destination is taken
  not to overlap the format and the strings it prints.
\<close>

fun write_chars :: "bytes \<Rightarrow> u32 \<Rightarrow> u8 list \<Rightarrow> bytes" where
  "write_chars m p [] = m"
| "write_chars m p (c # cs) = write_chars (m(p := c)) (p + 1) cs"

definition sprintf :: "bytes \<Rightarrow> u32 \<Rightarrow> u32 \<Rightarrow> (nat \<Rightarrow> u32) \<Rightarrow> u8 list \<Rightarrow> (bytes \<times> u32) option" where
  "sprintf m str fmt args string0 = do {
     cs \<leftarrow> doprnt m fmt args string0;
     let e = str + of_nat (length cs);
     Some ((write_chars m str cs)(e := 0), e + 1)
   }"

end
