(* ===== verification/Dispatch.thy ===== *)
theory Dispatch
  imports Ctsw Messages Copyinout Doprnt
begin

text \<open>
  c/disp.c, the dispatcher: one pass of its endless loop switches to the current process, and
  handles the interrupt or system call that brings control back. A handler that returns a value
  in C returns it here, and the loop stores it in \<open>currproc->ret\<close>.
\<close>

subsection \<open>Request numbers\<close>

datatype syscall_request_id =
  TIMER_INT | KEYBOARD_INT | SYSCALL_CREATE | SYSCALL_YIELD | SYSCALL_STOP | SYSCALL_GETPID
| SYSCALL_KILL | SYSCALL_WAIT | SYSCALL_PUTS | SYSCALL_SEND | SYSCALL_RECV | SYSCALL_SLEEP
| SYSCALL_CPUTIMES | SYSCALL_SIGHANDLER | SYSCALL_SIGRETURN | SYSCALL_OPEN | SYSCALL_CLOSE
| SYSCALL_WRITE | SYSCALL_READ | SYSCALL_IOCTL

definition request_ids :: "syscall_request_id list" where
  "request_ids = [TIMER_INT, KEYBOARD_INT, SYSCALL_CREATE, SYSCALL_YIELD, SYSCALL_STOP,
     SYSCALL_GETPID, SYSCALL_KILL, SYSCALL_WAIT, SYSCALL_PUTS, SYSCALL_SEND, SYSCALL_RECV,
     SYSCALL_SLEEP, SYSCALL_CPUTIMES, SYSCALL_SIGHANDLER, SYSCALL_SIGRETURN, SYSCALL_OPEN,
     SYSCALL_CLOSE, SYSCALL_WRITE, SYSCALL_READ, SYSCALL_IOCTL]"

text \<open>Any other number makes the dispatcher's \<open>default\<close> branch assert.\<close>

definition request_of_num :: "u32 \<Rightarrow> syscall_request_id option" where
  "request_of_num n =
     (if unat n < length request_ids then Some (request_ids ! unat n) else None)"

subsection \<open>Helpers\<close>

abbreviation cur :: "kernel \<Rightarrow> pcb" where "cur s \<equiv> procs s (currproc s)"

definition carg :: "nat \<Rightarrow> kernel \<Rightarrow> u32" where
  "carg i s = arg (currproc s) i s"

definition ret_cur :: "int \<Rightarrow> kernel \<Rightarrow> kernel" where
  "ret_cur v s = set_ret (currproc s) v s"

definition block_cur :: "kernel \<Rightarrow> kernel" where
  "block_cur s = upd_proc (currproc s) (\<lambda>c. c\<lparr>curr_state := PROC_STATE_BLOCKED\<rparr>) s"

text \<open>\<open>currproc = get_next_proc()\<close>.\<close>

definition switch_proc :: "kernel \<Rightarrow> kernel option" where
  "switch_proc s = do {
     (p, s) \<leftarrow> get_next_proc s;
     Some (s\<lparr>currproc := p\<rparr>)
   }"

text \<open>\<open>currproc->ret = f()\<close>.\<close>

definition store_ret :: "(kernel \<Rightarrow> (int \<times> kernel) option) \<Rightarrow> kernel \<Rightarrow> kernel option" where
  "store_ret f s = do { (r, s) \<leftarrow> f s; Some (ret_cur r s) }"

subsection \<open>Handlers\<close>

definition timer_handler :: "kernel \<Rightarrow> kernel option" where
  "timer_handler s = do {
     let s = upd_proc (currproc s) (\<lambda>c. c\<lparr>cpu_time := s32 (cpu_time c + 1)\<rparr>) s;
     s \<leftarrow> tick s;
     s \<leftarrow> add_pcb_to_queue (currproc s) PROC_STATE_READY s;
     s \<leftarrow> switch_proc s;
     Some (s\<lparr>io := end_of_intr (io s)\<rparr>)
   }"

definition keyboard_handler :: "kernel \<Rightarrow> kernel option" where
  "keyboard_handler s = do {
     s \<leftarrow> keyboard_isr s;
     Some (s\<lparr>io := end_of_intr (io s)\<rparr>)
   }"

definition dispatch_syscall_create :: "kernel \<Rightarrow> (int \<times> kernel) option" where
  "dispatch_syscall_create s = do {
     let func = carg 0 s;
     let stack = sint (carg 1 s);
     result \<leftarrow> verify_usrptr func 4 s;
     (if result \<noteq> OK then Some (result, s) else create func stack s)
   }"

definition dispatch_syscall_yield :: "kernel \<Rightarrow> kernel option" where
  "dispatch_syscall_yield s = do {
     s \<leftarrow> add_pcb_to_queue (currproc s) PROC_STATE_READY s;
     switch_proc s
   }"

definition dispatch_syscall_stop :: "kernel \<Rightarrow> kernel option" where
  "dispatch_syscall_stop s = do {
     s \<leftarrow> cleanup_proc (currproc s) s;
     switch_proc s
   }"

definition dispatch_syscall_kill :: "kernel \<Rightarrow> (int \<times> kernel) option" where
  "dispatch_syscall_kill s =
     (case pid_to_proc (sint (carg 0 s)) s of
        None \<Rightarrow> Some (SYSKILL_TARGET_DNE, s)
      | Some proc \<Rightarrow> set_proc_signal proc (sint (carg 1 s)) s)"

definition dispatch_syscall_wait :: "kernel \<Rightarrow> kernel option" where
  "dispatch_syscall_wait s =
     (case pid_to_proc (sint (carg 0 s)) s of
        None \<Rightarrow> Some (ret_cur SYSPID_DNE s)
      | Some proc_to_wait_on \<Rightarrow> do {
          let s = block_cur s;
          s \<leftarrow> add_proc_to_blocking_queue (currproc s) (Some proc_to_wait_on) WAITING s;
          let s = ret_cur 0 s;
          switch_proc s
        })"

text \<open>\<open>kprintf(str)\<close>: the user's string is the format, the kernel's stack its arguments.\<close>

definition kprintf_user :: "u32 \<Rightarrow> kernel \<Rightarrow> kernel option" where
  "kprintf_user str s =
     map_option (\<lambda>cs. put_chars cs s) (doprnt (ram s) str (stack_junk (image s)) [])"

definition dispatch_syscall_puts :: "kernel \<Rightarrow> kernel option" where
  "dispatch_syscall_puts s = do {
     let str = carg 0 s;
     result \<leftarrow> verify_usrstr str s;
     (if result = OK then kprintf_user str s else Some s)
   }"

definition dispatch_syscall_send :: "kernel \<Rightarrow> kernel option" where
  "dispatch_syscall_send s = do {
     let dest_pid = sint (carg 0 s);
     let buffer = carg 1 s;
     let len = carg 2 s;
     (if dest_pid = pid (cur s) then Some (ret_cur SYSPID_ME s)
      else do {
        bad \<leftarrow> (if len = 0 then Some True
          else map_option (\<lambda>r. r \<noteq> OK) (verify_usrptr buffer (sint len) s));
        (if bad then Some (ret_cur SYSERR_OTHER s)
         else (case pid_to_proc dest_pid s of
             None \<Rightarrow> Some (ret_cur SYSPID_DNE s)
           | Some destproc \<Rightarrow> do {
               s \<leftarrow> store_ret (send (currproc s) destproc buffer len) s;
               (if ret (cur s) = BLOCKERR then switch_proc (ret_cur SYSPID_DNE (block_cur s))
                else Some s)
             }))
      })
   }"

definition dispatch_syscall_recv :: "kernel \<Rightarrow> kernel option" where
  "dispatch_syscall_recv s = do {
     let from_pid = carg 0 s;
     let buffer = carg 1 s;
     let len = carg 2 s;
     bad \<leftarrow> do {
       r \<leftarrow> verify_usrptr from_pid 4 s;
       (if r \<noteq> OK then Some True
        else if len = 0 then Some True
        else map_option (\<lambda>r. r \<noteq> OK) (verify_usrptr buffer (sint len) s))
     };
     (if bad then Some (ret_cur SYSERR_OTHER s)
      else do {
        let from_n = sint (read32 from_pid s);
        (if from_n = pid (cur s) then Some (ret_cur SYSPID_ME s)
         else if from_n \<noteq> 0 \<and> pid_to_proc from_n s = None then Some (ret_cur SYSPID_DNE s)
         else do {
           s \<leftarrow> (if from_n = 0 then store_ret (recv_any (currproc s) buffer len) s
                else do {
                  srcproc \<leftarrow> pid_to_proc from_n s;
                  store_ret (recv srcproc (currproc s) buffer len) s
                });
           (if ret (cur s) = BLOCKERR then switch_proc (ret_cur SYSPID_DNE (block_cur s))
            else Some s)
         })
      })
   }"

definition dispatch_syscall_sleep :: "kernel \<Rightarrow> kernel option" where
  "dispatch_syscall_sleep s =
     (let milliseconds = carg 0 s
      in if milliseconds = 0 then Some s
         else do {
           s \<leftarrow> sleep (currproc s) milliseconds s;
           switch_proc s
         })"

definition dispatch_syscall_getcputimes :: "kernel \<Rightarrow> (int \<times> kernel) option" where
  "dispatch_syscall_getcputimes s = do {
     let ps = carg 0 s;
     r \<leftarrow> verify_usrptr ps sizeof_processStatuses s;
     (if r \<noteq> OK then Some (-1, s) else get_all_proc_info ps s)
   }"

definition dispatch_syscall_sighandler :: "kernel \<Rightarrow> (int \<times> kernel) option" where
  "dispatch_syscall_sighandler s = do {
     let sig = sint (carg 0 s);
     let new_handler = carg 1 s;
     let old_handler = carg 2 s;
     (if sig < 0 \<or> sig \<ge> int SIGNAL_TABLE_SIZE then Some (SYSHANDLER_INVALID_SIGNAL, s)
      else do {
        bad \<leftarrow> (if new_handler \<noteq> 0 then map_option (\<lambda>r. r \<noteq> OK) (verify_usrptr new_handler 4 s)
               else Some False);
        bad \<leftarrow> (if bad then Some True else map_option (\<lambda>r. r \<noteq> OK) (verify_usrptr old_handler 4 s));
        (if bad then Some (SYSHANDLER_INVALID_FUNCPTR, s)
         else do {
           let slot = signal_slot (cur s) (nat sig);
           let s = write32 old_handler (read32 slot s) s;
           Some (0, write32 slot new_handler s)
         })
      })
   }"

definition dispatch_syscall_sigreturn :: "kernel \<Rightarrow> kernel option" where
  "dispatch_syscall_sigreturn s = do {
     let old_sp = carg 0 s;
     r \<leftarrow> verify_usrptr old_sp 4 s;
     (if r \<noteq> OK then do {
        s \<leftarrow> cleanup_proc (currproc s) s;
        switch_proc s
      }
      else
        (let s = ret_cur (sint (read32 (old_sp - 4) s)) s
         in Some (upd_proc (currproc s) (\<lambda>c. c\<lparr>esp := old_sp, signals_enabled := 1\<rparr>) s)))
   }"

definition dispatch_syscall_open :: "kernel \<Rightarrow> kernel option" where
  "dispatch_syscall_open s = store_ret (di_open (currproc s) (sint (carg 0 s))) s"

definition dispatch_syscall_close :: "kernel \<Rightarrow> kernel option" where
  "dispatch_syscall_close s = store_ret (di_close (currproc s) (sint (carg 0 s))) s"

text \<open>The value \<open>SYSERR\<close> for a bad buffer is stored, and then the write is made all the same.\<close>

definition dispatch_syscall_write :: "kernel \<Rightarrow> kernel option" where
  "dispatch_syscall_write s = do {
     let fd = sint (carg 0 s);
     let buf = carg 1 s;
     let buflen = sint (carg 2 s);
     result \<leftarrow> verify_usrptr buf buflen s;
     let s = (if result \<noteq> OK then ret_cur SYSERR s else s);
     store_ret (di_write (currproc s) fd buf buflen) s
   }"

definition dispatch_syscall_read :: "kernel \<Rightarrow> kernel option" where
  "dispatch_syscall_read s = do {
     let fd = sint (carg 0 s);
     let buf = carg 1 s;
     let buflen = sint (carg 2 s);
     result \<leftarrow> verify_usrptr buf buflen s;
     (if result \<noteq> OK then Some (ret_cur SYSERR s)
      else do {
        s \<leftarrow> store_ret (di_read (currproc s) fd buf buflen) s;
        (if ret (cur s) = BLOCKERR then
           switch_proc (upd_proc (currproc s) (\<lambda>c. c\<lparr>blocking_queue_name := DEVICE\<rparr>) (block_cur s))
         else Some s)
      })
   }"

definition dispatch_syscall_ioctl :: "kernel \<Rightarrow> kernel option" where
  "dispatch_syscall_ioctl s =
     store_ret (di_ioctl (currproc s) (sint (carg 0 s)) (carg 1 s) (carg 2 s)) s"

subsection \<open>The loop\<close>

definition handle_request :: "syscall_request_id \<Rightarrow> kernel \<Rightarrow> kernel option" where
  "handle_request request s = (case request of
       TIMER_INT \<Rightarrow> timer_handler s
     | KEYBOARD_INT \<Rightarrow> keyboard_handler s
     | SYSCALL_CREATE \<Rightarrow> store_ret dispatch_syscall_create s
     | SYSCALL_YIELD \<Rightarrow> dispatch_syscall_yield s
     | SYSCALL_STOP \<Rightarrow> dispatch_syscall_stop s
     | SYSCALL_GETPID \<Rightarrow> Some (ret_cur (pid (cur s)) s)
     | SYSCALL_KILL \<Rightarrow> store_ret dispatch_syscall_kill s
     | SYSCALL_WAIT \<Rightarrow> dispatch_syscall_wait s
     | SYSCALL_PUTS \<Rightarrow> dispatch_syscall_puts s
     | SYSCALL_SEND \<Rightarrow> dispatch_syscall_send s
     | SYSCALL_RECV \<Rightarrow> dispatch_syscall_recv s
     | SYSCALL_SLEEP \<Rightarrow> dispatch_syscall_sleep s
     | SYSCALL_CPUTIMES \<Rightarrow> store_ret dispatch_syscall_getcputimes s
     | SYSCALL_SIGHANDLER \<Rightarrow> store_ret dispatch_syscall_sighandler s
     | SYSCALL_SIGRETURN \<Rightarrow> dispatch_syscall_sigreturn s
     | SYSCALL_OPEN \<Rightarrow> dispatch_syscall_open s
     | SYSCALL_CLOSE \<Rightarrow> dispatch_syscall_close s
     | SYSCALL_WRITE \<Rightarrow> dispatch_syscall_write s
     | SYSCALL_READ \<Rightarrow> dispatch_syscall_read s
     | SYSCALL_IOCTL \<Rightarrow> dispatch_syscall_ioctl s)"

definition dispatch_step :: "user_event \<Rightarrow> kernel \<Rightarrow> kernel option" where
  "dispatch_step ev s = do {
     (n, s) \<leftarrow> ctsw_contextswitch ev (currproc s) s;
     request \<leftarrow> request_of_num n;
     handle_request request s
   }"

definition dispatch_start :: "u32 \<Rightarrow> kernel \<Rightarrow> kernel option" where
  "dispatch_start root_proc s = do {
     (_, s) \<leftarrow> create root_proc DEFAULT_STACK_SIZE s;
     switch_proc s
   }"

definition dispinit :: "kernel \<Rightarrow> kernel option" where
  "dispinit s = pcb_table_init s"

text \<open>The loop run over a sequence of what the processes do.\<close>

definition dispatch_run :: "u32 \<Rightarrow> user_event list \<Rightarrow> kernel \<Rightarrow> kernel option" where
  "dispatch_run root_proc evs s = do {
     s \<leftarrow> dispatch_start root_proc s;
     for_each dispatch_step evs s
   }"

end
