(* ===== verification/Mem_Proofs.thy ===== *)
theory Mem_Proofs
  imports Mem
begin

text \<open>
  The list surgery of c/mem.c against abstract lists: the chain of headers as a list of
  addresses, the heap invariant, first fit for \<open>kmalloc\<close>, insertion and merging for \<open>kfree\<close>.
\<close>

subsection \<open>The free list as a list of blocks\<close>

abbreviation chain :: "mem_state \<Rightarrow> u32 \<Rightarrow> u32 list \<Rightarrow> u32 \<Rightarrow> bool" where
  "chain s \<equiv> links (\<lambda>a. a) (\<lambda>a. mh_prev (headers s a)) (\<lambda>a. mh_next (headers s a))"

definition free_list :: "mem_state \<Rightarrow> u32 list \<Rightarrow> bool" where
  "free_list s xs \<longleftrightarrow>
     g_free_list s = headp (\<lambda>a. a) xs 0 \<and> chain s 0 xs 0 \<and> 0 \<notin> set xs \<and> distinct xs"

abbreviation bsize :: "mem_state \<Rightarrow> u32 \<Rightarrow> nat" where
  "bsize s a \<equiv> unat (mh_size (headers s a))"

lemma upd_header_simps [simp]:
  "headers (upd_header a f s) = (headers s)(a := f (headers s a))"
  "g_free_list (upd_header a f s) = g_free_list s"
  "maxaddr (upd_header a f s) = maxaddr s"
  "freemem (upd_header a f s) = freemem s"
  by (simp_all add: upd_header_def)

lemma headp_id_0 [simp]: "0 \<notin> set xs \<Longrightarrow> headp (\<lambda>a. a) xs 0 = (0 :: u32) \<longleftrightarrow> xs = []"
  by (cases xs) auto

lemma lastp_id_0 [simp]: "0 \<notin> set xs \<Longrightarrow> lastp (\<lambda>a. a) 0 xs = (0 :: u32) \<longleftrightarrow> xs = []"
  by (auto simp: lastp_conv dest: last_in_set)

lemma free_list_neighbours:
  assumes "free_list s (as @ c # bs)"
  shows "mh_prev (headers s c) = lastp (\<lambda>a. a) 0 as" "mh_next (headers s c) = headp (\<lambda>a. a) bs 0"
    and "c \<noteq> 0" "0 \<notin> set as" "0 \<notin> set bs" "c \<notin> set as" "c \<notin> set bs" "distinct (as @ bs)"
  using assms links_middle [where as = as and c = c and bs = bs] by (auto simp: free_list_def)

lemma unlink_block_fields:
  assumes "free_list s (as @ c # bs)"
  shows "mh_prev (headers (unlink_block c s) x) =
      (if bs \<noteq> [] \<and> x = hd bs then lastp (\<lambda>a. a) 0 as else mh_prev (headers s x))"
    and "mh_next (headers (unlink_block c s) x) =
      (if as \<noteq> [] \<and> x = last as then headp (\<lambda>a. a) bs 0 else mh_next (headers s x))"
    and "mh_size (headers (unlink_block c s) x) = mh_size (headers s x)"
    and "mh_sanity (headers (unlink_block c s) x) = mh_sanity (headers s x)"
    and "g_free_list (unlink_block c s) = headp (\<lambda>a. a) (as @ bs) 0"
    and "maxaddr (unlink_block c s) = maxaddr s" "freemem (unlink_block c s) = freemem s"
  using free_list_neighbours [OF assms] assms unfolding unlink_block_def Let_def free_list_def
  by (cases as rule: rev_cases; cases bs; auto simp: link_simps)+

lemma unlink_block_free_list:
  assumes "free_list s (as @ c # bs)"
  shows "free_list (unlink_block c s) (as @ bs)"
proof -
  have "chain s 0 (as @ c # bs) 0" using assms by (simp add: free_list_def)
  then have "chain (unlink_block c s) 0 (as @ bs) 0"
    by (rule links_remove)
      (simp_all add: unlink_block_fields [OF assms] free_list_neighbours(8) [OF assms, simplified])
  then show ?thesis
    using free_list_neighbours [OF assms] unlink_block_fields(5) [OF assms]
    by (simp add: free_list_def)
qed

lemma split_free_block_same:
  "block \<noteq> 0 \<Longrightarrow> mh_size (headers s block) = sz \<Longrightarrow> split_free_block block sz s = Some s"
  by (simp add: split_free_block_def)

text \<open>A proper split puts the rest of the block behind it.\<close>

lemma split_free_block_proper:
  assumes f: "free_list s (as @ c # bs)" and sz: "sz < mh_size (headers s c)"
    and r: "c + sz \<noteq> 0" "c + sz \<notin> set (as @ c # bs)"
  obtains s' where "split_free_block c sz s = Some s'"
    and "free_list s' (as @ c # (c + sz) # bs)"
    and "\<And>x. mh_size (headers s' x) = (if x = c then sz
           else if x = c + sz then mh_size (headers s c) - sz else mh_size (headers s x))"
    and "\<And>x. mh_sanity (headers s' x) = (if x = c + sz then 0 else mh_sanity (headers s x))"
    and "maxaddr s' = maxaddr s" and "freemem s' = freemem s"
proof -
  note nb = free_list_neighbours [OF f]
  obtain s' where s': "split_free_block c sz s = Some s'"
    using nb(3) less_imp_le [OF sz] less_imp_neq [OF sz, symmetric]
    by (cases "split_free_block c sz s") (auto simp: split_free_block_def Let_def)
  have prv: "mh_prev (headers s' x) = (if x = c + sz then c
      else if bs \<noteq> [] \<and> x = hd bs then c + sz else mh_prev (headers s x))"
    and nxt: "mh_next (headers s' x) = (if x = c then c + sz
      else if x = c + sz then headp (\<lambda>a. a) bs 0 else mh_next (headers s x))"
    and size: "mh_size (headers s' x) = (if x = c then sz
      else if x = c + sz then mh_size (headers s c) - sz else mh_size (headers s x))"
    and sanity: "mh_sanity (headers s' x) = (if x = c + sz then 0 else mh_sanity (headers s x))"
    and rest: "maxaddr s' = maxaddr s" "freemem s' = freemem s" "g_free_list s' = g_free_list s" for x
    using s' nb sz r unfolding split_free_block_def Let_def
    by (cases bs; auto simp: ASSERT_def split: if_splits)+
  have "chain s 0 ((as @ [c]) @ bs) 0" using f by (simp add: free_list_def)
  then have "chain s' 0 ((as @ [c]) @ (c + sz) # bs) 0"
    by (rule links_insert)
      (use nb r f in \<open>auto simp: prv nxt lastp_append free_list_def dest: hd_in_set\<close>)
  then have "free_list s' (as @ c # (c + sz) # bs)"
    using f r rest nb by (auto simp: free_list_def headp_append)
  then show ?thesis using that s' size sanity rest by blast
qed

text \<open>The block that \<open>kmalloc\<close> cuts out of the free block \<open>c\<close>.\<close>

lemma kmalloc_take_free_list:
  assumes f: "free_list s (as @ c # bs)" and sz: "sz \<le> mh_size (headers s c)"
    and r: "sz < mh_size (headers s c) \<Longrightarrow> c + sz \<noteq> 0 \<and> c + sz \<notin> set (as @ c # bs)"
    and al: "data_start c AND 0xf = 0"
  obtains s' where "kmalloc_take sz c s = Some (data_start c, s')"
    and "free_list s' (as @ (if mh_size (headers s c) = sz then [] else [c + sz]) @ bs)"
    and "\<And>x. mh_size (headers s' x) = (if x = c then sz
           else if x = c + sz \<and> sz \<noteq> mh_size (headers s c) then mh_size (headers s c) - sz
           else mh_size (headers s x))"
    and "\<And>x. x \<noteq> c \<Longrightarrow> x \<noteq> c + sz \<or> mh_size (headers s c) = sz \<Longrightarrow>
           mh_sanity (headers s' x) = mh_sanity (headers s x)"
    and "mh_sanity (headers s' c) = data_start c"
    and "maxaddr s' = maxaddr s" and "freemem s' = freemem s"
proof -
  let ?rest = "if mh_size (headers s c) = sz then [] else [c + sz]"
  obtain t where t: "split_free_block c sz s = Some t"
    and ft: "free_list t (as @ c # ?rest @ bs)"
    and size: "\<And>x. mh_size (headers t x) = (if x = c then sz
           else if x = c + sz \<and> sz \<noteq> mh_size (headers s c) then mh_size (headers s c) - sz
           else mh_size (headers s x))"
    and san: "\<And>x. x \<noteq> c + sz \<or> mh_size (headers s c) = sz \<Longrightarrow>
           mh_sanity (headers t x) = mh_sanity (headers s x)"
    and rest: "maxaddr t = maxaddr s" "freemem t = freemem s"
  proof (cases "mh_size (headers s c) = sz")
    case True
    with that [of s] show ?thesis
      using f free_list_neighbours(3) [OF f] by (simp add: split_free_block_same)
  next
    case False
    with sz have lt: "sz < mh_size (headers s c)" by simp
    with r have r': "c + sz \<noteq> 0" "c + sz \<notin> set (as @ c # bs)" by blast+
    obtain t where t:
      "split_free_block c sz s = Some t" "free_list t (as @ c # (c + sz) # bs)"
      "\<And>x. mh_size (headers t x) = (if x = c then sz
         else if x = c + sz then mh_size (headers s c) - sz else mh_size (headers s x))"
      "\<And>x. mh_sanity (headers t x) = (if x = c + sz then 0 else mh_sanity (headers s x))"
      "maxaddr t = maxaddr s" "freemem t = freemem s"
      by (rule split_free_block_proper [OF f lt r']) blast
    show ?thesis by (rule that [of t]) (use t False in simp_all)
  qed
  note u = unlink_block_fields [OF ft] and fu = unlink_block_free_list [OF ft]
  let ?s' = "upd_header c (\<lambda>h. h\<lparr>mh_size := sz, mh_sanity := data_start c\<rparr>) (unlink_block c t)"
  have "c \<notin> set (as @ ?rest @ bs)" using ft by (auto simp: free_list_def)
  then have "chain ?s' 0 (as @ ?rest @ bs) 0 = chain (unlink_block c t) 0 (as @ ?rest @ bs) 0"
    by (intro links_cong) auto
  with fu have "free_list ?s' (as @ ?rest @ bs)" by (simp add: free_list_def)
  moreover have "kmalloc_take sz c s = Some (data_start c, ?s')"
    using t al by (simp add: kmalloc_take_def Let_def)
  ultimately show ?thesis
    using that [of ?s'] size san rest u by simp
qed

subsection \<open>First fit\<close>

lemma kmalloc_search_found:
  assumes "chain s pv (as @ c # bs) q" and "0 \<notin> set as" and "c \<noteq> 0"
    and "\<And>a. a \<in> set as \<Longrightarrow> mh_size (headers s a) < req" and "req \<le> mh_size (headers s c)"
  shows "kmalloc_search req (headp (\<lambda>a. a) (as @ c # bs) q) s = kmalloc_take req c s"
  using assms
proof (induction as arbitrary: pv)
  case Nil
  then show ?case by (subst kmalloc_search.simps) simp
next
  case (Cons a as)
  then have "\<not> req \<le> mh_size (headers s a)" and "a \<noteq> 0"
    and "mh_next (headers s a) = headp (\<lambda>a. a) (as @ c # bs) q"
    by (auto simp: not_le)
  with Cons show ?case by (subst kmalloc_search.simps) auto
qed

lemma kmalloc_search_none:
  assumes "chain s pv xs 0" and "0 \<notin> set xs"
    and "\<And>a. a \<in> set xs \<Longrightarrow> mh_size (headers s a) < req"
  shows "kmalloc_search req (headp (\<lambda>a. a) xs 0) s = Some (0, s)"
  using assms
proof (induction xs arbitrary: pv)
  case Nil
  then show ?case by (subst kmalloc_search.simps) simp
next
  case (Cons a xs)
  then have "\<not> req \<le> mh_size (headers s a)" and "a \<noteq> 0"
    and "mh_next (headers s a) = headp (\<lambda>a. a) xs 0"
    by (auto simp: not_le)
  with Cons show ?case by (subst kmalloc_search.simps) auto
qed

subsection \<open>The heap invariant\<close>

text \<open>One past the last byte of a block, as a natural number.\<close>

definition bend :: "mem_state \<Rightarrow> u32 \<Rightarrow> nat" where
  "bend s a = unat a + bsize s a"

text \<open>
  \<open>heap_inv s xs A\<close>: the free list holds the blocks \<open>xs\<close> in address order with a gap between
  any two of them (free neighbours are always merged), \<open>A\<close> are the headers of the allocated
  blocks, no two blocks overlap, headers sit on paragraph boundaries inside memory, and every
  allocated block carries the sanity pointer that \<open>kfree\<close> checks.
\<close>

definition block_ok :: "mem_state \<Rightarrow> u32 \<Rightarrow> bool" where
  "block_ok s a \<longleftrightarrow>
     a \<noteq> 0 \<and> 16 dvd unat a \<and> 0 < bsize s a \<and> bend s a \<le> unat (maxaddr s)"

definition alloc_ok :: "mem_state \<Rightarrow> u32 \<Rightarrow> bool" where
  "alloc_ok s a \<longleftrightarrow>
     block_ok s a \<and> mh_sanity (headers s a) = data_start a \<and> 16 dvd bsize s a \<and> 32 \<le> bsize s a"

definition free_ok :: "mem_state \<Rightarrow> u32 \<Rightarrow> bool" where
  "free_ok s a \<longleftrightarrow> block_ok s a \<and> (16 dvd bsize s a \<or> bend s a = unat (maxaddr s))"

definition separate :: "mem_state \<Rightarrow> u32 \<Rightarrow> u32 \<Rightarrow> bool" where
  "separate s a b \<longleftrightarrow> bend s a \<le> unat b \<or> bend s b \<le> unat a"

definition heap_inv :: "mem_state \<Rightarrow> u32 list \<Rightarrow> u32 set \<Rightarrow> bool" where
  "heap_inv s xs A \<longleftrightarrow>
     free_list s xs \<and> sorted_wrt (<) xs \<and> finite A \<and> A \<inter> set xs = {} \<and>
     (\<forall>a\<in>set xs. free_ok s a) \<and> (\<forall>a\<in>A. alloc_ok s a) \<and>
     (\<forall>a\<in>set xs \<union> A. \<forall>b\<in>set xs \<union> A. a \<noteq> b \<longrightarrow> separate s a b) \<and>
     (\<forall>a\<in>set xs. \<forall>b\<in>set xs. bend s a \<noteq> unat b)"

text \<open>Bytes under management: nothing is lost or created.\<close>

definition heap_total :: "mem_state \<Rightarrow> u32 list \<Rightarrow> u32 set \<Rightarrow> nat" where
  "heap_total s xs A = sum_list (map (bsize s) xs) + sum (bsize s) A"

lemma separate_sym: "separate s a b \<Longrightarrow> separate s b a"
  by (auto simp: separate_def)

lemma block_ok_bend: "block_ok s a \<Longrightarrow> unat a < bend s a \<and> bend s a < 2 ^ 32"
  using unsigned_less [of "maxaddr s", where 'a = nat] by (simp add: block_ok_def bend_def)

text \<open>The end of a block as a machine address.\<close>

lemma unat_block_end:
  assumes "block_ok s a" and "sz \<le> mh_size (headers s a)"
  shows "unat (a + sz) = unat a + unat sz"
proof -
  have "unat a + unat sz < 2 ^ 32"
    using block_ok_bend [OF assms(1)] assms(2) by (simp add: bend_def word_le_nat_alt)
  then show ?thesis by (simp add: unat_word_ariths)
qed

lemma separate_self: "block_ok s a \<Longrightarrow> \<not> separate s a a"
  using block_ok_bend [of s a] by (auto simp: separate_def)

lemma unat_low_nibble: "unat ((w :: u32) AND 0xf) = unat w mod 16"
proof -
  have "unat w AND 15 = take_bit 4 (unat w)"
    by (simp only: take_bit_eq_mask mask_eq_exp_minus_1) simp
  then show ?thesis by (simp add: unsigned_and_eq take_bit_eq_mod)
qed

lemma align_and_iff: "(w :: u32) AND 0xf = 0 \<longleftrightarrow> 16 dvd unat w"
  using unat_low_nibble [of w] by (metis dvd_eq_mod_eq_0 unat_eq_zero)

lemma unat_clear_nibble: "unat ((w :: u32) AND NOT 0xf) = unat w div 16 * 16"
proof -
  have "w AND NOT 0xf = w AND NOT (w AND 0xf)"
    by (rule bit_word_eqI) (auto simp: bit_simps)
  also have "\<dots> = w - (w AND 0xf)"
    by (rule disjunctive_diff [symmetric]) (simp add: bit_simps)
  finally have "unat (w AND NOT 0xf) = unat w - unat (w AND 0xf)"
    by (simp add: unat_sub_if' word_le_nat_alt unat_low_nibble)
  then show ?thesis by (simp add: unat_low_nibble minus_mod_eq_div_mult)
qed

lemma round_up_div:
  assumes "\<not> 16 dvd (n :: nat)"
  shows "(n + 16) div 16 = (n + 15) div 16"
proof -
  define q r where "q = n div 16" and "r = n mod 16"
  then have n: "n = 16 * q + r" and "0 < r" and "r < 16"
    using assms by (simp_all add: dvd_eq_mod_eq_0)
  have "(16 * q + r + 15) div 16 = q + 1"
    by (rule div_nat_eqI) (use \<open>0 < r\<close> \<open>r < 16\<close> in simp_all)
  moreover have "(16 * q + r + 16) div 16 = q + 1"
    by (rule div_nat_eqI) (use \<open>r < 16\<close> in simp_all)
  ultimately show ?thesis by (simp only: n)
qed

lemma round_to_paragraph_unat:
  assumes "unat v < 2 ^ 31"
  shows "unat (round_to_paragraph v) = (unat v + 15) div 16 * 16"
proof (cases "v AND 0xf = 0")
  case True
  then have "16 dvd unat v" by (simp add: align_and_iff)
  then obtain k where "unat v = 16 * k" ..
  with True show ?thesis by (simp add: round_to_paragraph_def)
next
  case False
  let ?w = "v + 0x10"
  have w: "unat ?w = unat v + 16" using assms by (simp add: unat_word_ariths)
  have "unat (round_to_paragraph v) = (unat v + 16) div 16 * 16"
    using False w unat_clear_nibble [of ?w] by (simp add: round_to_paragraph_def)
  moreover have "\<not> 16 dvd unat v" using False by (simp add: align_and_iff)
  then have "(unat v + 16) div 16 = (unat v + 15) div 16" by (rule round_up_div)
  ultimately show ?thesis by simp
qed

subsection \<open>kmalloc\<close>

lemma heap_inv_free_list: "heap_inv s xs A \<Longrightarrow> free_list s xs"
  by (simp add: heap_inv_def)

lemma heap_inv_ok: "heap_inv s xs A \<Longrightarrow> a \<in> set xs \<union> A \<Longrightarrow> block_ok s a"
  by (auto simp: heap_inv_def free_ok_def alloc_ok_def)

lemma heap_inv_separate:
  "heap_inv s xs A \<Longrightarrow> a \<in> set xs \<union> A \<Longrightarrow> b \<in> set xs \<union> A \<Longrightarrow> a \<noteq> b \<Longrightarrow> separate s a b"
  by (simp add: heap_inv_def)

text \<open>
  The facts about the block that is cut: it does not wrap, and its end is no block of the
  free list.
\<close>

lemma cut_fresh:
  assumes inv: "heap_inv s xs A" and c: "c \<in> set xs" and sz: "0 < sz" "sz < mh_size (headers s c)"
  shows "c + sz \<noteq> 0" and "c + sz \<notin> set xs \<union> A" and "unat (c + sz) = unat c + unat sz"
    and "unat (c + sz) < bend s c"
proof -
  have ok: "block_ok s c" using inv c heap_inv_ok by blast
  show u: "unat (c + sz) = unat c + unat sz" using unat_block_end [OF ok] sz by simp
  have sz0: "0 < unat sz" using sz(1) by (simp add: word_less_nat_alt)
  then show "c + sz \<noteq> 0" using u by (metis add_is_0 less_irrefl_nat unsigned_0)
  show lt: "unat (c + sz) < bend s c" using u sz(2) by (simp add: bend_def word_less_nat_alt)
  show "c + sz \<notin> set xs \<union> A"
  proof
    assume b: "c + sz \<in> set xs \<union> A"
    have "c \<noteq> c + sz" using sz(1) by auto
    with heap_inv_separate [OF inv _ b, of c] c have "separate s c (c + sz)" by blast
    with lt u sz0 block_ok_bend [OF heap_inv_ok [OF inv b]] show False
      by (auto simp: separate_def)
  qed
qed

lemma data_start_aligned: "16 dvd unat c \<Longrightarrow> data_start c AND 0xf = 0"
proof -
  assume "16 dvd unat c"
  then have "c AND 0xf = 0" by (simp add: align_and_iff)
  moreover have "(c + 16) AND 0xf = c AND 0xf"
    by (rule word_unat_eq_iff [THEN iffD2])
      (simp add: unat_low_nibble unat_word_ariths mod_mod_cancel)
  ultimately show ?thesis by (simp add: data_start_def sizeof_header_def)
qed

text \<open>Cutting \<open>sz\<close> bytes off the front of the free block \<open>c\<close> keeps the invariant.\<close>

lemma kmalloc_take_inv:
  assumes inv: "heap_inv s (as @ c # bs) A" and sz: "sz \<le> mh_size (headers s c)"
    and sz16: "16 dvd unat sz" "32 \<le> unat sz"
  obtains s' where "kmalloc_take sz c s = Some (data_start c, s')"
    and "heap_inv s' (as @ (if mh_size (headers s c) = sz then [] else [c + sz]) @ bs) (insert c A)"
    and "bsize s' c = unat sz"
    and "\<And>a. a \<in> set as \<union> set bs \<union> A \<Longrightarrow> bsize s' a = bsize s a"
    and "mh_size (headers s c) \<noteq> sz \<Longrightarrow> bsize s' (c + sz) = bsize s c - unat sz"
    and "maxaddr s' = maxaddr s" and "freemem s' = freemem s"
proof -
  let ?rest = "if mh_size (headers s c) = sz then [] else [c + sz]"
  note f = heap_inv_free_list [OF inv]
  have okc: "block_ok s c" using heap_inv_ok [OF inv] by simp
  have sz0: "0 < sz" using sz16 by (simp add: word_less_nat_alt)
  have cut: "c + sz \<noteq> 0" "c + sz \<notin> set (as @ c # bs) \<union> A" "unat (c + sz) = unat c + unat sz"
    "unat (c + sz) < bend s c" if "sz \<noteq> mh_size (headers s c)"
    using cut_fresh [OF inv _ sz0, of c] that sz by (simp_all add: order_less_le)
  have r: "c + sz \<noteq> 0 \<and> c + sz \<notin> set (as @ c # bs)" if "sz < mh_size (headers s c)"
    using cut that by auto
  have al: "data_start c AND 0xf = 0" using okc by (simp add: block_ok_def data_start_aligned)
  obtain s' where s': "kmalloc_take sz c s = Some (data_start c, s')"
    and f': "free_list s' (as @ ?rest @ bs)"
    and size: "\<And>x. mh_size (headers s' x) = (if x = c then sz
        else if x = c + sz \<and> sz \<noteq> mh_size (headers s c) then mh_size (headers s c) - sz
        else mh_size (headers s x))"
    and san: "\<And>x. x \<noteq> c \<Longrightarrow> x \<noteq> c + sz \<or> mh_size (headers s c) = sz \<Longrightarrow>
        mh_sanity (headers s' x) = mh_sanity (headers s x)"
    and sanc: "mh_sanity (headers s' c) = data_start c"
    and glob: "maxaddr s' = maxaddr s" "freemem s' = freemem s"
    by (rule kmalloc_take_free_list [OF f sz r al]) blast+
  have cA: "c \<notin> A" "c \<notin> set as" "c \<notin> set bs"
    using inv f separate_self [OF okc] by (auto simp: heap_inv_def free_list_def)
  have ends: "bend s' c = unat c + unat sz"
    "mh_size (headers s c) \<noteq> sz \<Longrightarrow> bend s' (c + sz) = bend s c \<and> bsize s' (c + sz) = bsize s c - unat sz"
    using cut sz by (auto simp: bend_def size unat_sub word_le_nat_alt cut(1))
  have old: "bsize s' x = bsize s x \<and> bend s' x = bend s x \<and> mh_sanity (headers s' x) = mh_sanity (headers s x)"
    if "x \<in> set as \<union> set bs \<union> A" for x
    using that cA cut san [of x] by (auto simp: bend_def size)
  have le: "unat c + unat sz \<le> bend s c" using sz by (simp add: bend_def word_le_nat_alt)
  let ?U = "set (as @ c # bs) \<union> A" and ?U' = "set (as @ ?rest @ bs) \<union> insert c A"
  define par where "par x = (if x = c + sz \<and> mh_size (headers s c) \<noteq> sz then c else x)" for x
  have U': "x = c \<or> x = c + sz \<and> mh_size (headers s c) \<noteq> sz \<or> x \<in> set as \<union> set bs \<union> A"
    if "x \<in> ?U'" for x using that by (auto split: if_splits)
  have par: "par x \<in> ?U \<and> unat (par x) \<le> unat x \<and> bend s' x \<le> bend s (par x)"
    if "x \<in> ?U'" for x
    using U' [OF that] old ends cut le by (auto simp: par_def)
  have sep: "separate s' x y" if xy: "x \<in> ?U'" "y \<in> ?U'" "x \<noteq> y" for x y
  proof (cases "par x = par y")
    case True
    with xy U' [OF xy(1)] U' [OF xy(2)] ends cut show ?thesis
      by (auto simp: par_def separate_def split: if_splits)
  next
    case False
    with heap_inv_separate [OF inv] par [OF xy(1)] par [OF xy(2)]
    have "separate s (par x) (par y)" by blast
    with par [OF xy(1)] par [OF xy(2)] show ?thesis unfolding separate_def by linarith
  qed
  have ord: "sorted_wrt (<) (as @ c # bs)" using inv by (simp add: heap_inv_def)
  have bs: "bend s c \<le> unat b" if b: "b \<in> set bs" for b
  proof -
    have "unat c < unat b" using ord b by (simp add: sorted_wrt_append word_less_nat_alt)
    moreover have "block_ok s b" "separate s c b"
      using b cA heap_inv_ok [OF inv] heap_inv_separate [OF inv, of c b] by auto
    ultimately show ?thesis using block_ok_bend [of s b] by (auto simp: separate_def)
  qed
  have "c < c + sz \<and> (\<forall>b\<in>set bs. c + sz < b)" if "mh_size (headers s c) \<noteq> sz"
    using that cut sz16 bs by (fastforce simp: word_less_nat_alt)
  with ord have srt: "sorted_wrt (<) (as @ ?rest @ bs)"
    by (auto simp: sorted_wrt_append intro: less_trans)
  have oldF: "\<forall>x\<in>set (as @ c # bs). free_ok s x" and oldA: "\<forall>x\<in>A. alloc_ok s x"
    using inv by (simp_all add: heap_inv_def)
  have fc: "free_ok s c" using oldF by simp
  have "free_ok s' (c + sz)" if "mh_size (headers s c) \<noteq> sz"
    using fc cut ends that sz16(1) glob by (auto simp: free_ok_def block_ok_def bend_def)
  then have fok: "\<forall>x\<in>set (as @ ?rest @ bs). free_ok s' x"
    using oldF old glob by (auto simp: free_ok_def block_ok_def)
  have "alloc_ok s' c"
    using okc sz16 ends(1) le sanc glob by (auto simp: alloc_ok_def block_ok_def size)
  then have aok: "\<forall>x\<in>insert c A. alloc_ok s' x"
    using oldA old glob by (auto simp: alloc_ok_def block_ok_def)
  have oldgap: "bend s x \<noteq> unat y" if "x \<in> set (as @ c # bs)" "y \<in> set (as @ c # bs)" for x y
    using inv that unfolding heap_inv_def by blast
  have rgap: "bend s x \<noteq> unat (c + sz)" if "mh_size (headers s c) \<noteq> sz" and x: "x \<in> set as \<union> set bs" for x
  proof -
    have "block_ok s x" "separate s x c"
      using x cA heap_inv_ok [OF inv] heap_inv_separate [OF inv, of x c] by auto
    then show ?thesis
      using block_ok_bend [of s x] cut that(1) sz16(2) by (auto simp: separate_def)
  qed
  have gap: "\<forall>a\<in>set (as @ ?rest @ bs). \<forall>b\<in>set (as @ ?rest @ bs). bend s' a \<noteq> unat b"
  proof (intro ballI)
    fix a b assume "a \<in> set (as @ ?rest @ bs)" "b \<in> set (as @ ?rest @ bs)"
    then have "a \<in> set as \<union> set bs \<or> a = c + sz \<and> mh_size (headers s c) \<noteq> sz"
      and "b \<in> set as \<union> set bs \<or> b = c + sz \<and> mh_size (headers s c) \<noteq> sz"
      by (auto split: if_splits)
    then show "bend s' a \<noteq> unat b"
      using oldgap [of a b] oldgap [of c b] rgap [of a] old [of a] ends cut by auto
  qed
  have disj: "insert c A \<inter> set (as @ ?rest @ bs) = {}" and fin: "finite (insert c A)"
    using inv cA cut by (auto simp: heap_inv_def)
  have sepB: "\<forall>x\<in>?U'. \<forall>y\<in>?U'. x \<noteq> y \<longrightarrow> separate s' x y" using sep by blast
  have "heap_inv s' (as @ ?rest @ bs) (insert c A)"
    unfolding heap_inv_def by (intro conjI f' srt fin disj fok aok sepB gap)
  with s' show ?thesis using old ends(2) glob size [of c] by (intro that [of s']) auto
qed

text \<open>
  The abstract allocator: the free regions as pairs of start and size, in address order.
\<close>

definition blocks :: "mem_state \<Rightarrow> u32 list \<Rightarrow> (nat \<times> nat) list" where
  "blocks s xs = map (\<lambda>a. (unat a, bsize s a)) xs"

fun first_fit :: "nat \<Rightarrow> (nat \<times> nat) list \<Rightarrow> (nat \<times> (nat \<times> nat) list) option" where
  "first_fit n [] = None"
| "first_fit n ((a, k) # bl) =
     (if n \<le> k then Some (a, if k = n then bl else (a + n, k - n) # bl)
      else map_option (apsnd ((#) (a, k))) (first_fit n bl))"

lemma first_fit_None: "first_fit n bl = None \<longleftrightarrow> (\<forall>b\<in>set bl. snd b < n)"
  by (induction n bl rule: first_fit.induct) auto

lemma first_fit_skip:
  "\<forall>b\<in>set as. snd b < n \<Longrightarrow>
     first_fit n (as @ bl) = map_option (apsnd ((@) as)) (first_fit n bl)"
proof (induction as)
  case Nil
  then show ?case by (cases "first_fit n bl") auto
next
  case (Cons a as)
  then show ?case by (cases a; cases "first_fit n bl") auto
qed

text \<open>The bytes \<open>kmalloc\<close> takes for a request: rounded up, and the header.\<close>

definition alloc_bytes :: "u32 \<Rightarrow> nat" where
  "alloc_bytes sz = (unat sz + 15) div 16 * 16 + 16"

lemma alloc_bytes_word:
  assumes "unat sz < 2 ^ 31"
  shows "unat (round_to_paragraph sz + sizeof_header) = alloc_bytes sz"
proof -
  have "(unat sz + 15) div 16 * 16 \<le> unat sz + 15" by simp
  with assms show ?thesis
    by (simp add: sizeof_header_def alloc_bytes_def unat_word_ariths round_to_paragraph_unat)
qed

lemma alloc_bytes_bounds: "0 < sz \<Longrightarrow> 16 dvd alloc_bytes sz \<and> 32 \<le> alloc_bytes sz"
proof -
  assume "0 < sz"
  then have "0 < unat sz" by (simp add: word_less_nat_alt)
  then have "1 \<le> (unat sz + 15) div 16" by simp
  then show ?thesis by (simp add: alloc_bytes_def)
qed

text \<open>\<open>kmalloc\<close> implements first fit.\<close>

lemma kmalloc_first_fit:
  assumes inv: "heap_inv s xs A" and sz: "0 < sz" "sz < maxaddr s" and max: "unat (maxaddr s) < 2 ^ 31"
  shows "case first_fit (alloc_bytes sz) (blocks s xs) of
      None \<Rightarrow> kmalloc sz s = Some (0, s)
    | Some (b, bl) \<Rightarrow> \<exists>s' xs' c. kmalloc sz s = Some (data_start c, s') \<and> unat c = b \<and>
        heap_inv s' xs' (insert c A) \<and> c \<notin> A \<and> blocks s' xs' = bl \<and> bsize s' c = alloc_bytes sz \<and>
        (\<forall>a\<in>A. bsize s' a = bsize s a) \<and> maxaddr s' = maxaddr s \<and> freemem s' = freemem s"
proof -
  let ?req = "round_to_paragraph sz + sizeof_header"
  have req: "unat ?req = alloc_bytes sz"
    using alloc_bytes_word sz(2) max by (simp add: word_less_nat_alt)
  have f: "free_list s xs" using inv by (rule heap_inv_free_list)
  have km: "kmalloc sz s = kmalloc_search ?req (headp (\<lambda>a. a) xs 0) s"
    using sz f by (auto simp: kmalloc_def kmem_maxaddr_def free_list_def)
  show ?thesis
  proof (cases "\<exists>c\<in>set xs. ?req \<le> mh_size (headers s c)")
    case False
    then have "\<forall>a\<in>set xs. mh_size (headers s a) < ?req" by (auto simp: not_le)
    then have "kmalloc sz s = Some (0, s)" and "\<forall>b\<in>set (blocks s xs). snd b < alloc_bytes sz"
      using kmalloc_search_none [of s 0 xs ?req] f km req
      by (auto simp: free_list_def blocks_def word_less_nat_alt)
    then show ?thesis by (simp add: first_fit_None [THEN iffD2])
  next
    case True
    then obtain as c bs where xs: "xs = as @ c # bs" and c: "?req \<le> mh_size (headers s c)"
      and as: "\<forall>a\<in>set as. mh_size (headers s a) < ?req"
      using split_list_first_prop [of xs "\<lambda>c. ?req \<le> mh_size (headers s c)"] by (auto simp: not_le)
    have "kmalloc sz s = kmalloc_take ?req c s"
      using kmalloc_search_found [of s 0 as c bs 0 ?req] f as c by (simp add: km xs free_list_def)
    moreover obtain s' where s': "kmalloc_take ?req c s = Some (data_start c, s')"
      and inv': "heap_inv s' (as @ (if mh_size (headers s c) = ?req then [] else [c + ?req]) @ bs) (insert c A)"
      and size: "bsize s' c = unat ?req" "\<And>a. a \<in> set as \<union> set bs \<union> A \<Longrightarrow> bsize s' a = bsize s a"
        "mh_size (headers s c) \<noteq> ?req \<Longrightarrow> bsize s' (c + ?req) = bsize s c - unat ?req"
      and glob: "maxaddr s' = maxaddr s" "freemem s' = freemem s"
      using kmalloc_take_inv [OF inv [unfolded xs] c] alloc_bytes_bounds [OF sz(1)] req by metis
    moreover have "first_fit (alloc_bytes sz) (blocks s xs) = Some (unat c, blocks s'
        (as @ (if mh_size (headers s c) = ?req then [] else [c + ?req]) @ bs))"
    proof -
      have "\<forall>b\<in>set (blocks s as). snd b < alloc_bytes sz"
        using as req by (auto simp: blocks_def word_less_nat_alt)
      moreover have "unat (c + ?req) = unat c + alloc_bytes sz"
        using unat_block_end [OF _ c] heap_inv_ok [OF inv] req by (simp add: xs)
      moreover have "bsize s c = alloc_bytes sz \<longleftrightarrow> mh_size (headers s c) = ?req"
        using req by (metis word_unat_eq_iff)
      ultimately show ?thesis
        using c req size first_fit_skip [of "blocks s as" "alloc_bytes sz" "blocks s (c # bs)"]
        by (auto simp: blocks_def xs word_le_nat_alt)
    qed
    moreover have "c \<notin> A" using inv by (auto simp: heap_inv_def xs)
    ultimately show ?thesis using inv' req by fastforce
  qed
qed

subsection \<open>kfree\<close>

lemma kfree_place_split:
  assumes "chain s pv (as @ bs) 0" and "0 \<notin> set (as @ bs)"
    and "\<And>a. a \<in> set as \<Longrightarrow> a < t" and "bs \<noteq> [] \<Longrightarrow> \<not> hd bs < t"
  shows "kfree_place s t pv (headp (\<lambda>a. a) (as @ bs) 0) =
     Some (lastp (\<lambda>a. a) pv as, headp (\<lambda>a. a) bs 0)"
  using assms
proof (induction as arbitrary: pv)
  case Nil
  then show ?case by (subst kfree_place.simps) (cases bs; auto)
next
  case (Cons a as)
  then have "a \<noteq> 0" "a < t" "mh_next (headers s a) = headp (\<lambda>a. a) (as @ bs) 0" by auto
  with Cons show ?case by (subst kfree_place.simps) auto
qed

lemma kfree_insert_free_list:
  assumes f: "free_list s (as @ bs)" and t: "t \<noteq> 0" "t \<notin> set (as @ bs)"
  defines "s' \<equiv> kfree_insert t (lastp (\<lambda>a. a) 0 as) (headp (\<lambda>a. a) bs 0) s"
  shows "free_list s' (as @ t # bs)"
    and "mh_size (headers s' x) = mh_size (headers s x)"
    and "mh_sanity (headers s' x) = mh_sanity (headers s x)"
    and "maxaddr s' = maxaddr s" and "freemem s' = freemem s"
proof -
  have nb: "0 \<notin> set as" "0 \<notin> set bs" "distinct (as @ bs)" using f by (auto simp: free_list_def)
  have prv: "mh_prev (headers s' x) = (if bs \<noteq> [] \<and> x = hd bs then t
      else if x = t then lastp (\<lambda>a. a) 0 as else mh_prev (headers s x))"
    and nxt: "mh_next (headers s' x) = (if x = t then headp (\<lambda>a. a) bs 0
      else if as \<noteq> [] \<and> x = last as then t else mh_next (headers s x))"
    and g: "g_free_list s' = headp (\<lambda>a. a) (as @ t # bs) 0"
    and "mh_size (headers s' x) = mh_size (headers s x)"
    and "mh_sanity (headers s' x) = mh_sanity (headers s x)"
    and "maxaddr s' = maxaddr s" and "freemem s' = freemem s" for x
    using nb t f unfolding s'_def kfree_insert_def Let_def free_list_def
    by (cases as rule: rev_cases; cases bs; auto simp: link_simps)+
  then show "mh_size (headers s' x) = mh_size (headers s x)"
    "mh_sanity (headers s' x) = mh_sanity (headers s x)"
    "maxaddr s' = maxaddr s" "freemem s' = freemem s" by auto
  have "chain s 0 (as @ bs) 0" using f by (simp add: free_list_def)
  then have "chain s' 0 (as @ t # bs) 0"
    by (rule links_insert) (use nb t in \<open>auto simp: prv nxt dest: hd_in_set last_in_set\<close>)
  with f t g show "free_list s' (as @ t # bs)" by (simp add: free_list_def)
qed

lemma coalesce_skip:
  "b1 = 0 \<or> b2 = 0 \<or> b1 + mh_size (headers s b1) \<noteq> b2 \<Longrightarrow> coalesce_blocks b1 b2 s = (0, s)"
  by (auto simp: coalesce_blocks_def)

lemma coalesce_join:
  assumes f: "free_list s (as @ b1 # b2 # bs)" and adj: "b1 + mh_size (headers s b1) = b2"
  defines "s' \<equiv> snd (coalesce_blocks b1 b2 s)"
  shows "free_list s' (as @ b1 # bs)"
    and "mh_size (headers s' x) = (if x = b1 then mh_size (headers s b1) + mh_size (headers s b2)
           else mh_size (headers s x))"
    and "mh_sanity (headers s' x) = mh_sanity (headers s x)"
    and "maxaddr s' = maxaddr s" and "freemem s' = freemem s"
proof -
  have nb: "0 \<notin> set as" "0 \<notin> set bs" "b1 \<noteq> 0" "b2 \<noteq> 0" "b1 \<noteq> b2" "b1 \<notin> set bs" "b2 \<notin> set bs"
    "distinct ((as @ [b1]) @ bs)"
    using f by (auto simp: free_list_def)
  have n2: "mh_next (headers s b2) = headp (\<lambda>a. a) bs 0"
    using free_list_neighbours(2) [of s "as @ [b1]" b2 bs] f by simp
  have prv: "mh_prev (headers s' x) = (if bs \<noteq> [] \<and> x = hd bs then b1 else mh_prev (headers s x))"
    and nxt: "mh_next (headers s' x) = (if x = b1 then headp (\<lambda>a. a) bs 0 else mh_next (headers s x))"
    and g: "g_free_list s' = g_free_list s"
    and "mh_size (headers s' x) = (if x = b1 then mh_size (headers s b1) + mh_size (headers s b2)
      else mh_size (headers s x))"
    and "mh_sanity (headers s' x) = mh_sanity (headers s x)"
    and "maxaddr s' = maxaddr s" and "freemem s' = freemem s" for x
    using nb n2 adj unfolding s'_def coalesce_blocks_def Let_def
    by (cases bs; auto simp: adj)+
  then show "mh_size (headers s' x) = (if x = b1 then mh_size (headers s b1) + mh_size (headers s b2)
      else mh_size (headers s x))"
    "mh_sanity (headers s' x) = mh_sanity (headers s x)"
    "maxaddr s' = maxaddr s" "freemem s' = freemem s" by auto
  have "chain s 0 ((as @ [b1]) @ b2 # bs) 0" using f by (simp add: free_list_def)
  then have "chain s' 0 ((as @ [b1]) @ bs) 0"
    by (rule links_remove) (use nb in \<open>auto simp: prv nxt lastp_append\<close>)
  with f g nb show "free_list s' (as @ b1 # bs)" by (auto simp: free_list_def headp_append)
qed

text \<open>The invariant without the merging condition: what holds between the steps of \<open>kfree\<close>.\<close>

definition heap_inv0 :: "mem_state \<Rightarrow> u32 list \<Rightarrow> u32 set \<Rightarrow> bool" where
  "heap_inv0 s xs A \<longleftrightarrow>
     free_list s xs \<and> sorted_wrt (<) xs \<and> finite A \<and> A \<inter> set xs = {} \<and>
     (\<forall>a\<in>set xs. free_ok s a) \<and> (\<forall>a\<in>A. alloc_ok s a) \<and>
     (\<forall>a\<in>set xs \<union> A. \<forall>b\<in>set xs \<union> A. a \<noteq> b \<longrightarrow> separate s a b)"

lemma heap_inv_split:
  "heap_inv s xs A \<longleftrightarrow> heap_inv0 s xs A \<and> (\<forall>a\<in>set xs. \<forall>b\<in>set xs. bend s a \<noteq> unat b)"
  by (auto simp: heap_inv_def heap_inv0_def)

text \<open>Free blocks in address order: the later one starts behind the end of the earlier one.\<close>

lemma heap_inv0_order:
  assumes "heap_inv0 s xs A" and "a \<in> set xs" and "b \<in> set xs" and "a < b"
  shows "bend s a \<le> unat b"
proof -
  have "separate s a b" "block_ok s b"
    using assms by (auto simp: heap_inv0_def free_ok_def)
  then show ?thesis
    using assms(4) block_ok_bend [of s b] by (auto simp: separate_def word_less_nat_alt)
qed

lemma kfree_insert_inv0:
  assumes inv: "heap_inv0 s (as @ bs) A" and t: "t \<in> A"
    and ord: "\<And>a. a \<in> set as \<Longrightarrow> a < t" "\<And>b. b \<in> set bs \<Longrightarrow> t < b"
  defines "s' \<equiv> kfree_insert t (lastp (\<lambda>a. a) 0 as) (headp (\<lambda>a. a) bs 0) s"
  shows "heap_inv0 s' (as @ t # bs) (A - {t})" and "bend s' x = bend s x" and "bsize s' x = bsize s x"
    and "maxaddr s' = maxaddr s" and "freemem s' = freemem s"
proof -
  have f: "free_list s (as @ bs)" and tA: "t \<noteq> 0" "t \<notin> set (as @ bs)"
    using inv t by (auto simp: heap_inv0_def alloc_ok_def block_ok_def)
  note i = kfree_insert_free_list [OF f tA, folded s'_def]
  have bend: "bend s' x = bend s x" for x by (simp add: bend_def i)
  have sep: "separate s' x y = separate s x y" for x y by (simp add: separate_def bend)
  have ok: "alloc_ok s' x = alloc_ok s x" "free_ok s' x = free_ok s x" for x
    by (simp_all add: alloc_ok_def free_ok_def block_ok_def bend i)
  have "free_ok s t" using inv t by (auto simp: heap_inv0_def alloc_ok_def free_ok_def)
  moreover have "sorted_wrt (<) (as @ t # bs)"
    using inv ord by (auto simp: heap_inv0_def sorted_wrt_append)
  moreover have "set (as @ t # bs) \<union> (A - {t}) = set (as @ bs) \<union> A" using t by auto
  ultimately show "heap_inv0 s' (as @ t # bs) (A - {t})"
    using inv tA i(1) unfolding heap_inv0_def sep ok by auto
  show "bend s' x = bend s x" "bsize s' x = bsize s x" "maxaddr s' = maxaddr s" "freemem s' = freemem s"
    using bend i by simp_all
qed

lemma coalesce_join_inv0:
  assumes inv: "heap_inv0 s (as @ b1 # b2 # bs) A" and adj: "bend s b1 = unat b2"
  defines "s' \<equiv> snd (coalesce_blocks b1 b2 s)"
  shows "heap_inv0 s' (as @ b1 # bs) A" and "bend s' b1 = bend s b2"
    and "bsize s' b1 = bsize s b1 + bsize s b2"
    and "\<And>x. x \<noteq> b1 \<Longrightarrow> bsize s' x = bsize s x \<and> bend s' x = bend s x"
    and "maxaddr s' = maxaddr s" and "freemem s' = freemem s"
proof -
  have ok1: "block_ok s b1" "free_ok s b1" and ok2: "block_ok s b2" "free_ok s b2"
    using inv by (auto simp: heap_inv0_def free_ok_def)
  have "unat (b1 + mh_size (headers s b1)) = unat b2"
    using unat_block_end [OF ok1(1)] adj by (simp add: bend_def)
  then have addr: "b1 + mh_size (headers s b1) = b2" by (simp add: word_unat_eq_iff)
  have f: "free_list s (as @ b1 # b2 # bs)" using inv by (simp add: heap_inv0_def)
  note j = coalesce_join [OF f addr, folded s'_def]
  have sum: "unat (mh_size (headers s b1) + mh_size (headers s b2)) = bsize s b1 + bsize s b2"
    using adj block_ok_bend [OF ok2(1)] by (simp add: bend_def unat_word_ariths)
  have end1: "bend s' b1 = bend s b2" using adj sum by (simp add: bend_def j)
  have old: "bsize s' x = bsize s x \<and> bend s' x = bend s x" if "x \<noteq> b1" for x
    using that by (simp add: bend_def j)
  show "bend s' b1 = bend s b2" "bsize s' b1 = bsize s b1 + bsize s b2"
    "\<And>x. x \<noteq> b1 \<Longrightarrow> bsize s' x = bsize s x \<and> bend s' x = bend s x"
    "maxaddr s' = maxaddr s" "freemem s' = freemem s"
    using end1 old sum j by auto
  let ?U = "set (as @ b1 # b2 # bs) \<union> A" and ?U' = "set (as @ b1 # bs) \<union> A"
  have b2: "b2 \<notin> ?U'" using inv f by (auto simp: heap_inv0_def free_list_def)
  have sepU: "separate s x y" if "x \<in> ?U" "y \<in> ?U" "x \<noteq> y" for x y
    using inv that unfolding heap_inv0_def by blast
  have sep1: "separate s' b1 x" if x: "x \<in> ?U'" "x \<noteq> b1" for x
  proof -
    have "block_ok s x" using x inv by (auto simp: heap_inv0_def free_ok_def alloc_ok_def)
    moreover have "separate s b1 x" "separate s b2 x" using x b2 sepU by auto
    ultimately show ?thesis
      using old [OF x(2)] end1 adj block_ok_bend [of s x] by (auto simp: separate_def)
  qed
  have sep: "\<forall>x\<in>?U'. \<forall>y\<in>?U'. x \<noteq> y \<longrightarrow> separate s' x y"
  proof (intro ballI impI)
    fix x y assume xy: "x \<in> ?U'" "y \<in> ?U'" "x \<noteq> y"
    consider "x = b1" | "y = b1" | "x \<noteq> b1" "y \<noteq> b1" by blast
    then show "separate s' x y"
    proof cases
      case 3
      then have "separate s x y" using xy by (intro sepU) auto
      then show ?thesis using 3 old by (simp add: separate_def)
    qed (use sep1 xy in \<open>auto intro: separate_sym\<close>)
  qed
  have "free_ok s' b1"
    using ok1 ok2 end1 sum j by (auto simp: free_ok_def block_ok_def bend_def)
  then have "\<forall>x\<in>set (as @ b1 # bs). free_ok s' x"
    using inv f old j by (auto simp: heap_inv0_def free_list_def free_ok_def block_ok_def)
  moreover have "\<forall>x\<in>A. alloc_ok s' x"
    using inv old j by (auto simp: heap_inv0_def alloc_ok_def block_ok_def)
  moreover have "sorted_wrt (<) (as @ b1 # bs)" "finite A" "A \<inter> set (as @ b1 # bs) = {}"
    using inv by (auto simp: heap_inv0_def sorted_wrt_append)
  ultimately show "heap_inv0 s' (as @ b1 # bs) A"
    using j(1) sep unfolding heap_inv0_def by blast
qed

text \<open>The abstract \<open>kfree\<close>: insert the region in address order and merge it with its neighbours.\<close>

fun join_head :: "nat \<times> nat \<Rightarrow> (nat \<times> nat) list \<Rightarrow> (nat \<times> nat) list" where
  "join_head (t, k) [] = [(t, k)]"
| "join_head (t, k) ((b, m) # bl) = (if t + k = b then (t, k + m) # bl else (t, k) # (b, m) # bl)"

fun free_block :: "nat \<Rightarrow> nat \<Rightarrow> (nat \<times> nat) list \<Rightarrow> (nat \<times> nat) list" where
  "free_block t k [] = [(t, k)]"
| "free_block t k ((a, n) # bl) =
     (if a < t then
        (if a + n = t then join_head (a, n + k) bl else (a, n) # free_block t k bl)
      else join_head (t, k) ((a, n) # bl))"

lemma free_block_append:
  "\<forall>b\<in>set as. fst b < t \<and> fst b + snd b \<noteq> t \<Longrightarrow> free_block t k (as @ bl) = as @ free_block t k bl"
  by (induction as) (auto split: prod.splits)

lemma free_block_here: "bl = [] \<or> t \<le> fst (hd bl) \<Longrightarrow> free_block t k bl = join_head (t, k) bl"
  by (cases bl) auto

lemma join_head_shift:
  "l + n = a \<Longrightarrow> (a, k') # bl' = join_head (a, k) bl \<Longrightarrow>
     join_head (l, n + k) bl = (l, n + k') # bl'"
  by (cases bl) (auto split: if_splits)

lemma blocks_append: "blocks s (xs @ ys) = blocks s xs @ blocks s ys"
  by (simp add: blocks_def)

lemma heap_inv0_touch:
  assumes inv: "heap_inv0 s (as @ a # bs) A" and x: "x \<in> set (as @ a # bs)"
  shows "bend s x = unat a \<Longrightarrow> as \<noteq> [] \<and> x = last as"
    and "bend s a = unat x \<Longrightarrow> bs \<noteq> [] \<and> x = hd bs"
proof -
  have srt: "sorted_wrt (<) (as @ a # bs)" using inv by (simp add: heap_inv0_def)
  have ok: "block_ok s y" if "y \<in> set (as @ a # bs)" for y
    using inv that by (auto simp: heap_inv0_def free_ok_def)
  note ord = heap_inv0_order [OF inv]
  show "as \<noteq> [] \<and> x = last as" if t: "bend s x = unat a"
  proof -
    have "x < a" using t block_ok_bend [OF ok [OF x]] by (simp add: word_less_nat_alt)
    then have xa: "x \<in> set as" using x srt by (auto simp: sorted_wrt_append)
    then obtain as' l where as: "as = as' @ [l]" by (cases as rule: rev_cases) auto
    show ?thesis
    proof (rule ccontr)
      assume "\<not> ?thesis"
      with xa as have "x \<in> set as'" by auto
      then have "x < l" "l < a" using srt as by (auto simp: sorted_wrt_append)
      then show False using ord [of x l] t as x by (auto simp: word_less_nat_alt)
    qed
  qed
  show "bs \<noteq> [] \<and> x = hd bs" if t: "bend s a = unat x"
  proof -
    have "a < x" using t block_ok_bend [OF ok, of a] by (simp add: word_less_nat_alt)
    then have xb: "x \<in> set bs" using x srt by (auto simp: sorted_wrt_append dest: less_not_sym)
    then obtain h bs' where bs: "bs = h # bs'" by (cases bs) auto
    show ?thesis
    proof (rule ccontr)
      assume "\<not> ?thesis"
      with xb bs have "x \<in> set bs'" by auto
      then have "a < h" "h < x" using srt bs by (auto simp: sorted_wrt_append)
      then show False using ord [of a h] t bs by (auto simp: word_less_nat_alt)
    qed
  qed
qed

lemma coalesce_skip_inv0:
  assumes "heap_inv0 s (as @ a # bs) A" and "bs = [] \<or> bend s a \<noteq> unat (hd bs)"
  shows "coalesce_blocks a (headp (\<lambda>a. a) bs 0) s = (0, s)"
proof (cases bs)
  case (Cons b bs')
  have "block_ok s a" using assms by (auto simp: heap_inv0_def free_ok_def)
  then have "unat (a + mh_size (headers s a)) = bend s a" by (simp add: unat_block_end bend_def)
  then show ?thesis using assms(2) Cons by (intro coalesce_skip) auto
qed (simp add: coalesce_skip)

text \<open>First half of the merging: the freed block \<open>a\<close> absorbs its successor.\<close>

lemma kfree_join_next:
  assumes inv: "heap_inv0 s (as @ a # bs) A"
    and gap: "\<forall>x\<in>set (as @ bs). \<forall>y\<in>set (as @ bs). bend s x \<noteq> unat y"
  defines "s' \<equiv> snd (coalesce_blocks a (headp (\<lambda>a. a) bs 0) s)"
  obtains ys where "heap_inv0 s' (as @ a # ys) A"
    and "\<forall>x\<in>set (as @ a # ys). \<forall>y\<in>set (as @ a # ys). bend s' x = unat y \<longrightarrow> y = a"
    and "blocks s' (a # ys) = join_head (unat a, bsize s a) (blocks s bs)"
    and "\<And>x. x \<noteq> a \<Longrightarrow> bsize s' x = bsize s x" and "maxaddr s' = maxaddr s" and "freemem s' = freemem s"
proof (cases "bs = [] \<or> bend s a \<noteq> unat (hd bs)")
  case True
  then have s': "s' = s" using coalesce_skip_inv0 [OF inv] by (simp add: s'_def)
  have tch: "y = a" if xy: "x \<in> set (as @ a # bs)" "y \<in> set (as @ a # bs)" "bend s x = unat y" for x y
  proof (rule ccontr)
    assume "y \<noteq> a"
    with xy gap have "x = a" by auto
    with xy have "bs \<noteq> [] \<and> y = hd bs" by (intro heap_inv0_touch(2) [OF inv]) auto
    with True xy \<open>x = a\<close> show False by auto
  qed
  have blk: "blocks s (a # bs) = join_head (unat a, bsize s a) (blocks s bs)"
    using True by (cases bs) (auto simp: blocks_def bend_def)
  show ?thesis by (rule that [of bs]; unfold s') (use inv tch blk in blast)+
next
  case False
  then obtain b bs' where bs: "bs = b # bs'" and adj: "bend s a = unat b" by (cases bs) auto
  have s': "s' = snd (coalesce_blocks a b s)" by (simp add: s'_def bs)
  note j = coalesce_join_inv0 [OF inv [unfolded bs] adj, folded s']
  have ab: "a < b" and na: "a \<notin> set (as @ bs)"
    using inv by (auto simp: heap_inv0_def sorted_wrt_append bs)
  have ok: "block_ok s b" using inv by (auto simp: heap_inv0_def free_ok_def bs)
  have tch: "y = a" if xy: "x \<in> set (as @ a # bs')" "y \<in> set (as @ a # bs')" "bend s' x = unat y" for x y
  proof (rule ccontr)
    assume "y \<noteq> a"
    then have y: "y \<in> set (as @ bs)" using xy by (auto simp: bs)
    show False
    proof (cases "x = a")
      case True
      with xy j(2) have "bend s b = unat y" by simp
      with gap y show False by (auto simp: bs)
    next
      case False
      with xy j(4) [of x] have "bend s x = unat y" "x \<in> set (as @ bs)" by (auto simp: bs)
      with gap y show False by blast
    qed
  qed
  have blk: "blocks s' (a # bs') = join_head (unat a, bsize s a) (blocks s bs)"
  proof -
    have "bsize s' x = bsize s x" if "x \<in> set bs'" for x using that na j(4) [of x] by (auto simp: bs)
    then show ?thesis using adj j(3) by (simp add: blocks_def bs bend_def)
  qed
  show ?thesis by (rule that [of bs']) (use j tch blk in blast)+
qed

text \<open>Second half: the predecessor absorbs the freed block.\<close>

lemma kfree_join_prev:
  assumes inv: "heap_inv0 s (as @ a # ys) A"
    and tch: "\<forall>x\<in>set (as @ a # ys). \<forall>y\<in>set (as @ a # ys). bend s x = unat y \<longrightarrow> y = a"
  defines "s' \<equiv> snd (coalesce_blocks (lastp (\<lambda>a. a) 0 as) a s)"
  obtains zs where "heap_inv s' zs A"
    and "blocks s' zs = (if as \<noteq> [] \<and> bend s (last as) = unat a
       then blocks s (butlast as) @ (unat (last as), bsize s (last as) + bsize s a) # blocks s ys
       else blocks s (as @ a # ys))"
    and "\<And>x. x \<in> A \<Longrightarrow> bsize s' x = bsize s x" and "maxaddr s' = maxaddr s" and "freemem s' = freemem s"
proof (cases "as \<noteq> [] \<and> bend s (last as) = unat a")
  case False
  have "coalesce_blocks (lastp (\<lambda>a. a) 0 as) a s = (0, s)"
  proof (cases as rule: rev_cases)
    case (snoc as' l)
    with False inv coalesce_skip_inv0 [of s as' l "a # ys" A] show ?thesis
      by (simp add: lastp_append)
  qed (simp add: coalesce_skip)
  then have s': "s' = s" by (simp add: s'_def)
  have "bend s x \<noteq> unat y" if "x \<in> set (as @ a # ys)" "y \<in> set (as @ a # ys)" for x y
  proof
    assume t: "bend s x = unat y"
    with tch that have "y = a" by blast
    with t heap_inv0_touch(1) [OF inv that(1)] False show False by auto
  qed
  then have "heap_inv s (as @ a # ys) A" using inv by (simp only: heap_inv_split) blast
  with False show ?thesis by (intro that [of "as @ a # ys"]; unfold s') auto
next
  case True
  then obtain as' l where as: "as = as' @ [l]" and adj: "bend s l = unat a"
    by (cases as rule: rev_cases) auto
  have s': "s' = snd (coalesce_blocks l a s)" by (simp add: s'_def as lastp_append)
  have inv': "heap_inv0 s (as' @ l # a # ys) A" using inv by (simp add: as)
  note j = coalesce_join_inv0 [OF inv' adj, folded s']
  have d: "l \<notin> set (as' @ ys) \<union> A" "a \<notin> set (as' @ l # ys)"
    using inv' by (auto simp: heap_inv0_def free_list_def)
  have "bend s' x \<noteq> unat y" if xy: "x \<in> set (as' @ l # ys)" "y \<in> set (as' @ l # ys)" for x y
  proof
    assume t: "bend s' x = unat y"
    obtain z where "z \<in> set (as @ a # ys)" "bend s z = unat y"
      using t xy(1) j(2) j(4) [of x] by (cases "x = l") (auto simp: as)
    with tch xy(2) have "y = a" by (auto simp: as)
    with d xy show False by auto
  qed
  then have "heap_inv s' (as' @ l # ys) A" using j(1) by (simp only: heap_inv_split) blast
  moreover have "blocks s' (as' @ l # ys) =
      blocks s (butlast as) @ (unat (last as), bsize s (last as) + bsize s a) # blocks s ys"
  proof -
    have "bsize s' x = bsize s x" if "x \<in> set as' \<union> set ys" for x using that d j(4) [of x] by auto
    then show ?thesis using j(3) by (simp add: blocks_def as)
  qed
  moreover have "bsize s' x = bsize s x" if "x \<in> A" for x using that d j(4) [of x] by auto
  ultimately show ?thesis using j(5,6) True by (intro that [of "as' @ l # ys"]) auto
qed

text \<open>\<open>kfree\<close> of an allocated block never stops, and implements insertion with merging.\<close>

lemma kfree_free_block:
  assumes inv: "heap_inv s xs A" and a: "a \<in> A"
  obtains s' xs' where "kfree (data_start a) s = Some s'" and "heap_inv s' xs' (A - {a})"
    and "blocks s' xs' = free_block (unat a) (bsize s a) (blocks s xs)"
    and "\<And>b. b \<in> A - {a} \<Longrightarrow> bsize s' b = bsize s b"
    and "maxaddr s' = maxaddr s" and "freemem s' = freemem s"
proof -
  define as bs where "as = takeWhile (\<lambda>x. x < a) xs" and "bs = dropWhile (\<lambda>x. x < a) xs"
  have xs: "xs = as @ bs" by (simp add: as_def bs_def)
  have inv0: "heap_inv0 s (as @ bs) A" and gap: "\<forall>x\<in>set (as @ bs). \<forall>y\<in>set (as @ bs). bend s x \<noteq> unat y"
    using inv by (auto simp: heap_inv_split xs)
  have ordA: "x < a" if "x \<in> set as" for x using that by (auto simp: as_def dest: set_takeWhileD)
  have hdB: "bs \<noteq> [] \<Longrightarrow> \<not> hd bs < a" unfolding bs_def by (rule hd_dropWhile)
  have "a \<notin> set bs" using inv a by (auto simp: heap_inv_def xs)
  moreover have "sorted_wrt (<) bs" using inv0 by (simp add: heap_inv0_def sorted_wrt_append)
  ultimately have ordB: "a < x" if "x \<in> set bs" for x
    using that hdB by (cases bs) (auto simp: not_less_iff_gr_or_eq intro: less_trans)
  define s1 where "s1 = kfree_insert a (lastp (\<lambda>a. a) 0 as) (headp (\<lambda>a. a) bs 0) s"
  note i = kfree_insert_inv0 [OF inv0 a ordA ordB, folded s1_def]
  define s2 where "s2 = snd (coalesce_blocks a (headp (\<lambda>a. a) bs 0) s1)"
  obtain ys where j: "heap_inv0 s2 (as @ a # ys) (A - {a})"
    "\<forall>x\<in>set (as @ a # ys). \<forall>y\<in>set (as @ a # ys). bend s2 x = unat y \<longrightarrow> y = a"
    "blocks s2 (a # ys) = join_head (unat a, bsize s1 a) (blocks s1 bs)"
    "\<And>x. x \<noteq> a \<Longrightarrow> bsize s2 x = bsize s1 x" "maxaddr s2 = maxaddr s1" "freemem s2 = freemem s1"
    by (rule kfree_join_next [OF i(1), of thesis, folded s2_def]) (use gap i(2) in simp_all)
  define s3 where "s3 = snd (coalesce_blocks (lastp (\<lambda>a. a) 0 as) a s2)"
  obtain zs where k: "heap_inv s3 zs (A - {a})"
    "blocks s3 zs = (if as \<noteq> [] \<and> bend s2 (last as) = unat a
       then blocks s2 (butlast as) @ (unat (last as), bsize s2 (last as) + bsize s2 a) # blocks s2 ys
       else blocks s2 (as @ a # ys))"
    "\<And>x. x \<in> A - {a} \<Longrightarrow> bsize s3 x = bsize s2 x" "maxaddr s3 = maxaddr s2" "freemem s3 = freemem s2"
    by (rule kfree_join_prev [OF j(1,2), of thesis, folded s3_def]) blast
  have oka: "alloc_ok s a" using inv a by (simp add: heap_inv_def)
  have "kfree (data_start a) s = Some s3"
  proof -
    have "unat (data_start a) = unat a + 16"
      using oka block_ok_bend [of s a]
      by (simp add: data_start_def sizeof_header_def alloc_ok_def bend_def unat_word_ariths)
    then have nz: "data_start a \<noteq> 0" by auto
    have al: "data_start a AND 0xf = 0"
      using oka by (intro data_start_aligned) (simp add: alloc_ok_def block_ok_def)
    have "kfree_place s a 0 (g_free_list s) = Some (lastp (\<lambda>a. a) 0 as, headp (\<lambda>a. a) bs 0)"
      using inv0 kfree_place_split [of s 0 as bs a] ordA hdB
      by (simp add: heap_inv0_def free_list_def)
    moreover have "free_list s1 (as @ a # bs)" "free_list s2 (as @ a # ys)"
      using i(1) j(1) unfolding heap_inv0_def by blast+
    then have "mh_next (headers s1 a) = headp (\<lambda>a. a) bs 0"
      and "mh_prev (headers s2 a) = lastp (\<lambda>a. a) 0 as"
      using free_list_neighbours by blast+
    moreover have "data_start a - sizeof_header = a" by (simp add: data_start_def)
    ultimately show ?thesis
      using nz al oka by (simp add: kfree_def Let_def alloc_ok_def s1_def s2_def s3_def)
  qed
  moreover have "blocks s3 zs = free_block (unat a) (bsize s a) (blocks s xs)"
  proof -
    have na: "a \<notin> set as" using ordA by blast
    have old: "bsize s2 x = bsize s x" "bend s2 x = bend s x" if "x \<in> set as" for x
      using that na i j(4) [of x] by (auto simp: bend_def)
    have h: "blocks s2 (a # ys) = join_head (unat a, bsize s a) (blocks s bs)"
      using j(3) i(3) by (simp add: blocks_def)
    have bas: "blocks s2 zs' = blocks s zs'" if "set zs' \<subseteq> set as" for zs'
      using that old by (auto simp: blocks_def)
    have lt: "\<forall>b\<in>set (blocks s as). fst b < unat a" using ordA by (auto simp: blocks_def word_less_nat_alt)
    have ge: "blocks s bs = [] \<or> unat a \<le> fst (hd (blocks s bs))"
      using hdB by (cases bs) (auto simp: blocks_def word_less_nat_alt)
    have touch: "as \<noteq> [] \<and> x = last as" if "x \<in> set as" "bend s x = unat a" for x
      using heap_inv0_touch(1) [OF i(1), of x] that i(2) by simp
    show ?thesis
    proof (cases "as \<noteq> [] \<and> bend s2 (last as) = unat a")
      case False
      then have "\<forall>b\<in>set (blocks s as). fst b < unat a \<and> fst b + snd b \<noteq> unat a"
        using lt touch old by (auto simp: blocks_def bend_def)
      moreover have "blocks s3 zs = blocks s2 (as @ a # ys)" using False k(2) by (simp only: if_False)
      ultimately show ?thesis using h bas [of as]
        by (simp add: xs blocks_append free_block_append free_block_here ge)
    next
      case True
      then obtain as' l where as: "as = as' @ [l]" by (cases as rule: rev_cases) auto
      have d: "l \<notin> set as'" using inv0 by (auto simp: heap_inv0_def free_list_def as)
      have adj: "unat l + bsize s l = unat a" using True old(2) [of l] by (simp add: as bend_def)
      have "\<forall>b\<in>set (blocks s as'). fst b < unat a \<and> fst b + snd b \<noteq> unat a"
        using lt touch d by (auto simp: blocks_def bend_def as)
      then have "free_block (unat a) (bsize s a) (blocks s xs) =
          blocks s as' @ join_head (unat l, bsize s l + bsize s a) (blocks s bs)"
        using lt adj by (simp add: xs as blocks_append free_block_append) (simp add: blocks_def)
      also have "join_head (unat l, bsize s l + bsize s a) (blocks s bs) =
          (unat l, bsize s l + bsize s2 a) # blocks s2 ys"
        using h adj by (intro join_head_shift) (simp_all add: blocks_def)
      finally show ?thesis
        using True k(2) bas [of as'] old(1) [of l] by (simp add: as subset_insertI)
    qed
  qed
  moreover have "bsize s3 b = bsize s b" if "b \<in> A - {a}" for b
    using that i(3) j(4) k(3) by simp
  ultimately show ?thesis using that [of s3 zs] i j k by simp
qed

subsection \<open>Consequences\<close>

text \<open>What \<open>heap_inv\<close> says of the region list alone: in order, never touching, never empty.\<close>

definition wf_blocks :: "(nat \<times> nat) list \<Rightarrow> bool" where
  "wf_blocks bl \<longleftrightarrow> sorted_wrt (\<lambda>(a, n) (b, m). a + n < b) bl \<and> (\<forall>(a, n)\<in>set bl. 0 < n)"

lemma heap_inv_wf_blocks:
  assumes inv: "heap_inv s xs A"
  shows "wf_blocks (blocks s xs)"
proof -
  have "bend s a < unat b" if "a \<in> set xs" "b \<in> set xs" "a < b" for a b
    using inv heap_inv0_order [of s xs A a b] that by (auto simp: heap_inv_split order_less_le)
  then have "sorted_wrt (\<lambda>a b. bend s a < unat b) xs"
    using inv by (auto simp: heap_inv_def intro: sorted_wrt_mono_rel [of _ "(<)"])
  then show ?thesis
    using inv by (auto simp: wf_blocks_def blocks_def sorted_wrt_map bend_def heap_inv_def free_ok_def
      block_ok_def case_prod_beta)
qed

lemma first_fit_start: "first_fit n bl = Some (b, bl') \<Longrightarrow> \<exists>k. (b, k) \<in> set bl \<and> n \<le> k"
  by (induction n bl arbitrary: bl' rule: first_fit.induct) (auto split: if_splits)

text \<open>Giving back what was just taken restores the list of regions.\<close>

lemma free_after_first_fit:
  "wf_blocks bl \<Longrightarrow> 0 < n \<Longrightarrow> first_fit n bl = Some (b, bl') \<Longrightarrow> free_block b n bl' = bl"
proof (induction n bl arbitrary: bl' rule: first_fit.induct)
  case (2 n a k bl)
  show ?case
  proof (cases "n \<le> k")
    case True
    with 2 have b: "b = a" "bl' = (if k = n then bl else (a + n, k - n) # bl)" by auto
    from 2(2) have "bl = [] \<or> a + k < fst (hd bl)" by (cases bl) (auto simp: wf_blocks_def)
    with b True show ?thesis by (cases bl) (auto simp: free_block_here)
  next
    case False
    with 2 obtain r where r: "first_fit n bl = Some (b, r)" "bl' = (a, k) # r" by auto
    from 2(2) have "wf_blocks bl" "\<forall>x\<in>set bl. a + k < fst x" by (auto simp: wf_blocks_def)
    with 2 r False first_fit_start [OF r(1)] show ?thesis by fastforce
  qed
qed simp

text \<open>The bytes of an allocated block, its header included.\<close>

definition extent :: "mem_state \<Rightarrow> u32 \<Rightarrow> nat set" where
  "extent s a = {unat a ..< bend s a}"

lemma separate_extent: "separate s a b \<Longrightarrow> extent s a \<inter> extent s b = {}"
  by (auto simp: separate_def extent_def)

lemma first_fit_total:
  "first_fit n bl = Some (b, bl') \<Longrightarrow> sum_list (map snd bl) = n + sum_list (map snd bl')"
  by (induction n bl arbitrary: bl' rule: first_fit.induct) (auto split: if_splits)

lemma join_head_total: "sum_list (map snd (join_head (t, k) bl)) = k + sum_list (map snd bl)"
  by (cases bl) auto

lemma free_block_total: "sum_list (map snd (free_block t k bl)) = k + sum_list (map snd bl)"
  by (induction t k bl rule: free_block.induct) (auto simp: join_head_total)

lemma heap_total_blocks: "heap_total s xs A = sum_list (map snd (blocks s xs)) + sum (bsize s) A"
  by (simp add: heap_total_def blocks_def comp_def)

end
