(* ===== verification/Mem_Contract.thy ===== *)
theory Mem_Contract
  imports Mem_Proofs
begin

text \<open>
  What the rest of the kernel relies on of c/mem.c: \<open>kmeminit\<close> establishes the heap invariant,
  and \<open>kmalloc\<close>/\<open>kfree\<close> meet the contract of an allocator (the locale \<open>allocator\<close>), whose
  clients are the creation and the clean-up of processes. The properties of the memory manager
  stand at the end.
\<close>

subsection \<open>Initialisation\<close>

definition boot_layout :: "mem_state \<Rightarrow> bool" where
  "boot_layout s \<longleftrightarrow> 0 < freemem s \<and> freemem s + 16 \<le> HOLESTART \<and>
     nat HOLEEND < unat (maxaddr s) \<and> unat (maxaddr s) < 2 ^ 31"

abbreviation mem_start :: "mem_state \<Rightarrow> u32" where
  "mem_start s \<equiv> round_to_paragraph (word_of_int (freemem s))"

lemma boot_layout_start:
  assumes "boot_layout s"
  shows "nat (freemem s) \<le> unat (mem_start s)" "unat (mem_start s) < nat HOLESTART"
    "16 dvd unat (mem_start s)" "mem_start s \<noteq> 0"
proof -
  have f: "0 < freemem s" "freemem s + 16 \<le> 655360"
    using assms by (simp_all add: boot_layout_def HOLESTART_def)
  then have u: "unat (word_of_int (freemem s) :: u32) = nat (freemem s)"
    by (simp add: unsigned_of_int take_bit_int_eq_self)
  then have "unat (word_of_int (freemem s) :: u32) < 2 ^ 31" using f by simp
  then have r: "unat (mem_start s) = (nat (freemem s) + 15) div 16 * 16"
    using round_to_paragraph_unat [of "word_of_int (freemem s)"] u by simp
  have d: "nat (freemem s) + 15 = (nat (freemem s) + 15) div 16 * 16 + (nat (freemem s) + 15) mod 16"
    by simp
  moreover have "(nat (freemem s) + 15) mod 16 < 16" by simp
  ultimately have b: "nat (freemem s) \<le> unat (mem_start s)" "unat (mem_start s) \<le> nat (freemem s) + 15"
    unfolding r by linarith+
  then show "nat (freemem s) \<le> unat (mem_start s)" "unat (mem_start s) < nat HOLESTART"
    using f by (simp_all add: HOLESTART_def)
  show "16 dvd unat (mem_start s)" by (simp add: r)
  show "mem_start s \<noteq> 0" using b(1) f by auto
qed

lemma kmeminit_inv:
  assumes b: "boot_layout s"
  obtains s' where "kmeminit s = Some s'"
    and "heap_inv s' [mem_start s, word_of_int HOLEEND] {}"
    and "blocks s' [mem_start s, word_of_int HOLEEND] =
      [(unat (mem_start s), nat HOLESTART - unat (mem_start s)),
       (nat HOLEEND, unat (maxaddr s) - nat HOLEEND)]"
    and "maxaddr s' = maxaddr s"
proof -
  let ?m = "mem_start s" and ?p = "word_of_int HOLEEND :: u32"
  note st = boot_layout_start [OF b]
  have lt: "?m < ?p" using st(2) by (simp add: HOLEEND_def HOLESTART_def word_less_nat_alt)
  have p: "unat ?p = nat HOLEEND" "16 dvd unat ?p" "?p \<noteq> 0" by (simp_all add: HOLEEND_def)
  have pm: "?p \<noteq> ?m" using lt by simp
  define s' where "s' = the (kmeminit s)"
  have run: "kmeminit s = Some s'"
    and h: "g_free_list s' = ?m" "maxaddr s' = maxaddr s"
      "mh_prev (headers s' ?m) = 0" "mh_next (headers s' ?m) = ?p"
      "mh_prev (headers s' ?p) = ?m" "mh_next (headers s' ?p) = 0"
      "mh_size (headers s' ?m) = word_of_int HOLESTART - ?m"
      "mh_size (headers s' ?p) = maxaddr s - ?p"
    using pm p(3) st(4)
    by (simp_all add: s'_def kmeminit_def Let_def kmem_get_free_list_length_def
        free_list_count.simps in_s32_def)
  have sz: "bsize s' ?m = nat HOLESTART - unat ?m" "bsize s' ?p = unat (maxaddr s) - nat HOLEEND"
    using st(2) b h by (simp_all add: HOLESTART_def HOLEEND_def boot_layout_def unat_sub_if')
  have be: "bend s' ?m = nat HOLESTART" "bend s' ?p = unat (maxaddr s)"
    using st(2) b sz p(1) by (simp_all add: bend_def HOLESTART_def HOLEEND_def boot_layout_def)
  have dv: "16 dvd bsize s' ?m" unfolding sz using st(3) by (simp add: HOLESTART_def)
  have "free_list s' [?m, ?p]" using h st(4) p(3) pm by (simp add: free_list_def)
  moreover have "free_ok s' ?m" "free_ok s' ?p"
    using st b p be dv sz h unfolding free_ok_def block_ok_def
    by (simp_all add: HOLESTART_def HOLEEND_def boot_layout_def)
  moreover have "separate s' ?m ?p" "bend s' ?m \<noteq> unat ?m" "bend s' ?m \<noteq> unat ?p"
    "bend s' ?p \<noteq> unat ?m" "bend s' ?p \<noteq> unat ?p"
    using be p(1) st(2) b by (simp_all add: separate_def HOLESTART_def HOLEEND_def boot_layout_def)
  ultimately have "heap_inv s' [?m, ?p] {}"
    using lt separate_sym by (simp add: heap_inv_def)
  then show ?thesis using that run sz p(1) h(2) by (simp add: blocks_def)
qed

subsection \<open>The contract of an allocator\<close>

text \<open>
  \<open>live s L\<close>: in state \<open>s\<close> exactly the pointers in the domain of \<open>L\<close> are allocated, \<open>L p\<close> bytes
  each. A request is answered by the null pointer and an unchanged state, or by fresh bytes.
\<close>

locale allocator =
  fixes malloc :: "u32 \<Rightarrow> 's \<Rightarrow> (u32 \<times> 's) option"
    and free :: "u32 \<Rightarrow> 's \<Rightarrow> 's option"
    and live :: "'s \<Rightarrow> (u32 \<rightharpoonup> nat) \<Rightarrow> bool"
  assumes malloc_total: "live s L \<Longrightarrow> \<exists>p s'. malloc n s = Some (p, s')"
    and malloc_null: "live s L \<Longrightarrow> malloc n s = Some (0, s') \<Longrightarrow> s' = s"
    and malloc_fresh: "live s L \<Longrightarrow> malloc n s = Some (p, s') \<Longrightarrow> p \<noteq> 0 \<Longrightarrow>
      p \<notin> dom L \<and> (\<exists>k. unat n \<le> k \<and> live s' (L(p \<mapsto> k)))"
    and free_live: "live s L \<Longrightarrow> p \<in> dom L \<Longrightarrow> \<exists>s'. free p s = Some s' \<and> live s' (L(p := None))"
    and live_apart: "live s L \<Longrightarrow> L p = Some j \<Longrightarrow> L q = Some k \<Longrightarrow> p \<noteq> q \<Longrightarrow>
      {unat p ..< unat p + j} \<inter> {unat q ..< unat q + k} = {}"
begin

text \<open>Releasing distinct live pointers, in any order, always works and leaves the others.\<close>

lemma free_all:
  assumes "live s L" and "set ps \<subseteq> dom L" and "distinct ps"
  shows "\<exists>s'. fold (\<lambda>p r. Option.bind r (free p)) ps (Some s) = Some s' \<and> live s' (L |` (- set ps))"
  using assms
proof (induction ps arbitrary: s L)
  case Nil
  then show ?case by (auto simp: restrict_map_def)
next
  case (Cons p ps)
  have "p \<in> dom L" using Cons.prems(2) by simp
  from free_live [OF Cons.prems(1) this]
  obtain t where t: "free p s = Some t" "live t (L(p := None))" by blast
  have "set ps \<subseteq> dom (L(p := None))" "distinct ps" using Cons.prems by auto
  from Cons.IH [OF t(2) this] obtain s' where
    "fold (\<lambda>p r. Option.bind r (free p)) ps (Some t) = Some s'"
    "live s' (L(p := None) |` (- set ps))"
    by blast
  moreover have "L(p := None) |` (- set ps) = L |` (- set (p # ps))"
    by (auto simp: restrict_map_def fun_eq_iff)
  ultimately show ?case using t(1) by (intro exI [of _ s']) simp
qed

lemma free_two:
  assumes "live s L" and "p \<in> dom L" and "q \<in> dom L" and "p \<noteq> q"
  shows "\<exists>s'. Option.bind (free p s) (free q) = Some s' \<and> live s' (L(p := None, q := None))"
proof -
  have "L |` (- {p, q}) = L(p := None, q := None)" by (auto simp: restrict_map_def fun_eq_iff)
  then show ?thesis using free_all [of s L "[p, q]"] assms by simp
qed

text \<open>
  Two requests in a row, the second of which fails and makes the caller return the first (the
  error path of process creation): nothing is left allocated.
\<close>

lemma second_fails:
  assumes "live s L" and "malloc n s = Some (p, t)" and "p \<noteq> 0" and "malloc m t = Some (0, t')"
  shows "\<exists>s'. free p t' = Some s' \<and> live s' L"
proof -
  obtain k where k: "p \<notin> dom L" "live t (L(p \<mapsto> k))" using malloc_fresh assms(1-3) by blast
  then have "t' = t" using malloc_null assms(4) by blast
  moreover have "L(p \<mapsto> k, p := None) = L" using k(1) by auto
  ultimately show ?thesis using free_live [OF k(2), of p] by simp
qed

end

text \<open>The allocations of a heap: the pointers just past the headers in \<open>A\<close>.\<close>

definition live_map :: "mem_state \<Rightarrow> u32 set \<Rightarrow> u32 \<rightharpoonup> nat" where
  "live_map s A = (\<lambda>p. if p - sizeof_header \<in> A then Some (bsize s (p - sizeof_header) - 16) else None)"

definition heap_live :: "mem_state \<Rightarrow> (u32 \<rightharpoonup> nat) \<Rightarrow> bool" where
  "heap_live s L \<longleftrightarrow> (\<exists>xs A. heap_inv s xs A \<and> L = live_map s A \<and> unat (maxaddr s) < 2 ^ 31)"

lemma data_start_minus [simp]: "data_start a - sizeof_header = a"
  by (simp add: data_start_def)

lemma kmalloc_refused:
  assumes "sz = 0 \<or> maxaddr s \<le> sz"
  shows "kmalloc sz s = Some (0, s)"
  using assms by (auto simp: kmalloc_def kmem_maxaddr_def)

lemma data_start_alloc:
  assumes "heap_inv s xs A" and "a \<in> A" and "unat (maxaddr s) < 2 ^ 31"
  shows "unat (data_start a) = unat a + 16" and "data_start a \<noteq> 0"
proof -
  have "alloc_ok s a" using assms by (simp add: heap_inv_def)
  then have "unat a + bsize s a < 2 ^ 31" "32 \<le> bsize s a"
    using assms(3) by (auto simp: alloc_ok_def block_ok_def bend_def)
  then show u: "unat (data_start a) = unat a + 16"
    by (simp add: data_start_def sizeof_header_def unat_word_ariths)
  then show "data_start a \<noteq> 0" by (metis add_is_0 unat_0 zero_neq_numeral)
qed

lemma kmalloc_cases:
  assumes inv: "heap_inv s xs A" and max: "unat (maxaddr s) < 2 ^ 31"
  obtains "kmalloc sz s = Some (0, s)"
  | s' xs' c where "kmalloc sz s = Some (data_start c, s')" "heap_inv s' xs' (insert c A)" "c \<notin> A"
    "bsize s' c = alloc_bytes sz" "\<forall>a\<in>A. bsize s' a = bsize s a" "maxaddr s' = maxaddr s"
proof (cases "0 < sz \<and> sz < maxaddr s")
  case False
  then show ?thesis using that(1) kmalloc_refused by (metis not_less word_gt_0)
next
  case True
  then show ?thesis
    using kmalloc_first_fit [OF inv, of sz] max that by (auto split: option.splits)
qed

lemma live_map_insert:
  assumes "c \<notin> A" and "\<forall>a\<in>A. bsize s' a = bsize s a"
  shows "live_map s' (insert c A) = (live_map s A)(data_start c \<mapsto> bsize s' c - 16)"
proof
  fix p
  show "live_map s' (insert c A) p = ((live_map s A)(data_start c \<mapsto> bsize s' c - 16)) p"
  proof (cases "p = data_start c")
    case False
    then have "p - sizeof_header \<noteq> c" by (auto simp: data_start_def)
    with False assms show ?thesis by (auto simp: live_map_def)
  qed (simp add: live_map_def)
qed

lemma live_map_remove:
  assumes "\<And>b. b \<in> A - {a} \<Longrightarrow> bsize s' b = bsize s b"
  shows "live_map s' (A - {a}) = (live_map s A)(data_start a := None)"
  using assms by (auto simp: live_map_def fun_eq_iff data_start_def)

interpretation kmem: allocator kmalloc kfree heap_live
proof
  fix s L n
  assume "heap_live s L"
  then obtain xs A where inv: "heap_inv s xs A" and L: "L = live_map s A"
    and max: "unat (maxaddr s) < 2 ^ 31" by (auto simp: heap_live_def)
  show "\<exists>p s'. kmalloc n s = Some (p, s')" by (rule kmalloc_cases [OF inv max, of n]) auto
  have nz: "data_start c \<noteq> 0" if "heap_inv s' xs' (insert c A)" "maxaddr s' = maxaddr s" for s' xs' c
    using data_start_alloc(2) [OF that(1), of c] that(2) max by simp
  show "s' = s" if "kmalloc n s = Some (0, s')" for s'
    by (rule kmalloc_cases [OF inv max, of n]) (use that nz in auto)
  show "p \<notin> dom L \<and> (\<exists>k. unat n \<le> k \<and> heap_live s' (L(p \<mapsto> k)))"
    if "kmalloc n s = Some (p, s')" "p \<noteq> 0" for p s'
  proof (rule kmalloc_cases [OF inv max, of n])
    fix t ys c
    assume t: "kmalloc n s = Some (data_start c, t)" "heap_inv t ys (insert c A)" "c \<notin> A"
      "bsize t c = alloc_bytes n" "\<forall>a\<in>A. bsize t a = bsize s a" "maxaddr t = maxaddr s"
    have "unat n + 15 = (unat n + 15) div 16 * 16 + (unat n + 15) mod 16" by simp
    moreover have "(unat n + 15) mod 16 < 16" by simp
    ultimately have "unat n \<le> bsize t c - 16" unfolding t(4) alloc_bytes_def by linarith
    moreover have "heap_live t (L(data_start c \<mapsto> bsize t c - 16))"
      using t max live_map_insert [OF t(3,5)] unfolding heap_live_def L by metis
    moreover have "data_start c \<notin> dom L" using t(3) by (simp add: L live_map_def dom_def)
    ultimately show ?thesis using t(1) that by auto
  qed (use that in simp)
next
  fix s L p
  assume "heap_live s L" and p: "p \<in> dom L"
  then obtain xs A where inv: "heap_inv s xs A" and L: "L = live_map s A"
    and max: "unat (maxaddr s) < 2 ^ 31" by (auto simp: heap_live_def)
  let ?a = "p - sizeof_header"
  have a: "?a \<in> A" and d: "data_start ?a = p"
    using p by (auto simp: L live_map_def data_start_def split: if_splits)
  obtain s' xs' where s': "kfree (data_start ?a) s = Some s'" "heap_inv s' xs' (A - {?a})"
    "\<And>b. b \<in> A - {?a} \<Longrightarrow> bsize s' b = bsize s b" "maxaddr s' = maxaddr s"
    by (rule kfree_free_block [OF inv a]) blast
  have "heap_live s' (L(data_start ?a := None))"
    using s'(2,4) max live_map_remove [of A ?a s' s] s'(3) unfolding heap_live_def L by metis
  then show "\<exists>s'. kfree p s = Some s' \<and> heap_live s' (L(p := None))" using s'(1) d by simp
next
  fix s L p j q k
  assume "heap_live s L" and pq: "L p = Some j" "L q = Some k" "p \<noteq> q"
  then obtain xs A where inv: "heap_inv s xs A" and L: "L = live_map s A"
    and max: "unat (maxaddr s) < 2 ^ 31" by (auto simp: heap_live_def)
  let ?a = "p - sizeof_header" and ?b = "q - sizeof_header"
  have ab: "?a \<in> A" "?b \<in> A" "j = bsize s ?a - 16" "k = bsize s ?b - 16" "?a \<noteq> ?b"
    using pq by (auto simp: L live_map_def split: if_splits)
  moreover have "p = data_start ?a" "q = data_start ?b" by (simp_all add: data_start_def)
  then have "unat p = unat ?a + 16" "unat q = unat ?b + 16"
    using data_start_alloc(1) [OF inv ab(1) max] data_start_alloc(1) [OF inv ab(2) max] by simp_all
  moreover have "separate s ?a ?b" using heap_inv_separate [OF inv] ab by blast
  ultimately show "{unat p ..< unat p + j} \<inter> {unat q ..< unat q + k} = {}"
    by (auto simp: separate_def bend_def)
qed

subsection \<open>The bytes under management\<close>

definition region_bytes :: "(nat \<times> nat) list \<Rightarrow> nat set" where
  "region_bytes bl = (\<Union>(a, k)\<in>set bl. {a ..< a + k})"

definition heap_bytes :: "mem_state \<Rightarrow> u32 list \<Rightarrow> u32 set \<Rightarrow> nat set" where
  "heap_bytes s xs A = region_bytes (blocks s xs) \<union> (\<Union>a\<in>A. extent s a)"

lemma region_bytes_simps [simp]:
  "region_bytes [] = {}" "region_bytes ((a, k) # bl) = {a ..< a + k} \<union> region_bytes bl"
  by (auto simp: region_bytes_def)

lemma first_fit_bytes:
  "first_fit n bl = Some (b, bl') \<Longrightarrow> region_bytes bl = {b ..< b + n} \<union> region_bytes bl'"
  by (induction n bl arbitrary: bl' rule: first_fit.induct)
    (auto split: if_splits simp: ivl_disj_un)

lemma join_head_bytes: "region_bytes (join_head (t, k) bl) = {t ..< t + k} \<union> region_bytes bl"
  by (cases bl) (auto split: if_splits)

lemma free_block_bytes: "region_bytes (free_block t k bl) = {t ..< t + k} \<union> region_bytes bl"
  by (induction t k bl rule: free_block.induct) (auto simp: join_head_bytes split: if_splits)

lemma kmalloc_bytes:
  assumes inv: "heap_inv s xs A" and max: "unat (maxaddr s) < 2 ^ 31"
    and run: "kmalloc sz s = Some (p, s')"
  obtains xs' A' where "heap_inv s' xs' A'" and "heap_bytes s' xs' A' = heap_bytes s xs A"
    and "data_start ` A' = (if p = 0 then data_start ` A else insert p (data_start ` A))"
    and "maxaddr s' = maxaddr s"
proof (cases "0 < sz \<and> sz < maxaddr s \<and> first_fit (alloc_bytes sz) (blocks s xs) \<noteq> None")
  case False
  then have "kmalloc sz s = Some (0, s)"
    using kmalloc_refused [of sz s] kmalloc_first_fit [OF inv, of sz] max
    by (cases "0 < sz \<and> sz < maxaddr s"; cases "first_fit (alloc_bytes sz) (blocks s xs)")
      (auto simp: not_less)
  then show ?thesis using that [of xs A] inv run by simp
next
  case True
  then obtain b bl where ff: "first_fit (alloc_bytes sz) (blocks s xs) = Some (b, bl)" by auto
  then obtain t ys c where c: "kmalloc sz s = Some (data_start c, t)" "unat c = b"
    "heap_inv t ys (insert c A)" "blocks t ys = bl" "bsize t c = alloc_bytes sz"
    "\<forall>a\<in>A. bsize t a = bsize s a" "maxaddr t = maxaddr s"
    using kmalloc_first_fit [OF inv, of sz] True max by auto
  have "data_start c \<noteq> 0" using data_start_alloc(2) [OF c(3)] c(7) max by simp
  moreover have "extent t a = extent s a" if "a \<in> A" for a
    using that c(6) by (simp add: extent_def bend_def)
  then have "heap_bytes t ys (insert c A) = heap_bytes s xs A"
    using first_fit_bytes [OF ff] c by (auto simp: heap_bytes_def extent_def bend_def)
  ultimately show ?thesis using that [of ys "insert c A"] c run by simp
qed

lemma kfree_bytes:
  assumes inv: "heap_inv s xs A" and a: "a \<in> A"
  obtains s' xs' where "kfree (data_start a) s = Some s'" and "heap_inv s' xs' (A - {a})"
    and "heap_bytes s' xs' (A - {a}) = heap_bytes s xs A" and "maxaddr s' = maxaddr s"
proof -
  obtain s' xs' where s': "kfree (data_start a) s = Some s'" "heap_inv s' xs' (A - {a})"
    "blocks s' xs' = free_block (unat a) (bsize s a) (blocks s xs)"
    "\<And>b. b \<in> A - {a} \<Longrightarrow> bsize s' b = bsize s b" "maxaddr s' = maxaddr s"
    by (rule kfree_free_block [OF inv a]) blast
  have "extent s' b = extent s b" if "b \<in> A - {a}" for b
    using s'(4) [OF that] by (simp add: extent_def bend_def)
  then have "heap_bytes s' xs' (A - {a}) = heap_bytes s xs A"
    using a s'(3) by (auto simp: heap_bytes_def free_block_bytes extent_def bend_def)
  then show ?thesis using that s' by blast
qed

text \<open>
  The states of the memory manager after \<open>kmeminit\<close> and any sequence of requests and releases
  of pointers that are allocated at that moment; the set holds the allocated pointers.
\<close>

inductive heap_run :: "mem_state \<Rightarrow> mem_state \<Rightarrow> u32 set \<Rightarrow> bool" for s0 where
  boot: "kmeminit s0 = Some s \<Longrightarrow> heap_run s0 s {}"
| alloc: "heap_run s0 s P \<Longrightarrow> kmalloc n s = Some (p, s') \<Longrightarrow>
    heap_run s0 s' (if p = 0 then P else insert p P)"
| release: "heap_run s0 s P \<Longrightarrow> p \<in> P \<Longrightarrow> kfree p s = Some s' \<Longrightarrow> heap_run s0 s' (P - {p})"

definition managed_bytes :: "mem_state \<Rightarrow> nat set" where
  "managed_bytes s = {unat (mem_start s) ..< nat HOLESTART} \<union> {nat HOLEEND ..< unat (maxaddr s)}"

lemma heap_run_inv:
  assumes "heap_run s0 s P" and "boot_layout s0"
  shows "\<exists>xs A. heap_inv s xs A \<and> P = data_start ` A \<and> heap_bytes s xs A = managed_bytes s0 \<and>
    maxaddr s = maxaddr s0"
  using assms
proof (induction rule: heap_run.induct)
  case (boot s)
  obtain s' where s': "kmeminit s0 = Some s'"
    "heap_inv s' [mem_start s0, word_of_int HOLEEND] {}"
    "blocks s' [mem_start s0, word_of_int HOLEEND] =
      [(unat (mem_start s0), nat HOLESTART - unat (mem_start s0)),
       (nat HOLEEND, unat (maxaddr s0) - nat HOLEEND)]"
    "maxaddr s' = maxaddr s0"
    by (rule kmeminit_inv [OF boot(2)]) blast
  then have "heap_bytes s' [mem_start s0, word_of_int HOLEEND] {} = managed_bytes s0"
    using boot_layout_start(2) [OF boot(2)] boot(2)
    by (simp add: heap_bytes_def managed_bytes_def boot_layout_def)
  then show ?case using boot(1) s' by auto
next
  case (alloc s P n p s')
  then obtain xs A where inv: "heap_inv s xs A" "P = data_start ` A"
    "heap_bytes s xs A = managed_bytes s0" "maxaddr s = maxaddr s0" by blast
  moreover have "unat (maxaddr s) < 2 ^ 31" using inv(4) alloc.prems by (simp add: boot_layout_def)
  ultimately show ?case using kmalloc_bytes [OF inv(1) _ alloc(2)] by metis
next
  case (release s P p s')
  then obtain xs A where inv: "heap_inv s xs A" "P = data_start ` A"
    "heap_bytes s xs A = managed_bytes s0" "maxaddr s = maxaddr s0" by blast
  with release(2) obtain a where a: "a \<in> A" "p = data_start a" by blast
  have "inj data_start" by (simp add: inj_def data_start_def)
  then have "data_start ` A - {data_start a} = data_start ` (A - {a})" by (auto dest: injD)
  then show ?case using kfree_bytes [OF inv(1) a(1)] release(3) inv a by (metis option.inject)
qed

subsection \<open>Properties of the memory manager\<close>

text \<open>C9: On a well-formed heap \<open>kmalloc\<close> is first fit: it fails, leaving the state unchanged,
  exactly when no free region holds the rounded request and its header; otherwise it returns the
  data address of the front of the first region that does, the rest of that region stays free,
  every other block is as before and the heap stays well-formed.\<close>

theorem kmalloc_refines_first_fit:
  assumes "heap_inv s xs A" and "0 < sz" and "sz < maxaddr s" and "unat (maxaddr s) < 2 ^ 31"
  shows "case first_fit (alloc_bytes sz) (blocks s xs) of
      None \<Rightarrow> kmalloc sz s = Some (0, s)
    | Some (b, bl) \<Rightarrow> \<exists>s' xs' c. kmalloc sz s = Some (data_start c, s') \<and> unat c = b \<and>
        heap_inv s' xs' (insert c A) \<and> c \<notin> A \<and> blocks s' xs' = bl \<and> bsize s' c = alloc_bytes sz \<and>
        (\<forall>a\<in>A. bsize s' a = bsize s a)"
  using kmalloc_first_fit [OF assms] by (auto split: option.splits)

text \<open>C10: \<open>kfree\<close> of an allocated block never stops on one of its assertions; the block goes
  into the free list at its place in address order, merged with the regions it touches, and
  every other allocation is unchanged.\<close>

theorem kfree_refines_insertion:
  assumes "heap_inv s xs A" and "a \<in> A"
  shows "\<exists>s' xs'. kfree (data_start a) s = Some s' \<and> heap_inv s' xs' (A - {a}) \<and>
    blocks s' xs' = free_block (unat a) (bsize s a) (blocks s xs) \<and>
    (\<forall>b\<in>A - {a}. bsize s' b = bsize s b)"
  by (rule kfree_free_block [OF assms]) blast

text \<open>C11: Releasing a block right after it was allocated gives back the list of free regions,
  region by region, and the same allocations.\<close>

theorem kmalloc_then_kfree:
  assumes "heap_inv s xs A" and "unat (maxaddr s) < 2 ^ 31" and "kmalloc sz s = Some (p, s')"
    and "p \<noteq> 0"
  shows "\<exists>s'' xs''. kfree p s' = Some s'' \<and> heap_inv s'' xs'' A \<and> blocks s'' xs'' = blocks s xs"
proof -
  have sz: "0 < sz" "sz < maxaddr s" using kmalloc_refused [of sz s] assms(3,4) by (fastforce simp: not_le word_gt_0)+
  obtain b bl where ff: "first_fit (alloc_bytes sz) (blocks s xs) = Some (b, bl)"
    using kmalloc_first_fit [OF assms(1) sz assms(2)] assms(3,4)
    by (cases "first_fit (alloc_bytes sz) (blocks s xs)") auto
  then obtain xs' c where c: "p = data_start c" "unat c = b" "heap_inv s' xs' (insert c A)"
    "c \<notin> A" "blocks s' xs' = bl" "bsize s' c = alloc_bytes sz"
    using kmalloc_first_fit [OF assms(1) sz assms(2)] assms(3) by auto
  obtain s'' xs'' where "kfree p s' = Some s''" "heap_inv s'' xs'' (insert c A - {c})"
    "blocks s'' xs'' = free_block b (alloc_bytes sz) bl"
    using kfree_free_block [OF c(3), of c] c by (metis insertI1)
  moreover have "free_block b (alloc_bytes sz) bl = blocks s xs"
    using free_after_first_fit [OF heap_inv_wf_blocks [OF assms(1)] _ ff] alloc_bytes_bounds [OF sz(1)]
    by simp
  ultimately show ?thesis using c(4) by auto
qed

text \<open>C8: After \<open>kmeminit\<close>, in every state that any sequence of requests and releases leads to,
  the heap is well-formed, the allocated pointers are the blocks of the invariant, and the bytes of
  the free and the allocated blocks together are exactly the two regions below and above the
  I/O hole: nothing is lost, and no byte of the hole is ever handed out.\<close>

theorem heap_run_conserves:
  assumes "boot_layout s0" and "heap_run s0 s P"
  shows "\<exists>xs A. heap_inv s xs A \<and> P = data_start ` A \<and> heap_bytes s xs A = managed_bytes s0"
  using heap_run_inv [OF assms(2,1)] by blast

lemma heap_live_aligned:
  assumes "heap_live s L" and "p \<in> dom L"
  shows "16 dvd unat p"
proof -
  obtain xs A where h: "heap_inv s xs A" "L = live_map s A" "unat (maxaddr s) < 2 ^ 31"
    using assms(1) by (auto simp: heap_live_def)
  then have a: "p - sizeof_header \<in> A" using assms(2) by (auto simp: live_map_def split: if_splits)
  then have "16 dvd unat (p - sizeof_header)" using h(1) by (simp add: heap_inv_def alloc_ok_def block_ok_def)
  moreover have "unat p = unat (p - sizeof_header) + 16"
    using data_start_alloc(1) [OF h(1) a h(3)] by (simp add: data_start_def)
  ultimately show ?thesis by simp
qed

text \<open>C7: On a well-formed heap a request always returns: with the null pointer, and then nothing has
  changed, or with a new block that has at least the requested length, starts on a 16-byte boundary and
  is disjoint from every block allocated before.\<close>

theorem kmalloc_fresh_block:
  assumes "heap_live s L"
  shows "\<exists>p s'. kmalloc n s = Some (p, s') \<and>
    (if p = 0 then s' = s
     else p \<notin> dom L \<and> 16 dvd unat p \<and>
       (\<exists>j. heap_live s' (L(p \<mapsto> j)) \<and> unat n \<le> j \<and>
         (\<forall>q k. L q = Some k \<longrightarrow> {unat p ..< unat p + j} \<inter> {unat q ..< unat q + k} = {})))"
proof -
  obtain p s' where r: "kmalloc n s = Some (p, s')" using kmem.malloc_total [OF assms] by blast
  show ?thesis
  proof (cases "p = 0")
    case True
    then show ?thesis using kmem.malloc_null [OF assms] r by auto
  next
    case False
    then obtain j where j: "p \<notin> dom L" "unat n \<le> j" "heap_live s' (L(p \<mapsto> j))"
      using kmem.malloc_fresh [OF assms r] by blast
    have apart: "\<forall>q k. L q = Some k \<longrightarrow> {unat p ..< unat p + j} \<inter> {unat q ..< unat q + k} = {}"
    proof (intro allI impI)
      fix q k assume that: "L q = Some k"
      have "p \<noteq> q" using j(1) that by auto
      then show "{unat p ..< unat p + j} \<inter> {unat q ..< unat q + k} = {}"
        using kmem.live_apart [OF j(3), of p j q k] that by simp
    qed
    have "16 dvd unat p" using heap_live_aligned [OF j(3)] by simp
    then show ?thesis unfolding r using False j apart by (intro exI [of _ p] exI [of _ s']) (simp only: if_False simp_thms; blast)
  qed
qed

subsection \<open>A concrete heap\<close>

definition boot_mem :: mem_state where
  "boot_mem = \<lparr>headers = (\<lambda>_. \<lparr>mh_size = 0, mh_prev = 0, mh_next = 0, mh_sanity = 0\<rparr>),
     g_free_list = 0, freemem = 0x20001, maxaddr = 0x3FFFFF\<rparr>"

definition heap0 :: mem_state where "heap0 = the (kmeminit boot_mem)"
definition heap1 :: mem_state where "heap1 = snd (the (kmalloc 100 heap0))"

lemma boot_layout_mem: "boot_layout boot_mem"
  by (simp add: boot_layout_def boot_mem_def HOLESTART_def HOLEEND_def)

lemma mem_start_boot: "mem_start boot_mem = 0x20010"
  by (simp add: boot_mem_def round_to_paragraph_def)

lemma heap0_inv: "heap_inv heap0 [0x20010, 0x196000] {}"
    and heap0_run: "kmeminit boot_mem = Some heap0"
    and heap0_blocks: "blocks heap0 [0x20010, 0x196000] = [(0x20010, 0x7FFF0), (0x196000, 0x269FFF)]"
    and heap0_max: "maxaddr heap0 = 0x3FFFFF"
proof -
  obtain s' where s': "kmeminit boot_mem = Some s'"
    "heap_inv s' [mem_start boot_mem, word_of_int HOLEEND] {}"
    "blocks s' [mem_start boot_mem, word_of_int HOLEEND] =
      [(unat (mem_start boot_mem), nat HOLESTART - unat (mem_start boot_mem)),
       (nat HOLEEND, unat (maxaddr boot_mem) - nat HOLEEND)]" "maxaddr s' = maxaddr boot_mem"
    by (rule kmeminit_inv [OF boot_layout_mem]) blast
  then have h: "heap0 = s'" by (simp add: heap0_def)
  have "maxaddr boot_mem = 0x3FFFFF" by (simp add: boot_mem_def)
  with s' h show "heap_inv heap0 [0x20010, 0x196000] {}" "kmeminit boot_mem = Some heap0"
    "blocks heap0 [0x20010, 0x196000] = [(0x20010, 0x7FFF0), (0x196000, 0x269FFF)]"
    "maxaddr heap0 = 0x3FFFFF"
    by (simp_all add: mem_start_boot HOLEEND_def HOLESTART_def)
qed

lemma heap1_alloc: "kmalloc 100 heap0 = Some (0x20020, heap1)"
    and heap1_inv: "\<exists>xs. heap_inv heap1 xs {0x20010} \<and>
      blocks heap1 xs = [(0x20090, 0x7FF70), (0x196000, 0x269FFF)]"
    and heap1_max: "maxaddr heap1 = 0x3FFFFF"
proof -
  have "first_fit (alloc_bytes 100) (blocks heap0 [0x20010, 0x196000]) =
      Some (0x20010, [(0x20090, 0x7FF70), (0x196000, 0x269FFF)])"
    by (simp add: heap0_blocks alloc_bytes_def)
  then obtain s' xs' c where c: "kmalloc 100 heap0 = Some (data_start c, s')" "unat c = 0x20010"
    "heap_inv s' xs' {c}" "blocks s' xs' = [(0x20090, 0x7FF70), (0x196000, 0x269FFF)]"
    "maxaddr s' = 0x3FFFFF"
    using kmalloc_first_fit [OF heap0_inv, of 100] heap0_max by auto
  then have "c = 0x20010" by (simp add: word_unat_eq_iff)
  with c show "kmalloc 100 heap0 = Some (0x20020, heap1)" "maxaddr heap1 = 0x3FFFFF"
    "\<exists>xs. heap_inv heap1 xs {0x20010} \<and> blocks heap1 xs = [(0x20090, 0x7FF70), (0x196000, 0x269FFF)]"
    by (auto simp: heap1_def data_start_def sizeof_header_def)
qed

lemma kmalloc_refines_first_fit_witness:
  "\<exists>s' xs' c. kmalloc 100 heap0 = Some (data_start c, s') \<and> unat c = 0x20010 \<and>
     blocks s' xs' = [(0x20090, 0x7FF70), (0x196000, 0x269FFF)]"
  using kmalloc_refines_first_fit [OF heap0_inv, of 100] heap0_max
  by (auto simp: heap0_blocks alloc_bytes_def)

lemma kfree_refines_insertion_witness: "\<exists>s' xs'. kfree 0x20020 heap1 = Some s' \<and> heap_inv s' xs' {}"
proof -
  obtain xs where "heap_inv heap1 xs {0x20010}" using heap1_inv by blast
  from kfree_refines_insertion [OF this, of "0x20010"]
  show ?thesis by (fastforce simp: data_start_def sizeof_header_def)
qed

lemma kmalloc_then_kfree_witness:
  "\<exists>s xs. kfree 0x20020 heap1 = Some s \<and> blocks s xs = [(0x20010, 0x7FFF0), (0x196000, 0x269FFF)]"
  using kmalloc_then_kfree [OF heap0_inv _ heap1_alloc] heap0_max by (auto simp: heap0_blocks)

lemma heap_run_conserves_witness:
  "\<exists>xs A. heap_inv heap1 xs A \<and> {0x20020} = data_start ` A \<and>
     heap_bytes heap1 xs A = {0x20010 ..< 0xA0000} \<union> {0x196000 ..< 0x3FFFFF}"
proof -
  have "heap_run boot_mem heap1 {0x20020}"
    using heap_run.alloc [OF heap_run.boot [OF heap0_run] heap1_alloc] by simp
  moreover have "managed_bytes boot_mem = {0x20010 ..< 0xA0000} \<union> {0x196000 ..< 0x3FFFFF}"
    unfolding managed_bytes_def mem_start_boot by (simp add: HOLEEND_def HOLESTART_def boot_mem_def)
  ultimately show ?thesis using heap_run_conserves [OF boot_layout_mem] by simp
qed

lemma heap1_live: "\<exists>k. heap_live heap1 [0x20020 \<mapsto> k]"
proof -
  have "live_map heap0 {} = Map.empty" by (simp add: live_map_def)
  then have "heap_live heap0 Map.empty"
    unfolding heap_live_def using heap0_inv heap0_max
    by (intro exI [of _ "[0x20010, 0x196000]"] exI [of _ "{}"]) simp
  then show ?thesis using kmem.malloc_fresh [OF _ heap1_alloc] by auto
qed

lemma heap1_second: "\<exists>p s'. kmalloc 5000 heap1 = Some (p, s') \<and> p \<noteq> 0"
proof -
  obtain xs where xs: "heap_inv heap1 xs {0x20010}"
    "blocks heap1 xs = [(0x20090, 0x7FF70), (0x196000, 0x269FFF)]" using heap1_inv by blast
  have "first_fit (alloc_bytes 5000) (blocks heap1 xs) =
      Some (0x20090, [(0x21430, 0x7EBD0), (0x196000, 0x269FFF)])"
    by (simp add: xs(2) alloc_bytes_def)
  then obtain s' c where "kmalloc 5000 heap1 = Some (data_start c, s')" "unat c = 0x20090"
    using kmalloc_first_fit [OF xs(1), of 5000] heap1_max by auto
  moreover from this have "c = 0x20090" by (simp add: word_unat_eq_iff)
  ultimately show ?thesis by (auto simp: data_start_def sizeof_header_def)
qed

lemma kmalloc_fresh_block_witness:
  "\<exists>p s' k j. kmalloc 5000 heap1 = Some (p, s') \<and> heap_live s' [0x20020 \<mapsto> k, p \<mapsto> j] \<and> 5000 \<le> j"
proof -
  obtain k where k: "heap_live heap1 [0x20020 \<mapsto> k]" using heap1_live by blast
  obtain p s' where p: "kmalloc 5000 heap1 = Some (p, s')" "p \<noteq> 0" using heap1_second by blast
  show ?thesis using kmalloc_fresh_block [OF k, of 5000] p by fastforce
qed

end
