(* ===== verification/Kernel_Inv.thy ===== *)
theory Kernel_Inv
  imports Sleep_Facts Dispatch Mem_Contract
begin

text \<open>
  The invariant of the kernel between two steps of the dispatcher, \<open>kinv s r qs\<close>: every process is
  in exactly the queue its state names (\<open>qs\<close>), \<open>r\<close> is the only running process, process numbers
  belong to their slots, blocked processes wait for live ones, the sleep list is a proper delta
  list, live processes own disjoint allocated blocks, and the keyboard's counters are right.
  The lemmas say what keeps it; those of the handlers build on them.
\<close>

subsection \<open>Control blocks\<close>

definition known :: "pcbref \<Rightarrow> bool" where
  "known p \<longleftrightarrow> valid p \<or> p = IdleProc"

definition alive :: "proc_map \<Rightarrow> pcbref \<Rightarrow> bool" where
  "alive ps p \<longleftrightarrow> valid p \<and> curr_state (ps p) \<noteq> PROC_STATE_STOPPED"

text \<open>The process numbers of a table entry are those congruent to its index plus one.\<close>

fun pid_slot :: "pcbref \<Rightarrow> int \<Rightarrow> bool" where
  "pid_slot (Table i) n = (1 \<le> n \<and> in_s32 n \<and> (n - 1) mod int PCB_TABLE_SIZE = int i)"
| "pid_slot IdleProc n = (n = 0)"

text \<open>The blocking fields agree with the state.\<close>

definition blocking_ok :: "proc_map \<Rightarrow> pcb \<Rightarrow> bool" where
  "blocking_ok ps c = (case curr_state c of
       PROC_STATE_STOPPED \<Rightarrow> True
     | PROC_STATE_BLOCKED \<Rightarrow> (case blocking_proc c of
         None \<Rightarrow> blocking_queue_name c \<in> {SLEEP, RECEIVE_ANY, DEVICE}
       | Some w \<Rightarrow> has_queue (blocking_queue_name c) \<and> alive ps w)
     | _ \<Rightarrow> blocking_proc c = None \<and> blocking_queue_name c = NO_BLOCKER)"

definition procs_ok :: "proc_map \<Rightarrow> pcbref option \<Rightarrow> bool" where
  "procs_ok ps r \<longleftrightarrow>
     (\<forall>p. known p \<longrightarrow> pid_slot p (pid (ps p))) \<and>
     (\<forall>p. known p \<longrightarrow> (curr_state (ps p) = PROC_STATE_RUNNING \<longleftrightarrow> r = Some p)) \<and>
     (\<forall>p. r = Some p \<longrightarrow> known p) \<and>
     (\<forall>p. valid p \<longrightarrow> blocking_ok ps (ps p))"

subsection \<open>Memory and devices\<close>

text \<open>A live process owns its stack and its signal table; no two of these blocks are the same.
  Those in \<open>X\<close> are exempt: a process that is being cleaned up has given its memory back.\<close>

definition owned_block :: "proc_map \<Rightarrow> bool \<times> pcbref \<Rightarrow> u32" where
  "owned_block ps = (\<lambda>(b, p). if b then memory_region (ps p) else signal_table (ps p))"

definition mem_ok :: "pcbref set \<Rightarrow> mem_state \<Rightarrow> proc_map \<Rightarrow> bool" where
  "mem_ok X h ps \<longleftrightarrow> (\<exists>L. heap_live h L \<and>
     owned_block ps ` (UNIV \<times> ({p. alive ps p} - X)) \<subseteq> dom L \<and>
     inj_on (owned_block ps) (UNIV \<times> ({p. alive ps p} - X)))"

definition open_fds :: "pcb \<Rightarrow> nat set" where
  "open_fds c = {fd. fd < PCB_NUM_FDS \<and> fd_table c fd \<noteq> None}"

text \<open>The number of open descriptors in the system.\<close>

definition open_count :: "proc_map \<Rightarrow> nat" where
  "open_count ps = (\<Sum>i<PCB_TABLE_SIZE. card (open_fds (ps (Table i))))"

definition slot_of :: "int \<Rightarrow> nat" where
  "slot_of n = nat (n mod int KBD_TASK_LIST_SIZE)"

definition dev_ok :: "(nat \<Rightarrow> devsw) \<Rightarrow> kbd_state \<Rightarrow> proc_map \<Rightarrow> bool" where
  "dev_ok devs k ps \<longleftrightarrow>
     (\<forall>i<NUM_DEVICES_ID_ENUMS. dvdriver (devs i) = KbdDriver) \<and>
     (\<forall>p fd e. valid p \<longrightarrow> fd < PCB_NUM_FDS \<longrightarrow> fd_table (ps p) fd = Some e \<longrightarrow> e < NUM_DEVICES_ID_ENUMS) \<and>
     (\<forall>p. valid p \<longrightarrow> curr_state (ps p) = PROC_STATE_STOPPED \<longrightarrow> open_fds (ps p) = {}) \<and>
     kbd_refcount k = int (open_count ps) \<and>
     buffer_head k < KEYBOARD_BUFFER_SIZE \<and> buffer_tail k < KEYBOARD_BUFFER_SIZE \<and>
     (\<forall>i<KBD_TASK_LIST_SIZE. kt_waiting (kbd_task_list k i) \<longrightarrow>
        (\<exists>p. kt_pcb (kbd_task_list k i) = Some p \<and> valid p \<and> slot_of (pid (ps p)) = i \<and>
           open_fds (ps p) \<noteq> {}))"

definition kinvx :: "pcbref set \<Rightarrow> kernel \<Rightarrow> pcbref option \<Rightarrow> (place \<Rightarrow> pcbref list) \<Rightarrow> bool" where
  "kinvx X s r qs \<longleftrightarrow> qinv s {} qs \<and> procs_ok (procs s) r \<and>
     dl_ok MAX_TICKS (deltas s (qs In_sleep)) \<and> mem_ok X (heap s) (procs s) \<and>
     dev_ok (device_table s) (kbd s) (procs s)"

abbreviation kinv :: "kernel \<Rightarrow> pcbref option \<Rightarrow> (place \<Rightarrow> pcbref list) \<Rightarrow> bool" where
  "kinv \<equiv> kinvx {}"

text \<open>The states of the dispatcher's loop.\<close>

definition kernel_ok :: "kernel \<Rightarrow> bool" where
  "kernel_ok s \<longleftrightarrow> (\<exists>qs. kinv s (Some (currproc s)) qs)"

lemma kinvD:
  assumes "kinvx X s r qs"
  shows "qinv s {} qs" and "procs_ok (procs s) r" and "dl_ok MAX_TICKS (deltas s (qs In_sleep))"
    and "mem_ok X (heap s) (procs s)" and "dev_ok (device_table s) (kbd s) (procs s)"
  using assms by (simp_all add: kinvx_def)

lemma knownI [intro]: "valid p \<Longrightarrow> known p" "known IdleProc"
  by (simp_all add: known_def)

lemma valid_Table [simp]: "valid (Table i) \<longleftrightarrow> i < PCB_TABLE_SIZE" "\<not> valid IdleProc"
  by (auto simp: valid_def)

lemma procs_okD:
  assumes "procs_ok ps r"
  shows "known p \<Longrightarrow> pid_slot p (pid (ps p))"
    and "known p \<Longrightarrow> curr_state (ps p) = PROC_STATE_RUNNING \<longleftrightarrow> r = Some p"
    and "r = Some p \<Longrightarrow> known p" and "valid p \<Longrightarrow> blocking_ok ps (ps p)"
  using assms by (auto simp: procs_ok_def)

lemma pid_slot_pos: "valid p \<Longrightarrow> pid_slot p n \<Longrightarrow> 1 \<le> n"
  by (auto simp: valid_def)

lemma pid_nonzero: "procs_ok ps r \<Longrightarrow> valid p \<Longrightarrow> pid (ps p) \<noteq> 0"
  using procs_okD(1) pid_slot_pos by fastforce

text \<open>Who has which blocking fields.\<close>

lemma blocking_ok_cases:
  assumes "blocking_ok ps c"
  shows "curr_state c = PROC_STATE_READY \<Longrightarrow> blocking_proc c = None \<and> blocking_queue_name c = NO_BLOCKER"
    and "curr_state c = PROC_STATE_RUNNING \<Longrightarrow> blocking_proc c = None \<and> blocking_queue_name c = NO_BLOCKER"
    and "curr_state c = PROC_STATE_BLOCKED \<Longrightarrow>
      (blocking_proc c = None \<and> blocking_queue_name c \<in> {SLEEP, RECEIVE_ANY, DEVICE}) \<or>
      (\<exists>w. blocking_proc c = Some w \<and> has_queue (blocking_queue_name c) \<and> alive ps w)"
  using assms by (auto simp: blocking_ok_def split: option.splits)

lemma blocked_iff_named:
  assumes "blocking_ok ps c" and "curr_state c \<noteq> PROC_STATE_STOPPED"
  shows "curr_state c = PROC_STATE_BLOCKED \<longleftrightarrow> blocking_queue_name c \<noteq> NO_BLOCKER"
  using assms by (auto simp: blocking_ok_def has_queue_def split: option.splits proc_state.splits)

subsection \<open>Keeping it\<close>

text \<open>The fields of a control block the invariant speaks about, links, queues and \<open>ret\<close> apart.\<close>

definition same_core :: "pcb \<Rightarrow> pcb \<Rightarrow> bool" where
  "same_core c d \<longleftrightarrow> pid c = pid d \<and> curr_state c = curr_state d \<and> memory_region c = memory_region d \<and>
     signal_table c = signal_table d \<and> fd_table c = fd_table d \<and> blocking_proc c = blocking_proc d \<and>
     blocking_queue_name c = blocking_queue_name d"

definition same_life :: "pcb \<Rightarrow> pcb \<Rightarrow> bool" where
  "same_life c d \<longleftrightarrow> pid c = pid d \<and> memory_region c = memory_region d \<and>
     signal_table c = signal_table d \<and> fd_table c = fd_table d \<and>
     (curr_state c = PROC_STATE_STOPPED \<longleftrightarrow> curr_state d = PROC_STATE_STOPPED)"

text \<open>The fields no queue operation, blocking or waking changes.\<close>

definition same_static :: "pcb \<Rightarrow> pcb \<Rightarrow> bool" where
  "same_static c d \<longleftrightarrow> pid c = pid d \<and> memory_region c = memory_region d \<and> esp c = esp d \<and>
     args c = args d \<and> cpu_time c = cpu_time d \<and> signal_table c = signal_table d \<and>
     signals_fired c = signals_fired d \<and> signals_enabled c = signals_enabled d \<and> fd_table c = fd_table d"

lemma same_static_refl [simp]: "same_static c c"
  by (simp add: same_static_def)

lemma same_static_trans: "same_static a b \<Longrightarrow> same_static b c \<Longrightarrow> same_static a c"
  by (simp add: same_static_def)

lemma same_static_queues: "same_but_queues c d \<Longrightarrow> same_static c d"
  by (simp add: same_static_def same_but_queues_fields)

lemma same_static_links: "same_but_links c d \<Longrightarrow> same_static c d"
  by (simp add: same_static_queues same_but_queues_links)

lemma same_static_upd [simp]:
  "same_static c (d\<lparr>ret := x\<rparr>) = same_static c d" "same_static c (d\<lparr>curr_state := st\<rparr>) = same_static c d"
  "same_static c (d\<lparr>blocking_proc := w\<rparr>) = same_static c d"
  "same_static c (d\<lparr>blocking_queue_name := q\<rparr>) = same_static c d"
  "same_static (c\<lparr>ret := x\<rparr>) d = same_static c d" "same_static (c\<lparr>curr_state := st\<rparr>) d = same_static c d"
  "same_static (c\<lparr>blocking_proc := w\<rparr>) d = same_static c d"
  "same_static (c\<lparr>blocking_queue_name := q\<rparr>) d = same_static c d"
  by (simp_all add: same_static_def)

lemma same_core_refl [simp]: "same_core c c"
  by (simp add: same_core_def)

lemma same_core_trans: "same_core a b \<Longrightarrow> same_core b c \<Longrightarrow> same_core a c"
  by (simp add: same_core_def)

lemma same_core_life: "same_core c d \<Longrightarrow> same_life c d"
  by (simp add: same_core_def same_life_def)

lemma same_core_queues: "same_but_queues c d \<Longrightarrow> same_core c d"
  by (simp add: same_core_def same_but_queues_fields)

lemma same_core_links: "same_but_links c d \<Longrightarrow> same_core c d"
  by (simp add: same_core_queues same_but_queues_links)

lemma same_core_upd [simp]:
  "same_core c (d\<lparr>ret := x\<rparr>) = same_core c d" "same_core (c\<lparr>ret := x\<rparr>) d = same_core c d"
  "same_core (c\<lparr>esp := y\<rparr>) d = same_core c d" "same_core (c\<lparr>args := y\<rparr>) d = same_core c d"
  "same_core (c\<lparr>cpu_time := x\<rparr>) d = same_core c d" "same_core (c\<lparr>signals_fired := y\<rparr>) d = same_core c d"
  "same_core (c\<lparr>signals_enabled := x\<rparr>) d = same_core c d"
  by (simp_all add: same_core_def)

lemma same_life_upd [simp]:
  "same_life c (d\<lparr>ret := x\<rparr>) = same_life c d" "same_life c (d\<lparr>blocking_proc := w\<rparr>) = same_life c d"
  "same_life c (d\<lparr>blocking_queue_name := q\<rparr>) = same_life c d"
  by (simp_all add: same_life_def)

lemma alive_life: "(\<And>q. valid q \<Longrightarrow> same_life (ps' q) (ps q)) \<Longrightarrow> alive ps' = alive ps"
  by (auto simp: alive_def same_life_def fun_eq_iff)

lemma blocking_ok_core:
  "same_core c d \<Longrightarrow> alive ps' = alive ps \<Longrightarrow> blocking_ok ps' c = blocking_ok ps d"
  unfolding blocking_ok_def same_core_def by (elim conjE) (simp only:)

lemma procs_ok_update:
  assumes ok: "procs_ok ps r" and rest: "\<And>q. q \<notin> D \<Longrightarrow> same_core (ps' q) (ps q)"
    and D: "\<And>q. q \<in> D \<Longrightarrow> same_life (ps' q) (ps q)"
      "\<And>q. q \<in> D \<Longrightarrow> valid q \<Longrightarrow> blocking_ok ps (ps' q)"
      "\<And>q. q \<in> D \<Longrightarrow> known q \<Longrightarrow> curr_state (ps' q) = PROC_STATE_RUNNING \<longleftrightarrow> r' = Some q"
    and r: "\<And>q. q \<notin> D \<Longrightarrow> r = Some q \<longleftrightarrow> r' = Some q" and k: "\<And>q. r' = Some q \<Longrightarrow> known q"
  shows "procs_ok ps' r'"
proof -
  have life: "same_life (ps' q) (ps q)" for q using rest [of q] D(1) [of q] same_core_life by blast
  have al: "alive ps' = alive ps" by (rule alive_life) (rule life)
  show ?thesis
    unfolding procs_ok_def
  proof (intro conjI allI impI)
    fix p assume p: "known p"
    show "pid_slot p (pid (ps' p))" using procs_okD(1) [OF ok p] life [of p] by (simp add: same_life_def)
    show "curr_state (ps' p) = PROC_STATE_RUNNING \<longleftrightarrow> r' = Some p"
      using procs_okD(2) [OF ok p] D(3) [OF _ p] r [of p] rest [of p] by (cases "p \<in> D") (auto simp: same_core_def)
  next
    fix p assume p: "valid p"
    show "blocking_ok ps' (ps' p)"
    proof (cases "p \<in> D")
      case True
      then have "blocking_ok ps (ps' p)" using D(2) p by blast
      then show ?thesis using blocking_ok_core [OF same_core_refl al] by blast
    next
      case False
      then show ?thesis using blocking_ok_core [OF rest [OF False] al] procs_okD(4) [OF ok p] by simp
    qed
  qed (rule k)
qed

lemma mem_ok_life:
  assumes "mem_ok X h ps" and life: "\<And>q. valid q \<Longrightarrow> same_life (ps' q) (ps q)"
  shows "mem_ok X h ps'"
proof -
  have al: "alive ps' = alive ps" by (rule alive_life [OF life])
  have "owned_block ps' x = owned_block ps x" if "x \<in> UNIV \<times> ({p. alive ps p} - X)" for x
    using that life by (auto simp: owned_block_def same_life_def alive_def)
  then show ?thesis
    using assms(1) unfolding mem_ok_def al
    by (metis (mono_tags, lifting) image_cong inj_on_cong)
qed

lemma open_fds_life: "same_life c d \<Longrightarrow> open_fds c = open_fds d"
  by (simp add: open_fds_def same_life_def)

lemma dev_ok_life:
  assumes "dev_ok devs k ps" and life: "\<And>q. valid q \<Longrightarrow> same_life (ps' q) (ps q)"
  shows "dev_ok devs k ps'"
proof -
  have o: "open_fds (ps' q) = open_fds (ps q)" if "valid q" for q using open_fds_life [OF life [OF that]] .
  then have "open_count ps' = open_count ps" by (simp add: open_count_def)
  moreover have "pid (ps' q) = pid (ps q)" "fd_table (ps' q) = fd_table (ps q)"
    "curr_state (ps' q) = PROC_STATE_STOPPED \<longleftrightarrow> curr_state (ps q) = PROC_STATE_STOPPED" if "valid q" for q
    using life [OF that] by (simp_all add: same_life_def)
  ultimately show ?thesis
    using assms(1) o unfolding dev_ok_def by (auto; metis)
qed

lemma kinv_update:
  assumes inv: "kinvx X s r qs" and q: "qinv s' {} qs'"
    and rest: "\<And>q. q \<notin> D \<Longrightarrow> same_core (procs s' q) (procs s q)"
    and D: "\<And>q. q \<in> D \<Longrightarrow> same_life (procs s' q) (procs s q)"
      "\<And>q. q \<in> D \<Longrightarrow> valid q \<Longrightarrow> blocking_ok (procs s) (procs s' q)"
      "\<And>q. q \<in> D \<Longrightarrow> known q \<Longrightarrow> curr_state (procs s' q) = PROC_STATE_RUNNING \<longleftrightarrow> r' = Some q"
    and r: "\<And>q. q \<notin> D \<Longrightarrow> r = Some q \<longleftrightarrow> r' = Some q" and k: "\<And>q. r' = Some q \<Longrightarrow> known q"
    and other: "heap s' = heap s" "device_table s' = device_table s" "kbd s' = kbd s"
    and dl: "dl_ok MAX_TICKS (deltas s' (qs' In_sleep))"
  shows "kinvx X s' r' qs'"
proof -
  have life: "same_life (procs s' q) (procs s q)" for q using rest [of q] D(1) [of q] same_core_life by blast
  show ?thesis
    unfolding kinvx_def other
    using q dl procs_ok_update [OF kinvD(2) [OF inv] rest D r k]
      mem_ok_life [OF kinvD(4) [OF inv] life] dev_ok_life [OF kinvD(5) [OF inv] life] by simp
qed

text \<open>A change that leaves the queues and the fields above alone.\<close>

lemma kinv_same:
  assumes inv: "kinvx X s r qs" and q: "qinv s' {} qs" and rest: "\<And>q. same_core (procs s' q) (procs s q)"
    and other: "heap s' = heap s" "device_table s' = device_table s" "kbd s' = kbd s"
    and rets: "\<And>p. p \<in> set (qs In_sleep) \<Longrightarrow> ret (procs s' p) = ret (procs s p)"
  shows "kinvx X s' r qs"
  using kinv_update [OF inv q, of "{}" r] rest other kinvD(3) [OF inv] deltas_cong [OF rets]
    procs_okD(3) [OF kinvD(2) [OF inv]] by simp

lemma sleepers:
  assumes "kinvx X s r qs" and "p \<in> set (qs In_sleep)"
  shows "valid p" "curr_state (procs s p) = PROC_STATE_BLOCKED" "blocking_queue_name (procs s p) = SLEEP"
    "blocking_proc (procs s p) = None" "pid (procs s p) \<noteq> 0"
proof -
  have p: "valid p" "place_of (procs s p) = Some In_sleep"
    using qinvD(2) [OF kinvD(1) [OF assms(1)]] assms(2) by auto
  then show "valid p" "curr_state (procs s p) = PROC_STATE_BLOCKED" "blocking_queue_name (procs s p) = SLEEP"
    by (simp_all add: place_of_sleep)
  then show "blocking_proc (procs s p) = None" "pid (procs s p) \<noteq> 0"
    using blocking_ok_cases(3) [OF procs_okD(4) [OF kinvD(2) [OF assms(1)] p(1)]]
      pid_nonzero [OF kinvD(2) [OF assms(1)] p(1)] by (auto simp: has_queue_def)
qed

end
