(* ===== verification/Sched_Steps.thy ===== *)
theory Sched_Steps
  imports Kernel_Inv
begin

text \<open>
  The building blocks of the handlers, each with what it does to the queues and that it keeps the
  invariant: making the running process ready, blocking it, choosing the next one, the tick.
\<close>

subsection \<open>Changes that do not matter\<close>

lemma kinv_other:
  assumes "kinvx X s r qs" and "procs s' = procs s" "queue_heads s' = queue_heads s"
    "queue_tails s' = queue_tails s" "sleeping_list s' = sleeping_list s" "heap s' = heap s"
    "device_table s' = device_table s" "kbd s' = kbd s"
  shows "kinvx X s' r qs"
  using assms qinv_other [of s "{}" qs s'] deltas_cong [of "qs In_sleep" s' s] by (simp add: kinvx_def)

lemma kinv_other_iff:
  assumes "procs s' = procs s" "queue_heads s' = queue_heads s" "queue_tails s' = queue_tails s"
    "sleeping_list s' = sleeping_list s" "heap s' = heap s" "device_table s' = device_table s" "kbd s' = kbd s"
  shows "kinvx X s' r qs = kinvx X s r qs"
  using kinv_other [of X s r qs s', OF _ assms] kinv_other [of X s' r qs s, OF _ assms [symmetric]] by (rule iffI [rotated])

lemma kinv_fields [simp]:
  "kinvx X (s\<lparr>ram := m\<rparr>) r qs = kinvx X s r qs" "kinvx X (s\<lparr>io := i\<rparr>) r qs = kinvx X s r qs"
  "kinvx X (s\<lparr>console := c\<rparr>) r qs = kinvx X s r qs" "kinvx X (s\<lparr>currproc := p\<rparr>) r qs = kinvx X s r qs"
  "kinvx X (write32 a v s) r qs = kinvx X s r qs" "kinvx X (put_chars cs s) r qs = kinvx X s r qs"
  by (rule kinv_other_iff; simp add: put_chars_def)+

text \<open>Updates of one control block that keep what the invariant speaks about.\<close>

lemma kinv_upd:
  assumes "kinvx X s r qs" and "same_core (f (procs s p)) (procs s p)"
    and "prev_proc (f (procs s p)) = prev_proc (procs s p)" "next_proc (f (procs s p)) = next_proc (procs s p)"
    and "blocking_queue_heads (f (procs s p)) = blocking_queue_heads (procs s p)"
      "blocking_queue_tails (f (procs s p)) = blocking_queue_tails (procs s p)"
    and "p \<in> set (qs In_sleep) \<Longrightarrow> ret (f (procs s p)) = ret (procs s p)"
  shows "kinvx X (upd_proc p f s) r qs"
proof (rule kinv_same [OF assms(1)])
  have "place_of (f (procs s p)) = place_of (procs s p)"
    using assms(2) unfolding place_of_def same_core_def by (elim conjE) (simp only:)
  then show "qinv (upd_proc p f s) {} qs"
    using qinv_upd_proc [OF kinvD(1) [OF assms(1)], of f p] assms(3-6) by blast
qed (use assms in auto)

lemma running_place: "curr_state c = PROC_STATE_RUNNING \<Longrightarrow> place_of c = None"
  by (simp add: place_of_def)

lemma running_facts:
  assumes "kinvx X s (Some c) qs"
  shows "known c" "curr_state (procs s c) = PROC_STATE_RUNNING" "place_of (procs s c) = None"
    and "c \<notin> set (qs pl)"
    and "valid c \<Longrightarrow> blocking_proc (procs s c) = None" "valid c \<Longrightarrow> blocking_queue_name (procs s c) = NO_BLOCKER"
proof -
  note ok = kinvD(2) [OF assms]
  show k: "known c" using procs_okD(3) [OF ok] by blast
  show r: "curr_state (procs s c) = PROC_STATE_RUNNING" using procs_okD(2) [OF ok k] by blast
  then show pl: "place_of (procs s c) = None" by (rule running_place)
  show "c \<notin> set (qs pl)" using qinvD(2) [OF kinvD(1) [OF assms], of c pl] pl by simp
  show "blocking_proc (procs s c) = None" "blocking_queue_name (procs s c) = NO_BLOCKER" if "valid c"
    using blocking_ok_cases(2) [OF procs_okD(4) [OF ok that] r] by simp_all
qed

lemma kinv_set_ret:
  assumes "kinvx X s r qs" and "p \<notin> set (qs In_sleep)"
  shows "kinvx X (set_ret p v s) r qs"
  unfolding set_ret_def by (rule kinv_upd [OF assms(1)]) (use assms(2) in auto)

lemma set_ret_simps [simp]:
  "procs (set_ret p v s) = (procs s)(p := (procs s p)\<lparr>ret := v\<rparr>)"
  "currproc (set_ret p v s) = currproc s" "heap (set_ret p v s) = heap s" "kbd (set_ret p v s) = kbd s"
  "device_table (set_ret p v s) = device_table s" "ram (set_ret p v s) = ram s"
  "io (set_ret p v s) = io s" "console (set_ret p v s) = console s" "image (set_ret p v s) = image s"
  "same_rest (set_ret p v s) t = same_rest s t" "same_rest t (set_ret p v s) = same_rest t s"
  by (simp_all add: set_ret_def)

lemma qinv_transit:
  assumes "qinv s W qs" and "place_of (procs s p) = None"
  shows "qinv s (insert p W) qs" and "qinv s (W - {p}) qs"
  using assms unfolding qinv_def by (auto; metis option.distinct(1))+

subsection \<open>Becoming ready\<close>

definition queued :: "pcbref \<Rightarrow> pcbref list" where
  "queued c = (if c = IdleProc then [] else [c])"

lemma ready_current_ok:
  assumes inv: "kinvx X s (Some c) qs"
  obtains s' where "add_pcb_to_queue c PROC_STATE_READY s = Some s'"
    and "kinvx X s' None (qs(In_ready := qs In_ready @ queued c))"
    and "\<And>q. same_but_links (procs s' q) (if q = c then (procs s c)\<lparr>curr_state := PROC_STATE_READY\<rparr> else procs s q)"
    and "same_rest s' s"
proof -
  note f = running_facts [OF inv] and ok = kinvD(2) [OF inv]
  let ?qs = "qs(In_ready := qs In_ready @ queued c)"
  have "\<exists>s'. add_pcb_to_queue c PROC_STATE_READY s = Some s' \<and> qinv s' {} ?qs \<and>
      (\<forall>q. same_but_links (procs s' q) (if q = c then (procs s c)\<lparr>curr_state := PROC_STATE_READY\<rparr> else procs s q)) \<and>
      same_rest s' s"
  proof (cases "c = IdleProc")
    case True
    let ?s' = "upd_proc c (\<lambda>c. c\<lparr>curr_state := PROC_STATE_READY\<rparr>) s"
    have "add_pcb_to_queue c PROC_STATE_READY s = Some ?s'"
      using f(2) procs_okD(1) [OF ok f(1)] True by (simp add: add_pcb_to_queue_def has_proc_queue_def)
    moreover have "qinv ?s' {} qs" by (rule qinv_upd_proc [OF kinvD(1) [OF inv]]) (use True in auto)
    ultimately show ?thesis using True by (auto simp: queued_def)
  next
    case False
    then have v: "valid c" using f(1) by (simp add: known_def)
    have t: "qinv s {c} qs" using qinv_transit(1) [OF kinvD(1) [OF inv] f(3)] .
    obtain s' where "add_pcb_to_queue c PROC_STATE_READY s = Some s'"
      "qinv s' ({c} - {c}) (qs(state_place PROC_STATE_READY := qs (state_place PROC_STATE_READY) @ [c]))"
      "\<And>q. same_but_links (procs s' q) (if q = c then (procs s c)\<lparr>curr_state := PROC_STATE_READY\<rparr> else procs s q)"
      "same_rest s' s"
      by (rule add_pcb_to_queue_ok [OF t _ v pid_nonzero [OF ok v], of PROC_STATE_READY])
        (use f(2) in \<open>auto simp: has_proc_queue_cases\<close>)
    then show ?thesis using False by (auto simp: queued_def state_place_def)
  qed
  then obtain s' where s': "add_pcb_to_queue c PROC_STATE_READY s = Some s'" "qinv s' {} ?qs"
    "\<And>q. same_but_links (procs s' q) (if q = c then (procs s c)\<lparr>curr_state := PROC_STATE_READY\<rparr> else procs s q)"
    "same_rest s' s" by blast
  have "kinvx X s' None ?qs"
  proof (rule kinv_update [OF inv s'(2), of "{c}"])
    show "same_core (procs s' q) (procs s q)" if "q \<notin> {c}" for q
      using s'(3) [of q] that by (simp add: same_core_links)
    have c: "same_core (procs s' c) ((procs s c)\<lparr>curr_state := PROC_STATE_READY\<rparr>)"
      using s'(3) [of c] by (simp add: same_core_links)
    show "same_life (procs s' q) (procs s q)" if "q \<in> {c}" for q
      using c that f(2) by (auto simp: same_core_def same_life_def)
    show "blocking_ok (procs s) (procs s' q)" if "q \<in> {c}" "valid q" for q
      using c that f(5,6) by (auto simp: same_core_def blocking_ok_def)
    show "curr_state (procs s' q) = PROC_STATE_RUNNING \<longleftrightarrow> None = Some q" if "q \<in> {c}" "known q" for q
      using c that by (auto simp: same_core_def)
    have "deltas s' (qs In_sleep) = deltas s (qs In_sleep)"
      using same_but_links_fields(7) [OF s'(3)] f(4) by (intro deltas_cong) (auto split: if_splits)
    then show "dl_ok MAX_TICKS (deltas s' (?qs In_sleep))" using kinvD(3) [OF inv] by simp
  qed (use s'(4) in \<open>auto simp: same_rest_def\<close>)
  then show ?thesis using that s' by blast
qed

subsection \<open>The next process\<close>

lemma switch_proc_ok:
  assumes inv: "kinvx X s None qs"
  obtains s' where "switch_proc s = Some s'"
    and "currproc s' = (case qs In_ready of [] \<Rightarrow> IdleProc | p # _ \<Rightarrow> p)"
    and "kinvx X s' (Some (currproc s')) (qs(In_ready := tl (qs In_ready)))"
    and "\<And>q. same_but_links (procs s' q)
      (if q = currproc s' then (procs s q)\<lparr>curr_state := PROC_STATE_RUNNING\<rparr> else procs s q)"
    and "same_rest (s'\<lparr>currproc := currproc s\<rparr>) s"
proof -
  note q = kinvD(1) [OF inv] and ok = kinvD(2) [OF inv]
  let ?qs = "qs(In_ready := tl (qs In_ready))"
  obtain s1 p where g: "get_next_proc s = Some (p, s1)"
    "p = (case qs In_ready of [] \<Rightarrow> IdleProc | x # _ \<Rightarrow> x)" "qinv s1 {} ?qs"
    "\<And>r. same_but_links (procs s1 r) (if r = p then (procs s p)\<lparr>curr_state := PROC_STATE_RUNNING\<rparr> else procs s r)"
    "same_rest s1 s"
    by (rule get_next_proc_ok [OF q]) auto
  let ?s' = "s1\<lparr>currproc := p\<rparr>"
  have run: "switch_proc s = Some ?s'" using g(1) by (simp add: switch_proc_def)
  have pr: "p = IdleProc \<or> (valid p \<and> place_of (procs s p) = Some In_ready)"
    using g(2) qinvD(2) [OF q, of p In_ready] by (cases "qs In_ready") auto
  then have st: "curr_state (procs s p) = PROC_STATE_READY" if "valid p"
    using that by (cases "curr_state (procs s p)") (auto simp: place_of_def split: if_splits)
  have k: "known p" using pr by auto
  have nr: "curr_state (procs s r) \<noteq> PROC_STATE_RUNNING" if "known r" for r
    using procs_okD(2) [OF ok that] by simp
  have psleep: "p \<notin> set (qs In_sleep)"
    using pr qinvD(2) [OF q, of p In_sleep] by auto
  have core: "same_core (procs s1 p) ((procs s p)\<lparr>curr_state := PROC_STATE_RUNNING\<rparr>)"
    using g(4) [of p] by (simp add: same_core_links)
  have life: "same_life (procs s1 q) (procs s q)" if "valid q" for q
    using g(4) [of q] st that by (auto simp: same_life_def same_but_links_fields split: if_splits)
  have al: "alive (procs s1) = alive (procs s)" by (rule alive_life [OF life])
  have "procs_ok (procs s1) (Some p)"
    unfolding procs_ok_def
  proof (intro conjI allI impI)
    fix r assume r: "known r"
    have c: "same_core (procs s1 r) (if r = p then (procs s p)\<lparr>curr_state := PROC_STATE_RUNNING\<rparr> else procs s r)"
      using g(4) [of r] by (rule same_core_links)
    show "pid_slot r (pid (procs s1 r))" using procs_okD(1) [OF ok r] c by (auto simp: same_core_def split: if_splits)
    show "curr_state (procs s1 r) = PROC_STATE_RUNNING \<longleftrightarrow> Some p = Some r"
      using nr [OF r] c by (auto simp: same_core_def split: if_splits)
  next
    fix r assume r: "valid r"
    have c: "same_core (procs s1 r) (if r = p then (procs s p)\<lparr>curr_state := PROC_STATE_RUNNING\<rparr> else procs s r)"
      using g(4) [of r] by (rule same_core_links)
    show "blocking_ok (procs s1) (procs s1 r)"
    proof (cases "r = p")
      case True
      then show ?thesis
        using c blocking_ok_cases(1) [OF procs_okD(4) [OF ok r]] st r by (auto simp: same_core_def blocking_ok_def)
    next
      case False
      then show ?thesis using blocking_ok_core [OF _ al] c procs_okD(4) [OF ok r] by simp
    qed
  qed (use k in simp)
  moreover have "deltas s1 (qs In_sleep) = deltas s (qs In_sleep)"
    using same_but_links_fields(7) [OF g(4)] psleep by (intro deltas_cong) (auto split: if_splits)
  ultimately have "kinvx X s1 (Some p) ?qs"
    using g(3,5) kinvD(3-5) [OF inv] mem_ok_life [OF _ life] dev_ok_life [OF _ life]
    by (simp add: kinvx_def same_rest_def)
  moreover have "same_but_links (procs ?s' q) (if q = currproc ?s' then (procs s q)\<lparr>curr_state := PROC_STATE_RUNNING\<rparr> else procs s q)" for q
    using g(4) [of q] by (cases "q = p") simp_all
  moreover have "same_rest (?s'\<lparr>currproc := currproc s\<rparr>) s" using g(5) by (simp add: same_rest_def)
  ultimately show ?thesis
    by (intro that [OF run]) (simp_all add: g(2))
qed

subsection \<open>Unblocking\<close>

text \<open>
  A blocked process that has been taken out of its queue goes to the ready queue. Its
  \<open>blocking_queue_name\<close> may be cleared before (c/pcb.c, c/msg.c) or after (c/kbd.c).
\<close>

abbreviation unnamed :: "pcbref \<Rightarrow> kernel \<Rightarrow> kernel" where
  "unnamed p \<equiv> upd_proc p (\<lambda>c. c\<lparr>blocking_queue_name := NO_BLOCKER\<rparr>)"

lemma make_ready_ok:
  assumes inv: "kinvx X s r qs" and p: "valid p" "curr_state (procs s p) = PROC_STATE_BLOCKED"
    and q: "qinv s1 {p} qs1" and rest: "\<And>q. q \<noteq> p \<Longrightarrow> same_core (procs s1 q) (procs s q)"
    and pp: "same_life (procs s1 p) (procs s p)" "curr_state (procs s1 p) = PROC_STATE_BLOCKED"
      "blocking_proc (procs s1 p) = None"
    and other: "heap s1 = heap s" "device_table s1 = device_table s" "kbd s1 = kbd s"
    and dl: "dl_ok MAX_TICKS (deltas s1 (qs1 In_sleep))"
  obtains s2 where "add_pcb_to_queue p PROC_STATE_READY s1 = Some s2"
    and "kinvx X (unnamed p s2) r (qs1(In_ready := qs1 In_ready @ [p]))"
    and "\<And>q. same_but_links (procs s2 q) (if q = p then (procs s1 p)\<lparr>curr_state := PROC_STATE_READY\<rparr> else procs s1 q)"
    and "same_rest s2 s1"
proof -
  note ok = kinvD(2) [OF inv]
  have pd: "pid (procs s1 p) \<noteq> 0" using pp(1) pid_nonzero [OF ok p(1)] by (simp add: same_life_def)
  obtain s2 where a: "add_pcb_to_queue p PROC_STATE_READY s1 = Some s2"
    "qinv s2 ({p} - {p}) (qs1(state_place PROC_STATE_READY := qs1 (state_place PROC_STATE_READY) @ [p]))"
    "\<And>q. same_but_links (procs s2 q) (if q = p then (procs s1 p)\<lparr>curr_state := PROC_STATE_READY\<rparr> else procs s1 q)"
    "same_rest s2 s1"
    by (rule add_pcb_to_queue_ok [OF q _ p(1) pd, of PROC_STATE_READY])
      (use pp(2) in \<open>auto simp: has_proc_queue_cases\<close>)
  let ?qs = "qs1(In_ready := qs1 In_ready @ [p])"
  let ?s' = "unnamed p s2"
  have c: "same_core (procs s2 q) (if q = p then (procs s1 p)\<lparr>curr_state := PROC_STATE_READY\<rparr> else procs s1 q)" for q
    using a(3) [of q] by (rule same_core_links)
  have st: "curr_state (procs s2 p) = PROC_STATE_READY" using c [of p] by (simp add: same_core_def)
  have q2: "qinv s2 {} ?qs" using a(2) by (simp add: state_place_def)
  have q': "qinv ?s' {} ?qs"
    by (rule qinv_upd_proc [OF q2]) (use st in \<open>auto simp: place_of_def\<close>)
  have "kinvx X ?s' r ?qs"
  proof (rule kinv_update [OF inv q', of "{p}"])
    show "same_core (procs ?s' q) (procs s q)" if "q \<notin> {p}" for q
      using c [of q] rest [of q] that same_core_trans by auto
    show "same_life (procs ?s' q) (procs s q)" if "q \<in> {p}" for q
      using c [of p] pp(1,2) p(2) that by (auto simp: same_core_def same_life_def)
    show "blocking_ok (procs s) (procs ?s' q)" if "q \<in> {p}" for q
      using c [of p] pp(3) that by (auto simp: same_core_def blocking_ok_def)
    show "curr_state (procs ?s' q) = PROC_STATE_RUNNING \<longleftrightarrow> r = Some q" if "q \<in> {p}" "known q" for q
      using that st procs_okD(2) [OF ok that(2)] p(2) by auto
    have "p \<notin> set (qs1 In_sleep)" using qinvD(2) [OF q, of p In_sleep] by blast
    then have "deltas ?s' (qs1 In_sleep) = deltas s1 (qs1 In_sleep)"
      using same_but_links_fields(7) [OF a(3)] by (intro deltas_cong) (auto split: if_splits)
    then show "dl_ok MAX_TICKS (deltas ?s' (?qs In_sleep))" using dl by simp
  qed (use a(4) other procs_okD(3) [OF ok] in \<open>auto simp: same_rest_def\<close>)
  then show ?thesis using that a(1,3,4) by blast
qed

lemma make_ready_named:
  assumes "kinvx X (unnamed p s2) r qs" and "blocking_queue_name (procs s2 p) = NO_BLOCKER"
  shows "kinvx X s2 r qs"
proof -
  have "unnamed p s2 = s2" using assms(2) by (cases s2) (simp add: upd_proc_def fun_upd_idem)
  then show ?thesis using assms(1) by simp
qed

subsection \<open>Blocking the running process\<close>

abbreviation blocked :: "pcbref \<Rightarrow> kernel \<Rightarrow> kernel" where
  "blocked c \<equiv> upd_proc c (\<lambda>x. x\<lparr>curr_state := PROC_STATE_BLOCKED\<rparr>)"

lemma block_ends:
  assumes inv: "kinvx X s (Some c) qs" and c: "valid c" and q: "qinv s' {} qs'"
    and rest: "\<And>q. q \<noteq> c \<Longrightarrow> same_core (procs s' q) (procs s q)"
    and core: "same_life (procs s' c) (procs s c)" "curr_state (procs s' c) = PROC_STATE_BLOCKED"
      "blocking_ok (procs s) (procs s' c)"
    and other: "heap s' = heap s" "device_table s' = device_table s" "kbd s' = kbd s"
    and dl: "dl_ok MAX_TICKS (deltas s' (qs' In_sleep))"
  shows "kinvx X s' None qs'"
  by (rule kinv_update [OF inv q, of "{c}"]) (use assms in auto)

text \<open>In the queue of another process; \<open>wait\<close> sets the state first, \<open>send\<close> and \<open>recv\<close> last.\<close>

lemma block_on_ok:
  assumes inv: "kinvx X s (Some c) qs" and c: "valid c" and w: "alive (procs s) w" and q: "has_queue q"
    and s0: "s0 = s \<or> s0 = blocked c s"
  obtains s' where "add_proc_to_blocking_queue c (Some w) q s0 = Some s'"
    and "kinvx X (blocked c s') None (qs(In_blocking w q := qs (In_blocking w q) @ [c]))"
    and "\<And>r. same_but_queues (procs s' r)
      (if r = c then (procs s0 c)\<lparr>blocking_proc := Some w, blocking_queue_name := q\<rparr> else procs s0 r)"
    and "same_rest s' s"
proof -
  note f = running_facts [OF inv]
  have t: "qinv s {c} qs" using qinv_transit(1) [OF kinvD(1) [OF inv] f(3)] .
  have t0: "qinv s0 {c} qs" using s0 qinv_upd_proc [OF t, of "\<lambda>x. x\<lparr>curr_state := PROC_STATE_BLOCKED\<rparr>" c] t by auto
  have wv: "valid w" using w by (simp add: alive_def)
  let ?qs = "qs(In_blocking w q := qs (In_blocking w q) @ [c])"
  obtain s' where a: "add_proc_to_blocking_queue c (Some w) q s0 = Some s'"
    "qinv (blocked c s') ({c} - {c}) ?qs"
    "\<And>r. same_but_queues (procs s' r)
      (if r = c then (procs s0 c)\<lparr>blocking_proc := Some w, blocking_queue_name := q\<rparr> else procs s0 r)"
    "same_rest s' s0"
    by (rule add_proc_to_blocking_queue_ok [OF t0 _ c wv q]) auto
  have sr: "same_rest s' s" using a(4) s0 same_rest_trans by auto
  have core: "same_core (procs s' r) (if r = c then (procs s0 c)\<lparr>blocking_proc := Some w, blocking_queue_name := q\<rparr> else procs s0 r)" for r
    using same_core_queues [OF a(3)] .
  have s0r: "r \<noteq> c \<Longrightarrow> procs s0 r = procs s r" "same_life (procs s0 c) (procs s c)" for r
    using s0 f(2) by (auto simp: same_life_def)
  have "kinvx X (blocked c s') None ?qs"
  proof (rule block_ends [OF inv c])
    show "qinv (blocked c s') {} ?qs" using a(2) by simp
    show "same_core (procs (blocked c s') r) (procs s r)" if "r \<noteq> c" for r using core [of r] s0r(1) that by simp
    show "same_life (procs (blocked c s') c) (procs s c)"
      using core [of c] s0r(2) f(2) by (auto simp: same_core_def same_life_def)
    show "blocking_ok (procs s) (procs (blocked c s') c)" using core [of c] q w by (simp add: blocking_ok_def same_core_def)
    have "deltas (blocked c s') (qs In_sleep) = deltas s (qs In_sleep)"
      using same_but_queues_fields(7) [OF a(3)] s0r(1) f(4) by (intro deltas_cong) (auto split: if_splits)
    then show "dl_ok MAX_TICKS (deltas (blocked c s') (?qs In_sleep))" using kinvD(3) [OF inv] by simp
  qed (use sr in \<open>auto simp: same_rest_def\<close>)
  then show ?thesis using that a(1,3) sr by blast
qed

text \<open>Without a queue: a receive from anybody, a read from the keyboard.\<close>

lemma block_unqueued_ok:
  assumes inv: "kinvx X s (Some c) qs" and c: "valid c" and q: "q \<in> {RECEIVE_ANY, DEVICE}"
  shows "kinvx X (upd_proc c (\<lambda>x. x\<lparr>curr_state := PROC_STATE_BLOCKED, blocking_queue_name := q\<rparr>) s) None qs"
proof -
  let ?s' = "upd_proc c (\<lambda>x. x\<lparr>curr_state := PROC_STATE_BLOCKED, blocking_queue_name := q\<rparr>) s"
  note f = running_facts [OF inv]
  have t: "qinv s {c} qs" using qinv_transit(1) [OF kinvD(1) [OF inv] f(3)] .
  have "qinv ?s' {c} qs" by (rule qinv_upd_proc [OF t]) auto
  then have "qinv ?s' ({c} - {c}) qs" by (rule qinv_transit(2)) (use q in \<open>auto simp: place_of_def\<close>)
  then show ?thesis
  proof (intro block_ends [OF inv c])
    show "same_life (procs ?s' c) (procs s c)" using f(2) by (simp add: same_life_def)
    show "blocking_ok (procs s) (procs ?s' c)" using f(5) [OF c] q by (auto simp: blocking_ok_def)
    have "deltas ?s' (qs In_sleep) = deltas s (qs In_sleep)" by (intro deltas_cong) auto
    then show "dl_ok MAX_TICKS (deltas ?s' (qs In_sleep))" using kinvD(3) [OF inv] by simp
  qed auto
qed

subsection \<open>Sleeping and the tick\<close>

lemma tick_kinv:
  assumes inv: "kinvx X s r qs"
  obtains s' ys zs where "tick s = Some s'" and "qs In_sleep = ys @ zs"
    and "ys = map fst (filter (\<lambda>(_, t). t \<le> 1) (dl_times 0 (deltas s (qs In_sleep))))"
    and "dl_times 0 (deltas s' zs) =
      map (\<lambda>(p, t). (p, t - 1)) (filter (\<lambda>(_, t). 1 < t) (dl_times 0 (deltas s (qs In_sleep))))"
    and "kinvx X s' r (qs(In_sleep := zs, In_ready := qs In_ready @ ys))"
    and "\<And>q. q \<in> set ys \<Longrightarrow> same_but_links (procs s' q) (woken (procs s q))"
    and "\<And>q. q \<notin> set (qs In_sleep) \<Longrightarrow> same_but_links (procs s' q) (procs s q)"
    and "same_rest s' s"
proof -
  note sl = sleepers [OF inv]
  have sp: "pid (procs s p) \<noteq> 0 \<and> blocking_proc (procs s p) = None" if "p \<in> set (qs In_sleep)" for p
    using sl(4,5) that by blast
  obtain s' ys zs where t: "tick s = Some s'" "qs In_sleep = ys @ zs"
    "ys = map fst (filter (\<lambda>(_, t). t \<le> 1) (dl_times 0 (deltas s (qs In_sleep))))"
    "dl_times 0 (deltas s' zs) =
      map (\<lambda>(p, t). (p, t - 1)) (filter (\<lambda>(_, t). 1 < t) (dl_times 0 (deltas s (qs In_sleep))))"
    "dl_ok MAX_TICKS (deltas s' zs)"
    "qinv s' {} (qs(In_sleep := zs, In_ready := qs In_ready @ ys))"
    "\<And>q. q \<in> set ys \<Longrightarrow> same_but_links (procs s' q) (woken (procs s q))"
    "\<And>q. q \<notin> set ys \<Longrightarrow> retimed s' s q"
    "\<And>q. q \<notin> set (qs In_sleep) \<Longrightarrow> same_but_links (procs s' q) (procs s q)"
    "same_rest s' s"
    by (rule tick_ok [OF kinvD(1) [OF inv] sp kinvD(3) [OF inv]], assumption, rule that)
  have "kinvx X s' r (qs(In_sleep := zs, In_ready := qs In_ready @ ys))"
  proof (rule kinv_update [OF inv t(6), of "set ys"])
    show "same_core (procs s' q) (procs s q)" if "q \<notin> set ys" for q
      using same_core_links [OF t(8) [OF that]] by simp
    have c: "same_core (procs s' q) (woken (procs s q))" if "q \<in> set ys" for q
      using same_core_links [OF t(7) [OF that]] .
    have y: "q \<in> set ys \<Longrightarrow> q \<in> set (qs In_sleep)" for q using t(2) by simp
    show "same_life (procs s' q) (procs s q)" if "q \<in> set ys" for q
      using c [OF that] sl(2) [OF y [OF that]] by (simp add: same_core_def same_life_def)
    show "blocking_ok (procs s) (procs s' q)" if "q \<in> set ys" for q
      using c [OF that] sl(4) [OF y [OF that]] by (simp add: same_core_def blocking_ok_def)
    show "curr_state (procs s' q) = PROC_STATE_RUNNING \<longleftrightarrow> r = Some q" if "q \<in> set ys" "known q" for q
      using c [OF that(1)] procs_okD(2) [OF kinvD(2) [OF inv] that(2)] sl(2) [OF y [OF that(1)]]
      by (simp add: same_core_def)
  qed (use t(5,10) procs_okD(3) [OF kinvD(2) [OF inv]] in \<open>auto simp: same_rest_def\<close>)
  then show ?thesis using that t by blast
qed

lemma sleep_kinv:
  assumes inv: "kinvx X s (Some c) qs" and c: "valid c" and t: "0 < time"
  obtains s' ys where "sleep c time s = Some s'"
    and "kinvx X s' None (qs(In_sleep := ys))"
    and "deltas s' ys = dl_insert c (sleep_ticks time) (deltas s (qs In_sleep))"
    and "\<And>q. q \<noteq> c \<Longrightarrow> q \<notin> set (qs In_sleep) \<Longrightarrow> same_but_links (procs s' q) (procs s q)"
    and "same_rest s' s"
proof -
  note f = running_facts [OF inv]
  have tr: "qinv s {c} qs" using qinv_transit(1) [OF kinvD(1) [OF inv] f(3)] .
  obtain s' ys where s': "sleep c time s = Some s'" "qinv s' ({c} - {c}) (qs(In_sleep := ys))"
    "deltas s' ys = dl_insert c (sleep_ticks time) (deltas s (qs In_sleep))"
    "set ys = insert c (set (qs In_sleep))" "dl_ok MAX_TICKS (deltas s' ys)"
    "\<And>r. r \<noteq> c \<Longrightarrow> retimed s' s r" "\<And>r. r \<notin> set ys \<Longrightarrow> same_but_links (procs s' r) (procs s r)"
    "same_but_links (procs s' c) ((procs s c)\<lparr>curr_state := PROC_STATE_BLOCKED,
      blocking_queue_name := SLEEP, blocking_proc := None, ret := ret (procs s' c)\<rparr>)"
    "same_rest s' s"
    by (rule sleep_ok [OF tr _ c t kinvD(3) [OF inv]]) auto
  have cc: "same_core (procs s' c) ((procs s c)\<lparr>curr_state := PROC_STATE_BLOCKED,
      blocking_queue_name := SLEEP, blocking_proc := None\<rparr>)"
    using same_core_links [OF s'(8)] by simp
  have "kinvx X s' None (qs(In_sleep := ys))"
  proof (rule block_ends [OF inv c])
    show "qinv s' {} (qs(In_sleep := ys))" using s'(2) by simp
    show "same_core (procs s' q) (procs s q)" if "q \<noteq> c" for q using same_core_links [OF s'(6) [OF that]] by simp
    show "same_life (procs s' c) (procs s c)" using cc f(2) by (simp add: same_core_def same_life_def)
    show "blocking_ok (procs s) (procs s' c)" using cc by (simp add: same_core_def blocking_ok_def)
  qed (use s'(5,9) cc in \<open>auto simp: same_rest_def same_core_def\<close>)
  moreover have "same_but_links (procs s' q) (procs s q)" if "q \<noteq> c" "q \<notin> set (qs In_sleep)" for q
    using s'(4,7) that by simp
  ultimately show ?thesis by (intro that [OF s'(1) _ s'(3) _ s'(9)])
qed

subsection \<open>Ending a blocked state\<close>

text \<open>Where a blocked process leaves from.\<close>

definition leave :: "pcbref \<Rightarrow> kernel \<Rightarrow> (place \<Rightarrow> pcbref list) \<Rightarrow> place \<Rightarrow> pcbref list" where
  "leave p s qs = (case place_of (procs s p) of None \<Rightarrow> qs | Some pl \<Rightarrow> qs(pl := remove1 p (qs pl)))"

text \<open>Out of the queue of its partner, and ready.\<close>

lemma unqueue_ok:
  assumes inv: "kinvx X s r qs" and p: "valid p" "curr_state (procs s p) = PROC_STATE_BLOCKED"
    and w: "blocking_proc (procs s p) = Some w"
  obtains s1 where "remove_proc_from_blocking_queue p (Some w) (blocking_queue_name (procs s p)) s = Some (1, s1)"
    and "qinv s1 {p} (leave p s qs)" and "same_rest s1 s"
    and "\<And>q. same_but_queues (procs s1 q)
      (if q = p then (procs s p)\<lparr>blocking_proc := None, blocking_queue_name := NO_BLOCKER\<rparr> else procs s q)"
    and "dl_ok MAX_TICKS (deltas s1 (leave p s qs In_sleep))"
    and "leave p s qs = qs(In_blocking w (blocking_queue_name (procs s p)) :=
      remove1 p (qs (In_blocking w (blocking_queue_name (procs s p)))))"
proof -
  let ?q = "blocking_queue_name (procs s p)"
  have h: "has_queue ?q"
    using blocking_ok_cases(3) [OF procs_okD(4) [OF kinvD(2) [OF inv] p(1)] p(2)] w by simp
  have pl: "place_of (procs s p) = Some (In_blocking w ?q)" using place_of_blocked_on [OF p(2) w refl h] .
  then have lv: "leave p s qs = qs(In_blocking w ?q := remove1 p (qs (In_blocking w ?q)))" by (simp add: leave_def)
  obtain s1 where s1: "remove_proc_from_blocking_queue p (Some w) ?q s = Some (1, s1)"
    "qinv s1 (insert p {}) (qs(In_blocking w ?q := remove1 p (qs (In_blocking w ?q))))"
    "\<And>q. same_but_queues (procs s1 q)
      (if q = p then (procs s p)\<lparr>blocking_proc := None, blocking_queue_name := NO_BLOCKER\<rparr> else procs s q)"
    "same_rest s1 s"
    by (rule remove_proc_from_blocking_queue_ok [OF kinvD(1) [OF inv] _ p(1,2) w refl h]) auto
  have "deltas s1 (qs In_sleep) = deltas s (qs In_sleep)"
    using same_but_queues_fields(7) [OF s1(3)] by (intro deltas_cong) (auto split: if_splits)
  then have "dl_ok MAX_TICKS (deltas s1 (leave p s qs In_sleep))" using lv kinvD(3) [OF inv] by simp
  then show ?thesis using that s1 lv by simp
qed

lemma resolve_blocking_ok:
  assumes inv: "kinvx X s r qs" and p: "valid p" "curr_state (procs s p) = PROC_STATE_BLOCKED"
  obtains s1 v where "resolve_blocking p s = Some s1" and "qinv s1 {p} (leave p s qs)"
    and "\<And>q. q \<noteq> p \<Longrightarrow> same_core (procs s1 q) (procs s q)"
    and "same_core (procs s1 p) ((procs s p)\<lparr>blocking_proc := None, blocking_queue_name := NO_BLOCKER\<rparr>)"
    and "same_rest s1 s" and "dl_ok MAX_TICKS (deltas s1 (leave p s qs In_sleep))"
    and "\<And>q. q \<noteq> p \<Longrightarrow> q \<notin> set (qs In_sleep) \<Longrightarrow> ret (procs s1 q) = ret (procs s q)"
    and "blocking_queue_name (procs s p) \<noteq> SLEEP \<Longrightarrow>
      signalled_ret (blocking_queue_name (procs s p)) 0 = Some (ret (procs s1 p))"
    and "\<And>q. same_static (procs s1 q) (procs s q)"
proof -
  note ok = kinvD(2) [OF inv] and q = kinvD(1) [OF inv]
  let ?n = "blocking_queue_name (procs s p)"
  have bl: "blocking_ok (procs s) (procs s p)" using procs_okD(4) [OF ok p(1)] .
  note cs = blocking_ok_cases(3) [OF bl p(2)]
  show ?thesis
  proof (cases "?n = SLEEP")
    case True
    then have b: "blocking_proc (procs s p) = None" using cs by auto
    have pl: "place_of (procs s p) = Some In_sleep" using True p(2) by (simp add: place_of_sleep)
    obtain s1 where s1: "wake p s = Some s1" "qinv s1 (insert p {}) (qs(In_sleep := remove1 p (qs In_sleep)))"
      "deltas s1 (remove1 p (qs In_sleep)) = dl_remove p (deltas s (qs In_sleep))"
      "\<And>r. r \<noteq> p \<Longrightarrow> retimed s1 s r"
      "\<And>r. r \<noteq> p \<Longrightarrow> r \<notin> set (qs In_sleep) \<Longrightarrow> ret (procs s1 r) = ret (procs s r)"
      "same_but_links (procs s1 p) ((procs s p)\<lparr>blocking_queue_name := NO_BLOCKER,
        ret := s32 (ret (procs s p) * TICK_LENGTH_IN_MS)\<rparr>)" "same_rest s1 s"
      by (rule wake_ok [OF q _ p(1) pl b dl_ok_bounded [OF kinvD(3) [OF inv]]]) auto
    have "set_ret p (ret (procs s p)) s = s" by (cases s) (simp add: set_ret_def upd_proc_def fun_upd_idem)
    then have "resolve_blocking p s = Some s1" using s1(1) True p(2) by (simp add: resolve_blocking_def signalled_ret_def)
    moreover have "same_core (procs s1 p) ((procs s p)\<lparr>blocking_proc := None, blocking_queue_name := NO_BLOCKER\<rparr>)"
      using same_core_links [OF s1(6)] b by (simp add: same_core_def)
    moreover have "same_core (procs s1 q) (procs s q)" if "q \<noteq> p" for q
      using same_core_links [OF s1(4) [OF that]] by simp
    moreover have "leave p s qs = qs(In_sleep := remove1 p (qs In_sleep))" using pl by (simp add: leave_def)
    moreover have "same_static (procs s1 q) (procs s q)" for q
      using same_static_links [OF s1(4) [of q]] same_static_links [OF s1(6)] by (cases "q = p") simp_all
    ultimately show ?thesis
      using s1 dl_remove_ok [OF kinvD(3) [OF inv], of p] True by (intro that [of s1]) auto
  next
    case False
    then obtain v where v: "signalled_ret ?n 0 = Some v" "signalled_ret ?n (ret (procs s p)) = Some v"
      using cs by (cases ?n) (auto simp: signalled_ret_def has_queue_def)
    let ?s = "set_ret p v s"
    have pl: "p \<notin> set (qs In_sleep)" using sleepers(3) [OF inv] False by blast
    have inv': "kinvx X ?s r qs" by (rule kinv_set_ret [OF inv pl])
    have lv: "leave p ?s qs = leave p s qs" by (simp add: leave_def)
    show ?thesis
    proof (cases "blocking_proc (procs s p)")
      case None
      then have n: "?n = DEVICE \<or> ?n = RECEIVE_ANY" using cs False by auto
      let ?s1 = "unnamed p ?s"
      have run: "resolve_blocking p s = Some ?s1"
        using n p(2) v(2) None by (auto simp: resolve_blocking_def)
      have "place_of (procs s p) = None" using n p(2) by (auto simp: place_of_def)
      then have lv': "leave p s qs = qs" "qinv ?s {p} qs"
        using qinv_transit(1) [OF kinvD(1) [OF inv'], of p] by (simp_all add: leave_def)
      have "qinv ?s1 {p} qs" by (rule qinv_upd_proc [OF lv'(2)]) auto
      moreover have "deltas ?s1 (qs In_sleep) = deltas s (qs In_sleep)" using pl by (intro deltas_cong) auto
      moreover have "same_core (procs ?s1 p) ((procs s p)\<lparr>blocking_proc := None, blocking_queue_name := NO_BLOCKER\<rparr>)"
        using None by (simp add: same_core_def)
      ultimately show ?thesis using lv' kinvD(3) [OF inv] v(1) by (intro that [OF run]) (auto simp: same_rest_def set_ret_def)
    next
      case (Some w)
      then have h: "has_queue ?n" using cs by auto
      obtain s1 where s1: "remove_proc_from_blocking_queue p (Some w) (blocking_queue_name (procs ?s p)) ?s = Some (1, s1)"
        "qinv s1 {p} (leave p ?s qs)" "same_rest s1 ?s"
        "\<And>q. same_but_queues (procs s1 q)
          (if q = p then (procs ?s p)\<lparr>blocking_proc := None, blocking_queue_name := NO_BLOCKER\<rparr> else procs ?s q)"
        "dl_ok MAX_TICKS (deltas s1 (leave p ?s qs In_sleep))"
        by (rule unqueue_ok [OF inv' p(1), of w]) (use p(2) Some in auto)
      have run: "resolve_blocking p s = Some s1"
        using s1(1) h p(2) v(2) Some by (auto simp: resolve_blocking_def has_queue_def)
      have c: "same_core (procs s1 q) (if q = p then (procs ?s p)\<lparr>blocking_proc := None, blocking_queue_name := NO_BLOCKER\<rparr> else procs ?s q)" for q
        using same_core_queues [OF s1(4)] .
      have "same_core (procs s1 p) ((procs s p)\<lparr>blocking_proc := None, blocking_queue_name := NO_BLOCKER\<rparr>)"
        using c [of p] by (simp add: same_core_def)
      moreover have "same_core (procs s1 q) (procs s q)" if "q \<noteq> p" for q using c [of q] that by simp
      moreover have "same_static (procs s1 q) (procs s q)" for q
        using same_static_queues [OF s1(4) [of q]] by (cases "q = p") simp_all
      moreover have "ret (procs s1 q) = (if q = p then v else ret (procs s q))" for q
        using same_but_queues_fields(7) [OF s1(4) [of q]] by (simp split: if_splits)
      ultimately show ?thesis using s1(2,3,5) v(1) lv by (intro that [OF run]) auto
    qed
  qed
qed

text \<open>What a signal does to a blocked process.\<close>

lemma unblock_ok:
  assumes inv: "kinvx X s r qs" and p: "valid p" "curr_state (procs s p) = PROC_STATE_BLOCKED"
  obtains s1 s2 where "resolve_blocking p s = Some s1" and "add_pcb_to_queue p PROC_STATE_READY s1 = Some s2"
    and "kinvx X s2 r ((leave p s qs)(In_ready := leave p s qs In_ready @ [p]))"
    and "same_rest s2 s"
    and "\<And>q. q \<noteq> p \<Longrightarrow> q \<notin> set (qs In_sleep) \<Longrightarrow> ret (procs s2 q) = ret (procs s q)"
    and "blocking_queue_name (procs s p) \<noteq> SLEEP \<Longrightarrow>
      signalled_ret (blocking_queue_name (procs s p)) 0 = Some (ret (procs s2 p))"
    and "curr_state (procs s2 p) = PROC_STATE_READY"
    and "\<And>q. same_static (procs s2 q) (procs s q)"
proof -
  obtain s1 where s1: "resolve_blocking p s = Some s1" "qinv s1 {p} (leave p s qs)"
    "\<And>q. q \<noteq> p \<Longrightarrow> same_core (procs s1 q) (procs s q)"
    "same_core (procs s1 p) ((procs s p)\<lparr>blocking_proc := None, blocking_queue_name := NO_BLOCKER\<rparr>)"
    "same_rest s1 s" "dl_ok MAX_TICKS (deltas s1 (leave p s qs In_sleep))"
    "\<And>q. q \<noteq> p \<Longrightarrow> q \<notin> set (qs In_sleep) \<Longrightarrow> ret (procs s1 q) = ret (procs s q)"
    "blocking_queue_name (procs s p) \<noteq> SLEEP \<Longrightarrow>
      signalled_ret (blocking_queue_name (procs s p)) 0 = Some (ret (procs s1 p))"
    "\<And>q. same_static (procs s1 q) (procs s q)"
    by (rule resolve_blocking_ok [OF inv p]) blast
  obtain s2 where s2: "add_pcb_to_queue p PROC_STATE_READY s1 = Some s2"
    "kinvx X (unnamed p s2) r ((leave p s qs)(In_ready := leave p s qs In_ready @ [p]))"
    "\<And>q. same_but_links (procs s2 q) (if q = p then (procs s1 p)\<lparr>curr_state := PROC_STATE_READY\<rparr> else procs s1 q)"
    "same_rest s2 s1"
    by (rule make_ready_ok [OF inv p s1(2,3)]) (use s1(4-6) p(2) in \<open>auto simp: same_core_def same_life_def same_rest_def\<close>)
  have "kinvx X s2 r ((leave p s qs)(In_ready := leave p s qs In_ready @ [p]))"
    by (rule make_ready_named [OF s2(2)])
      (use same_but_links_fields(13) [OF s2(3) [of p]] s1(4) in \<open>simp add: same_core_def\<close>)
  moreover have "ret (procs s2 q) = ret (procs s1 q)" for q
    using same_but_links_fields(7) [OF s2(3) [of q]] by (simp split: if_splits)
  moreover have "curr_state (procs s2 p) = PROC_STATE_READY"
    using same_but_links_fields(2) [OF s2(3) [of p]] by simp
  moreover have "same_rest s2 s" using s2(4) s1(5) by (rule same_rest_trans)
  moreover have "same_static (procs s2 q) (procs s q)" for q
    using same_static_links [OF s2(3) [of q]] same_static_trans [OF _ s1(9) [of q]] by (cases "q = p") simp_all
  ultimately show ?thesis using s1(7,8) by (intro that [OF s1(1) s2(1)]) simp_all
qed

end
