(* ===== verification/Handlers.thy ===== *)
theory Handlers
  imports Sched_Steps
begin

text \<open>
  The handlers of c/disp.c that schedule: yield, the timer, sleep, wait and kill. Each returns,
  keeps the kernel's invariant, and moves processes between the queues as stated.
\<close>

subsection \<open>Giving the processor away\<close>

text \<open>The process that runs next when the ready queue is \<open>R\<close>.\<close>

definition next_of :: "pcbref list \<Rightarrow> pcbref" where
  "next_of R = (case R of [] \<Rightarrow> IdleProc | p # _ \<Rightarrow> p)"

text \<open>The fields that make up the context of a process.\<close>

definition same_context :: "pcb \<Rightarrow> pcb \<Rightarrow> bool" where
  "same_context c d \<longleftrightarrow> pid c = pid d \<and> esp c = esp d \<and> args c = args d \<and> ret c = ret d \<and>
     signals_fired c = signals_fired d \<and> signals_enabled c = signals_enabled d"

lemma same_context_links:
  "same_but_links c (d\<lparr>curr_state := x\<rparr>) \<Longrightarrow> same_context c d"
  "same_but_links c d \<Longrightarrow> same_context c d"
  using same_but_links_fields [of c "d\<lparr>curr_state := x\<rparr>"] same_but_links_fields [of c d]
  by (simp_all add: same_context_def)

lemma same_context_trans: "same_context a b \<Longrightarrow> same_context b c \<Longrightarrow> same_context a c"
  by (simp add: same_context_def)

lemma give_up_ok:
  assumes inv: "kinvx X s (Some (currproc s)) qs"
  obtains s1 s' where "add_pcb_to_queue (currproc s) PROC_STATE_READY s = Some s1" and "switch_proc s1 = Some s'"
    and "currproc s' = next_of (qs In_ready @ queued (currproc s))"
    and "kinvx X s' (Some (currproc s')) (qs(In_ready := tl (qs In_ready @ queued (currproc s))))"
    and "\<And>q. same_context (procs s' q) (procs s q)"
    and "same_rest (s'\<lparr>currproc := currproc s\<rparr>) s"
proof -
  let ?c = "currproc s"
  obtain s1 where s1: "add_pcb_to_queue ?c PROC_STATE_READY s = Some s1"
    "kinvx X s1 None (qs(In_ready := qs In_ready @ queued ?c))"
    "\<And>q. same_but_links (procs s1 q) (if q = ?c then (procs s ?c)\<lparr>curr_state := PROC_STATE_READY\<rparr> else procs s q)"
    "same_rest s1 s"
    by (rule ready_current_ok [OF inv]) blast
  obtain s' where s': "switch_proc s1 = Some s'"
    "currproc s' = next_of (qs In_ready @ queued ?c)"
    "kinvx X s' (Some (currproc s')) (qs(In_ready := tl (qs In_ready @ queued ?c)))"
    "\<And>q. same_but_links (procs s' q) (if q = currproc s' then (procs s1 q)\<lparr>curr_state := PROC_STATE_RUNNING\<rparr> else procs s1 q)"
    "same_rest (s'\<lparr>currproc := currproc s1\<rparr>) s1"
    by (rule switch_proc_ok [OF s1(2)]) (simp add: next_of_def)
  have "same_context (procs s1 q) (procs s q)" for q
    using s1(3) [of q] same_context_links by (cases "q = ?c") simp_all
  moreover have "same_context (procs s' q) (procs s1 q)" for q
    using s'(4) [of q] same_context_links by (cases "q = currproc s'") simp_all
  ultimately have "same_context (procs s' q) (procs s q)" for q using same_context_trans by blast
  moreover have "same_rest (s'\<lparr>currproc := currproc s\<rparr>) s" using s'(5) s1(4) by (simp add: same_rest_def)
  ultimately show ?thesis using that s1(1) s' by blast
qed

lemma yield_ok:
  assumes inv: "kinvx X s (Some (currproc s)) qs"
  obtains s' where "dispatch_syscall_yield s = Some s'"
    and "currproc s' = next_of (qs In_ready @ queued (currproc s))"
    and "kinvx X s' (Some (currproc s')) (qs(In_ready := tl (qs In_ready @ queued (currproc s))))"
    and "\<And>q. same_context (procs s' q) (procs s q)"
    and "same_rest (s'\<lparr>currproc := currproc s\<rparr>) s"
  by (rule give_up_ok [OF inv], rule that) (simp_all add: dispatch_syscall_yield_def)

lemma timer_ok:
  assumes inv: "kinvx X s (Some (currproc s)) qs"
  obtains s' ys zs where "timer_handler s = Some s'" and "qs In_sleep = ys @ zs"
    and "ys = map fst (filter (\<lambda>(_, t). t \<le> 1) (dl_times 0 (deltas s (qs In_sleep))))"
    and "dl_times 0 (deltas s' zs) =
      map (\<lambda>(p, t). (p, t - 1)) (filter (\<lambda>(_, t). 1 < t) (dl_times 0 (deltas s (qs In_sleep))))"
    and "currproc s' = next_of (qs In_ready @ ys @ queued (currproc s))"
    and "kinvx X s' (Some (currproc s')) (qs(In_sleep := zs, In_ready := tl (qs In_ready @ ys @ queued (currproc s))))"
    and "\<And>q. q \<notin> set (qs In_sleep) \<Longrightarrow> same_context (procs s' q) (procs s q)"
    and "\<And>q. q \<in> set ys \<Longrightarrow> ret (procs s' q) = 0"
    and "io s' = end_of_intr (io s)"
proof -
  let ?c = "currproc s"
  let ?s = "upd_proc ?c (\<lambda>c. c\<lparr>cpu_time := s32 (cpu_time c + 1)\<rparr>) s"
  have i0: "kinvx X ?s (Some ?c) qs" by (rule kinv_upd [OF inv]) auto
  have d0: "deltas ?s (qs In_sleep) = deltas s (qs In_sleep)" by (intro deltas_cong) auto
  obtain s1 ys zs where t: "tick ?s = Some s1" "qs In_sleep = ys @ zs"
    "ys = map fst (filter (\<lambda>(_, t). t \<le> 1) (dl_times 0 (deltas s (qs In_sleep))))"
    "dl_times 0 (deltas s1 zs) =
      map (\<lambda>(p, t). (p, t - 1)) (filter (\<lambda>(_, t). 1 < t) (dl_times 0 (deltas s (qs In_sleep))))"
    "kinvx X s1 (Some ?c) (qs(In_sleep := zs, In_ready := qs In_ready @ ys))"
    "\<And>q. q \<in> set ys \<Longrightarrow> same_but_links (procs s1 q) (woken (procs ?s q))"
    "\<And>q. q \<notin> set (qs In_sleep) \<Longrightarrow> same_but_links (procs s1 q) (procs ?s q)"
    "same_rest s1 ?s"
    by (rule tick_kinv [OF i0, unfolded d0]) blast
  have cc: "currproc s1 = ?c" using t(8) by (simp add: same_rest_def)
  obtain s2 s3 where g: "add_pcb_to_queue ?c PROC_STATE_READY s1 = Some s2" "switch_proc s2 = Some s3"
    "currproc s3 = next_of (qs In_ready @ ys @ queued ?c)"
    "kinvx X s3 (Some (currproc s3)) (qs(In_sleep := zs, In_ready := tl (qs In_ready @ ys @ queued ?c)))"
    "\<And>q. same_context (procs s3 q) (procs s1 q)" "same_rest (s3\<lparr>currproc := ?c\<rparr>) s1"
    by (rule give_up_ok [of X s1, unfolded cc, OF t(5)], rule that, assumption, assumption, simp_all)
  let ?s' = "s3\<lparr>io := end_of_intr (io s3)\<rparr>"
  have run: "timer_handler s = Some ?s'" using t(1) cc g(1,2) by (simp add: timer_handler_def)
  have "same_context (procs s1 q) (procs s q)" if "q \<notin> set (qs In_sleep)" for q
    using same_context_links(2) [OF t(7) [OF that]] by (auto simp: same_context_def)
  moreover have "ret (procs s3 q) = 0" if "q \<in> set ys" for q
    using g(5) [of q] same_but_links_fields(7) [OF t(6) [OF that]] by (simp add: same_context_def)
  moreover have "deltas ?s' zs = deltas s1 zs" using g(5) by (intro deltas_cong) (simp add: same_context_def)
  moreover have "io ?s' = end_of_intr (io s)" using g(6) t(8) by (simp add: same_rest_def)
  ultimately show ?thesis
    using g(3,4) t(4) same_context_trans [OF g(5)] by (intro that [OF run t(2,3)]) simp_all
qed

lemma getpid_ok:
  assumes "kinvx X s (Some (currproc s)) qs"
  shows "kinvx X (ret_cur v s) (Some (currproc s)) qs"
  unfolding ret_cur_def by (rule kinv_set_ret [OF assms]) (rule running_facts(4) [OF assms])

subsection \<open>Blocking calls\<close>

lemma pid_to_proc_Some:
  assumes "procs_ok (procs s) r" and "pid_to_proc n s = Some p"
  shows "alive (procs s) p" and "pid (procs s p) = n" and "valid p"
proof -
  have t: "p = Table (nat ((n - 1) mod int PCB_TABLE_SIZE))" "pid (procs s p) = n"
    "curr_state (procs s p) \<noteq> PROC_STATE_STOPPED"
    using assms(2) by (auto simp: pid_to_proc_def Let_def split: if_splits)
  then show "valid p" "pid (procs s p) = n" by (simp_all add: PCB_TABLE_SIZE_def nat_less_iff)
  then show "alive (procs s) p" using t(3) by (simp add: alive_def)
qed

text \<open>A live process is found under its number.\<close>

lemma pid_to_proc_alive:
  assumes "procs_ok (procs s) r" and "alive (procs s) p"
  shows "pid_to_proc (pid (procs s p)) s = Some p"
proof -
  obtain i where p: "p = Table i" "i < PCB_TABLE_SIZE" using assms(2) by (auto simp: alive_def valid_def)
  then have "known p" by auto
  then have "pid_slot p (pid (procs s p))" by (rule procs_okD(1) [OF assms(1)])
  then show ?thesis using assms(2) p by (auto simp: pid_to_proc_def alive_def Let_def)
qed

lemma sleep_handler_ok:
  assumes inv: "kinvx X s (Some (currproc s)) qs" and c: "valid (currproc s)" and t: "0 < carg 0 s"
  obtains s' ys where "dispatch_syscall_sleep s = Some s'"
    and "dl_times 0 (deltas s' ys) =
      takeWhile (\<lambda>(_, u). u < sleep_ticks (carg 0 s)) (dl_times 0 (deltas s (qs In_sleep))) @
      (currproc s, sleep_ticks (carg 0 s)) #
      dropWhile (\<lambda>(_, u). u < sleep_ticks (carg 0 s)) (dl_times 0 (deltas s (qs In_sleep)))"
    and "currproc s' = next_of (qs In_ready)"
    and "kinvx X s' (Some (currproc s')) (qs(In_sleep := ys, In_ready := tl (qs In_ready)))"
    and "\<And>q. q \<noteq> currproc s \<Longrightarrow> q \<notin> set (qs In_sleep) \<Longrightarrow> same_context (procs s' q) (procs s q)"
proof -
  let ?c = "currproc s"
  obtain s1 ys where s1: "sleep ?c (carg 0 s) s = Some s1" "kinvx X s1 None (qs(In_sleep := ys))"
    "deltas s1 ys = dl_insert ?c (sleep_ticks (carg 0 s)) (deltas s (qs In_sleep))"
    "\<And>q. q \<noteq> ?c \<Longrightarrow> q \<notin> set (qs In_sleep) \<Longrightarrow> same_but_links (procs s1 q) (procs s q)"
    by (rule sleep_kinv [OF inv c t]) blast
  obtain s' where s': "switch_proc s1 = Some s'" "currproc s' = next_of (qs In_ready)"
    "kinvx X s' (Some (currproc s')) (qs(In_sleep := ys, In_ready := tl (qs In_ready)))"
    "\<And>q. same_but_links (procs s' q) (if q = currproc s' then (procs s1 q)\<lparr>curr_state := PROC_STATE_RUNNING\<rparr> else procs s1 q)"
    by (rule switch_proc_ok [OF s1(2)]) (simp add: next_of_def)
  have run: "dispatch_syscall_sleep s = Some s'" using s1(1) s'(1) t by (auto simp: dispatch_syscall_sleep_def Let_def)
  have ctx: "same_context (procs s' q) (procs s1 q)" for q
    using s'(4) [of q] same_context_links by (cases "q = currproc s'") simp_all
  have "deltas s' ys = deltas s1 ys" using ctx by (intro deltas_cong) (simp add: same_context_def)
  moreover have "\<forall>(b, d)\<in>set (deltas s (qs In_sleep)). 0 \<le> d" using kinvD(3) [OF inv] by (simp add: dl_ok_def)
  ultimately have "dl_times 0 (deltas s' ys) =
      takeWhile (\<lambda>(_, u). u < sleep_ticks (carg 0 s)) (dl_times 0 (deltas s (qs In_sleep))) @
      (?c, sleep_ticks (carg 0 s)) #
      dropWhile (\<lambda>(_, u). u < sleep_ticks (carg 0 s)) (dl_times 0 (deltas s (qs In_sleep)))"
    using s1(3) dl_insert_times by simp
  then show ?thesis
    using s' same_context_trans [OF ctx same_context_links(2) [OF s1(4)]] by (intro that [OF run]) auto
qed

lemma wait_ok:
  assumes inv: "kinvx X s (Some (currproc s)) qs" and c: "valid (currproc s)"
  shows "(pid_to_proc (sint (carg 0 s)) s = None \<longrightarrow>
      dispatch_syscall_wait s = Some (ret_cur SYSPID_DNE s) \<and> kinvx X (ret_cur SYSPID_DNE s) (Some (currproc s)) qs) \<and>
    (\<forall>w. pid_to_proc (sint (carg 0 s)) s = Some w \<longrightarrow>
      (\<exists>s'. dispatch_syscall_wait s = Some s' \<and> currproc s' = next_of (qs In_ready) \<and>
        kinvx X s' (Some (currproc s')) (qs(In_blocking w WAITING := qs (In_blocking w WAITING) @ [currproc s],
          In_ready := tl (qs In_ready))) \<and>
        ret (procs s' (currproc s)) = 0))"
proof (intro conjI impI allI)
  assume "pid_to_proc (sint (carg 0 s)) s = None"
  then show "dispatch_syscall_wait s = Some (ret_cur SYSPID_DNE s)" "kinvx X (ret_cur SYSPID_DNE s) (Some (currproc s)) qs"
    using getpid_ok [OF inv] by (simp_all add: dispatch_syscall_wait_def)
next
  fix w assume w: "pid_to_proc (sint (carg 0 s)) s = Some w"
  let ?c = "currproc s"
  have al: "alive (procs s) w" using pid_to_proc_Some(1) [OF kinvD(2) [OF inv] w] .
  let ?qs = "qs(In_blocking w WAITING := qs (In_blocking w WAITING) @ [?c])"
  obtain s1 where s1: "add_proc_to_blocking_queue ?c (Some w) WAITING (blocked ?c s) = Some s1"
    "kinvx X (blocked ?c s1) None ?qs"
    "\<And>r. same_but_queues (procs s1 r)
      (if r = ?c then (procs (blocked ?c s) ?c)\<lparr>blocking_proc := Some w, blocking_queue_name := WAITING\<rparr> else procs (blocked ?c s) r)"
    "same_rest s1 s"
    by (rule block_on_ok [OF inv c al, of WAITING "blocked ?c s"]) auto
  have st: "curr_state (procs s1 ?c) = PROC_STATE_BLOCKED" using same_but_queues_fields(2) [OF s1(3) [of ?c]] by simp
  then have "blocked ?c s1 = s1" by (cases s1) (simp add: upd_proc_def fun_upd_idem)
  then have i1: "kinvx X s1 None ?qs" using s1(2) by simp
  have ns: "?c \<notin> set (?qs In_sleep)" using running_facts(4) [OF inv] by simp
  have cc: "currproc s1 = ?c" using s1(4) by (simp add: same_rest_def)
  have i2: "kinvx X (ret_cur 0 s1) None ?qs" unfolding ret_cur_def cc by (rule kinv_set_ret [OF i1 ns])
  obtain s' where s': "switch_proc (ret_cur 0 s1) = Some s'" "currproc s' = next_of (qs In_ready)"
    "kinvx X s' (Some (currproc s')) (?qs(In_ready := tl (qs In_ready)))"
    "\<And>q. same_but_links (procs s' q) (if q = currproc s' then (procs (ret_cur 0 s1) q)\<lparr>curr_state := PROC_STATE_RUNNING\<rparr> else procs (ret_cur 0 s1) q)"
    by (rule switch_proc_ok [OF i2]) (simp add: next_of_def)
  have "dispatch_syscall_wait s = Some s'"
    using w s1(1) s'(1) by (simp add: dispatch_syscall_wait_def block_cur_def)
  moreover have "ret (procs s' ?c) = 0"
    using same_but_links_fields(7) [OF s'(4) [of ?c]] cc by (simp add: ret_cur_def split: if_splits)
  ultimately show "\<exists>s'. dispatch_syscall_wait s = Some s' \<and> currproc s' = next_of (qs In_ready) \<and>
        kinvx X s' (Some (currproc s')) (?qs(In_ready := tl (qs In_ready))) \<and> ret (procs s' ?c) = 0"
    using s' by blast
qed

end
