(* ===== verification/Handlers_Ipc.thy ===== *)
theory Handlers_Ipc
  imports Handlers
begin

text \<open>
  Signals to other processes (\<open>kill\<close>) and the rendezvous of c/msg.c: every branch returns, keeps
  the kernel's invariant, and moves the partner to the ready queue or the caller into the
  partner's queue.
\<close>

subsection \<open>Marking a signal\<close>

lemma set_proc_signal_ok:
  assumes inv: "kinvx X s r qs" and p: "alive (procs s) p"
    and sig: "0 \<le> sig" "sig < 32" and h: "read32 (signal_slot (procs s p) (nat sig)) s \<noteq> 0"
  obtains s' qs' where "set_proc_signal p sig s = Some (0, s')" and "kinvx X s' r qs'"
    and "same_rest s' s"
    and "signals_fired (procs s' p) = FLAG_BIT_SET (nat sig) (signals_fired (procs s p))"
    and "\<And>q. q \<noteq> p \<Longrightarrow> same_static (procs s' q) (procs s q)"
    and "curr_state (procs s p) \<noteq> PROC_STATE_BLOCKED \<Longrightarrow> qs' = qs"
    and "curr_state (procs s p) = PROC_STATE_BLOCKED \<Longrightarrow>
      qs' = (leave p s qs)(In_ready := leave p s qs In_ready @ [p]) \<and> curr_state (procs s' p) = PROC_STATE_READY"
    and "curr_state (procs s p) = PROC_STATE_BLOCKED \<Longrightarrow> blocking_queue_name (procs s p) \<noteq> SLEEP \<Longrightarrow>
      signalled_ret (blocking_queue_name (procs s p)) 0 = Some (ret (procs s' p))"
proof -
  let ?f = "\<lambda>c. c\<lparr>signals_fired := FLAG_BIT_SET (nat sig) (signals_fired c)\<rparr>"
  let ?s = "upd_proc p ?f s"
  have i: "kinvx X ?s r qs" by (rule kinv_upd [OF inv]) auto
  have v: "valid p" using p by (simp add: alive_def)
  show ?thesis
  proof (cases "curr_state (procs s p) = PROC_STATE_BLOCKED")
    case False
    then have "set_proc_signal p sig s = Some (0, ?s)"
      using sig h by (simp add: set_proc_signal_def SIGNAL_TABLE_SIZE_def)
    then show ?thesis by (rule that) (use i False in auto)
  next
    case True
    then have b: "curr_state (procs ?s p) = PROC_STATE_BLOCKED" by simp
    obtain s1 s2 where u: "resolve_blocking p ?s = Some s1" "add_pcb_to_queue p PROC_STATE_READY s1 = Some s2"
      "kinvx X s2 r ((leave p ?s qs)(In_ready := leave p ?s qs In_ready @ [p]))" "same_rest s2 ?s"
      "blocking_queue_name (procs ?s p) \<noteq> SLEEP \<Longrightarrow>
        signalled_ret (blocking_queue_name (procs ?s p)) 0 = Some (ret (procs s2 p))"
      "curr_state (procs s2 p) = PROC_STATE_READY" "\<And>q. same_static (procs s2 q) (procs ?s q)"
      by (rule unblock_ok [OF i v b]) blast
    have "leave p ?s qs = leave p s qs" by (simp add: leave_def)
    moreover have "set_proc_signal p sig s = Some (0, s2)"
      using sig h u(1,2) True by (simp add: set_proc_signal_def SIGNAL_TABLE_SIZE_def)
    moreover have "same_static (procs s2 q) (procs s q)" if "q \<noteq> p" for q using u(7) [of q] that by simp
    moreover have "signals_fired (procs s2 p) = FLAG_BIT_SET (nat sig) (signals_fired (procs s p))"
      using u(7) [of p] by (simp add: same_static_def)
    ultimately show ?thesis using u(3-6) True by (intro that [of s2]) auto
  qed
qed

lemma kill_ok:
  assumes inv: "kinvx X s (Some (currproc s)) qs"
  obtains s' qs' where "store_ret dispatch_syscall_kill s = Some s'"
    and "kinvx X s' (Some (currproc s')) qs'" and "currproc s' = currproc s"
proof -
  let ?n = "sint (carg 0 s)" and ?sig = "sint (carg 1 s)"
  obtain v s1 qs' where k: "dispatch_syscall_kill s = Some (v, s1)"
    "kinvx X s1 (Some (currproc s)) qs'" "currproc s1 = currproc s"
  proof (cases "pid_to_proc ?n s")
    case (Some p)
    have al: "alive (procs s) p" by (rule pid_to_proc_Some [OF kinvD(2) [OF inv] Some])
    show ?thesis
    proof (cases "0 \<le> ?sig \<and> ?sig < 32 \<and> read32 (signal_slot (procs s p) (nat ?sig)) s \<noteq> 0")
      case True
      obtain s1 qs1 where "set_proc_signal p ?sig s = Some (0, s1)" "kinvx X s1 (Some (currproc s)) qs1"
        "same_rest s1 s"
        by (rule set_proc_signal_ok [OF inv al, of ?sig]) (use True in blast)+
      then show ?thesis using Some by (intro that [of 0 s1 qs1]) (auto simp: dispatch_syscall_kill_def same_rest_def)
    next
      case False
      then show ?thesis using inv Some
        by (intro that [of "if 0 \<le> ?sig \<and> ?sig < 32 then 0 else SYSKILL_INVALID_SIGNAL" s qs])
          (auto simp: dispatch_syscall_kill_def set_proc_signal_def SIGNAL_TABLE_SIZE_def)
    qed
  next
    case None
    then show ?thesis
      by (intro that [of SYSKILL_TARGET_DNE s qs]) (simp_all add: inv dispatch_syscall_kill_def)
  qed
  then have "store_ret dispatch_syscall_kill s = Some (ret_cur v s1)" by (simp add: store_ret_def)
  moreover have "kinvx X (ret_cur v s1) (Some (currproc s1)) qs'" using k by (intro getpid_ok) simp
  ultimately show ?thesis using that k(3) by (simp add: ret_cur_def)
qed

subsection \<open>Messages\<close>

lemma copy_message_simps [simp]:
  "procs (copy_message d b m n s) = procs s" "currproc (copy_message d b m n s) = currproc s"
  "queue_heads (copy_message d b m n s) = queue_heads s" "queue_tails (copy_message d b m n s) = queue_tails s"
  "sleeping_list (copy_message d b m n s) = sleeping_list s"
  "heap (copy_message d b m n s) = heap s" "kbd (copy_message d b m n s) = kbd s"
  "device_table (copy_message d b m n s) = device_table s"
  "ram (copy_message d b m n s) = strncpy (ram s) d b (sint (min m n))"
  by (simp_all add: copy_message_def)

text \<open>States that differ in memory and console only.\<close>

definition same_sched :: "kernel \<Rightarrow> kernel \<Rightarrow> bool" where
  "same_sched s' s \<longleftrightarrow> procs s' = procs s \<and> queue_heads s' = queue_heads s \<and> queue_tails s' = queue_tails s \<and>
     sleeping_list s' = sleeping_list s \<and> heap s' = heap s \<and> device_table s' = device_table s \<and> kbd s' = kbd s"

lemma same_sched_simps [simp]:
  "same_sched s s" "same_sched (copy_message d b m n s) s' = same_sched s s'"
  "same_sched (write32 a v s) s' = same_sched s s'"
  by (simp_all add: same_sched_def)

abbreviation unblocked :: "pcb \<Rightarrow> pcb" where
  "unblocked c \<equiv> c\<lparr>blocking_proc := None, blocking_queue_name := NO_BLOCKER\<rparr>"

text \<open>A process that has been taken out of its queue gets its message and becomes ready.\<close>

lemma hand_over_ok:
  assumes inv: "kinvx X s r qs" and p: "valid p" "curr_state (procs s p) = PROC_STATE_BLOCKED"
    and q0: "qinv s0 {p} qs1"
    and core: "\<And>q. same_core (procs s0 q) (if q = p then unblocked (procs s p) else procs s q)"
    and other: "same_rest s0 s" and dl: "dl_ok MAX_TICKS (deltas s0 (qs1 In_sleep))"
    and ram: "same_sched s1 s0"
  obtains s2 where "add_pcb_to_queue p PROC_STATE_READY (set_ret p v s1) = Some s2"
    and "kinvx X s2 r (qs1(In_ready := qs1 In_ready @ [p]))"
    and "\<And>q. same_static (procs s2 q) (procs s0 q)" and "ret (procs s2 p) = v"
    and "\<And>q. q \<noteq> p \<Longrightarrow> ret (procs s2 q) = ret (procs s0 q)"
    and "curr_state (procs s2 p) = PROC_STATE_READY"
    and "same_rest s2 s1"
proof -
  note ram = ram [unfolded same_sched_def]
  have q1: "qinv s1 {p} qs1" by (rule qinv_other [OF q0]) (use ram in simp_all)
  have n: "p \<notin> set (qs1 In_sleep)" using qinvD(2) [OF q1, of p In_sleep] by blast
  let ?s1 = "set_ret p v s1"
  have dl1: "deltas ?s1 (qs1 In_sleep) = deltas s0 (qs1 In_sleep)" using n ram by (intro deltas_cong) auto
  have q1': "qinv ?s1 {p} qs1" unfolding set_ret_def by (rule qinv_upd_proc [OF q1]) auto
  obtain s2 where s2: "add_pcb_to_queue p PROC_STATE_READY ?s1 = Some s2"
    "kinvx X (unnamed p s2) r (qs1(In_ready := qs1 In_ready @ [p]))"
    "\<And>q. same_but_links (procs s2 q) (if q = p then (procs ?s1 p)\<lparr>curr_state := PROC_STATE_READY\<rparr> else procs ?s1 q)"
    "same_rest s2 ?s1"
  proof (rule make_ready_ok [OF inv p q1'])
    show "same_core (procs ?s1 q) (procs s q)" if "q \<noteq> p" for q using core [of q] ram that by simp
    have pp: "same_core (procs s0 p) (unblocked (procs s p))" using core [of p] by simp
    show "same_life (procs ?s1 p) (procs s p)" "curr_state (procs ?s1 p) = PROC_STATE_BLOCKED"
      "blocking_proc (procs ?s1 p) = None" using pp p(2) ram by (simp_all add: same_core_def same_life_def)
  qed (use other ram dl dl1 in \<open>auto simp: same_rest_def\<close>)
  have "kinvx X s2 r (qs1(In_ready := qs1 In_ready @ [p]))"
    by (rule make_ready_named [OF s2(2)])
      (use same_but_links_fields(13) [OF s2(3) [of p]] core [of p] ram in \<open>simp add: same_core_def\<close>)
  moreover have "same_static (procs s2 q) (procs s0 q)" for q
    using same_static_links [OF s2(3) [of q]] ram by (cases "q = p") simp_all
  moreover have "ret (procs s2 q) = (if q = p then v else ret (procs s0 q))" for q
    using same_but_links_fields(7) [OF s2(3) [of q]] ram by (cases "q = p") simp_all
  moreover have "curr_state (procs s2 p) = PROC_STATE_READY"
    using same_but_links_fields(2) [OF s2(3) [of p]] by simp
  ultimately show ?thesis using s2(4) by (intro that [OF s2(1)]) simp_all
qed

text \<open>Is \<open>d\<close> blocked in a receive that \<open>c\<close> may answer?\<close>

definition awaits :: "kernel \<Rightarrow> pcbref \<Rightarrow> pcbref \<Rightarrow> bool" where
  "awaits s d c \<longleftrightarrow> blocking_queue_name (procs s d) = RECEIVE_ANY \<or>
     (blocking_queue_name (procs s d) = RECEIVER \<and> blocking_proc (procs s d) = Some c)"

lemma named_blocked:
  assumes "kinvx X s r qs" and "alive (procs s) p" and "blocking_queue_name (procs s p) \<noteq> NO_BLOCKER"
  shows "curr_state (procs s p) = PROC_STATE_BLOCKED"
  using blocked_iff_named [OF procs_okD(4) [OF kinvD(2) [OF assms(1)], of p]] assms(2,3) by (simp add: alive_def)

lemma not_removed:
  assumes "blocking_queue_name (procs s p) \<noteq> q \<or> blocking_proc (procs s p) \<noteq> Some w"
  shows "remove_proc_from_blocking_queue p (Some w) q s = Some (0, s)"
  using assms by (simp add: remove_proc_from_blocking_queue_def)

text \<open>The memory after a message of at most \<open>len\<close> bytes at \<open>buffer\<close> has gone to a receiver of
  unknown senders or of this one.\<close>

definition delivered :: "kernel \<Rightarrow> pcbref \<Rightarrow> pcbref \<Rightarrow> u32 \<Rightarrow> u32 \<Rightarrow> bytes" where
  "delivered s c d buffer len =
     (let s' = (if blocking_queue_name (procs s d) = RECEIVE_ANY
                then write32 (arg d 0 s) (word_of_int (pid (procs s c))) s else s)
      in strncpy (ram s') (arg d 1 s') buffer (sint (min (arg d 2 s') len)))"

lemma arg_same: "args (procs s' p) = args (procs s p) \<Longrightarrow> ram s' = ram s \<Longrightarrow> arg p i s' = arg p i s"
  by (simp add: arg_def read32_def)

lemma send_delivers:
  assumes inv: "kinvx X s r qs" and d: "alive (procs s) d" and c: "c \<noteq> d"
    and arg: "buffer \<noteq> 0" "0 < len" and a: "awaits s d c"
  obtains s' where "send c d buffer len s = Some (SYSPID_OK, s')"
    and "kinvx X s' r ((leave d s qs)(In_ready := leave d s qs In_ready @ [d]))"
    and "ram s' = delivered s c d buffer len" and "ret (procs s' d) = SYSPID_OK"
    and "curr_state (procs s' d) = PROC_STATE_READY"
    and "\<And>q. same_static (procs s' q) (procs s q)" and "currproc s' = currproc s"
proof -
  have v: "valid d" using d by (simp add: alive_def)
  have b: "curr_state (procs s d) = PROC_STATE_BLOCKED"
    by (rule named_blocked [OF inv d]) (use a in \<open>auto simp: awaits_def\<close>)
  show ?thesis
  proof (cases "blocking_queue_name (procs s d) = RECEIVE_ANY")
    case True
    have bp: "blocking_proc (procs s d) = None"
      using blocking_ok_cases(3) [OF procs_okD(4) [OF kinvD(2) [OF inv] v] b] True by auto
    have "place_of (procs s d) = None" using b True by (simp add: place_of_def)
    then have lv: "leave d s qs = qs" "qinv s {d} qs"
      using qinv_transit(1) [OF kinvD(1) [OF inv], of d] by (simp_all add: leave_def)
    let ?s0 = "unnamed d s"
    let ?s1 = "write32 (arg d 0 ?s0) (word_of_int (pid (procs ?s0 c))) ?s0"
    let ?s2 = "copy_message (arg d 1 ?s1) buffer (arg d 2 ?s1) len ?s1"
    have q0: "qinv ?s0 {d} qs" by (rule qinv_upd_proc [OF lv(2)]) auto
    have "deltas ?s0 (qs In_sleep) = deltas s (qs In_sleep)" by (intro deltas_cong) auto
    then have dl: "dl_ok MAX_TICKS (deltas ?s0 (qs In_sleep))" using kinvD(3) [OF inv] by simp
    have core: "same_core (procs ?s0 q) (if q = d then unblocked (procs s d) else procs s q)" for q
      using bp by (simp add: same_core_def)
    have ss: "same_sched ?s2 ?s0" and sr: "same_rest ?s0 s" by simp_all
    obtain s' where s': "add_pcb_to_queue d PROC_STATE_READY (set_ret d SYSPID_OK ?s2) = Some s'"
      "kinvx X s' r (qs(In_ready := qs In_ready @ [d]))"
      "\<And>q. same_static (procs s' q) (procs ?s0 q)" "ret (procs s' d) = SYSPID_OK"
      "curr_state (procs s' d) = PROC_STATE_READY" "same_rest s' ?s2"
      by (rule hand_over_ok [OF inv v b q0 core sr dl ss, of SYSPID_OK]) blast
    have run: "send c d buffer len s = Some (SYSPID_OK, s')"
      using True arg b s'(1) by (simp add: send_def Let_def)
    have "arg d i ?s0 = arg d i s" for i by (rule arg_same) simp_all
    moreover have "arg d i ?s1 = arg d i (write32 (arg d 0 s) (word_of_int (pid (procs s c))) s)" for i
      using calculation c by (intro arg_same) (simp_all add: write32_def upd_proc_def)
    ultimately have "ram ?s2 = delivered s c d buffer len"
      using True c by (simp add: delivered_def write32_def upd_proc_def Let_def)
    then show ?thesis
      using s' lv(1) same_static_trans [OF s'(3)]
      by (intro that [OF run]) (auto simp: same_rest_def same_static_def)
  next
    case False
    then have r: "blocking_queue_name (procs s d) = RECEIVER" "blocking_proc (procs s d) = Some c"
      using a by (auto simp: awaits_def)
    obtain s1 where s1: "remove_proc_from_blocking_queue d (Some c) RECEIVER s = Some (1, s1)"
      "qinv s1 {d} (leave d s qs)" "same_rest s1 s"
      "\<And>q. same_but_queues (procs s1 q)
        (if q = d then unblocked (procs s d) else procs s q)"
      "dl_ok MAX_TICKS (deltas s1 (leave d s qs In_sleep))"
      by (rule unqueue_ok [OF inv v b r(2), unfolded r(1)]) blast
    have core: "same_core (procs s1 q) (if q = d then unblocked (procs s d) else procs s q)" for q
      using same_core_queues [OF s1(4)] .
    have st: "same_static (procs s1 q) (procs s q)" for q
      using same_static_queues [OF s1(4) [of q]] by (cases "q = d") simp_all
    have nm: "blocking_queue_name (procs s1 d) \<noteq> RECEIVE_ANY" "curr_state (procs s1 d) = PROC_STATE_BLOCKED"
      using core [of d] b by (simp_all add: same_core_def)
    let ?s2 = "copy_message (arg d 1 s1) buffer (arg d 2 s1) len s1"
    obtain s' where s': "add_pcb_to_queue d PROC_STATE_READY (set_ret d SYSPID_OK ?s2) = Some s'"
      "kinvx X s' r ((leave d s qs)(In_ready := leave d s qs In_ready @ [d]))"
      "\<And>q. same_static (procs s' q) (procs s1 q)" "ret (procs s' d) = SYSPID_OK"
      "curr_state (procs s' d) = PROC_STATE_READY" "same_rest s' ?s2"
      by (rule hand_over_ok [OF inv v b s1(2) core s1(3,5), of ?s2 SYSPID_OK]) (simp, blast)
    have run: "send c d buffer len s = Some (SYSPID_OK, s')"
      using False arg nm s1(1) s'(1) by (simp add: send_def Let_def)
    have "arg d i s1 = arg d i s" for i
      using st [of d] s1(3) by (intro arg_same) (simp_all add: same_static_def same_rest_def)
    then have "ram ?s2 = delivered s c d buffer len"
      using False s1(3) by (simp add: delivered_def same_rest_def)
    then show ?thesis
      using s' s1(3) same_static_trans [OF s'(3) st]
      by (intro that [OF run]) (auto simp: same_rest_def copy_message_def)
  qed
qed

text \<open>Nobody waits: the sender joins the receiver's queue of senders.\<close>

lemma send_blocks:
  assumes inv: "kinvx X s (Some c) qs" and c: "valid c" and d: "alive (procs s) d"
    and arg: "buffer \<noteq> 0" "0 < len" and a: "\<not> awaits s d c"
  obtains s' where "send c d buffer len s = Some (BLOCKERR, s')"
    and "kinvx X (blocked c s') None (qs(In_blocking d SENDER := qs (In_blocking d SENDER) @ [c]))"
    and "same_rest s' s" and "\<And>q. same_static (procs s' q) (procs s q)"
proof -
  obtain s' where s': "add_proc_to_blocking_queue c (Some d) SENDER s = Some s'"
    "kinvx X (blocked c s') None (qs(In_blocking d SENDER := qs (In_blocking d SENDER) @ [c]))"
    "\<And>r. same_but_queues (procs s' r)
      (if r = c then (procs s c)\<lparr>blocking_proc := Some d, blocking_queue_name := SENDER\<rparr> else procs s r)"
    "same_rest s' s"
    by (rule block_on_ok [OF inv c d, of SENDER s]) auto
  have "remove_proc_from_blocking_queue d (Some c) RECEIVER s = Some (0, s)"
    using a by (intro not_removed) (auto simp: awaits_def)
  then have "send c d buffer len s = Some (BLOCKERR, s')"
    using a arg s'(1) by (simp add: send_def awaits_def)
  moreover have "same_static (procs s' q) (procs s q)" for q
    using same_static_queues [OF s'(3) [of q]] by (cases "q = c") simp_all
  ultimately show ?thesis using that s' by blast
qed

text \<open>Is \<open>w\<close> blocked sending to \<open>c\<close>?\<close>

definition offers :: "kernel \<Rightarrow> pcbref \<Rightarrow> pcbref \<Rightarrow> bool" where
  "offers s w c \<longleftrightarrow> blocking_queue_name (procs s w) = SENDER \<and> blocking_proc (procs s w) = Some c"

text \<open>Taking the message of a blocked sender, common to \<open>recv\<close> and \<open>recv_any\<close>: \<open>s1\<close> is the state
  after the sender was unlinked, \<open>s2\<close> the one after the copy.\<close>

lemma take_offer:
  assumes inv: "kinvx X s r qs" and w: "alive (procs s) w" and a: "offers s w c"
  obtains s1 where "remove_proc_from_blocking_queue w (Some c) SENDER s = Some (1, s1)"
    and "same_rest s1 s" and "\<And>q. same_static (procs s1 q) (procs s q)"
    and "curr_state (procs s1 w) = PROC_STATE_BLOCKED"
    and "\<And>s2. same_sched s2 s1 \<Longrightarrow>
      \<exists>s'. add_pcb_to_queue w PROC_STATE_READY (set_ret w SYSPID_OK s2) = Some s' \<and>
        kinvx X s' r ((leave w s qs)(In_ready := leave w s qs In_ready @ [w])) \<and>
        (\<forall>q. same_static (procs s' q) (procs s q)) \<and> ret (procs s' w) = SYSPID_OK \<and>
        curr_state (procs s' w) = PROC_STATE_READY \<and> same_rest s' s2"
proof -
  have v: "valid w" using w by (simp add: alive_def)
  have r: "blocking_queue_name (procs s w) = SENDER" "blocking_proc (procs s w) = Some c"
    using a by (auto simp: offers_def)
  have b: "curr_state (procs s w) = PROC_STATE_BLOCKED" by (rule named_blocked [OF inv w]) (use r in auto)
  obtain s1 where s1: "remove_proc_from_blocking_queue w (Some c) SENDER s = Some (1, s1)"
    "qinv s1 {w} (leave w s qs)" "same_rest s1 s"
    "\<And>q. same_but_queues (procs s1 q)
      (if q = w then unblocked (procs s w) else procs s q)"
    "dl_ok MAX_TICKS (deltas s1 (leave w s qs In_sleep))"
    by (rule unqueue_ok [OF inv v b r(2), unfolded r(1)]) blast
  have core: "same_core (procs s1 q) (if q = w then unblocked (procs s w) else procs s q)" for q
    using same_core_queues [OF s1(4)] .
  have st: "same_static (procs s1 q) (procs s q)" for q
    using same_static_queues [OF s1(4) [of q]] by (cases "q = w") simp_all
  have "\<exists>s'. add_pcb_to_queue w PROC_STATE_READY (set_ret w SYSPID_OK s2) = Some s' \<and>
      kinvx X s' r ((leave w s qs)(In_ready := leave w s qs In_ready @ [w])) \<and>
      (\<forall>q. same_static (procs s' q) (procs s q)) \<and> ret (procs s' w) = SYSPID_OK \<and>
      curr_state (procs s' w) = PROC_STATE_READY \<and> same_rest s' s2"
    if e: "same_sched s2 s1" for s2
  proof -
    obtain s' where s': "add_pcb_to_queue w PROC_STATE_READY (set_ret w SYSPID_OK s2) = Some s'"
      "kinvx X s' r ((leave w s qs)(In_ready := leave w s qs In_ready @ [w]))"
      "\<And>q. same_static (procs s' q) (procs s1 q)" "ret (procs s' w) = SYSPID_OK"
      "curr_state (procs s' w) = PROC_STATE_READY" "same_rest s' s2"
      by (rule hand_over_ok [OF inv v b s1(2) core s1(3,5) e, of SYSPID_OK]) blast
    then show ?thesis using same_static_trans [OF s'(3) st] by blast
  qed
  moreover have "curr_state (procs s1 w) = PROC_STATE_BLOCKED" using core [of w] b by (simp add: same_core_def)
  ultimately show ?thesis using that s1(1,3) st by blast
qed

lemma recv_delivers:
  assumes inv: "kinvx X s r qs" and w: "alive (procs s) w"
    and arg: "buffer \<noteq> 0" "0 < len" and a: "offers s w c"
  obtains s' where "recv w c buffer len s = Some (SYSPID_OK, s')"
    and "kinvx X s' r ((leave w s qs)(In_ready := leave w s qs In_ready @ [w]))"
    and "ram s' = strncpy (ram s) buffer (arg w 1 s) (sint (min (arg w 2 s) len))"
    and "ret (procs s' w) = SYSPID_OK" and "curr_state (procs s' w) = PROC_STATE_READY"
    and "\<And>q. same_static (procs s' q) (procs s q)" and "currproc s' = currproc s"
proof -
  obtain s1 where s1: "remove_proc_from_blocking_queue w (Some c) SENDER s = Some (1, s1)"
    "same_rest s1 s" "\<And>q. same_static (procs s1 q) (procs s q)" "curr_state (procs s1 w) = PROC_STATE_BLOCKED"
    and k: "\<And>s2. same_sched s2 s1 \<Longrightarrow>
      \<exists>s'. add_pcb_to_queue w PROC_STATE_READY (set_ret w SYSPID_OK s2) = Some s' \<and>
        kinvx X s' r ((leave w s qs)(In_ready := leave w s qs In_ready @ [w])) \<and>
        (\<forall>q. same_static (procs s' q) (procs s q)) \<and> ret (procs s' w) = SYSPID_OK \<and>
        curr_state (procs s' w) = PROC_STATE_READY \<and> same_rest s' s2"
    by (rule take_offer [OF inv w a]) blast
  let ?s2 = "copy_message buffer (arg w 1 s1) (arg w 2 s1) len s1"
  obtain s' where s': "add_pcb_to_queue w PROC_STATE_READY (set_ret w SYSPID_OK ?s2) = Some s'"
    "kinvx X s' r ((leave w s qs)(In_ready := leave w s qs In_ready @ [w]))"
    "\<forall>q. same_static (procs s' q) (procs s q)" "ret (procs s' w) = SYSPID_OK"
    "curr_state (procs s' w) = PROC_STATE_READY" "same_rest s' ?s2"
    using k [of ?s2] by auto
  have run: "recv w c buffer len s = Some (SYSPID_OK, s')" using arg s1(1,4) s'(1) by (simp add: recv_def Let_def)
  have "arg w i s1 = arg w i s" for i
    using s1(2,3) by (intro arg_same) (simp_all add: same_static_def same_rest_def)
  then have "ram s' = strncpy (ram s) buffer (arg w 1 s) (sint (min (arg w 2 s) len))"
    using s'(6) s1(2) by (simp add: same_rest_def)
  moreover have "currproc s' = currproc s" using s'(6) s1(2) by (simp add: same_rest_def)
  ultimately show ?thesis using that run s'(2-5) by blast
qed

lemma recv_blocks:
  assumes inv: "kinvx X s (Some c) qs" and c: "valid c" and w: "alive (procs s) w"
    and arg: "buffer \<noteq> 0" "0 < len" and a: "\<not> offers s w c"
  obtains s' where "recv w c buffer len s = Some (BLOCKERR, s')"
    and "kinvx X (blocked c s') None (qs(In_blocking w RECEIVER := qs (In_blocking w RECEIVER) @ [c]))"
    and "same_rest s' s" and "\<And>q. same_static (procs s' q) (procs s q)"
proof -
  obtain s' where s': "add_proc_to_blocking_queue c (Some w) RECEIVER s = Some s'"
    "kinvx X (blocked c s') None (qs(In_blocking w RECEIVER := qs (In_blocking w RECEIVER) @ [c]))"
    "\<And>r. same_but_queues (procs s' r)
      (if r = c then (procs s c)\<lparr>blocking_proc := Some w, blocking_queue_name := RECEIVER\<rparr> else procs s r)"
    "same_rest s' s"
    by (rule block_on_ok [OF inv c w, of RECEIVER s]) auto
  have "remove_proc_from_blocking_queue w (Some c) SENDER s = Some (0, s)"
    using a by (intro not_removed) (auto simp: offers_def)
  then have "recv w c buffer len s = Some (BLOCKERR, s')" using arg s'(1) by (simp add: recv_def)
  moreover have "same_static (procs s' q) (procs s q)" for q
    using same_static_queues [OF s'(3) [of q]] by (cases "q = c") simp_all
  ultimately show ?thesis using that s' by blast
qed

text \<open>From anybody: the process that has waited longest in the queue of senders.\<close>

lemma recv_any_delivers:
  assumes inv: "kinvx X s r qs" and c: "valid c"
    and arg: "buffer \<noteq> 0" "0 < len" and q: "qs (In_blocking c SENDER) = w # ws"
  obtains s' where "recv_any c buffer len s = Some (SYSPID_OK, s')"
    and "kinvx X s' r (qs(In_blocking c SENDER := ws, In_ready := qs In_ready @ [w]))"
    and "ram s' = (let m = store32 (ram s) (arg c 0 s) (word_of_int (pid (procs s w)))
      in strncpy m buffer (arg w 1 (s\<lparr>ram := m\<rparr>)) (sint (min (arg w 2 (s\<lparr>ram := m\<rparr>)) len)))"
    and "ret (procs s' w) = SYSPID_OK" and "curr_state (procs s' w) = PROC_STATE_READY"
    and "\<And>q. same_static (procs s' q) (procs s q)" and "currproc s' = currproc s"
proof -
  have pl: "valid w" "place_of (procs s w) = Some (In_blocking c SENDER)"
    using qinvD(2) [OF kinvD(1) [OF inv], of w "In_blocking c SENDER"] q by auto
  then have st: "curr_state (procs s w) = PROC_STATE_BLOCKED"
    and of: "offers s w c"
    by (auto simp: place_of_def offers_def split: proc_state.splits if_splits)
  have al: "alive (procs s) w" using pl(1) st by (simp add: alive_def)
  have lv: "leave w s qs = qs(In_blocking c SENDER := ws)" using pl q by (simp add: leave_def)
  have ch: "chain_at s (In_blocking c SENDER) (w # ws)"
    using qinvD(1) [OF kinvD(1) [OF inv], of "In_blocking c SENDER"] c q by simp
  then have hd: "blocking_queue_heads (procs s c) SENDER = Some w" by (simp add: chain_at_def)
  obtain s1 where s1: "remove_proc_from_blocking_queue w (Some c) SENDER s = Some (1, s1)"
    "same_rest s1 s" "\<And>q. same_static (procs s1 q) (procs s q)" "curr_state (procs s1 w) = PROC_STATE_BLOCKED"
    and k: "\<And>s2. same_sched s2 s1 \<Longrightarrow>
      \<exists>s'. add_pcb_to_queue w PROC_STATE_READY (set_ret w SYSPID_OK s2) = Some s' \<and>
        kinvx X s' r ((leave w s qs)(In_ready := leave w s qs In_ready @ [w])) \<and>
        (\<forall>q. same_static (procs s' q) (procs s q)) \<and> ret (procs s' w) = SYSPID_OK \<and>
        curr_state (procs s' w) = PROC_STATE_READY \<and> same_rest s' s2"
    by (rule take_offer [OF inv al of]) blast
  let ?s1 = "write32 (arg c 0 s1) (word_of_int (pid (procs s1 w))) s1"
  let ?s2 = "copy_message buffer (arg w 1 ?s1) (arg w 2 ?s1) len ?s1"
  obtain s' where s': "add_pcb_to_queue w PROC_STATE_READY (set_ret w SYSPID_OK ?s2) = Some s'"
    "kinvx X s' r ((leave w s qs)(In_ready := leave w s qs In_ready @ [w]))"
    "\<forall>q. same_static (procs s' q) (procs s q)" "ret (procs s' w) = SYSPID_OK"
    "curr_state (procs s' w) = PROC_STATE_READY" "same_rest s' ?s2"
    using k [of ?s2] by auto
  have run: "recv_any c buffer len s = Some (SYSPID_OK, s')"
    using arg hd s1(1,4) s'(1) by (simp add: recv_any_def Let_def)
  have a: "arg p i s1 = arg p i s" for p i
    using s1(2) s1(3) [of p] by (intro arg_same) (simp_all add: same_static_def same_rest_def)
  let ?m = "store32 (ram s) (arg c 0 s) (word_of_int (pid (procs s w)))"
  have "ram ?s1 = ?m" using a s1(2) s1(3) [of w] by (simp add: same_rest_def same_static_def)
  moreover have "arg w i ?s1 = arg w i (s\<lparr>ram := ?m\<rparr>)" for i
    using s1(3) [of w] calculation by (intro arg_same) (simp_all add: same_static_def)
  ultimately have "ram s' = strncpy ?m buffer (arg w 1 (s\<lparr>ram := ?m\<rparr>)) (sint (min (arg w 2 (s\<lparr>ram := ?m\<rparr>)) len))"
    using s'(6) by (simp add: same_rest_def)
  moreover have "currproc s' = currproc s" using s'(6) s1(2) by (simp add: same_rest_def write32_def copy_message_def)
  ultimately show ?thesis using s'(2-5) lv by (intro that [OF run]) (auto simp: Let_def)
qed

lemma recv_any_blocks:
  assumes inv: "kinvx X s (Some c) qs" and c: "valid c"
    and arg: "buffer \<noteq> 0" "0 < len" and q: "qs (In_blocking c SENDER) = []"
  obtains s' where "recv_any c buffer len s = Some (BLOCKERR, s')"
    and "kinvx X (blocked c s') None qs" and "same_rest s' s"
    and "\<And>q. same_static (procs s' q) (procs s q)"
proof -
  let ?s' = "upd_proc c (\<lambda>x. x\<lparr>blocking_queue_name := RECEIVE_ANY\<rparr>) s"
  have "chain_at s (In_blocking c SENDER) []"
    using qinvD(1) [OF kinvD(1) [OF inv], of "In_blocking c SENDER"] c q by simp
  then have "recv_any c buffer len s = Some (BLOCKERR, ?s')"
    using arg by (simp add: recv_any_def chain_at_def)
  moreover have "blocked c ?s' = upd_proc c (\<lambda>x. x\<lparr>curr_state := PROC_STATE_BLOCKED, blocking_queue_name := RECEIVE_ANY\<rparr>) s"
    by (cases "procs s c") (simp add: upd_proc_def)
  then have "kinvx X (blocked c ?s') None qs" using block_unqueued_ok [OF inv c, of RECEIVE_ANY] by simp
  ultimately show ?thesis by (rule that) (auto simp: same_rest_def)
qed

end
