(* ===== verification/Boot.thy ===== *)
theory Boot
  imports Dispatch
begin

text \<open>
  c/init.c: the order in which \<open>initproc\<close> brings the kernel up, after the start-up code has run
  \<open>setsegs\<close> (c/i386.c) and \<open>initevec\<close> (c/evec.c). The console messages are part of the state.
\<close>

definition chars :: "string \<Rightarrow> u8 list" where
  "chars s = map (\<lambda>c. of_nat (of_char c)) s"

definition say :: "string \<Rightarrow> kernel \<Rightarrow> kernel" where
  "say msg = put_chars (chars msg)"

text \<open>The banner shows the ends of the kernel image in hexadecimal.\<close>

definition banner :: "u32 \<Rightarrow> u32 \<Rightarrow> u8 list" where
  "banner entry_addr end_addr =
     [0x0A, 0x0A] @ chars ''CPSC 415, 2016W1 '' @ [0x0A] @ chars ''32 Bit Xeros 0.01 '' @ [0x0A] @
     chars ''Located at: '' @ prtl16 entry_addr @ chars '' to '' @ prtl16 end_addr @ [0x0A]"

definition k_meminit :: "kernel \<Rightarrow> kernel option" where
  "k_meminit s = map_option (\<lambda>h. s\<lparr>heap := h\<rparr>) (kmeminit (heap s))"

definition line :: "string \<Rightarrow> kernel \<Rightarrow> kernel" where
  "line msg s = put_chars (chars msg @ [0x0A]) s"

record boot_image =
  addr_entry :: u32
  addr_end :: u32
  addr_timer_entry :: u32
  addr_keyboard_entry :: u32
  addr_syscall_entry :: u32
  addr_login_proc :: u32

text \<open>\<open>initproc\<close> up to the dispatcher's loop; the descriptor table is the second component.\<close>

definition initproc ::
  "boot_image \<Rightarrow> kernel \<Rightarrow> (nat \<Rightarrow> idt_entry) \<Rightarrow> (kernel \<times> (nat \<Rightarrow> idt_entry)) option" where
  "initproc bi s idt = do {
     let s = put_chars (banner (addr_entry bi) (addr_end bi)) s;
     ASSERT (DEFAULT_STACK_SIZE mod 16 = 0);
     s \<leftarrow> k_meminit s;
     let s = line ''kmem initialized'' s;
     s \<leftarrow> di_init_devtable s;
     let s = line ''devices initialized'' s;
     let idt = ctsw_init_evec (addr_timer_entry bi) (addr_keyboard_entry bi) (addr_syscall_entry bi) idt;
     let s = line ''context switcher initialized'' s;
     s \<leftarrow> dispinit s;
     let s = line ''dispatcher initialized'' s;
     let s = s\<lparr>io := initPIT (1000 div TICK_LENGTH_IN_MS) (io s)\<rparr>;
     s \<leftarrow> dispatch_start (addr_login_proc bi) s;
     Some (s, idt)
   }"

text \<open>The state the start-up code leaves: the globals zero, memory limits from \<open>setsegs\<close>.\<close>

definition power_on :: "bytes \<Rightarrow> (u32 \<Rightarrow> memory_header) \<Rightarrow> image \<Rightarrow> int \<Rightarrow> int \<Rightarrow> io_state \<Rightarrow> kernel" where
  "power_on m hs img etext end_image io0 =
     (let sg = setsegs etext end_image
      in \<lparr>ram = m,
          heap = \<lparr>headers = hs, g_free_list = 0, freemem = seg_freemem sg, maxaddr = seg_maxaddr sg\<rparr>,
          image = img, procs = (\<lambda>_. zero_pcb), queue_heads = (\<lambda>_. None), queue_tails = (\<lambda>_. None),
          sleeping_list = None, currproc = IdleProc,
          kbd = \<lparr>kbd_task_list = (\<lambda>_. \<lparr>kt_pcb = None, kt_buf = 0, kt_buflen = 0, kt_i = 0,
                   kt_waiting = False\<rparr>),
                 kbd_task_refcount = 0, kbd_refcount = 0, kbd_current_type = 0, kbd_done = False,
                 keystate_flag = 0, keyboard_buffer = (\<lambda>_. 0), buffer_head = 0, buffer_tail = 0,
                 keyboard_eof = 0, keyboard_echo_flag = 0\<rparr>,
          device_table = (\<lambda>_. \<lparr>dvname = '''', dvdriver = NullDriver, dvioblk = 0, dvminor = 0\<rparr>),
          io = io0, console = []\<rparr>)"

end
