(* ===== verification/Samples.thy ===== *)
theory Samples
  imports Boot
begin

text \<open>
  Concrete machine states: the state the start-up code leaves for a small kernel image in four
  megabytes of memory. The instances of the properties that need a state start from it.
\<close>

definition sample_image :: image where
  "sample_image = \<lparr>addr_sysstop = 0x1000, addr_sigtramp = 0x1100, addr_idleproc = 0x1200,
     code_segment = 8, stack_junk = (\<lambda>_. 0)\<rparr>"

definition sample_io :: io_state where
  "sample_io = \<lparr>ports = (\<lambda>_. 0xFF), out_log = [], interrupts_on = False\<rparr>"

definition power_on_state :: kernel where
  "power_on_state = power_on (\<lambda>_. 0) (\<lambda>_. \<lparr>mh_size = 0, mh_prev = 0, mh_next = 0, mh_sanity = 0\<rparr>)
     sample_image 0x10000 0x20000 sample_io"

lemma power_on_state_simps [simp]:
  "ram power_on_state = (\<lambda>_. 0)" "freemem (heap power_on_state) = 0x24000"
  "maxaddr (heap power_on_state) = 0x3FFFFF" "procs power_on_state = (\<lambda>_. zero_pcb)"
  "currproc power_on_state = IdleProc" "queue_heads power_on_state = (\<lambda>_. None)"
  "queue_tails power_on_state = (\<lambda>_. None)" "sleeping_list power_on_state = None"
  "g_free_list (heap power_on_state) = 0" "image power_on_state = sample_image"
  "io power_on_state = sample_io" "console power_on_state = []"
  by (simp_all add: power_on_state_def power_on_def setsegs_def Let_def sizmem_def NBPG_def in_s32_def)

lemma power_on_limits [simp]:
  "kmem_freemem (heap power_on_state) = 0x24000" "kmem_maxaddr (heap power_on_state) = 0x3FFFFF"
  by (simp_all add: kmem_freemem_def kmem_maxaddr_def)

end
