(* ===== verification/Copy_Facts.thy ===== *)
theory Copy_Facts
  imports Samples
begin

text \<open>
  What the checks of c/copyinout.c guarantee: which lengths they return for, what an accepted
  range avoids, and that the walk along a string always ends.
\<close>

lemma verify_usrptr_total:
  assumes "0 < len" and "len < KERNEL_STACK"
  obtains r where "verify_usrptr p len s = Some r" and "r = OK \<or> r = EINVAL" and "r = OK \<Longrightarrow> p \<noteq> 0"
proof -
  let ?r = "if sint p \<le> 0 \<or> s32 (s32 (sint p + len) - 1) > kmem_maxaddr (heap s) then EINVAL
    else if falls_in_hole (sint p) \<or> falls_in_hole (s32 (s32 (sint p + len) - 1)) \<or>
      falls_in_kstack (sint p) s \<or> falls_in_kstack (s32 (s32 (sint p + len) - 1)) s then EINVAL else OK"
  have "verify_usrptr p len s = Some ?r" using assms by (simp add: verify_usrptr_def Let_def)
  then show ?thesis by (rule that) (auto simp: OK_def EINVAL_def split: if_splits)
qed

lemma verify_usrptr_OK:
  assumes "verify_usrptr p len s = Some OK"
  shows "0 < len" "len < KERNEL_STACK" "0 < sint p" "s32 (s32 (sint p + len) - 1) \<le> kmem_maxaddr (heap s)"
    "\<not> falls_in_hole (sint p)" "\<not> falls_in_hole (s32 (s32 (sint p + len) - 1))"
    "\<not> falls_in_kstack (sint p) s" "\<not> falls_in_kstack (s32 (s32 (sint p + len) - 1)) s" "p \<noteq> 0"
  using assms
  by (auto simp: verify_usrptr_def Let_def OK_def EINVAL_def ASSERT_def bind_eq_Some_conv split: if_splits)

lemma s32_mod: "s32 x = (x + 2 ^ 31) mod 2 ^ 32 - 2 ^ 31"
  by (simp add: s32_def signed_take_bit_eq_take_bit_shift take_bit_eq_mod)

text \<open>An interval shorter than a forbidden zone, with both ends outside it, misses it.\<close>

lemma misses_zone:
  assumes "(a :: int) \<le> x" "x \<le> b" and "\<not> (lo \<le> a \<and> a < hi)" "\<not> (lo \<le> b \<and> b < hi)" and "b - a < hi - lo"
  shows "\<not> (lo \<le> x \<and> x < hi)"
  using assms by auto

text \<open>C17: Where the end of the range does not pass the largest signed number, an accepted range
  lies in physical memory and no byte of it is in the hole or on the kernel's stack, although only
  the two ends are compared.\<close>

theorem verify_usrptr_sound:
  assumes "verify_usrptr p len s = Some OK" and "sint p + len < 2 ^ 31" and "sint p \<le> x" "x < sint p + len"
  shows "0 < x \<and> x \<le> kmem_maxaddr (heap s) \<and> \<not> falls_in_hole x \<and> \<not> falls_in_kstack x s"
proof -
  note v = verify_usrptr_OK [OF assms(1)]
  have e: "s32 (s32 (sint p + len) - 1) = sint p + len - 1"
    using v(1,3) assms(2) by (simp add: in_s32_def)
  have l: "sint p + len - 1 - sint p < HOLEEND - HOLESTART" "sint p + len - 1 - sint p < KERNEL_STACK"
    using v(2) by (simp_all add: KERNEL_STACK_def HOLEEND_def HOLESTART_def)
  have x: "x \<le> sint p + len - 1" using assms(4) by simp
  have "\<not> falls_in_hole x"
    using misses_zone [OF assms(3) x _ _ l(1)] v(5,6) e by (simp add: falls_in_hole_def)
  moreover have "\<not> falls_in_kstack x s"
    using misses_zone [OF assms(3) x, of "kmem_freemem (heap s) - KERNEL_STACK" "kmem_freemem (heap s)"] v(7,8) l(2) e
    by (simp add: falls_in_kstack_def)
  ultimately show ?thesis using v(3,4) e assms(3) x by simp
qed

text \<open>The check returns exactly for lengths between 1 and the size of the kernel's stack; for
  any other length a process passes in, its assertion stops the kernel.\<close>

theorem verify_usrptr_returns:
  "(\<exists>r. verify_usrptr p len s = Some r) \<longleftrightarrow> 0 < len \<and> len < KERNEL_STACK"
  by (auto simp: verify_usrptr_def ASSERT_def Let_def)

text \<open>A range that passes the largest signed number is accepted whatever lies there: the sum
  wraps to a negative end, which no comparison rejects.\<close>

theorem verify_usrptr_wraps:
  assumes "HOLEEND \<le> sint p" "kmem_freemem (heap s) \<le> sint p"
    and "0 < len" "len < KERNEL_STACK" "2 ^ 31 \<le> sint p + len - 1"
    and "0 \<le> kmem_freemem (heap s)" "0 \<le> kmem_maxaddr (heap s)"
  shows "verify_usrptr p len s = Some OK"
proof -
  have m: "sint p < 2 ^ 31" using sint_less [of p] by simp
  define t where "t = sint p + len - 2 ^ 32"
  have t: "t < - (2 ^ 30)" "- (2 ^ 31) < t"
    using assms(4,5) m by (simp_all add: t_def KERNEL_STACK_def)
  have "s32 (sint p + len) = s32 (t + 2 ^ 32)" by (simp add: t_def)
  also have "\<dots> = s32 t"
    unfolding s32_mod using mod_add_self2 [of "t + 2 ^ 31" "2 ^ 32"] by (simp add: add.commute add.left_commute)
  also have "\<dots> = t" using t by (simp add: in_s32_def)
  finally have s: "s32 (sint p + len) = t" .
  have "in_s32 (t - 1)" using t by (simp add: in_s32_def)
  then have "s32 (s32 (sint p + len) - 1) = t - 1" unfolding s by simp
  then show ?thesis
    using assms t by (simp add: verify_usrptr_def Let_def falls_in_hole_def falls_in_kstack_def
      HOLESTART_def HOLEEND_def KERNEL_STACK_def)
qed

text \<open>The walk of \<open>verify_usrstr\<close> ends: at the zero byte, or where the addresses stop being valid.\<close>

lemma sint_Suc:
  assumes "0 < sint (p :: u32)"
  shows "sint (p + 1) = sint p + 1 \<or> sint (p + 1) < 0"
proof -
  have "p + 1 = word_of_int (sint p + 1)" by simp
  then have "sint (p + 1) = s32 (sint p + 1)" by (simp only: sint_word_of_int)
  moreover have "sint p < 2 ^ 31" using sint_less [of p] by simp
  ultimately show ?thesis using assms
    by (cases "sint p + 1 = 2 ^ 31") (auto simp: in_s32_def s32_mod)
qed

lemma verify_usrstr_ends: "\<exists>r. verify_usrstr p s = Some r \<and> (r = OK \<or> r = EINVAL)"
proof (induction "nat (2 ^ 31 - sint p)" arbitrary: p rule: less_induct)
  case less
  obtain r where r: "verify_usrptr p 1 s = Some r" "r = OK \<or> r = EINVAL"
    by (rule verify_usrptr_total [of 1 p s]) (simp_all add: KERNEL_STACK_def)
  show ?case
  proof (cases "r = OK \<and> ram s p \<noteq> 0")
    case False
    then show ?thesis using r by (subst verify_usrstr.simps) auto
  next
    case True
    have pos: "0 < sint p" by (rule verify_usrptr_OK(3) [of p 1 s]) (use r True in simp)
    have "\<exists>r. verify_usrstr (p + 1) s = Some r \<and> (r = OK \<or> r = EINVAL)"
    proof (cases "sint (p + 1) < 0")
      case neg: True
      obtain r' where r': "verify_usrptr (p + 1) 1 s = Some r'" "r' = OK \<or> r' = EINVAL"
        by (rule verify_usrptr_total [of 1 "p + 1" s]) (simp_all add: KERNEL_STACK_def)
      then have "r' = EINVAL" using verify_usrptr_OK(3) [of "p + 1" 1 s] neg by auto
      then show ?thesis using r' by (subst verify_usrstr.simps) (simp add: OK_def EINVAL_def)
    next
      case False
      then have "nat (2 ^ 31 - sint (p + 1)) < nat (2 ^ 31 - sint p)"
        using sint_Suc [OF pos] sint_less [of p] by auto
      then show ?thesis by (rule less)
    qed
    then show ?thesis using r(1) True by (subst verify_usrstr.simps) simp
  qed
qed

lemma verify_usrstr_OK:
  assumes "verify_usrstr p s = Some OK"
  shows "\<exists>n. ram s (p + of_nat n) = 0 \<and> (\<forall>i\<le>n. verify_usrptr (p + of_nat i) 1 s = Some OK \<and>
    (i < n \<longrightarrow> ram s (p + of_nat i) \<noteq> 0))"
  using assms
proof (induction "nat (2 ^ 31 - sint p)" arbitrary: p rule: less_induct)
  case less
  obtain r where r: "verify_usrptr p 1 s = Some r" using verify_usrptr_total [of 1 p s] by (auto simp: KERNEL_STACK_def)
  have ok: "r = OK" using less.prems r by (subst (asm) verify_usrstr.simps) (auto split: if_splits)
  have pos: "0 < sint p" by (rule verify_usrptr_OK(3) [of p 1 s]) (use r ok in simp)
  show ?case
  proof (cases "ram s p = 0")
    case True
    then show ?thesis using r ok by (intro exI [of _ 0]) simp
  next
    case False
    then have next_ok: "verify_usrstr (p + 1) s = Some OK"
      using less.prems r ok by (subst (asm) verify_usrstr.simps) simp
    then have "verify_usrptr (p + 1) 1 s = Some OK"
      using verify_usrptr_total [of 1 "p + 1" s] by (subst (asm) verify_usrstr.simps) (auto simp: KERNEL_STACK_def bind_eq_Some_conv split: if_splits)
    then have "0 < sint (p + 1)" by (rule verify_usrptr_OK(3))
    then have "nat (2 ^ 31 - sint (p + 1)) < nat (2 ^ 31 - sint p)"
      using sint_Suc [OF pos] sint_less [of p] by auto
    from less.hyps [OF this next_ok] obtain n where n: "ram s (p + 1 + of_nat n) = 0"
      "\<And>i. i \<le> n \<Longrightarrow> verify_usrptr (p + 1 + of_nat i) 1 s = Some OK \<and> (i < n \<longrightarrow> ram s (p + 1 + of_nat i) \<noteq> 0)"
      by blast
    show ?thesis
    proof (intro exI [of _ "Suc n"] conjI allI impI)
      show "ram s (p + of_nat (Suc n)) = 0" using n(1) by (simp add: add.assoc)
      fix i assume "i \<le> Suc n"
      then show "verify_usrptr (p + of_nat i) 1 s = Some OK"
        using n(2) [of "i - 1"] r ok by (cases i) (simp_all add: add.assoc)
      show "i < Suc n \<Longrightarrow> ram s (p + of_nat i) \<noteq> 0"
        using n(2) [of "i - 1"] False by (cases i) (simp_all add: add.assoc)
    qed
  qed
qed

text \<open>C18: The walk along a user's string always ends with a verdict, and a string it accepts has
  its terminating zero byte, with every byte up to it in acceptable memory.\<close>

theorem verify_usrstr_sound:
  "(\<exists>r. verify_usrstr p s = Some r \<and> (r = OK \<or> r = EINVAL)) \<and>
   (verify_usrstr p s = Some OK \<longrightarrow>
     (\<exists>n. ram s (p + of_nat n) = 0 \<and> (\<forall>i\<le>n. verify_usrptr (p + of_nat i) 1 s = Some OK \<and>
       (i < n \<longrightarrow> ram s (p + of_nat i) \<noteq> 0))))"
  using verify_usrstr_ends verify_usrstr_OK by blast

subsection \<open>Instances\<close>

lemma verify_usrptr_sound_witness:
  "\<exists>p x. verify_usrptr p 100 power_on_state = Some OK \<and> sint p < x \<and> x < sint p + 100 \<and>
     x \<le> kmem_maxaddr (heap power_on_state) \<and> \<not> falls_in_kstack x power_on_state"
  using verify_usrptr_sound [of "0x200000" 100 power_on_state "0x200010"]
  by (intro exI [of _ "0x200000"] exI [of _ "0x200010"])
    (simp add: verify_usrptr_def Let_def in_s32_def falls_in_hole_def falls_in_kstack_def
      HOLESTART_def HOLEEND_def KERNEL_STACK_def)

lemma verify_usrptr_wraps_witness: "verify_usrptr 0x7FFFFFF0 100 power_on_state = Some OK"
  by (rule verify_usrptr_wraps) (simp_all add: HOLEEND_def KERNEL_STACK_def)

lemma verify_usrstr_sound_witness:
  "\<exists>n. ram power_on_state (0x200000 + of_nat n) = 0 \<and>
     (\<forall>i\<le>n. verify_usrptr (0x200000 + of_nat i) 1 power_on_state = Some OK)"
proof -
  have "verify_usrstr 0x200000 power_on_state = Some OK"
    by (subst verify_usrstr.simps)
      (simp add: verify_usrptr_def Let_def in_s32_def falls_in_hole_def falls_in_kstack_def
        HOLESTART_def HOLEEND_def KERNEL_STACK_def)
  then show ?thesis using verify_usrstr_sound [of "0x200000" power_on_state] by blast
qed

end
