(* ===== verification/Handlers_Msg.thy ===== *)
theory Handlers_Msg
  imports Handlers_Ipc Copy_Facts
begin

text \<open>
  The system calls \<open>send\<close> and \<open>receive\<close> as the dispatcher makes them: argument checks, the
  rendezvous, and the switch to another process when the caller has to wait.
\<close>

text \<open>The lengths the pointer check returns for; 0 is refused before it.\<close>

definition len_ok :: "u32 \<Rightarrow> bool" where
  "len_ok len \<longleftrightarrow> len = 0 \<or> (0 < sint len \<and> sint len < KERNEL_STACK)"

lemma len_ok_pos: "len_ok len \<Longrightarrow> len \<noteq> 0 \<Longrightarrow> 0 < sint len \<and> sint len < KERNEL_STACK \<and> 0 < len"
  by (auto simp: len_ok_def word_gt_0)

text \<open>What the dispatcher does with a caller that has to wait.\<close>

lemma block_and_switch:
  assumes b: "kinvx X (blocked c s1) None qs1" and c: "currproc s1 = c" "c \<notin> set (qs1 In_sleep)"
  obtains s' where "switch_proc (ret_cur SYSPID_DNE (block_cur (ret_cur BLOCKERR s1))) = Some s'"
    and "currproc s' = next_of (qs1 In_ready)"
    and "kinvx X s' (Some (currproc s')) (qs1(In_ready := tl (qs1 In_ready)))"
    and "ram s' = ram s1" and "\<And>q. same_static (procs s' q) (procs s1 q)"
proof -
  let ?s = "ret_cur SYSPID_DNE (block_cur (ret_cur BLOCKERR s1))"
  have eq: "?s = set_ret c SYSPID_DNE (blocked c s1)"
    using c by (cases "procs s1 c") (simp add: ret_cur_def block_cur_def set_ret_def upd_proc_def)
  have i: "kinvx X ?s None qs1" unfolding eq by (rule kinv_set_ret [OF b c(2)])
  obtain s' where s': "switch_proc ?s = Some s'"
    "currproc s' = (case qs1 In_ready of [] \<Rightarrow> IdleProc | p # _ \<Rightarrow> p)"
    "kinvx X s' (Some (currproc s')) (qs1(In_ready := tl (qs1 In_ready)))"
    "\<And>q. same_but_links (procs s' q) (if q = currproc s' then (procs ?s q)\<lparr>curr_state := PROC_STATE_RUNNING\<rparr> else procs ?s q)"
    "same_rest (s'\<lparr>currproc := currproc ?s\<rparr>) ?s"
    by (rule switch_proc_ok [OF i]) blast
  have "same_static (procs s' q) (procs ?s q)" for q
    using same_static_links [OF s'(4) [of q]] by (cases "q = currproc s'") simp_all
  moreover have "same_static (procs ?s q) (procs s1 q)" for q by (simp add: eq)
  ultimately have "same_static (procs s' q) (procs s1 q)" for q using same_static_trans by blast
  moreover have "ram s' = ram s1" using s'(5) by (simp add: same_rest_def eq)
  ultimately show ?thesis using s' that by (simp add: next_of_def)
qed

lemma send_handler_ok:
  assumes inv: "kinvx X s (Some (currproc s)) qs" and c: "valid (currproc s)" and l: "len_ok (carg 2 s)"
  shows "\<exists>s' qs'. dispatch_syscall_send s = Some s' \<and> kinvx X s' (Some (currproc s')) qs'"
proof -
  let ?c = "currproc s" and ?n = "sint (carg 0 s)" and ?b = "carg 1 s" and ?l = "carg 2 s"
  note gp = getpid_ok [OF inv]
  consider (me) "?n = pid (cur s)" | (bad) "?n \<noteq> pid (cur s)" "?l = 0 \<or> verify_usrptr ?b (sint ?l) s = Some EINVAL"
    | (ok) "?n \<noteq> pid (cur s)" "?l \<noteq> 0" "verify_usrptr ?b (sint ?l) s = Some OK"
  proof (cases "?l = 0")
    case False
    note lp = len_ok_pos [OF l False]
    obtain r where "verify_usrptr ?b (sint ?l) s = Some r" "r = OK \<or> r = EINVAL"
      using verify_usrptr_total [of "sint ?l" ?b s] lp by blast
    then show ?thesis using that False by auto
  qed (use that in blast)
  then show ?thesis
  proof cases
    case me
    then show ?thesis using gp by (auto simp: dispatch_syscall_send_def ret_cur_def Let_def)
  next
    case bad
    then have "dispatch_syscall_send s = Some (ret_cur SYSERR_OTHER s)"
      by (cases "?l = 0") (simp_all add: dispatch_syscall_send_def EINVAL_def OK_def Let_def)
    then show ?thesis using gp [of SYSERR_OTHER] by (auto simp: ret_cur_def)
  next
    case ok
    have lp: "0 < ?l" using ok(2) by (simp add: word_gt_0)
    have b0: "?b \<noteq> 0" using verify_usrptr_OK(9) [OF ok(3)] .
    show ?thesis
    proof (cases "pid_to_proc ?n s")
      case None
      then have "dispatch_syscall_send s = Some (ret_cur SYSPID_DNE s)"
        using ok by (simp add: dispatch_syscall_send_def)
      then show ?thesis using gp [of SYSPID_DNE] by (auto simp: ret_cur_def)
    next
      case (Some d)
      note pd = pid_to_proc_Some [OF kinvD(2) [OF inv] Some]
      have cd: "?c \<noteq> d" using pd(2) ok(1) by auto
      show ?thesis
      proof (cases "awaits s d ?c")
        case True
        obtain s1 where s1: "send ?c d ?b ?l s = Some (SYSPID_OK, s1)"
          "kinvx X s1 (Some ?c) ((leave d s qs)(In_ready := leave d s qs In_ready @ [d]))" "currproc s1 = ?c"
          by (rule send_delivers [OF inv pd(1) cd b0 lp True]) blast
        have "dispatch_syscall_send s = Some (ret_cur SYSPID_OK s1)"
          using ok Some s1 by (simp add: dispatch_syscall_send_def store_ret_def ret_cur_def SYSPID_OK_def BLOCKERR_def)
        then show ?thesis using getpid_ok [of X s1 _ SYSPID_OK] s1(2,3) by (auto simp: ret_cur_def)
      next
        case False
        obtain s1 where s1: "send ?c d ?b ?l s = Some (BLOCKERR, s1)"
          "kinvx X (blocked ?c s1) None (qs(In_blocking d SENDER := qs (In_blocking d SENDER) @ [?c]))"
          "same_rest s1 s"
          by (rule send_blocks [OF inv c pd(1) b0 lp False]) blast
        have cc: "currproc s1 = ?c" using s1(3) by (simp add: same_rest_def)
        have ns: "?c \<notin> set ((qs(In_blocking d SENDER := qs (In_blocking d SENDER) @ [?c])) In_sleep)"
          using running_facts(4) [OF inv, of In_sleep] by simp
        obtain s' qs' where s': "switch_proc (ret_cur SYSPID_DNE (block_cur (ret_cur BLOCKERR s1))) = Some s'"
          "kinvx X s' (Some (currproc s')) qs'"
          by (rule block_and_switch [OF s1(2) cc ns]) blast
        have "dispatch_syscall_send s = Some s'"
          using ok Some s1(1) s'(1) by (simp add: dispatch_syscall_send_def store_ret_def ret_cur_def)
        then show ?thesis using s'(2) by blast
      qed
    qed
  qed
qed

lemma recv_handler_ok:
  assumes inv: "kinvx X s (Some (currproc s)) qs" and c: "valid (currproc s)" and l: "len_ok (carg 2 s)"
  shows "\<exists>s' qs'. dispatch_syscall_recv s = Some s' \<and> kinvx X s' (Some (currproc s')) qs'"
proof -
  let ?c = "currproc s" and ?f = "carg 0 s" and ?b = "carg 1 s" and ?l = "carg 2 s"
  let ?n = "sint (read32 ?f s)"
  note gp = getpid_ok [OF inv] and ns = running_facts(4) [OF inv, of In_sleep]
  have KS: "(4::int) < KERNEL_STACK" by (simp add: KERNEL_STACK_def)
  obtain r where r: "verify_usrptr ?f 4 s = Some r" "r = OK \<or> r = EINVAL"
    using verify_usrptr_total [of 4 ?f s] KS by auto
  obtain v where v: "?l \<noteq> 0 \<Longrightarrow> verify_usrptr ?b (sint ?l) s = Some v" "v = OK \<or> v = EINVAL" "v = OK \<Longrightarrow> ?l \<noteq> 0 \<Longrightarrow> ?b \<noteq> 0"
  proof (cases "?l = 0")
    case False
    obtain v where "verify_usrptr ?b (sint ?l) s = Some v" "v = OK \<or> v = EINVAL" "v = OK \<Longrightarrow> ?b \<noteq> 0"
      using verify_usrptr_total [of "sint ?l" ?b s] len_ok_pos [OF l False] by blast
    then show ?thesis using that by blast
  qed (use that [of OK] in simp)
  show ?thesis
  proof (cases "r = OK \<and> ?l \<noteq> 0 \<and> v = OK")
    case False
    then have "dispatch_syscall_recv s = Some (ret_cur SYSERR_OTHER s)"
      using r v by (auto simp: dispatch_syscall_recv_def Let_def OK_def EINVAL_def)
    then show ?thesis using gp [of SYSERR_OTHER] by (auto simp: ret_cur_def)
  next
    case True
    then have lp: "0 < ?l" and b0: "?b \<noteq> 0" using v(3) by (simp_all add: word_gt_0)
    have un: "dispatch_syscall_recv s = (if ?n = pid (cur s) then Some (ret_cur SYSPID_ME s)
        else if ?n \<noteq> 0 \<and> pid_to_proc ?n s = None then Some (ret_cur SYSPID_DNE s)
        else do {
          s \<leftarrow> (if ?n = 0 then store_ret (recv_any ?c ?b ?l) s
               else do { srcproc \<leftarrow> pid_to_proc ?n s; store_ret (recv srcproc ?c ?b ?l) s });
          (if ret (cur s) = BLOCKERR then switch_proc (ret_cur SYSPID_DNE (block_cur s)) else Some s)
        })"
      using r(1) v(1) True by (simp add: dispatch_syscall_recv_def Let_def)
    have finish_ok: "\<exists>s' qs'. Some (ret_cur SYSPID_OK s1) = Some s' \<and> kinvx X s' (Some (currproc s')) qs'"
      if "kinvx X s1 (Some ?c) qs1" "currproc s1 = ?c" for s1 qs1
      using getpid_ok [of X s1 qs1 SYSPID_OK] that by (auto simp: ret_cur_def)
    have finish_block: "\<exists>s' qs'. switch_proc (ret_cur SYSPID_DNE (block_cur (ret_cur BLOCKERR s1))) = Some s' \<and>
        kinvx X s' (Some (currproc s')) qs'"
      if a: "kinvx X (blocked ?c s1) None qs1" and b: "same_rest s1 s" and d: "?c \<notin> set (qs1 In_sleep)" for s1 qs1
    proof -
      have cc: "currproc s1 = ?c" using b by (simp add: same_rest_def)
      obtain s' where "switch_proc (ret_cur SYSPID_DNE (block_cur (ret_cur BLOCKERR s1))) = Some s'"
        "kinvx X s' (Some (currproc s')) (qs1(In_ready := tl (qs1 In_ready)))"
        by (rule block_and_switch [OF a cc d]) blast
      then show ?thesis by blast
    qed
    have ne: "SYSPID_OK \<noteq> BLOCKERR" by (simp add: SYSPID_OK_def BLOCKERR_def)
    consider (me) "?n = pid (cur s)" | (dne) "?n \<noteq> pid (cur s)" "?n \<noteq> 0" "pid_to_proc ?n s = None"
      | (any) "?n \<noteq> pid (cur s)" "?n = 0" | (from_one) w where "?n \<noteq> pid (cur s)" "?n \<noteq> 0" "pid_to_proc ?n s = Some w"
      by (cases "?n = pid (cur s)"; cases "?n = 0"; cases "pid_to_proc ?n s") blast+
    then show ?thesis
    proof cases
      case me
      then show ?thesis using un gp [of SYSPID_ME] by (auto simp: ret_cur_def)
    next
      case dne
      then show ?thesis using un gp [of SYSPID_DNE] by (auto simp: ret_cur_def)
    next
      case any
      show ?thesis
      proof (cases "qs (In_blocking ?c SENDER)")
        case (Cons w ws)
        obtain s1 where s1: "recv_any ?c ?b ?l s = Some (SYSPID_OK, s1)"
          "kinvx X s1 (Some ?c) (qs(In_blocking ?c SENDER := ws, In_ready := qs In_ready @ [w]))" "currproc s1 = ?c"
          by (rule recv_any_delivers [OF inv c b0 lp Cons]) blast
        then have "dispatch_syscall_recv s = Some (ret_cur SYSPID_OK s1)"
          using un any ne by (simp add: store_ret_def ret_cur_def)
        then show ?thesis using finish_ok [OF s1(2,3)] by simp
      next
        case Nil
        obtain s1 where s1: "recv_any ?c ?b ?l s = Some (BLOCKERR, s1)" "kinvx X (blocked ?c s1) None qs" "same_rest s1 s"
          by (rule recv_any_blocks [OF inv c b0 lp Nil]) blast
        then have "dispatch_syscall_recv s = switch_proc (ret_cur SYSPID_DNE (block_cur (ret_cur BLOCKERR s1)))"
          using un any by (simp add: store_ret_def ret_cur_def)
        then show ?thesis using finish_block [OF s1(2,3) ns] by simp
      qed
    next
      case from_one
      note pw = pid_to_proc_Some [OF kinvD(2) [OF inv] from_one(3)]
      show ?thesis
      proof (cases "offers s w ?c")
        case True
        obtain s1 where s1: "recv w ?c ?b ?l s = Some (SYSPID_OK, s1)"
          "kinvx X s1 (Some ?c) ((leave w s qs)(In_ready := leave w s qs In_ready @ [w]))" "currproc s1 = ?c"
          by (rule recv_delivers [OF inv pw(1) b0 lp True]) blast
        then have "dispatch_syscall_recv s = Some (ret_cur SYSPID_OK s1)"
          using un from_one ne by (simp add: store_ret_def ret_cur_def)
        then show ?thesis using finish_ok [OF s1(2,3)] by simp
      next
        case False
        obtain s1 where s1: "recv w ?c ?b ?l s = Some (BLOCKERR, s1)"
          "kinvx X (blocked ?c s1) None (qs(In_blocking w RECEIVER := qs (In_blocking w RECEIVER) @ [?c]))" "same_rest s1 s"
          by (rule recv_blocks [OF inv c pw(1) b0 lp False]) blast
        then have "dispatch_syscall_recv s = switch_proc (ret_cur SYSPID_DNE (block_cur (ret_cur BLOCKERR s1)))"
          using un from_one by (simp add: store_ret_def ret_cur_def)
        then show ?thesis using finish_block [OF s1(2,3)] ns by simp
      qed
    qed
  qed
qed

end
