(* ===== verification/Dev_Facts.thy ===== *)
theory Dev_Facts
  imports Sched_Steps
begin

text \<open>
  Open, close, control and write of c/di_calls.c and c/kbd.c: they return, keep the kernel's
  invariant, and the driver's reference count stays the number of open descriptors.
\<close>

subsection \<open>What the parts of the invariant depend on\<close>

lemma procs_ok_cong:
  assumes "\<And>q. pid (ps' q) = pid (ps q) \<and> curr_state (ps' q) = curr_state (ps q) \<and>
    blocking_proc (ps' q) = blocking_proc (ps q) \<and> blocking_queue_name (ps' q) = blocking_queue_name (ps q)"
  shows "procs_ok ps' r = procs_ok ps r"
proof -
  have "alive ps' = alive ps" using assms by (simp add: alive_def fun_eq_iff)
  then have "blocking_ok ps' (ps' q) = blocking_ok ps (ps q)" for q
    using assms [of q] unfolding blocking_ok_def by (elim conjE) (simp only:)
  then show ?thesis using assms by (simp add: procs_ok_def)
qed

lemma mem_ok_cong:
  assumes "\<And>q. memory_region (ps' q) = memory_region (ps q) \<and> signal_table (ps' q) = signal_table (ps q) \<and>
    curr_state (ps' q) = curr_state (ps q)"
  shows "mem_ok X h ps' = mem_ok X h ps"
proof -
  have "alive ps' = alive ps" "owned_block ps' = owned_block ps"
    using assms by (simp_all add: alive_def owned_block_def fun_eq_iff)
  then show ?thesis by (simp add: mem_ok_def)
qed

lemma kbd_slot_eq: "kbd_slot p s = slot_of (pid (procs s p))"
  by (simp add: kbd_slot_def slot_of_def)

lemma slot_of_less: "slot_of n < KBD_TASK_LIST_SIZE"
  by (simp add: slot_of_def KBD_TASK_LIST_SIZE_def PCB_TABLE_SIZE_def nat_less_iff)

lemma finite_open_fds [simp]: "finite (open_fds c)"
  by (simp add: open_fds_def)

lemma card_open_fds: "card (open_fds c) \<le> PCB_NUM_FDS"
proof -
  have "open_fds c \<subseteq> {..<PCB_NUM_FDS}" by (auto simp: open_fds_def)
  then show ?thesis using card_mono [of "{..<PCB_NUM_FDS}" "open_fds c"] by simp
qed

lemma open_count_bound: "open_count ps \<le> PCB_TABLE_SIZE * PCB_NUM_FDS"
  unfolding open_count_def using sum_bounded_above [of "{..<PCB_TABLE_SIZE}" "\<lambda>i. card (open_fds (ps (Table i)))" PCB_NUM_FDS]
    card_open_fds by simp

lemma open_count_update:
  assumes "valid p"
  shows "open_count (ps(p := c)) + card (open_fds (ps p)) = open_count ps + card (open_fds c)"
proof -
  obtain i where p: "p = Table i" "i < PCB_TABLE_SIZE" using assms by (auto simp: valid_def)
  let ?A = "{..<PCB_TABLE_SIZE} - {i}"
  have "open_count ps' = card (open_fds (ps' p)) + (\<Sum>j\<in>?A. card (open_fds (ps' (Table j))))" for ps'
    using p by (simp add: open_count_def sum.remove)
  moreover have "(\<Sum>j\<in>?A. card (open_fds ((ps(p := c)) (Table j)))) = (\<Sum>j\<in>?A. card (open_fds (ps (Table j))))"
    using p by (intro sum.cong) auto
  ultimately show ?thesis by simp
qed

lemma open_count_member: "valid p \<Longrightarrow> card (open_fds (ps p)) \<le> open_count ps"
  using open_count_update [of p ps "(ps p)\<lparr>fd_table := \<lambda>_. None\<rparr>"] by (simp add: open_fds_def)

text \<open>A change of one process's descriptors and of the keyboard.\<close>

lemma kinv_fds:
  assumes inv: "kinvx X s r qs" and s': "procs s' = (procs s)(p := (procs s p)\<lparr>fd_table := t\<rparr>)"
    "queue_heads s' = queue_heads s" "queue_tails s' = queue_tails s" "sleeping_list s' = sleeping_list s"
    "heap s' = heap s"
    and dev: "dev_ok (device_table s') (kbd s') (procs s')"
  shows "kinvx X s' r qs"
proof -
  have "qinv (s\<lparr>procs := procs s'\<rparr>) {} qs"
    using qinv_upd_proc [OF kinvD(1) [OF inv], of "\<lambda>c. c\<lparr>fd_table := t\<rparr>" p] s'(1) by (simp add: upd_proc_def)
  then have "qinv s' {} qs" by (rule qinv_other) (use s' in simp_all)
  moreover have "procs_ok (procs s') r = procs_ok (procs s) r" by (rule procs_ok_cong) (simp add: s'(1))
  moreover have "mem_ok X (heap s') (procs s') = mem_ok X (heap s) (procs s)"
    unfolding s'(5) by (rule mem_ok_cong) (simp add: s'(1))
  moreover have "deltas s' (qs In_sleep) = deltas s (qs In_sleep)" by (rule deltas_cong) (simp add: s'(1))
  ultimately show ?thesis using inv dev by (simp add: kinvx_def)
qed

lemma kinv_kbd:
  assumes inv: "kinvx X s r qs" and s': "procs s' = procs s"
    "queue_heads s' = queue_heads s" "queue_tails s' = queue_tails s" "sleeping_list s' = sleeping_list s"
    "heap s' = heap s"
    and dev: "dev_ok (device_table s') (kbd s') (procs s)"
  shows "kinvx X s' r qs"
  by (rule kinv_fds [OF inv, of s' IdleProc "fd_table (procs s IdleProc)"])
    (use s' dev in \<open>simp_all add: fun_upd_idem\<close>)

lemma dev_okD:
  assumes "dev_ok devs k ps"
  shows "i < NUM_DEVICES_ID_ENUMS \<Longrightarrow> dvdriver (devs i) = KbdDriver"
    and "valid p \<Longrightarrow> fd < PCB_NUM_FDS \<Longrightarrow> fd_table (ps p) fd = Some e \<Longrightarrow> e < NUM_DEVICES_ID_ENUMS"
    and "valid p \<Longrightarrow> curr_state (ps p) = PROC_STATE_STOPPED \<Longrightarrow> open_fds (ps p) = {}"
    and "kbd_refcount k = int (open_count ps)"
    and "buffer_head k < KEYBOARD_BUFFER_SIZE" and "buffer_tail k < KEYBOARD_BUFFER_SIZE"
    and "i < KBD_TASK_LIST_SIZE \<Longrightarrow> kt_waiting (kbd_task_list k i) \<Longrightarrow>
      \<exists>p. kt_pcb (kbd_task_list k i) = Some p \<and> valid p \<and> slot_of (pid (ps p)) = i \<and> open_fds (ps p) \<noteq> {}"
  using assms by (auto simp: dev_ok_def)

lemma upd_task_simps [simp]:
  "procs (upd_task i f s) = procs s" "queue_heads (upd_task i f s) = queue_heads s"
  "queue_tails (upd_task i f s) = queue_tails s" "sleeping_list (upd_task i f s) = sleeping_list s"
  "heap (upd_task i f s) = heap s" "device_table (upd_task i f s) = device_table s"
  "currproc (upd_task i f s) = currproc s" "ram (upd_task i f s) = ram s" "io (upd_task i f s) = io s"
  "kbd (upd_task i f s) = (kbd s)\<lparr>kbd_task_list := (kbd_task_list (kbd s))(i := f (kbd_task_list (kbd s) i))\<rparr>"
  by (simp_all add: upd_task_def)

subsection \<open>Close\<close>

lemma kbd_close_spec:
  assumes "0 < kbd_refcount (kbd s)" "kbd_refcount (kbd s) < 2 ^ 31"
  obtains s' where "kbd_close p blk s = (0, s')" and "procs s' = procs s" and "queue_heads s' = queue_heads s"
    "queue_tails s' = queue_tails s" "sleeping_list s' = sleeping_list s" "heap s' = heap s"
    "device_table s' = device_table s" "currproc s' = currproc s" "ram s' = ram s" "console s' = console s"
    and "kbd_refcount (kbd s') = kbd_refcount (kbd s) - 1"
    and "kbd_task_list (kbd s') = (kbd_task_list (kbd s))(kbd_slot p s := (task (kbd_slot p s) s)\<lparr>kt_waiting := False\<rparr>)"
    and "buffer_head (kbd s') = buffer_head (kbd s)" "buffer_tail (kbd s') = buffer_tail (kbd s)"
proof -
  have r: "s32 (kbd_refcount (kbd s) - 1) = kbd_refcount (kbd s) - 1"
    using assms by (intro s32_id) (simp add: in_s32_def)
  have "kbd_close p blk s = (0, snd (kbd_close p blk s))" using assms by (simp add: kbd_close_def Let_def)
  then show ?thesis
    by (rule that)
      (use assms r in \<open>simp_all add: kbd_close_def Let_def kbd_slot_def upd_task_def upd_kbd_def\<close>)
qed

lemma di_close_ok:
  assumes inv: "kinvx X s r qs" and p: "valid p"
  shows "(check_fd p fd s \<noteq> 0 \<longrightarrow> di_close p fd s = Some (SYSERR, s)) \<and>
    (check_fd p fd s = 0 \<longrightarrow> (\<exists>s'. di_close p fd s = Some (0, s') \<and> kinvx X s' r qs \<and>
      procs s' = (procs s)(p := (procs s p)\<lparr>fd_table := (fd_table (procs s p))(nat fd := None)\<rparr>) \<and>
      currproc s' = currproc s \<and> heap s' = heap s \<and> ram s' = ram s))"
proof (intro conjI impI)
  assume "check_fd p fd s \<noteq> 0"
  then show "di_close p fd s = Some (SYSERR, s)" by (simp add: di_close_def)
next
  assume "check_fd p fd s = 0"
  then obtain e where fd: "0 \<le> fd" "nat fd < PCB_NUM_FDS" "fd_table (procs s p) (nat fd) = Some e"
    by (auto simp: check_fd_def nat_less_iff split: if_splits)
  note dev = kinvD(5) [OF inv] and D = dev_okD [OF kinvD(5) [OF inv]]
  have e: "dvdriver (device_table s e) = KbdDriver" using D(1) D(2) [OF p fd(2,3)] .
  have mem: "nat fd \<in> open_fds (procs s p)" using fd by (simp add: open_fds_def)
  then have "0 < card (open_fds (procs s p))" by (simp add: card_gt_0_iff) blast
  then have "0 < open_count (procs s)" using open_count_member [OF p, of "procs s"] by simp
  then have pos: "0 < kbd_refcount (kbd s)" "kbd_refcount (kbd s) < 2 ^ 31"
    using D(4) open_count_bound [of "procs s"] by (simp_all add: PCB_TABLE_SIZE_def PCB_NUM_FDS_def)
  obtain s1 where c: "kbd_close p (dvioblk (device_table s e)) s = (0, s1)" "procs s1 = procs s" "queue_heads s1 = queue_heads s"
    "queue_tails s1 = queue_tails s" "sleeping_list s1 = sleeping_list s" "heap s1 = heap s"
    "device_table s1 = device_table s" "currproc s1 = currproc s" "ram s1 = ram s" "console s1 = console s"
    "kbd_refcount (kbd s1) = kbd_refcount (kbd s) - 1"
    "kbd_task_list (kbd s1) = (kbd_task_list (kbd s))(kbd_slot p s := (task (kbd_slot p s) s)\<lparr>kt_waiting := False\<rparr>)"
    "buffer_head (kbd s1) = buffer_head (kbd s)" "buffer_tail (kbd s1) = buffer_tail (kbd s)"
    by (rule kbd_close_spec [OF pos]) blast
  let ?t = "(fd_table (procs s p))(nat fd := None)"
  let ?s' = "set_fd p (nat fd) None s1"
  have ps: "procs ?s' = (procs s)(p := (procs s p)\<lparr>fd_table := ?t\<rparr>)" by (simp add: set_fd_def c(2))
  have run: "di_close p fd s = Some (0, ?s')"
    using \<open>check_fd p fd s = 0\<close> fd(3) e c(1) by (simp add: di_close_def dvclose_def)
  have of: "open_fds ((procs s p)\<lparr>fd_table := ?t\<rparr>) = open_fds (procs s p) - {nat fd}" by (auto simp: open_fds_def)
  have "card (open_fds ((procs s p)\<lparr>fd_table := ?t\<rparr>)) + 1 = card (open_fds (procs s p))"
    unfolding of card.remove [OF finite_open_fds mem] by (rule add.commute [THEN trans]) simp
  then have cnt: "open_count (procs ?s') + 1 = open_count (procs s)"
    using open_count_update [OF p, of "procs s" "(procs s p)\<lparr>fd_table := ?t\<rparr>"] ps by simp
  have "dev_ok (device_table ?s') (kbd ?s') (procs ?s')"
    unfolding dev_ok_def
  proof (intro conjI allI impI)
    fix i assume i: "i < NUM_DEVICES_ID_ENUMS" then show "dvdriver (device_table ?s' i) = KbdDriver"
      using D(1) [OF i] c(7) by (simp add: set_fd_def)
  next
    fix q f x assume "valid q" "f < PCB_NUM_FDS" "fd_table (procs ?s' q) f = Some x"
    then show "x < NUM_DEVICES_ID_ENUMS" using D(2) [of q f x] ps by (auto split: if_splits)
  next
    fix q assume q: "valid q" "curr_state (procs ?s' q) = PROC_STATE_STOPPED"
    then show "open_fds (procs ?s' q) = {}" using D(3) [of q] ps of by (auto split: if_splits)
  next
    show "kbd_refcount (kbd ?s') = int (open_count (procs ?s'))"
      using D(4) c(11) cnt by (simp add: set_fd_def)
    show "buffer_head (kbd ?s') < KEYBOARD_BUFFER_SIZE" "buffer_tail (kbd ?s') < KEYBOARD_BUFFER_SIZE"
      using D(5,6) c(13,14) by (simp_all add: set_fd_def)
  next
    fix i assume i: "i < KBD_TASK_LIST_SIZE" "kt_waiting (kbd_task_list (kbd ?s') i)"
    then have n: "i \<noteq> kbd_slot p s" and t: "kbd_task_list (kbd ?s') i = kbd_task_list (kbd s) i"
      using c(12) by (auto simp: set_fd_def split: if_splits)
    then obtain q where q: "kt_pcb (kbd_task_list (kbd s) i) = Some q" "valid q" "slot_of (pid (procs s q)) = i"
      "open_fds (procs s q) \<noteq> {}" using D(7) [OF i(1)] i(2) by auto
    then have "q \<noteq> p" using n by (auto simp: kbd_slot_eq)
    then show "\<exists>q. kt_pcb (kbd_task_list (kbd ?s') i) = Some q \<and> valid q \<and> slot_of (pid (procs ?s' q)) = i \<and>
        open_fds (procs ?s' q) \<noteq> {}"
      using q t ps by auto
  qed
  then have "kinvx X ?s' r qs" by (intro kinv_fds [OF inv ps]) (simp_all add: set_fd_def c)
  then show "\<exists>s'. di_close p fd s = Some (0, s') \<and> kinvx X s' r qs \<and>
      procs s' = (procs s)(p := (procs s p)\<lparr>fd_table := ?t\<rparr>) \<and>
      currproc s' = currproc s \<and> heap s' = heap s \<and> ram s' = ram s"
    using run ps c by (auto simp: set_fd_def)
qed

text \<open>Closing all descriptors, the loop of \<open>cleanup_proc\<close>.\<close>

lemma close_all_ok:
  assumes inv: "kinvx X s r qs" and p: "valid p"
  obtains s' where "for_each (\<lambda>i s. map_option snd (di_close p (int i) s)) [0..<PCB_NUM_FDS] s = Some s'"
    and "kinvx X s' r qs" and "open_fds (procs s' p) = {}" and "currproc s' = currproc s"
    and "heap s' = heap s" and "\<And>q. q \<noteq> p \<Longrightarrow> procs s' q = procs s q"
    and "\<exists>t. procs s' p = (procs s p)\<lparr>fd_table := t\<rparr>" and "ram s' = ram s"
proof -
  let ?f = "\<lambda>i s. map_option snd (di_close p (int i) s)"
  let ?P = "\<lambda>n s'. kinvx X s' r qs \<and> open_fds (procs s' p) \<inter> {..<n} = {} \<and> currproc s' = currproc s \<and>
    heap s' = heap s \<and> (\<forall>q. q \<noteq> p \<longrightarrow> procs s' q = procs s q) \<and> (\<exists>t. procs s' p = (procs s p)\<lparr>fd_table := t\<rparr>) \<and>
    ram s' = ram s"
  have "\<exists>s'. for_each ?f [0..<n] s = Some s' \<and> ?P n s'" if "n \<le> PCB_NUM_FDS" for n
    using that
  proof (induction n)
    case 0
    then show ?case using inv by (auto intro: exI [of _ "fd_table (procs s p)"])
  next
    case (Suc n)
    then obtain s1 where s1: "for_each ?f [0..<n] s = Some s1" "?P n s1" by auto
    have i1: "kinvx X s1 r qs" using s1(2) by blast
    note c = di_close_ok [OF i1 p, of "int n"]
    show ?case
    proof (cases "check_fd p (int n) s1 = 0")
      case True
      then obtain s2 where s2: "di_close p (int n) s1 = Some (0, s2)" "kinvx X s2 r qs"
        "procs s2 = (procs s1)(p := (procs s1 p)\<lparr>fd_table := (fd_table (procs s1 p))(n := None)\<rparr>)"
        "currproc s2 = currproc s1" "heap s2 = heap s1" "ram s2 = ram s1" using c by auto
      have "open_fds (procs s2 p) \<inter> {..<Suc n} = {}"
        using s1(2) s2(3) by (auto simp: open_fds_def less_Suc_eq)
      then show ?thesis using s1 s2 by auto
    next
      case False
      then have n: "n \<notin> open_fds (procs s1 p)" using Suc.prems by (auto simp: check_fd_def open_fds_def split: if_splits)
      have "di_close p (int n) s1 = Some (SYSERR, s1)" using c False by blast
      then show ?thesis using s1 n by (intro exI [of _ s1]) (auto simp: less_Suc_eq)
    qed
  qed
  from this [of PCB_NUM_FDS] obtain s' where s': "for_each ?f [0..<PCB_NUM_FDS] s = Some s'" "?P PCB_NUM_FDS s'" by blast
  moreover have "open_fds (procs s' p) = {}" using s'(2) by (auto simp: open_fds_def)
  ultimately show ?thesis using that by blast
qed

subsection \<open>Open\<close>

lemma free_fd_spec:
  assumes "free_fd p s < PCB_NUM_FDS"
  shows "fd_table (procs s p) (free_fd p s) = None" and "free_fd p s \<notin> open_fds (procs s p)"
proof -
  let ?Q = "\<lambda>fd. fd_table (procs s p) fd \<noteq> None"
  have "\<not> ?Q ([0..<PCB_NUM_FDS] ! length (takeWhile ?Q [0..<PCB_NUM_FDS]))"
    by (rule nth_length_takeWhile) (use assms in \<open>simp add: free_fd_def\<close>)
  then show "fd_table (procs s p) (free_fd p s) = None" using assms by (simp add: free_fd_def)
  then show "free_fd p s \<notin> open_fds (procs s p)" by (simp add: open_fds_def)
qed

lemma kbd_open_ok:
  assumes dev: "dev_ok (device_table s) (kbd s) (procs s)" and p: "valid p"
  obtains (busy) "kbd_open p blk s = Some (EBUSY, s)" "0 < kbd_refcount (kbd s)" "kbd_current_type (kbd s) \<noteq> orig_echo_flag blk s"
  | (opened) s' where "kbd_open p blk s = Some (0, s')" "procs s' = procs s" "queue_heads s' = queue_heads s"
    "queue_tails s' = queue_tails s" "sleeping_list s' = sleeping_list s" "heap s' = heap s"
    "device_table s' = device_table s" "currproc s' = currproc s" "ram s' = ram s"
    "kbd_refcount (kbd s') = kbd_refcount (kbd s) + 1"
    "kbd_task_list (kbd s') = kbd_task_list (kbd s)"
    "buffer_head (kbd s') < KEYBOARD_BUFFER_SIZE" "buffer_tail (kbd s') < KEYBOARD_BUFFER_SIZE"
    "kbd_current_type (kbd s') = orig_echo_flag blk s"
proof -
  note D = dev_okD [OF dev]
  have c: "0 \<le> kbd_refcount (kbd s)" "kbd_refcount (kbd s) \<le> 128"
    using D(4) open_count_bound [of "procs s"] by (simp_all add: PCB_TABLE_SIZE_def PCB_NUM_FDS_def)
  show ?thesis
  proof (cases "0 < kbd_refcount (kbd s)")
    case True
    show ?thesis
    proof (cases "kbd_current_type (kbd s) = orig_echo_flag blk s")
      case False
      then show ?thesis using True by (intro busy) (simp_all add: kbd_open_def)
    next
      case eq: True
      let ?s' = "upd_kbd (\<lambda>k. k\<lparr>kbd_refcount := s32 (kbd_refcount k + 1)\<rparr>) s"
      have "kbd_open p blk s = Some (0, ?s')" using True eq by (simp add: kbd_open_def)
      moreover have "s32 (kbd_refcount (kbd s) + 1) = kbd_refcount (kbd s) + 1"
        using c by (intro s32_id) (simp add: in_s32_def)
      ultimately show ?thesis using D(5,6) eq by (intro opened [of ?s']) simp_all
    qed
  next
    case False
    then have z: "open_count (procs s) = 0" using D(4) by simp
    have nw: "\<not> kt_waiting (task (kbd_slot p s) s)"
    proof
      assume "kt_waiting (task (kbd_slot p s) s)"
      then obtain q where "valid q" "open_fds (procs s q) \<noteq> {}"
        using D(7) [of "kbd_slot p s"] slot_of_less by (auto simp: kbd_slot_eq)
      then show False using open_count_member [of q "procs s"] z by simp
    qed
    let ?k = "\<lambda>k. k\<lparr>kbd_refcount := 1, kbd_current_type := orig_echo_flag blk s,
             kbd_done := False, buffer_head := 0, buffer_tail := 0, keystate_flag := 0,
             keyboard_eof := KBD_DEFAULT_EOF, keyboard_echo_flag := word_of_int (orig_echo_flag blk s)\<rparr>"
    have "kbd_open p blk s = Some (0, (upd_kbd ?k s)\<lparr>io := setEnabledKbd 1 (io s)\<rparr>)"
      using False nw by (simp add: kbd_open_def Let_def kbd_slot_def)
    then show ?thesis
      using False c by (intro opened [of "(upd_kbd ?k s)\<lparr>io := setEnabledKbd 1 (io s)\<rparr>"])
        (simp_all add: KEYBOARD_BUFFER_SIZE_def)
  qed
qed

lemma di_open_ok:
  assumes inv: "kinvx X s r qs" and p: "valid p" "curr_state (procs s p) \<noteq> PROC_STATE_STOPPED"
  obtains (failed) "di_open p n s = Some (SYSERR, s)"
  | (opened) s' fd where "di_open p n s = Some (int fd, s')" and "kinvx X s' r qs" and "currproc s' = currproc s"
    and "fd < PCB_NUM_FDS" and "fd_table (procs s p) fd = None" and "0 \<le> n" "nat n < NUM_DEVICES_ID_ENUMS"
    and "procs s' = (procs s)(p := (procs s p)\<lparr>fd_table := (fd_table (procs s p))(fd := Some (nat n))\<rparr>)"
    and "kbd_refcount (kbd s') = kbd_refcount (kbd s) + 1"
proof (cases "n < 0 \<or> n \<ge> int NUM_DEVICES_ID_ENUMS \<or> free_fd p s \<ge> PCB_NUM_FDS")
  case True
  then have "di_open p n s = Some (SYSERR, s)" by (auto simp: di_open_def Let_def)
  then show ?thesis by (rule failed)
next
  case False
  let ?fd = "free_fd p s"
  have n: "0 \<le> n" "nat n < NUM_DEVICES_ID_ENUMS" and fd: "?fd < PCB_NUM_FDS" using False by auto
  note dev = kinvD(5) [OF inv] and D = dev_okD [OF kinvD(5) [OF inv]]
  have dr: "dvdriver (device_table s (nat n)) = KbdDriver" using D(1) n(2) .
  have un: "di_open p n s = do {
      (result, s) \<leftarrow> kbd_open p (dvioblk (device_table s (nat n))) s;
      (if result \<noteq> 0 then Some (SYSERR, s) else Some (int ?fd, set_fd p ?fd (Some (nat n)) s)) }"
    using False dr by (simp add: di_open_def dvopen_def Let_def)
  note free = free_fd_spec [OF fd]
  from dev p(1) show ?thesis
  proof (cases rule: kbd_open_ok [where blk = "dvioblk (device_table s (nat n))"])
    case busy
    then show ?thesis using un by (intro failed) (simp add: EBUSY_def)
  next
    case (opened s1)
    let ?t = "(fd_table (procs s p))(?fd := Some (nat n))"
    let ?s' = "set_fd p ?fd (Some (nat n)) s1"
    have ps: "procs ?s' = (procs s)(p := (procs s p)\<lparr>fd_table := ?t\<rparr>)" by (simp add: set_fd_def opened)
    have of: "open_fds ((procs s p)\<lparr>fd_table := ?t\<rparr>) = insert ?fd (open_fds (procs s p))"
      using fd by (auto simp: open_fds_def)
    have "card (open_fds ((procs s p)\<lparr>fd_table := ?t\<rparr>)) = Suc (card (open_fds (procs s p)))"
      unfolding of using free(2) by simp
    then have cnt: "open_count (procs ?s') = Suc (open_count (procs s))"
      using open_count_update [OF p(1), of "procs s" "(procs s p)\<lparr>fd_table := ?t\<rparr>"] ps by simp
    have "dev_ok (device_table ?s') (kbd ?s') (procs ?s')"
      unfolding dev_ok_def
    proof (intro conjI allI impI)
      fix i assume i: "i < NUM_DEVICES_ID_ENUMS" then show "dvdriver (device_table ?s' i) = KbdDriver"
        using D(1) [OF i] opened by (simp add: set_fd_def)
    next
      fix q f x assume "valid q" "f < PCB_NUM_FDS" "fd_table (procs ?s' q) f = Some x"
      then show "x < NUM_DEVICES_ID_ENUMS" using D(2) [of q f x] ps n(2) by (auto split: if_splits)
    next
      fix q assume q: "valid q" "curr_state (procs ?s' q) = PROC_STATE_STOPPED"
      then show "open_fds (procs ?s' q) = {}" using D(3) [of q] ps p(2) by (auto split: if_splits)
    next
      show "kbd_refcount (kbd ?s') = int (open_count (procs ?s'))"
        using D(4) opened cnt by (simp add: set_fd_def)
      show "buffer_head (kbd ?s') < KEYBOARD_BUFFER_SIZE" "buffer_tail (kbd ?s') < KEYBOARD_BUFFER_SIZE"
        using opened by (simp_all add: set_fd_def)
    next
      fix i assume i: "i < KBD_TASK_LIST_SIZE" "kt_waiting (kbd_task_list (kbd ?s') i)"
      then obtain q where q: "kt_pcb (kbd_task_list (kbd s) i) = Some q" "valid q" "slot_of (pid (procs s q)) = i"
        "open_fds (procs s q) \<noteq> {}" using D(7) [OF i(1)] opened by (auto simp: set_fd_def)
      then show "\<exists>q. kt_pcb (kbd_task_list (kbd ?s') i) = Some q \<and> valid q \<and> slot_of (pid (procs ?s' q)) = i \<and>
          open_fds (procs ?s' q) \<noteq> {}"
        using ps opened of by (intro exI [of _ q]) (auto simp: set_fd_def)
    qed
    then have "kinvx X ?s' r qs" by (intro kinv_fds [OF inv ps]) (simp_all add: set_fd_def opened)
    then show ?thesis
      using un opened n fd free(1) ps by (intro that(2) [of ?fd ?s']) (simp_all add: set_fd_def)
  qed
qed

subsection \<open>Control and write\<close>

lemma di_ioctl_ok:
  assumes inv: "kinvx X s r qs" and p: "valid p"
  obtains v s' where "di_ioctl p fd cmd a s = Some (v, s')" and "kinvx X s' r qs" and "currproc s' = currproc s"
    and "procs s' = procs s"
proof (cases "check_fd p fd s = 0")
  case False
  then show ?thesis using inv by (intro that [of SYSERR s]) (simp_all add: di_ioctl_def)
next
  case True
  then obtain e where fd: "0 \<le> fd" "nat fd < PCB_NUM_FDS" "fd_table (procs s p) (nat fd) = Some e"
    by (auto simp: check_fd_def nat_less_iff split: if_splits)
  note D = dev_okD [OF kinvD(5) [OF inv]]
  have dr: "dvdriver (device_table s e) = KbdDriver" using D(1) D(2) [OF p fd(2,3)] .
  let ?r = "kbd_ioctl p (dvioblk (device_table s e)) cmd a s"
  have run: "di_ioctl p fd cmd a s = Some (fst ?r, snd ?r)" using True fd(3) dr by (simp add: di_ioctl_def)
  have k: "kinvx X (upd_kbd f s) r qs" if "\<And>k. dev_ok (device_table s) k (procs s) \<Longrightarrow> dev_ok (device_table s) (f k) (procs s)" for f
    by (rule kinv_kbd [OF inv]) (use that kinvD(5) [OF inv] in simp_all)
  have "kinvx X (snd ?r) r qs \<and> currproc (snd ?r) = currproc s \<and> procs (snd ?r) = procs s"
    unfolding kbd_ioctl_def kbd_ioctl_set_eof_def using inv k
    by (simp add: dev_ok_def split: if_split)
  then show ?thesis using that run by blast
qed

lemma di_write_ok:
  assumes inv: "kinvx X s r qs" and p: "valid p" and b: "buf \<noteq> 0"
  obtains v where "di_write p fd buf len s = Some (v, s)" and "v < 0"
proof (cases "check_fd p fd s = 0")
  case False
  then show ?thesis using b by (intro that [of SYSERR]) (simp_all add: di_write_def SYSERR_def)
next
  case True
  then obtain e where fd: "0 \<le> fd" "nat fd < PCB_NUM_FDS" "fd_table (procs s p) (nat fd) = Some e"
    by (auto simp: check_fd_def nat_less_iff split: if_splits)
  note D = dev_okD [OF kinvD(5) [OF inv]]
  have dr: "dvdriver (device_table s e) = KbdDriver" using D(1) D(2) [OF p fd(2,3)] .
  then have "di_write p fd buf len s = Some (-1, s)"
    using True fd(3) b by (simp add: di_write_def kbd_write_def)
  then show ?thesis by (rule that) simp
qed

end
