(* ===== verification/Handlers_Life.thy ===== *)
theory Handlers_Life
  imports Handlers_Msg Dev_Facts
begin

text \<open>
  The end and the beginning of a process: clean-up gives its memory back, wakes everybody blocked
  on it, closes its descriptors and puts its control block into the stopped queue (c/pcb.c);
  creation takes the longest stopped block (c/create.c).
\<close>

subsection \<open>Waking the processes in a queue\<close>

abbreviation released :: "pcb \<Rightarrow> pcb" where
  "released c \<equiv> c\<lparr>blocking_proc := None, blocking_queue_name := NO_BLOCKER, curr_state := PROC_STATE_READY\<rparr>"

lemma same_but_queues_ready:
  "same_but_queues c d \<Longrightarrow> same_but_queues (c\<lparr>curr_state := PROC_STATE_READY\<rparr>) (d\<lparr>curr_state := PROC_STATE_READY\<rparr>)"
  "same_but_queues c d \<Longrightarrow> same_but_queues (released c) (released d)"
  by (cases c; cases d; simp add: same_but_queues_def)+

lemma notify_ok:
  assumes "kinvx X s r qs" and w: "valid w" and q: "has_queue q" and "qs (In_blocking w q) = xs"
  shows "\<exists>s'. notify_blocked_procs w q s = Some s' \<and>
    kinvx X s' r (qs(In_blocking w q := [], In_ready := qs In_ready @ xs)) \<and>
    (\<forall>p. same_but_queues (procs s' p) (if p \<in> set xs then released (procs s p) else procs s p)) \<and>
    same_rest s' s"
  using assms(1,4)
proof (induction xs arbitrary: s qs)
  case Nil
  have "blocking_queue_heads (procs s w) q = None"
    using qinvD(1) [OF kinvD(1) [OF Nil.prems(1)], of "In_blocking w q"] w q Nil.prems(2) by (simp add: chain_at_def)
  then have "notify_blocked_procs w q s = Some s" by (subst notify_blocked_procs.simps) simp
  then show ?case using Nil.prems by (simp add: fun_upd_idem)
next
  case (Cons p xs)
  note inv = Cons.prems(1)
  have p: "valid p" "place_of (procs s p) = Some (In_blocking w q)"
    using qinvD(2) [OF kinvD(1) [OF inv], of p "In_blocking w q"] Cons.prems(2) by auto
  have b: "curr_state (procs s p) = PROC_STATE_BLOCKED" "blocking_proc (procs s p) = Some w" "blocking_queue_name (procs s p) = q"
    using p(2) by (auto simp: place_of_def split: proc_state.splits if_splits option.splits)
  have h: "blocking_queue_heads (procs s w) q = Some p"
    using qinvD(1) [OF kinvD(1) [OF inv], of "In_blocking w q"] w q Cons.prems(2) by (simp add: chain_at_def)
  obtain s1 where s1: "remove_proc_from_blocking_queue p (Some w) (blocking_queue_name (procs s p)) s = Some (1, s1)"
    "qinv s1 {p} (leave p s qs)" "same_rest s1 s"
    "\<And>q. same_but_queues (procs s1 q) (if q = p then unblocked (procs s p) else procs s q)"
    "dl_ok MAX_TICKS (deltas s1 (leave p s qs In_sleep))"
    "leave p s qs = qs(In_blocking w (blocking_queue_name (procs s p)) :=
      remove1 p (qs (In_blocking w (blocking_queue_name (procs s p)))))"
    by (rule unqueue_ok [OF inv p(1) b(1,2)]) blast
  have lv: "leave p s qs = qs(In_blocking w q := xs)" using s1(6) b(3) Cons.prems(2) by simp
  have c1: "same_core (procs s1 q) (if q = p then unblocked (procs s p) else procs s q)" for q
    using same_core_queues [OF s1(4)] .
  obtain s2 where s2: "add_pcb_to_queue p PROC_STATE_READY s1 = Some s2"
    "kinvx X (unnamed p s2) r ((leave p s qs)(In_ready := leave p s qs In_ready @ [p]))"
    "\<And>q. same_but_links (procs s2 q) (if q = p then (procs s1 p)\<lparr>curr_state := PROC_STATE_READY\<rparr> else procs s1 q)"
    "same_rest s2 s1"
  proof (rule make_ready_ok [OF inv p(1) b(1) s1(2)])
    show "same_core (procs s1 q) (procs s q)" if "q \<noteq> p" for q using c1 [of q] that by simp
    show "same_life (procs s1 p) (procs s p)" "curr_state (procs s1 p) = PROC_STATE_BLOCKED" "blocking_proc (procs s1 p) = None"
      using c1 [of p] b(1) by (auto simp: same_core_def same_life_def)
    show "heap s1 = heap s" "device_table s1 = device_table s" "kbd s1 = kbd s" using s1(3) by (simp_all add: same_rest_def)
  qed (use s1(5) in blast)+
  have "blocking_queue_name (procs s2 p) = NO_BLOCKER"
    using same_but_links_fields(13) [OF s2(3) [of p]] c1 [of p] by (simp add: same_core_def)
  then have i2: "kinvx X s2 r (qs(In_blocking w q := xs, In_ready := qs In_ready @ [p]))"
    (is "kinvx X s2 r ?Q") using make_ready_named [OF s2(2)] lv by simp
  have Q: "?Q (In_blocking w q) = xs"
    "?Q(In_blocking w q := [], In_ready := ?Q In_ready @ xs) = qs(In_blocking w q := [], In_ready := qs In_ready @ p # xs)"
    by (auto simp: fun_eq_iff)
  obtain s3 where s3: "notify_blocked_procs w q s2 = Some s3"
    "kinvx X s3 r (qs(In_blocking w q := [], In_ready := qs In_ready @ p # xs))"
    "\<And>q. same_but_queues (procs s3 q) (if q \<in> set xs then released (procs s2 q) else procs s2 q)"
    "same_rest s3 s2"
    using Cons.IH [OF i2 Q(1)] unfolding Q(2) by blast
  have "distinct (p # xs)"
    using qinvD(1) [OF kinvD(1) [OF inv], of "In_blocking w q"] w q Cons.prems(2) by (simp add: chain_at_def)
  then have pn: "p \<notin> set xs" by simp
  have e2: "same_but_queues (procs s2 a) (if a = p then (procs s1 p)\<lparr>curr_state := PROC_STATE_READY\<rparr> else procs s1 a)" for a
    using s2(3) [of a] by (rule same_but_queues_links)
  have "same_but_queues (procs s2 p) (released (procs s p))"
    using same_but_queues_trans [OF e2 [of p, simplified] same_but_queues_ready(1) [OF s1(4) [of p, simplified]]] by simp
  moreover have "same_but_queues (procs s2 a) (procs s a)" if "a \<noteq> p" for a
    using same_but_queues_trans [OF _ s1(4) [of a]] e2 [of a] that by simp
  ultimately have "same_but_queues (procs s3 a) (if a \<in> set (p # xs) then released (procs s a) else procs s a)" for a
    using same_but_queues_trans [OF s3(3) [of a]] same_but_queues_ready(2) [of "procs s2 a" "procs s a"] pn
    by (cases "a = p"; cases "a \<in> set xs") simp_all
  moreover have "notify_blocked_procs w q s = Some s3"
    by (subst notify_blocked_procs.simps) (use h s1(1) s2(1) s3(1) b(3) in simp)
  ultimately show ?case using s3(2,4) s2(4) s1(3) same_rest_trans by blast
qed

subsection \<open>Stopping\<close>

text \<open>The last step: the running process, which owns no descriptor and nobody waits for, stops.\<close>

lemma stop_current_ok:
  assumes inv: "kinvx {c} s (Some c) qs" and c: "valid c" and fds: "open_fds (procs s c) = {}"
    and alone: "\<And>q. has_queue q \<Longrightarrow> qs (In_blocking c q) = []"
  obtains s' where "add_pcb_to_queue c PROC_STATE_STOPPED s = Some s'"
    and "kinvx {} s' None (qs(In_stopped := qs In_stopped @ [c]))"
    and "\<And>q. same_but_links (procs s' q) (if q = c then (procs s c)\<lparr>curr_state := PROC_STATE_STOPPED\<rparr> else procs s q)"
    and "same_rest s' s"
proof -
  note f = running_facts [OF inv] and ok = kinvD(2) [OF inv]
  let ?qs = "qs(In_stopped := qs In_stopped @ [c])"
  have t: "qinv s {c} qs" using qinv_transit(1) [OF kinvD(1) [OF inv] f(3)] .
  obtain s' where s': "add_pcb_to_queue c PROC_STATE_STOPPED s = Some s'"
    "qinv s' ({c} - {c}) (qs(state_place PROC_STATE_STOPPED := qs (state_place PROC_STATE_STOPPED) @ [c]))"
    "\<And>q. same_but_links (procs s' q) (if q = c then (procs s c)\<lparr>curr_state := PROC_STATE_STOPPED\<rparr> else procs s q)"
    "same_rest s' s"
    by (rule add_pcb_to_queue_ok [OF t _ c pid_nonzero [OF ok c], of PROC_STATE_STOPPED])
      (use f(2) in \<open>auto simp: has_proc_queue_cases\<close>)
  note fields = same_but_links_fields [OF s'(3)]
  have others: "same_core (procs s' q) (procs s q)" if "q \<noteq> c" for q using same_core_links [OF s'(3) [of q]] that by simp
  have life: "same_life (procs s' q) (procs s q)" if "q \<noteq> c" for q using same_core_life [OF others [OF that]] .
  have al: "alive (procs s') q \<longleftrightarrow> alive (procs s) q \<and> q \<noteq> c" for q
    using fields(2) [of q] by (auto simp: alive_def)
  have "procs_ok (procs s') None"
    unfolding procs_ok_def
  proof (intro conjI allI impI)
    fix q assume q: "known q"
    show "pid_slot q (pid (procs s' q))" using procs_okD(1) [OF ok q] fields(1) [of q] by (simp split: if_splits)
    show "curr_state (procs s' q) = PROC_STATE_RUNNING \<longleftrightarrow> None = Some q"
      using procs_okD(2) [OF ok q] fields(2) [of q] by (auto split: if_splits)
  next
    fix q assume q: "valid q"
    show "blocking_ok (procs s') (procs s' q)"
    proof (cases "q = c")
      case True
      then show ?thesis using fields(2) [of c] by (simp add: blocking_ok_def)
    next
      case False
      have b: "blocking_ok (procs s) (procs s q)" using procs_okD(4) [OF ok q] .
      have nc: "blocking_proc (procs s q) \<noteq> Some c" if "curr_state (procs s q) = PROC_STATE_BLOCKED"
      proof
        assume w: "blocking_proc (procs s q) = Some c"
        then have h: "has_queue (blocking_queue_name (procs s q))" using blocking_ok_cases(3) [OF b that] by auto
        have "q \<in> set (qs (In_blocking c (blocking_queue_name (procs s q))))"
          using qinvD(2) [OF kinvD(1) [OF inv]] place_of_blocked_on [OF that w refl h] q by auto
        then show False using alone [OF h] by simp
      qed
      have "blocking_ok (procs s') (procs s q)"
        using b nc unfolding blocking_ok_def by (auto simp: al split: proc_state.splits option.splits)
      then show ?thesis using blocking_ok_core [OF others [OF False] refl] by blast
    qed
  qed simp
  moreover have "mem_ok {} (heap s') (procs s')"
  proof -
    have "{q. alive (procs s') q} - {} = {q. alive (procs s) q} - {c}" using al by auto
    moreover have "owned_block (procs s') = owned_block (procs s)"
      using fields(4,8) by (auto simp: owned_block_def fun_eq_iff)
    ultimately show ?thesis using kinvD(4) [OF inv] s'(4) unfolding mem_ok_def by (simp add: same_rest_def)
  qed
  moreover have "dev_ok (device_table s') (kbd s') (procs s')"
  proof -
    have fd: "fd_table (procs s' q) = fd_table (procs s q)" "pid (procs s' q) = pid (procs s q)" for q
      using fields(1,11) [of q] by (auto split: if_splits)
    then have o: "open_fds (procs s' q) = open_fds (procs s q)" for q by (simp add: open_fds_def)
    have "curr_state (procs s' q) = PROC_STATE_STOPPED \<longleftrightarrow> q = c \<or> curr_state (procs s q) = PROC_STATE_STOPPED" for q
      using fields(2) [of q] by auto
    then show ?thesis
      using kinvD(5) [OF inv] s'(4) fds unfolding dev_ok_def open_count_def fd o by (auto simp: same_rest_def)
  qed
  moreover have "deltas s' (qs In_sleep) = deltas s (qs In_sleep)"
    using fields(7) f(4) [of In_sleep] by (intro deltas_cong) (auto split: if_splits)
  ultimately have "kinvx {} s' None ?qs"
    using s'(2) kinvD(3) [OF inv] by (simp add: kinvx_def state_place_def)
  then show ?thesis using that s' by blast
qed

text \<open>What the clean-up of the running process does.\<close>

lemma mem_release:
  assumes "mem_ok {} h ps" and "alive ps c"
  obtains L h1 h2 where "heap_live h L" and "{memory_region (ps c), signal_table (ps c)} \<subseteq> dom L"
    and "kfree (memory_region (ps c)) h = Some h1" and "kfree (signal_table (ps c)) h1 = Some h2"
    and "heap_live h2 (L(memory_region (ps c) := None, signal_table (ps c) := None))" and "mem_ok {c} h2 ps"
proof -
  obtain L where L: "heap_live h L" "owned_block ps ` (UNIV \<times> {p. alive ps p}) \<subseteq> dom L"
    "inj_on (owned_block ps) (UNIV \<times> {p. alive ps p})"
    using assms(1) by (auto simp: mem_ok_def)
  let ?m = "memory_region (ps c)" and ?t = "signal_table (ps c)"
  have o: "owned_block ps (True, c) = ?m" "owned_block ps (False, c) = ?t" by (simp_all add: owned_block_def)
  have dom: "?m \<in> dom L" "?t \<in> dom L" using L(2) o assms(2) by (metis SigmaI UNIV_I image_subset_iff mem_Collect_eq)+
  have ne: "?m \<noteq> ?t" using inj_onD [OF L(3), of "(True, c)" "(False, c)"] o assms(2) by auto
  obtain h1 h2 where h: "kfree ?m h = Some h1" "kfree ?t h1 = Some h2" "heap_live h2 (L(?m := None, ?t := None))"
    using kmem.free_two [OF L(1) dom ne] by (auto simp: bind_eq_Some_conv)
  have "owned_block ps x \<in> dom (L(?m := None, ?t := None))" if x: "x \<in> UNIV \<times> ({p. alive ps p} - {c})" for x
  proof -
    have "owned_block ps x \<noteq> ?m" "owned_block ps x \<noteq> ?t"
      using inj_onD [OF L(3), of x "(True, c)"] inj_onD [OF L(3), of x "(False, c)"] o x assms(2) by auto
    then show ?thesis using L(2) x by auto
  qed
  moreover have "inj_on (owned_block ps) (UNIV \<times> ({p. alive ps p} - {c}))" using L(3) by (rule inj_on_subset) auto
  ultimately have "mem_ok {c} h2 ps" unfolding mem_ok_def using h(3) by blast
  then show ?thesis using that L(1) dom h by blast
qed

lemma k_free_Some: "kfree p (heap s) = Some h \<Longrightarrow> k_free p s = Some (s\<lparr>heap := h\<rparr>)"
  by (simp add: k_free_def)

lemma kinvx_heap:
  assumes "kinvx X s r qs" and "mem_ok Y h (procs s)"
  shows "kinvx Y (s\<lparr>heap := h\<rparr>) r qs"
proof -
  have "qinv (s\<lparr>heap := h\<rparr>) {} qs" by (rule qinv_other [OF kinvD(1) [OF assms(1)]]) simp_all
  moreover have "deltas (s\<lparr>heap := h\<rparr>) (qs In_sleep) = deltas s (qs In_sleep)" by (intro deltas_cong) simp
  ultimately show ?thesis using assms by (simp add: kinvx_def)
qed

text \<open>The processes that wait for \<open>c\<close> in one of its queues, in the order they are woken.\<close>

definition waiters :: "(place \<Rightarrow> pcbref list) \<Rightarrow> pcbref \<Rightarrow> pcbref list" where
  "waiters qs c = qs (In_blocking c SENDER) @ qs (In_blocking c RECEIVER) @ qs (In_blocking c WAITING)"

lemma cleanup_ok:
  assumes inv: "kinv s (Some c) qs" and c: "valid c"
  obtains s' L qs' where "cleanup_proc c s = Some s'" and "kinv s' None qs'"
    and "qs' In_ready = qs In_ready @ waiters qs c" and "qs' In_stopped = qs In_stopped @ [c]"
    and "qs' In_sleep = qs In_sleep"
    and "\<And>w q. qs' (In_blocking w q) = (if w = c then [] else qs (In_blocking w q))"
    and "heap_live (heap s) L" and "{memory_region (procs s c), signal_table (procs s c)} \<subseteq> dom L"
    and "heap_live (heap s') (L(memory_region (procs s c) := None, signal_table (procs s c) := None))"
    and "curr_state (procs s' c) = PROC_STATE_STOPPED" and "pid (procs s' c) = pid (procs s c)"
    and "\<And>p. p \<in> set (waiters qs c) \<Longrightarrow>
      curr_state (procs s' p) = PROC_STATE_READY \<and> ret (procs s' p) = ret (procs s p)"
    and "currproc s' = currproc s"
proof -
  note f = running_facts [OF inv]
  have al: "alive (procs s) c" using c f(2) by (simp add: alive_def)
  let ?m = "memory_region (procs s c)" and ?t = "signal_table (procs s c)"
  obtain L h1 h2 where h: "heap_live (heap s) L" "{?m, ?t} \<subseteq> dom L" "kfree ?m (heap s) = Some h1" "kfree ?t h1 = Some h2"
    "heap_live h2 (L(?m := None, ?t := None))" "mem_ok {c} h2 (procs s)"
    by (rule mem_release [OF kinvD(4) [OF inv] al]) blast
  let ?s1 = "s\<lparr>heap := h2\<rparr>"
  have i1: "kinvx {c} ?s1 (Some c) qs" by (rule kinvx_heap [OF inv h(6)])
  let ?S = "In_blocking c SENDER" and ?R = "In_blocking c RECEIVER" and ?W = "In_blocking c WAITING"
  let ?a = "qs(?S := [], In_ready := qs In_ready @ qs ?S)"
  let ?b = "?a(?R := [], In_ready := ?a In_ready @ qs ?R)"
  let ?c = "?b(?W := [], In_ready := ?b In_ready @ qs ?W)"
  obtain s2 where s2: "notify_blocked_procs c SENDER ?s1 = Some s2" "kinvx {c} s2 (Some c) ?a"
    "\<And>p. same_but_queues (procs s2 p) (if p \<in> set (qs ?S) then released (procs ?s1 p) else procs ?s1 p)" "same_rest s2 ?s1"
    using notify_ok [OF i1 c has_queue_simps(1) refl] by blast
  have "?a ?R = qs ?R" by simp
  then obtain s3 where s3: "notify_blocked_procs c RECEIVER s2 = Some s3" "kinvx {c} s3 (Some c) ?b"
    "\<And>p. same_but_queues (procs s3 p) (if p \<in> set (qs ?R) then released (procs s2 p) else procs s2 p)" "same_rest s3 s2"
    using notify_ok [OF s2(2) c has_queue_simps(2)] by blast
  have "?b ?W = qs ?W" by simp
  then obtain s4 where s4: "notify_blocked_procs c WAITING s3 = Some s4" "kinvx {c} s4 (Some c) ?c"
    "\<And>p. same_but_queues (procs s4 p) (if p \<in> set (qs ?W) then released (procs s3 p) else procs s3 p)" "same_rest s4 s3"
    using notify_ok [OF s3(2) c has_queue_simps(3)] by blast
  define q3 where "q3 = qs(?S := [], ?R := [], ?W := [], In_ready := qs In_ready @ waiters qs c)"
  have "?c = q3" by (auto simp: q3_def waiters_def fun_eq_iff)
  with s4(2) have i4: "kinvx {c} s4 (Some c) q3" by simp
  have q3: "q3 In_ready = qs In_ready @ waiters qs c" "q3 In_sleep = qs In_sleep" "q3 In_stopped = qs In_stopped"
    "\<And>w q. q3 (In_blocking w q) = (if w = c \<and> has_queue q then [] else qs (In_blocking w q))"
    by (auto simp: q3_def has_queue_def)
  obtain s5 where s5: "for_each (\<lambda>i s. map_option snd (di_close c (int i) s)) [0..<PCB_NUM_FDS] s4 = Some s5"
    "kinvx {c} s5 (Some c) q3" "open_fds (procs s5 c) = {}" "currproc s5 = currproc s4"
    "heap s5 = heap s4" "\<And>q. q \<noteq> c \<Longrightarrow> procs s5 q = procs s4 q" "\<exists>t. procs s5 c = (procs s4 c)\<lparr>fd_table := t\<rparr>"
    by (rule close_all_ok [OF i4 c]) blast
  have alone: "q3 (In_blocking c q) = []" if "has_queue q" for q using that q3(4) by simp
  obtain s6 where s6: "add_pcb_to_queue c PROC_STATE_STOPPED s5 = Some s6"
    "kinvx {} s6 None (q3(In_stopped := q3 In_stopped @ [c]))"
    "\<And>q. same_but_links (procs s6 q) (if q = c then (procs s5 c)\<lparr>curr_state := PROC_STATE_STOPPED\<rparr> else procs s5 q)"
    "same_rest s6 s5"
    by (rule stop_current_ok [OF s5(2) c s5(3) alone], assumption, rule that)
  let ?qs = "q3(In_stopped := q3 In_stopped @ [c])"
  have cc: "currproc s6 = c \<longleftrightarrow> currproc s = c" "currproc s6 = currproc s" "heap s6 = h2"
    using s2(4) s3(4) s4(4) s5(4,5) s6(4) by (simp_all add: same_rest_def)
  have nw: "c \<notin> set (waiters qs c)" using f(4) by (simp add: waiters_def)
  have st: "curr_state (procs s4 p) = (if p \<in> set (waiters qs c) then PROC_STATE_READY else curr_state (procs s p))"
    "ret (procs s4 p) = ret (procs s p)" "pid (procs s4 p) = pid (procs s p)" for p
    using same_but_queues_fields [OF s2(3) [of p]] same_but_queues_fields [OF s3(3) [of p]] same_but_queues_fields [OF s4(3) [of p]]
    by (auto simp: waiters_def split: if_splits)
  have ready: "curr_state (procs s6 p) = PROC_STATE_READY \<and> ret (procs s6 p) = ret (procs s p)" if "p \<in> set (waiters qs c)" for p
  proof -
    have "p \<noteq> c" using nw that by blast
    then show ?thesis using st [of p] s5(6) [of p] same_but_links_fields [OF s6(3) [of p]] that by simp
  qed
  have me: "curr_state (procs s6 c) = PROC_STATE_STOPPED" "pid (procs s6 c) = pid (procs s c)"
    using same_but_links_fields [OF s6(3) [of c]] s5(7) st(3) [of c] by auto
  have bl: "blocking_queue_name (procs s4 c) = NO_BLOCKER"
    using same_but_queues_fields(13) [OF s2(3) [of c]] same_but_queues_fields(13) [OF s3(3) [of c]]
      same_but_queues_fields(13) [OF s4(3) [of c]] f(6) [OF c] by (auto split: if_splits)
  have "cleanup_proc c s = Some s6"
    using h(3,4) s2(1) s3(1) s4(1) s5(1) s6(1) bl by (simp add: cleanup_proc_def k_free_Some)
  moreover have "?qs (In_blocking w q) = (if w = c then [] else qs (In_blocking w q))" for w q
    using qinvD(3) [OF kinvD(1) [OF inv], of "In_blocking w q"] q3(4) by auto
  ultimately show ?thesis
    using cc ready me h(1,2,5) s6(2) by (intro that [of s6 ?qs L]) (simp_all add: q3(1-3))
qed

subsection \<open>Stop and signal return\<close>

lemma stop_ok:
  assumes inv: "kinv s (Some (currproc s)) qs" and c: "valid (currproc s)"
  obtains s' qs' where "dispatch_syscall_stop s = Some s'" and "kinv s' (Some (currproc s')) qs'"
    and "currproc s' = next_of (qs In_ready @ waiters qs (currproc s))"
    and "qs' In_ready = tl (qs In_ready @ waiters qs (currproc s))"
    and "curr_state (procs s' (currproc s)) = PROC_STATE_STOPPED"
    and "\<exists>L. heap_live (heap s) L \<and>
      {memory_region (procs s (currproc s)), signal_table (procs s (currproc s))} \<subseteq> dom L \<and>
      heap_live (heap s') (L(memory_region (procs s (currproc s)) := None, signal_table (procs s (currproc s)) := None))"
    and "cleanup_proc (currproc s) s \<bind> switch_proc = Some s'"
proof -
  let ?c = "currproc s"
  obtain s1 L q1 where s1: "cleanup_proc ?c s = Some s1" "kinv s1 None q1"
    "q1 In_ready = qs In_ready @ waiters qs ?c" "heap_live (heap s) L"
    "{memory_region (procs s ?c), signal_table (procs s ?c)} \<subseteq> dom L"
    "heap_live (heap s1) (L(memory_region (procs s ?c) := None, signal_table (procs s ?c) := None))"
    "curr_state (procs s1 ?c) = PROC_STATE_STOPPED"
    by (rule cleanup_ok [OF inv c], rule that)
  obtain s' where s': "switch_proc s1 = Some s'"
    "currproc s' = (case q1 In_ready of [] \<Rightarrow> IdleProc | p # _ \<Rightarrow> p)"
    "kinv s' (Some (currproc s')) (q1(In_ready := tl (q1 In_ready)))"
    "\<And>q. same_but_links (procs s' q) (if q = currproc s' then (procs s1 q)\<lparr>curr_state := PROC_STATE_RUNNING\<rparr> else procs s1 q)"
    "same_rest (s'\<lparr>currproc := currproc s1\<rparr>) s1"
    by (rule switch_proc_ok [OF s1(2)]) blast
  have "?c \<noteq> currproc s'"
  proof
    assume e: "?c = currproc s'"
    then obtain ps where "q1 In_ready = ?c # ps" using s'(2) c by (cases "q1 In_ready") auto
    then have "place_of (procs s1 ?c) = Some In_ready" using qinvD(2) [OF kinvD(1) [OF s1(2)], of ?c In_ready] by simp
    then show False using s1(7) by (simp add: place_of_def)
  qed
  then have "curr_state (procs s' ?c) = PROC_STATE_STOPPED"
    using same_but_links_fields(2) [OF s'(4) [of ?c]] s1(7) by simp
  then show ?thesis
    using s1 s' by (intro that [of s' "q1(In_ready := tl (q1 In_ready))"])
      (auto simp: dispatch_syscall_stop_def next_of_def same_rest_def)
qed

lemma sigreturn_ok:
  assumes inv: "kinv s (Some (currproc s)) qs" and c: "valid (currproc s)"
  obtains s' qs' where "dispatch_syscall_sigreturn s = Some s'" and "kinv s' (Some (currproc s')) qs'"
proof -
  let ?a = "carg 0 s"
  obtain r where r: "verify_usrptr ?a 4 s = Some r" using verify_usrptr_total [of 4 ?a s] by (auto simp: KERNEL_STACK_def)
  show ?thesis
  proof (cases "r = OK")
    case False
    obtain s' qs' where "kinv s' (Some (currproc s')) qs'" "cleanup_proc (currproc s) s \<bind> switch_proc = Some s'"
      by (rule stop_ok [OF inv c]) blast
    then show ?thesis using that r False by (simp add: dispatch_syscall_sigreturn_def)
  next
    case True
    let ?v = "sint (read32 (?a - 4) s)"
    let ?s' = "upd_proc (currproc s) (\<lambda>c. c\<lparr>esp := ?a, signals_enabled := 1\<rparr>) (ret_cur ?v s)"
    have i: "kinv (ret_cur ?v s) (Some (currproc s)) qs" by (rule getpid_ok [OF inv])
    have "kinv ?s' (Some (currproc s)) qs" by (rule kinv_upd [OF i]) (auto simp: same_core_def)
    moreover have "dispatch_syscall_sigreturn s = Some ?s'"
      using r True by (simp add: dispatch_syscall_sigreturn_def Let_def ret_cur_def)
    ultimately show ?thesis by (intro that [of ?s' qs]) (simp_all add: ret_cur_def)
  qed
qed

subsection \<open>A control block comes back to life\<close>

lemma qinv_fresh:
  assumes inv: "qinv s W qs" and p: "p \<in> W" and e: "\<And>q. has_queue q \<Longrightarrow> qs (In_blocking p q) = []"
    and c: "blocking_queue_heads c = (\<lambda>_. None)" "blocking_queue_tails c = (\<lambda>_. None)"
  shows "qinv (upd_proc p (\<lambda>_. c) s) W qs"
  unfolding qinv_def
proof (intro conjI allI impI)
  fix pl assume pl: "real_place pl"
  show "chain_at (upd_proc p (\<lambda>_. c) s) pl (qs pl)"
  proof (cases "\<exists>q. pl = In_blocking p q")
    case True
    then show ?thesis using pl e c by (auto simp: chain_at_def)
  next
    case False
    have "p \<notin> set (qs pl)" using qinvD(2) [OF inv, of p pl] p by blast
    then have "chain_at (upd_proc p (\<lambda>_. c) s) pl (qs pl) = chain_at s pl (qs pl)"
      using False by (intro chain_at_cong) (auto, (cases pl; auto)+)
    then show ?thesis using qinvD(1) [OF inv pl] by simp
  qed
next
  fix pl q
  show "q \<in> set (qs pl) \<longleftrightarrow> valid q \<and> q \<notin> W \<and> place_of (procs (upd_proc p (\<lambda>_. c) s) q) = Some pl"
    using qinvD(2) [OF inv, of q pl] p by auto
qed (rule qinvD(3) [OF inv])

lemma blocking_ok_mono:
  assumes "blocking_ok ps c" and "\<And>q. alive ps q \<Longrightarrow> alive ps' q"
  shows "blocking_ok ps' c"
  using assms unfolding blocking_ok_def by (auto split: proc_state.splits option.splits)

text \<open>A stopped process becomes ready, or stays stopped with its control block cleared.\<close>

lemma rebirth_ok:
  assumes inv: "kinv s r qs" and p: "valid p" "curr_state (procs s p) = PROC_STATE_STOPPED"
    and q: "qinv s' {} qs'" and rest: "\<And>q. q \<noteq> p \<Longrightarrow> same_core (procs s' q) (procs s q)"
    and c: "pid_slot p (pid (procs s' p))" "fd_table (procs s' p) = (\<lambda>_. None)"
      "curr_state (procs s' p) = PROC_STATE_STOPPED \<or> curr_state (procs s' p) = PROC_STATE_READY \<and>
        blocking_proc (procs s' p) = None \<and> blocking_queue_name (procs s' p) = NO_BLOCKER"
    and mem: "mem_ok {} (heap s') (procs s')" and dev: "device_table s' = device_table s" "kbd s' = kbd s"
    and dl: "dl_ok MAX_TICKS (deltas s' (qs' In_sleep))"
  shows "kinv s' r qs'"
proof -
  note ok = kinvD(2) [OF inv]
  have rp: "r \<noteq> Some p" using procs_okD(2) [OF ok, of p] p by auto
  have life: "same_life (procs s' q) (procs s q)" if "q \<noteq> p" for q using same_core_life [OF rest [OF that]] .
  have al: "alive (procs s') q" if "alive (procs s) q" for q
    using that life [of q] p(2) by (cases "q = p") (auto simp: alive_def same_life_def)
  have "procs_ok (procs s') r"
    unfolding procs_ok_def
  proof (intro conjI allI impI)
    fix q assume q: "known q"
    show "pid_slot q (pid (procs s' q))"
      using c(1) procs_okD(1) [OF ok q] life [of q] by (cases "q = p") (simp_all add: same_life_def)
    show "curr_state (procs s' q) = PROC_STATE_RUNNING \<longleftrightarrow> r = Some q"
      using procs_okD(2) [OF ok q] rest [of q] c(3) rp by (cases "q = p") (auto simp: same_core_def)
  next
    fix q assume q: "valid q"
    show "blocking_ok (procs s') (procs s' q)"
    proof (cases "q = p")
      case True
      then show ?thesis using c(3) by (auto simp: blocking_ok_def)
    next
      case False
      have "blocking_ok (procs s') (procs s q)" using blocking_ok_mono [OF procs_okD(4) [OF ok q] al] .
      then show ?thesis using blocking_ok_core [OF rest [OF False] refl] by blast
    qed
  qed (rule procs_okD(3) [OF ok])
  moreover have "dev_ok (device_table s') (kbd s') (procs s')"
  proof -
    note D = dev_okD [OF kinvD(5) [OF inv]]
    have fp: "open_fds (procs s p) = {}" "open_fds (procs s' p) = {}" using D(3) p c(2) by (simp_all add: open_fds_def)
    have o: "open_fds (procs s' q) = open_fds (procs s q)" for q
      using fp open_fds_life [OF life [of q]] by (cases "q = p") simp_all
    have cnt: "open_count (procs s') = open_count (procs s)" by (simp add: open_count_def o)
    show ?thesis
      unfolding dev_ok_def dev
    proof (intro conjI allI impI)
      fix q fd e assume "valid q" "fd < PCB_NUM_FDS" "fd_table (procs s' q) fd = Some e"
      then show "e < NUM_DEVICES_ID_ENUMS" using D(2) [of q fd e] life [of q] c(2) by (cases "q = p") (simp_all add: same_life_def)
    next
      fix q assume "valid q" "curr_state (procs s' q) = PROC_STATE_STOPPED"
      then show "open_fds (procs s' q) = {}" using D(3) [of q] life [of q] fp o by (cases "q = p") (simp_all add: same_life_def)
    next
      fix i assume "i < KBD_TASK_LIST_SIZE" "kt_waiting (kbd_task_list (kbd s) i)"
      then obtain q where t: "kt_pcb (kbd_task_list (kbd s) i) = Some q" "valid q" "slot_of (pid (procs s q)) = i"
        "open_fds (procs s q) \<noteq> {}" using D(7) by blast
      then have "q \<noteq> p" using fp by blast
      then show "\<exists>q. kt_pcb (kbd_task_list (kbd s) i) = Some q \<and> valid q \<and> slot_of (pid (procs s' q)) = i \<and> open_fds (procs s' q) \<noteq> {}"
        using t o life [of q] by (intro exI [of _ q]) (simp add: same_life_def)
    qed (use D(1,4-6) cnt in simp_all)
  qed
  ultimately show ?thesis using q dl mem by (simp add: kinvx_def)
qed

end
