(* ===== verification/Create.thy ===== *)
theory Create
  imports Handlers_Life
begin

text \<open>
  Creation of a process (c/create.c and \<open>get_next_available_pcb\<close> of c/pcb.c): which control block
  it takes, which number it gives out, what the new process starts with, and that each way to fail
  leaves the kernel's invariant and gives the memory back.
\<close>

subsection \<open>Numbers and memory\<close>

text \<open>Process numbers stay in their slot; the last slot runs out of numbers at \<open>2 ^ 31\<close>.\<close>

lemma next_pid_slot:
  assumes "pid_slot (Table i) n" and "i < PCB_TABLE_SIZE"
  shows "1 \<le> next_pid n \<longleftrightarrow> \<not> (i = 31 \<and> 2 ^ 31 \<le> n + 32)"
    and "1 \<le> next_pid n \<Longrightarrow> pid_slot (Table i) (next_pid n)"
    and "2 ^ 31 > n + 32 \<Longrightarrow> next_pid n = n + 32"
proof -
  have n: "1 \<le> n" "n < 2 ^ 31" "(n - 1) mod 32 = int i" "i < 32"
    using assms by (simp_all add: PCB_TABLE_SIZE_def in_s32_def)
  have nm: "n mod 32 = (int i + 1) mod 32" using mod_add_left_eq [of "n - 1" 32 1] n(3) by simp
  have s: "s32 (n + 32) = (if n + 32 < 2 ^ 31 then n + 32 else n + 32 - 2 ^ 32)"
  proof (cases "n + 32 < 2 ^ 31")
    case False
    have "(n + 32 + 2 ^ 31) mod 2 ^ 32 = (n + 32 + 2 ^ 31 - 2 ^ 32) mod 2 ^ 32"
      using mod_add_self2 [of "n + 32 + 2 ^ 31 - 2 ^ 32" "2 ^ 32 :: int"] by simp
    also have "\<dots> = n + 32 + 2 ^ 31 - 2 ^ 32" using n(2) False by (intro mod_pos_pos_trivial) simp_all
    finally show ?thesis using False by (simp add: s32_mod)
  qed (use n(1) in \<open>simp add: in_s32_def\<close>)
  have np: "next_pid n = (if n + 32 < 2 ^ 31 then n + 32 else n mod 32)"
    using n(1,2) by (simp add: next_pid_def PCB_TABLE_SIZE_def s crem_def)
  show "1 \<le> next_pid n \<longleftrightarrow> \<not> (i = 31 \<and> 2 ^ 31 \<le> n + 32)"
    unfolding np using n nm by (cases "i = 31") (auto simp: mod_pos_pos_trivial)
  show "2 ^ 31 > n + 32 \<Longrightarrow> next_pid n = n + 32" by (simp add: np)
  assume p: "1 \<le> next_pid n"
  have "(next_pid n - 1) mod 32 = int i"
  proof (cases "n + 32 < 2 ^ 31")
    case True
    have "next_pid n - 1 = (n - 1) + 32" using True by (simp add: np)
    then have "(next_pid n - 1) mod 32 = (n - 1) mod 32" by (simp only: mod_add_self2)
    then show ?thesis using n(3) by simp
  next
    case False
    then have "next_pid n = n mod 32" by (simp add: np)
    then show ?thesis using p nm n(4) by (cases "i = 31") (auto simp: mod_pos_pos_trivial)
  qed
  moreover have "next_pid n < 2 ^ 31"
    using n(2) pos_mod_bound [of 32 n] by (cases "n + 32 < 2 ^ 31") (simp_all add: np)
  ultimately show "pid_slot (Table i) (next_pid n)" using p by (simp add: PCB_TABLE_SIZE_def in_s32_def)
qed

lemma mem_ok_same:
  assumes "mem_ok {} h ps" and "alive ps' = alive ps"
    and "\<And>q. alive ps q \<Longrightarrow> memory_region (ps' q) = memory_region (ps q) \<and> signal_table (ps' q) = signal_table (ps q)"
  shows "mem_ok {} h ps'"
proof -
  have "owned_block ps' x = owned_block ps x" if "x \<in> UNIV \<times> {p. alive ps p}" for x
    using that assms(3) by (auto simp: owned_block_def)
  then have "owned_block ps' ` (UNIV \<times> {p. alive ps p}) = owned_block ps ` (UNIV \<times> {p. alive ps p})"
    "inj_on (owned_block ps') (UNIV \<times> {p. alive ps p}) = inj_on (owned_block ps) (UNIV \<times> {p. alive ps p})"
    by (auto intro!: image_cong inj_on_cong)
  then show ?thesis using assms(1) unfolding mem_ok_def assms(2) Diff_empty by simp
qed

lemma mem_ok_grow:
  assumes h: "heap_live h L" "owned_block ps ` (UNIV \<times> {p. alive ps p}) \<subseteq> dom L"
      "inj_on (owned_block ps) (UNIV \<times> {p. alive ps p})"
    and new: "a \<notin> dom L" "b \<notin> dom (L(a \<mapsto> j))" "heap_live h' (L(a \<mapsto> j, b \<mapsto> k))"
    and al: "alive ps' = (\<lambda>q. alive ps q \<or> q = p)" "\<not> alive ps p"
    and same: "\<And>q. alive ps q \<Longrightarrow> memory_region (ps' q) = memory_region (ps q) \<and> signal_table (ps' q) = signal_table (ps q)"
    and p: "memory_region (ps' p) = a" "signal_table (ps' p) = b"
  shows "mem_ok {} h' ps'"
proof -
  have o: "owned_block ps' x = owned_block ps x" if "x \<in> UNIV \<times> {q. alive ps q}" for x
    using that same by (auto simp: owned_block_def)
  have op: "owned_block ps' (True, p) = a" "owned_block ps' (False, p) = b" using p by (simp_all add: owned_block_def)
  have U: "UNIV \<times> ({q. alive ps' q} - {}) = UNIV \<times> {q. alive ps q} \<union> {(True, p), (False, p)}"
  proof (rule set_eqI)
    fix x :: "bool \<times> pcbref"
    show "x \<in> UNIV \<times> ({q. alive ps' q} - {}) \<longleftrightarrow> x \<in> UNIV \<times> {q. alive ps q} \<union> {(True, p), (False, p)}"
      using al(1) by (cases x; cases "fst x") auto
  qed
  have ab: "a \<noteq> b" using new(2) by auto
  have L: "owned_block ps' ` (UNIV \<times> {q. alive ps q}) \<subseteq> dom L" using h(2) o by (metis image_cong)
  have "inj_on (owned_block ps') (UNIV \<times> {q. alive ps q})" using h(3) o by (metis inj_on_cong)
  moreover have "inj_on (owned_block ps') {(True, p), (False, p)}" using op ab by (simp add: inj_on_def)
  moreover have "owned_block ps' ` (UNIV \<times> {q. alive ps q}) \<inter> owned_block ps' ` {(True, p), (False, p)} = {}"
    using L new(1,2) op by auto
  ultimately have "inj_on (owned_block ps') (UNIV \<times> {q. alive ps q} \<union> {(True, p), (False, p)})"
    by (auto simp: inj_on_Un)
  moreover have "owned_block ps' ` (UNIV \<times> {q. alive ps q} \<union> {(True, p), (False, p)}) \<subseteq> dom (L(a \<mapsto> j, b \<mapsto> k))"
    using L op by auto
  ultimately show ?thesis unfolding mem_ok_def U using new(3) by blast
qed

text \<open>The first step of creation: the block that has been stopped for longest.\<close>

definition fresh_pcb :: "u32 \<Rightarrow> int \<Rightarrow> pcb" where
  "fresh_pcb tbl n = zero_pcb\<lparr>signal_table := tbl, signals_enabled := 1,
     curr_state := PROC_STATE_STOPPED, blocking_queue_name := NO_BLOCKER, pid := n\<rparr>"

lemma stopped_queue_head:
  "kinv s r qs \<Longrightarrow> queue_heads s PROC_STATE_STOPPED = (case qs In_stopped of [] \<Rightarrow> None | p # _ \<Rightarrow> Some p)"
  using qinvD(1) [OF kinvD(1), of "{}" s r qs In_stopped] by (cases "qs In_stopped") (auto simp: chain_at_def)

lemma take_stopped_ok:
  assumes inv: "kinv s r qs" and st: "qs In_stopped = p # ps"
  obtains s1 where "remove_pcb_from_queue p s = Some s1" and "qinv s1 {p} (qs(In_stopped := ps))"
    and "valid p" and "curr_state (procs s p) = PROC_STATE_STOPPED"
    and "\<And>q. same_but_links (procs s1 q) (procs s q)" and "same_rest s1 s"
    and "\<And>q. has_queue q \<Longrightarrow> qs (In_blocking p q) = []" and "pid (procs s1 p) = pid (procs s p)"
    and "\<And>q. q \<in> set (qs In_sleep) \<Longrightarrow> q \<noteq> p"
proof -
  note q = kinvD(1) [OF inv] and ok = kinvD(2) [OF inv]
  have p: "valid p" "place_of (procs s p) = Some In_stopped" using qinvD(2) [OF q, of p In_stopped] st by auto
  then have cs: "curr_state (procs s p) = PROC_STATE_STOPPED"
    by (cases "curr_state (procs s p)") (auto simp: place_of_def split: if_splits)
  obtain s1 where s1: "remove_pcb_from_queue p s = Some s1"
    "qinv s1 (insert p {}) (qs(state_place (curr_state (procs s p)) :=
      remove1 p (qs (state_place (curr_state (procs s p))))))"
    "\<And>q. same_but_links (procs s1 q) (procs s q)" "same_rest s1 s"
    by (rule remove_pcb_from_queue_ok [OF q _ p(1)]) (use cs in \<open>auto simp: has_proc_queue_cases\<close>)
  have "qs (In_blocking p k) = []" if "has_queue k" for k
  proof (rule ccontr)
    assume "qs (In_blocking p k) \<noteq> []"
    then obtain a as where "qs (In_blocking p k) = a # as" by (cases "qs (In_blocking p k)") auto
    then have a: "valid a" "place_of (procs s a) = Some (In_blocking p k)" using qinvD(2) [OF q, of a "In_blocking p k"] by auto
    then have "curr_state (procs s a) = PROC_STATE_BLOCKED" "blocking_proc (procs s a) = Some p"
      by (auto simp: place_of_def split: proc_state.splits if_splits option.splits)
    then have "alive (procs s) p" using blocking_ok_cases(3) [OF procs_okD(4) [OF ok a(1)]] by auto
    then show False using cs by (simp add: alive_def)
  qed
  moreover have "q \<noteq> p" if "q \<in> set (qs In_sleep)" for q using sleepers(2) [OF inv that] cs by auto
  ultimately show ?thesis
    using s1 p(1) cs st same_but_links_fields(1) [OF s1(3) [of p]] by (intro that [of s1]) (simp_all add: state_place_def)
qed

lemma no_signal_table_ok:
  assumes inv: "kinv s r qs" and st: "qs In_stopped = p # ps"
    and m: "kmalloc (of_nat (SIGNAL_TABLE_SIZE * 4)) (heap s) = Some (0, heap s)"
  obtains s' where "get_next_available_pcb s = Some (None, s')" and "kinv s' r (qs(In_stopped := ps @ [p]))"
    and "same_rest s' s" and "\<And>h. mem_ok {} h (procs s) \<Longrightarrow> mem_ok {} h (procs s')"
proof -
  note ok = kinvD(2) [OF inv]
  obtain s1 where s1: "remove_pcb_from_queue p s = Some s1" "qinv s1 {p} (qs(In_stopped := ps))"
    "valid p" "curr_state (procs s p) = PROC_STATE_STOPPED" "\<And>q. same_but_links (procs s1 q) (procs s q)" "same_rest s1 s"
    "\<And>q. has_queue q \<Longrightarrow> qs (In_blocking p q) = []" "pid (procs s1 p) = pid (procs s p)"
    "\<And>q. q \<in> set (qs In_sleep) \<Longrightarrow> q \<noteq> p"
    by (rule take_stopped_ok [OF inv st]) blast
  let ?n = "pid (procs s p)"
  let ?c = "zero_pcb\<lparr>pid := ?n\<rparr>"
  let ?s2 = "upd_proc p (\<lambda>_. ?c) s1"
  have q2: "qinv ?s2 {p} (qs(In_stopped := ps))"
    by (rule qinv_fresh [OF s1(2)]) (use s1(7) in \<open>auto simp: zero_pcb_def\<close>)
  have n0: "pid (procs ?s2 p) \<noteq> 0" using pid_nonzero [OF ok s1(3)] by simp
  obtain s' where s': "add_pcb_to_queue p PROC_STATE_STOPPED ?s2 = Some s'"
    "qinv s' ({p} - {p}) ((qs(In_stopped := ps))(state_place PROC_STATE_STOPPED := (qs(In_stopped := ps)) (state_place PROC_STATE_STOPPED) @ [p]))"
    "\<And>q. same_but_links (procs s' q) (if q = p then (procs ?s2 p)\<lparr>curr_state := PROC_STATE_STOPPED\<rparr> else procs ?s2 q)"
    "same_rest s' ?s2"
    by (rule add_pcb_to_queue_ok [OF q2 _ s1(3) n0, of PROC_STATE_STOPPED])
      (auto simp: has_proc_queue_cases zero_pcb_def)
  have h1: "heap s1 = heap s" using s1(6) by (simp add: same_rest_def)
  let ?k = "upd_proc p (\<lambda>_. zero_pcb) s1"
  have km: "k_malloc (of_nat (SIGNAL_TABLE_SIZE * 4)) ?k = Some (0, ?k)" using m h1 by (simp add: k_malloc_def)
  have eq: "upd_proc p (\<lambda>c. c\<lparr>pid := ?n\<rparr>) (upd_proc p (\<lambda>c. c\<lparr>signal_table := 0\<rparr>) ?k) = ?s2"
    by (simp add: upd_proc_def zero_pcb_def)
  have "queue_heads s PROC_STATE_STOPPED = Some p" using stopped_queue_head [OF inv] st by simp
  then have run: "get_next_available_pcb s = Some (None, s')"
    using s1(1,8) km s'(1) eq by (simp add: get_next_available_pcb_def Let_def)
  note fields = same_but_links_fields [OF s'(3)]
  have rest: "same_core (procs s' q) (procs s q)" if "q \<noteq> p" for q
    using same_core_trans [OF same_core_links [OF s'(3) [of q]]] same_core_links [OF s1(5) [of q]] that by simp
  have sr: "same_rest s' s" using s'(4) s1(6) same_rest_trans by simp
  have "curr_state (procs s' q) = curr_state (procs s q)" for q
    using rest [of q] fields(2) [of p] s1(4) by (cases "q = p") (simp_all add: same_core_def)
  then have al: "alive (procs s') = alive (procs s)" by (simp add: alive_def fun_eq_iff)
  have np: "q \<noteq> p" if "alive (procs s) q" for q using that s1(4) by (auto simp: alive_def)
  have mem: "mem_ok {} h (procs s')" if "mem_ok {} h (procs s)" for h
    using mem_ok_same [OF that al] rest np by (simp add: same_core_def)
  have "kinv s' r (qs(In_stopped := ps @ [p]))"
  proof (rule rebirth_ok [OF inv s1(3,4)])
    show "qinv s' {} (qs(In_stopped := ps @ [p]))" using s'(2) by (simp add: state_place_def)
    show "pid_slot p (pid (procs s' p))" using fields(1) [of p] procs_okD(1) [OF ok knownI(1) [OF s1(3)]] by simp
    show "fd_table (procs s' p) = (\<lambda>_. None)" using fields(11) [of p] by (simp add: zero_pcb_def)
    show "mem_ok {} (heap s') (procs s')" using mem [OF kinvD(4) [OF inv]] sr by (simp add: same_rest_def)
    have "ret (procs s' q) = ret (procs s q)" if "q \<in> set (qs In_sleep)" for q
      using fields(7) [of q] same_but_links_fields(7) [OF s1(5) [of q]] s1(9) [OF that] by simp
    then have "deltas s' (qs In_sleep) = deltas s (qs In_sleep)" by (rule deltas_cong)
    then show "dl_ok MAX_TICKS (deltas s' ((qs(In_stopped := ps @ [p])) In_sleep))" using kinvD(3) [OF inv] by simp
  qed (use rest sr fields(2) [of p] in \<open>auto simp: same_rest_def\<close>)
  then show ?thesis using that run sr mem by blast
qed

lemma new_pcb_ok:
  assumes inv: "kinv s r qs" and st: "qs In_stopped = p # ps"
    and m: "kmalloc (of_nat (SIGNAL_TABLE_SIZE * 4)) (heap s) = Some (t, h)" "t \<noteq> 0"
    and n: "1 \<le> next_pid (pid (procs s p))"
  obtains s' where "get_next_available_pcb s = Some (Some p, s')"
    and "qinv s' {p} (qs(In_stopped := ps))" and "procs s' p = fresh_pcb t (next_pid (pid (procs s p)))"
    and "\<And>q. q \<noteq> p \<Longrightarrow> same_but_links (procs s' q) (procs s q)"
    and "heap s' = h" and "ram s' = fill_bytes t 0 signal_table_cleared (ram s)"
    and "same_rest (s'\<lparr>heap := heap s, ram := ram s\<rparr>) s"
proof -
  obtain s1 where s1: "remove_pcb_from_queue p s = Some s1" "qinv s1 {p} (qs(In_stopped := ps))"
    "\<And>q. same_but_links (procs s1 q) (procs s q)" "same_rest s1 s"
    "\<And>q. has_queue q \<Longrightarrow> qs (In_blocking p q) = []" "pid (procs s1 p) = pid (procs s p)"
    by (rule take_stopped_ok [OF inv st]) blast
  let ?n = "next_pid (pid (procs s p))"
  let ?k = "upd_proc p (\<lambda>_. zero_pcb) s1"
  let ?s' = "upd_proc p (\<lambda>_. fresh_pcb t ?n) (s1\<lparr>heap := h, ram := fill_bytes t 0 signal_table_cleared (ram s)\<rparr>)"
  have h1: "heap s1 = heap s" "ram s1 = ram s" using s1(4) by (simp_all add: same_rest_def)
  have km: "k_malloc (of_nat (SIGNAL_TABLE_SIZE * 4)) ?k = Some (t, ?k\<lparr>heap := h\<rparr>)" using m h1 by (simp add: k_malloc_def)
  have eq: "upd_proc p (\<lambda>c. c\<lparr>signals_enabled := 1, curr_state := PROC_STATE_STOPPED,
      blocking_queue_name := NO_BLOCKER, pid := ?n\<rparr>)
    ((upd_proc p (\<lambda>c. c\<lparr>signal_table := t\<rparr>) (?k\<lparr>heap := h\<rparr>))\<lparr>ram := fill_bytes t 0 signal_table_cleared (ram s)\<rparr>) = ?s'"
    by (simp add: upd_proc_def fresh_pcb_def zero_pcb_def)
  have "queue_heads s PROC_STATE_STOPPED = Some p" using stopped_queue_head [OF inv] st by simp
  then have run: "get_next_available_pcb s = Some (Some p, ?s')"
    using s1(1,6) km m(2) n h1 by (simp add: get_next_available_pcb_def Let_def eq [unfolded upd_proc_simps])
  have "qinv (s1\<lparr>heap := h, ram := fill_bytes t 0 signal_table_cleared (ram s)\<rparr>) {p} (qs(In_stopped := ps))"
    by (rule qinv_other [OF s1(2)]) simp_all
  then have "qinv ?s' {p} (qs(In_stopped := ps))"
    by (rule qinv_fresh) (use s1(5) in \<open>auto simp: fresh_pcb_def zero_pcb_def\<close>)
  then show ?thesis
    using s1(3,4) by (intro that [OF run]) (simp_all add: same_rest_def)
qed

text \<open>A context frame is a change of memory only.\<close>

lemma setup_context_frame_ram: "\<exists>m. setup_context_frame cf f s = s\<lparr>ram := m\<rparr>"
  by (intro exI [of _ "ram (setup_context_frame cf f s)"]) (simp add: setup_context_frame_def write32_def Let_def)

text \<open>The state of a process that has just been created.\<close>

definition newborn :: "kernel \<Rightarrow> pcbref \<Rightarrow> int \<Rightarrow> bool" where
  "newborn s p n \<longleftrightarrow> curr_state (procs s p) = PROC_STATE_READY \<and> pid (procs s p) = n \<and>
     signals_fired (procs s p) = 0 \<and> open_fds (procs s p) = {} \<and> cpu_time (procs s p) = 0"

text \<open>The size of the stack a caller gets.\<close>

definition stack_size :: "int \<Rightarrow> int" where
  "stack_size stack = (if stack < DEFAULT_STACK_SIZE then DEFAULT_STACK_SIZE else stack)"

text \<open>The heap with one more block, and without it again.\<close>

lemma malloc_kinv:
  assumes inv: "kinv s r qs" and a: "kmalloc n (heap s) = Some (a, h1)" "a \<noteq> 0"
  obtains L j where "kinv (s\<lparr>heap := h1\<rparr>) r qs" and "heap_live (heap s) L"
    and "owned_block (procs s) ` (UNIV \<times> {p. alive (procs s) p}) \<subseteq> dom L"
    and "inj_on (owned_block (procs s)) (UNIV \<times> {p. alive (procs s) p})"
    and "a \<notin> dom L" and "heap_live h1 (L(a \<mapsto> j))"
proof -
  obtain L where L: "heap_live (heap s) L" "owned_block (procs s) ` (UNIV \<times> {p. alive (procs s) p}) \<subseteq> dom L"
    "inj_on (owned_block (procs s)) (UNIV \<times> {p. alive (procs s) p})"
    using kinvD(4) [OF inv] by (auto simp: mem_ok_def)
  obtain j where j: "a \<notin> dom L" "heap_live h1 (L(a \<mapsto> j))" using kmem.malloc_fresh [OF L(1) a] by blast
  have "kinv (s\<lparr>heap := h1\<rparr>) r qs"
    by (rule kinvx_heap [OF inv]) (unfold mem_ok_def, use L j(2) in \<open>intro exI [of _ "L(a \<mapsto> j)"], auto\<close>)
  then show ?thesis using that L j by blast
qed

text \<open>Out of control blocks, or of memory for the signal table: the stack is given back.\<close>

lemma create_limit:
  assumes inv: "kinv s r qs" and func: "func \<noteq> 0"
    and a: "kmalloc (word_of_int (stack_size stack)) (heap s) = Some (a, h1)" "a \<noteq> 0"
    and g: "get_next_available_pcb (s\<lparr>heap := h1\<rparr>) = Some (None, s2)" "kinv s2 r qs2" "same_rest s2 (s\<lparr>heap := h1\<rparr>)"
      "\<And>h. mem_ok {} h (procs s) \<Longrightarrow> mem_ok {} h (procs s2)"
  obtains s' where "create func stack s = Some (EPROCLIMIT, s')" and "kinv s' r qs2" and "currproc s' = currproc s"
proof -
  obtain L j where L: "heap_live (heap s) L" "owned_block (procs s) ` (UNIV \<times> {p. alive (procs s) p}) \<subseteq> dom L"
    "inj_on (owned_block (procs s)) (UNIV \<times> {p. alive (procs s) p})" "a \<notin> dom L" "heap_live h1 (L(a \<mapsto> j))"
    by (rule malloc_kinv [OF inv a])
  have "heap s2 = h1" using g(3) by (simp add: same_rest_def)
  moreover obtain h2 where h2: "kfree a h1 = Some h2" "heap_live h2 (L(a \<mapsto> j, a := None))"
    using kmem.free_live [OF L(5), of a] by auto
  ultimately have f: "k_free a s2 = Some (s2\<lparr>heap := h2\<rparr>)" by (simp add: k_free_def)
  have e: "L(a \<mapsto> j, a := None) = L" using L(4) by auto
  have "mem_ok {} h2 (procs s)"
    unfolding mem_ok_def using L(1-3) h2(2) by (simp only: e) auto
  then have "mem_ok {} h2 (procs s2)" by (rule g(4))
  then have "kinv (s2\<lparr>heap := h2\<rparr>) r qs2" by (rule kinvx_heap [OF g(2)])
  moreover have "create func stack s = Some (EPROCLIMIT, s2\<lparr>heap := h2\<rparr>)"
    using func a g(1) f by (simp add: create_def k_malloc_def stack_size_def Let_def)
  ultimately show ?thesis using g(3) by (intro that [of "s2\<lparr>heap := h2\<rparr>"]) (simp_all add: same_rest_def)
qed

text \<open>The way a process comes to life. Its stack starts with the address of \<open>sysstop\<close>, to which its
  function returns, and below it is the frame it is resumed from.\<close>

definition first_frame :: "u32 \<Rightarrow> int \<Rightarrow> u32" where
  "first_frame bottom stack = bottom + word_of_int (stack_size stack) - 4 - sizeof_context_frame"

lemma create_succeeds:
  assumes inv: "kinv s r qs" and st: "qs In_stopped = p # ps" and func: "func \<noteq> 0"
    and a: "kmalloc (word_of_int (stack_size stack)) (heap s) = Some (a, h1)" "a \<noteq> 0"
    and t: "kmalloc (of_nat (SIGNAL_TABLE_SIZE * 4)) h1 = Some (t, h2)" "t \<noteq> 0"
    and n: "1 \<le> next_pid (pid (procs s p))"
  obtains s' where "create func stack s = Some (next_pid (pid (procs s p)), s')"
    and "kinv s' r (qs(In_stopped := ps, In_ready := qs In_ready @ [p]))" and "currproc s' = currproc s"
    and "newborn s' p (next_pid (pid (procs s p)))" and "esp (procs s' p) = first_frame a stack"
    and "\<exists>s0. ram s' = ram (setup_context_frame (first_frame a stack) func
      (write32 (a + word_of_int (stack_size stack) - 4) (addr_sysstop (image s)) s0)) \<and> image s0 = image s"
    and "image s' = image s" and "heap s' = h2" and "\<And>q. q \<noteq> p \<Longrightarrow> same_but_links (procs s' q) (procs s q)"
proof -
  note ok = kinvD(2) [OF inv]
  let ?n = "next_pid (pid (procs s p))" and ?e = "first_frame a stack" and ?ra = "a + word_of_int (stack_size stack) - 4"
  obtain L j where i1: "kinv (s\<lparr>heap := h1\<rparr>) r qs" and L: "heap_live (heap s) L"
    "owned_block (procs s) ` (UNIV \<times> {p. alive (procs s) p}) \<subseteq> dom L"
    "inj_on (owned_block (procs s)) (UNIV \<times> {p. alive (procs s) p})" "a \<notin> dom L" "heap_live h1 (L(a \<mapsto> j))"
    by (rule malloc_kinv [OF inv a])
  obtain s2 where s2: "get_next_available_pcb (s\<lparr>heap := h1\<rparr>) = Some (Some p, s2)" "qinv s2 {p} (qs(In_stopped := ps))"
    "procs s2 p = fresh_pcb t ?n" "\<And>q. q \<noteq> p \<Longrightarrow> same_but_links (procs s2 q) (procs s q)" "heap s2 = h2"
    "same_rest (s2\<lparr>heap := heap (s\<lparr>heap := h1\<rparr>), ram := ram (s\<lparr>heap := h1\<rparr>)\<rparr>) (s\<lparr>heap := h1\<rparr>)"
    by (rule new_pcb_ok [OF i1 st, of t h2]) (use t n in auto)
  let ?s0 = "upd_proc p (\<lambda>c. c\<lparr>memory_region := a\<rparr>) s2"
  define s3 where "s3 = setup_context_frame ?e func
    (upd_proc p (\<lambda>c. c\<lparr>esp := ?e\<rparr>) (write32 ?ra (addr_sysstop (image s)) ?s0))"
  obtain m where m: "s3 = (upd_proc p (\<lambda>c. c\<lparr>esp := ?e\<rparr>) (write32 ?ra (addr_sysstop (image s)) ?s0))\<lparr>ram := m\<rparr>"
    unfolding s3_def using setup_context_frame_ram by blast
  have s3: "procs s3 = (procs s2)(p := (procs s2 p)\<lparr>memory_region := a, esp := ?e\<rparr>)"
    "queue_heads s3 = queue_heads s2" "queue_tails s3 = queue_tails s2" "sleeping_list s3 = sleeping_list s2" "heap s3 = h2"
    "kbd s3 = kbd s" "device_table s3 = device_table s" "currproc s3 = currproc s" "image s3 = image s"
    using m s2(5,6) by (simp_all add: same_rest_def)
  obtain tk: "valid p" "curr_state (procs s p) = PROC_STATE_STOPPED" "\<And>q. q \<in> set (qs In_sleep) \<Longrightarrow> q \<noteq> p"
    by (rule take_stopped_ok [OF inv st]) blast
  have "qinv (upd_proc p (\<lambda>c. c\<lparr>memory_region := a, esp := ?e\<rparr>) s2) {p} (qs(In_stopped := ps))"
    by (rule qinv_upd_proc [OF s2(2)]) auto
  then have q3: "qinv s3 {p} (qs(In_stopped := ps))" by (rule qinv_other) (simp_all add: s3)
  obtain s4 where s4: "add_pcb_to_queue p PROC_STATE_READY s3 = Some s4"
    "qinv s4 ({p} - {p}) ((qs(In_stopped := ps))(state_place PROC_STATE_READY := (qs(In_stopped := ps)) (state_place PROC_STATE_READY) @ [p]))"
    "\<And>q. same_but_links (procs s4 q) (if q = p then (procs s3 p)\<lparr>curr_state := PROC_STATE_READY\<rparr> else procs s3 q)"
    "same_rest s4 s3"
    by (rule add_pcb_to_queue_ok [OF q3 _ tk(1), of PROC_STATE_READY])
      (use s3(1) s2(3) n in \<open>auto simp: has_proc_queue_cases fresh_pcb_def\<close>)
  note fields = same_but_links_fields [OF s4(3)]
  have others: "same_but_links (procs s4 q) (procs s q)" if "q \<noteq> p" for q
    using same_but_links_trans [OF s4(3) [of q]] s2(4) [OF that] s3(1) that by simp
  have me: "pid (procs s4 p) = ?n" "curr_state (procs s4 p) = PROC_STATE_READY" "fd_table (procs s4 p) = (\<lambda>_. None)"
    "blocking_proc (procs s4 p) = None" "blocking_queue_name (procs s4 p) = NO_BLOCKER" "memory_region (procs s4 p) = a"
    "signal_table (procs s4 p) = t" "signals_fired (procs s4 p) = 0" "cpu_time (procs s4 p) = 0" "esp (procs s4 p) = ?e"
    using fields [of p] s3(1) s2(3) by (simp_all add: fresh_pcb_def zero_pcb_def)
  have inv4: "kinv s4 r (qs(In_stopped := ps, In_ready := qs In_ready @ [p]))"
  proof (rule rebirth_ok [OF inv tk(1,2)])
    show "qinv s4 {} (qs(In_stopped := ps, In_ready := qs In_ready @ [p]))" using s4(2) by (simp add: state_place_def)
    show "same_core (procs s4 q) (procs s q)" if "q \<noteq> p" for q using same_core_links [OF others [OF that]] .
    show "pid_slot p (pid (procs s4 p))"
      using tk(1) procs_okD(1) [OF ok knownI(1) [OF tk(1)]] next_pid_slot(2) n me(1) by (auto simp: valid_def)
    have d: "\<not> alive (procs s) p" using tk(2) by (simp add: alive_def)
    have al: "alive (procs s4) = (\<lambda>q. alive (procs s) q \<or> q = p)"
    proof
      fix q show "alive (procs s4) q = (alive (procs s) q \<or> q = p)"
        using same_but_links_fields(2) [OF others, of q] me(2) tk(1) by (cases "q = p") (auto simp: alive_def)
    qed
    obtain k where k: "t \<notin> dom (L(a \<mapsto> j))" "heap_live h2 (L(a \<mapsto> j, t \<mapsto> k))"
      using kmem.malloc_fresh [OF L(5) t] by blast
    have "mem_ok {} h2 (procs s4)"
    proof (rule mem_ok_grow [OF L(1-4) k al d])
      show "memory_region (procs s4 q) = memory_region (procs s q) \<and> signal_table (procs s4 q) = signal_table (procs s q)"
        if "alive (procs s) q" for q
        using same_but_links_fields(4,8) [OF others, of q] that d by (cases "q = p") auto
    qed (rule me(6), rule me(7))
    then show "mem_ok {} (heap s4) (procs s4)" using s4(4) s3(5) by (simp add: same_rest_def)
    have "ret (procs s4 q) = ret (procs s q)" if "q \<in> set (qs In_sleep)" for q
      using same_but_links_fields(7) [OF others [OF tk(3) [OF that]]] .
    then have "deltas s4 (qs In_sleep) = deltas s (qs In_sleep)" by (rule deltas_cong)
    then show "dl_ok MAX_TICKS (deltas s4 ((qs(In_stopped := ps, In_ready := qs In_ready @ [p])) In_sleep))"
      using kinvD(3) [OF inv] by simp
  qed (use me s4(4) s3 in \<open>simp_all add: same_rest_def\<close>)
  have "create func stack s = Some (?n, s4)"
    using func a s2(1,6) s4(1) me(1) unfolding s3_def
    by (simp add: create_def k_malloc_def stack_size_def first_frame_def same_rest_def Let_def)
  moreover have "ram s4 = ram s3" "image s2 = image s" using s4(4) s2(6) by (simp_all add: same_rest_def)
  then have "\<exists>s0. ram s4 = ram (setup_context_frame ?e func (write32 ?ra (addr_sysstop (image s)) s0)) \<and> image s0 = image s"
    by (intro exI [of _ ?s0]) (simp add: s3_def setup_context_frame_def write32_def read32_def Let_def)
  ultimately show ?thesis
    using inv4 me s4(4) s3(5,8,9) others
    by (intro that [of s4]) (simp_all add: newborn_def open_fds_def same_rest_def)
qed

lemma create_ok:
  assumes inv: "kinv s r qs"
    and pids: "\<And>p. queue_heads s PROC_STATE_STOPPED = Some p \<Longrightarrow> 1 \<le> next_pid (pid (procs s p))"
  obtains v s' qs' where "create func stack s = Some (v, s')" and "kinv s' r qs'" and "currproc s' = currproc s"
    and "v \<in> {EINVAL, ENOMEM} \<and> s' = s \<and> qs' = qs \<or>
      v = EPROCLIMIT \<and> qs' = qs(In_stopped := rotate1 (qs In_stopped)) \<or>
      (\<exists>p ps. qs In_stopped = p # ps \<and> v = next_pid (pid (procs s p)) \<and> newborn s' p v \<and>
         qs' = qs(In_stopped := ps, In_ready := qs In_ready @ [p]))"
proof (cases "func = 0")
  case True
  then show ?thesis using inv by (intro that [of EINVAL s qs]) (simp_all add: create_def)
next
  case func: False
  obtain L where L: "heap_live (heap s) L" using kinvD(4) [OF inv] by (auto simp: mem_ok_def)
  obtain a h1 where a: "kmalloc (word_of_int (stack_size stack)) (heap s) = Some (a, h1)" using kmem.malloc_total [OF L] by blast
  show ?thesis
  proof (cases "a = 0")
    case True
    then have "h1 = heap s" using kmem.malloc_null [OF L] a by blast
    then have "create func stack s = Some (ENOMEM, s)"
      using func True a by (simp add: create_def k_malloc_def stack_size_def Let_def)
    then show ?thesis using inv by (intro that [of ENOMEM s qs]) simp_all
  next
    case False
    obtain L j where i1: "kinv (s\<lparr>heap := h1\<rparr>) r qs" and j: "heap_live h1 (L(a \<mapsto> j))" by (rule malloc_kinv [OF inv a False])
    show ?thesis
    proof (cases "qs In_stopped")
      case Nil
      then have g: "get_next_available_pcb (s\<lparr>heap := h1\<rparr>) = Some (None, s\<lparr>heap := h1\<rparr>)"
        using stopped_queue_head [OF i1] by (simp add: get_next_available_pcb_def)
      obtain s' where "create func stack s = Some (EPROCLIMIT, s')" "kinv s' r qs" "currproc s' = currproc s"
        by (rule create_limit [OF inv func a False g i1]) auto
      then show ?thesis using Nil by (intro that [of EPROCLIMIT s' qs]) (simp_all add: fun_upd_idem)
    next
      case (Cons p ps)
      have hd: "queue_heads s PROC_STATE_STOPPED = Some p" using stopped_queue_head [OF inv] Cons by simp
      obtain t h2 where t: "kmalloc (of_nat (SIGNAL_TABLE_SIZE * 4)) h1 = Some (t, h2)" using kmem.malloc_total [OF j] by blast
      show ?thesis
      proof (cases "t = 0")
        case True
        then have "h2 = h1" using kmem.malloc_null [OF j] t by blast
        with t True have e: "kmalloc (of_nat (SIGNAL_TABLE_SIZE * 4)) (heap (s\<lparr>heap := h1\<rparr>)) = Some (0, heap (s\<lparr>heap := h1\<rparr>))" by simp
        obtain s2 where s2: "get_next_available_pcb (s\<lparr>heap := h1\<rparr>) = Some (None, s2)"
          "kinv s2 r (qs(In_stopped := ps @ [p]))" "same_rest s2 (s\<lparr>heap := h1\<rparr>)"
          "\<And>h. mem_ok {} h (procs (s\<lparr>heap := h1\<rparr>)) \<Longrightarrow> mem_ok {} h (procs s2)"
          by (rule no_signal_table_ok [OF i1 Cons e], rule that)
        obtain s' where "create func stack s = Some (EPROCLIMIT, s')" "kinv s' r (qs(In_stopped := ps @ [p]))" "currproc s' = currproc s"
          by (rule create_limit [OF inv func a False s2(1-3)]) (use s2(4) in auto)
        then show ?thesis using Cons by (intro that [of EPROCLIMIT s' "qs(In_stopped := ps @ [p])"]) simp_all
      next
        case t0: False
        obtain s' where "create func stack s = Some (next_pid (pid (procs s p)), s')"
          "kinv s' r (qs(In_stopped := ps, In_ready := qs In_ready @ [p]))" "currproc s' = currproc s"
          "newborn s' p (next_pid (pid (procs s p)))"
          by (rule create_succeeds [OF inv Cons func a False t t0 pids [OF hd]]) blast
        then show ?thesis using Cons
          by (intro that [of "next_pid (pid (procs s p))" s' "qs(In_stopped := ps, In_ready := qs In_ready @ [p])"]) simp_all
      qed
    qed
  qed
qed

end
