(* ===== verification/Handlers_Dev.thy ===== *)
theory Handlers_Dev
  imports Create
begin

text \<open>
  The keyboard's lower half (c/kbd.c) and the system calls on devices: every character reaches the
  waiting tasks, the type-ahead buffer is drained, and the kernel's invariant is kept, provided a
  blocked process with a waiting task is blocked on the device (\<open>waiting_ok\<close>).
\<close>

subsection \<open>Waiting tasks\<close>

text \<open>A task may only wait for a process that is blocked on the device, or not blocked at all.\<close>

definition waiting_ok :: "kernel \<Rightarrow> bool" where
  "waiting_ok s \<longleftrightarrow> (\<forall>i<KBD_TASK_LIST_SIZE. \<forall>p. kt_waiting (task i s) \<longrightarrow> kt_pcb (task i s) = Some p \<longrightarrow>
     curr_state (procs s p) = PROC_STATE_BLOCKED \<longrightarrow> blocking_queue_name (procs s p) = DEVICE)"

text \<open>What the loops over the task list keep.\<close>

definition kbd_pass :: "pcbref set \<Rightarrow> pcbref option \<Rightarrow> kernel \<Rightarrow> kernel \<Rightarrow> bool" where
  "kbd_pass X r s0 s \<longleftrightarrow> (\<exists>qs. kinvx X s r qs) \<and> waiting_ok s \<and> currproc s = currproc s0 \<and>
     buffer_head (kbd s) = buffer_head (kbd s0) \<and> buffer_tail (kbd s) = buffer_tail (kbd s0) \<and>
     (\<forall>q. fd_table (procs s q) = fd_table (procs s0 q) \<and> pid (procs s q) = pid (procs s0 q))"

lemma kbd_pass_trans: "kbd_pass X r s0 s1 \<Longrightarrow> kbd_pass X r s1 s2 \<Longrightarrow> kbd_pass X r s0 s2"
  by (simp add: kbd_pass_def)

lemma kbd_passI: "kinvx X s r qs \<Longrightarrow> waiting_ok s \<Longrightarrow> kbd_pass X r s s"
  by (auto simp: kbd_pass_def)

text \<open>Changes of the driver's state that keep the invariant.\<close>

lemma upd_kbd_pass:
  assumes "kbd_pass X r s0 s" and "buffer_head (f (kbd s)) = buffer_head (kbd s)" "buffer_tail (f (kbd s)) = buffer_tail (kbd s)"
    and "kbd_refcount (f (kbd s)) = kbd_refcount (kbd s)"
    and "\<And>i. i < KBD_TASK_LIST_SIZE \<Longrightarrow> kt_waiting (kbd_task_list (f (kbd s)) i) \<Longrightarrow>
      kt_waiting (task i s) \<and> kt_pcb (kbd_task_list (f (kbd s)) i) = kt_pcb (task i s)"
  shows "kbd_pass X r s0 (upd_kbd f s)"
proof -
  obtain qs where inv: "kinvx X s r qs" using assms(1) by (auto simp: kbd_pass_def)
  have "dev_ok (device_table s) (f (kbd s)) (procs s)"
    using kinvD(5) [OF inv] assms(2-5) unfolding dev_ok_def by auto
  then have "kinvx X (upd_kbd f s) r qs" by (intro kinv_kbd [OF inv]) simp_all
  then show ?thesis using assms unfolding kbd_pass_def waiting_ok_def by auto
qed

lemma kbd_pass_fields [simp]:
  "kbd_pass X r s0 (s\<lparr>ram := m\<rparr>) = kbd_pass X r s0 s" "kbd_pass X r s0 (s\<lparr>io := x\<rparr>) = kbd_pass X r s0 s"
  "kbd_pass X r s0 (put_chars cs s) = kbd_pass X r s0 s"
  by (simp_all add: kbd_pass_def waiting_ok_def put_chars_def)

lemma keyboard_unblock_proc_ok:
  assumes "kbd_pass X r s0 s" and i: "i < KBD_TASK_LIST_SIZE" "kt_waiting (task i s)"
  shows "\<exists>s'. keyboard_unblock_proc i s = Some s' \<and> kbd_pass X r s0 s'"
proof -
  let ?f = "\<lambda>k. k\<lparr>kbd_task_refcount := s32 (kbd_task_refcount k - 1)\<rparr>"
  let ?g = "\<lambda>k. k\<lparr>kbd_task_list := (kbd_task_list k)(i := (kbd_task_list k i)\<lparr>kt_waiting := False\<rparr>)\<rparr>"
  let ?s1 = "upd_kbd ?g (upd_kbd ?f s)"
  have ps1: "kbd_pass X r s0 ?s1" by (intro upd_kbd_pass assms(1)) (auto split: if_splits)
  then obtain qs where inv: "kinvx X ?s1 r qs" and w: "waiting_ok ?s1" by (auto simp: kbd_pass_def)
  obtain qs0 where inv0: "kinvx X s r qs0" using assms(1) by (auto simp: kbd_pass_def)
  obtain p where p: "kt_pcb (task i s) = Some p" "valid p" using dev_okD(7) [OF kinvD(5) [OF inv0] i] by blast
  let ?v = "kt_i (task i s)"
  let ?s2 = "set_ret p ?v ?s1"
  have same: "procs ?s1 = procs s" by simp
  show ?thesis
  proof (cases "curr_state (procs s p) = PROC_STATE_BLOCKED")
    case True
    then have d: "blocking_queue_name (procs s p) = DEVICE"
      using assms(1) i p(1) unfolding kbd_pass_def waiting_ok_def by blast
    have b: "blocking_proc (procs s p) = None"
      using blocking_ok_cases(3) [OF procs_okD(4) [OF kinvD(2) [OF inv0] p(2)] True] d by (auto simp: has_queue_def)
    have pl: "place_of (procs s p) = None" using d True by (simp add: place_of_def)
    then have ns: "p \<notin> set (qs In_sleep)" using qinvD(2) [OF kinvD(1) [OF inv], of p In_sleep] by simp
    have "qinv ?s1 {p} qs" by (rule qinv_transit(1) [OF kinvD(1) [OF inv]]) (simp add: pl)
    then have q2: "qinv ?s2 {p} qs" unfolding set_ret_def by (rule qinv_upd_proc) auto
    obtain s3 where s3: "add_pcb_to_queue p PROC_STATE_READY ?s2 = Some s3"
      "kinvx X (unnamed p s3) r (qs(In_ready := qs In_ready @ [p]))"
      "\<And>q. same_but_links (procs s3 q) (if q = p then (procs ?s2 p)\<lparr>curr_state := PROC_STATE_READY\<rparr> else procs ?s2 q)"
      "same_rest s3 ?s2"
    proof (rule make_ready_ok [OF inv p(2) _ q2])
      have "deltas ?s2 (qs In_sleep) = deltas ?s1 (qs In_sleep)" using ns by (intro deltas_cong) auto
      then show "dl_ok MAX_TICKS (deltas ?s2 (qs In_sleep))" using kinvD(3) [OF inv] by simp
    qed (use True b in \<open>auto simp: same_life_def\<close>)
    have run: "keyboard_unblock_proc i s = Some (unnamed p s3)"
      using True s3(1) p(1) by (simp add: keyboard_unblock_proc_def upd_task_def)
    note fields = same_but_links_fields [OF s3(3)]
    have st: "curr_state (procs s3 q) = PROC_STATE_BLOCKED \<Longrightarrow> q \<noteq> p \<and> curr_state (procs s q) = PROC_STATE_BLOCKED" for q
      using fields(2) [of q] by (auto split: if_splits)
    have nm: "q \<noteq> p \<Longrightarrow> blocking_queue_name (procs s3 q) = blocking_queue_name (procs s q)" for q
      using fields(13) [of q] by simp
    have k: "kbd s3 = kbd ?s1" "currproc s3 = currproc s" using s3(4) by (simp_all add: same_rest_def)
    have "waiting_ok (unnamed p s3)"
      using w st nm unfolding waiting_ok_def by (fastforce simp: k)
    moreover have "fd_table (procs s3 q) = fd_table (procs s q)" "pid (procs s3 q) = pid (procs s q)" for q
      using fields(1,11) [of q] by (auto split: if_splits)
    ultimately have "kbd_pass X r s0 (unnamed p s3)"
      using s3(2) ps1 k unfolding kbd_pass_def by auto
    then show ?thesis using run by blast
  next
    case False
    have "p \<notin> set (qs In_sleep)" using sleepers(2) [OF inv, of p] False by auto
    then have "kinvx X ?s2 r qs" by (rule kinv_set_ret [OF inv])
    moreover have "waiting_ok ?s2" using w unfolding waiting_ok_def by auto
    ultimately have "kbd_pass X r s0 ?s2" using ps1 unfolding kbd_pass_def by auto
    moreover have "keyboard_unblock_proc i s = Some ?s2"
      using False p(1) by (simp add: keyboard_unblock_proc_def upd_task_def)
    ultimately show ?thesis by blast
  qed
qed

subsection \<open>Characters\<close>

lemma task_take_char_ok:
  assumes "kbd_pass X r s0 s" and "i < KBD_TASK_LIST_SIZE"
  shows "\<exists>s'. task_take_char c i s = Some s' \<and> kbd_pass X r s0 s'"
proof (cases "kt_waiting (task i s)")
  case False
  then show ?thesis using assms(1) by (simp add: task_take_char_def)
next
  case True
  define s1 where "s1 = upd_task i (\<lambda>t. t\<lparr>kt_i := s32 (kt_i t + 1)\<rparr>)
    (s\<lparr>ram := (ram s)(kt_buf (task i s) + word_of_int (kt_i (task i s)) := c)\<rparr>)"
  have p1: "kbd_pass X r s0 s1" and w: "kt_waiting (task i s1)"
    using True assms(1) by (auto simp: s1_def upd_task_def intro!: upd_kbd_pass split: if_splits)
  have "task_take_char c i s =
      (if kt_i (task i s1) = kt_buflen (task i s1) \<or> c = 0x0A then keyboard_unblock_proc i s1 else Some s1)"
    using True by (simp add: task_take_char_def s1_def)
  then show ?thesis using keyboard_unblock_proc_ok [OF p1 assms(2) w] p1 by auto
qed

lemma keyboard_process_char_ok:
  assumes "kbd_pass X r s0 s"
  shows "\<exists>s'. keyboard_process_char c s = Some s' \<and> kbd_pass X r s0 s'"
proof (cases "c = keyboard_eof (kbd s)")
  case True
  let ?s1 = "upd_kbd (\<lambda>k. k\<lparr>kbd_done := True\<rparr>) (s\<lparr>io := setEnabledKbd 0 (io s)\<rparr>)"
  have "kbd_pass X r s0 ?s1" using assms by (intro upd_kbd_pass) auto
  then have "\<exists>s'. for_each (\<lambda>i s. if kt_waiting (task i s) then keyboard_unblock_proc i s else Some s)
      [0..<KBD_TASK_LIST_SIZE] ?s1 = Some s' \<and> kbd_pass X r s0 s'"
    by (rule for_each_total) (use keyboard_unblock_proc_ok in auto)
  then show ?thesis using True by (simp add: keyboard_process_char_def keyboard_handle_eof_def)
next
  case False
  have "\<exists>s'. for_each (task_take_char c) [0..<KBD_TASK_LIST_SIZE] s = Some s' \<and> kbd_pass X r s0 s'"
    using assms by (rule for_each_total) (use task_take_char_ok in auto)
  then show ?thesis using False by (simp add: keyboard_process_char_def)
qed

text \<open>The state between two system calls, as far as the driver's callers need it.\<close>

definition kbd_safe :: "pcbref set \<Rightarrow> pcbref option \<Rightarrow> kernel \<Rightarrow> kernel \<Rightarrow> bool" where
  "kbd_safe X r s0 s \<longleftrightarrow> (\<exists>qs. kinvx X s r qs) \<and> waiting_ok s \<and> currproc s = currproc s0"

lemma kbd_pass_safe: "kbd_pass X r s s' \<Longrightarrow> kbd_safe X r s s'"
  by (simp add: kbd_pass_def kbd_safe_def)

text \<open>The characters in the ring.\<close>

definition ring_size :: "kbd_state \<Rightarrow> nat" where
  "ring_size k = (buffer_head k + KEYBOARD_BUFFER_SIZE - buffer_tail k) mod KEYBOARD_BUFFER_SIZE"

lemma ring_size_step:
  assumes "buffer_head k < KEYBOARD_BUFFER_SIZE" "buffer_tail k < KEYBOARD_BUFFER_SIZE" "buffer_tail k \<noteq> buffer_head k"
  shows "Suc (ring_size (k\<lparr>buffer_tail := (buffer_tail k + 1) mod KEYBOARD_BUFFER_SIZE\<rparr>)) = ring_size k"
proof -
  have "buffer_head k \<in> {0, 1, 2, 3, 4}" "buffer_tail k \<in> {0, 1, 2, 3, 4}"
    using assms(1,2) by (auto simp: KEYBOARD_BUFFER_SIZE_def)
  then show ?thesis using assms(3) by (auto simp: ring_size_def KEYBOARD_BUFFER_SIZE_def)
qed

lemma keyboard_flush_buffer_ok:
  assumes "kinvx X s r qs" and "waiting_ok s"
  shows "\<exists>s'. keyboard_flush_buffer s = Some s' \<and> kbd_safe X r s s'"
  using assms
proof (induction "ring_size (kbd s)" arbitrary: s qs rule: less_induct)
  case less
  note D = dev_okD [OF kinvD(5) [OF less.prems(1)]]
  show ?case
  proof (cases "0 < kbd_task_refcount (kbd s) \<and> buffer_tail (kbd s) \<noteq> buffer_head (kbd s)")
    case False
    then have "keyboard_flush_buffer s = Some s" by (subst keyboard_flush_buffer.simps) (simp only: if_False if_not_P)
    then show ?thesis using less.prems by (auto simp: kbd_safe_def)
  next
    case True
    obtain s1 where s1: "keyboard_process_char (keyboard_buffer (kbd s) (buffer_tail (kbd s))) s = Some s1"
      "kbd_pass X r s s1"
      using keyboard_process_char_ok [OF kbd_passI [OF less.prems]] by blast
    let ?f = "\<lambda>k. k\<lparr>buffer_tail := (buffer_tail k + 1) mod KEYBOARD_BUFFER_SIZE\<rparr>"
    let ?s2 = "upd_kbd ?f s1"
    obtain qs1 where i1: "kinvx X s1 r qs1" using s1(2) by (auto simp: kbd_pass_def)
    have bt: "buffer_tail (kbd s1) = buffer_tail (kbd s)" "buffer_head (kbd s1) = buffer_head (kbd s)"
      and w1: "waiting_ok s1" and c1: "currproc s1 = currproc s" using s1(2) by (simp_all add: kbd_pass_def)
    have "dev_ok (device_table s1) (?f (kbd s1)) (procs s1)"
      using kinvD(5) [OF i1] by (simp add: dev_ok_def KEYBOARD_BUFFER_SIZE_def)
    then have i2: "kinvx X ?s2 r qs1" by (intro kinv_kbd [OF i1]) simp_all
    have w2: "waiting_ok ?s2" using w1 by (simp add: waiting_ok_def)
    have "Suc (ring_size (kbd ?s2)) = ring_size (kbd s)"
      using ring_size_step [of "kbd s1"] D(5,6) True bt by (simp add: ring_size_def)
    then have "ring_size (kbd ?s2) < ring_size (kbd s)" by linarith
    from less.hyps [OF this i2 w2] obtain s' where "keyboard_flush_buffer ?s2 = Some s'" "kbd_safe X r ?s2 s'"
      by blast
    moreover have "keyboard_flush_buffer s = keyboard_flush_buffer ?s2"
      by (subst keyboard_flush_buffer.simps) (simp add: True s1(1))
    ultimately show ?thesis using c1 by (simp add: kbd_safe_def)
  qed
qed

lemma keyboard_isr_ok:
  assumes inv: "kinvx X s r qs" and w: "waiting_ok s"
  shows "\<exists>s'. keyboard_isr s = Some s' \<and> kbd_safe X r s s'"
proof -
  obtain c fl where pc: "keyboard_process_scancode (unat (inb KEYBOARD_PORT_DATA (io s))) (keystate_flag (kbd s)) = (c, fl)"
    by (metis surj_pair)
  define s1 where "s1 = upd_kbd (\<lambda>k. k\<lparr>keystate_flag := fl\<rparr>) s"
  define s2 where "s2 = (if keyboard_echo_flag (kbd s1) \<noteq> 0 \<and> c \<noteq> keyboard_eof (kbd s1) then put_chars [c] s1 else s1)"
  have p0: "kbd_pass X r s s" by (rule kbd_passI [OF inv w])
  have p1: "kbd_pass X r s s1" unfolding s1_def by (intro upd_kbd_pass p0) auto
  have p2: "kbd_pass X r s s2" using p1 by (simp add: s2_def)
  have run: "keyboard_isr s = (if 1 AND inb KEYBOARD_PORT_CONTROL (io s) = 0 then Some s else if c = 0 then Some s1
      else if 0 < kbd_task_refcount (kbd s2) then keyboard_process_char c s2 else Some (upd_kbd (kbd_buffer_char c) s2))"
    using pc by (simp add: keyboard_isr_def Let_def s1_def s2_def)
  obtain s3 where s3: "keyboard_process_char c s2 = Some s3" "kbd_pass X r s s3" using keyboard_process_char_ok [OF p2] by blast
  have buf: "kbd_safe X r s (upd_kbd (kbd_buffer_char c) s2)"
  proof -
    obtain q2 where i2: "kinvx X s2 r q2" using p2 unfolding kbd_pass_def by blast
    have "dev_ok (device_table s2) (kbd_buffer_char c (kbd s2)) (procs s2)"
      using kinvD(5) [OF i2] by (simp add: dev_ok_def kbd_buffer_char_def KEYBOARD_BUFFER_SIZE_def)
    then have "kinvx X (upd_kbd (kbd_buffer_char c) s2) r q2" by (intro kinv_kbd [OF i2]) simp_all
    moreover have "waiting_ok (upd_kbd (kbd_buffer_char c) s2)"
      using p2 by (simp add: kbd_pass_def waiting_ok_def kbd_buffer_char_def)
    ultimately show ?thesis using p2 by (auto simp: kbd_safe_def kbd_pass_def)
  qed
  show ?thesis using run s3 buf kbd_pass_safe [OF p0] kbd_pass_safe [OF p1] kbd_pass_safe [OF s3(2)] by auto
qed

subsection \<open>Interrupt and system calls\<close>

lemma keyboard_handler_ok:
  assumes inv: "kinv s (Some (currproc s)) qs" and w: "waiting_ok s"
  shows "\<exists>s' qs'. keyboard_handler s = Some s' \<and> kinv s' (Some (currproc s')) qs'"
proof -
  obtain s1 qs1 where s1: "keyboard_isr s = Some s1" "kinv s1 (Some (currproc s)) qs1" "currproc s1 = currproc s"
    using keyboard_isr_ok [OF inv w] by (auto simp: kbd_safe_def)
  then have "keyboard_handler s = Some (s1\<lparr>io := end_of_intr (io s1)\<rparr>)" by (simp add: keyboard_handler_def)
  moreover have "kinv (s1\<lparr>io := end_of_intr (io s1)\<rparr>) (Some (currproc s1)) qs1" using s1(2,3) by simp
  ultimately show ?thesis by (intro exI [of _ "s1\<lparr>io := end_of_intr (io s1)\<rparr>"] exI [of _ qs1]) simp
qed

lemma di_read_ok:
  assumes inv: "kinvx X s (Some (currproc s)) qs" and c: "valid (currproc s)" and w: "waiting_ok s"
  shows "\<exists>v s'. di_read (currproc s) fd buf len s = Some (v, s') \<and> kbd_safe X (Some (currproc s)) s s'"
proof (cases "check_fd (currproc s) fd s = 0")
  case False
  then show ?thesis using inv w by (auto simp: di_read_def kbd_safe_def)
next
  case True
  let ?c = "currproc s"
  obtain e where fd: "0 \<le> fd" "nat fd < PCB_NUM_FDS" "fd_table (procs s ?c) (nat fd) = Some e"
    using True by (auto simp: check_fd_def nat_less_iff split: if_splits)
  note D = dev_okD [OF kinvD(5) [OF inv]]
  have dr: "dvdriver (device_table s e) = KbdDriver" using D(1) D(2) [OF c fd(2,3)] .
  have ne: "open_fds (procs s ?c) \<noteq> {}" using fd by (auto simp: open_fds_def)
  let ?i = "kbd_slot ?c s"
  define s1 where "s1 = upd_task ?i (\<lambda>t. t\<lparr>kt_pcb := Some ?c, kt_buf := buf, kt_i := 0, kt_buflen := len, kt_waiting := True\<rparr>)
    (upd_kbd (\<lambda>k. k\<lparr>kbd_task_refcount := s32 (kbd_task_refcount k + 1)\<rparr>) s)"
  have "dev_ok (device_table s1) (kbd s1) (procs s)"
    using kinvD(5) [OF inv] c ne unfolding dev_ok_def s1_def by (auto simp: kbd_slot_eq split: if_splits)
  then have i1: "kinvx X s1 (Some ?c) qs" by (intro kinv_kbd [OF inv]) (simp_all add: s1_def)
  have "curr_state (procs s ?c) \<noteq> PROC_STATE_BLOCKED" using running_facts(2) [OF inv] by simp
  then have "waiting_ok s1" using w unfolding waiting_ok_def s1_def by auto
  from keyboard_flush_buffer_ok [OF i1 this] obtain s2 where s2: "keyboard_flush_buffer s1 = Some s2"
    "kbd_safe X (Some ?c) s1 s2" by blast
  then have "kbd_safe X (Some ?c) s s2" by (simp add: kbd_safe_def s1_def)
  moreover have "\<exists>v. di_read ?c fd buf len s = Some (v, s2)"
    using True fd(3) dr s2(1) by (simp add: di_read_def kbd_read_def Let_def s1_def)
  ultimately show ?thesis by blast
qed

lemma read_handler_ok:
  assumes inv: "kinv s (Some (currproc s)) qs" and c: "valid (currproc s)" and w: "waiting_ok s"
    and l: "0 < sint (carg 2 s)" "sint (carg 2 s) < KERNEL_STACK"
  shows "\<exists>s' qs'. dispatch_syscall_read s = Some s' \<and> kinv s' (Some (currproc s')) qs'"
proof -
  let ?c = "currproc s"
  obtain r where r: "verify_usrptr (carg 1 s) (sint (carg 2 s)) s = Some r" using verify_usrptr_total [OF l] by blast
  show ?thesis
  proof (cases "r = OK")
    case False
    then show ?thesis using r getpid_ok [OF inv, of SYSERR] by (auto simp: dispatch_syscall_read_def ret_cur_def)
  next
    case True
    obtain v s1 where s1: "di_read ?c (sint (carg 0 s)) (carg 1 s) (sint (carg 2 s)) s = Some (v, s1)"
      "kbd_safe {} (Some ?c) s s1" using di_read_ok [OF inv c w] by blast
    then obtain q1 where i1: "kinv s1 (Some ?c) q1" and cc: "currproc s1 = ?c" by (auto simp: kbd_safe_def)
    have i2: "kinv (ret_cur v s1) (Some ?c) q1" using getpid_ok [of "{}" s1 q1 v] i1 cc by simp
    have cr: "currproc (ret_cur v s1) = ?c" by (simp add: ret_cur_def cc)
    let ?b = "upd_proc ?c (\<lambda>x. x\<lparr>curr_state := PROC_STATE_BLOCKED, blocking_queue_name := DEVICE\<rparr>) (ret_cur v s1)"
    have ib: "kinv ?b None q1" by (rule block_unqueued_ok [OF i2 c]) simp
    obtain s' where s': "switch_proc ?b = Some s'" "kinv s' (Some (currproc s')) (q1(In_ready := tl (q1 In_ready)))"
      by (rule switch_proc_ok [OF ib]) blast
    have "upd_proc ?c (\<lambda>c. c\<lparr>blocking_queue_name := DEVICE\<rparr>) (block_cur (ret_cur v s1)) = ?b"
      by (simp add: block_cur_def cr upd_proc_def)
    moreover have "ret (cur (ret_cur v s1)) = v" by (simp add: ret_cur_def)
    moreover have "dispatch_syscall_read s = (let s2 = ret_cur v s1 in if ret (cur s2) = BLOCKERR
        then switch_proc (upd_proc (currproc s2) (\<lambda>c. c\<lparr>blocking_queue_name := DEVICE\<rparr>) (block_cur s2)) else Some s2)"
      using r True s1(1) by (simp add: dispatch_syscall_read_def store_ret_def Let_def)
    ultimately have "dispatch_syscall_read s = (if v = BLOCKERR then Some s' else Some (ret_cur v s1))"
      using s'(1) by (simp only: Let_def cr)
    then show ?thesis using s'(2) i2 cr by (cases "v = BLOCKERR") auto
  qed
qed

lemma store_ret_ok:
  assumes "f s = Some (v, s1)" and "kinvx X s1 (Some (currproc s)) qs" and "currproc s1 = currproc s"
  shows "\<exists>s' qs'. store_ret f s = Some s' \<and> kinvx X s' (Some (currproc s')) qs'"
  using assms getpid_ok [of X s1 qs v] by (auto simp: store_ret_def ret_cur_def)

lemma write_handler_ok:
  assumes inv: "kinv s (Some (currproc s)) qs" and c: "valid (currproc s)"
    and l: "0 < sint (carg 2 s)" "sint (carg 2 s) < KERNEL_STACK" and b: "carg 1 s \<noteq> 0"
  shows "\<exists>s' qs'. dispatch_syscall_write s = Some s' \<and> kinv s' (Some (currproc s')) qs'"
proof -
  obtain r where r: "verify_usrptr (carg 1 s) (sint (carg 2 s)) s = Some r" using verify_usrptr_total [OF l] by blast
  let ?s1 = "if r \<noteq> OK then ret_cur SYSERR s else s"
  have i1: "kinv ?s1 (Some (currproc s)) qs" and cc: "currproc ?s1 = currproc s"
    using inv getpid_ok [OF inv] by (auto simp: ret_cur_def)
  obtain v where v: "di_write (currproc s) (sint (carg 0 s)) (carg 1 s) (sint (carg 2 s)) ?s1 = Some (v, ?s1)"
    by (rule di_write_ok [OF i1 c b])
  then show ?thesis
    using r i1 cc store_ret_ok [of "di_write (currproc s) (sint (carg 0 s)) (carg 1 s) (sint (carg 2 s))" ?s1 v ?s1 "{}" qs]
    by (simp add: dispatch_syscall_write_def Let_def)
qed

lemma open_handler_ok:
  assumes inv: "kinv s (Some (currproc s)) qs" and c: "valid (currproc s)"
  shows "\<exists>s' qs'. dispatch_syscall_open s = Some s' \<and> kinv s' (Some (currproc s')) qs'"
proof -
  obtain v s1 where "di_open (currproc s) (sint (carg 0 s)) s = Some (v, s1)" "kinv s1 (Some (currproc s)) qs" "currproc s1 = currproc s"
  proof -
    have ns: "curr_state (procs s (currproc s)) \<noteq> PROC_STATE_STOPPED" using running_facts(2) [OF inv] by simp
    show ?thesis
      by (rule di_open_ok [OF inv c ns, of "sint (carg 0 s)"]) (blast intro: that inv refl)+
  qed
  then show ?thesis unfolding dispatch_syscall_open_def by (rule store_ret_ok)
qed

lemma close_handler_ok:
  assumes inv: "kinv s (Some (currproc s)) qs" and c: "valid (currproc s)"
  shows "\<exists>s' qs'. dispatch_syscall_close s = Some s' \<and> kinv s' (Some (currproc s')) qs'"
proof -
  obtain v s1 where "di_close (currproc s) (sint (carg 0 s)) s = Some (v, s1)" "kinv s1 (Some (currproc s)) qs" "currproc s1 = currproc s"
    using di_close_ok [OF inv c, of "sint (carg 0 s)"] inv by blast
  then show ?thesis unfolding dispatch_syscall_close_def by (rule store_ret_ok)
qed

lemma ioctl_handler_ok:
  assumes inv: "kinv s (Some (currproc s)) qs" and c: "valid (currproc s)"
  shows "\<exists>s' qs'. dispatch_syscall_ioctl s = Some s' \<and> kinv s' (Some (currproc s')) qs'"
proof -
  obtain v s1 where "di_ioctl (currproc s) (sint (carg 0 s)) (carg 1 s) (carg 2 s) s = Some (v, s1)"
    "kinv s1 (Some (currproc s)) qs" "currproc s1 = currproc s"
    by (rule di_ioctl_ok [OF inv c])
  then show ?thesis unfolding dispatch_syscall_ioctl_def by (rule store_ret_ok)
qed

lemma sighandler_ok:
  assumes inv: "kinv s (Some (currproc s)) qs"
  shows "\<exists>s' qs'. store_ret dispatch_syscall_sighandler s = Some s' \<and> kinv s' (Some (currproc s')) qs'"
proof -
  let ?sig = "sint (carg 0 s)" and ?n = "carg 1 s" and ?o = "carg 2 s"
  obtain rn where rn: "verify_usrptr ?n 4 s = Some rn" using verify_usrptr_total [of 4 ?n s] by (auto simp: KERNEL_STACK_def)
  obtain ro where ro: "verify_usrptr ?o 4 s = Some ro" using verify_usrptr_total [of 4 ?o s] by (auto simp: KERNEL_STACK_def)
  have "\<exists>v s1. dispatch_syscall_sighandler s = Some (v, s1) \<and> kinv s1 (Some (currproc s)) qs \<and> currproc s1 = currproc s"
    using rn ro inv by (auto simp: dispatch_syscall_sighandler_def Let_def)
  then show ?thesis using store_ret_ok by blast
qed

lemma puts_ok:
  assumes inv: "kinv s (Some (currproc s)) qs" and f: "doprnt (ram s) (carg 0 s) (stack_junk (image s)) [] \<noteq> None"
  shows "\<exists>s' qs'. dispatch_syscall_puts s = Some s' \<and> kinv s' (Some (currproc s')) qs'"
proof -
  obtain r where "verify_usrstr (carg 0 s) s = Some r" using verify_usrstr_ends by blast
  moreover obtain cs where "doprnt (ram s) (carg 0 s) (stack_junk (image s)) [] = Some cs" using f by blast
  ultimately have "dispatch_syscall_puts s = Some (if r = OK then put_chars cs s else s)"
    by (simp add: dispatch_syscall_puts_def kprintf_user_def)
  moreover have "kinv (if r = OK then put_chars cs s else s) (Some (currproc s)) qs" using inv by simp
  moreover have "currproc (if r = OK then put_chars cs s else s) = currproc s" by (simp add: put_chars_def)
  ultimately show ?thesis by metis
qed

subsection \<open>Process information\<close>

text \<open>The processes that are not stopped, and how many there are.\<close>

definition live_slots :: "kernel \<Rightarrow> nat \<Rightarrow> nat set" where
  "live_slots s n = {i. i < n \<and> curr_state (procs s (Table i)) \<noteq> PROC_STATE_STOPPED}"

lemma live_slots_Suc:
  "card (live_slots s (Suc n)) =
     card (live_slots s n) + (if curr_state (procs s (Table n)) \<noteq> PROC_STATE_STOPPED then 1 else 0)"
proof -
  have "live_slots s (Suc n) = (if curr_state (procs s (Table n)) \<noteq> PROC_STATE_STOPPED
      then insert n (live_slots s n) else live_slots s n)"
    by (auto simp: live_slots_def less_Suc_eq)
  moreover have "finite (live_slots s n)" "n \<notin> live_slots s n" by (auto simp: live_slots_def)
  ultimately show ?thesis by simp
qed

lemma fill_proc_info_ok: "ps \<noteq> 0 \<Longrightarrow> slot < PCB_TABLE_SIZE \<Longrightarrow> \<exists>m. fill_proc_info ps slot p s = Some (s\<lparr>ram := m\<rparr>)"
  by (auto simp: fill_proc_info_def write32_def Let_def)

lemma get_all_proc_info_ok:
  assumes ps: "ps \<noteq> 0" and n: "card (live_slots s PCB_TABLE_SIZE) < PCB_TABLE_SIZE"
  shows "\<exists>m. get_all_proc_info ps s = Some (int (card (live_slots s PCB_TABLE_SIZE)), s\<lparr>ram := m\<rparr>)"
proof -
  let ?f = "\<lambda>i (slot, s). if curr_state (procs s (Table i)) \<noteq> PROC_STATE_STOPPED
     then map_option (\<lambda>s. (slot + 1, s)) (fill_proc_info ps (slot + 1) (Table i) s) else Some (slot, s)"
  obtain m0 where m0: "fill_proc_info ps 0 get_idleproc s = Some (s\<lparr>ram := m0\<rparr>)"
    using fill_proc_info_ok [OF ps, of 0 get_idleproc s] by (auto simp: PCB_TABLE_SIZE_def)
  have "\<exists>m. for_each ?f [0..<k] (0, s\<lparr>ram := m0\<rparr>) = Some (card (live_slots s k), s\<lparr>ram := m\<rparr>)"
    if "card (live_slots s k) < PCB_TABLE_SIZE" for k
    using that
  proof (induction k)
    case 0
    then show ?case by (auto simp: live_slots_def)
  next
    case (Suc k)
    then obtain m where m: "for_each ?f [0..<k] (0, s\<lparr>ram := m0\<rparr>) = Some (card (live_slots s k), s\<lparr>ram := m\<rparr>)"
      by (auto simp: live_slots_Suc split: if_splits)
    show ?case
    proof (cases "curr_state (procs s (Table k)) = PROC_STATE_STOPPED")
      case False
      then obtain m' where "fill_proc_info ps (card (live_slots s k) + 1) (Table k) (s\<lparr>ram := m\<rparr>) = Some (s\<lparr>ram := m'\<rparr>)"
        using fill_proc_info_ok [OF ps, of "card (live_slots s k) + 1" "Table k" "s\<lparr>ram := m\<rparr>"] Suc.prems by (auto simp: live_slots_Suc)
      then show ?thesis using m False by (auto simp: live_slots_Suc)
    qed (use m in \<open>auto simp: live_slots_Suc\<close>)
  qed
  from this [OF n] show ?thesis using ps m0 by (auto simp: get_all_proc_info_def)
qed

lemma getcputimes_ok:
  assumes inv: "kinv s (Some (currproc s)) qs" and n: "card (live_slots s PCB_TABLE_SIZE) < PCB_TABLE_SIZE"
  shows "\<exists>s' qs'. store_ret dispatch_syscall_getcputimes s = Some s' \<and> kinv s' (Some (currproc s')) qs'"
proof -
  obtain r where r: "verify_usrptr (carg 0 s) sizeof_processStatuses s = Some r" "r = OK \<or> r = EINVAL" "r = OK \<Longrightarrow> carg 0 s \<noteq> 0"
    by (rule verify_usrptr_total [of sizeof_processStatuses "carg 0 s" s]) (simp_all add: KERNEL_STACK_def sizeof_processStatuses_def)
  have "\<exists>v s1. dispatch_syscall_getcputimes s = Some (v, s1) \<and> kinv s1 (Some (currproc s)) qs \<and> currproc s1 = currproc s"
  proof (cases "r = OK")
    case True
    then obtain m where "get_all_proc_info (carg 0 s) s = Some (int (card (live_slots s PCB_TABLE_SIZE)), s\<lparr>ram := m\<rparr>)"
      using get_all_proc_info_ok [OF _ n] r(3) by blast
    then show ?thesis using r(1) True inv by (simp add: dispatch_syscall_getcputimes_def)
  qed (use r(1) inv in \<open>simp add: dispatch_syscall_getcputimes_def\<close>)
  then show ?thesis using store_ret_ok by blast
qed

text \<open>The last number of the last slot stops \<open>create\<close>; below it every outcome keeps the invariant.\<close>

definition pids_left :: "kernel \<Rightarrow> bool" where
  "pids_left s \<longleftrightarrow> (case queue_heads s PROC_STATE_STOPPED of None \<Rightarrow> True | Some p \<Rightarrow> 1 \<le> next_pid (pid (procs s p)))"

lemma create_handler_ok:
  assumes inv: "kinv s (Some (currproc s)) qs" and n: "pids_left s"
  shows "\<exists>s' qs'. store_ret dispatch_syscall_create s = Some s' \<and> kinv s' (Some (currproc s')) qs'"
proof -
  obtain r where r: "verify_usrptr (carg 0 s) 4 s = Some r" using verify_usrptr_total [of 4 "carg 0 s" s] by (auto simp: KERNEL_STACK_def)
  have n': "\<And>p. queue_heads s PROC_STATE_STOPPED = Some p \<Longrightarrow> 1 \<le> next_pid (pid (procs s p))" using n by (simp add: pids_left_def)
  obtain v s1 q1 where "create (carg 0 s) (sint (carg 1 s)) s = Some (v, s1)" "kinv s1 (Some (currproc s)) q1" "currproc s1 = currproc s"
    by (rule create_ok [OF inv n', of "carg 0 s" "sint (carg 1 s)"]) blast
  then have "\<exists>v s1 q. dispatch_syscall_create s = Some (v, s1) \<and> kinv s1 (Some (currproc s)) q \<and> currproc s1 = currproc s"
    using r inv by (cases "r = OK") (auto simp: dispatch_syscall_create_def Let_def)
  then show ?thesis using store_ret_ok by blast
qed

end
