(* ===== verification/Kernel_Step.thy ===== *)
theory Kernel_Step
  imports Handlers_Dev
begin

text \<open>
  One pass of the dispatcher's loop, whole: the context switch with its signal delivery, the
  request the process makes, and its handler. \<open>request_ok\<close> collects the conditions under which the
  C code does not run into one of its assertions; under them a pass ends in a state where the
  kernel's invariant holds again, so that every reachable state satisfies it.
\<close>

subsection \<open>The signal that is delivered\<close>

lemma FLAG_BIT_CHECK_bit: "n < 32 \<Longrightarrow> FLAG_BIT_CHECK w n \<noteq> 0 \<longleftrightarrow> bit w n"
  by (simp add: FLAG_BIT_CHECK_def one_and_eq bit_iff_odd_drop_bit even_iff_mod_2_eq_zero)

lemma highest_signal_Some:
  assumes "n < 32"
  shows "highest_signal w n = Some k \<longleftrightarrow> k \<le> n \<and> bit w k \<and> (\<forall>j. k < j \<and> j \<le> n \<longrightarrow> \<not> bit w j)"
  using assms
proof (induction n)
  case 0
  then show ?case using FLAG_BIT_CHECK_bit [of 0 w] by auto
next
  case (Suc n)
  have c: "FLAG_BIT_CHECK w (Suc n) \<noteq> 0 \<longleftrightarrow> bit w (Suc n)" using FLAG_BIT_CHECK_bit Suc.prems by blast
  show ?case
  proof (cases "bit w (Suc n)")
    case True
    then show ?thesis using c by (auto simp: not_less_eq_eq [symmetric]) (metis le_antisym not_less_eq_eq less_or_eq_imp_le linorder_le_less_linear)
  next
    case False
    then show ?thesis using c Suc by (auto simp: le_Suc_eq)
  qed
qed

lemma highest_signal_exists: "w \<noteq> (0 :: u32) \<Longrightarrow> \<exists>k. highest_signal w 31 = Some k"
proof -
  assume "w \<noteq> 0"
  then obtain j where j: "bit w j" by (metis bit_eqI bit_0_eq bot_apply bot_bool_def)
  then have "j \<le> 31" using bit_imp_le_length [OF j] by simp
  let ?S = "{j. j \<le> 31 \<and> bit w j}"
  have S: "finite ?S" "?S \<noteq> {}" using j \<open>j \<le> 31\<close> by auto
  obtain k where k: "k = Max ?S" by blast
  have "k \<in> ?S" unfolding k by (rule Max_in [OF S])
  moreover have "\<not> bit w i" if "k < i" "i \<le> 31" for i
  proof
    assume "bit w i"
    then have "i \<le> k" unfolding k using that(2) by (intro Max_ge [OF S(1)]) simp
    then show False using that(1) by simp
  qed
  ultimately have "highest_signal w 31 = Some k" using highest_signal_Some [of 31 w k] by simp
  then show ?thesis by blast
qed

text \<open>Delivery changes the context of the process and memory only.\<close>

lemma setup_context_frame_simps [simp]:
  "procs (setup_context_frame cf f s) = procs s" "currproc (setup_context_frame cf f s) = currproc s"
  "kinvx X (setup_context_frame cf f s) r qs = kinvx X s r qs"
proof -
  obtain m where "setup_context_frame cf f s = s\<lparr>ram := m\<rparr>" using setup_context_frame_ram by blast
  then show "procs (setup_context_frame cf f s) = procs s" "currproc (setup_context_frame cf f s) = currproc s"
    "kinvx X (setup_context_frame cf f s) r qs = kinvx X s r qs" by simp_all
qed

lemma signal_ok:
  assumes inv: "kinvx X s r qs"
  shows "kinvx X (snd (signal n sig s)) r qs \<and> currproc (snd (signal n sig s)) = currproc s"
proof (cases "pid_to_proc n s")
  case None
  then show ?thesis using inv by (simp add: signal_def)
next
  case (Some p)
  show ?thesis
  proof (cases "sig < 0 \<or> sig \<ge> int SIGNAL_TABLE_SIZE")
    case True
    then show ?thesis using inv Some by (simp add: signal_def)
  next
    case False
    have i1: "kinvx X (upd_proc p (\<lambda>c. c\<lparr>signals_enabled := 0\<rparr>) s) r qs" by (rule kinv_upd [OF inv]) auto
    have e: "kinvx X (upd_proc p (\<lambda>c. c\<lparr>esp := e\<rparr>) t) r qs" if "kinvx X t r qs" for e t by (rule kinv_upd [OF that]) auto
    show ?thesis using Some False i1 by (simp add: signal_def Let_def e)
  qed
qed

lemma ctsw_enter_ok:
  assumes inv: "kinvx X s r qs"
  obtains s' where "ctsw_enter p s = Some s'" and "kinvx X s' r qs" and "currproc s' = currproc s"
proof (cases "signals_fired (procs s p) \<noteq> 0 \<and> signals_enabled (procs s p) \<noteq> 0")
  case False
  then show ?thesis by (intro that [of "write32 (esp (procs s p) + cf_eax) (word_of_int (ret (procs s p))) s"])
      (use inv in \<open>auto simp: ctsw_enter_def\<close>)
next
  case True
  obtain k where k: "highest_signal (signals_fired (procs s p)) 31 = Some k" using highest_signal_exists True by blast
  let ?s1 = "upd_proc p (\<lambda>c. c\<lparr>signals_fired := FLAG_BIT_CLEAR k (signals_fired c)\<rparr>) s"
  let ?s2 = "snd (signal (pid (procs s p)) (int k) ?s1)"
  have "kinvx X ?s1 r qs" by (rule kinv_upd [OF inv]) auto
  then have i2: "kinvx X ?s2 r qs" "currproc ?s2 = currproc s" using signal_ok [of X ?s1 r qs] by simp_all
  have "call_highest_priority_signal p s = Some ?s2"
    using True k by (simp add: call_highest_priority_signal_def SIGNAL_TABLE_SIZE_def)
  then have "ctsw_enter p s = Some (write32 (esp (procs ?s2 p) + cf_eax) (word_of_int (ret (procs ?s2 p))) ?s2)"
    using True by (simp add: ctsw_enter_def)
  then show ?thesis by (rule that) (use i2 in simp_all)
qed

lemma ctsw_return_ok:
  assumes inv: "kinvx X s (Some p) qs" and e: "ev_reason ev \<in> {CTSW_SYSCALL, CTSW_TIMER, CTSW_KEYBOARD}"
  obtains n s' where "ctsw_return ev p s = Some (n, s')" and "kinvx X s' (Some p) qs" and "currproc s' = currproc s"
    and "ev_reason ev = CTSW_TIMER \<Longrightarrow> n = 0" and "ev_reason ev = CTSW_KEYBOARD \<Longrightarrow> n = 1"
proof -
  let ?e = "interrupt_entry (ev_regs ev) (ev_ram ev)"
  let ?s1 = "s\<lparr>ram := snd ?e, io := (io s)\<lparr>ports := (ports (io s))
    (KEYBOARD_PORT_DATA := ev_kbd_data ev, KEYBOARD_PORT_CONTROL := ev_kbd_status ev)\<rparr>\<rparr>"
  let ?s2 = "upd_proc p (\<lambda>c. c\<lparr>esp := fst ?e\<rparr>) ?s1"
  let ?s3 = "set_ret p (sint (read32 (fst ?e + cf_eax) ?s2)) ?s2"
  have i2: "kinvx X ?s2 (Some p) qs" by (rule kinv_upd) (use inv in auto)
  define s3 where "s3 = ?s3"
  have i3: "kinvx X s3 (Some p) qs" unfolding s3_def by (rule kinv_set_ret [OF i2]) (rule running_facts(4) [OF inv])
  have c3: "currproc s3 = currproc s" by (simp add: s3_def)
  have ar: "kinvx X (upd_proc p (\<lambda>c. c\<lparr>args := a\<rparr>) s3) (Some p) qs" for a
    by (rule kinv_upd [OF i3]) auto
  have un: "ctsw_return ev p s = (if ev_reason ev = CTSW_SYSCALL
        then Some (read32 (fst ?e + cf_syscallargs) s3, upd_proc p (\<lambda>c. c\<lparr>args := fst ?e + cf_syscallargs + 4\<rparr>) s3)
      else if ev_reason ev = CTSW_TIMER then Some (0, upd_proc p (\<lambda>c. c\<lparr>args := 0xDEADBEEF\<rparr>) s3)
      else if ev_reason ev = CTSW_KEYBOARD then Some (1, upd_proc p (\<lambda>c. c\<lparr>args := 0xCAFEBABE\<rparr>) s3) else None)"
    by (simp add: ctsw_return_def case_prod_beta Let_def s3_def)
  have d: "CTSW_TIMER \<noteq> CTSW_SYSCALL" "CTSW_KEYBOARD \<noteq> CTSW_SYSCALL" "CTSW_KEYBOARD \<noteq> CTSW_TIMER"
    by (simp_all add: CTSW_SYSCALL_def CTSW_TIMER_def CTSW_KEYBOARD_def)
  consider "ev_reason ev = CTSW_SYSCALL" | "ev_reason ev = CTSW_TIMER" | "ev_reason ev = CTSW_KEYBOARD" using e by blast
  then show ?thesis
  proof cases
    case 1
    then show ?thesis
      using un d ar c3 by (intro that [of "read32 (fst ?e + cf_syscallargs) s3" "upd_proc p (\<lambda>c. c\<lparr>args := fst ?e + cf_syscallargs + 4\<rparr>) s3"]) simp_all
  next
    case 2
    then show ?thesis
      using un d ar c3 by (intro that [of 0 "upd_proc p (\<lambda>c. c\<lparr>args := 0xDEADBEEF\<rparr>) s3"]) simp_all
  next
    case 3
    then show ?thesis
      using un d ar c3 by (intro that [of 1 "upd_proc p (\<lambda>c. c\<lparr>args := 0xCAFEBABE\<rparr>) s3"]) simp_all
  qed
qed

subsection \<open>What a process may ask for\<close>

text \<open>
  The conditions under which the handlers do not assert: only processes of the table make system
  calls; lengths are in the range the pointer check accepts; a buffer to write is not null; a free
  process number is left; fewer than 32 processes live when their times are asked for; a string to
  print makes \<open>doprnt\<close> return; and a blocked process with a waiting keyboard task is blocked there.
\<close>

definition request_ok :: "syscall_request_id \<Rightarrow> kernel \<Rightarrow> bool" where
  "request_ok rq s \<longleftrightarrow> (case rq of
       TIMER_INT \<Rightarrow> True
     | KEYBOARD_INT \<Rightarrow> waiting_ok s
     | SYSCALL_CREATE \<Rightarrow> pids_left s
     | SYSCALL_YIELD \<Rightarrow> True
     | SYSCALL_STOP \<Rightarrow> valid (currproc s)
     | SYSCALL_GETPID \<Rightarrow> True
     | SYSCALL_KILL \<Rightarrow> True
     | SYSCALL_WAIT \<Rightarrow> valid (currproc s)
     | SYSCALL_PUTS \<Rightarrow> doprnt (ram s) (carg 0 s) (stack_junk (image s)) [] \<noteq> None
     | SYSCALL_SEND \<Rightarrow> valid (currproc s) \<and> len_ok (carg 2 s)
     | SYSCALL_RECV \<Rightarrow> valid (currproc s) \<and> len_ok (carg 2 s)
     | SYSCALL_SLEEP \<Rightarrow> valid (currproc s)
     | SYSCALL_CPUTIMES \<Rightarrow> card (live_slots s PCB_TABLE_SIZE) < PCB_TABLE_SIZE
     | SYSCALL_SIGHANDLER \<Rightarrow> True
     | SYSCALL_SIGRETURN \<Rightarrow> valid (currproc s)
     | SYSCALL_OPEN \<Rightarrow> valid (currproc s)
     | SYSCALL_CLOSE \<Rightarrow> valid (currproc s)
     | SYSCALL_WRITE \<Rightarrow> valid (currproc s) \<and> carg 1 s \<noteq> 0 \<and> 0 < sint (carg 2 s) \<and> sint (carg 2 s) < KERNEL_STACK
     | SYSCALL_READ \<Rightarrow> valid (currproc s) \<and> waiting_ok s \<and> 0 < sint (carg 2 s) \<and> sint (carg 2 s) < KERNEL_STACK
     | SYSCALL_IOCTL \<Rightarrow> valid (currproc s))"

lemma handle_request_ok:
  assumes ok: "kernel_ok s" and rq: "request_ok rq s"
  shows "\<exists>s'. handle_request rq s = Some s' \<and> kernel_ok s'"
proof -
  obtain qs where inv: "kinv s (Some (currproc s)) qs" using ok by (auto simp: kernel_ok_def)
  note simps = handle_request_def request_ok_def
  have "\<exists>s' qs'. handle_request rq s = Some s' \<and> kinv s' (Some (currproc s')) qs'"
  proof (cases rq)
    case TIMER_INT
    then have eq: "handle_request rq s = timer_handler s" by (simp add: simps)
    show ?thesis unfolding eq by (rule timer_ok [OF inv]) blast
  next
    case KEYBOARD_INT
    then show ?thesis using keyboard_handler_ok [OF inv] rq by (simp add: simps)
  next
    case SYSCALL_CREATE
    then show ?thesis using create_handler_ok [OF inv] rq by (simp add: simps)
  next
    case SYSCALL_YIELD
    then have eq: "handle_request rq s = dispatch_syscall_yield s" by (simp add: simps)
    show ?thesis unfolding eq by (rule yield_ok [OF inv]) blast
  next
    case SYSCALL_STOP
    then have eq: "handle_request rq s = dispatch_syscall_stop s" by (simp add: simps)
    have c: "valid (currproc s)" using rq SYSCALL_STOP by (simp add: simps)
    show ?thesis unfolding eq by (rule stop_ok [OF inv c]) blast
  next
    case SYSCALL_GETPID
    then show ?thesis using getpid_ok [OF inv, of "pid (cur s)"]
      by (intro exI [of _ "ret_cur (pid (cur s)) s"] exI [of _ qs]) (simp add: simps ret_cur_def)
  next
    case SYSCALL_KILL
    then have eq: "handle_request rq s = store_ret dispatch_syscall_kill s" by (simp add: simps)
    show ?thesis unfolding eq by (rule kill_ok [OF inv]) blast
  next
    case SYSCALL_WAIT
    then have c: "valid (currproc s)" using rq by (simp add: simps)
    show ?thesis
    proof (cases "pid_to_proc (sint (carg 0 s)) s")
      case None
      then show ?thesis using SYSCALL_WAIT wait_ok [OF inv c]
        by (intro exI [of _ "ret_cur SYSPID_DNE s"] exI [of _ qs]) (simp add: simps ret_cur_def)
    next
      case (Some w)
      then show ?thesis using SYSCALL_WAIT wait_ok [OF inv c] by (simp add: simps) blast
    qed
  next
    case SYSCALL_PUTS
    then show ?thesis using puts_ok [OF inv] rq by (simp add: simps)
  next
    case SYSCALL_SEND
    then show ?thesis using send_handler_ok [OF inv] rq by (simp add: simps)
  next
    case SYSCALL_RECV
    then show ?thesis using recv_handler_ok [OF inv] rq by (simp add: simps)
  next
    case SYSCALL_SLEEP
    then have c: "valid (currproc s)" using rq by (simp add: simps)
    show ?thesis
    proof (cases "carg 0 s = 0")
      case True
      then show ?thesis using inv SYSCALL_SLEEP
        by (intro exI [of _ s] exI [of _ qs]) (simp add: simps dispatch_syscall_sleep_def)
    next
      case False
      then have t: "0 < carg 0 s" by (simp add: word_gt_0)
      have eq: "handle_request rq s = dispatch_syscall_sleep s" using SYSCALL_SLEEP by (simp add: simps)
      show ?thesis unfolding eq by (rule sleep_handler_ok [OF inv c t]) blast
    qed
  next
    case SYSCALL_CPUTIMES
    then show ?thesis using getcputimes_ok [OF inv] rq by (simp add: simps)
  next
    case SYSCALL_SIGHANDLER
    then show ?thesis using sighandler_ok [OF inv] by (simp add: simps)
  next
    case SYSCALL_SIGRETURN
    then have eq: "handle_request rq s = dispatch_syscall_sigreturn s" by (simp add: simps)
    have c: "valid (currproc s)" using rq SYSCALL_SIGRETURN by (simp add: simps)
    show ?thesis unfolding eq by (rule sigreturn_ok [OF inv c]) blast
  next
    case SYSCALL_OPEN
    then show ?thesis using open_handler_ok [OF inv] rq by (simp add: simps)
  next
    case SYSCALL_CLOSE
    then show ?thesis using close_handler_ok [OF inv] rq by (simp add: simps)
  next
    case SYSCALL_WRITE
    then show ?thesis using write_handler_ok [OF inv] rq by (simp add: simps)
  next
    case SYSCALL_READ
    then show ?thesis using read_handler_ok [OF inv] rq by (simp add: simps)
  next
    case SYSCALL_IOCTL
    then show ?thesis using ioctl_handler_ok [OF inv] rq by (simp add: simps)
  qed
  then show ?thesis by (auto simp: kernel_ok_def)
qed

text \<open>The number a process passes is one of the dispatcher's, and the request is served.\<close>

definition event_ok :: "user_event \<Rightarrow> kernel \<Rightarrow> bool" where
  "event_ok ev s \<longleftrightarrow> ev_reason ev \<in> {CTSW_SYSCALL, CTSW_TIMER, CTSW_KEYBOARD} \<and>
     (case ctsw_contextswitch ev (currproc s) s of
        None \<Rightarrow> True
      | Some (n, s1) \<Rightarrow> (case request_of_num n of None \<Rightarrow> False | Some rq \<Rightarrow> request_ok rq s1))"

lemma ctsw_ok:
  assumes ok: "kernel_ok s" and e: "ev_reason ev \<in> {CTSW_SYSCALL, CTSW_TIMER, CTSW_KEYBOARD}"
  obtains n s1 where "ctsw_contextswitch ev (currproc s) s = Some (n, s1)" and "kernel_ok s1" and "currproc s1 = currproc s"
    and "ev_reason ev = CTSW_TIMER \<Longrightarrow> n = 0" and "ev_reason ev = CTSW_KEYBOARD \<Longrightarrow> n = 1"
proof -
  obtain qs where inv: "kinv s (Some (currproc s)) qs" using ok by (auto simp: kernel_ok_def)
  obtain s0 where s0: "ctsw_enter (currproc s) s = Some s0" "kinv s0 (Some (currproc s)) qs" "currproc s0 = currproc s"
    by (rule ctsw_enter_ok [OF inv])
  obtain n s1 where s1: "ctsw_return ev (currproc s) s0 = Some (n, s1)" "kinv s1 (Some (currproc s)) qs" "currproc s1 = currproc s0"
    "ev_reason ev = CTSW_TIMER \<Longrightarrow> n = 0" "ev_reason ev = CTSW_KEYBOARD \<Longrightarrow> n = 1"
    by (rule ctsw_return_ok [OF s0(2) e], rule that)
  show ?thesis
    by (rule that [of n s1]) (use s0 s1 in \<open>auto simp: ctsw_contextswitch_def kernel_ok_def\<close>)
qed

lemma dispatch_step_ok:
  assumes ok: "kernel_ok s" and ev: "event_ok ev s"
  shows "\<exists>s'. dispatch_step ev s = Some s' \<and> kernel_ok s'"
proof -
  have e: "ev_reason ev \<in> {CTSW_SYSCALL, CTSW_TIMER, CTSW_KEYBOARD}" using ev by (simp add: event_ok_def)
  obtain n s1 where s1: "ctsw_contextswitch ev (currproc s) s = Some (n, s1)" "kernel_ok s1"
    by (rule ctsw_ok [OF ok e])
  then obtain rq where rq: "request_of_num n = Some rq" "request_ok rq s1"
    using ev by (auto simp: event_ok_def split: option.splits)
  obtain s' where "handle_request rq s1 = Some s'" "kernel_ok s'" using handle_request_ok [OF s1(2) rq(2)] by blast
  then show ?thesis using s1(1) rq(1) by (simp add: dispatch_step_def)
qed

end
