(* ===== verification/Boot_Facts.thy ===== *)
theory Boot_Facts
  imports Kernel_Step Samples
begin

text \<open>
  The initialisation of the kernel (c/init.c) ends in the dispatcher's loop with the first process
  running and the invariant established, whatever memory holds at power-on, if the kernel image
  leaves room for its first allocations below the hole at 640 kB.
\<close>

subsection \<open>Allocations from a fresh heap\<close>

text \<open>The first region serves a request from its lower end.\<close>

lemma front_malloc:
  assumes inv: "heap_inv h xs A" and b: "blocks h xs = (a, k) # bl" and k: "alloc_bytes n < k"
    and n: "0 < n" "n < maxaddr h" and max: "unat (maxaddr h) < 2 ^ 31"
  obtains p h' xs' A' where "kmalloc n h = Some (p, h')" and "p \<noteq> 0" and "heap_inv h' xs' A'"
    and "blocks h' xs' = (a + alloc_bytes n, k - alloc_bytes n) # bl" and "maxaddr h' = maxaddr h"
proof -
  have "first_fit (alloc_bytes n) (blocks h xs) = Some (a, (a + alloc_bytes n, k - alloc_bytes n) # bl)"
    using b k by simp
  then obtain h' xs' c where c: "kmalloc n h = Some (data_start c, h')" "heap_inv h' xs' (insert c A)"
    "blocks h' xs' = (a + alloc_bytes n, k - alloc_bytes n) # bl" "maxaddr h' = maxaddr h"
    using kmalloc_first_fit [OF inv n max] by auto
  have "data_start c \<noteq> 0" using data_start_alloc(2) [OF c(2)] c(4) max by simp
  then show ?thesis using that c by blast
qed

text \<open>A heap whose first region has \<open>k\<close> bytes left, and the five requests of the boot sequence.\<close>

definition roomy :: "nat \<Rightarrow> mem_state \<Rightarrow> bool" where
  "roomy k h \<longleftrightarrow> (\<exists>xs A a bl j. heap_inv h xs A \<and> blocks h xs = (a, j) # bl \<and> k \<le> j \<and>
     1600 * 1024 < unat (maxaddr h) \<and> unat (maxaddr h) < 2 ^ 31)"

lemma roomy_live: "roomy k h \<Longrightarrow> \<exists>L. heap_live h L"
  by (auto simp: roomy_def heap_live_def)

lemma roomy_malloc:
  assumes r: "roomy k h" and n: "alloc_bytes n < k" "0 < n" "unat n \<le> 1600 * 1024"
  obtains p h' where "kmalloc n h = Some (p, h')" and "p \<noteq> 0" and "roomy (k - alloc_bytes n) h'"
proof -
  obtain xs A a bl j where h: "heap_inv h xs A" "blocks h xs = (a, j) # bl" "k \<le> j"
    "1600 * 1024 < unat (maxaddr h)" "unat (maxaddr h) < 2 ^ 31" using r by (auto simp: roomy_def)
  obtain p h' xs' A' where "kmalloc n h = Some (p, h')" "p \<noteq> 0" "heap_inv h' xs' A'"
    "blocks h' xs' = (a + alloc_bytes n, j - alloc_bytes n) # bl" "maxaddr h' = maxaddr h"
    by (rule front_malloc [OF h(1,2) _ n(2) _ h(5)]) (use n h in \<open>auto simp: word_less_nat_alt\<close>)
  moreover from this have "roomy (k - alloc_bytes n) h'" using h(3-5) unfolding roomy_def by (metis diff_le_mono)
  ultimately show ?thesis using that by blast
qed

text \<open>Room for \<open>k\<close> bytes below the hole.\<close>

definition boot_room :: "nat \<Rightarrow> mem_state \<Rightarrow> bool" where
  "boot_room k h \<longleftrightarrow> boot_layout h \<and> freemem h + int k + 16 \<le> HOLESTART"

lemma kmeminit_roomy:
  assumes "boot_room k h"
  obtains h' where "kmeminit h = Some h'" and "roomy k h'"
proof -
  have b: "boot_layout h" using assms by (simp add: boot_room_def)
  obtain h' where h': "kmeminit h = Some h'" "heap_inv h' [mem_start h, word_of_int HOLEEND] {}"
    "blocks h' [mem_start h, word_of_int HOLEEND] =
      [(unat (mem_start h), nat HOLESTART - unat (mem_start h)), (nat HOLEEND, unat (maxaddr h) - nat HOLEEND)]"
    "maxaddr h' = maxaddr h"
    by (rule kmeminit_inv [OF b])
  have f: "0 < freemem h" "freemem h + int k + 16 \<le> 655360" using assms by (simp_all add: boot_room_def boot_layout_def HOLESTART_def)
  then have u: "unat (word_of_int (freemem h) :: u32) = nat (freemem h)" by (simp add: unsigned_of_int take_bit_int_eq_self)
  then have "unat (word_of_int (freemem h) :: u32) < 2 ^ 31" using f by simp
  then have "unat (mem_start h) = (nat (freemem h) + 15) div 16 * 16"
    using round_to_paragraph_unat [of "word_of_int (freemem h)"] u by simp
  then have "unat (mem_start h) \<le> nat (freemem h) + 15" by simp
  then have k: "k \<le> nat HOLESTART - unat (mem_start h)" using f by (simp add: HOLESTART_def)
  have "1600 * 1024 < unat (maxaddr h')" "unat (maxaddr h') < 2 ^ 31" using b h'(4) by (simp_all add: boot_layout_def HOLEEND_def)
  then have "roomy k h'" unfolding roomy_def using h'(2,3) k by blast
  then show ?thesis using that h'(1) by blast
qed

subsection \<open>The process table\<close>

definition table_pcb :: "nat \<Rightarrow> pcb" where
  "table_pcb i = zero_pcb\<lparr>pid := int i + 1, curr_state := PROC_STATE_STOPPED\<rparr>"

text \<open>After \<open>k\<close> passes of the loop the first \<open>k\<close> entries are in the stopped queue.\<close>

definition first_stopped :: "nat \<Rightarrow> place \<Rightarrow> pcbref list" where
  "first_stopped k pl = (if pl = In_stopped then map Table [0..<k] else [])"

definition table_filled :: "nat \<Rightarrow> kernel \<Rightarrow> kernel \<Rightarrow> bool" where
  "table_filled k s0 s \<longleftrightarrow> qinv s {p. \<exists>i. p = Table i \<and> k \<le> i} (first_stopped k) \<and>
     (\<forall>i<k. same_but_links (procs s (Table i)) (table_pcb i)) \<and>
     (\<forall>i\<ge>k. same_but_links (procs s (Table i)) zero_pcb) \<and>
     sleeping_list s = None \<and> same_rest s s0"

lemma zero_place: "place_of zero_pcb = Some In_ready"
  by (simp add: place_of_def zero_pcb_def)

lemma table_filled_0:
  assumes "procs s = (\<lambda>_. zero_pcb)" "queue_heads s PROC_STATE_READY = None" "queue_heads s PROC_STATE_STOPPED = None"
    "queue_tails s PROC_STATE_READY = None" "queue_tails s PROC_STATE_STOPPED = None" "sleeping_list s = None"
  shows "table_filled 0 s s"
proof -
  have h: "head_at s pl = None" "tail_at s pl = None" for pl
    using assms by (cases pl; simp add: zero_pcb_def)+
  have "chain_at s pl []" for pl by (simp add: chain_at_def h)
  moreover have "p \<in> {p. \<exists>i. p = Table i \<and> 0 \<le> i} \<or> \<not> valid p" for p by (auto simp: valid_def)
  ultimately have "qinv s {p. \<exists>i. p = Table i \<and> 0 \<le> i} (first_stopped 0)"
    unfolding qinv_def by (auto simp: first_stopped_def valid_def)
  then show ?thesis using assms by (simp add: table_filled_def)
qed

lemma table_step:
  assumes t: "table_filled k s0 s" and k: "k < PCB_TABLE_SIZE"
  shows "\<exists>s'. add_pcb_to_queue (Table k) PROC_STATE_STOPPED (upd_proc (Table k) (\<lambda>c. c\<lparr>pid := int k + 1\<rparr>) s) = Some s' \<and>
    table_filled (Suc k) s0 s'"
proof -
  let ?p = "Table k" and ?W = "{p. \<exists>i. p = Table i \<and> k \<le> i}"
  let ?s = "upd_proc ?p (\<lambda>c. c\<lparr>pid := int k + 1\<rparr>) s"
  have z: "pid (procs s ?p) = 0" "curr_state (procs s ?p) = PROC_STATE_READY"
    using t same_but_links_fields [of "procs s ?p" zero_pcb] by (simp_all add: table_filled_def zero_pcb_def)
  have q: "qinv ?s ?W (first_stopped k)" by (rule qinv_upd_proc) (use t in \<open>auto simp: table_filled_def\<close>)
  obtain s' where s': "add_pcb_to_queue ?p PROC_STATE_STOPPED ?s = Some s'"
    "qinv s' (?W - {?p}) ((first_stopped k)(state_place PROC_STATE_STOPPED := first_stopped k (state_place PROC_STATE_STOPPED) @ [?p]))"
    "\<And>r. same_but_links (procs s' r) (if r = ?p then (procs ?s ?p)\<lparr>curr_state := PROC_STATE_STOPPED\<rparr> else procs ?s r)"
    "same_rest s' ?s" "sleeping_list s' = sleeping_list ?s"
    by (rule add_pcb_to_queue_ok [OF q, of ?p PROC_STATE_STOPPED]) (use k z in \<open>auto simp: has_proc_queue_cases\<close>)
  have W: "?W - {?p} = {p. \<exists>i. p = Table i \<and> Suc k \<le> i}" by (auto simp: le_Suc_eq intro: le_neq_implies_less)
  have Q: "(first_stopped k)(state_place PROC_STATE_STOPPED := first_stopped k (state_place PROC_STATE_STOPPED) @ [?p]) = first_stopped (Suc k)"
    by (auto simp: first_stopped_def state_place_def fun_eq_iff)
  have "same_but_links (procs s ?p) zero_pcb" using t by (simp add: table_filled_def)
  then have "same_but_links ((procs s ?p)\<lparr>pid := int k + 1, curr_state := PROC_STATE_STOPPED\<rparr>) (table_pcb k)"
    by (cases "procs s ?p") (simp add: same_but_links_def table_pcb_def zero_pcb_def)
  then have "same_but_links (procs s' ?p) (table_pcb k)" using same_but_links_trans [OF s'(3) [of ?p]] by simp
  moreover have "same_but_links (procs s' r) (procs s r)" if "r \<noteq> ?p" for r using s'(3) [of r] that by simp
  ultimately have all: "same_but_links (procs s' (Table i)) (if i < Suc k then table_pcb i else zero_pcb)" for i
    using t same_but_links_trans [of "procs s' (Table i)" "procs s (Table i)"] unfolding table_filled_def
    by (cases "i = k") simp_all
  have "same_but_links (procs s' (Table i)) (table_pcb i)" if "i < Suc k" for i using all [of i] that by simp
  moreover have "same_but_links (procs s' (Table i)) zero_pcb" if "Suc k \<le> i" for i using all [of i] that by simp
  ultimately have "table_filled (Suc k) s0 s'"
    using s'(2,4,5) t same_rest_trans unfolding table_filled_def W Q by auto
  then show ?thesis using s'(1) by blast
qed

text \<open>The whole table, and the idle process with its stack.\<close>

lemma table_loop:
  assumes "table_filled 0 s s" and "k \<le> PCB_TABLE_SIZE"
  shows "\<exists>s'. for_each (\<lambda>i s. add_pcb_to_queue (Table i) PROC_STATE_STOPPED
      (upd_proc (Table i) (\<lambda>c. c\<lparr>pid := int i + 1\<rparr>) s)) [0..<k] s = Some s' \<and> table_filled k s s'"
  using assms(2)
proof (induction k)
  case (Suc k)
  then obtain s1 where "for_each (\<lambda>i s. add_pcb_to_queue (Table i) PROC_STATE_STOPPED
      (upd_proc (Table i) (\<lambda>c. c\<lparr>pid := int i + 1\<rparr>) s)) [0..<k] s = Some s1" "table_filled k s s1" by auto
  then show ?case using table_step [of k s s1] Suc.prems by auto
qed (use assms(1) in simp)

lemma table_kinv:
  assumes t: "table_filled PCB_TABLE_SIZE s0 s" and idle: "pid (procs s IdleProc) = 0" "curr_state (procs s IdleProc) = PROC_STATE_BLOCKED"
    and h: "\<exists>L. heap_live (heap s) L" and dev: "dev_ok (device_table s) (kbd s) (\<lambda>_. zero_pcb)"
  shows "kinv s None (first_stopped PCB_TABLE_SIZE)"
proof -
  have f: "pid (procs s (Table i)) = int i + 1" "curr_state (procs s (Table i)) = PROC_STATE_STOPPED"
    "fd_table (procs s (Table i)) = (\<lambda>_. None)" if "i < PCB_TABLE_SIZE" for i
    using t that same_but_links_fields(1,2,11) [of "procs s (Table i)" "table_pcb i"]
    by (simp_all add: table_filled_def table_pcb_def zero_pcb_def)
  have dead: "\<not> alive (procs s) p" for p using f(2) by (auto simp: alive_def valid_def)
  have o: "open_fds (procs s p) = {}" if "valid p" for p using f(3) that by (auto simp: valid_def open_fds_def)
  have "qinv s {} (first_stopped PCB_TABLE_SIZE)"
    using t unfolding table_filled_def qinv_def by (auto simp: valid_def)
  moreover have "procs_ok (procs s) None"
    using f(1,2) idle by (auto simp: procs_ok_def known_def valid_def blocking_ok_def PCB_TABLE_SIZE_def in_s32_def)
  moreover have "mem_ok {} (heap s) (procs s)" using h dead by (auto simp: mem_ok_def)
  moreover have "dev_ok (device_table s) (kbd s) (procs s)"
  proof -
    have z: "open_fds zero_pcb = {}" by (simp add: open_fds_def zero_pcb_def)
    have "open_count (procs s) = open_count (\<lambda>_. zero_pcb)" using o z by (simp add: open_count_def)
    moreover have "\<not> kt_waiting (kbd_task_list (kbd s) i)" if "i < KBD_TASK_LIST_SIZE" for i
      using dev that z unfolding dev_ok_def by blast
    moreover have "fd_table (procs s p) fd = None" if "valid p" for p fd using f(3) that by (auto simp: valid_def)
    ultimately show ?thesis using dev o unfolding dev_ok_def by simp
  qed
  ultimately show ?thesis by (simp add: kinvx_def first_stopped_def deltas_def dl_ok_def MAX_TICKS_def)
qed

lemma pcb_table_init_ok:
  assumes z: "procs s = (\<lambda>_. zero_pcb)" "sleeping_list s = None"
    and r: "roomy k (heap s)" "1040 < k" and dev: "dev_ok (device_table s) (kbd s) (\<lambda>_. zero_pcb)"
  obtains s' where "pcb_table_init s = Some s'" and "kinv s' None (first_stopped PCB_TABLE_SIZE)"
    and "roomy (k - 1040) (heap s')" and "\<And>i. i < PCB_TABLE_SIZE \<Longrightarrow> pid (procs s' (Table i)) = int i + 1"
proof -
  let ?s0 = "s\<lparr>queue_heads := (queue_heads s)(PROC_STATE_READY := None, PROC_STATE_STOPPED := None),
    queue_tails := (queue_tails s)(PROC_STATE_READY := None, PROC_STATE_STOPPED := None)\<rparr>"
  have "table_filled 0 ?s0 ?s0" by (rule table_filled_0) (use z in simp_all)
  from table_loop [OF this order_refl] obtain s1 where s1: "for_each (\<lambda>i s. add_pcb_to_queue (Table i) PROC_STATE_STOPPED
      (upd_proc (Table i) (\<lambda>c. c\<lparr>pid := int i + 1\<rparr>) s)) [0..<PCB_TABLE_SIZE] ?s0 = Some s1" "table_filled PCB_TABLE_SIZE ?s0 s1"
    by blast
  have sr: "same_rest s1 ?s0" using s1(2) by (simp add: table_filled_def)
  let ?n = "IDLE_PROC_STACK_SIZE"
  have ab: "alloc_bytes ?n = 1040" by (simp add: alloc_bytes_def IDLE_PROC_STACK_SIZE_def)
  obtain b h where b: "kmalloc ?n (heap s) = Some (b, h)" "b \<noteq> 0" "roomy (k - 1040) h"
    by (rule roomy_malloc [OF r(1), of ?n]) (use ab r(2) in \<open>auto simp: IDLE_PROC_STACK_SIZE_def\<close>)
  let ?c = "zero_pcb\<lparr>memory_region := b, esp := b + ?n - sizeof_context_frame\<rparr>"
  let ?s2 = "upd_proc IdleProc (\<lambda>_. ?c) (s1\<lparr>heap := h\<rparr>)"
  obtain m where m: "setup_context_frame (esp (procs ?s2 IdleProc)) (addr_idleproc (image ?s2)) ?s2 = ?s2\<lparr>ram := m\<rparr>"
    using setup_context_frame_ram by blast
  let ?s' = "upd_proc IdleProc (\<lambda>c. c\<lparr>pid := 0, curr_state := PROC_STATE_BLOCKED\<rparr>) (?s2\<lparr>ram := m\<rparr>)"
  have km: "k_malloc ?n (upd_proc IdleProc (\<lambda>_. zero_pcb) s1) = Some (b, upd_proc IdleProc (\<lambda>_. zero_pcb) (s1\<lparr>heap := h\<rparr>))"
    using b(1) sr by (simp add: k_malloc_def same_rest_def upd_proc_def)
  have eq: "upd_proc IdleProc (\<lambda>c. c\<lparr>memory_region := b, esp := b + ?n - sizeof_context_frame\<rparr>)
      (upd_proc IdleProc (\<lambda>_. zero_pcb) (s1\<lparr>heap := h\<rparr>)) = ?s2"
    by (simp add: upd_proc_def)
  have "init_idle_proc IdleProc s1 = Some ?s'"
    unfolding init_idle_proc_def Let_def km by (simp only: bind.bind_lunit split_conv eq m b(2) ASSERT_True not_False_eq_True)
  then have run: "pcb_table_init s = Some ?s'" using s1(1) by (simp add: pcb_table_init_def SIGNAL_TABLE_SIZE_def)
  have pr: "procs ?s' (Table i) = procs s1 (Table i)" for i by simp
  have q: "qinv s1 {p. \<exists>i. p = Table i \<and> PCB_TABLE_SIZE \<le> i} (first_stopped PCB_TABLE_SIZE)"
    using s1(2) by (simp add: table_filled_def)
  have "qinv ?s' {p. \<exists>i. p = Table i \<and> PCB_TABLE_SIZE \<le> i} (first_stopped PCB_TABLE_SIZE)"
  proof (rule qinv_cong [OF q])
    show "head_at ?s' pl = head_at s1 pl" if "real_place pl" for pl using that by (cases pl) (auto simp: valid_def)
    show "tail_at ?s' pl = tail_at s1 pl" if "real_place pl" for pl using that by (cases pl) (auto simp: valid_def)
  qed (auto simp: valid_def)
  then have t: "table_filled PCB_TABLE_SIZE ?s' ?s'" using s1(2) by (simp add: table_filled_def z(2))
  have "kinv ?s' None (first_stopped PCB_TABLE_SIZE)"
  proof (rule table_kinv [OF t])
    show "\<exists>L. heap_live (heap ?s') L" using roomy_live [OF b(3)] by simp
    show "dev_ok (device_table ?s') (kbd ?s') (\<lambda>_. zero_pcb)" using dev sr by (simp add: same_rest_def)
  qed simp_all
  moreover have "pid (procs ?s' (Table i)) = int i + 1" if "i < PCB_TABLE_SIZE" for i
  proof -
    have "same_but_links (procs s1 (Table i)) (table_pcb i)" using s1(2) that by (simp add: table_filled_def)
    from same_but_links_fields(1) [OF this] show ?thesis by (simp add: table_pcb_def)
  qed
  moreover have "roomy (k - 1040) (heap ?s')" using b(3) by simp
  ultimately show ?thesis using that [OF run] by blast
qed

subsection \<open>Devices\<close>

lemma di_init_devtable_ok:
  assumes z: "procs s = (\<lambda>_. zero_pcb)" and r: "roomy k (heap s)" "64 < k"
    and kb: "\<And>i. \<not> kt_waiting (task i s)"
  obtains s' where "di_init_devtable s = Some s'" and "procs s' = procs s" and "sleeping_list s' = sleeping_list s"
    and "roomy (k - 64) (heap s')" and "dev_ok (device_table s') (kbd s') (procs s')"
proof -
  have ab: "alloc_bytes 4 = 32" by (simp add: alloc_bytes_def)
  obtain b1 h1 where b1: "kmalloc 4 (heap s) = Some (b1, h1)" "b1 \<noteq> 0" "roomy (k - 32) h1"
    by (rule roomy_malloc [OF r(1), of 4]) (use ab r(2) in auto)
  obtain b2 h2 where b2: "kmalloc 4 h1 = Some (b2, h2)" "b2 \<noteq> 0" "roomy (k - 32 - 32) h2"
    by (rule roomy_malloc [OF b1(3), of 4]) (use ab r(2) in auto)
  let ?d = "\<lambda>b e. \<lparr>dvname = ''keyboard'', dvdriver = KbdDriver, dvioblk = b, dvminor = e\<rparr>"
  let ?s1 = "write32 b1 (word_of_int 0) (s\<lparr>heap := h1, device_table := (device_table s)(DEVICE_ID_KEYBOARD_NO_ECHO := ?d b1 0)\<rparr>)"
  let ?s2 = "write32 b2 (word_of_int 1) (?s1\<lparr>heap := h2, device_table := (device_table ?s1)(DEVICE_ID_KEYBOARD := ?d b2 1)\<rparr>)"
  have c1: "kbd_devsw_create DEVICE_ID_KEYBOARD_NO_ECHO 0 s = Some ?s1"
    using b1(1,2) by (simp add: kbd_devsw_create_def k_malloc_def)
  have c2: "kbd_devsw_create DEVICE_ID_KEYBOARD 1 ?s1 = Some ?s2"
    using b2(1,2) by (simp add: kbd_devsw_create_def k_malloc_def write32_def)
  let ?s' = "snd (kbd_init (snd (kbd_init ?s2)))"
  have ids: "[0..<NUM_DEVICES_ID_ENUMS] = [0, 1]" by (simp add: NUM_DEVICES_ID_ENUMS_def upt_rec)
  have run: "di_init_devtable s = Some ?s'"
    using c1 c2 by (simp add: di_init_devtable_def ids DEVICE_ID_KEYBOARD_NO_ECHO_def DEVICE_ID_KEYBOARD_def kbd_init_def)
  have "open_fds zero_pcb = {}" by (simp add: open_fds_def zero_pcb_def)
  then have "open_count (procs s) = 0" by (simp add: open_count_def z)
  then have "dev_ok (device_table ?s') (kbd ?s') (procs ?s')"
    using kb by (auto simp: dev_ok_def kbd_init_def z zero_pcb_def open_fds_def NUM_DEVICES_ID_ENUMS_def less_Suc_eq numeral_2_eq_2
      DEVICE_ID_KEYBOARD_NO_ECHO_def DEVICE_ID_KEYBOARD_def KEYBOARD_BUFFER_SIZE_def)
  then show ?thesis using b2(3) by (intro that [OF run]) (simp_all add: kbd_init_def)
qed

subsection \<open>The first process\<close>

text \<open>The queues once the first process runs.\<close>

definition after_boot :: "place \<Rightarrow> pcbref list" where
  "after_boot pl = (if pl = In_stopped then map Table [1..<PCB_TABLE_SIZE] else [])"

lemma dispatch_start_ok:
  assumes inv: "kinv s None (first_stopped PCB_TABLE_SIZE)" and n: "\<And>i. i < PCB_TABLE_SIZE \<Longrightarrow> pid (procs s (Table i)) = int i + 1"
    and r: "roomy k (heap s)" "8352 < k" and f: "root \<noteq> 0"
  obtains s' where "dispatch_start root s = Some s'" and "kinv s' (Some (Table 0)) after_boot" and "currproc s' = Table 0"
    and "pid (procs s' (Table 0)) = 33" and "roomy (k - 8352) (heap s')"
    and "\<And>i. 0 < i \<Longrightarrow> i < PCB_TABLE_SIZE \<Longrightarrow> pid (procs s' (Table i)) = int i + 1"
proof -
  have st: "first_stopped PCB_TABLE_SIZE In_stopped = Table 0 # map Table [1..<PCB_TABLE_SIZE]"
    by (simp add: first_stopped_def PCB_TABLE_SIZE_def upt_conv_Cons)
  have n1: "stack_size DEFAULT_STACK_SIZE = 8192" by (simp add: stack_size_def DEFAULT_STACK_SIZE_def)
  have ab: "alloc_bytes (word_of_int 8192) = 8208" "alloc_bytes 128 = 144" by (simp_all add: alloc_bytes_def)
  obtain a h1 where a: "kmalloc (word_of_int 8192) (heap s) = Some (a, h1)" "a \<noteq> 0" "roomy (k - 8208) h1"
    by (rule roomy_malloc [OF r(1), of "word_of_int 8192"]) (use ab r(2) in auto)
  obtain t h2 where t: "kmalloc 128 h1 = Some (t, h2)" "t \<noteq> 0" "roomy (k - 8208 - 144) h2"
    by (rule roomy_malloc [OF a(3), of 128]) (use ab r(2) in auto)
  have p33: "next_pid (pid (procs s (Table 0))) = 33"
    using n [of 0] by (simp add: next_pid_def PCB_TABLE_SIZE_def in_s32_def)
  let ?qs = "(first_stopped PCB_TABLE_SIZE)(In_stopped := map Table [1..<PCB_TABLE_SIZE],
    In_ready := first_stopped PCB_TABLE_SIZE In_ready @ [Table 0])"
  have km: "kmalloc (word_of_int (stack_size DEFAULT_STACK_SIZE)) (heap s) = Some (a, h1)"
    "kmalloc (word_of_nat (SIGNAL_TABLE_SIZE * 4)) h1 = Some (t, h2)" using a(1) n1 t(1) by (simp_all add: SIGNAL_TABLE_SIZE_def)
  have pos: "1 \<le> next_pid (pid (procs s (Table 0)))" by (simp add: p33)
  obtain s1 where s1: "create root DEFAULT_STACK_SIZE s = Some (33, s1)" "kinv s1 None ?qs" "newborn s1 (Table 0) 33" "heap s1 = h2"
    "\<And>q. q \<noteq> Table 0 \<Longrightarrow> same_but_links (procs s1 q) (procs s q)"
    by (rule create_succeeds [OF inv st f km(1) a(2) km(2) t(2) pos, unfolded p33], rule that)
  obtain s' where s': "switch_proc s1 = Some s'" "currproc s' = (case ?qs In_ready of [] \<Rightarrow> IdleProc | p # _ \<Rightarrow> p)"
    "kinv s' (Some (currproc s')) (?qs(In_ready := tl (?qs In_ready)))"
    "\<And>q. same_but_links (procs s' q) (if q = currproc s' then (procs s1 q)\<lparr>curr_state := PROC_STATE_RUNNING\<rparr> else procs s1 q)"
    "same_rest (s'\<lparr>currproc := currproc s1\<rparr>) s1"
    by (rule switch_proc_ok [OF s1(2)]) blast
  have c: "currproc s' = Table 0" using s'(2) by (simp add: first_stopped_def)
  have q: "?qs(In_ready := tl (?qs In_ready)) = after_boot" by (auto simp: fun_eq_iff after_boot_def first_stopped_def)
  have pd: "pid (procs s' q) = pid (procs s1 q)" for q using same_but_links_fields(1) [OF s'(4) [of q]] by (simp split: if_splits)
  have "pid (procs s' (Table i)) = int i + 1" if "0 < i" "i < PCB_TABLE_SIZE" for i
    using pd same_but_links_fields(1) [OF s1(5), of "Table i"] n [OF that(2)] that(1) by simp
  moreover have "pid (procs s' (Table 0)) = 33" using pd s1(3) by (simp add: newborn_def)
  moreover have "roomy (k - 8352) (heap s')" using s'(5) s1(4) t(3) by (simp add: same_rest_def)
  moreover have "dispatch_start root s = Some s'" using s1(1) s'(1) by (simp add: dispatch_start_def)
  ultimately show ?thesis using s'(3) c unfolding q by (intro that [of s']) simp_all
qed

lemma put_chars_simps [simp]:
  "procs (put_chars cs s) = procs s" "heap (put_chars cs s) = heap s" "sleeping_list (put_chars cs s) = sleeping_list s"
  "kbd (put_chars cs s) = kbd s" "device_table (put_chars cs s) = device_table s" "currproc (put_chars cs s) = currproc s"
  by (simp_all add: put_chars_def)

lemma initproc_ok:
  assumes z: "procs s = (\<lambda>_. zero_pcb)" "sleeping_list s = None" and kb: "\<And>i. \<not> kt_waiting (task i s)"
    and h0: "kmeminit (heap s) = Some h0" "roomy k h0" "9456 < k" and f: "addr_login_proc bi \<noteq> 0"
  obtains s' where "initproc bi s idt = Some (s', ctsw_init_evec (addr_timer_entry bi) (addr_keyboard_entry bi) (addr_syscall_entry bi) idt)"
    and "kinv s' (Some (Table 0)) after_boot" and "currproc s' = Table 0" and "pid (procs s' (Table 0)) = 33"
    and "roomy (k - 9456) (heap s')" and "\<And>i. 0 < i \<Longrightarrow> i < PCB_TABLE_SIZE \<Longrightarrow> pid (procs s' (Table i)) = int i + 1"
proof -
  let ?s0 = "put_chars (banner (addr_entry bi) (addr_end bi)) s"
  define s1 where "s1 = line ''kmem initialized'' (?s0\<lparr>heap := h0\<rparr>)"
  have mi: "k_meminit ?s0 = Some (?s0\<lparr>heap := h0\<rparr>)" using h0(1) by (simp add: k_meminit_def)
  have s1: "procs s1 = (\<lambda>_. zero_pcb)" "sleeping_list s1 = None" "roomy k (heap s1)" "\<And>i. \<not> kt_waiting (task i s1)"
    using z kb h0(2) by (simp_all add: s1_def line_def)
  obtain s2 where s2: "di_init_devtable s1 = Some s2" "procs s2 = procs s1" "sleeping_list s2 = sleeping_list s1"
    "roomy (k - 64) (heap s2)" "dev_ok (device_table s2) (kbd s2) (procs s2)"
    by (rule di_init_devtable_ok [OF s1(1,3) _ s1(4)]) (use h0(3) in auto)
  define s3 where "s3 = line ''context switcher initialized'' (line ''devices initialized'' s2)"
  have s3: "procs s3 = (\<lambda>_. zero_pcb)" "sleeping_list s3 = None" "roomy (k - 64) (heap s3)"
    "dev_ok (device_table s3) (kbd s3) (\<lambda>_. zero_pcb)"
    using s2 s1 by (simp_all add: s3_def line_def)
  obtain s4 where s4: "pcb_table_init s3 = Some s4" "kinv s4 None (first_stopped PCB_TABLE_SIZE)"
    "roomy (k - 64 - 1040) (heap s4)" "\<And>i. i < PCB_TABLE_SIZE \<Longrightarrow> pid (procs s4 (Table i)) = int i + 1"
    by (rule pcb_table_init_ok [OF s3(1-3) _ s3(4)]) (use h0(3) in auto)
  define s5 where "s5 = (line ''dispatcher initialized'' s4)\<lparr>io := initPIT (1000 div TICK_LENGTH_IN_MS) (io (line ''dispatcher initialized'' s4))\<rparr>"
  have s5: "kinv s5 None (first_stopped PCB_TABLE_SIZE)" "roomy (k - 1104) (heap s5)" "\<And>i. i < PCB_TABLE_SIZE \<Longrightarrow> pid (procs s5 (Table i)) = int i + 1"
    using s4 by (simp_all add: s5_def line_def)
  obtain s' where s': "dispatch_start (addr_login_proc bi) s5 = Some s'" "kinv s' (Some (Table 0)) after_boot" "currproc s' = Table 0"
    "pid (procs s' (Table 0)) = 33" "roomy (k - 1104 - 8352) (heap s')"
    "\<And>i. 0 < i \<Longrightarrow> i < PCB_TABLE_SIZE \<Longrightarrow> pid (procs s' (Table i)) = int i + 1"
    by (rule dispatch_start_ok [OF s5(1,3,2) _ f]) (use h0(3) in auto)
  have "initproc bi s idt = Some (s', ctsw_init_evec (addr_timer_entry bi) (addr_keyboard_entry bi) (addr_syscall_entry bi) idt)"
    using mi s2(1) s4(1) s'(1)
    by (simp add: initproc_def dispinit_def Let_def DEFAULT_STACK_SIZE_def s1_def s3_def s5_def)
  then show ?thesis using s'(2-6) by (intro that) simp_all
qed

text \<open>The start-up code's limits leave the room, for an image that ends below 608 kB.\<close>

lemma power_on_room:
  assumes "0 < end_image" and "end_image + 32768 \<le> HOLESTART"
  shows "boot_room 16368 (heap (power_on m hs img etext end_image io0))"
  using assms by (simp add: power_on_def setsegs_def Let_def boot_room_def boot_layout_def sizmem_def NBPG_def
    HOLESTART_def HOLEEND_def in_s32_def)

lemma power_on_zero:
  "procs (power_on m hs img etext end_image io0) = (\<lambda>_. zero_pcb)"
  "sleeping_list (power_on m hs img etext end_image io0) = None"
  "\<not> kt_waiting (task i (power_on m hs img etext end_image io0))"
  by (simp_all add: power_on_def Let_def)

lemma power_on_state_room: "boot_room 490000 (heap power_on_state)"
  by (simp add: boot_room_def boot_layout_def HOLESTART_def HOLEEND_def)

end
