(* ===== verification/Progress.thy ===== *)
theory Progress
  imports Boot_Facts
begin

text \<open>
  Runs of the dispatcher: the states reachable from power-on, what holds in all of them, and what
  happens in time. With every timer interrupt the ready queue advances by one, and a sleeping
  process is one tick nearer to its wake-up.
\<close>

subsection \<open>Context switches leave the other processes alone\<close>

lemma slot_unique:
  assumes "procs_ok ps r" and "known p" "known q" and "pid (ps p) = pid (ps q)"
  shows "p = q"
proof -
  have "pid_slot p (pid (ps p))" by (rule procs_okD(1) [OF assms(1,2)])
  moreover have "pid_slot q (pid (ps p))" unfolding assms(4) by (rule procs_okD(1) [OF assms(1,3)])
  ultimately show ?thesis by (cases p; cases q) auto
qed

lemma signal_others:
  assumes ok: "procs_ok (procs s) r" and p: "known p" and q: "q \<noteq> p"
  shows "procs (snd (signal (pid (procs s p)) n s)) q = procs s q"
proof (cases "pid_to_proc (pid (procs s p)) s")
  case (Some p')
  have "valid p'" "pid (procs s p') = pid (procs s p)" using pid_to_proc_Some [OF ok Some] by simp_all
  then have "p' = p" using slot_unique [OF ok _ p, of p'] by auto
  then show ?thesis using Some q by (auto simp: signal_def Let_def)
qed (simp add: signal_def)

lemma ctsw_enter_others:
  assumes ok: "procs_ok (procs s) r" and p: "known p" and q: "q \<noteq> p" and run: "ctsw_enter p s = Some s'"
  shows "procs s' q = procs s q"
proof (cases "signals_fired (procs s p) \<noteq> 0 \<and> signals_enabled (procs s p) \<noteq> 0")
  case False
  then have "s' = write32 (esp (procs s p) + cf_eax) (word_of_int (ret (procs s p))) s"
    using run by (simp add: ctsw_enter_def if_not_P del: de_Morgan_conj)
  then show ?thesis by simp
next
  case True
  then obtain k where k: "highest_signal (signals_fired (procs s p)) 31 = Some k" using highest_signal_exists by blast
  let ?s1 = "upd_proc p (\<lambda>c. c\<lparr>signals_fired := FLAG_BIT_CLEAR k (signals_fired c)\<rparr>) s"
  have ok1: "procs_ok (procs ?s1) r" using ok procs_ok_cong [of "procs ?s1" "procs s" r] by simp
  have "procs s' = procs (snd (signal (pid (procs ?s1 p)) (int k) ?s1))"
    using run True k by (auto simp: ctsw_enter_def call_highest_priority_signal_def SIGNAL_TABLE_SIZE_def)
  then show ?thesis using signal_others [OF ok1 p q] q by simp
qed

lemma ctsw_others:
  assumes ok: "procs_ok (procs s) r" and p: "known p" and q: "q \<noteq> p"
    and run: "ctsw_contextswitch ev p s = Some (n, s')"
  shows "procs s' q = procs s q"
proof -
  obtain s1 where s1: "ctsw_enter p s = Some s1" "ctsw_return ev p s1 = Some (n, s')"
    using run by (auto simp: ctsw_contextswitch_def bind_eq_Some_conv)
  have "procs s' q = procs s1 q"
    using s1(2) q by (auto simp: ctsw_return_def case_prod_beta Let_def split: if_splits)
  then show ?thesis using ctsw_enter_others [OF ok p q s1(1)] by simp
qed

lemma ctsw_kinv:
  assumes inv: "kinvx X s (Some (currproc s)) qs" and e: "ev_reason ev \<in> {CTSW_SYSCALL, CTSW_TIMER, CTSW_KEYBOARD}"
  obtains n s1 where "ctsw_contextswitch ev (currproc s) s = Some (n, s1)" and "kinvx X s1 (Some (currproc s1)) qs"
    and "currproc s1 = currproc s" and "deltas s1 (qs In_sleep) = deltas s (qs In_sleep)"
    and "\<And>q. q \<noteq> currproc s \<Longrightarrow> procs s1 q = procs s q"
    and "ev_reason ev = CTSW_TIMER \<Longrightarrow> n = 0"
proof -
  obtain s0 where s0: "ctsw_enter (currproc s) s = Some s0" "kinvx X s0 (Some (currproc s)) qs" "currproc s0 = currproc s"
    by (rule ctsw_enter_ok [OF inv])
  obtain n s1 where s1: "ctsw_return ev (currproc s) s0 = Some (n, s1)" "kinvx X s1 (Some (currproc s)) qs" "currproc s1 = currproc s0"
    "ev_reason ev = CTSW_TIMER \<Longrightarrow> n = 0" "ev_reason ev = CTSW_KEYBOARD \<Longrightarrow> n = 1"
    by (rule ctsw_return_ok [OF s0(2) e], rule that)
  have run: "ctsw_contextswitch ev (currproc s) s = Some (n, s1)" using s0(1) s1(1) by (simp add: ctsw_contextswitch_def)
  have o: "procs s1 q = procs s q" if "q \<noteq> currproc s" for q
    using ctsw_others [OF kinvD(2) [OF inv] running_facts(1) [OF inv] that run] .
  have "deltas s1 (qs In_sleep) = deltas s (qs In_sleep)"
    by (rule deltas_cong) (use o running_facts(4) [OF inv, of In_sleep] in metis)
  then show ?thesis using that run s1 s0(3) o by simp
qed

subsection \<open>The timer\<close>

definition timer_event :: "user_event \<Rightarrow> bool" where
  "timer_event ev \<longleftrightarrow> ev_reason ev = CTSW_TIMER"

text \<open>Remaining ticks of the sleeping processes, absolute.\<close>

definition wake_times :: "kernel \<Rightarrow> (place \<Rightarrow> pcbref list) \<Rightarrow> (pcbref \<times> int) list" where
  "wake_times s qs = dl_times 0 (deltas s (qs In_sleep))"

lemma timer_step:
  assumes inv: "kinv s (Some (currproc s)) qs" and t: "timer_event ev"
  obtains s' qs' where "dispatch_step ev s = Some s'" and "kinv s' (Some (currproc s')) qs'"
    and "currproc s' = next_of (qs In_ready @ map fst (filter (\<lambda>(_, t). t \<le> 1) (wake_times s qs)) @ queued (currproc s))"
    and "qs' In_ready = tl (qs In_ready @ map fst (filter (\<lambda>(_, t). t \<le> 1) (wake_times s qs)) @ queued (currproc s))"
    and "wake_times s' qs' = map (\<lambda>(p, t). (p, t - 1)) (filter (\<lambda>(_, t). 1 < t) (wake_times s qs))"
proof -
  have e: "ev_reason ev \<in> {CTSW_SYSCALL, CTSW_TIMER, CTSW_KEYBOARD}" using t by (simp add: timer_event_def)
  obtain n s1 where s1: "ctsw_contextswitch ev (currproc s) s = Some (n, s1)" "kinv s1 (Some (currproc s1)) qs"
    "currproc s1 = currproc s" "deltas s1 (qs In_sleep) = deltas s (qs In_sleep)" "ev_reason ev = CTSW_TIMER \<Longrightarrow> n = 0"
    by (rule ctsw_kinv [OF inv e], rule that)
  have n: "n = 0" using s1(5) t by (simp add: timer_event_def)
  obtain s' ys zs where s': "timer_handler s1 = Some s'" "qs In_sleep = ys @ zs"
    "ys = map fst (filter (\<lambda>(_, t). t \<le> 1) (dl_times 0 (deltas s1 (qs In_sleep))))"
    "dl_times 0 (deltas s' zs) =
      map (\<lambda>(p, t). (p, t - 1)) (filter (\<lambda>(_, t). 1 < t) (dl_times 0 (deltas s1 (qs In_sleep))))"
    "currproc s' = next_of (qs In_ready @ ys @ queued (currproc s1))"
    "kinv s' (Some (currproc s')) (qs(In_sleep := zs, In_ready := tl (qs In_ready @ ys @ queued (currproc s1))))"
    by (rule timer_ok [OF s1(2)], rule that)
  have "request_of_num n = Some TIMER_INT" by (simp add: n request_of_num_def request_ids_def)
  then have "dispatch_step ev s = Some s'" using s1(1) s'(1) by (simp add: dispatch_step_def handle_request_def)
  moreover note s'(6)
  moreover have "ys = map fst (filter (\<lambda>(_, t). t \<le> 1) (wake_times s qs))" using s'(3) s1(4) by (simp add: wake_times_def)
  ultimately show ?thesis
    using s'(4,5) s1(3,4)
    by (intro that [of s' "qs(In_sleep := zs, In_ready := tl (qs In_ready @ ys @ queued (currproc s1)))"]) (simp_all add: wake_times_def)
qed

lemma timer_runs:
  assumes "kinv s (Some (currproc s)) qs" and "list_all timer_event evs" and "length evs = Suc i" and "i < length (qs In_ready)"
  shows "\<exists>s'. for_each dispatch_step evs s = Some s' \<and> currproc s' = qs In_ready ! i"
  using assms
proof (induction i arbitrary: evs s qs)
  case 0
  then obtain ev where ev: "evs = [ev]" "timer_event ev" by (cases evs) auto
  obtain s' where "dispatch_step ev s = Some s'"
    "currproc s' = next_of (qs In_ready @ map fst (filter (\<lambda>(_, t). t \<le> 1) (wake_times s qs)) @ queued (currproc s))"
    by (rule timer_step [OF 0(1) ev(2)]) blast
  then show ?case using ev(1) 0(4) by (cases "qs In_ready") (simp_all add: next_of_def)
next
  case (Suc i)
  then obtain ev evs' where ev: "evs = ev # evs'" "timer_event ev" "list_all timer_event evs'" "length evs' = Suc i"
    by (cases evs) auto
  obtain s1 q1 where s1: "dispatch_step ev s = Some s1" "kinv s1 (Some (currproc s1)) q1"
    "q1 In_ready = tl (qs In_ready @ map fst (filter (\<lambda>(_, t). t \<le> 1) (wake_times s qs)) @ queued (currproc s))"
    by (rule timer_step [OF Suc.prems(1) ev(2)]) blast
  have "q1 In_ready = tl (qs In_ready) @ map fst (filter (\<lambda>(_, t). t \<le> 1) (wake_times s qs)) @ queued (currproc s)"
    using s1(3) Suc.prems(4) by (cases "qs In_ready") simp_all
  moreover have "i < length (tl (qs In_ready))" using Suc.prems(4) by simp
  ultimately have "i < length (q1 In_ready)" "q1 In_ready ! i = qs In_ready ! Suc i"
    by (simp_all add: nth_append nth_tl)
  then show ?case using Suc.IH [OF s1(2) ev(3,4)] s1(1) ev(1) by simp
qed

lemma sleeper_next:
  assumes inv: "kinv s (Some (currproc s)) qs" and ev: "timer_event ev" and p: "(p, t) \<in> set (wake_times s qs)"
  obtains s' qs' where "dispatch_step ev s = Some s'" and "kinv s' (Some (currproc s')) qs'"
    and "1 < t \<Longrightarrow> (p, t - 1) \<in> set (wake_times s' qs')"
    and "t \<le> 1 \<Longrightarrow> currproc s' = p \<or> p \<in> set (qs' In_ready)"
proof -
  let ?ys = "map fst (filter (\<lambda>(_, t). t \<le> 1) (wake_times s qs))"
  obtain s' qs' where s': "dispatch_step ev s = Some s'" "kinv s' (Some (currproc s')) qs'"
    "currproc s' = next_of (qs In_ready @ ?ys @ queued (currproc s))"
    "qs' In_ready = tl (qs In_ready @ ?ys @ queued (currproc s))"
    "wake_times s' qs' = map (\<lambda>(p, t). (p, t - 1)) (filter (\<lambda>(_, t). 1 < t) (wake_times s qs))"
    by (rule timer_step [OF inv ev])
  have "p \<in> set ?ys" if "t \<le> 1" using p that by force
  then have "currproc s' = p \<or> p \<in> set (qs' In_ready)" if "t \<le> 1"
  proof -
    have "p \<in> set (qs In_ready @ ?ys @ queued (currproc s))" using that \<open>t \<le> 1 \<Longrightarrow> p \<in> set ?ys\<close> by simp
    then obtain x xs where x: "qs In_ready @ ?ys @ queued (currproc s) = x # xs" "p = x \<or> p \<in> set xs"
      by (metis list.set_cases set_ConsD)
    then show ?thesis using s'(3,4) by (auto simp: next_of_def)
  qed
  moreover have "(p, t - 1) \<in> set (wake_times s' qs')" if "1 < t" using p s'(5) that by force
  ultimately show ?thesis using that s'(1,2) by blast
qed

lemma wake_times_pos: "kinv s r qs \<Longrightarrow> (p, t) \<in> set (wake_times s qs) \<Longrightarrow> 1 \<le> t"
proof -
  assume inv: "kinv s r qs" and p: "(p, t) \<in> set (wake_times s qs)"
  have dl: "dl_ok MAX_TICKS (deltas s (qs In_sleep))" using kinvD(3) [OF inv] .
  show ?thesis
  proof (cases "deltas s (qs In_sleep)" rule: pair_list_cases)
    case 1
    then show ?thesis using p by (simp add: wake_times_def)
  next
    case (2 b u K)
    then have "0 < u" "\<forall>(a, d)\<in>set K. 0 \<le> d" using dl by (auto simp: dl_ok_def)
    then show ?thesis using p 2 dl_times_mono [of K p t u] by (auto simp: wake_times_def)
  qed
qed

lemma sleeper_state:
  assumes inv: "kinv s r qs"
  shows "(p, t) \<in> set (wake_times s qs) \<Longrightarrow> curr_state (procs s p) = PROC_STATE_BLOCKED \<and> blocking_queue_name (procs s p) = SLEEP"
    and "p \<in> set (qs In_ready) \<Longrightarrow> curr_state (procs s p) = PROC_STATE_READY"
proof -
  show "curr_state (procs s p) = PROC_STATE_BLOCKED \<and> blocking_queue_name (procs s p) = SLEEP" if "(p, t) \<in> set (wake_times s qs)"
  proof -
    have "p \<in> set (map fst (wake_times s qs))" using that by force
    then have "p \<in> set (qs In_sleep)" by (simp add: wake_times_def deltas_def comp_def)
    then show ?thesis using sleepers(2,3) [OF inv] by blast
  qed
  show "curr_state (procs s p) = PROC_STATE_READY" if "p \<in> set (qs In_ready)"
    using qinvD(2) [OF kinvD(1) [OF inv], of p In_ready] that
    by (cases "curr_state (procs s p)") (auto simp: place_of_def split: if_splits)
qed

lemma sleeper_run:
  assumes "kinv s (Some (currproc s)) qs" and "(p, t) \<in> set (wake_times s qs)" and "list_all timer_event evs"
    and "int (length evs) \<le> t"
  shows "\<exists>s'. for_each dispatch_step evs s = Some s' \<and>
    (int (length evs) < t \<longrightarrow> curr_state (procs s' p) = PROC_STATE_BLOCKED \<and> blocking_queue_name (procs s' p) = SLEEP) \<and>
    (int (length evs) = t \<longrightarrow> currproc s' = p \<or> curr_state (procs s' p) = PROC_STATE_READY)"
  using assms
proof (induction evs arbitrary: s qs t)
  case Nil
  then show ?case using sleeper_state(1) [OF Nil(1,2)] wake_times_pos [OF Nil(1,2)] by simp
next
  case (Cons ev evs)
  have ev: "timer_event ev" "list_all timer_event evs" using Cons.prems(3) by simp_all
  obtain s1 q1 where s1: "dispatch_step ev s = Some s1" "kinv s1 (Some (currproc s1)) q1"
    "1 < t \<Longrightarrow> (p, t - 1) \<in> set (wake_times s1 q1)" "t \<le> 1 \<Longrightarrow> currproc s1 = p \<or> p \<in> set (q1 In_ready)"
    by (rule sleeper_next [OF Cons.prems(1) ev(1) Cons.prems(2)], rule that)
  show ?case
  proof (cases "1 < t")
    case True
    then show ?thesis using Cons.IH [OF s1(2) s1(3) [OF True] ev(2)] Cons.prems(4) s1(1) by auto
  next
    case False
    have "int (length evs) + 1 \<le> t" using Cons.prems(4) by simp
    then have "length evs = 0" "t = 1" using False by linarith+
    then have "evs = []" "t = 1" by simp_all
    then show ?thesis using s1(1,4) sleeper_state(2) [OF s1(2), of p] by auto
  qed
qed

end
