(* ===== verification/Witness_States.thy ===== *)
theory Witness_States
  imports Progress
begin

text \<open>
  Concrete kernel states for the instances of the properties: the kernel after \<open>initproc\<close> on the
  sample machine, with a second process, with the first one asleep, and with the arguments of a
  system call on the stack of the current process.
\<close>

subsection \<open>After the initialisation\<close>

definition sample_boot :: boot_image where
  "sample_boot = \<lparr>addr_entry = 0x10000, addr_end = 0x20000, addr_timer_entry = 0x11000,
     addr_keyboard_entry = 0x11100, addr_syscall_entry = 0x11200, addr_login_proc = 0x12000\<rparr>"

definition booted :: kernel where
  "booted = fst (the (initproc sample_boot power_on_state (\<lambda>_. zero_idt_entry)))"

lemma booted_run: "\<exists>idt. initproc sample_boot power_on_state (\<lambda>_. zero_idt_entry) = Some (booted, idt)"
  and booted_kinv: "kinv booted (Some (Table 0)) after_boot"
  and booted_currproc [simp]: "currproc booted = Table 0"
  and booted_pids: "pid (procs booted (Table 0)) = 33"
    "\<And>i. 0 < i \<Longrightarrow> i < PCB_TABLE_SIZE \<Longrightarrow> pid (procs booted (Table i)) = int i + 1"
  and booted_roomy: "roomy 480000 (heap booted)"
proof -
  obtain h0 where h0: "kmeminit (heap power_on_state) = Some h0" "roomy 490000 h0" by (rule kmeminit_roomy [OF power_on_state_room])
  have z: "procs power_on_state = (\<lambda>_. zero_pcb)" "sleeping_list power_on_state = None"
    "\<And>i. \<not> kt_waiting (task i power_on_state)"
    by (simp_all add: power_on_state_def power_on_zero)
  have f: "addr_login_proc sample_boot \<noteq> 0" by (simp add: sample_boot_def)
  obtain s where s: "initproc sample_boot power_on_state (\<lambda>_. zero_idt_entry) = Some (s, ctsw_init_evec (addr_timer_entry sample_boot)
      (addr_keyboard_entry sample_boot) (addr_syscall_entry sample_boot) (\<lambda>_. zero_idt_entry))"
    "kinv s (Some (Table 0)) after_boot" "currproc s = Table 0" "pid (procs s (Table 0)) = 33" "roomy (490000 - 9456) (heap s)"
    "\<And>i. 0 < i \<Longrightarrow> i < PCB_TABLE_SIZE \<Longrightarrow> pid (procs s (Table i)) = int i + 1"
    by (rule initproc_ok [OF z h0 _ f], simp, rule that)
  have b: "booted = s" by (simp add: booted_def s(1))
  show "\<exists>idt. initproc sample_boot power_on_state (\<lambda>_. zero_idt_entry) = Some (booted, idt)" using s(1) b by simp
  show "kinv booted (Some (Table 0)) after_boot" "currproc booted = Table 0" "pid (procs booted (Table 0)) = 33"
    using s(2-4) b by simp_all
  show "\<And>i. 0 < i \<Longrightarrow> i < PCB_TABLE_SIZE \<Longrightarrow> pid (procs booted (Table i)) = int i + 1" using s(6) b by simp
  have "roomy 480544 (heap s)" using s(5) by simp
  then show "roomy 480000 (heap booted)" unfolding b roomy_def by force
qed

lemma booted_inv: "kinv booted (Some (currproc booted)) after_boot"
  using booted_kinv by simp

lemma booted_ok: "kernel_ok booted"
  using booted_inv by (auto simp: kernel_ok_def)

subsection \<open>A second process\<close>

definition two_procs :: kernel where
  "two_procs = snd (the (create 0x13000 DEFAULT_STACK_SIZE booted))"

definition two_queues :: "place \<Rightarrow> pcbref list" where
  "two_queues = after_boot(In_stopped := map Table [2..<PCB_TABLE_SIZE], In_ready := [Table 1])"

lemma booted_stopped: "after_boot In_stopped = Table 1 # map Table [2..<PCB_TABLE_SIZE]"
  by (simp add: after_boot_def PCB_TABLE_SIZE_def upt_conv_Cons)

lemma booted_memory:
  obtains a h1 t h2 where "kmalloc (word_of_int (stack_size DEFAULT_STACK_SIZE)) (heap booted) = Some (a, h1)" and "a \<noteq> 0"
    and "kmalloc (of_nat (SIGNAL_TABLE_SIZE * 4)) h1 = Some (t, h2)" and "t \<noteq> 0"
proof -
  have ab: "alloc_bytes (word_of_int 8192) = 8208" "alloc_bytes 128 = 144" by (simp_all add: alloc_bytes_def)
  obtain a h1 where a: "kmalloc (word_of_int 8192) (heap booted) = Some (a, h1)" "a \<noteq> 0" "roomy (480000 - 8208) h1"
    by (rule roomy_malloc [OF booted_roomy, of "word_of_int 8192"]) (use ab in auto)
  obtain t h2 where t: "kmalloc 128 h1 = Some (t, h2)" "t \<noteq> 0"
    by (rule roomy_malloc [OF a(3), of 128]) (use ab in auto)
  show ?thesis using a t by (intro that [of a h1 t h2]) (simp_all add: stack_size_def DEFAULT_STACK_SIZE_def SIGNAL_TABLE_SIZE_def)
qed

lemma two_procs_run: "create 0x13000 DEFAULT_STACK_SIZE booted = Some (34, two_procs)"
  and two_procs_kinv: "kinv two_procs (Some (Table 0)) two_queues"
  and two_procs_currproc [simp]: "currproc two_procs = Table 0"
  and two_procs_pids: "pid (procs two_procs (Table 0)) = 33" "pid (procs two_procs (Table 1)) = 34"
proof -
  obtain a h1 t h2 where m: "kmalloc (word_of_int (stack_size DEFAULT_STACK_SIZE)) (heap booted) = Some (a, h1)" "a \<noteq> 0"
    "kmalloc (of_nat (SIGNAL_TABLE_SIZE * 4)) h1 = Some (t, h2)" "t \<noteq> 0" by (rule booted_memory)
  have p: "next_pid (pid (procs booted (Table 1))) = 34"
    using booted_pids(2) [of 1] by (simp add: next_pid_def PCB_TABLE_SIZE_def in_s32_def)
  have pos: "1 \<le> next_pid (pid (procs booted (Table 1)))" "(0x13000 :: u32) \<noteq> 0" using p by simp_all
  have q: "after_boot(In_stopped := map Table [2..<PCB_TABLE_SIZE], In_ready := after_boot In_ready @ [Table 1]) = two_queues"
    by (simp add: two_queues_def after_boot_def fun_eq_iff)
  obtain s where s: "create 0x13000 DEFAULT_STACK_SIZE booted = Some (34, s)" "kinv s (Some (Table 0)) two_queues"
    "currproc s = currproc booted" "newborn s (Table 1) 34"
    "\<And>q. q \<noteq> Table 1 \<Longrightarrow> same_but_links (procs s q) (procs booted q)"
    by (rule create_succeeds [OF booted_kinv booted_stopped pos(2) m pos(1), unfolded p q], rule that)
  have b: "two_procs = s" by (simp add: two_procs_def s(1))
  show "create 0x13000 DEFAULT_STACK_SIZE booted = Some (34, two_procs)" "kinv two_procs (Some (Table 0)) two_queues"
    "currproc two_procs = Table 0" using s(1-3) b by simp_all
  show "pid (procs two_procs (Table 1)) = 34" using s(4) by (simp add: newborn_def b)
  show "pid (procs two_procs (Table 0)) = 33"
    using same_but_links_fields(1) [OF s(5), of "Table 0"] booted_pids(1) by (simp add: b)
qed

lemma two_procs_inv: "kinv two_procs (Some (currproc two_procs)) two_queues"
  using two_procs_kinv by simp

lemma two_queues_simps [simp]:
  "two_queues In_ready = [Table 1]" "two_queues In_stopped = map Table [2..<PCB_TABLE_SIZE]"
  "two_queues In_sleep = []" "two_queues (In_blocking w q) = []"
  by (simp_all add: two_queues_def after_boot_def)

subsection \<open>System call arguments\<close>

text \<open>The current process with three words pushed below the address of a trap's arguments.\<close>

definition calling :: "u32 \<Rightarrow> u32 \<Rightarrow> u32 \<Rightarrow> kernel \<Rightarrow> kernel" where
  "calling a b c s = write32 0x200000 a (write32 0x200004 b (write32 0x200008 c
     (upd_proc (currproc s) (\<lambda>p. p\<lparr>args := 0x200000\<rparr>) s)))"

lemma calling_simps [simp]:
  "currproc (calling a b c s) = currproc s" "heap (calling a b c s) = heap s" "image (calling a b c s) = image s"
  "procs (calling a b c s) = (procs s)(currproc s := (procs s (currproc s))\<lparr>args := 0x200000\<rparr>)"
  by (simp_all add: calling_def)

lemma calling_args [simp]:
  "carg 0 (calling a b c s) = a" "carg (Suc 0) (calling a b c s) = b" "carg 2 (calling a b c s) = c"
  by (simp_all add: carg_def arg_def read32_def calling_def load32_store32_apart apart_def)

lemma calling_kinv:
  assumes "kinv s r qs"
  shows "kinv (calling a b c s) r qs"
proof -
  have "qinv (calling a b c s) {} qs" using kinvD(1) [OF assms]
    by (rule qinv_cong) (auto simp: calling_def elim!: real_place.elims head_at.elims)
  then show ?thesis by (rule kinv_same [OF assms]) (simp_all add: calling_def)
qed


subsection \<open>Asleep\<close>

text \<open>The first process sleeps 25 ms, the second one runs.\<close>

definition asleep :: kernel where
  "asleep = the (dispatch_syscall_sleep (calling 25 0 0 two_procs))"

lemma asleep_kinv: "\<exists>qs. kinv asleep (Some (currproc asleep)) qs \<and> wake_times asleep qs = [(Table 0, 3)]"
  and asleep_currproc [simp]: "currproc asleep = Table 1"
  and asleep_run: "dispatch_syscall_sleep (calling 25 0 0 two_procs) = Some asleep"
proof -
  let ?s = "calling 25 0 0 two_procs"
  have inv: "kinv ?s (Some (currproc ?s)) two_queues" using calling_kinv [OF two_procs_kinv] by simp
  have v: "valid (currproc ?s)" "0 < carg 0 ?s" by (simp_all add: PCB_TABLE_SIZE_def)
  have t: "sleep_ticks 25 = 3" by (simp add: sleep_ticks_bounds)
  obtain s' ys where s': "dispatch_syscall_sleep ?s = Some s'"
    "dl_times 0 (deltas s' ys) =
      takeWhile (\<lambda>(_, u). u < sleep_ticks (carg 0 ?s)) (dl_times 0 (deltas ?s (two_queues In_sleep))) @
      (currproc ?s, sleep_ticks (carg 0 ?s)) #
      dropWhile (\<lambda>(_, u). u < sleep_ticks (carg 0 ?s)) (dl_times 0 (deltas ?s (two_queues In_sleep)))"
    "currproc s' = next_of (two_queues In_ready)"
    "kinv s' (Some (currproc s')) (two_queues(In_sleep := ys, In_ready := tl (two_queues In_ready)))"
    by (rule sleep_handler_ok [OF inv v], rule that)
  have b: "asleep = s'" by (simp add: asleep_def s'(1))
  show "dispatch_syscall_sleep ?s = Some asleep" using s'(1) b by simp
  show "currproc asleep = Table 1" using s'(3) b by (simp add: next_of_def)
  have "wake_times s' (two_queues(In_sleep := ys, In_ready := tl (two_queues In_ready))) = [(Table 0, 3)]"
    using s'(2) t by (simp add: wake_times_def)
  then show "\<exists>qs. kinv asleep (Some (currproc asleep)) qs \<and> wake_times asleep qs = [(Table 0, 3)]" using s'(4) b by blast
qed

subsection \<open>Events\<close>

definition timer_tick :: user_event where
  "timer_tick = \<lparr>ev_reason = CTSW_TIMER,
     ev_regs = \<lparr>r_edi = 0, r_esi = 0, r_ebp = 0, r_ebx = 0, r_edx = 0, r_ecx = 0, r_eax = 7, r_eip = 0x12345,
       r_cs = 8, r_eflags = 0x3200, r_sp = 0x28000\<rparr>,
     ev_ram = (\<lambda>_. 0), ev_kbd_data = 0, ev_kbd_status = 0\<rparr>"

lemma timer_tick_event [simp]: "timer_event timer_tick" "ev_reason timer_tick = CTSW_TIMER"
  by (simp_all add: timer_event_def timer_tick_def)

lemma timer_event_ok:
  assumes "kernel_ok s" and "timer_event ev"
  shows "event_ok ev s"
proof -
  have e: "ev_reason ev \<in> {CTSW_SYSCALL, CTSW_TIMER, CTSW_KEYBOARD}" using assms(2) by (simp add: timer_event_def)
  obtain n s1 where s1: "ctsw_contextswitch ev (currproc s) s = Some (n, s1)" "ev_reason ev = CTSW_TIMER \<Longrightarrow> n = 0"
    by (rule ctsw_ok [OF assms(1) e], rule that)
  then have "n = 0" using assms(2) by (simp add: timer_event_def)
  then show ?thesis using s1(1) e by (simp add: event_ok_def request_of_num_def request_ids_def request_ok_def)
qed
end
