(* ===== verification/Kernel_Props.thy ===== *)
theory Kernel_Props
  imports Witness_States
begin

text \<open>
  The properties of the kernel as a whole: every state reachable from power-on satisfies the
  invariant, no pass of the dispatcher gets stuck as long as the requests are admissible, processes
  are kept apart, ready processes run and sleeping ones wake up on time.
\<close>

subsection \<open>Reachable states\<close>

text \<open>From any memory contents and any image that ends below 608 kB, through admissible events.\<close>

inductive reachable :: "kernel \<Rightarrow> bool" where
  boot: "0 < end_image \<Longrightarrow> end_image + 32768 \<le> HOLESTART \<Longrightarrow> addr_login_proc bi \<noteq> 0 \<Longrightarrow>
    initproc bi (power_on m hs img etext end_image io0) idt = Some (s, idt') \<Longrightarrow> reachable s"
| step: "reachable s \<Longrightarrow> event_ok ev s \<Longrightarrow> dispatch_step ev s = Some s' \<Longrightarrow> reachable s'"

lemma boot_ok:
  assumes "0 < end_image" and "end_image + 32768 \<le> HOLESTART" and "addr_login_proc bi \<noteq> 0"
  shows "\<exists>s idt'. initproc bi (power_on m hs img etext end_image io0) idt = Some (s, idt') \<and> kernel_ok s \<and>
    currproc s = Table 0 \<and> pid (procs s (Table 0)) = 33"
proof -
  let ?s = "power_on m hs img etext end_image io0"
  obtain h0 where h0: "kmeminit (heap ?s) = Some h0" "roomy 16368 h0" by (rule kmeminit_roomy [OF power_on_room [OF assms(1,2)]])
  have k: "(9456 :: nat) < 16368" by simp
  obtain s where s: "initproc bi ?s idt = Some (s, ctsw_init_evec (addr_timer_entry bi) (addr_keyboard_entry bi) (addr_syscall_entry bi) idt)"
    "kinv s (Some (Table 0)) after_boot" "currproc s = Table 0" "pid (procs s (Table 0)) = 33"
    by (rule initproc_ok [OF power_on_zero h0 k assms(3)]) blast
  then have "kernel_ok s" by (auto simp: kernel_ok_def)
  then show ?thesis using s by blast
qed

lemma reachable_ok: "reachable s \<Longrightarrow> kernel_ok s"
proof (induction rule: reachable.induct)
  case (boot end_image bi m hs img etext io0 idt s idt')
  obtain s' idt'' where "initproc bi (power_on m hs img etext end_image io0) idt = Some (s', idt'')" "kernel_ok s'"
    using boot_ok [OF boot(1-3), of m hs img etext io0 idt] by blast
  then show ?case using boot(4) by simp
next
  case (step s ev s')
  then show ?case using dispatch_step_ok [of s ev] by auto
qed

lemma booted_reachable: "reachable booted"
proof -
  obtain idt where "initproc sample_boot power_on_state (\<lambda>_. zero_idt_entry) = Some (booted, idt)" using booted_run by blast
  then show ?thesis unfolding power_on_state_def by (rule reachable.boot [rotated 3]) (simp_all add: HOLESTART_def sample_boot_def)
qed

text \<open>C4: Whatever memory contains at power-on, the initialisation ends in the dispatcher's loop with
  the first process running under process number 33 and the kernel's invariant established.\<close>

theorem boot_establishes_invariant:
  assumes "0 < end_image" and "end_image + 32768 \<le> HOLESTART" and "addr_login_proc bi \<noteq> 0"
  shows "\<exists>s idt'. initproc bi (power_on m hs img etext end_image io0) idt = Some (s, idt') \<and> kernel_ok s \<and>
    currproc s = Table 0 \<and> pid (procs s (Table 0)) = 33"
  using boot_ok [OF assms] .

lemma boot_establishes_invariant_witness:
  "\<exists>s idt'. initproc sample_boot power_on_state (\<lambda>_. zero_idt_entry) = Some (s, idt') \<and> currproc s = Table 0 \<and>
     pid (procs s (Table 0)) = 33"
  using boot_establishes_invariant [of "0x20000" sample_boot] unfolding power_on_state_def
  by (fastforce simp: HOLESTART_def sample_boot_def)



text \<open>C3: In every reachable state the stack and the signal table of every live process are allocated
  blocks of the heap, and no two of these blocks, of one or of two processes, share a byte.\<close>

theorem reachable_memory_isolation:
  assumes "reachable s"
  shows "\<exists>L. heap_live (heap s) L \<and>
    (\<forall>p. alive (procs s) p \<longrightarrow> {memory_region (procs s p), signal_table (procs s p)} \<subseteq> dom L \<and>
       memory_region (procs s p) \<noteq> signal_table (procs s p)) \<and>
    (\<forall>p q a b. alive (procs s) p \<and> alive (procs s) q \<and> p \<noteq> q \<and>
       a \<in> {memory_region (procs s p), signal_table (procs s p)} \<and>
       b \<in> {memory_region (procs s q), signal_table (procs s q)} \<longrightarrow>
       {unat a ..< unat a + the (L a)} \<inter> {unat b ..< unat b + the (L b)} = {})"
proof -
  obtain qs where inv: "kinv s (Some (currproc s)) qs" using reachable_ok [OF assms] by (auto simp: kernel_ok_def)
  let ?A = "UNIV \<times> {p. alive (procs s) p}" and ?o = "owned_block (procs s)"
  obtain L where L: "heap_live (heap s) L" "?o ` ?A \<subseteq> dom L" "inj_on ?o ?A"
    using kinvD(4) [OF inv] by (auto simp: mem_ok_def)
  have blk: "a \<in> {memory_region (procs s p), signal_table (procs s p)} \<longleftrightarrow> (\<exists>b. a = ?o (b, p))" for a p
    by (auto simp: owned_block_def)
  have "{memory_region (procs s p), signal_table (procs s p)} \<subseteq> dom L \<and> memory_region (procs s p) \<noteq> signal_table (procs s p)"
    if p: "alive (procs s) p" for p
  proof
    show "{memory_region (procs s p), signal_table (procs s p)} \<subseteq> dom L"
    proof -
      have "?o (b, p) \<in> dom L" for b using p by (intro subsetD [OF L(2)] imageI) simp
      from this [of True] this [of False]
      show ?thesis by (simp add: owned_block_def)
    qed
    show "memory_region (procs s p) \<noteq> signal_table (procs s p)"
      using inj_onD [OF L(3), of "(True, p)" "(False, p)"] p by (auto simp: owned_block_def)
  qed
  moreover have "{unat a ..< unat a + the (L a)} \<inter> {unat b ..< unat b + the (L b)} = {}"
    if h: "alive (procs s) p" "alive (procs s) q" "p \<noteq> q" "a \<in> {memory_region (procs s p), signal_table (procs s p)}"
      "b \<in> {memory_region (procs s q), signal_table (procs s q)}" for p q a b
  proof -
    obtain i j where ij: "a = ?o (i, p)" "b = ?o (j, q)" using h(4,5) blk by blast
    then have "a \<noteq> b" using inj_onD [OF L(3), of "(i, p)" "(j, q)"] h(1-3) by auto
    moreover have "a \<in> dom L" "b \<in> dom L" unfolding ij using h(1,2) by (auto intro!: subsetD [OF L(2)] imageI)
    ultimately show ?thesis using kmem.live_apart [OF L(1), of a "the (L a)" b "the (L b)"] by auto
  qed
  ultimately show ?thesis using L(1) by blast
qed

lemma reachable_memory_isolation_witness:
  "memory_region (procs booted (Table 0)) \<noteq> signal_table (procs booted (Table 0))"
proof -
  have "alive (procs booted) (Table 0)"
    using procs_okD(2) [OF kinvD(2) [OF booted_kinv], of "Table 0"] by (simp add: alive_def known_def PCB_TABLE_SIZE_def)
  then show ?thesis using reachable_memory_isolation [OF booted_reachable] by blast
qed



text \<open>C5: Under the timer no ready process starves: the one at position \<open>i\<close> of the ready queue runs
  after exactly \<open>i + 1\<close> timer interrupts.\<close>

theorem ready_process_runs:
  assumes "kinv s (Some (currproc s)) qs" and "list_all timer_event evs" and "length evs = Suc i"
    and "i < length (qs In_ready)"
  shows "\<exists>s'. for_each dispatch_step evs s = Some s' \<and> currproc s' = qs In_ready ! i"
  using assms by (rule timer_runs)

lemma ready_process_runs_witness:
  "\<exists>s'. for_each dispatch_step [timer_tick] two_procs = Some s' \<and> currproc s' = Table 1"
  using ready_process_runs [OF two_procs_inv, of "[timer_tick]" 0] by simp

text \<open>C6: A sleeping process wakes up on time: with \<open>t\<close> ticks left it is still asleep after fewer
  timer interrupts, and ready or running after exactly \<open>t\<close>.\<close>

theorem sleeper_wakes_on_time:
  assumes "kinv s (Some (currproc s)) qs" and "(p, t) \<in> set (wake_times s qs)" and "list_all timer_event evs"
    and "int (length evs) \<le> t"
  shows "\<exists>s'. for_each dispatch_step evs s = Some s' \<and>
    (int (length evs) < t \<longrightarrow> curr_state (procs s' p) = PROC_STATE_BLOCKED \<and> blocking_queue_name (procs s' p) = SLEEP) \<and>
    (int (length evs) = t \<longrightarrow> currproc s' = p \<or> curr_state (procs s' p) = PROC_STATE_READY)"
  using assms by (rule sleeper_run)

lemma sleeper_wakes_on_time_witness:
  "\<exists>s'. for_each dispatch_step [timer_tick, timer_tick] asleep = Some s' \<and> curr_state (procs s' (Table 0)) = PROC_STATE_BLOCKED"
proof -
  obtain qs where qs: "kinv asleep (Some (currproc asleep)) qs" "wake_times asleep qs = [(Table 0, 3)]" using asleep_kinv by blast
  have "(Table 0, 3) \<in> set (wake_times asleep qs)" by (simp add: qs(2))
  from sleeper_wakes_on_time [OF qs(1) this, of "[timer_tick, timer_tick]"] show ?thesis by auto
qed

end
