(* ===== verification/Libc_Props.thy ===== *)
theory Libc_Props
  imports Libc
begin

text \<open>
  The string routines: what \<open>strncpy\<close> copies, that \<open>strcmp\<close> is the lexicographic comparison of two
  strings, and that \<open>atoi\<close> reads a decimal number.
\<close>

subsection \<open>Copying\<close>

text \<open>Two ranges of \<open>n\<close> bytes without a common address.\<close>

definition disjoint_ranges :: "u32 \<Rightarrow> u32 \<Rightarrow> nat \<Rightarrow> bool" where
  "disjoint_ranges d s n \<longleftrightarrow> n \<le> 2 ^ 32 \<and> (\<forall>i<n. \<forall>j<n. d + of_nat i \<noteq> s + of_nat j)"

lemma disjoint_ranges_Suc:
  assumes "disjoint_ranges d s (Suc n)"
  shows "disjoint_ranges (d + 1) (s + 1) n" and "\<And>i. i < n \<Longrightarrow> s + 1 + of_nat i \<noteq> d" and "s \<noteq> d"
    and "\<And>i. i < n \<Longrightarrow> d + 1 + of_nat i \<noteq> d"
proof -
  have h: "Suc n \<le> 2 ^ 32" "\<And>i j. i < Suc n \<Longrightarrow> j < Suc n \<Longrightarrow> d + of_nat i \<noteq> s + of_nat j"
    using assms unfolding disjoint_ranges_def by blast+
  have "d + 1 + of_nat i \<noteq> s + 1 + of_nat j" if "i < n" "j < n" for i j
    using h(2) [of "Suc i" "Suc j"] that by (simp add: add.assoc)
  then show "disjoint_ranges (d + 1) (s + 1) n" using h(1) by (simp add: disjoint_ranges_def)
  show "\<And>i. i < n \<Longrightarrow> s + 1 + of_nat i \<noteq> d" using h(2) [of 0 "Suc _"] by (simp add: add.assoc) metis
  show "s \<noteq> d" using h(2) [of 0 0] by simp
  show "d + 1 + of_nat i \<noteq> d" if "i < n" for i
  proof -
    have "of_nat (Suc i) \<noteq> (0 :: u32)" using that h(1) by (simp only: word_of_nat_eq_0_iff) (auto dest: dvd_imp_le)
    then show ?thesis by (simp add: add.assoc)
  qed
qed

lemma strncpy_pad_bytes:
  "(\<forall>x. (\<forall>i<n. x \<noteq> d + of_nat i) \<longrightarrow> strncpy_pad m d n x = m x) \<and>
   (n \<le> 2 ^ 32 \<longrightarrow> (\<forall>i<n. strncpy_pad m d n (d + of_nat i) = 0))"
proof (induction n arbitrary: d m)
  case 0
  then show ?case by simp
next
  case (Suc n)
  define m1 where "m1 = m(d := 0)"
  have m1: "m1 d = 0" "\<And>x. x \<noteq> d \<Longrightarrow> m1 x = m x" and step: "strncpy_pad m d (Suc n) = strncpy_pad m1 (d + 1) n"
    by (simp_all add: m1_def)
  note IH = conjunct1 [OF Suc.IH [where m = m1 and d = "d + 1"]] conjunct2 [OF Suc.IH [where m = m1 and d = "d + 1"]]
  have out: "strncpy_pad m d (Suc n) x = m x" if "\<forall>i<Suc n. x \<noteq> d + of_nat i" for x
  proof -
    have "x \<noteq> d + 1 + of_nat i" if "i < n" for i using \<open>\<forall>i<Suc n. x \<noteq> d + of_nat i\<close> that by (force simp: add.assoc)
    moreover have "x \<noteq> d" using that by force
    ultimately show ?thesis using IH(1) m1(2) unfolding step by simp
  qed
  moreover have "strncpy_pad m d (Suc n) (d + of_nat i) = 0" if n: "Suc n \<le> 2 ^ 32" and i: "i < Suc n" for i
  proof (cases i)
    case 0
    have "d \<noteq> d + 1 + of_nat j" if "j < n" for j
    proof -
      have "of_nat (Suc j) \<noteq> (0 :: u32)" using that n by (simp only: word_of_nat_eq_0_iff) (auto dest: dvd_imp_le)
      then show ?thesis by (simp add: add.assoc)
    qed
    then show ?thesis using 0 IH(1) m1(1) unfolding step by simp
  next
    case (Suc j)
    then show ?thesis using IH(2) n i unfolding step by (simp add: add.assoc)
  qed
  ultimately show ?case by blast
qed

text \<open>The byte that arrives: the source's, or 0 after the source's terminator.\<close>

definition copied :: "bytes \<Rightarrow> u32 \<Rightarrow> nat \<Rightarrow> u8" where
  "copied m s i = (if \<exists>j<i. m (s + of_nat j) = 0 then 0 else m (s + of_nat i))"

lemma copied_Suc: "copied m s (Suc i) = (if m s = 0 then 0 else copied m (s + 1) i)"
proof -
  have "(\<exists>j<Suc i. m (s + of_nat j) = 0) \<longleftrightarrow> m s = 0 \<or> (\<exists>j<i. m (s + 1 + of_nat j) = 0)"
    by (simp add: Ex_less_Suc2 add.assoc)
  moreover have "s + of_nat (Suc i) = s + 1 + of_nat i" by simp
  ultimately show ?thesis unfolding copied_def by presburger
qed

lemma copied_cong: "(\<And>j. j \<le> i \<Longrightarrow> m' (s + of_nat j) = m (s + of_nat j)) \<Longrightarrow> copied m' s i = copied m s i"
  by (auto simp: copied_def)

lemma strncpy_loop_bytes:
  assumes "disjoint_ranges d s n"
  shows "(\<forall>x. (\<forall>i<n. x \<noteq> d + of_nat i) \<longrightarrow> strncpy_loop m d s n x = m x) \<and>
    (\<forall>i<n. strncpy_loop m d s n (d + of_nat i) = copied m s i)"
  using assms
proof (induction n arbitrary: d s m)
  case 0
  then show ?case by simp
next
  case (Suc n)
  note d = disjoint_ranges_Suc [OF Suc.prems]
  have n: "n \<le> 2 ^ 32" using Suc.prems by (simp add: disjoint_ranges_def)
  define m1 where "m1 = m(d := m s)"
  have m1: "m1 d = m s" "\<And>x. x \<noteq> d \<Longrightarrow> m1 x = m x" by (simp_all add: m1_def)
  have step: "strncpy_loop m d s (Suc n) = (if m s = 0 then strncpy_pad m1 (d + 1) n else strncpy_loop m1 (d + 1) (s + 1) n)"
    using d(3) by (simp add: Let_def m1_def)
  have out: "strncpy_loop m d s (Suc n) x = m1 x" if "\<forall>i<n. x \<noteq> d + 1 + of_nat i" for x
    using that conjunct1 [OF Suc.IH [OF d(1), of m1]] conjunct1 [OF strncpy_pad_bytes [of n "d + 1" m1]] unfolding step by simp
  have c: "copied m1 (s + 1) i = copied m (s + 1) i" if "i < n" for i
    by (rule copied_cong) (use d(2) m1(2) that in auto)
  have ins: "strncpy_loop m d s (Suc n) (d + 1 + of_nat i) = copied m s (Suc i)" if "i < n" for i
    using that conjunct2 [OF Suc.IH [OF d(1), of m1]] conjunct2 [OF strncpy_pad_bytes [of n "d + 1" m1]] n c unfolding step copied_Suc by simp
  have "strncpy_loop m d s (Suc n) x = m x" if "\<forall>i<Suc n. x \<noteq> d + of_nat i" for x
  proof -
    have "x \<noteq> d + 1 + of_nat i" if "i < n" for i using \<open>\<forall>i<Suc n. x \<noteq> d + of_nat i\<close> that by (force simp: add.assoc)
    moreover have "x \<noteq> d" using that by force
    ultimately show ?thesis using out [of x] m1(2) by simp
  qed
  moreover have "strncpy_loop m d s (Suc n) (d + of_nat i) = copied m s i" if "i < Suc n" for i
  proof (cases i)
    case 0
    have "\<forall>i<n. d \<noteq> d + 1 + of_nat i" using d(4) by metis
    then show ?thesis using 0 out [of d] m1(1) by (simp add: copied_def)
  next
    case (Suc j)
    then show ?thesis using ins [of j] that by (simp add: add.assoc)
  qed
  ultimately show ?case by blast
qed

text \<open>C33: On ranges that do not overlap \<open>strncpy\<close> writes exactly \<open>n\<close> bytes, the source's up to its first
  zero byte and zeros from there on. Message passing copies with it, so a message is cut at a zero byte.\<close>

theorem strncpy_copies:
  assumes "disjoint_ranges d s (nat n)"
  shows "(\<forall>x. (\<forall>i<nat n. x \<noteq> d + of_nat i) \<longrightarrow> strncpy m d s n x = m x) \<and>
    (\<forall>i<nat n. strncpy m d s n (d + of_nat i) =
      (if \<exists>j<i. m (s + of_nat j) = 0 then 0 else m (s + of_nat i)))"
  using strncpy_loop_bytes [OF assms, of m] by (simp add: strncpy_def copied_def)

definition sample_message :: bytes where
  "sample_message = (\<lambda>x. if x = 0x100 then 72 else if x = 0x102 then 73 else 0)"

lemma strncpy_copies_witness:
  "strncpy sample_message 0x200 0x100 3 0x200 = 72 \<and> strncpy sample_message 0x200 0x100 3 0x202 = 0"
proof -
  have three: "i = 0 \<or> i = 1 \<or> i = 2" if "i < 3" for i :: nat using that by arith
  have "0x200 + of_nat i \<noteq> (0x100 + of_nat j :: u32)" if "i < 3" "j < 3" for i j
    using three [OF that(1)] three [OF that(2)] by (elim disjE) simp_all
  then have "disjoint_ranges 0x200 0x100 (nat 3)" by (simp add: disjoint_ranges_def)
  note c = conjunct2 [OF strncpy_copies [OF this, of sample_message], rule_format]
  have m: "sample_message 0x100 = 72" "sample_message 0x101 = 0" by (simp_all add: sample_message_def)
  then have "\<exists>j<2. sample_message (0x100 + of_nat j) = 0" by (intro exI [of _ 1]) simp
  then show ?thesis using c [of 0] c [of 2] m by simp
qed


subsection \<open>Comparing\<close>

text \<open>The zero-terminated string \<open>cs\<close> is at \<open>a\<close>.\<close>

fun str_at :: "bytes \<Rightarrow> u32 \<Rightarrow> u8 list \<Rightarrow> bool" where
  "str_at m a [] = (m a = 0)"
| "str_at m a (c # cs) = (m a = c \<and> c \<noteq> 0 \<and> str_at m (a + 1) cs)"

text \<open>The comparison of two character sequences, with signed characters; the end counts as a zero character.\<close>

fun compare_chars :: "u8 list \<Rightarrow> u8 list \<Rightarrow> int" where
  "compare_chars [] [] = 0"
| "compare_chars (c # cs) [] = sint c"
| "compare_chars [] (d # ds) = - sint d"
| "compare_chars (c # cs) (d # ds) = (if c = d then compare_chars cs ds else sint c - sint d)"

lemma strcmp_run:
  "str_at m a cs \<Longrightarrow> str_at m b ds \<Longrightarrow> strcmp m a b = Some (compare_chars cs ds)"
proof (induction cs ds arbitrary: a b rule: compare_chars.induct)
  case 1
  then show ?case by (subst strcmp.simps) simp
next
  case (2 c cs)
  then show ?case by (subst strcmp.simps) auto
next
  case (3 d ds)
  then show ?case by (subst strcmp.simps) auto
next
  case (4 c cs d ds)
  then show ?case by (subst strcmp.simps) auto
qed

lemma compare_chars_eq: "0 \<notin> set cs \<Longrightarrow> 0 \<notin> set ds \<Longrightarrow> compare_chars cs ds = 0 \<longleftrightarrow> cs = ds"
proof (induction cs ds rule: compare_chars.induct)
  case (2 c cs)
  have "sint c \<noteq> sint (0 :: u8)" using 2 signed_word_eqI [of c 0] by auto
  then show ?case by simp
next
  case (3 d ds)
  have "sint d \<noteq> sint (0 :: u8)" using 3 signed_word_eqI [of d 0] by auto
  then show ?case by simp
next
  case (4 c cs d ds)
  then show ?case using signed_word_eqI [of c d] by auto
qed simp

lemma str_at_nonzero: "str_at m a cs \<Longrightarrow> 0 \<notin> set cs"
  by (induction cs arbitrary: a) auto

text \<open>On terminated strings \<open>strcmp\<close> returns, and its value is the comparison of the two character
  sequences; it is 0 exactly for equal strings, which is what the login and the shell rely on.\<close>

theorem strcmp_compares:
  assumes "str_at m a cs" and "str_at m b ds"
  shows "strcmp m a b = Some (compare_chars cs ds) \<and> (strcmp m a b = Some 0 \<longleftrightarrow> cs = ds)"
  using strcmp_run [OF assms] compare_chars_eq [OF str_at_nonzero [OF assms(1)] str_at_nonzero [OF assms(2)]] by simp

lemma strcmp_compares_witness:
  "strcmp sample_message 0x100 0x102 = Some (- 1)"
proof -
  have "str_at sample_message 0x100 [72]" "str_at sample_message 0x102 [73]" by (simp_all add: sample_message_def)
  from strcmp_compares [OF this] show ?thesis by simp
qed

subsection \<open>Numbers\<close>

definition digits :: "u8 list \<Rightarrow> bool" where
  "digits ds \<longleftrightarrow> (\<forall>d\<in>set ds. 48 \<le> sint d \<and> sint d \<le> 57)"

text \<open>The number a sequence of digits writes, from the first digit on.\<close>

definition decimal :: "int \<Rightarrow> u8 list \<Rightarrow> int" where
  "decimal = foldl (\<lambda>n d. n * 10 + (sint d - 48))"

lemma decimal_simps [simp]:
  "decimal n [] = n" "decimal n (d # ds) = decimal (n * 10 + (sint d - 48)) ds"
  "decimal n (ds @ es) = decimal (decimal n ds) es"
  by (simp_all add: decimal_def)

lemma decimal_mono: "digits ds \<Longrightarrow> 0 \<le> n \<Longrightarrow> n \<le> decimal n ds"
proof (induction ds arbitrary: n)
  case (Cons d ds)
  have "n \<le> n * 10 + (sint d - 48)" "0 \<le> n * 10 + (sint d - 48)" using Cons.prems by (auto simp: digits_def)
  then show ?case using Cons.IH [of "n * 10 + (sint d - 48)"] Cons.prems by (auto simp: digits_def)
qed simp

lemma not_digit_0: "\<not> is_digit 0"
  by (simp add: is_digit_def)

lemma atoi_digits_run:
  assumes "str_at m a ds" and "digits ds" and "0 \<le> n" and "decimal n ds < 2 ^ 31"
  shows "atoi_digits m a n = Some (decimal n ds)"
  using assms
proof (induction ds arbitrary: a n)
  case Nil
  then show ?case by (subst atoi_digits.simps) (simp add: not_digit_0)
next
  case (Cons d ds)
  have d: "48 \<le> sint d" "sint d \<le> 57" "is_digit d" "digits ds" using Cons.prems(2) by (auto simp: digits_def is_digit_def)
  let ?n = "n * 10 + (sint d - 48)"
  have n: "0 \<le> ?n" using d Cons.prems(3) by simp
  then have "?n < 2 ^ 31" using decimal_mono [OF d(4) n] Cons.prems(4) by simp
  then have "s32 (n * 10 + sint d - 48) = ?n" using n by (simp add: in_s32_def)
  then show ?case using Cons.IH [OF _ d(4) n] Cons.prems(1,4) d(3) by (subst atoi_digits.simps) simp
qed

lemma digit_not_sign:
  assumes "digits (d # ds)"
  shows "d \<noteq> 0x20" "d \<noteq> 0x09" "d \<noteq> 0x2D" "d \<noteq> 0x2B"
  using assms by (auto simp: digits_def)

text \<open>The text of a number: a minus sign if need be, then its digits.\<close>

definition numeral_text :: "int \<Rightarrow> u8 list \<Rightarrow> bool" where
  "numeral_text n cs \<longleftrightarrow> (\<exists>ds. digits ds \<and> ds \<noteq> [] \<and> decimal 0 ds = \<bar>n\<bar> \<and> cs = (if n < 0 then 0x2D # ds else ds))"

lemma atoi_text:
  assumes "numeral_text n cs" and "str_at m a cs" and "\<bar>n\<bar> < 2 ^ 31"
  shows "atoi m a = Some n"
proof -
  obtain ds where ds: "digits ds" "ds \<noteq> []" "decimal 0 ds = \<bar>n\<bar>" "cs = (if n < 0 then 0x2D # ds else ds)"
    using assms(1) by (auto simp: numeral_text_def)
  show ?thesis
  proof (cases "n < 0")
    case True
    then have s: "m a = 0x2D" "str_at m (a + 1) ds" using assms(2) ds(4) by auto
    have "atoi_start m a = Some (True, a + 1)" using s(1) by (subst atoi_start.simps) simp
    moreover have "atoi_digits m (a + 1) 0 = Some (- n)" using atoi_digits_run [OF s(2) ds(1), of 0] ds(3) assms(3) True by simp
    ultimately show ?thesis using True assms(3) by (simp add: atoi_def in_s32_def)
  next
    case False
    then have s: "str_at m a ds" using assms(2) ds(4) by auto
    obtain d es where de: "ds = d # es" using ds(2) by (cases ds) auto
    have "m a = d" using s de by simp
    then have "atoi_start m a = Some (False, a)" using digit_not_sign [of d es] ds(1) de by (subst atoi_start.simps) simp
    moreover have "atoi_digits m a 0 = Some n" using atoi_digits_run [OF s ds(1), of 0] ds(3) assms(3) False by simp
    ultimately show ?thesis by (simp add: atoi_def)
  qed
qed
end
