(* ===== verification/Ipc_Props.thy ===== *)
theory Ipc_Props
  imports Witness_States Libc_Props
begin

text \<open>
  Messages: a send or a receive completes at once when the partner is already blocked in the
  matching call, and otherwise blocks the caller in the partner's queue; a receive from anyone
  serves the senders in the order they came.
\<close>

text \<open>C19: A send to a process that is waiting for it copies the message, tells a receiver from anyone who
  sent it, and makes the receiver ready; a send to any other process blocks the sender at the end
  of that process's queue of senders. The caller goes on with the result either way.\<close>

theorem send_outcomes:
  assumes inv: "kinv s (Some (currproc s)) qs" and c: "valid (currproc s)" and d: "alive (procs s) d" "d \<noteq> currproc s"
    and b: "buffer \<noteq> 0" "0 < len"
  shows "if awaits s d (currproc s)
    then \<exists>s' qs'. send (currproc s) d buffer len s = Some (SYSPID_OK, s') \<and> kinv s' (Some (currproc s)) qs' \<and>
      qs' In_ready = qs In_ready @ [d] \<and> ram s' = delivered s (currproc s) d buffer len \<and>
      curr_state (procs s' d) = PROC_STATE_READY \<and> ret (procs s' d) = SYSPID_OK
    else \<exists>s'. send (currproc s) d buffer len s = Some (BLOCKERR, s') \<and> ram s' = ram s \<and>
      kinv (blocked (currproc s) s') None (qs(In_blocking d SENDER := qs (In_blocking d SENDER) @ [currproc s]))"
proof (cases "awaits s d (currproc s)")
  case True
  obtain s' where s': "send (currproc s) d buffer len s = Some (SYSPID_OK, s')"
    "kinv s' (Some (currproc s)) ((leave d s qs)(In_ready := leave d s qs In_ready @ [d]))"
    "ram s' = delivered s (currproc s) d buffer len" "ret (procs s' d) = SYSPID_OK" "curr_state (procs s' d) = PROC_STATE_READY"
    by (rule send_delivers [OF inv d(1) d(2) [symmetric] b True], rule that)
  have "curr_state (procs s d) = PROC_STATE_BLOCKED"
    using True named_blocked [OF inv d(1)] by (auto simp: awaits_def)
  then have "leave d s qs In_ready = qs In_ready" by (auto simp: leave_def place_of_def split: option.splits if_splits)
  then show ?thesis using s' True by (auto intro!: exI [of _ s'])
next
  case False
  obtain s' where "send (currproc s) d buffer len s = Some (BLOCKERR, s')"
    "kinv (blocked (currproc s) s') None (qs(In_blocking d SENDER := qs (In_blocking d SENDER) @ [currproc s]))" "same_rest s' s"
    by (rule send_blocks [OF inv c d(1) b False], rule that)
  then show ?thesis using False by (auto simp: same_rest_def)
qed

text \<open>The second process of \<open>two_procs\<close> is ready, so the first one's send blocks; then the second runs.\<close>

lemma two_procs_alive: "alive (procs two_procs) (Table 1)" "\<not> awaits two_procs (Table 1) (Table 0)" "\<not> offers two_procs (Table 1) (Table 0)"
proof -
  have r: "curr_state (procs two_procs (Table 1)) = PROC_STATE_READY" using sleeper_state(2) [OF two_procs_kinv, of "Table 1"] by simp
  then show "alive (procs two_procs) (Table 1)" by (simp add: alive_def PCB_TABLE_SIZE_def)
  have "blocking_ok (procs two_procs) (procs two_procs (Table 1))"
    using procs_okD(4) [OF kinvD(2) [OF two_procs_kinv], of "Table 1"] by (simp add: PCB_TABLE_SIZE_def)
  from blocking_ok_cases(1) [OF this r] show "\<not> awaits two_procs (Table 1) (Table 0)" "\<not> offers two_procs (Table 1) (Table 0)"
    by (simp_all add: awaits_def offers_def)
qed

lemma send_outcomes_witness:
  "\<exists>s'. send (Table 0) (Table 1) 0x200000 5 two_procs = Some (BLOCKERR, s') \<and>
     kinv (blocked (Table 0) s') None (two_queues(In_blocking (Table 1) SENDER := [Table 0]))"
proof -
  have v: "valid (currproc two_procs)" "Table 1 \<noteq> currproc two_procs" "(0x200000 :: u32) \<noteq> 0" "0 < (5 :: u32)"
    by (simp_all add: PCB_TABLE_SIZE_def)
  show ?thesis using send_outcomes [OF two_procs_inv v(1) two_procs_alive(1) v(2-4)] two_procs_alive(2) by auto
qed

definition sent :: kernel where
  "sent = snd (the (send (Table 0) (Table 1) 0x200000 5 two_procs))"

definition offering :: kernel where
  "offering = the (switch_proc (ret_cur SYSPID_DNE (block_cur (ret_cur BLOCKERR sent))))"

lemma offering_kinv: "\<exists>qs. kinv offering (Some (Table 1)) qs \<and> qs (In_blocking (Table 1) SENDER) = [Table 0]"
  and offering_currproc [simp]: "currproc offering = Table 1"
proof -
  have v: "valid (Table 0)" "(0x200000 :: u32) \<noteq> 0" "0 < (5 :: u32)" by (simp_all add: PCB_TABLE_SIZE_def)
  let ?qs = "two_queues(In_blocking (Table 1) SENDER := two_queues (In_blocking (Table 1) SENDER) @ [Table 0])"
  obtain s1 where s1: "send (Table 0) (Table 1) 0x200000 5 two_procs = Some (BLOCKERR, s1)" "kinv (blocked (Table 0) s1) None ?qs"
    "same_rest s1 two_procs"
    by (rule send_blocks [OF two_procs_kinv v(1) two_procs_alive(1) v(2,3) two_procs_alive(2)], rule that)
  have b: "sent = s1" using s1(1) by (simp add: sent_def)
  have c: "currproc s1 = Table 0" "Table 0 \<notin> set (?qs In_sleep)" using s1(3) by (simp_all add: same_rest_def)
  obtain s' where s': "switch_proc (ret_cur SYSPID_DNE (block_cur (ret_cur BLOCKERR s1))) = Some s'" "currproc s' = next_of (?qs In_ready)"
    "kinv s' (Some (currproc s')) (?qs(In_ready := tl (?qs In_ready)))"
    by (rule block_and_switch [OF s1(2) c], rule that)
  have o: "offering = s'" by (simp add: offering_def b s'(1))
  show "currproc offering = Table 1" using s'(2) o by (simp add: next_of_def)
  then show "\<exists>qs. kinv offering (Some (Table 1)) qs \<and> qs (In_blocking (Table 1) SENDER) = [Table 0]"
    using s'(3) o by (intro exI [of _ "?qs(In_ready := tl (?qs In_ready))"]) simp
qed

text \<open>C20: A receive from a process that is blocked sending to the caller copies that message and makes the
  sender ready with success; from any other process it blocks the caller in that one's queue.\<close>

theorem recv_outcomes:
  assumes inv: "kinv s (Some (currproc s)) qs" and c: "valid (currproc s)" and w: "alive (procs s) w"
    and b: "buffer \<noteq> 0" "0 < len"
  shows "if offers s w (currproc s)
    then \<exists>s' qs'. recv w (currproc s) buffer len s = Some (SYSPID_OK, s') \<and> kinv s' (Some (currproc s)) qs' \<and>
      qs' In_ready = qs In_ready @ [w] \<and>
      ram s' = strncpy (ram s) buffer (arg w 1 s) (sint (min (arg w 2 s) len)) \<and>
      curr_state (procs s' w) = PROC_STATE_READY \<and> ret (procs s' w) = SYSPID_OK
    else \<exists>s'. recv w (currproc s) buffer len s = Some (BLOCKERR, s') \<and> ram s' = ram s \<and>
      kinv (blocked (currproc s) s') None (qs(In_blocking w RECEIVER := qs (In_blocking w RECEIVER) @ [currproc s]))"
proof (cases "offers s w (currproc s)")
  case True
  obtain s' where s': "recv w (currproc s) buffer len s = Some (SYSPID_OK, s')"
    "kinv s' (Some (currproc s)) ((leave w s qs)(In_ready := leave w s qs In_ready @ [w]))"
    "ram s' = strncpy (ram s) buffer (arg w 1 s) (sint (min (arg w 2 s) len))"
    "ret (procs s' w) = SYSPID_OK" "curr_state (procs s' w) = PROC_STATE_READY"
    by (rule recv_delivers [OF inv w b True], rule that)
  have "curr_state (procs s w) = PROC_STATE_BLOCKED"
    using True named_blocked [OF inv w] by (auto simp: offers_def)
  then have "leave w s qs In_ready = qs In_ready" by (auto simp: leave_def place_of_def split: option.splits if_splits)
  then show ?thesis using s' True by (auto intro!: exI [of _ s'])
next
  case False
  obtain s' where "recv w (currproc s) buffer len s = Some (BLOCKERR, s')"
    "kinv (blocked (currproc s) s') None (qs(In_blocking w RECEIVER := qs (In_blocking w RECEIVER) @ [currproc s]))" "same_rest s' s"
    by (rule recv_blocks [OF inv c w b False], rule that)
  then show ?thesis using False by (auto simp: same_rest_def)
qed

lemma recv_outcomes_witness:
  "\<exists>s'. recv (Table 0) (Table 1) 0x210000 9 offering = Some (SYSPID_OK, s') \<and>
     ram s' = strncpy (ram offering) 0x210000 (arg (Table 0) 1 offering) (sint (min (arg (Table 0) 2 offering) 9)) \<and>
     curr_state (procs s' (Table 0)) = PROC_STATE_READY"
proof -
  obtain qs where qs: "kinv offering (Some (currproc offering)) qs" "qs (In_blocking (Table 1) SENDER) = [Table 0]"
    using offering_kinv by auto
  then have "Table 0 \<in> set (qs (In_blocking (Table 1) SENDER))" by simp
  then have p: "valid (Table 0)" "place_of (procs offering (Table 0)) = Some (In_blocking (Table 1) SENDER)"
    using qinvD(2) [OF kinvD(1) [OF qs(1)]] by blast+
  then have b: "offers offering (Table 0) (currproc offering)" "alive (procs offering) (Table 0)"
    by (auto simp: offers_def alive_def place_of_def split: proc_state.splits if_splits option.splits)
  have v: "valid (currproc offering)" "(0x210000 :: u32) \<noteq> 0" "0 < (9 :: u32)" by (simp_all add: PCB_TABLE_SIZE_def)
  show ?thesis using recv_outcomes [OF qs(1) v(1) b(2) v(2,3)] b(1) by auto
qed

text \<open>C21: A receive from anyone serves the process that has been blocked sending the longest: it stores that
  one's number, copies its message and makes it ready; with nobody sending, the caller blocks.\<close>

theorem recv_any_first_sender:
  assumes inv: "kinv s (Some (currproc s)) qs" and c: "valid (currproc s)" and b: "buffer \<noteq> 0" "0 < len"
  shows "case qs (In_blocking (currproc s) SENDER) of
      [] \<Rightarrow> \<exists>s'. recv_any (currproc s) buffer len s = Some (BLOCKERR, s') \<and> kinv (blocked (currproc s) s') None qs
    | w # ws \<Rightarrow> \<exists>s' qs' m. recv_any (currproc s) buffer len s = Some (SYSPID_OK, s') \<and> kinv s' (Some (currproc s)) qs' \<and>
        qs' (In_blocking (currproc s) SENDER) = ws \<and> qs' In_ready = qs In_ready @ [w] \<and>
        m = store32 (ram s) (arg (currproc s) 0 s) (word_of_int (pid (procs s w))) \<and>
        ram s' = strncpy m buffer (arg w 1 (s\<lparr>ram := m\<rparr>)) (sint (min (arg w 2 (s\<lparr>ram := m\<rparr>)) len)) \<and>
        curr_state (procs s' w) = PROC_STATE_READY \<and> ret (procs s' w) = SYSPID_OK"
proof (cases "qs (In_blocking (currproc s) SENDER)")
  case Nil
  obtain s' where "recv_any (currproc s) buffer len s = Some (BLOCKERR, s')" "kinv (blocked (currproc s) s') None qs"
    by (rule recv_any_blocks [OF inv c b Nil], rule that)
  then show ?thesis using Nil by auto
next
  case (Cons w ws)
  define m where "m = store32 (ram s) (arg (currproc s) 0 s) (word_of_int (pid (procs s w)))"
  obtain s' where s': "recv_any (currproc s) buffer len s = Some (SYSPID_OK, s')"
    "kinv s' (Some (currproc s)) (qs(In_blocking (currproc s) SENDER := ws, In_ready := qs In_ready @ [w]))"
    "ram s' = (let m = store32 (ram s) (arg (currproc s) 0 s) (word_of_int (pid (procs s w)))
      in strncpy m buffer (arg w 1 (s\<lparr>ram := m\<rparr>)) (sint (min (arg w 2 (s\<lparr>ram := m\<rparr>)) len)))"
    "ret (procs s' w) = SYSPID_OK" "curr_state (procs s' w) = PROC_STATE_READY"
    by (rule recv_any_delivers [OF inv c b Cons], rule that)
  show ?thesis unfolding Cons list.case
    by (rule exI [of _ s'], rule exI [of _ "qs(In_blocking (currproc s) SENDER := ws, In_ready := qs In_ready @ [w])"],
        rule exI [of _ m]) (use s' in \<open>simp add: m_def Let_def\<close>)
qed

lemma recv_any_first_sender_witness:
  "\<exists>s'. recv_any (Table 1) 0x210000 9 offering = Some (SYSPID_OK, s') \<and> ret (procs s' (Table 0)) = SYSPID_OK"
proof -
  obtain qs where qs: "kinv offering (Some (currproc offering)) qs" "qs (In_blocking (Table 1) SENDER) = [Table 0]"
    using offering_kinv by auto
  have v: "valid (currproc offering)" "(0x210000 :: u32) \<noteq> 0" "0 < (9 :: u32)" by (simp_all add: PCB_TABLE_SIZE_def)
  show ?thesis using recv_any_first_sender [OF qs(1) v] qs(2) by auto
qed

end
