(* ===== verification/Syscalls.thy ===== *)
theory Syscalls
  imports Dispatch
begin

text \<open>
  c/syscall.c, the stubs a process calls. A stub pushes its arguments and the request number on
  the process's stack and raises interrupt 50; the value is the words pushed, in memory order
  (the request number first). \<open>syscall_event\<close> is the event the context switcher then sees.
\<close>

text \<open>The number of a request is its position in the enumeration.\<close>

fun request_num :: "syscall_request_id \<Rightarrow> u32" where
  "request_num TIMER_INT = 0"
| "request_num KEYBOARD_INT = 1"
| "request_num SYSCALL_CREATE = 2"
| "request_num SYSCALL_YIELD = 3"
| "request_num SYSCALL_STOP = 4"
| "request_num SYSCALL_GETPID = 5"
| "request_num SYSCALL_KILL = 6"
| "request_num SYSCALL_WAIT = 7"
| "request_num SYSCALL_PUTS = 8"
| "request_num SYSCALL_SEND = 9"
| "request_num SYSCALL_RECV = 10"
| "request_num SYSCALL_SLEEP = 11"
| "request_num SYSCALL_CPUTIMES = 12"
| "request_num SYSCALL_SIGHANDLER = 13"
| "request_num SYSCALL_SIGRETURN = 14"
| "request_num SYSCALL_OPEN = 15"
| "request_num SYSCALL_CLOSE = 16"
| "request_num SYSCALL_WRITE = 17"
| "request_num SYSCALL_READ = 18"
| "request_num SYSCALL_IOCTL = 19"

lemma request_of_num [simp]: "request_of_num (request_num r) = Some r"
  by (cases r) (simp_all add: request_of_num_def request_ids_def)

subsection \<open>Entering the kernel\<close>

definition syscall0 :: "syscall_request_id \<Rightarrow> u32 list" where
  "syscall0 request = [request_num request]"

definition syscall1 :: "syscall_request_id \<Rightarrow> u32 \<Rightarrow> u32 list" where
  "syscall1 request arg1 = [request_num request, arg1]"

definition syscall2 :: "syscall_request_id \<Rightarrow> u32 \<Rightarrow> u32 \<Rightarrow> u32 list" where
  "syscall2 request arg1 arg2 = [request_num request, arg1, arg2]"

definition syscall3 :: "syscall_request_id \<Rightarrow> u32 \<Rightarrow> u32 \<Rightarrow> u32 \<Rightarrow> u32 list" where
  "syscall3 request arg1 arg2 arg3 = [request_num request, arg1, arg2, arg3]"

definition push_words :: "u32 list \<Rightarrow> u32 \<times> bytes \<Rightarrow> u32 \<times> bytes" where
  "push_words ws = foldr push32 ws"

definition syscall_event :: "u32 list \<Rightarrow> user_regs \<Rightarrow> bytes \<Rightarrow> u8 \<Rightarrow> u8 \<Rightarrow> user_event" where
  "syscall_event ws r m kd ks =
     (let (sp, m) = push_words ws (r_sp r, m)
      in \<lparr>ev_reason = CTSW_SYSCALL, ev_regs = r\<lparr>r_sp := sp\<rparr>, ev_ram = m,
          ev_kbd_data = kd, ev_kbd_status = ks\<rparr>)"

text \<open>After the interrupt returns: the words are popped and the result is in \<open>eax\<close>.\<close>

definition syscall_result :: "u32 list \<Rightarrow> user_regs \<Rightarrow> int \<times> user_regs" where
  "syscall_result ws r = (sint (r_eax r), r\<lparr>r_sp := r_sp r + 4 * of_nat (length ws)\<rparr>)"

subsection \<open>The stubs\<close>

definition syscreate :: "u32 \<Rightarrow> int \<Rightarrow> u32 list" where
  "syscreate func stack = syscall2 SYSCALL_CREATE func (word_of_int stack)"

definition sysyield :: "u32 list" where "sysyield = syscall0 SYSCALL_YIELD"
definition sysstop :: "u32 list" where "sysstop = syscall0 SYSCALL_STOP"
definition sysgetpid :: "u32 list" where "sysgetpid = syscall0 SYSCALL_GETPID"

definition syskill :: "int \<Rightarrow> int \<Rightarrow> u32 list" where
  "syskill n signalNumber = syscall2 SYSCALL_KILL (word_of_int n) (word_of_int signalNumber)"

definition syswait :: "int \<Rightarrow> u32 list" where
  "syswait n = syscall1 SYSCALL_WAIT (word_of_int n)"

definition sysputs :: "u32 \<Rightarrow> u32 list" where
  "sysputs str = syscall1 SYSCALL_PUTS str"

definition syssendbuf :: "int \<Rightarrow> u32 \<Rightarrow> u32 \<Rightarrow> u32 list" where
  "syssendbuf dest_pid buffer len = syscall3 SYSCALL_SEND (word_of_int dest_pid) buffer len"

definition sysrecvbuf :: "u32 \<Rightarrow> u32 \<Rightarrow> u32 \<Rightarrow> u32 list" where
  "sysrecvbuf from_pid buffer len = syscall3 SYSCALL_RECV from_pid buffer len"

text \<open>\<open>syssend\<close> passes the address of its own parameter.\<close>

definition syssend :: "int \<Rightarrow> u32 \<Rightarrow> u32 list" where
  "syssend dest_pid num_addr = syssendbuf dest_pid num_addr 4"

definition sysrecv :: "u32 \<Rightarrow> u32 \<Rightarrow> u32 list" where
  "sysrecv from_pid num = sysrecvbuf from_pid num 4"

definition syssleep :: "u32 \<Rightarrow> u32 list" where
  "syssleep milliseconds = syscall1 SYSCALL_SLEEP milliseconds"

definition sysgetcputimes :: "u32 \<Rightarrow> u32 list" where
  "sysgetcputimes ps = syscall1 SYSCALL_CPUTIMES ps"

definition syssighandler :: "int \<Rightarrow> u32 \<Rightarrow> u32 \<Rightarrow> u32 list" where
  "syssighandler sig newhandler oldHandler =
     syscall3 SYSCALL_SIGHANDLER (word_of_int sig) newhandler oldHandler"

definition syssigreturn :: "u32 \<Rightarrow> u32 list" where
  "syssigreturn old_sp = syscall1 SYSCALL_SIGRETURN old_sp"

definition sysopen :: "int \<Rightarrow> u32 list" where
  "sysopen device_no = syscall1 SYSCALL_OPEN (word_of_int device_no)"

definition sysclose :: "int \<Rightarrow> u32 list" where
  "sysclose fd = syscall1 SYSCALL_CLOSE (word_of_int fd)"

definition syswrite :: "int \<Rightarrow> u32 \<Rightarrow> int \<Rightarrow> u32 list" where
  "syswrite fd buf buflen = syscall3 SYSCALL_WRITE (word_of_int fd) buf (word_of_int buflen)"

definition sysread :: "int \<Rightarrow> u32 \<Rightarrow> int \<Rightarrow> u32 list" where
  "sysread fd buf buflen = syscall3 SYSCALL_READ (word_of_int fd) buf (word_of_int buflen)"

text \<open>\<open>v\<close> is the address of the arguments after \<open>command\<close> on the caller's stack.\<close>

definition sysioctl :: "int \<Rightarrow> u32 \<Rightarrow> u32 \<Rightarrow> u32 list" where
  "sysioctl fd command v = syscall3 SYSCALL_IOCTL (word_of_int fd) command v"

end
