(* ===== verification/Context_Props.thy ===== *)
theory Context_Props
  imports Witness_States Syscalls
begin

text \<open>
  What a process sees of the kernel on its own stack: the context an interrupt saves is the one
  that is restored, a system call's arguments arrive, a new process starts at its function, and a
  signal handler runs on top of the interrupted context and gives it back.
\<close>

subsection \<open>Reading what was written elsewhere\<close>

lemma store32_other: "4 \<le> unat (x - a) \<Longrightarrow> store32 m a v x = m x"
proof -
  assume h: "4 \<le> unat (x - a)"
  have "x \<noteq> a + w" if "unat w < 4" for w using h that by auto
  from this [of 0] this [of 1] this [of 2] this [of 3] show ?thesis by (simp add: store32_def)
qed

lemma store32_above: "unat c + 4 \<le> unat w \<Longrightarrow> store32 m (a + c) v (a + w) = m (a + w)"
  by (rule store32_other) (simp add: unat_sub word_le_nat_alt)

lemma store32_above': "unat c + 4 \<le> unat w \<Longrightarrow> store32 m (c + a) v (a + w) = m (a + w)"
  using store32_above [of c w m a v] by (simp add: add.commute)

lemma store32_above_0: "4 \<le> unat w \<Longrightarrow> store32 m a v (a + w) = m (a + w)"
  using store32_above [of 0 w m a v] by simp

lemma load32_cong:
  assumes "\<And>i. i < 4 \<Longrightarrow> m' (a + of_nat i) = m (b + of_nat i)"
  shows "load32 m' a = load32 m b"
  using assms [of 0] assms [of 1] assms [of 2] assms [of 3] by (simp add: load32_def)

lemma unat_offset: "i < 2 ^ 31 \<Longrightarrow> j < 2 ^ 31 \<Longrightarrow> unat (of_nat i + of_nat j :: u32) = i + j"
  by (simp add: unat_of_nat take_bit_nat_eq_self flip: of_nat_add)

text \<open>Words at numeral distances from one base.\<close>

lemma apart_offsets [simp]:
  "apart (a + b) (a + c) \<longleftrightarrow> apart b c" "apart (a + b) a \<longleftrightarrow> apart b 0" "apart a (a + c) \<longleftrightarrow> apart 0 c"
  by (simp_all add: apart_def)

lemma load32_fill:
  assumes "unat w + 3 < n" and "n < 2 ^ 32"
  shows "load32 (fill_bytes a v n m) (a + w) = ucast v OR push_bit 8 (ucast v) OR push_bit 16 (ucast v) OR push_bit 24 (ucast v)"
proof -
  have "unat (w + of_nat i) < n" if "i < 4" for i :: nat
    using assms that by (simp add: unat_word_ariths(1) unat_of_nat take_bit_nat_eq_self)
  from this [of 0] this [of 1] this [of 2] this [of 3] show ?thesis by (simp add: load32_def fill_bytes_def add.assoc)
qed

subsection \<open>Contexts\<close>

lemma context_restored: "(case interrupt_entry r m of (sp, m') \<Rightarrow> popa_iret sp m') = r"
  by (simp add: interrupt_entry_def push32_def popa_iret_def cf_defs load32_store32_apart apart_def)



text \<open>The words a stub pushes lie above the context the interrupt pushes.\<close>

lemma interrupt_entry_base: "fst (interrupt_entry r m) = r_sp r - sizeof_context_frame"
  by (simp add: interrupt_entry_def push32_def cf_defs)

lemma interrupt_entry_above:
  assumes "44 \<le> unat w"
  shows "snd (interrupt_entry (r\<lparr>r_sp := a + 44\<rparr>) m) (a + w) = m (a + w)"
  using assms by (simp add: interrupt_entry_def push32_def store32_above store32_above' store32_above_0)

text \<open>C30: A system call arrives as it was made: the dispatcher reads the request number of the stub, the
  handler its three arguments, and the return value slot of the context holds the caller's \<open>eax\<close>.\<close>

theorem syscall_arguments_arrive:
  "\<exists>n s'. ctsw_return (syscall_event (syscall3 rq a b c) r m kd ks) (currproc s) s = Some (n, s') \<and>
    request_of_num n = Some rq \<and> carg 0 s' = a \<and> carg 1 s' = b \<and> carg 2 s' = c \<and>
    esp (cur s') = r_sp r - 16 - sizeof_context_frame \<and> ret (cur s') = sint (r_eax r) \<and>
    resumed_regs (currproc s') s' = r\<lparr>r_sp := r_sp r - 16\<rparr>"
proof -
  define base where "base = r_sp r - 60"
  define r' where "r' = r\<lparr>r_sp := base + 44\<rparr>"
  obtain sp mm where pw: "push_words (syscall3 rq a b c) (r_sp r, m) = (sp, mm)" by fastforce
  have sp: "sp = base + 44" and ws: "load32 mm sp = request_num rq" "load32 mm (sp + 4) = a"
    "load32 mm (sp + 8) = b" "load32 mm (sp + 12) = c"
    using pw by (auto simp: push_words_def syscall3_def push32_def load32_store32_apart apart_def base_def)
  obtain cx m' where ie: "interrupt_entry r' mm = (cx, m')" by fastforce
  have cx: "cx = base" using interrupt_entry_base [of r' mm] ie by (simp add: r'_def cf_defs)
  have w: "load32 m' (base + 44 + of_nat k) = load32 mm (sp + of_nat k)" if k: "k \<le> 12" for k
  proof (rule load32_cong)
    fix i :: nat assume i: "i < 4"
    have "unat (of_nat 44 + of_nat (k + i) :: u32) = 44 + (k + i)" using k i by (intro unat_offset) auto
    then have "snd (interrupt_entry r' mm) (base + (44 + of_nat (k + i))) = mm (base + (44 + of_nat (k + i)))"
      unfolding r'_def by (intro interrupt_entry_above) simp
    then show "m' (base + 44 + of_nat k + of_nat i) = mm (sp + of_nat k + of_nat i)" using ie sp by (simp add: algebra_simps)
  qed
  define s1 where "s1 = set_ret (currproc s) (sint (read32 (base + cf_eax) (s\<lparr>ram := m'\<rparr>))) (upd_proc (currproc s) (\<lambda>c. c\<lparr>esp := base\<rparr>)
    (s\<lparr>ram := m', io := (io s)\<lparr>ports := (ports (io s))(KEYBOARD_PORT_DATA := kd, KEYBOARD_PORT_CONTROL := ks)\<rparr>\<rparr>))"
  have ev: "syscall_event (syscall3 rq a b c) r m kd ks =
    \<lparr>ev_reason = CTSW_SYSCALL, ev_regs = r', ev_ram = mm, ev_kbd_data = kd, ev_kbd_status = ks\<rparr>"
    using pw by (simp add: syscall_event_def r'_def sp)
  define n where "n = load32 m' (base + 44)"
  define s' where "s' = upd_proc (currproc s) (\<lambda>c. c\<lparr>args := 48 + base\<rparr>) s1"
  have run: "ctsw_return (syscall_event (syscall3 rq a b c) r m kd ks) (currproc s) s = Some (n, s')"
    using ie by (simp add: n_def s'_def ctsw_return_def ev cx s1_def cf_defs CTSW_SYSCALL_def read32_def set_ret_def)
  have regs: "popa_iret base m' = r'" using context_restored [of r' mm] ie cx by simp
  have "n = request_num rq" using n_def w [of 0] ws(1) sp by simp
  moreover have "carg 0 s' = a" "carg 1 s' = b" "carg 2 s' = c"
    using w [of 4] w [of 8] w [of 12] ws(2-4) sp
    by (simp_all add: carg_def arg_def s'_def s1_def read32_def set_ret_def algebra_simps)
  moreover have "esp (cur s') = r_sp r - 16 - sizeof_context_frame"
    by (simp add: s'_def s1_def set_ret_def base_def cf_defs)
  moreover have "ret (cur s') = sint (r_eax r)"
    using arg_cong [OF regs, of r_eax] by (simp add: s'_def s1_def set_ret_def read32_def popa_iret_def r'_def cf_defs)
  moreover have "resumed_regs (currproc s') s' = r\<lparr>r_sp := r_sp r - 16\<rparr>"
    using regs by (simp add: resumed_regs_def s'_def s1_def set_ret_def r'_def base_def)
  ultimately show ?thesis using run by auto
qed

subsection \<open>The first context\<close>

lemma setup_frame_ram:
  "ram (setup_context_frame cf f s) =
     store32 (store32 (store32 (store32 (store32 (fill_bytes cf 0xA5 44 (ram s)) (cf + 32) f)
       (cf + 36) (ucast (code_segment (image s)))) (cf + 40) 0x3200) (cf + 12) (cf + 1)) (cf + 8) (cf + 1)"
  by (simp add: setup_context_frame_def Let_def read32_def cf_defs STARTING_EFLAGS_def ARM_INTERRUPTS_def)

lemma setup_frame_rest [simp]:
  "heap (setup_context_frame cf f s) = heap s" "image (setup_context_frame cf f s) = image s"
  by (simp_all add: setup_context_frame_def Let_def)

definition debug_word :: u32 where "debug_word = 0xA5A5A5A5"

lemma setup_frame_resume:
  "popa_iret cf (ram (setup_context_frame cf f s)) = \<lparr>r_edi = debug_word, r_esi = debug_word, r_ebp = cf + 1,
     r_ebx = debug_word, r_edx = debug_word, r_ecx = debug_word, r_eax = debug_word, r_eip = f,
     r_cs = ucast (code_segment (image s)), r_eflags = 0x3200, r_sp = cf + sizeof_context_frame\<rparr>"
  using load32_fill [of 0 44 cf "0xA5" "ram s"]
  by (simp add: popa_iret_def setup_frame_ram load32_store32_apart apart_def load32_fill debug_word_def)

lemma setup_frame_above:
  assumes "44 \<le> unat w"
  shows "ram (setup_context_frame cf f s) (cf + w) = ram s (cf + w)"
  using assms by (simp add: setup_frame_ram store32_above store32_above_0 fill_bytes_def)

lemma setup_frame_load:
  assumes "44 \<le> unat w" and "unat w + 4 < 2 ^ 32"
  shows "load32 (ram (setup_context_frame cf f s)) (cf + w) = load32 (ram s) (cf + w)"
proof (rule load32_cong)
  fix i :: nat assume "i < 4"
  then have "unat (w + of_nat i) = unat w + i" using assms by (simp add: unat_word_ariths(1) unat_of_nat take_bit_nat_eq_self)
  then show "ram (setup_context_frame cf f s) (cf + w + of_nat i) = ram s (cf + w + of_nat i)"
    using setup_frame_above [of "w + of_nat i" cf f s] assms by (simp add: add.assoc)
qed

text \<open>C22: A created process starts where it should: the context on its new stack has the given function as
  return address with interrupts enabled, and the word above it, which the function returns to, is
  the address of \<open>sysstop\<close>. The process is ready at the end of the queue under a fresh number.\<close>

theorem create_starts_function:
  assumes inv: "kinv s r qs" and st: "qs In_stopped = p # ps" and func: "func \<noteq> 0"
    and a: "kmalloc (word_of_int (stack_size stack)) (heap s) = Some (a, h1)" "a \<noteq> 0"
    and t: "kmalloc (of_nat (SIGNAL_TABLE_SIZE * 4)) h1 = Some (t, h2)" "t \<noteq> 0"
    and n: "1 \<le> next_pid (pid (procs s p))"
  shows "\<exists>s'. create func stack s = Some (next_pid (pid (procs s p)), s') \<and>
    kinv s' r (qs(In_stopped := ps, In_ready := qs In_ready @ [p])) \<and>
    r_eip (resumed_regs p s') = func \<and> r_eflags (resumed_regs p s') = STARTING_EFLAGS OR ARM_INTERRUPTS \<and>
    read32 (r_sp (resumed_regs p s')) s' = addr_sysstop (image s) \<and>
    pid (procs s' p) = next_pid (pid (procs s p)) \<and> signals_fired (procs s' p) = 0"
proof -
  obtain s' where s': "create func stack s = Some (next_pid (pid (procs s p)), s')"
    "kinv s' r (qs(In_stopped := ps, In_ready := qs In_ready @ [p]))"
    "newborn s' p (next_pid (pid (procs s p)))" "esp (procs s' p) = first_frame a stack"
    "\<exists>s0. ram s' = ram (setup_context_frame (first_frame a stack) func
      (write32 (a + word_of_int (stack_size stack) - 4) (addr_sysstop (image s)) s0)) \<and> image s0 = image s"
    by (rule create_succeeds [OF inv st func a t n], rule that)
  define cf where "cf = first_frame a stack"
  have top: "a + word_of_int (stack_size stack) - 4 = cf + 44" by (simp add: cf_def first_frame_def cf_defs)
  obtain s0 where s0: "ram s' = ram (setup_context_frame cf func (write32 (cf + 44) (addr_sysstop (image s)) s0))"
    using s'(5) unfolding top cf_def by blast
  have "resumed_regs p s' = popa_iret cf (ram (setup_context_frame cf func (write32 (cf + 44) (addr_sysstop (image s)) s0)))"
    by (simp add: resumed_regs_def s'(4) s0 cf_def)
  then have regs: "r_eip (resumed_regs p s') = func" "r_eflags (resumed_regs p s') = 0x3200" "r_sp (resumed_regs p s') = cf + 44"
    by (simp_all add: setup_frame_resume cf_defs)
  have "load32 (ram s') (cf + 44) = addr_sysstop (image s)" using s0 by (simp add: setup_frame_load)
  then have "read32 (r_sp (resumed_regs p s')) s' = addr_sysstop (image s)" by (simp add: read32_def regs(3))
  then show ?thesis using s'(1-3) regs(1,2) by (auto simp: newborn_def STARTING_EFLAGS_def ARM_INTERRUPTS_def)
qed

lemma create_starts_function_witness:
  "\<exists>s'. create 0x13000 DEFAULT_STACK_SIZE booted = Some (34, s') \<and> r_eip (resumed_regs (Table 1) s') = 0x13000"
proof -
  obtain a h1 t h2 where m: "kmalloc (word_of_int (stack_size DEFAULT_STACK_SIZE)) (heap booted) = Some (a, h1)" "a \<noteq> 0"
    "kmalloc (of_nat (SIGNAL_TABLE_SIZE * 4)) h1 = Some (t, h2)" "t \<noteq> 0" by (rule booted_memory)
  have p: "next_pid (pid (procs booted (Table 1))) = 34"
    using booted_pids(2) [of 1] by (simp add: next_pid_def PCB_TABLE_SIZE_def in_s32_def)
  have pos: "1 \<le> next_pid (pid (procs booted (Table 1)))" "(0x13000 :: u32) \<noteq> 0" using p by simp_all
  from create_starts_function [OF booted_kinv booted_stopped pos(2) m pos(1)] show ?thesis unfolding p by blast
qed
end
