(* ===== verification/Signal_Props.thy ===== *)
theory Signal_Props
  imports Context_Props
begin

text \<open>
  Signals: which pending signal is delivered, what its handler finds on the stack, how the
  interrupted computation gets its context and return value back, and what sending a signal does
  to its target.
\<close>

subsection \<open>The frame of a handler\<close>

text \<open>The context of the trampoline lies 60 bytes below the interrupted one.\<close>

definition trampoline_at :: "pcb \<Rightarrow> u32" where
  "trampoline_at c = esp c - 60"

text \<open>The word at \<open>x\<close> does not overlap the 60 bytes the kernel pushes.\<close>

definition off_stack :: "u32 \<Rightarrow> pcb \<Rightarrow> bool" where
  "off_stack x c \<longleftrightarrow> 60 \<le> unat (x - trampoline_at c) \<and> 4 \<le> unat (trampoline_at c - x)"

lemma off_stack_apart:
  assumes "off_stack x c" and "unat w + 4 \<le> 60"
  shows "apart (trampoline_at c + w) x"
proof -
  let ?d = "x - trampoline_at c"
  have "unat (?d - w) = unat ?d - unat w" using assms by (intro unat_sub) (simp add: word_le_nat_alt off_stack_def)
  moreover have "4 \<le> unat ?d - unat w" using assms by (auto simp: off_stack_def)
  ultimately have 1: "4 \<le> unat (x - (trampoline_at c + w))" by (simp add: algebra_simps)
  have n: "unat ?d \<le> 2 ^ 32 - 4"
  proof -
    have "0 < unat ?d" using assms(1) by (auto simp: off_stack_def)
    then have "unat (0 - ?d) = 2 ^ 32 - unat ?d" by (subst unat_sub_if') simp
    then show ?thesis using assms(1) by (auto simp: off_stack_def)
  qed
  have "unat (w - ?d) = 2 ^ 32 + unat w - unat ?d" using assms n
    by (subst unat_sub_if') (auto simp: off_stack_def word_le_nat_alt)
  then have "4 \<le> unat (w - ?d)" using n by simp
  then show ?thesis using 1 by (simp add: apart_def algebra_simps)
qed

lemma signal_frame:
  assumes p: "pid_to_proc n s = Some p" and sig: "0 \<le> sig" "sig < 32" and b: "b = trampoline_at (procs s p)"
  obtains s1 where "signal n sig s = (0, s1)"
    and "procs s1 = (procs s)(p := (procs s p)\<lparr>signals_enabled := 0, esp := b\<rparr>)"
    and "currproc s1 = currproc s" and "heap s1 = heap s" and "image s1 = image s"
    and "r_eip (popa_iret b (ram s1)) = addr_sigtramp (image s)" and "r_sp (popa_iret b (ram s1)) = b + 44"
    and "load32 (ram s1) (b + 52) = esp (procs s p)" and "load32 (ram s1) (b + 56) = word_of_int (ret (procs s p))"
    and "off_stack (signal_slot (procs s p) (nat sig)) (procs s p) \<Longrightarrow>
      load32 (ram s1) (b + 48) = read32 (signal_slot (procs s p) (nat sig)) s"
    and "\<And>w. 60 \<le> unat w \<Longrightarrow> ram s1 (b + w) = ram s (b + w)"
proof -
  have e: "esp (procs s p) = b + 60" by (simp add: b trampoline_at_def)
  define sl where "sl = signal_slot (procs s p) (nat sig)"
  define h where "h = load32 (store32 (store32 (ram s) (b + 56) (word_of_int (ret (procs s p)))) (b + 52) (b + 60)) sl"
  define s0 where "s0 = write32 (b + 44) 0xCAFECAFE (write32 (b + 48) h (write32 (b + 52) (b + 60)
    (write32 (b + 56) (word_of_int (ret (procs s p))) (upd_proc p (\<lambda>c. c\<lparr>signals_enabled := 0\<rparr>) s))))"
  define s1 where "s1 = setup_context_frame b (addr_sigtramp (image s)) (upd_proc p (\<lambda>c. c\<lparr>esp := b\<rparr>) s0)"
  have slk: "signal_slot ((procs s p)\<lparr>signals_enabled := 0\<rparr>) (nat sig) = sl" by (simp add: signal_slot_def sl_def)
  have run: "signal n sig s = (0, s1)"
    using p sig by (simp add: signal_def SIGNAL_TABLE_SIZE_def Let_def e cf_defs s1_def s0_def h_def slk read32_def add.commute)
  have hw: "h = read32 sl s" if "off_stack sl (procs s p)"
    using off_stack_apart [OF that, of 56] off_stack_apart [OF that, of 52]
    by (simp add: h_def b [symmetric] load32_store32_apart read32_def)
  have keep: "ram s1 (b + w) = ram s (b + w)" if "60 \<le> unat w" for w
    using that by (simp add: s1_def setup_frame_above) (simp add: s0_def store32_above)
  have pr: "procs s1 = (procs s)(p := (procs s p)\<lparr>signals_enabled := 0, esp := b\<rparr>)" by (simp add: s1_def s0_def)
  have regs: "r_eip (popa_iret b (ram s1)) = addr_sigtramp (image s)" "r_sp (popa_iret b (ram s1)) = b + 44"
    by (simp_all add: s1_def s0_def setup_frame_resume cf_defs)
  have words: "load32 (ram s1) (b + 52) = esp (procs s p)" "load32 (ram s1) (b + 56) = word_of_int (ret (procs s p))"
    "load32 (ram s1) (b + 48) = h"
    unfolding s1_def by (simp_all add: setup_frame_load) (simp_all add: s0_def load32_store32_apart apart_def e)
  have rest: "currproc s1 = currproc s" "heap s1 = heap s" "image s1 = image s" by (simp_all add: s1_def s0_def)
  show ?thesis by (rule that [OF run pr rest regs words(1,2) _ keep]) (use words(3) hw in \<open>simp_all add: sl_def\<close>)
qed


subsection \<open>Delivery\<close>

lemma signals_left [simp]:
  "signal_slot (c\<lparr>signals_fired := x\<rparr>) k = signal_slot c k" "trampoline_at (c\<lparr>signals_fired := x\<rparr>) = trampoline_at c"
  "off_stack a (c\<lparr>signals_fired := x\<rparr>) = off_stack a c"
  by (simp_all add: signal_slot_def trampoline_at_def off_stack_def)

lemma pid_to_proc_upd:
  assumes "\<And>q. pid (procs s' q) = pid (procs s q) \<and> curr_state (procs s' q) = curr_state (procs s q)"
  shows "pid_to_proc n s' = pid_to_proc n s"
  using assms by (simp add: pid_to_proc_def)

text \<open>C26: Before a process with pending signals continues, the one with the highest number, and only
  that one, is taken off the pending set; further delivery is switched off; and the process
  continues in the trampoline, called with the registered handler and the interrupted context.\<close>

theorem highest_signal_delivered:
  assumes inv: "kinv s (Some (currproc s)) qs" and p: "alive (procs s) p"
    and f: "signals_fired (procs s p) \<noteq> 0" "signals_enabled (procs s p) \<noteq> 0"
  shows "\<exists>s' k. ctsw_enter p s = Some s' \<and> k < 32 \<and> bit (signals_fired (procs s p)) k \<and>
    (\<forall>j. k < j \<and> j < 32 \<longrightarrow> \<not> bit (signals_fired (procs s p)) j) \<and>
    signals_fired (procs s' p) = FLAG_BIT_CLEAR k (signals_fired (procs s p)) \<and> signals_enabled (procs s' p) = 0 \<and>
    r_eip (resumed_regs p s') = addr_sigtramp (image s) \<and>
    read32 (r_sp (resumed_regs p s') + 8) s' = esp (procs s p) \<and>
    (off_stack (signal_slot (procs s p) k) (procs s p) \<longrightarrow>
      read32 (r_sp (resumed_regs p s') + 4) s' = read32 (signal_slot (procs s p) k) s)"
proof -
  obtain k where k: "highest_signal (signals_fired (procs s p)) 31 = Some k" using highest_signal_exists [OF f(1)] by blast
  have k1: "k \<le> 31" "bit (signals_fired (procs s p)) k" "\<forall>j. k < j \<and> j \<le> 31 \<longrightarrow> \<not> bit (signals_fired (procs s p)) j"
    using k highest_signal_Some [of 31 "signals_fired (procs s p)" k] by auto
  define s0 where "s0 = upd_proc p (\<lambda>c. c\<lparr>signals_fired := FLAG_BIT_CLEAR k (signals_fired c)\<rparr>) s"
  define b where "b = trampoline_at (procs s p)"
  have pp: "pid_to_proc (pid (procs s p)) s = Some p" by (rule pid_to_proc_alive [OF kinvD(2) [OF inv] p])
  have p0: "pid_to_proc (pid (procs s p)) s0 = Some p"
    using pid_to_proc_upd [of s0 s "pid (procs s p)"] pp by (simp add: s0_def)
  have kk: "0 \<le> int k" "int k < 32" "b = trampoline_at (procs s0 p)" using k1(1) by (simp_all add: s0_def b_def)
  obtain s1 where s1: "signal (pid (procs s p)) (int k) s0 = (0, s1)"
    "procs s1 = (procs s0)(p := (procs s0 p)\<lparr>signals_enabled := 0, esp := b\<rparr>)"
    "r_eip (popa_iret b (ram s1)) = addr_sigtramp (image s0)" "r_sp (popa_iret b (ram s1)) = b + 44"
    "load32 (ram s1) (b + 52) = esp (procs s0 p)"
    "off_stack (signal_slot (procs s0 p) (nat (int k))) (procs s0 p) \<Longrightarrow>
      load32 (ram s1) (b + 48) = read32 (signal_slot (procs s0 p) (nat (int k))) s0"
    by (rule signal_frame [OF p0 kk], rule that)
  define s' where "s' = write32 (b + cf_eax) (word_of_int (ret (procs s1 p))) s1"
  have "call_highest_priority_signal p s = Some s1"
    using k s1(1) f(1) by (simp add: call_highest_priority_signal_def SIGNAL_TABLE_SIZE_def s0_def)
  then have run: "ctsw_enter p s = Some s'" using f s1(2) by (simp add: ctsw_enter_def s'_def)
  have regs: "r_eip (resumed_regs p s') = addr_sigtramp (image s)" "r_sp (resumed_regs p s') = b + 44"
    using s1(2-4) by (simp_all add: resumed_regs_def s'_def popa_iret_def cf_defs load32_store32_apart apart_def s0_def)
  have w: "read32 (b + 52) s' = esp (procs s p)" "read32 (b + 48) s' = load32 (ram s1) (b + 48)"
    using s1(5) by (simp_all add: read32_def s'_def cf_defs load32_store32_apart apart_def s0_def)
  have pc: "signals_fired (procs s' p) = FLAG_BIT_CLEAR k (signals_fired (procs s p))" "signals_enabled (procs s' p) = 0"
    using s1(2) by (simp_all add: s'_def s0_def)
  have h: "read32 (b + 48) s' = read32 (signal_slot (procs s p) k) s" if "off_stack (signal_slot (procs s p) k) (procs s p)"
    using s1(6) that w(2) by (simp add: s0_def read32_def)
  show ?thesis
    by (rule exI [of _ s'], rule exI [of _ k]) (use run k1 pc regs w(1) h in \<open>simp add: less_Suc_eq_le add.commute\<close>)
qed

text \<open>A process of the booted kernel with signals 0 and 2 pending.\<close>

definition pending :: kernel where
  "pending = upd_proc (Table 0) (\<lambda>c. c\<lparr>signals_fired := 5, signals_enabled := 1\<rparr>) booted"

lemma pending_kinv: "kinv pending (Some (currproc pending)) after_boot"
  unfolding pending_def using booted_kinv by (simp, intro kinv_upd) auto

lemma highest_signal_delivered_witness:
  "\<exists>s'. ctsw_enter (Table 0) pending = Some s' \<and> signals_fired (procs s' (Table 0)) = 1 \<and>
     r_eip (resumed_regs (Table 0) s') = addr_sigtramp (image pending)"
proof -
  have "curr_state (procs booted (Table 0)) = PROC_STATE_RUNNING"
    using procs_okD(2) [OF kinvD(2) [OF booted_kinv], of "Table 0"] by (simp add: known_def PCB_TABLE_SIZE_def)
  then have a: "alive (procs pending) (Table 0)" by (simp add: alive_def pending_def PCB_TABLE_SIZE_def)
  have f: "signals_fired (procs pending (Table 0)) = 5" "signals_enabled (procs pending (Table 0)) \<noteq> 0" by (simp_all add: pending_def)
  have nz: "signals_fired (procs pending (Table 0)) \<noteq> 0" by (simp add: f)
  obtain s' k where s': "ctsw_enter (Table 0) pending = Some s'" "k < 32" "bit (5 :: u32) k" "\<forall>j. k < j \<and> j < 32 \<longrightarrow> \<not> bit (5 :: u32) j"
    "signals_fired (procs s' (Table 0)) = FLAG_BIT_CLEAR k 5" "r_eip (resumed_regs (Table 0) s') = addr_sigtramp (image pending)"
    using highest_signal_delivered [OF pending_kinv a nz f(2)] unfolding f(1) by blast
  have "bit (5 :: u32) 2" by (simp add: bit_numeral_rec)
  then have "\<not> k < 2" using s'(4) by auto
  moreover have "\<not> 2 < k" using s'(3) by (auto simp: bit_numeral_rec dest!: less_imp_Suc_add)
  ultimately have "k = 2" by simp
  then show ?thesis using s'(1,5,6) by (simp add: FLAG_BIT_CLEAR_def)
qed

text \<open>C27: A handler is transparent: when it returns to the trampoline with the interrupted frame intact,
  \<open>sigreturn\<close> restores the stack pointer and the return value, signals are deliverable again,
  and the process continues with exactly the registers it would have had without the signal.\<close>

theorem signal_then_sigreturn:
  assumes p: "pid_to_proc n s = Some (currproc s)" and sig: "0 \<le> sig" "sig < 32" and r: "in_s32 (ret (cur s))"
    and run: "signal n sig s = (0, s1)"
    and handler: "currproc s2 = currproc s" "carg 0 s2 = esp (cur s)" "verify_usrptr (esp (cur s)) 4 s2 = Some OK"
      "\<And>i. i < 48 \<Longrightarrow> ram s2 (esp (cur s) - 4 + of_nat i) = ram s1 (esp (cur s) - 4 + of_nat i)"
  shows "\<exists>s3. dispatch_syscall_sigreturn s2 = Some s3 \<and> esp (cur s3) = esp (cur s) \<and> ret (cur s3) = ret (cur s) \<and>
    signals_enabled (cur s3) = 1 \<and> currproc s3 = currproc s \<and>
    resumed_regs (currproc s) s3 = resumed_regs (currproc s) s"
proof -
  define b where "b = trampoline_at (cur s)"
  have e: "esp (cur s) = b + 60" by (simp add: b_def trampoline_at_def)
  obtain s1' where s1': "signal n sig s = (0, s1')" "load32 (ram s1') (b + 56) = word_of_int (ret (cur s))"
    "\<And>w. 60 \<le> unat w \<Longrightarrow> ram s1' (b + w) = ram s (b + w)"
    by (rule signal_frame [OF p sig b_def], rule that)
  have s1: "s1' = s1" using run s1'(1) by simp
  have "load32 (ram s2) (b + 56) = load32 (ram s1) (b + 56)"
    by (rule load32_cong) (use handler(4) e in \<open>simp add: algebra_simps\<close>)
  then have v: "sint (read32 (b + 60 - 4) s2) = ret (cur s)" using s1'(2) r by (simp add: s1 read32_def add.commute)
  define s3 where "s3 = upd_proc (currproc s2) (\<lambda>c. c\<lparr>esp := b + 60, signals_enabled := 1\<rparr>) (ret_cur (ret (cur s)) s2)"
  have "dispatch_syscall_sigreturn s2 = Some s3"
    using handler(2,3) v by (simp add: dispatch_syscall_sigreturn_def Let_def e s3_def ret_cur_def set_ret_def)
  moreover have "ram s2 (b + 60 + of_nat j) = ram s (b + 60 + of_nat j)" if "j < 44" for j
  proof -
    have "unat (of_nat 60 + of_nat j :: u32) = 60 + j" using that by (intro unat_offset) auto
    then show ?thesis using handler(4) [of "4 + j"] that s1'(3) [of "60 + of_nat j"] by (simp add: e s1 algebra_simps)
  qed
  then have "load32 (ram s2) (b + 60 + of_nat k) = load32 (ram s) (b + 60 + of_nat k)" if "k \<le> 40" for k
    by (intro load32_cong) (use that in \<open>simp add: add.assoc flip: of_nat_add\<close>)
  from this [of 0] this [of 4] this [of 8] this [of 16] this [of 20] this [of 24] this [of 28] this [of 32] this [of 36] this [of 40]
  have "resumed_regs (currproc s) s3 = resumed_regs (currproc s) s"
    by (simp add: resumed_regs_def popa_iret_def s3_def handler(1) e ret_cur_def set_ret_def)
  ultimately show ?thesis using handler(1) by (auto simp: s3_def e ret_cur_def set_ret_def)
qed

text \<open>A process with its stack at 3 MB takes signal 2; its handler leaves the stack as it was.\<close>

definition interrupted :: kernel where
  "interrupted = power_on_state\<lparr>currproc := Table 0, procs := (procs power_on_state)(Table 0 := zero_pcb\<lparr>pid := 33,
     curr_state := PROC_STATE_RUNNING, esp := 0x300000, signal_table := 0x280000, signals_enabled := 1, ret := 7\<rparr>)\<rparr>"

definition after_handler :: kernel where
  "after_handler = calling 0x300000 0 0 (snd (signal 33 2 interrupted))"

lemma signal_then_sigreturn_witness:
  "\<exists>s3. dispatch_syscall_sigreturn after_handler = Some s3 \<and> esp (cur s3) = 0x300000 \<and> ret (cur s3) = 7"
proof -
  define s1 where "s1 = snd (signal 33 2 interrupted)"
  have p: "pid_to_proc 33 interrupted = Some (currproc interrupted)"
    by (simp add: pid_to_proc_def interrupted_def PCB_TABLE_SIZE_def)
  have c: "cur interrupted = zero_pcb\<lparr>pid := 33, curr_state := PROC_STATE_RUNNING, esp := 0x300000,
    signal_table := 0x280000, signals_enabled := 1, ret := 7\<rparr>" by (simp add: interrupted_def)
  obtain s1' where s1': "signal 33 2 interrupted = (0, s1')" "currproc s1' = currproc interrupted" "heap s1' = heap interrupted"
    by (rule signal_frame [OF p, of 2 "trampoline_at (procs interrupted (currproc interrupted))"]) (auto intro: that)
  have s1: "signal 33 2 interrupted = (0, s1)" "currproc s1 = Table 0" "heap s1 = heap power_on_state"
    using s1' by (simp_all add: s1_def interrupted_def)
  have h: "currproc after_handler = currproc interrupted" "heap after_handler = heap power_on_state"
    "carg 0 after_handler = esp (cur interrupted)"
    using s1(2,3) by (simp_all add: after_handler_def s1_def [symmetric] c) (simp add: interrupted_def)
  have v: "verify_usrptr (esp (cur interrupted)) 4 after_handler = Some OK"
    by (simp add: c verify_usrptr_def h Let_def KERNEL_STACK_def falls_in_hole_def falls_in_kstack_def HOLESTART_def HOLEEND_def in_s32_def)
  have m: "ram after_handler (esp (cur interrupted) - 4 + of_nat i) = ram s1 (esp (cur interrupted) - 4 + of_nat i)" if "i < 48" for i
  proof -
    have "4 \<le> unat (0x2FFFFC + of_nat i - a :: u32)" if "a = 0x200000 \<or> a = 0x200004 \<or> a = 0x200008" for a
    proof -
      have "0x2FFFFC + of_nat i - a = of_nat (0x2FFFFC - unat a + i)" using that by auto
      then show ?thesis using that \<open>i < 48\<close> by (auto simp: unat_of_nat take_bit_nat_eq_self simp del: of_nat_add)
    qed
    from this [of "0x200000"] this [of "0x200004"] this [of "0x200008"]
    show ?thesis by (simp add: after_handler_def s1_def [symmetric] calling_def c store32_other)
  qed
  have r: "0 \<le> (2 :: int)" "(2 :: int) < 32" "in_s32 (ret (cur interrupted))" by (simp_all add: c in_s32_def)
  show ?thesis using signal_then_sigreturn [OF p r s1(1) h(1,3) v m] by (simp add: c) blast
qed

subsection \<open>Sending a signal\<close>

text \<open>C28: Every outcome of \<open>kill\<close>: an error and nothing changed if there is no such process or no such
  signal; success and nothing changed if the target has no handler; otherwise the signal is
  pending, and a target that was blocked leaves its queue for the end of the ready queue, its
  call returning the code that says it was interrupted.\<close>

theorem kill_outcomes:
  assumes inv: "kinv s (Some (currproc s)) qs" and sig: "sig = sint (carg 1 s)"
  shows "(pid_to_proc (sint (carg 0 s)) s = None \<longrightarrow> dispatch_syscall_kill s = Some (SYSKILL_TARGET_DNE, s)) \<and>
    (\<forall>p. pid_to_proc (sint (carg 0 s)) s = Some p \<longrightarrow>
      (\<not> (0 \<le> sig \<and> sig < 32) \<longrightarrow> dispatch_syscall_kill s = Some (SYSKILL_INVALID_SIGNAL, s)) \<and>
      (0 \<le> sig \<and> sig < 32 \<longrightarrow>
        (if read32 (signal_slot (procs s p) (nat sig)) s = 0 then dispatch_syscall_kill s = Some (0, s)
         else \<exists>s' qs'. dispatch_syscall_kill s = Some (0, s') \<and> kinv s' (Some (currproc s)) qs' \<and>
           signals_fired (procs s' p) = FLAG_BIT_SET (nat sig) (signals_fired (procs s p)) \<and>
           (curr_state (procs s p) \<noteq> PROC_STATE_BLOCKED \<longrightarrow> qs' = qs) \<and>
           (curr_state (procs s p) = PROC_STATE_BLOCKED \<longrightarrow>
             qs' In_ready = qs In_ready @ [p] \<and> curr_state (procs s' p) = PROC_STATE_READY \<and>
             (blocking_queue_name (procs s p) \<noteq> SLEEP \<longrightarrow>
               signalled_ret (blocking_queue_name (procs s p)) 0 = Some (ret (procs s' p)))))))"
proof (intro conjI allI impI)
  assume "pid_to_proc (sint (carg 0 s)) s = None"
  then show "dispatch_syscall_kill s = Some (SYSKILL_TARGET_DNE, s)" by (simp add: dispatch_syscall_kill_def)
next
  fix p assume p: "pid_to_proc (sint (carg 0 s)) s = Some p"
  note run = dispatch_syscall_kill_def set_proc_signal_def p sig SIGNAL_TABLE_SIZE_def
  have a: "alive (procs s) p" by (rule pid_to_proc_Some(1) [OF kinvD(2) [OF inv] p])
  show "dispatch_syscall_kill s = Some (SYSKILL_INVALID_SIGNAL, s)" if "\<not> (0 \<le> sig \<and> sig < 32)"
    using that by (auto simp: run)
  assume g: "0 \<le> sig \<and> sig < 32"
  show "if read32 (signal_slot (procs s p) (nat sig)) s = 0 then dispatch_syscall_kill s = Some (0, s)
         else \<exists>s' qs'. dispatch_syscall_kill s = Some (0, s') \<and> kinv s' (Some (currproc s)) qs' \<and>
           signals_fired (procs s' p) = FLAG_BIT_SET (nat sig) (signals_fired (procs s p)) \<and>
           (curr_state (procs s p) \<noteq> PROC_STATE_BLOCKED \<longrightarrow> qs' = qs) \<and>
           (curr_state (procs s p) = PROC_STATE_BLOCKED \<longrightarrow>
             qs' In_ready = qs In_ready @ [p] \<and> curr_state (procs s' p) = PROC_STATE_READY \<and>
             (blocking_queue_name (procs s p) \<noteq> SLEEP \<longrightarrow>
               signalled_ret (blocking_queue_name (procs s p)) 0 = Some (ret (procs s' p))))"
  proof (cases "read32 (signal_slot (procs s p) (nat sig)) s = 0")
    case True
    then show ?thesis using g by (auto simp: run)
  next
    case False
    obtain s' qs' where s': "set_proc_signal p sig s = Some (0, s')" "kinv s' (Some (currproc s)) qs'"
      "signals_fired (procs s' p) = FLAG_BIT_SET (nat sig) (signals_fired (procs s p))"
      "curr_state (procs s p) \<noteq> PROC_STATE_BLOCKED \<Longrightarrow> qs' = qs"
      "curr_state (procs s p) = PROC_STATE_BLOCKED \<Longrightarrow>
        qs' = (leave p s qs)(In_ready := leave p s qs In_ready @ [p]) \<and> curr_state (procs s' p) = PROC_STATE_READY"
      "curr_state (procs s p) = PROC_STATE_BLOCKED \<Longrightarrow> blocking_queue_name (procs s p) \<noteq> SLEEP \<Longrightarrow>
        signalled_ret (blocking_queue_name (procs s p)) 0 = Some (ret (procs s' p))"
      by (rule set_proc_signal_ok [OF inv a conjunct1 [OF g] conjunct2 [OF g] False], rule that)
    have "leave p s qs In_ready = qs In_ready" if "curr_state (procs s p) = PROC_STATE_BLOCKED"
      using that by (auto simp: leave_def place_of_def split: option.splits if_splits)
    moreover have "dispatch_syscall_kill s = Some (0, s')" using s'(1) p sig by (simp add: dispatch_syscall_kill_def)
    ultimately show ?thesis using s'(2-6) False by auto
  qed
qed

lemma kill_outcomes_witness:
  "dispatch_syscall_kill (calling 33 77 0 booted) = Some (SYSKILL_INVALID_SIGNAL, calling 33 77 0 booted)"
proof -
  let ?s = "calling 33 77 0 booted"
  have inv: "kinv ?s (Some (currproc ?s)) after_boot" using calling_kinv [OF booted_kinv] by simp
  have "curr_state (procs booted (Table 0)) = PROC_STATE_RUNNING"
    using procs_okD(2) [OF kinvD(2) [OF booted_kinv], of "Table 0"] by (simp add: known_def PCB_TABLE_SIZE_def)
  then have p: "pid_to_proc (sint (carg 0 ?s)) ?s = Some (Table 0)"
    using booted_pids(1) by (simp add: pid_to_proc_def PCB_TABLE_SIZE_def)
  have "sint (carg 1 ?s) = 77" by simp
  then show ?thesis using kill_outcomes [OF inv refl] p by simp
qed
end
