(* ===== verification/Sched_Props.thy ===== *)
theory Sched_Props
  imports Witness_States
begin

text \<open>
  Processes that block and end: where a sleeping process is queued, how long it sleeps, what
  waiting for another process and the end of a process do, and the outcomes of creation.
\<close>

text \<open>A request to sleep is rounded up to whole ticks, at least one and few enough that no sum of
  the delta list overflows; zero milliseconds is no sleep at all.\<close>

theorem sleep_ticks_rounding:
  "(0 < ms \<longrightarrow> 10 * (sleep_ticks ms - 1) < uint ms \<and> uint ms \<le> 10 * sleep_ticks ms \<and>
      1 \<le> sleep_ticks ms \<and> sleep_ticks ms \<le> MAX_TICKS) \<and>
   (carg 0 s = 0 \<longrightarrow> dispatch_syscall_sleep s = Some s)"
proof -
  have "10 * (sleep_ticks ms - 1) < uint ms \<and> uint ms \<le> 10 * sleep_ticks ms" if "0 < ms"
  proof -
    have t: "sleep_ticks ms = (uint ms + 9) div 10" by (rule sleep_ticks_bounds(1) [OF that])
    show ?thesis unfolding t by presburger
  qed
  moreover have "1 \<le> sleep_ticks ms \<and> sleep_ticks ms \<le> MAX_TICKS" if "0 < ms"
    using sleep_ticks_bounds(2,3) [OF that] by simp
  ultimately show ?thesis by (simp add: dispatch_syscall_sleep_def)
qed

lemma sleep_ticks_rounding_witness: "sleep_ticks 25 = 3"
proof -
  have "10 * (sleep_ticks 25 - 1) < 25 \<and> 25 \<le> 10 * sleep_ticks 25" using sleep_ticks_rounding [of 25 booted] by simp
  then show ?thesis by presburger
qed

text \<open>C25: A process that goes to sleep is queued by its wake-up time, before those that wake at the same
  time, and nobody else's wake-up time changes; the next ready process runs.\<close>

theorem sleep_queue_order:
  assumes inv: "kinv s (Some (currproc s)) qs" and c: "valid (currproc s)" and t: "0 < carg 0 s"
  shows "\<exists>s' qs'. dispatch_syscall_sleep s = Some s' \<and> kinv s' (Some (currproc s')) qs' \<and>
    currproc s' = next_of (qs In_ready) \<and> qs' In_ready = tl (qs In_ready) \<and>
    wake_times s' qs' = takeWhile (\<lambda>(_, u). u < sleep_ticks (carg 0 s)) (wake_times s qs) @
      (currproc s, sleep_ticks (carg 0 s)) # dropWhile (\<lambda>(_, u). u < sleep_ticks (carg 0 s)) (wake_times s qs)"
proof -
  obtain s' ys where s': "dispatch_syscall_sleep s = Some s'"
    "dl_times 0 (deltas s' ys) =
      takeWhile (\<lambda>(_, u). u < sleep_ticks (carg 0 s)) (dl_times 0 (deltas s (qs In_sleep))) @
      (currproc s, sleep_ticks (carg 0 s)) #
      dropWhile (\<lambda>(_, u). u < sleep_ticks (carg 0 s)) (dl_times 0 (deltas s (qs In_sleep)))"
    "currproc s' = next_of (qs In_ready)"
    "kinv s' (Some (currproc s')) (qs(In_sleep := ys, In_ready := tl (qs In_ready)))"
    by (rule sleep_handler_ok [OF inv c t], rule that)
  then show ?thesis
    by (intro exI [of _ s'] exI [of _ "qs(In_sleep := ys, In_ready := tl (qs In_ready))"]) (simp add: wake_times_def)
qed

lemma sleep_queue_order_witness:
  "\<exists>s' qs'. dispatch_syscall_sleep (calling 25 0 0 two_procs) = Some s' \<and> currproc s' = Table 1 \<and>
     wake_times s' qs' = [(Table 0, 3)]"
proof -
  let ?s = "calling 25 0 0 two_procs"
  have inv: "kinv ?s (Some (currproc ?s)) two_queues" using calling_kinv [OF two_procs_kinv] by simp
  have v: "valid (currproc ?s)" "0 < carg 0 ?s" by (simp_all add: PCB_TABLE_SIZE_def)
  have "sleep_ticks 25 = 3" by (simp add: sleep_ticks_bounds)
  then show ?thesis using sleep_queue_order [OF inv v] by (fastforce simp: next_of_def wake_times_def)
qed

text \<open>C24: A process that stops gives its stack and its signal table back, its control block is free
  again, and everyone blocked on it, sending, receiving or waiting, becomes ready, in that order.\<close>

theorem stop_releases:
  assumes inv: "kinv s (Some (currproc s)) qs" and c: "valid (currproc s)"
  shows "\<exists>s' qs' L. dispatch_syscall_stop s = Some s' \<and> kinv s' (Some (currproc s')) qs' \<and>
    currproc s' = next_of (qs In_ready @ waiters qs (currproc s)) \<and>
    qs' In_ready = tl (qs In_ready @ waiters qs (currproc s)) \<and>
    curr_state (procs s' (currproc s)) = PROC_STATE_STOPPED \<and>
    heap_live (heap s) L \<and> {memory_region (cur s), signal_table (cur s)} \<subseteq> dom L \<and>
    heap_live (heap s') (L(memory_region (cur s) := None, signal_table (cur s) := None))"
proof -
  obtain s' qs' where s': "dispatch_syscall_stop s = Some s'" "kinv s' (Some (currproc s')) qs'"
    "currproc s' = next_of (qs In_ready @ waiters qs (currproc s))"
    "qs' In_ready = tl (qs In_ready @ waiters qs (currproc s))"
    "curr_state (procs s' (currproc s)) = PROC_STATE_STOPPED"
    "\<exists>L. heap_live (heap s) L \<and>
      {memory_region (procs s (currproc s)), signal_table (procs s (currproc s))} \<subseteq> dom L \<and>
      heap_live (heap s') (L(memory_region (procs s (currproc s)) := None, signal_table (procs s (currproc s)) := None))"
    by (rule stop_ok [OF inv c], rule that)
  then show ?thesis by blast
qed

lemma stop_releases_witness:
  "\<exists>s'. dispatch_syscall_stop two_procs = Some s' \<and> currproc s' = Table 1 \<and>
     curr_state (procs s' (Table 0)) = PROC_STATE_STOPPED"
proof -
  have "valid (currproc two_procs)" by (simp add: PCB_TABLE_SIZE_def)
  from stop_releases [OF two_procs_inv this] show ?thesis by (auto simp: waiters_def next_of_def)
qed

text \<open>Waiting for a process that does not exist is an error and returns at once; otherwise the caller
  joins the queue of those waiting for it, with the result 0 it gets when the other one stops.\<close>

theorem wait_outcomes:
  assumes inv: "kinv s (Some (currproc s)) qs" and c: "valid (currproc s)"
  shows "(case pid_to_proc (sint (carg 0 s)) s of
      None \<Rightarrow> dispatch_syscall_wait s = Some (ret_cur SYSPID_DNE s)
    | Some w \<Rightarrow> \<exists>s' qs'. dispatch_syscall_wait s = Some s' \<and> kinv s' (Some (currproc s')) qs' \<and>
        qs' (In_blocking w WAITING) = qs (In_blocking w WAITING) @ [currproc s] \<and>
        currproc s' = next_of (qs In_ready) \<and> ret (procs s' (currproc s)) = 0)"
proof (cases "pid_to_proc (sint (carg 0 s)) s")
  case None
  then show ?thesis using wait_ok [OF inv c] by simp
next
  case (Some w)
  then obtain s' where s': "dispatch_syscall_wait s = Some s'" "currproc s' = next_of (qs In_ready)"
    "kinv s' (Some (currproc s')) (qs(In_blocking w WAITING := qs (In_blocking w WAITING) @ [currproc s], In_ready := tl (qs In_ready)))"
    "ret (procs s' (currproc s)) = 0"
    using wait_ok [OF inv c] by blast
  then show ?thesis using Some
    by (auto intro!: exI [of _ s'] exI [of _ "qs(In_blocking w WAITING := qs (In_blocking w WAITING) @ [currproc s],
      In_ready := tl (qs In_ready))"])
qed

lemma wait_outcomes_witness:
  "\<exists>s' qs'. dispatch_syscall_wait (calling 34 0 0 two_procs) = Some s' \<and> qs' (In_blocking (Table 1) WAITING) = [Table 0] \<and>
     kinv s' (Some (Table 1)) qs'"
proof -
  let ?s = "calling 34 0 0 two_procs"
  have inv: "kinv ?s (Some (currproc ?s)) two_queues" using calling_kinv [OF two_procs_kinv] by simp
  have v: "valid (currproc ?s)" by (simp add: PCB_TABLE_SIZE_def)
  have "Table 1 \<in> set (two_queues In_ready)" by simp
  then have "curr_state (procs two_procs (Table 1)) = PROC_STATE_READY" by (rule sleeper_state(2) [OF two_procs_kinv])
  then have "pid_to_proc (sint (carg 0 ?s)) ?s = Some (Table 1)"
    using two_procs_pids(2) by (simp add: pid_to_proc_def PCB_TABLE_SIZE_def)
  then show ?thesis using wait_outcomes [OF inv v] by (fastforce simp: next_of_def)
qed

end
