(* ===== verification/Proc_Props.thy ===== *)
theory Proc_Props
  imports Witness_States
begin

text \<open>
  Process numbers, the outcomes of creation, and the table \<open>getcputimes\<close> fills.
\<close>

subsection \<open>Process numbers\<close>

text \<open>A control block is reused under a new number that selects the same table entry: 32 more, or,
  past the largest \<open>int\<close>, the entry's first number again. Only the last entry has none then: its
  number becomes 0, which the assertion in \<open>get_next_available_pcb\<close> refuses.\<close>

theorem process_numbers_cycle:
  assumes "pid_slot (Table i) n" and "i < PCB_TABLE_SIZE"
  shows "(n + 32 < 2 ^ 31 \<longrightarrow> next_pid n = n + 32) \<and>
    (2 ^ 31 \<le> n + 32 \<and> i < 31 \<longrightarrow> next_pid n = int i + 1) \<and>
    (2 ^ 31 \<le> n + 32 \<and> i = 31 \<longrightarrow> next_pid n = 0) \<and>
    (next_pid n \<noteq> 0 \<longrightarrow> pid_slot (Table i) (next_pid n))"
proof -
  have n: "1 \<le> n" "n < 2 ^ 31" "(n - 1) mod 32 = int i" "i < 32"
    using assms by (simp_all add: PCB_TABLE_SIZE_def in_s32_def)
  have big: "next_pid n = (int i + 1) mod 32" if "2 ^ 31 \<le> n + 32"
  proof -
    have "in_s32 (n + 32 - 2 ^ 32)" using n that by (simp add: in_s32_def)
    moreover have "s32 (n + 32) = s32 (n + 32 - 2 ^ 32)"
      unfolding s32_def by (rule signed_take_bit_eq_iff_take_bit_eq [THEN iffD2]) (use mod_add_self2 [of "n + 32 - 2 ^ 32" "2 ^ 32 :: int"] in \<open>simp add: take_bit_eq_mod add.commute\<close>)
    ultimately have "s32 (n + 32) = n + 32 - 2 ^ 32" by simp
    then have "next_pid n = n mod 32" using n by (simp add: next_pid_def PCB_TABLE_SIZE_def crem_def)
    then show ?thesis using mod_add_left_eq [of "n - 1" 32 1] n(3) by simp
  qed
  have "1 \<le> next_pid n" if "next_pid n \<noteq> 0"
    using that next_pid_slot(1,3) [OF assms] big n(4) by (cases "n + 32 < 2 ^ 31") auto
  then show ?thesis using next_pid_slot(2,3) [OF assms] big n(4) by auto
qed

lemma process_numbers_cycle_witness: "next_pid 2147483647 = 31 \<and> next_pid 33 = 65"
proof -
  have "pid_slot (Table 30) 2147483647" "pid_slot (Table 0) 33" by (simp_all add: in_s32_def PCB_TABLE_SIZE_def)
  from process_numbers_cycle [OF this(1)] process_numbers_cycle [OF this(2)] show ?thesis by (simp add: PCB_TABLE_SIZE_def)
qed

subsection \<open>Creation\<close>




subsection \<open>The order of the process table\<close>

text \<open>References to control blocks are ordered as the table lists them, the idle process first.\<close>

fun table_index :: "pcbref \<Rightarrow> nat" where
  "table_index IdleProc = 0"
| "table_index (Table i) = Suc i"

lemma table_index_inj: "table_index p = table_index q \<Longrightarrow> p = q"
  by (cases p; cases q) simp_all

instantiation pcbref :: linorder
begin

definition less_eq_pcbref :: "pcbref \<Rightarrow> pcbref \<Rightarrow> bool" where
  "less_eq_pcbref p q \<longleftrightarrow> table_index p \<le> table_index q"

definition less_pcbref :: "pcbref \<Rightarrow> pcbref \<Rightarrow> bool" where
  "less_pcbref p q \<longleftrightarrow> table_index p < table_index q"

instance
  by standard (auto simp: less_eq_pcbref_def less_pcbref_def intro: table_index_inj)

end

subsection \<open>The process table of \<open>getcputimes\<close>\<close>

text \<open>Row \<open>k\<close> of the three arrays at \<open>a\<close> describes process \<open>p\<close>.\<close>

definition row :: "kernel \<Rightarrow> u32 \<Rightarrow> bytes \<Rightarrow> nat \<Rightarrow> pcbref \<Rightarrow> bool" where
  "row s a m k p \<longleftrightarrow> load32 m (a + ps_pid k) = word_of_int (pid (procs s p)) \<and>
     load32 m (a + ps_status k) = word_of_int (proc_status (procs s p)) \<and>
     load32 m (a + ps_cpuTime k) = word_of_int (cpu_time (procs s p) * TICK_LENGTH_IN_MS)"

text \<open>The words of the table are at multiples of four below 384, so different ones do not overlap.\<close>

lemma table_apart:
  assumes "i < 96" and "j < 96" and "i \<noteq> j"
  shows "apart (a + 4 * of_nat i) (a + 4 * of_nat j)"
proof -
  have d: "4 \<le> unat (4 * of_nat k - 4 * of_nat l :: u32)" if "k < 96" "l < 96" "k \<noteq> l" for k l :: nat
  proof (cases "l < k")
    case True
    then have "(4 * of_nat k - 4 * of_nat l :: u32) = of_nat (4 * (k - l))" by (simp add: of_nat_diff algebra_simps)
    then show ?thesis using True that by (simp add: unat_of_nat take_bit_nat_eq_self del: of_nat_mult)
  next
    case False
    then have "(4 * of_nat k - 4 * of_nat l :: u32) = - of_nat (4 * (l - k))" by (simp add: of_nat_diff algebra_simps)
    moreover have "unat (- of_nat (4 * (l - k)) :: u32) = 2 ^ 32 - 4 * (l - k)"
    proof -
      have u: "unat (of_nat (4 * (l - k)) :: u32) = 4 * (l - k)" using that by (simp add: unat_of_nat take_bit_nat_eq_self del: of_nat_mult)
      then have "unat (0 - of_nat (4 * (l - k)) :: u32) = 2 ^ 32 - 4 * (l - k)"
        using that False by (subst unat_sub_if') (simp add: word_le_nat_alt)
      then show ?thesis by simp
    qed
    ultimately show ?thesis using that by simp
  qed
  show ?thesis using d [OF assms] d [OF assms(2,1)] assms(3) by (simp add: apart_def)
qed

lemma table_words: "ps_pid k = 4 * of_nat k" "ps_status k = 4 * of_nat (32 + k)" "ps_cpuTime k = 4 * of_nat (64 + k)"
  by (simp_all add: ps_pid_def ps_status_def ps_cpuTime_def)

lemma fill_row:
  assumes "a \<noteq> 0" and "k < 32"
  obtains m' where "fill_proc_info a k p (s\<lparr>ram := m\<rparr>) = Some (s\<lparr>ram := m'\<rparr>)" and "row s a m' k p"
    and "\<And>j q. j < k \<Longrightarrow> row s a m j q \<Longrightarrow> row s a m' j q"
proof -
  define w where "w = (\<lambda>i. a + 4 * (of_nat i :: u32))"
  define m' where "m' = store32 (store32 (store32 m (w k) (word_of_int (pid (procs s p))))
    (w (64 + k)) (word_of_int (cpu_time (procs s p) * TICK_LENGTH_IN_MS))) (w (32 + k)) (word_of_int (proc_status (procs s p)))"
  have ap: "apart (w i) (w j)" if "i < 96" "j < 96" "i \<noteq> j" for i j unfolding w_def by (rule table_apart [OF that])
  have far: "load32 m' (w j) = load32 m (w j)" if "j < 96" "j \<noteq> k" "j \<noteq> 32 + k" "j \<noteq> 64 + k" for j
    using that assms(2) ap by (simp add: m'_def load32_store32_apart)
  have "fill_proc_info a k p (s\<lparr>ram := m\<rparr>) = Some (s\<lparr>ram := m'\<rparr>)"
    using assms by (simp add: fill_proc_info_def write32_def PCB_TABLE_SIZE_def Let_def table_words m'_def w_def)
  note run = this
  have rw: "row s a t j q \<longleftrightarrow> load32 t (w j) = word_of_int (pid (procs s q)) \<and>
      load32 t (w (32 + j)) = word_of_int (proc_status (procs s q)) \<and>
      load32 t (w (64 + j)) = word_of_int (cpu_time (procs s q) * TICK_LENGTH_IN_MS)" for t j q
    by (simp add: row_def table_words w_def)
  have "row s a m' k p" using assms(2) ap unfolding rw by (simp add: m'_def load32_store32_apart)
  moreover have "row s a m' j q" if "j < k" "row s a m j q" for j q
    using that far [of j] far [of "32 + j"] far [of "64 + j"] assms(2) unfolding rw by simp
  ultimately show ?thesis using that run by blast
qed

definition live_procs :: "kernel \<Rightarrow> nat \<Rightarrow> pcbref list" where
  "live_procs s n = filter (\<lambda>p. curr_state (procs s p) \<noteq> PROC_STATE_STOPPED) (map Table [0..<n])"

lemma live_procs_sorted: "sorted_wrt (<) (IdleProc # live_procs s n)"
proof -
  have "sorted_wrt (<) (map Table [0..<n])" by (simp add: sorted_wrt_map less_pcbref_def sorted_wrt_iff_nth_less)
  then have "sorted_wrt (<) (live_procs s n)" unfolding live_procs_def by (rule sorted_wrt_filter)
  then show ?thesis by (auto simp: live_procs_def less_pcbref_def)
qed

lemma get_all_proc_info_rows:
  assumes a: "a \<noteq> 0" and n: "length (live_procs s PCB_TABLE_SIZE) < PCB_TABLE_SIZE"
  shows "\<exists>m. get_all_proc_info a s = Some (int (length (live_procs s PCB_TABLE_SIZE)), s\<lparr>ram := m\<rparr>) \<and>
    (\<forall>k \<le> length (live_procs s PCB_TABLE_SIZE). row s a m k ((IdleProc # live_procs s PCB_TABLE_SIZE) ! k)) \<and>
    sorted_wrt (<) (IdleProc # live_procs s PCB_TABLE_SIZE)"
proof -
  let ?f = "\<lambda>i (slot, s). if curr_state (procs s (Table i)) \<noteq> PROC_STATE_STOPPED
     then map_option (\<lambda>s. (slot + 1, s)) (fill_proc_info a (slot + 1) (Table i) s) else Some (slot, s)"
  obtain m0 where m0: "fill_proc_info a 0 get_idleproc (s\<lparr>ram := ram s\<rparr>) = Some (s\<lparr>ram := m0\<rparr>)" "row s a m0 0 get_idleproc"
    by (rule fill_row [OF a, where k = 0 and p = get_idleproc and s = s and m = "ram s"]) simp_all
  have "\<exists>m. for_each ?f [0..<j] (0, s\<lparr>ram := m0\<rparr>) = Some (length (live_procs s j), s\<lparr>ram := m\<rparr>) \<and>
    (\<forall>k \<le> length (live_procs s j). row s a m k ((IdleProc # live_procs s j) ! k))"
    if "length (live_procs s j) < 32" for j
    using that
  proof (induction j)
    case 0
    then show ?case using m0(2) by (auto simp: live_procs_def get_idleproc_def)
  next
    case (Suc j)
    have st: "live_procs s (Suc j) = live_procs s j @ (if curr_state (procs s (Table j)) \<noteq> PROC_STATE_STOPPED then [Table j] else [])"
      by (simp add: live_procs_def)
    obtain m where m: "for_each ?f [0..<j] (0, s\<lparr>ram := m0\<rparr>) = Some (length (live_procs s j), s\<lparr>ram := m\<rparr>)"
      "\<And>k. k \<le> length (live_procs s j) \<Longrightarrow> row s a m k ((IdleProc # live_procs s j) ! k)"
      using Suc st by (auto split: if_splits)
    show ?case
    proof (cases "curr_state (procs s (Table j)) = PROC_STATE_STOPPED")
      case True
      then show ?thesis using m by (auto simp: st)
    next
      case False
      then have k: "length (live_procs s j) + 1 < 32" using Suc.prems by (simp add: st)
      obtain m' where m': "fill_proc_info a (length (live_procs s j) + 1) (Table j) (s\<lparr>ram := m\<rparr>) = Some (s\<lparr>ram := m'\<rparr>)"
        "row s a m' (length (live_procs s j) + 1) (Table j)"
        "\<And>i q. i < length (live_procs s j) + 1 \<Longrightarrow> row s a m i q \<Longrightarrow> row s a m' i q"
        by (rule fill_row [OF a k, where p = "Table j" and s = s and m = m], rule that)
      have "row s a m' i ((IdleProc # live_procs s (Suc j)) ! i)" if "i \<le> length (live_procs s (Suc j))" for i
      proof (cases "i = length (live_procs s j) + 1")
        case True
        then show ?thesis using m'(2) False by (simp add: st nth_append)
      next
        case old: False
        then have i: "i \<le> length (live_procs s j)" using that False by (simp add: st)
        then have "(IdleProc # live_procs s (Suc j)) ! i = (IdleProc # live_procs s j) ! i"
          using False by (simp add: st nth_append nth_Cons split: nat.splits)
        then show ?thesis using m'(3) m(2) i by simp
      qed
      moreover have "for_each ?f [0..<Suc j] (0, s\<lparr>ram := m0\<rparr>) = Some (length (live_procs s (Suc j)), s\<lparr>ram := m'\<rparr>)"
        using m(1) m'(1) False by (simp add: st)
      ultimately show ?thesis by blast
    qed
  qed
  from this [of PCB_TABLE_SIZE] n
  obtain m where m: "for_each ?f [0..<PCB_TABLE_SIZE] (0, s\<lparr>ram := m0\<rparr>) = Some (length (live_procs s PCB_TABLE_SIZE), s\<lparr>ram := m\<rparr>)"
    "\<forall>k \<le> length (live_procs s PCB_TABLE_SIZE). row s a m k ((IdleProc # live_procs s PCB_TABLE_SIZE) ! k)"
    by (auto simp: PCB_TABLE_SIZE_def)
  have "fill_proc_info a 0 get_idleproc s = Some (s\<lparr>ram := m0\<rparr>)" using m0(1) by simp
  then show ?thesis using a m live_procs_sorted [of s PCB_TABLE_SIZE] by (intro exI [of _ m]) (simp add: get_all_proc_info_def)
qed

text \<open>The table a process gets lists the idle process in row 0 and then, in table order, every process
  that is not stopped, each with its number, its state and its processor time in milliseconds; the
  result is their count. There must be a row for each, which 32 processes and the idle one lack.\<close>

theorem process_table_rows:
  assumes a: "a \<noteq> 0" and n: "length (live_procs s PCB_TABLE_SIZE) < PCB_TABLE_SIZE"
  shows "\<exists>m. get_all_proc_info a s = Some (int (length (live_procs s PCB_TABLE_SIZE)), s\<lparr>ram := m\<rparr>) \<and>
    (\<forall>k \<le> length (live_procs s PCB_TABLE_SIZE). row s a m k ((IdleProc # live_procs s PCB_TABLE_SIZE) ! k)) \<and>
    sorted_wrt (<) (IdleProc # live_procs s PCB_TABLE_SIZE)"
  using get_all_proc_info_rows [OF assms] .

lemma two_procs_live: "live_procs two_procs PCB_TABLE_SIZE = [Table 0, Table 1]"
proof -
  have st: "curr_state (procs two_procs (Table i)) = PROC_STATE_STOPPED \<longleftrightarrow> 2 \<le> i" if "i < 32" for i
  proof -
    have "Table i \<in> set (two_queues In_stopped) \<longleftrightarrow> place_of (procs two_procs (Table i)) = Some In_stopped"
      using qinvD(2) [OF kinvD(1) [OF two_procs_kinv], of "Table i" In_stopped] that by (simp add: PCB_TABLE_SIZE_def)
    moreover have "Table i \<in> set (two_queues In_stopped) \<longleftrightarrow> 2 \<le> i"
      unfolding two_queues_simps PCB_TABLE_SIZE_def set_map set_upt image_iff using that by auto
    ultimately show ?thesis by (auto simp: place_of_def split: proc_state.splits if_splits option.splits)
  qed
  have "live_procs two_procs PCB_TABLE_SIZE = filter (\<lambda>p. p = Table 0 \<or> p = Table 1) (map Table [0..<32])"
    unfolding live_procs_def PCB_TABLE_SIZE_def by (rule filter_cong [OF refl]) (use st in force)
  also have "[0 ..< 32 :: nat] = 0 # 1 # [2..<32]" by (simp add: upt_conv_Cons)
  also have "filter (\<lambda>p. p = Table 0 \<or> p = Table 1) (map Table (0 # 1 # [2..<32])) = [Table 0, Table 1]"
    by (simp add: filter_empty_conv del: upt_Suc)
  finally show ?thesis .
qed

lemma process_table_rows_witness:
  "\<exists>m. get_all_proc_info 0x200000 two_procs = Some (2, two_procs\<lparr>ram := m\<rparr>) \<and> load32 m (0x200000 + 8) = 34"
proof -
  have "(0x200000 :: u32) \<noteq> 0" "length (live_procs two_procs PCB_TABLE_SIZE) < PCB_TABLE_SIZE"
    unfolding two_procs_live by (simp_all add: PCB_TABLE_SIZE_def)
  from process_table_rows [OF this] obtain m where
    m: "get_all_proc_info 0x200000 two_procs = Some (2, two_procs\<lparr>ram := m\<rparr>)"
      "\<forall>k \<le> 2. row two_procs 0x200000 m k ([IdleProc, Table 0, Table 1] ! k)" unfolding two_procs_live by auto
  have "row two_procs 0x200000 m 2 (Table 1)" using m(2) [rule_format, of 2] by simp
  then show ?thesis using m(1) two_procs_pids(2) by (auto simp: row_def ps_pid_def)
qed
end
