(* ===== verification/Format_Props.thy ===== *)
theory Format_Props
  imports Libc_Props Doprnt
begin

text \<open>
  The formatter's decimal conversions: the digits \<open>doprnt\<close> prints for a number are the number's, for
  every 32-bit value, and \<open>atoi\<close> reads back what \<open>%d\<close> writes.
\<close>

lemma dec_digit: "0 \<le> n \<Longrightarrow> sint (word_of_int (trem10 n) + 0x30 :: u8) = 48 + n mod 10"
proof -
  assume "0 \<le> n"
  then have "word_of_int (trem10 n) + 0x30 = (word_of_int (48 + n mod 10) :: u8)" by (simp add: trem10_def add.commute)
  moreover obtain r where r: "n mod 10 = r" "0 \<le> r" "r < 10" by simp
  then have "signed_take_bit 7 (48 + r) = 48 + r" by (intro signed_take_bit_int_eq_self) simp_all
  ultimately show ?thesis by (simp add: signed_of_int r(1) del: of_int_add)
qed

abbreviation low_digits :: "nat \<Rightarrow> int \<Rightarrow> u8 list" where
  "low_digits k n \<equiv> fill_digits (\<lambda>n. word_of_int (trem10 n) + 0x30) tdiv10 k n"

lemma low_digits_value:
  "0 \<le> n \<Longrightarrow> digits (low_digits k n) \<and> decimal 0 (rev (low_digits k n)) = n mod 10 ^ k \<and> length (low_digits k n) = k"
proof (induction k arbitrary: n)
  case 0
  then show ?case by (simp add: digits_def)
next
  case (Suc k)
  have d: "tdiv10 n = n div 10" using Suc.prems by (simp add: tdiv10_def)
  have "0 \<le> n mod 10" "n mod 10 \<le> 9" by (simp, presburger)
  moreover have "n mod (10 * 10 ^ k) = 10 * (n div 10 mod 10 ^ k) + n mod 10" by (rule zmod_zmult2_eq) simp
  moreover have "0 \<le> n div 10" using Suc.prems by simp
  ultimately show ?case using Suc.IH [of "n div 10"] dec_digit [OF Suc.prems] by (simp add: d digits_def)
qed

lemma decimal_strip: "decimal 0 (dropWhile (\<lambda>c. c = 0x30) ds) = decimal 0 ds"
  by (induction ds) auto

lemma strip_digits_value:
  assumes "digits ds" and "ds \<noteq> []"
  shows "digits (strip_digits ds) \<and> strip_digits ds \<noteq> [] \<and> decimal 0 (strip_digits ds) = decimal 0 (rev ds) \<and>
    length (strip_digits ds) \<le> length ds"
proof (cases "dropWhile (\<lambda>c. c = 0x30) (rev ds) = []")
  case True
  then have "hd ds = 0x30" using assms(2) by (simp add: dropWhile_eq_Nil_conv)
  moreover have "decimal 0 (rev ds) = 0" using decimal_strip [of "rev ds"] True by simp
  ultimately show ?thesis using True assms by (cases ds) (simp_all add: strip_digits_def Let_def digits_def)
next
  case False
  have "set (dropWhile (\<lambda>c. c = 0x30) (rev ds)) \<subseteq> set ds" using set_dropWhileD by fastforce
  moreover have "length (dropWhile (\<lambda>c. c = 0x30) (rev ds)) \<le> length ds" using length_dropWhile_le [of _ "rev ds"] by simp
  ultimately show ?thesis using False assms by (auto simp: strip_digits_def Let_def decimal_strip digits_def)
qed

lemma prtl10_value:
  assumes "0 \<le> n" and "n < 10 ^ 10"
  shows "digits (prtl10 n) \<and> prtl10 n \<noteq> [] \<and> decimal 0 (prtl10 n) = n \<and> length (prtl10 n) \<le> 10"
proof -
  have "low_digits 10 n \<noteq> []" by (simp add: eval_nat_numeral)
  then show ?thesis using strip_digits_value [of "low_digits 10 n"] low_digits_value [OF assms(1), of 10] assms
    by (simp add: prtl10_def)
qed

lemma decimal_split: "decimal n ds = n * 10 ^ length ds + decimal 0 ds"
proof (induction ds arbitrary: n)
  case (Cons d ds)
  show ?case using Cons.IH [of "n * 10 + (sint d - 48)"] Cons.IH [of "sint d - 48"] by (simp add: algebra_simps)
qed simp

lemma decimal_bound: "digits ds \<Longrightarrow> 0 \<le> decimal 0 ds \<and> decimal 0 ds < 10 ^ length ds"
proof (induction ds)
  case (Cons d ds)
  have d: "0 \<le> sint d - 48" "sint d - 48 \<le> 9" "digits ds" using Cons.prems by (auto simp: digits_def)
  have "(sint d - 48) * 10 ^ length ds \<le> 9 * 10 ^ length ds" using d(2) by (rule mult_right_mono) simp
  moreover have "0 \<le> (sint d - 48) * 10 ^ length ds" using d(1) by simp
  moreover have "decimal 0 (d # ds) = (sint d - 48) * 10 ^ length ds + decimal 0 ds"
    by (simp add: decimal_split [of "sint d - 48"])
  moreover have "(10 :: int) ^ length (d # ds) = 10 * 10 ^ length ds" by simp
  ultimately show ?case using Cons.IH [OF d(3)] by linarith
qed (simp add: digits_def)

text \<open>A ten-digit number below \<open>2 ^ 31\<close> starts with 1 or 2, so the count of billions fits in that digit.\<close>

lemma prtl10_lead:
  assumes "1000000000 \<le> n" and "n < 2 ^ 31" and "lead \<in> {1, 2, 3}"
  obtains d ds where "prtl10 n = d # ds" and "digits ((d + lead) # ds)" and "length ds = 9"
    and "decimal 0 ((d + lead) # ds) = n + uint lead * 1000000000"
proof -
  have v: "digits (prtl10 n)" "prtl10 n \<noteq> []" "decimal 0 (prtl10 n) = n" "length (prtl10 n) \<le> 10"
    using prtl10_value [of n] assms by simp_all
  then obtain d ds where p: "prtl10 n = d # ds" by (cases "prtl10 n") auto
  have "9 \<le> length ds"
  proof (rule ccontr)
    assume "\<not> 9 \<le> length ds"
    then have "(10 :: int) ^ length (prtl10 n) \<le> 10 ^ 9" using p by (intro power_increasing) auto
    then show False using decimal_bound [OF v(1)] v(3) assms(1) by simp
  qed
  then have l: "length ds = 9" using v(4) p by simp
  have d: "0 \<le> sint d - 48" "sint d - 48 \<le> 9" "digits ds" using v(1) p by (auto simp: digits_def)
  have val: "n = (sint d - 48) * 1000000000 + decimal 0 ds" using v(3) p l decimal_split [of "sint d - 48" ds] by simp
  have b: "0 \<le> decimal 0 ds" "decimal 0 ds < 1000000000" using decimal_bound [OF d(3)] l by simp_all
  have "sint d - 48 \<le> 2" "1 \<le> sint d - 48" using val b assms(1,2) by simp_all
  then have "sint d = sint (49 :: u8) \<or> sint d = sint (50 :: u8)" by auto
  then have "d = 49 \<or> d = 50" using signed_word_eqI [of d] by blast
  then have lead: "sint (d + lead) = sint d + uint lead" "48 \<le> sint (d + lead)" "sint (d + lead) \<le> 57" using assms(3) by auto
  show ?thesis
  proof (rule that [OF p _ l])
    show "digits ((d + lead) # ds)" using d(3) lead(2,3) by (simp add: digits_def)
    show "decimal 0 ((d + lead) # ds) = n + uint lead * 1000000000"
      using val lead(1) l decimal_split [of "sint d + uint lead - 48" ds] by (simp add: algebra_simps)
  qed
qed


lemma s32_wrap: "- (2 ^ 32) - 2 ^ 31 \<le> x \<Longrightarrow> x < - (2 ^ 31) \<Longrightarrow> s32 x = x + 2 ^ 32"
proof -
  assume "- (2 ^ 32) - 2 ^ 31 \<le> x" "x < - (2 ^ 31)"
  then have "in_s32 (x + 2 ^ 32)" by (simp add: in_s32_def)
  then have "s32 (x + 2 ^ 32) = x + 2 ^ 32" by simp
  moreover have "s32 (x + 2 ^ 32) = s32 x"
    unfolding s32_def by (rule signed_take_bit_eq_iff_take_bit_eq [THEN iffD2]) (simp add: take_bit_eq_mod)
  ultimately show ?thesis by simp
qed

lemma print_unsigned_value:
  "\<exists>ds. print_unsigned (sint (a :: u32)) = Some ds \<and> digits ds \<and> ds \<noteq> [] \<and> decimal 0 ds = uint a \<and> length ds \<le> 10"
proof (cases "0 \<le> sint a")
  case True
  then have u: "uint a = sint a" "sint a < 2 ^ 31" using sint_less [of a] by (simp_all add: uint_sint take_bit_int_eq_self)
  obtain d ds where p: "prtl10 (sint a) = d # ds" using prtl10_value [OF True] u by (cases "prtl10 (sint a)") auto
  have "print_unsigned (sint a) = Some (prtl10 (sint a))"
    using True p by (simp add: print_unsigned_def split_billions.simps [of "sint a"])
  then show ?thesis using prtl10_value [OF True] u by auto
next
  case False
  have g: "- (2 ^ 31) \<le> sint a" using sint_greater_eq [of a] by simp
  have u: "uint a = sint a + 2 ^ 32"
  proof -
    have "uint a = sint a mod 2 ^ 32" by (simp add: uint_sint take_bit_eq_mod)
    also have "\<dots> = (sint a + 2 ^ 32) mod 2 ^ 32" by simp
    also have "\<dots> = sint a + 2 ^ 32" using False g by (intro mod_pos_pos_trivial) simp_all
    finally show ?thesis .
  qed
  define lead :: u8 where "lead = (if uint a < 3147483648 then 1 else if uint a < 4147483648 then 2 else 3)"
  define n where "n = uint a - uint lead * 1000000000"
  have n: "1000000000 \<le> n" "n < 2 ^ 31" "lead \<in> {1, 2, 3}" using False g u by (auto simp: n_def lead_def)
  have nn: "split_billions n l = Some (n, l)" for l using n(1) by (subst split_billions.simps) simp
  have step: "split_billions x l = split_billions (s32 (x - 1000000000)) (l + 1)" if "x < 0" for x l
    using that by (subst split_billions.simps) simp
  have "split_billions (sint a) 0 = Some (n, lead)"
  proof -
    consider (a) "uint a < 3147483648" | (b) "3147483648 \<le> uint a" "uint a < 4147483648" | (c) "4147483648 \<le> uint a" by linarith
    then show ?thesis
    proof cases
      case a
      then have "s32 (sint a - 1000000000) = n" using s32_wrap [of "sint a - 1000000000"] u g by (simp add: n_def lead_def)
      then show ?thesis using False a nn by (simp add: step lead_def)
    next
      case b
      have "s32 (sint a - 1000000000) = sint a - 1000000000" using b u False by (simp add: in_s32_def)
      moreover have "s32 (sint a - 2000000000) = n" using s32_wrap [of "sint a - 2000000000"] b u g by (simp add: n_def lead_def)
      ultimately show ?thesis using False b nn by (simp add: step lead_def)
    next
      case c
      have "s32 (sint a - 1000000000) = sint a - 1000000000" "s32 (sint a - 2000000000) = sint a - 2000000000"
        using c u False by (simp_all add: in_s32_def)
      moreover have "s32 (sint a - 3000000000) = n" using s32_wrap [of "sint a - 3000000000"] c u g False by (simp add: n_def lead_def)
      ultimately show ?thesis using False c nn by (simp add: step lead_def)
    qed
  qed
  moreover obtain d ds where "prtl10 n = d # ds" "digits ((d + lead) # ds)" "length ds = 9"
    "decimal 0 ((d + lead) # ds) = n + uint lead * 1000000000" by (rule prtl10_lead [OF n])
  ultimately show ?thesis by (simp add: print_unsigned_def n_def)
qed

text \<open>The unsigned decimal of any 32-bit word has the word's value, in at most ten digits, also when
  the word is above \<open>2 ^ 31\<close> and the routine counts billions off its first digit.\<close>

theorem unsigned_decimal:
  "\<exists>ds. print_unsigned (sint (a :: u32)) = Some ds \<and> digits ds \<and> ds \<noteq> [] \<and> decimal 0 ds = uint a \<and> length ds \<le> 10"
  by (rule print_unsigned_value)

subsection \<open>The format \<open>%d\<close>\<close>

definition percent_d :: "bytes \<Rightarrow> u32 \<Rightarrow> bool" where
  "percent_d m fmt \<longleftrightarrow> m fmt = 0x25 \<and> m (fmt + 1) = 0x64 \<and> m (fmt + 2) = 0"

lemma doprnt_percent_d:
  assumes f: "percent_d m fmt" and n: "\<bar>sint (args 0)\<bar> < 2 ^ 31"
  shows "\<exists>cs. doprnt m fmt args string0 = Some cs \<and> numeral_text (sint (args 0)) cs \<and> length cs \<le> 11"
proof -
  let ?n = "sint (args 0)"
  have "in_s32 (- ?n)" using n by (auto simp: in_s32_def abs_less_iff)
  then have "s32 (- ?n) = - ?n" by simp
  then have "(if ?n < 0 then s32 (- ?n) else ?n) = \<bar>?n\<bar>" by simp
  moreover obtain ds where ds: "print_unsigned \<bar>?n\<bar> = Some ds" "digits ds" "ds \<noteq> []" "decimal 0 ds = \<bar>?n\<bar>" "length ds \<le> 10"
  proof -
    have "sint (word_of_int \<bar>?n\<bar> :: u32) = \<bar>?n\<bar>" "uint (word_of_int \<bar>?n\<bar> :: u32) = \<bar>?n\<bar>"
      using n by (simp_all add: in_s32_def unsigned_of_int take_bit_int_eq_self)
    then show ?thesis using print_unsigned_value [of "word_of_int \<bar>?n\<bar>"] that by auto
  qed
  ultimately have pu: "print_unsigned (if ?n < 0 then s32 (- ?n) else ?n) = Some ds" by simp
  let ?sp = "\<lparr>sp_leftjust = False, sp_fill = 0x20, sp_fmin = 0, sp_fmax = 0\<rparr>"
  have num: "fmt_number m (fmt + 1) 0 = Some (0, fmt + 1)"
    using f by (subst fmt_number.simps) (simp add: percent_d_def is_digit_def)
  have ps: "parse_spec m args (fmt + 1) 0 = Some (?sp, fmt + 1, 0)"
    using f num by (simp add: parse_spec_def fmt_width_def percent_d_def Let_def)
  have cv: "convert m 0x64 (args 0) string0 ?sp = Some ([], ds, ds, ?n < 0, ?sp)"
    using pu ds(5) by (simp add: convert_def fits_string_def Let_def)
  have end_loop: "doprnt_loop m args (fmt + 2) 1 ds out = Some out" for out
    using f by (subst doprnt_loop.simps) (simp add: percent_d_def)
  have lay: "layout ds (?n < 0) ?sp = (if ?n < 0 then [0x2D] else []) @ ds"
    by (simp add: layout_def clip_def MAXSTR_def Let_def)
  have "doprnt m fmt args string0 = Some ((if ?n < 0 then [0x2D] else []) @ ds)"
    unfolding doprnt_def
    by (subst doprnt_loop.simps) (use f ps cv end_loop lay in \<open>simp add: percent_d_def add.assoc\<close>)
  moreover have "numeral_text ?n ((if ?n < 0 then [0x2D] else []) @ ds)"
    using ds by (auto simp: numeral_text_def)
  moreover have "length ((if ?n < 0 then [0x2D] else []) @ ds) \<le> 11" using ds(5) by simp
  ultimately show ?thesis by blast
qed

text \<open>A number printed with \<open>%d\<close> is read back by \<open>atoi\<close>, whatever number above the least it is and
  wherever the text is stored.\<close>

theorem print_then_atoi:
  assumes "percent_d m fmt" and "\<bar>sint (args 0)\<bar> < 2 ^ 31"
  shows "\<exists>cs. doprnt m fmt args string0 = Some cs \<and> (\<forall>m' p. str_at m' p cs \<longrightarrow> atoi m' p = Some (sint (args 0)))"
  using doprnt_percent_d [where args = args, OF assms] atoi_text assms(2) by blast

lemma print_then_atoi_witness:
  "\<exists>cs. doprnt (\<lambda>a. if a = 0x100 then 0x25 else if a = 0x101 then 0x64 else 0) 0x100 (\<lambda>_. - 25) [] = Some cs \<and>
     (\<forall>m' p. str_at m' p cs \<longrightarrow> atoi m' p = Some (- 25))"
  using print_then_atoi [of "\<lambda>a. if a = 0x100 then 0x25 else if a = 0x101 then 0x64 else 0" "0x100" "\<lambda>_. - 25" "[]"]
  by (simp add: percent_d_def)
end
