(* ===== verification/Console.thy ===== *)
theory Console
  imports Doprnt I386
begin

text \<open>
  c/kprintf.c, the text screen. The screen memory starts at \<open>Crtat\<close>, a multiple of 16, and holds
  25 rows of 80 cells, each a character and an attribute; \<open>crtat\<close> is the byte offset of the next
  cell from \<open>Crtat\<close> (it may be negative after a backspace at the top). The adaptor is found to be
  colour or monochrome by a probe, whose outcome is \<open>cga\<close>.
\<close>

definition COL :: int where "COL = 80"
definition ROW :: int where "ROW = 25"
definition CHR_size :: int where "CHR_size = 2"
definition console_att :: u8 where "console_att = 7"

lemmas console_defs = COL_def ROW_def CHR_size_def console_att_def

record screen =
  vram :: "int \<Rightarrow> u8"
  crtat :: "int option"
  addr_6845 :: u32
  con_io :: io_state

definition cursor :: "int \<Rightarrow> screen \<Rightarrow> screen" where
  "cursor pos s = s\<lparr>con_io :=
     outb (addr_6845 s + 1) (word_of_int (pos AND 0xff))
       (outb (addr_6845 s) 15
         (outb (addr_6845 s + 1) (word_of_int (drop_bit 8 pos)) (outb (addr_6845 s) 14 (con_io s))))\<rparr>"

text \<open>The cells from offset \<open>a\<close> up to offset \<open>b\<close>: characters blank, attributes as \<open>f\<close> says.\<close>

definition blank_chars :: "int \<Rightarrow> int \<Rightarrow> (int \<Rightarrow> u8) \<Rightarrow> (int \<Rightarrow> u8)" where
  "blank_chars a b v = (\<lambda>x. if a \<le> x \<and> x < b \<and> (x - a) mod 2 = 0 then 0x20 else v x)"

definition blank_atts :: "int \<Rightarrow> int \<Rightarrow> (int \<Rightarrow> u8) \<Rightarrow> (int \<Rightarrow> u8)" where
  "blank_atts a b v = (\<lambda>x. if a \<le> x \<and> x < b + 1 \<and> (x - a) mod 2 = 1 then console_att else v x)"

text \<open>The first character finds the adaptor and the cursor, and clears the rest of the screen.\<close>

definition con_init :: "bool \<Rightarrow> screen \<Rightarrow> screen" where
  "con_init cga s =
     (let s = (if cga then s else s\<lparr>addr_6845 := 0x3B4\<rparr>);
          io1 = outb (addr_6845 s) 14 (con_io s);
          hi = uint (inb (addr_6845 s + 1) io1);
          io2 = outb (addr_6845 s) 15 io1;
          lo = uint (inb (addr_6845 s + 1) io2);
          cursorat = push_bit 8 hi OR lo;
          at = (if cursorat \<le> COL * ROW then cursorat * CHR_size else 0)
      in s\<lparr>con_io := io2, crtat := Some at,
           vram := blank_atts at (ROW * COL * CHR_size) (blank_chars at (ROW * COL * CHR_size) (vram s))\<rparr>)"

text \<open>The remainder of C.\<close>

definition con_rem :: "int \<Rightarrow> int \<Rightarrow> int" where
  "con_rem x y = (if x < 0 then - ((- x) mod y) else x mod y)"

definition con_div :: "int \<Rightarrow> int \<Rightarrow> int" where
  "con_div x y = (if x < 0 then - ((- x) div y) else x div y)"

text \<open>Moving the text up by a row when the cursor has left the screen, and setting the cursor.\<close>

definition con_scroll :: "int \<Rightarrow> screen \<Rightarrow> screen" where
  "con_scroll at s =
     (let size = COL * ROW * CHR_size;
          row = COL * CHR_size;
          s = (if at \<ge> size then
                 s\<lparr>vram := blank_chars (size - row) size
                     (\<lambda>x. if 0 \<le> x \<and> x < size - row then vram s (x + row) else vram s x),
                   crtat := Some (at - row)\<rparr>
               else s\<lparr>crtat := Some at\<rparr>)
      in (case crtat s of None \<Rightarrow> s | Some at \<Rightarrow> cursor (con_div at CHR_size) s))"

definition con_line_start :: "int \<Rightarrow> int" where
  "con_line_start at = at - con_rem at (COL * CHR_size)"

text \<open>One visible character in the cell at offset \<open>at\<close>.\<close>

definition con_put :: "u8 \<Rightarrow> int \<Rightarrow> screen \<Rightarrow> screen" where
  "con_put c at s = con_scroll (at + CHR_size) (s\<lparr>vram := (vram s)(at := c, at + 1 := console_att)\<rparr>)"

text \<open>A tab writes blanks until the address is a multiple of eight cells.\<close>

partial_function (option) con_tab :: "screen \<Rightarrow> screen option" where
  "con_tab s = do {
     at \<leftarrow> crtat s;
     let s = con_put 0x20 at s;
     at \<leftarrow> crtat s;
     (if con_rem at (8 * CHR_size) \<noteq> 0 then con_tab s else Some s)
   }"

definition kbmputc :: "bool \<Rightarrow> u8 \<Rightarrow> screen \<Rightarrow> screen option" where
  "kbmputc cga c s =
     (if c = 0 then Some s
      else do {
        let s = (if crtat s = None then con_init cga s else s);
        at \<leftarrow> crtat s;
        (if c = 0x09 then do {
           s \<leftarrow> con_tab s;
           at \<leftarrow> crtat s;
           Some (con_scroll at s)
         }
         else if c = 0x08 then Some (con_scroll (at - CHR_size) s)
         else if c = 0x0A then Some (con_scroll (con_line_start (at + COL * CHR_size)) s)
         else if c = 0x0D then Some (con_scroll (con_line_start at) s)
         else Some (con_put c at s))
      })"

definition kputc :: "bool \<Rightarrow> int \<Rightarrow> u8 \<Rightarrow> screen \<Rightarrow> (int \<times> screen) option" where
  "kputc cga dev c s = map_option (Pair (uint c)) (kbmputc cga c s)"

text \<open>\<open>kprintf\<close>: the formatter's characters, one by one, to the screen.\<close>

definition kprintf_screen ::
  "bool \<Rightarrow> bytes \<Rightarrow> u32 \<Rightarrow> (nat \<Rightarrow> u32) \<Rightarrow> u8 list \<Rightarrow> screen \<Rightarrow> screen option" where
  "kprintf_screen cga m fmt args string0 s = do {
     cs \<leftarrow> doprnt m fmt args string0;
     for_each (\<lambda>c s. map_option snd (kputc cga 0 c s)) cs s
   }"

end
