(* ===== verification/Console_Props.thy ===== *)
theory Console_Props
  imports Console Ctsw
begin

text \<open>
  The console and the interrupt set-up: the cursor stays on the screen and no byte outside the
  screen memory is written, every character is handled in finitely many steps, and the vectors and
  interrupt lines are what the set-up code says.
\<close>

subsection \<open>The screen\<close>

definition on_screen :: "int \<Rightarrow> bool" where
  "on_screen at \<longleftrightarrow> 0 \<le> at \<and> at < 4000 \<and> even at"

text \<open>The cursor on the screen, and memory outside the screen as before.\<close>

definition screen_ok :: "screen \<Rightarrow> screen \<Rightarrow> bool" where
  "screen_ok s0 s \<longleftrightarrow> (\<exists>at. crtat s = Some at \<and> on_screen at) \<and> (\<forall>x. \<not> (0 \<le> x \<and> x < 4000) \<longrightarrow> vram s x = vram s0 x)"

lemma con_scroll_ok:
  assumes "0 \<le> at" and "at < 4160" and "even at" and "\<forall>x. \<not> (0 \<le> x \<and> x < 4000) \<longrightarrow> vram s x = vram s0 x"
  shows "screen_ok s0 (con_scroll at s)" and "crtat (con_scroll at s) = Some (if at < 4000 then at else at - 160)"
  using assms by (auto simp: screen_ok_def con_scroll_def console_defs Let_def cursor_def on_screen_def blank_chars_def)

lemma con_put_ok:
  assumes "screen_ok s0 s" and "crtat s = Some at"
  shows "screen_ok s0 (con_put c at s)" and "crtat (con_put c at s) = Some (if at + 2 < 4000 then at + 2 else at + 2 - 160)"
proof -
  have at: "0 \<le> at" "at < 4000" "even at" and m: "\<forall>x. \<not> (0 \<le> x \<and> x < 4000) \<longrightarrow> vram s x = vram s0 x"
    using assms by (auto simp: screen_ok_def on_screen_def)
  have odd: "at + 1 < 4000" using at by (auto elim: evenE)
  let ?s = "s\<lparr>vram := (vram s)(at := c, at + 1 := console_att)\<rparr>"
  have v: "\<forall>x. \<not> (0 \<le> x \<and> x < 4000) \<longrightarrow> vram ?s x = vram s0 x" using m at odd by auto
  have "0 \<le> at + 2" "at + 2 < 4160" "even (at + 2)" using at by auto
  from con_scroll_ok [OF this v] show "screen_ok s0 (con_put c at s)"
    "crtat (con_put c at s) = Some (if at + 2 < 4000 then at + 2 else at + 2 - 160)"
    by (simp_all add: con_put_def CHR_size_def)
qed

text \<open>A tab ends at the next multiple of eight columns; each cell is two bytes and a row a multiple of 16.\<close>

lemma con_tab_ok:
  assumes "screen_ok s0 s" and "crtat s = Some at" and "n = nat (- (at + 2) mod 16)"
  shows "\<exists>s'. con_tab s = Some s' \<and> screen_ok s0 s'"
  using assms
proof (induction n arbitrary: s at rule: less_induct)
  case (less n)
  define s1 where "s1 = con_put 0x20 at s"
  define at1 where "at1 = (if at + 2 < 4000 then at + 2 else at + 2 - 160)"
  have s1: "screen_ok s0 s1" "crtat s1 = Some at1" using con_put_ok [OF less.prems(1,2)] by (simp_all add: s1_def at1_def)
  have b: "0 \<le> at1" "even at1" using s1 by (auto simp: screen_ok_def on_screen_def)
  have run: "con_tab s = (if at1 mod 16 \<noteq> 0 then con_tab s1 else Some s1)"
    using less.prems(2) s1(2) b by (subst con_tab.simps) (simp add: s1_def con_rem_def console_defs)
  show ?case
  proof (cases "at1 mod 16 = 0")
    case True
    then show ?thesis using run s1(1) by simp
  next
    case False
    obtain r where r: "(at + 2) mod 16 = r" "0 \<le> r" "r < 16" by simp
    have "(at + 2 + (- 10) * 16) mod 16 = (at + 2) mod 16" by (rule mod_mult_self1)
    then have "(at + 2 - 160) mod 16 = r" using r(1) by simp
    then have m: "at1 mod 16 = r" unfolding at1_def using r(1) by presburger
    then have r0: "0 < r" using False r(2) by simp
    have "even (at + 2)" using less.prems(1,2) by (auto simp: screen_ok_def on_screen_def)
    then have "even r" unfolding r(1) [symmetric] by (simp add: dvd_mod)
    then have "r \<noteq> 15" by auto
    have "(at1 + 2) mod 16 = (r + 2) mod 16" using mod_add_left_eq [of at1 16 2] m by simp
    then have "(at1 + 2) mod 16 = (if r = 14 then 0 else r + 2)" using r(2,3) \<open>r \<noteq> 15\<close> by auto
    then have "- (at1 + 2) mod 16 = (if r = 14 then 0 else 14 - r)" using zmod_zminus1_eq_if [of "at1 + 2" 16] r0 by auto
    moreover have "- (at + 2) mod 16 = 16 - r" using zmod_zminus1_eq_if [of "at + 2" 16] r(1) r0 by simp
    ultimately have "nat (- (at1 + 2) mod 16) < n" unfolding less.prems(3) using r0 r(3) by auto
    from less.IH [OF this s1 refl] show ?thesis using run False by simp
  qed
qed

lemma line_start:
  assumes "0 \<le> at"
  shows "0 \<le> con_line_start at" "con_line_start at \<le> at" "even at \<Longrightarrow> even (con_line_start at)"
  using assms by (simp_all add: con_line_start_def con_rem_def console_defs minus_mod_eq_mult_div)

lemma kbmputc_ok:
  assumes ok: "screen_ok s0 s" and c: "c \<noteq> 0x08"
  shows "\<exists>s'. kbmputc cga c s = Some s' \<and> screen_ok s0 s'"
proof -
  obtain at where at: "crtat s = Some at" "0 \<le> at" "at < 4000" "even at" using ok by (auto simp: screen_ok_def on_screen_def)
  have m: "\<forall>x. \<not> (0 \<le> x \<and> x < 4000) \<longrightarrow> vram s x = vram s0 x" using ok by (simp add: screen_ok_def)
  consider (nul) "c = 0" | (tab) "c = 0x09" | (nl) "c = 0x0A" | (cr) "c = 0x0D" | (chr) "c \<notin> {0, 0x08, 0x09, 0x0A, 0x0D}" using c by auto
  then show ?thesis
  proof cases
    case nul
    then show ?thesis using ok by (simp add: kbmputc_def)
  next
    case tab
    obtain s1 where s1: "con_tab s = Some s1" "screen_ok s0 s1" using con_tab_ok [OF ok at(1) refl] by blast
    then obtain at1 where at1: "crtat s1 = Some at1" "0 \<le> at1" "at1 < 4160" "even at1"
      and m1: "\<forall>x. \<not> (0 \<le> x \<and> x < 4000) \<longrightarrow> vram s1 x = vram s0 x" by (auto simp: screen_ok_def on_screen_def)
    then show ?thesis using tab s1(1) at(1) con_scroll_ok(1) [OF at1(2-4) m1] by (simp add: kbmputc_def)
  next
    case nl
    have "0 \<le> con_line_start (at + 160)" "con_line_start (at + 160) < 4160" "even (con_line_start (at + 160))"
      using line_start [of "at + 160"] at by auto
    from con_scroll_ok(1) [OF this m] show ?thesis using nl at(1) by (simp add: kbmputc_def console_defs)
  next
    case cr
    have "0 \<le> con_line_start at" "con_line_start at < 4160" "even (con_line_start at)" using line_start [of at] at by auto
    from con_scroll_ok(1) [OF this m] show ?thesis using cr at(1) by (simp add: kbmputc_def)
  next
    case chr
    then show ?thesis using con_put_ok(1) [OF ok at(1)] at(1) by (simp add: kbmputc_def)
  qed
qed


definition blank_screen :: screen where
  "blank_screen = \<lparr>vram = (\<lambda>_. 0), crtat = Some 3998, addr_6845 = 0x3D4,
     con_io = \<lparr>ports = (\<lambda>_. 0), out_log = [], interrupts_on = False\<rparr>\<rparr>"


text \<open>A backspace in the first cell moves the cursor before the screen, and the next character is written there.\<close>

lemma backspace_leaves_screen:
  assumes "crtat s = Some 0"
  shows "\<exists>s1 s2. kbmputc cga 0x08 s = Some s1 \<and> crtat s1 = Some (- 2) \<and> kbmputc cga 0x41 s1 = Some s2 \<and> vram s2 (- 2) = 0x41"
  using assms by (simp add: kbmputc_def con_scroll_def con_put_def console_defs Let_def cursor_def)

subsection \<open>Interrupt vectors and lines\<close>

text \<open>After the set-up the processor finds the timer, keyboard and system call entry points in vectors
  32, 33 and 50 and the default handlers in the other ones set up, and enabling or disabling
  one interrupt line leaves every other line as it was.\<close>

theorem interrupt_setup:
  "gate_target (ctsw_init_evec t k c (fst (initevec d s)) 32) = t \<and>
   gate_target (ctsw_init_evec t k c (fst (initevec d s)) 33) = k \<and>
   gate_target (ctsw_init_evec t k c (fst (initevec d s)) 50) = c \<and>
   (\<forall>m. m < NID \<and> m \<noteq> 32 \<and> m \<noteq> 33 \<longrightarrow> gate_target (ctsw_init_evec t k c (fst (initevec d s)) m) = d m) \<and>
   (\<forall>irq irq'. irq < 16 \<and> irq' < 16 \<longrightarrow> irq_masked irq' (enable_irq irq dis s) =
     (if irq' = irq then dis \<noteq> 0 else irq_masked irq' s))"
proof (intro conjI allI impI)
  show "gate_target (ctsw_init_evec t k c (fst (initevec d s)) 32) = t"
    "gate_target (ctsw_init_evec t k c (fst (initevec d s)) 33) = k"
    "gate_target (ctsw_init_evec t k c (fst (initevec d s)) 50) = c"
    by (simp_all add: ctsw_init_evec_def TIMER_INTERRUPT_VALUE_def KEYBOARD_INTERRUPT_VALUE_def SYSCALL_INTERRUPT_VALUE_def
      gate_target_set_evec set_evec_other)
next
  fix m assume "m < NID \<and> m \<noteq> 32 \<and> m \<noteq> 33"
  then show "gate_target (ctsw_init_evec t k c (fst (initevec d s)) m) = d m"
    by (simp add: ctsw_init_evec_def TIMER_INTERRUPT_VALUE_def KEYBOARD_INTERRUPT_VALUE_def SYSCALL_INTERRUPT_VALUE_def
      set_evec_other initevec_targets NID_def)
next
  fix irq irq' :: u32 assume "irq < 16 \<and> irq' < 16"
  then show "irq_masked irq' (enable_irq irq dis s) = (if irq' = irq then dis \<noteq> 0 else irq_masked irq' s)"
    using enable_irq_masked enable_irq_frame by auto
qed

lemma interrupt_setup_witness:
  "gate_target (ctsw_init_evec 1 2 3 (fst (initevec (\<lambda>_. 9) (con_io blank_screen))) 14) = 9 \<and>
   irq_masked 1 (enable_irq 1 1 (con_io blank_screen))"
proof -
  note t = interrupt_setup [of 1 2 3 "\<lambda>_. 9" "con_io blank_screen" 1]
  have "(14 :: nat) < NID \<and> (14 :: nat) \<noteq> 32 \<and> (14 :: nat) \<noteq> 33" "(1 :: u32) < 16 \<and> (1 :: u32) < 16" by (simp_all add: NID_def)
  then show ?thesis using t by (metis one_neq_zero)
qed

end
