(* ===== verification/User.thy ===== *)
theory User
  imports Syscalls
begin

text \<open>
  c/user.c, the login process, the shell and its commands. A program is a tree of system calls:
  \<open>Do a k\<close> performs \<open>a\<close> and goes on with \<open>k r m\<close>, where \<open>r\<close> is the result and \<open>m\<close> the memory
  then (the kernel and other processes may have written to it). \<open>Again\<close> is the end of a pass of
  an endless loop. String literals and functions sit at fixed addresses, a \<open>program_image\<close>, which
  also has the address \<open>sysioctl\<close> passes for its (absent) variable arguments; the local arrays of
  a function are given by their addresses. A program that returns does so into \<open>sysstop\<close>.
\<close>

datatype action = Sys "u32 list" | Kprintf u32

datatype uprog = Return | Again | Do action "int \<Rightarrow> bytes \<Rightarrow> (bytes \<times> uprog) option"

record program_image =
  lit :: "string \<Rightarrow> u32"
  fn_shell :: u32
  fn_command_ps :: u32
  fn_command_k :: u32
  fn_command_a :: u32
  fn_command_t :: u32
  fn_command_sudo :: u32
  fn_command_a_handler :: u32
  fn_sysstop :: u32
  ioctl_va :: u32

definition nl :: "string \<Rightarrow> string" where "nl s = s @ [CHR 0x0A]"

text \<open>A call whose result is not used.\<close>

definition call_then :: "u32 list \<Rightarrow> uprog \<Rightarrow> uprog" where
  "call_then ws p = Do (Sys ws) (\<lambda>_ m. Some (m, p))"

definition USER_KILL_SIGNAL :: int where "USER_KILL_SIGNAL = 25"

definition setup_kill_handler ::
  "program_image \<Rightarrow> u32 \<Rightarrow> (bytes \<Rightarrow> (bytes \<times> uprog) option) \<Rightarrow> uprog" where
  "setup_kill_handler pi old k = Do (Sys (syssighandler USER_KILL_SIGNAL (fn_sysstop pi) old)) (\<lambda>_. k)"

subsection \<open>Strings\<close>

partial_function (option) filter_newline :: "bytes \<Rightarrow> u32 \<Rightarrow> bytes option" where
  "filter_newline m str =
     (if m str = 0 then Some m
      else if m str = 0x0A then Some (m(str := 0))
      else filter_newline m (str + 1))"

definition word_char :: "u8 \<Rightarrow> bool" where
  "word_char c \<longleftrightarrow> c \<noteq> 0 \<and> c \<noteq> 0x20 \<and> c \<noteq> 0x26"

text \<open>The copy loops of \<open>get_command\<close>: memory, place in the line, place in the buffer, count.\<close>

partial_function (option) copy_word ::
  "bytes \<Rightarrow> u32 \<Rightarrow> u32 \<Rightarrow> int \<Rightarrow> (bytes \<times> u32 \<times> u32 \<times> int) option" where
  "copy_word m str dst len =
     (if word_char (m str) then copy_word (m(dst := m str)) (str + 1) (dst + 1) (s32 (len + 1))
      else Some (m, str, dst, len))"

partial_function (option) skip_blanks :: "bytes \<Rightarrow> u32 \<Rightarrow> int \<Rightarrow> (u32 \<times> int) option" where
  "skip_blanks m str len =
     (if m str = 0x20 \<or> m str = 0x26 then skip_blanks m (str + 1) (s32 (len + 1))
      else Some (str, len))"

partial_function (option) skip_to_end :: "bytes \<Rightarrow> u32 \<Rightarrow> int \<Rightarrow> (u32 \<times> int) option" where
  "skip_to_end m str len =
     (if m str \<noteq> 0 then skip_to_end m (str + 1) (s32 (len + 1)) else Some (str, len))"

text \<open>Back from the end over blanks: 1 when the first other character is an ampersand.\<close>

fun trailing_ampersand :: "bytes \<Rightarrow> u32 \<Rightarrow> nat \<Rightarrow> int" where
  "trailing_ampersand m str 0 = 0"
| "trailing_ampersand m str (Suc n) =
     (if m str = 0x26 then 1
      else if m str = 0x20 then trailing_ampersand m (str - 1) n
      else 0)"

definition get_command :: "bytes \<Rightarrow> u32 \<Rightarrow> u32 \<Rightarrow> u32 \<Rightarrow> (int \<times> bytes) option" where
  "get_command m str command arg0 = do {
     (m, str, dst, len) \<leftarrow> copy_word m str command 0;
     let m = m(dst := 0);
     (str, len) \<leftarrow> skip_blanks m str len;
     (m, str, dst, len) \<leftarrow> copy_word m str arg0 len;
     let m = m(dst := 0);
     (str, len) \<leftarrow> skip_to_end m str len;
     let len = s32 (len - 1);
     Some (trailing_ampersand m (str - 1) (nat len), m)
   }"

subsection \<open>Login\<close>


text \<open>One pass of the loop of \<open>login_proc\<close>, from the greeting to the end of the shell.\<close>

definition login_check :: "program_image \<Rightarrow> u32 \<Rightarrow> u32 \<Rightarrow> bytes \<Rightarrow> (bytes \<times> uprog) option" where
  "login_check pi user_buf pass_buf m = do {
     m \<leftarrow> filter_newline m user_buf;
     m \<leftarrow> filter_newline m pass_buf;
     u \<leftarrow> strcmp m user_buf (lit pi ''cpsc415'');
     ok \<leftarrow> (if u = 0 then map_option (\<lambda>p. p = 0) (strcmp m pass_buf (lit pi ''EveryoneGetsAnA''))
           else Some False);
     Some (m, if ok then Do (Sys (syscreate (fn_shell pi) DEFAULT_STACK_SIZE))
                          (\<lambda>shell_pid m. Some (m, call_then (syswait shell_pid) Again))
              else Again)
   }"

definition login_iteration :: "program_image \<Rightarrow> u32 \<Rightarrow> u32 \<Rightarrow> bytes \<Rightarrow> bytes \<times> uprog" where
  "login_iteration pi user_buf pass_buf m = (
     memset (memset m user_buf 0 80) pass_buf 0 80,
     call_then (sysputs (lit pi (nl ''Welcome to Xeros - an experimental OS'')))
     (Do (Sys (sysopen (int DEVICE_ID_KEYBOARD_NO_ECHO))) (\<lambda>fd m. Some (m,
      call_then (sysioctl fd KEYBOARD_IOCTL_ENABLE_ECHO (ioctl_va pi))
      (call_then (sysputs (lit pi ''Username: ''))
      (call_then (sysread fd user_buf 20)
      (call_then (sysioctl fd KEYBOARD_IOCTL_DISABLE_ECHO (ioctl_va pi))
      (call_then (sysputs (lit pi (CHR 0x0A # ''Password: '')))
      (call_then (sysread fd pass_buf 20)
      (Do (Sys (sysclose fd)) (\<lambda>_ m. login_check pi user_buf pass_buf m))))))))))) "

subsection \<open>The shell\<close>

datatype shell_command = Cmd_t | Cmd_ps | Cmd_a | Cmd_k | Cmd_ex | Cmd_sudo | Cmd_unknown

text \<open>The chain of comparisons; the first that matches is taken.\<close>

definition shell_command_of :: "program_image \<Rightarrow> bytes \<Rightarrow> u32 \<Rightarrow> shell_command option" where
  "shell_command_of pi m command = do {
     t \<leftarrow> strcmp m (lit pi ''t'') command;
     (if t = 0 then Some Cmd_t else do {
     ps \<leftarrow> strcmp m (lit pi ''ps'') command;
     (if ps = 0 then Some Cmd_ps else do {
     a \<leftarrow> strcmp m (lit pi ''a'') command;
     (if a = 0 then Some Cmd_a else do {
     k \<leftarrow> strcmp m (lit pi ''k'') command;
     (if k = 0 then Some Cmd_k else do {
     ex \<leftarrow> strcmp m (lit pi ''ex'') command;
     (if ex = 0 then Some Cmd_ex else do {
     sudo \<leftarrow> strcmp m (lit pi ''sudo'') command;
     Some (if sudo = 0 then Cmd_sudo else Cmd_unknown) })})})})})
   }"

text \<open>The local arrays of \<open>shell\<close> and the two globals it sets for its commands.\<close>

record shell_frame =
  f_buf :: u32
  f_command :: u32
  f_arg :: u32
  f_printbuf :: u32
  f_old :: u32
  addr_g_arg :: u32
  addr_g_pid_to_kill :: u32

definition shell_wait :: "int \<Rightarrow> int \<Rightarrow> uprog" where
  "shell_wait wait n = (if wait \<noteq> 0 then call_then (syswait n) Again else Again)"

definition shell_start :: "program_image \<Rightarrow> u32 \<Rightarrow> int \<Rightarrow> uprog" where
  "shell_start pi fn wait = Do (Sys (syscreate fn DEFAULT_STACK_SIZE)) (\<lambda>n m. Some (m, shell_wait wait n))"

definition shell_farewell :: "program_image \<Rightarrow> int \<Rightarrow> uprog" where
  "shell_farewell pi fd = call_then (sysputs (lit pi (nl ''Goodbye.''))) (call_then (sysclose fd) Return)"

text \<open>What the shell does with a command line it has read into \<open>f_buf\<close>.\<close>

definition shell_line ::
  "program_image \<Rightarrow> shell_frame \<Rightarrow> int \<Rightarrow> (nat \<Rightarrow> u32) \<Rightarrow> bytes \<Rightarrow> (bytes \<times> uprog) option" where
  "shell_line pi fr fd junk m = do {
     m \<leftarrow> filter_newline m (f_buf fr);
     (ampersand, m) \<leftarrow> get_command m (f_buf fr) (f_command fr) (f_arg fr);
     c \<leftarrow> shell_command_of pi m (f_command fr);
     (case c of
        Cmd_t \<Rightarrow> Some (m, shell_start pi (fn_command_t pi) (if ampersand = 0 then 1 else 0))
      | Cmd_ps \<Rightarrow> Some (m, shell_start pi (fn_command_ps pi) 1)
      | Cmd_a \<Rightarrow> Some (store32 m (addr_g_arg fr) (f_arg fr), shell_start pi (fn_command_a pi) 1)
      | Cmd_k \<Rightarrow> do {
          n \<leftarrow> atoi m (f_arg fr);
          Some (store32 m (addr_g_pid_to_kill fr) (word_of_int n), shell_start pi (fn_command_k pi) 1)
        }
      | Cmd_ex \<Rightarrow> Some (m, shell_farewell pi fd)
      | Cmd_sudo \<Rightarrow> Some (store32 m (addr_g_arg fr) (f_arg fr),
          shell_start pi (fn_command_sudo pi) (if ampersand = 0 then 1 else 0))
      | Cmd_unknown \<Rightarrow> do {
          (m, _) \<leftarrow> sprintf m (f_printbuf fr)
            (lit pi (nl ''The program %s is currently not installed. You can install it by typing:''))
            (junk(0 := f_command fr)) [];
          Some (m, Do (Sys (sysputs (f_printbuf fr))) (\<lambda>_ m. do {
            (m, _) \<leftarrow> sprintf m (f_printbuf fr) (lit pi (nl ''sudo apt-get install %s''))
              (junk(0 := f_command fr)) [];
            Some (m, call_then (sysputs (f_printbuf fr)) (shell_wait 1 0)) }))
        })
   }"

definition shell_start_up :: "program_image \<Rightarrow> shell_frame \<Rightarrow> (int \<Rightarrow> uprog) \<Rightarrow> uprog" where
  "shell_start_up pi fr k = setup_kill_handler pi (f_old fr) (\<lambda>m. Some (m,
     call_then (sysputs (lit pi (nl [])))
       (Do (Sys (sysopen (int DEVICE_ID_KEYBOARD))) (\<lambda>fd m. Some (m, k fd)))))"

text \<open>One pass of the loop of \<open>shell\<close>; end of file ends it.\<close>

definition shell_iteration ::
  "program_image \<Rightarrow> shell_frame \<Rightarrow> int \<Rightarrow> (nat \<Rightarrow> u32) \<Rightarrow> bytes \<Rightarrow> bytes \<times> uprog" where
  "shell_iteration pi fr fd junk m = (memset m (f_buf fr) 0 100,
     call_then (sysputs (lit pi ''> ''))
       (Do (Sys (sysread fd (f_buf fr) 80)) (\<lambda>n m.
          if n = 0 then Some (m, shell_farewell pi fd) else shell_line pi fr fd junk m)))"

subsection \<open>Commands\<close>

text \<open>The names of \<open>detailed_states\<close>, indexed by the status numbers of \<open>fill_proc_info\<close>.\<close>

definition detailed_states :: "string list" where
  "detailed_states = [''READY'', ''STOPPED'', ''RUNNING'', ''BLOCKED: SENDING'', ''BLOCKED: RECEIVING'',
     ''BLOCKED: WAITING'', ''BLOCKED: RECEIVE ANY'', ''BLOCKED: SLEEPING'', ''BLOCKED: IO'']"

definition state_name :: "int \<Rightarrow> string option" where
  "state_name n =
     (if 0 \<le> n \<and> n < int (length detailed_states) then Some (detailed_states ! nat n) else None)"

text \<open>The lines of \<open>ps\<close> from entry \<open>i\<close> on; \<open>k\<close> entries are left.\<close>

fun ps_lines :: "program_image \<Rightarrow> u32 \<Rightarrow> u32 \<Rightarrow> (nat \<Rightarrow> u32) \<Rightarrow> nat \<Rightarrow> nat \<Rightarrow> bytes \<Rightarrow>
    (bytes \<times> uprog) option" where
  "ps_lines pi ps str junk i 0 m = Some (m, Return)"
| "ps_lines pi ps str junk i (Suc k) m = do {
     name \<leftarrow> state_name (sint (load32 m (ps + ps_status i)));
     (m, _) \<leftarrow> sprintf m str (lit pi (nl ''%4d  %16s  %8d''))
       (junk(0 := load32 m (ps + ps_pid i), 1 := lit pi name, 2 := load32 m (ps + ps_cpuTime i))) [];
     Some (m, Do (Sys (sysputs str)) (\<lambda>_. ps_lines pi ps str junk (i + 1) k))
   }"

definition command_ps :: "program_image \<Rightarrow> u32 \<Rightarrow> u32 \<Rightarrow> u32 \<Rightarrow> (nat \<Rightarrow> u32) \<Rightarrow> uprog" where
  "command_ps pi old ps str junk = setup_kill_handler pi old (\<lambda>m. Some (m,
     Do (Sys (sysgetcputimes ps)) (\<lambda>num m. Some (m,
     Do (Sys (sysputs (lit pi (nl ''PID | State           | Time'')))) (\<lambda>_ m.
       ps_lines pi ps str junk 0 (nat (num + 1)) m)))))"

definition command_k :: "program_image \<Rightarrow> u32 \<Rightarrow> u32 \<Rightarrow> uprog" where
  "command_k pi old g_pid = setup_kill_handler pi old (\<lambda>m. Some (m,
     Do (Sys (syskill (sint (load32 m g_pid)) USER_KILL_SIGNAL)) (\<lambda>r m. Some (m,
       if r \<noteq> 0 then call_then (sysputs (lit pi (nl ''No such process.''))) Return else Return))))"

definition command_a_handler :: "program_image \<Rightarrow> u32 \<Rightarrow> uprog" where
  "command_a_handler pi old =
     call_then (sysputs (lit pi (nl ''ALARM ALARM ALARM''))) (call_then (syssighandler 15 0 old) Return)"

definition command_a :: "program_image \<Rightarrow> u32 \<Rightarrow> u32 \<Rightarrow> uprog" where
  "command_a pi old g_arg = setup_kill_handler pi old (\<lambda>m. do {
     sleeparg \<leftarrow> atoi m (load32 m g_arg);
     Some (m,
       if sleeparg \<le> 0 then call_then (sysputs (lit pi (nl ''Usage: a SLEEP_MILLIS''))) Return
       else call_then (syssighandler 15 (fn_command_a_handler pi) old)
         (call_then (syssleep (word_of_int (TICK_LENGTH_IN_MS * sleeparg)))
           (Do (Sys sysgetpid) (\<lambda>n m. Some (m, call_then (syskill n 15) Return)))))
   })"

text \<open>One pass of the loop of \<open>command_t\<close>, and its start.\<close>

definition command_t_iteration :: "program_image \<Rightarrow> uprog" where
  "command_t_iteration pi = call_then (sysputs (lit pi (nl ''t''))) (call_then (syssleep 10000) Again)"

definition command_t :: "program_image \<Rightarrow> u32 \<Rightarrow> uprog" where
  "command_t pi old = setup_kill_handler pi old (\<lambda>m. Some (m, command_t_iteration pi))"

text \<open>A step of \<open>sudo\<close>'s pretence: a message, a pause, \<open>Done\<close>.\<close>

definition sudo_step :: "program_image \<Rightarrow> string \<Rightarrow> u32 \<Rightarrow> uprog \<Rightarrow> uprog" where
  "sudo_step pi msg ms p = call_then (sysputs (lit pi msg))
     (call_then (syssleep ms) (call_then (sysputs (lit pi (nl ''Done''))) p))"

text \<open>The end of \<open>sudo\<close>: its \<open>sysclose\<close> names the device instead of the descriptor.\<close>

definition sudo_end :: "program_image \<Rightarrow> int \<Rightarrow> int \<Rightarrow> uprog" where
  "sudo_end pi fd prev_echo = (
     let fin = call_then (sysclose (int DEVICE_ID_KEYBOARD)) Return
     in if prev_echo \<noteq> 0 then call_then (sysioctl fd KEYBOARD_IOCTL_ENABLE_ECHO (ioctl_va pi)) fin
        else fin)"

definition sudo_check ::
  "program_image \<Rightarrow> u32 \<Rightarrow> u32 \<Rightarrow> u32 \<Rightarrow> (nat \<Rightarrow> u32) \<Rightarrow> int \<Rightarrow> int \<Rightarrow> bytes \<Rightarrow>
     (bytes \<times> uprog) option" where
  "sudo_check pi buf printbuf g_arg junk fd prev_echo m = do {
     r \<leftarrow> strcmp m buf (lit pi (nl ''EveryoneGetsAnA''));
     Some (m,
       if r = 0 then
         sudo_step pi (CHR 0x0A # ''Reading package lists...'') 1000
         (sudo_step pi ''Building dependency tree...'' 2000
         (call_then (sysputs (lit pi ''Reading state information...''))
         (call_then (syssleep 3000)
         (Do (Sys (sysputs (lit pi (nl ''Done'')))) (\<lambda>_ m. do {
            (m, _) \<leftarrow> sprintf m printbuf (lit pi (nl (''E: '' @ [CHR 0x27] @ ''%s'' @ [CHR 0x27] @ '' not found.'')))
              (junk(0 := load32 m g_arg)) [];
            Some (m, call_then (sysputs printbuf) (sudo_end pi fd prev_echo)) })))))
       else Do (Kprintf (lit pi (nl ''Invalid password.''))) (\<lambda>_ m. Some (m, sudo_end pi fd prev_echo)))
   }"

definition command_sudo ::
  "program_image \<Rightarrow> u32 \<Rightarrow> u32 \<Rightarrow> u32 \<Rightarrow> u32 \<Rightarrow> (nat \<Rightarrow> u32) \<Rightarrow> uprog" where
  "command_sudo pi old buf printbuf g_arg junk = setup_kill_handler pi old (\<lambda>m.
     Some (memset m buf 0 20,
     Do (Kprintf (lit pi ''[sudo] password for cpsc415:'')) (\<lambda>_ m. Some (m,
     Do (Sys (sysopen (int DEVICE_ID_KEYBOARD))) (\<lambda>fd m. Some (m,
     Do (Sys (sysioctl fd KEYBOARD_IOCTL_GET_ECHO (ioctl_va pi))) (\<lambda>prev_echo m. Some (m,
     call_then (sysioctl fd KEYBOARD_IOCTL_DISABLE_ECHO (ioctl_va pi))
     (Do (Sys (sysread fd buf 19)) (\<lambda>_ m.
        sudo_check pi buf printbuf g_arg junk fd prev_echo m))))))))))"

end
