(* ===== verification/Shell_Props.thy ===== *)
theory Shell_Props
  imports User Format_Props Kernel_Props Proc_Props
begin

text \<open>
  The command line of the shell: \<open>get_command\<close> against a description of the line as a list of
  characters; and the table \<open>ps\<close> prints: every status in it names a state.
\<close>

subsection \<open>Words of a line\<close>

text \<open>Command, argument and whether the line ends in an ampersand, as a function of its characters.\<close>

definition line_command :: "u8 list \<Rightarrow> u8 list" where
  "line_command cs = takeWhile word_char cs"

definition line_argument :: "u8 list \<Rightarrow> u8 list" where
  "line_argument cs = takeWhile word_char (dropWhile (\<lambda>c. \<not> word_char c) (dropWhile word_char cs))"

definition line_ampersand :: "u8 list \<Rightarrow> bool" where
  "line_ampersand cs \<longleftrightarrow> (\<exists>d ds n. cs = d # ds @ 0x26 # replicate n 0x20)"

text \<open>No byte of the \<open>n + 1\<close> at \<open>p\<close> is among the \<open>k + 1\<close> at \<open>q\<close>.\<close>

definition clear_of :: "u32 \<Rightarrow> nat \<Rightarrow> u32 \<Rightarrow> nat \<Rightarrow> bool" where
  "clear_of p n q k \<longleftrightarrow> (\<forall>i\<le>n. \<forall>j\<le>k. p + of_nat i \<noteq> q + of_nat j)"

lemma clear_of_sym: "clear_of p n q k \<Longrightarrow> clear_of q k p n"
  by (metis clear_of_def)

lemma clear_of_mono: "clear_of p n q k \<Longrightarrow> n' \<le> n \<Longrightarrow> k' \<le> k \<Longrightarrow> clear_of p n' q k'"
  by (auto simp: clear_of_def)

lemma clear_of_far:
  assumes "n < unat (q - p)" and "k < unat (p - q)"
  shows "clear_of p n q k"
  unfolding clear_of_def
proof (intro allI impI notI)
  fix i j assume ij: "i \<le> n" "j \<le> k" and eq: "p + of_nat i = q + of_nat j"
  have small: "n < 2 ^ 32" "k < 2 ^ 32" using assms unsigned_less [of "q - p", where 'a = nat] unsigned_less [of "p - q", where 'a = nat] by simp_all
  show False
  proof (cases "j \<le> i")
    case True
    then have "q - p = of_nat (i - j)" using eq by (simp add: of_nat_diff algebra_simps)
    then have "unat (q - p) = i - j" using ij small by (simp add: unat_of_nat)
    then show False using assms(1) ij by simp
  next
    case False
    then have "p - q = of_nat (j - i)" using eq by (simp add: of_nat_diff algebra_simps)
    then have "unat (p - q) = j - i" using ij small by (simp add: unat_of_nat)
    then show False using assms(2) ij by simp
  qed
qed

lemma clear_of_Suc:
  assumes "clear_of p (Suc n) q (Suc k)"
  shows "clear_of (p + 1) n (q + 1) k" "clear_of (p + 1) n q 0"
proof -
  have "p + 1 + of_nat i \<noteq> q + 1 + of_nat j" if "i \<le> n" "j \<le> k" for i j
    using assms [unfolded clear_of_def, rule_format, of "Suc i" "Suc j"] that by (simp add: add.assoc)
  then show "clear_of (p + 1) n (q + 1) k" by (simp add: clear_of_def)
  have "p + 1 + of_nat i \<noteq> q" if "i \<le> n" for i
    using assms [unfolded clear_of_def, rule_format, of "Suc i" 0] that by (simp add: add.assoc)
  then show "clear_of (p + 1) n q 0" by (simp add: clear_of_def)
qed

lemma str_at_cong:
  "str_at m p cs \<Longrightarrow> (\<And>i. i \<le> length cs \<Longrightarrow> m' (p + of_nat i) = m (p + of_nat i)) \<Longrightarrow> str_at m' p cs"
proof (induction cs arbitrary: p)
  case (Cons c cs)
  have "m' (p + 1 + of_nat i) = m (p + 1 + of_nat i)" if "i \<le> length cs" for i
    using Cons.prems(2) [of "Suc i"] that by (simp add: add.assoc)
  then show ?case using Cons.IH [of "p + 1"] Cons.prems(1) Cons.prems(2) [of 0] by simp
next
  case Nil
  then show ?case using Nil.prems(2) [of 0] by simp
qed

lemma str_at_write:
  assumes "str_at m p cs" and "clear_of p (length cs) q 0"
  shows "str_at (m(q := v)) p cs"
proof (rule str_at_cong [OF assms(1)])
  fix i assume "i \<le> length cs"
  then have "p + of_nat i \<noteq> q" using assms(2) [unfolded clear_of_def, rule_format, of i 0] by simp
  then show "(m(q := v)) (p + of_nat i) = m (p + of_nat i)" by simp
qed

lemma str_at_drop: "str_at m p (cs @ ds) \<Longrightarrow> str_at m (p + of_nat (length cs)) ds"
  by (induction cs arbitrary: p) (auto simp flip: add.assoc)

lemma write_chars_elsewhere: "(\<And>j. j < length ws \<Longrightarrow> x \<noteq> q + of_nat j) \<Longrightarrow> write_chars m q ws x = m x"
proof (induction ws arbitrary: m q)
  case (Cons w ws)
  have "x \<noteq> q + 1 + of_nat j" if "j < length ws" for j
    using Cons.prems [of "Suc j"] that by (simp add: add.assoc)
  then show ?case using Cons.IH [of "q + 1"] Cons.prems [of 0] by simp
qed simp

lemma str_at_write_chars:
  assumes "0 \<notin> set ws" and "length ws < 2 ^ 32"
  shows "str_at ((write_chars m q ws)(q + of_nat (length ws) := 0)) q ws"
  using assms
proof (induction ws arbitrary: m q)
  case (Cons w ws)
  have "q \<noteq> q + 1 + of_nat j" if "j \<le> length ws" for j
  proof
    assume "q = q + 1 + of_nat j"
    then have "(of_nat (Suc j) :: u32) = 0" by (simp add: add.assoc)
    then show False using that Cons.prems(2) by (simp add: word_of_nat_eq_0_iff nat_dvd_not_less del: of_nat_Suc)
  qed
  then have "write_chars (m(q := w)) (q + 1) ws q = w" "q \<noteq> q + 1 + of_nat (length ws)"
    by (simp_all add: write_chars_elsewhere)
  then show ?case using Cons.IH [of "m(q := w)" "q + 1"] Cons.prems by (simp add: add.assoc fun_upd_def)
qed simp

text \<open>The loops of \<open>get_command\<close>.\<close>

lemma copy_word_run:
  assumes "str_at m p (ws @ rest)" and "\<forall>w\<in>set ws. word_char w" and "rest = [] \<or> \<not> word_char (hd rest)"
    and "clear_of p (length (ws @ rest)) q (length ws)" and "0 \<le> len" "len + int (length ws) < 2 ^ 31"
  shows "copy_word m p q len =
    Some (write_chars m q ws, p + of_nat (length ws), q + of_nat (length ws), len + int (length ws))"
  using assms
proof (induction ws arbitrary: m p q len)
  case Nil
  then have "\<not> word_char (m p)" by (cases rest) (auto simp: word_char_def)
  then show ?case by (subst copy_word.simps) simp
next
  case (Cons w ws)
  have "str_at (m(q := w)) (p + 1) (ws @ rest)"
    using Cons.prems clear_of_Suc(2) [of p "length (ws @ rest)" q "length ws"] by (intro str_at_write) auto
  then have "copy_word (m(q := w)) (p + 1) (q + 1) (len + 1) =
      Some (write_chars (m(q := w)) (q + 1) ws, p + 1 + of_nat (length ws), q + 1 + of_nat (length ws), len + 1 + int (length ws))"
    using Cons.prems clear_of_Suc(1) [of p "length (ws @ rest)" q "length ws"]
      \<open>str_at (m(q := w)) (p + 1) (ws @ rest)\<close> by (intro Cons.IH) (auto simp: fun_upd_def)
  moreover have "s32 (len + 1) = len + 1" using Cons.prems by (simp add: in_s32_def)
  ultimately show ?case using Cons.prems by (subst copy_word.simps) (simp add: add.assoc)
qed

lemma skip_blanks_run:
  assumes "str_at m p (bs @ rest)" and "\<forall>b\<in>set bs. \<not> word_char b" and "rest = [] \<or> word_char (hd rest)"
    and "0 \<le> len" "len + int (length bs) < 2 ^ 31"
  shows "User.skip_blanks m p len = Some (p + of_nat (length bs), len + int (length bs))"
  using assms
proof (induction bs arbitrary: p len)
  case Nil
  then have "m p \<noteq> 0x20" "m p \<noteq> 0x26" by (cases rest; auto simp: word_char_def)+
  then show ?case by (subst User.skip_blanks.simps) simp
next
  case (Cons b bs)
  have "s32 (len + 1) = len + 1" using Cons.prems by (simp add: in_s32_def)
  moreover have "b = 0x20 \<or> b = 0x26" using Cons.prems by (auto simp: word_char_def)
  ultimately show ?case using Cons.prems Cons.IH [of "p + 1" "len + 1"]
    by (subst User.skip_blanks.simps) (auto simp: add.assoc)
qed

lemma skip_to_end_run:
  assumes "str_at m p cs" and "0 \<le> len" "len + int (length cs) < 2 ^ 31"
  shows "skip_to_end m p len = Some (p + of_nat (length cs), len + int (length cs))"
  using assms
proof (induction cs arbitrary: p len)
  case Nil
  then show ?case by (subst skip_to_end.simps) simp
next
  case (Cons c cs)
  have "s32 (len + 1) = len + 1" using Cons.prems by (simp add: in_s32_def)
  then show ?case using Cons.prems Cons.IH [of "p + 1" "len + 1"]
    by (subst skip_to_end.simps) (simp add: add.assoc)
qed

lemma split_line:
  obtains bs ds where "cs = line_command cs @ bs @ line_argument cs @ ds"
    and "\<forall>b\<in>set bs. \<not> word_char b" and "bs @ line_argument cs @ ds = [] \<or> \<not> word_char (hd (bs @ line_argument cs @ ds))"
    and "line_argument cs @ ds = [] \<or> word_char (hd (line_argument cs @ ds))"
    and "ds = [] \<or> \<not> word_char (hd ds)"
proof
  let ?r = "dropWhile word_char cs"
  let ?r' = "dropWhile (\<lambda>c. \<not> word_char c) ?r"
  let ?bs = "takeWhile (\<lambda>c. \<not> word_char c) ?r" and ?ds = "dropWhile word_char ?r'"
  have r': "line_argument cs @ ?ds = ?r'" by (simp add: line_argument_def)
  then have r: "?bs @ line_argument cs @ ?ds = ?r" by simp
  show "cs = line_command cs @ ?bs @ line_argument cs @ ?ds" unfolding r by (simp add: line_command_def)
  show "?bs @ line_argument cs @ ?ds = [] \<or> \<not> word_char (hd (?bs @ line_argument cs @ ?ds))"
    unfolding r using hd_dropWhile [of word_char cs] by blast
  show "line_argument cs @ ?ds = [] \<or> word_char (hd (line_argument cs @ ?ds))"
    unfolding r' using hd_dropWhile [of "\<lambda>c. \<not> word_char c" ?r] by blast
  show "?ds = [] \<or> \<not> word_char (hd ?ds)" using hd_dropWhile [of word_char ?r'] by blast
qed (auto dest: set_takeWhileD)

lemma word_chars: "\<forall>w\<in>set (line_command cs). word_char w" "\<forall>w\<in>set (line_argument cs). word_char w"
  by (auto simp: line_command_def line_argument_def dest: set_takeWhileD)

lemma word_nonzero: "\<forall>w\<in>set ws. word_char w \<Longrightarrow> 0 \<notin> set ws"
  by (auto simp: word_char_def)

text \<open>From the last character backwards.\<close>

lemma line_ampersand_snoc:
  "line_ampersand (xs @ [c]) \<longleftrightarrow> c = 0x26 \<and> xs \<noteq> [] \<or> c = 0x20 \<and> line_ampersand xs"
proof
  assume "line_ampersand (xs @ [c])"
  then obtain d ds n where e: "xs @ [c] = (d # ds @ [0x26]) @ replicate n 0x20" by (auto simp: line_ampersand_def)
  show "c = 0x26 \<and> xs \<noteq> [] \<or> c = 0x20 \<and> line_ampersand xs"
  proof (cases n)
    case 0
    then have "xs @ [c] = (d # ds) @ [0x26]" using e by simp
    then show ?thesis by (auto simp only: append1_eq_conv)
  next
    case (Suc k)
    then have "xs @ [c] = ((d # ds @ [0x26]) @ replicate k 0x20) @ [0x20]"
      using e by (simp add: replicate_append_same)
    then show ?thesis unfolding append1_eq_conv by (auto simp: line_ampersand_def)
  qed
next
  assume "c = 0x26 \<and> xs \<noteq> [] \<or> c = 0x20 \<and> line_ampersand xs"
  then show "line_ampersand (xs @ [c])"
  proof (elim disjE conjE)
    assume "c = 0x26" "xs \<noteq> []"
    then show ?thesis by (cases xs) (auto simp: line_ampersand_def intro!: exI [of _ 0])
  next
    assume c: "c = 0x20" and "line_ampersand xs"
    then obtain d ds n where "xs = d # ds @ 0x26 # replicate n 0x20" by (auto simp: line_ampersand_def)
    then have "xs @ [c] = d # ds @ 0x26 # replicate (Suc n) 0x20" using c by (simp add: replicate_append_same)
    then show ?thesis unfolding line_ampersand_def by blast
  qed
qed

lemma str_at_nth: "str_at m p cs \<Longrightarrow> i < length cs \<Longrightarrow> m (p + of_nat i) = cs ! i"
proof (induction cs arbitrary: p i)
  case (Cons c cs)
  show ?case
  proof (cases i)
    case (Suc k)
    then have "m (p + 1 + of_nat k) = cs ! k" using Cons by simp
    then show ?thesis by (simp add: Suc add.assoc)
  qed (use Cons.prems in simp)
qed simp

lemma trailing_ampersand_run:
  assumes "str_at m p cs" and "k < length cs"
  shows "trailing_ampersand m (p + of_nat k) k = (if line_ampersand (take (Suc k) cs) then 1 else 0)"
  using assms(2)
proof (induction k)
  case 0
  then show ?case by (cases cs) (auto simp: line_ampersand_def)
next
  case (Suc k)
  have "take (Suc (Suc k)) cs = take (Suc k) cs @ [cs ! Suc k]" using Suc.prems by (simp add: take_Suc_conv_app_nth)
  then have "line_ampersand (take (Suc (Suc k)) cs) \<longleftrightarrow>
      cs ! Suc k = 0x26 \<or> cs ! Suc k = 0x20 \<and> line_ampersand (take (Suc k) cs)"
    using Suc.prems by (auto simp: line_ampersand_snoc)
  moreover have "m (p + of_nat (Suc k)) = cs ! Suc k" by (rule str_at_nth [OF assms(1) Suc.prems])
  moreover have "trailing_ampersand m (p + of_nat (Suc k) - 1) k = (if line_ampersand (take (Suc k) cs) then 1 else 0)"
    using Suc by simp
  ultimately show ?case by (simp only: trailing_ampersand.simps) simp
qed

text \<open>A word written with its terminator leaves the strings clear of it alone.\<close>

lemma str_at_beside:
  assumes "str_at m q xs" and "clear_of q (length xs) b (length ws)"
  shows "str_at ((write_chars m b ws)(b + of_nat (length ws) := 0)) q xs"
proof (rule str_at_cong [OF assms(1)])
  fix i assume i: "i \<le> length xs"
  have ne: "q + of_nat i \<noteq> b + of_nat j" if "j \<le> length ws" for j using assms(2) i that by (simp add: clear_of_def)
  then show "((write_chars m b ws)(b + of_nat (length ws) := 0)) (q + of_nat i) = m (q + of_nat i)"
    by (simp add: write_chars_elsewhere)
qed

text \<open>C35: \<open>get_command\<close> on a line in memory puts its first word into the command buffer and its second
  into the argument buffer, words being what blanks and ampersands separate, each with a terminator,
  and returns 1 exactly when the last character that is not a blank is an ampersand with something
  before it; the buffers must not overlap the line or each other.\<close>

theorem get_command_parses:
  assumes line: "str_at m p cs" "length cs < 2 ^ 31"
    and clear: "clear_of p (length cs) c (length (line_command cs))" "clear_of p (length cs) a (length (line_argument cs))"
      "clear_of c (length (line_command cs)) a (length (line_argument cs))"
  shows "\<exists>m'. get_command m p c a = Some (if line_ampersand cs then 1 else 0, m') \<and>
    str_at m' c (line_command cs) \<and> str_at m' a (line_argument cs)"
proof -
  obtain bs ds where cs: "cs = line_command cs @ bs @ line_argument cs @ ds" and bs: "\<forall>b\<in>set bs. \<not> word_char b"
    and stops: "bs @ line_argument cs @ ds = [] \<or> \<not> word_char (hd (bs @ line_argument cs @ ds))"
      "line_argument cs @ ds = [] \<or> word_char (hd (line_argument cs @ ds))" "ds = [] \<or> \<not> word_char (hd ds)"
    by (rule split_line)
  define u v where uv: "u = line_command cs" "v = line_argument cs"
  have len: "length cs = length u + length bs + length v + length ds" using arg_cong [OF cs, of length] by (simp add: uv)
  have words: "\<forall>w\<in>set u. word_char w" "\<forall>w\<in>set v. word_char w" unfolding uv by (rule word_chars)+
  let ?m2 = "(write_chars m c u)(c + of_nat (length u) := 0)"
  let ?m4 = "(write_chars ?m2 a v)(a + of_nat (length v) := 0)"
  have m2: "str_at ?m2 p cs" by (rule str_at_beside [OF line(1) clear(1) [folded uv]])
  have m4: "str_at ?m4 p cs" by (rule str_at_beside [OF m2 clear(2) [folded uv]])
  have at: "p + of_nat (length u) + of_nat (length bs) = p + of_nat (length (u @ bs))"
    "p + of_nat (length (u @ bs)) + of_nat (length v) = p + of_nat (length (u @ bs @ v))"
    "p + of_nat (length (u @ bs @ v)) + of_nat (length ds) = p + of_nat (length cs)" by (simp_all add: len)
  have "str_at ?m2 (p + of_nat (length u)) (bs @ v @ ds)"
    using str_at_drop [of ?m2 p u "bs @ v @ ds"] m2 cs by (simp add: uv)
  then have skip: "User.skip_blanks ?m2 (p + of_nat (length u)) (int (length u)) =
      Some (p + of_nat (length (u @ bs)), int (length (u @ bs)))"
    using skip_blanks_run [OF _ bs stops(2) [folded uv]] line(2) len at(1) by simp
  have one: "copy_word m p c 0 = Some (write_chars m c u, p + of_nat (length u), c + of_nat (length u), int (length u))"
    using copy_word_run [of m p u "bs @ v @ ds" c 0] line clear(1) words(1) stops(1) cs len by (simp add: uv)
  have "str_at ?m2 (p + of_nat (length (u @ bs))) (v @ ds)"
    using str_at_drop [of ?m2 p "u @ bs" "v @ ds"] m2 cs by (simp add: uv)
  moreover have "clear_of (p + of_nat (length (u @ bs))) (length (v @ ds)) a (length v)"
    unfolding clear_of_def
  proof (intro allI impI)
    fix i j assume "i \<le> length (v @ ds)" "j \<le> length v"
    then have "p + of_nat (length (u @ bs) + i) \<noteq> a + of_nat j"
      using clear(2) [folded uv, unfolded clear_of_def, rule_format, of "length (u @ bs) + i" j] len by simp
    then show "p + of_nat (length (u @ bs)) + of_nat i \<noteq> a + of_nat j" by (simp add: add.assoc)
  qed
  ultimately have two: "copy_word ?m2 (p + of_nat (length (u @ bs))) a (int (length (u @ bs))) =
      Some (write_chars ?m2 a v, p + of_nat (length (u @ bs @ v)), a + of_nat (length v), int (length (u @ bs @ v)))"
    using copy_word_run [OF _ words(2) stops(3), of ?m2 _ a] line(2) len at(2) by simp
  have "str_at ?m4 (p + of_nat (length (u @ bs @ v))) ds"
    using str_at_drop [of ?m4 p "u @ bs @ v" ds] m4 cs by (simp add: uv)
  then have rest: "skip_to_end ?m4 (p + of_nat (length (u @ bs @ v))) (int (length (u @ bs @ v))) =
      Some (p + of_nat (length cs), int (length cs))"
    using skip_to_end_run [of ?m4 _ ds] line(2) len at(3) by simp
  have amp: "trailing_ampersand ?m4 (p + of_nat (length cs) - 1) (nat (s32 (int (length cs) - 1))) =
      (if line_ampersand cs then 1 else 0)"
  proof (cases cs rule: rev_cases)
    case (snoc xs x)
    then have "s32 (int (length cs) - 1) = int (length xs)" using line(2) by (simp add: in_s32_def)
    then show ?thesis using trailing_ampersand_run [OF m4, of "length xs"] snoc by simp
  qed (simp add: line_ampersand_def in_s32_def)
  have "get_command m p c a = Some (if line_ampersand cs then 1 else 0, ?m4)"
    by (simp only: get_command_def one skip two rest amp bind.bind_lunit prod.case Let_def)
  moreover have "str_at ?m2 c u" "str_at ?m4 a v"
    using words [THEN word_nonzero] len line(2) by (auto intro!: str_at_write_chars)
  moreover have "str_at ?m4 c u" by (rule str_at_beside [OF calculation(2) clear(3) [folded uv]])
  ultimately show ?thesis by (auto simp: uv)
qed

definition sample_line :: bytes where
  "sample_line = (\<lambda>_. 0)(0x100 := 0x61, 0x101 := 0x20, 0x102 := 0x35, 0x103 := 0x26)"

lemma get_command_parses_witness:
  "\<exists>m'. get_command sample_line 0x100 0x200 0x300 = Some (1, m') \<and> str_at m' 0x200 [0x61] \<and> str_at m' 0x300 [0x35]"
proof -
  have line: "str_at sample_line 0x100 [0x61, 0x20, 0x35, 0x26]" by (simp add: sample_line_def)
  have parts: "line_command [0x61, 0x20, 0x35, 0x26] = [0x61]" "line_argument [0x61, 0x20, 0x35, 0x26] = [0x35]"
    by (simp_all add: line_command_def line_argument_def word_char_def)
  have "line_ampersand ([0x61, 0x20, 0x35] @ [0x26])" by (subst line_ampersand_snoc) simp
  moreover have "clear_of 0x100 (length [0x61, 0x20, 0x35, 0x26 :: u8]) 0x200 1"
    "clear_of 0x100 (length [0x61, 0x20, 0x35, 0x26 :: u8]) 0x300 1" "clear_of 0x200 1 0x300 1"
    by (simp_all add: clear_of_far)
  ultimately show ?thesis using get_command_parses [OF line, of "0x200" "0x300"] by (simp add: parts del: str_at.simps)
qed

subsection \<open>The table of \<open>ps\<close>\<close>

lemma status_names:
  "blocking_queue_name c \<noteq> NO_BLOCKER \<or> curr_state c \<noteq> PROC_STATE_BLOCKED \<Longrightarrow> \<exists>name. state_name (proc_status c) = Some name"
  by (cases "curr_state c"; cases "blocking_queue_name c") (simp_all add: proc_status_def state_name_def detailed_states_def)



end
