(* ===== verification/Huft.thy ===== *)
theory Huft
  imports Prelude
begin

text \<open>
  boot/zBoot/inflate.c: \<open>huft_build\<close>, which turns the code lengths of a set of symbols into
  look-up tables. A table is a list of entries; an entry nothing has been stored in is \<open>None\<close>. The
  tables are numbered in the order of their allocation, and a pointer to a table is its number;
  the first one is where decoding starts, so an empty list of tables is the null pointer. Counters
  and codes are below \<open>2 ^ 17\<close> and are natural numbers. \<open>None\<close> as a result is a read of an
  array element that was never set or an access outside an array.
\<close>

datatype huft_val = Unset | Num nat | Tab nat

record huft =
  h_e :: nat
  h_b :: nat
  h_v :: huft_val

type_synonym decoder = "huft option list list"

definition BMAX :: nat where "BMAX = 16"
definition N_MAX :: nat where "N_MAX = 288"

subsection \<open>Counts, offsets and values\<close>

text \<open>The number of codes of each length.\<close>

definition length_counts :: "nat list \<Rightarrow> nat \<Rightarrow> nat" where
  "length_counts b = fold (\<lambda>k c. c(k := c k + 1)) b (\<lambda>_. 0)"

text \<open>The shortest and the longest code length in use; \<open>BMAX + 1\<close> and 0 when there is none.\<close>

definition min_length :: "(nat \<Rightarrow> nat) \<Rightarrow> nat" where
  "min_length c = (case find (\<lambda>j. c j \<noteq> 0) [1..<BMAX + 1] of Some j \<Rightarrow> j | None \<Rightarrow> BMAX + 1)"

definition max_length :: "(nat \<Rightarrow> nat) \<Rightarrow> nat" where
  "max_length c = (case find (\<lambda>i. c i \<noteq> 0) (rev [1..<BMAX + 1]) of Some i \<Rightarrow> i | None \<Rightarrow> 0)"

text \<open>The codes left over from length \<open>j\<close> up to length \<open>i\<close>; \<open>None\<close> when there are too few.\<close>

function codes_left :: "(nat \<Rightarrow> nat) \<Rightarrow> nat \<Rightarrow> nat \<Rightarrow> int \<Rightarrow> int option" where
  "codes_left c j i y =
     (if y - int (c j) < 0 then None
      else if j < i then codes_left c (j + 1) i (2 * (y - int (c j)))
      else Some (y - int (c j)))"
  by auto
termination by (relation "measure (\<lambda>(c, j, i, y). i - j)") auto

declare codes_left.simps [simp del]

text \<open>\<open>x[k]\<close>, the place of the first value of length \<open>k\<close>, for \<open>1 \<le> k \<le> g\<close>.\<close>

definition value_offsets :: "(nat \<Rightarrow> nat) \<Rightarrow> nat \<Rightarrow> nat \<Rightarrow> nat" where
  "value_offsets c g = fold (\<lambda>k x. x(k + 1 := x k + c k)) [1..<g] (\<lambda>_. 0)"

text \<open>The values in order of their code lengths; places not written stay undefined.\<close>

fun value_table ::
  "nat list \<Rightarrow> nat \<Rightarrow> (nat \<Rightarrow> nat) \<Rightarrow> (nat \<Rightarrow> nat option) \<Rightarrow> (nat \<Rightarrow> nat option)" where
  "value_table [] i x v = v"
| "value_table (k # b) i x v =
     (if k \<noteq> 0 then value_table b (i + 1) (x(k := x k + 1)) (v(x k \<mapsto> i))
      else value_table b (i + 1) x v)"

subsection \<open>Making the tables\<close>

record huft_input =
  hi_c :: "nat \<Rightarrow> nat"
  hi_g :: nat
  hi_l :: nat
  hi_n :: nat
  hi_s :: nat
  hi_d :: "nat list"
  hi_e :: "nat list"
  hi_v :: "nat \<Rightarrow> nat option"

record huft_state =
  hs_tables :: decoder
  hs_p :: nat
  hs_i :: nat
  hs_h :: int
  hs_w :: int
  hs_q :: nat
  hs_u :: "nat \<Rightarrow> nat"
  hs_x :: "nat \<Rightarrow> nat"
  hs_r :: huft

text \<open>Smaller tables are tried up to \<open>z\<close> bits: the number of index bits chosen.\<close>

function table_bits :: "(nat \<Rightarrow> nat) \<Rightarrow> nat \<Rightarrow> nat \<Rightarrow> nat \<Rightarrow> nat \<Rightarrow> nat" where
  "table_bits c k f j z =
     (if j + 1 < z
      then (if 2 * f \<le> c (k + 1) then j + 1 else table_bits c (k + 1) (2 * f - c (k + 1)) (j + 1) z)
      else j + 1)"
  by auto
termination by (relation "measure (\<lambda>(c, k, f, j, z). z - j)") auto

declare table_bits.simps [simp del]

definition new_table_bits :: "huft_input \<Rightarrow> nat \<Rightarrow> nat \<Rightarrow> nat \<Rightarrow> nat" where
  "new_table_bits hi k a w =
     (let z = (if hi_g hi - w > hi_l hi then hi_l hi else hi_g hi - w);
          j = k - w;
          f = 2 ^ j
      in if f > a + 1 then table_bits (hi_c hi) k (f - (a + 1)) j z else j)"

definition set_entry :: "nat \<Rightarrow> nat \<Rightarrow> huft \<Rightarrow> decoder \<Rightarrow> decoder option" where
  "set_entry t j r ts =
     (if t < length ts \<and> j < length (ts ! t) then Some (ts[t := (ts ! t)[j := Some r]]) else None)"

text \<open>One pass of the loop that makes tables up to the required level; \<open>a\<close> codes are left after this.\<close>

definition open_table :: "huft_input \<Rightarrow> nat \<Rightarrow> nat \<Rightarrow> huft_state \<Rightarrow> huft_state option" where
  "open_table hi k a st = (
     let h = hs_h st + 1; w = hs_w st + int (hi_l hi);
         j = new_table_bits hi k a (nat w);
         q = length (hs_tables st);
         st = st\<lparr>hs_h := h, hs_w := w, hs_tables := hs_tables st @ [replicate (2 ^ j) None],
                  hs_q := q, hs_u := (hs_u st)(nat h := q)\<rparr>
     in if h = 0 then Some st
        else if h \<ge> int BMAX then None
        else let r = \<lparr>h_e = 16 + j, h_b = hi_l hi, h_v = Tab q\<rparr>
             in map_option (\<lambda>ts. st\<lparr>hs_x := (hs_x st)(nat h := hs_i st), hs_r := r, hs_tables := ts\<rparr>)
                  (set_entry (hs_u st (nat (h - 1))) (drop_bit (nat w - hi_l hi) (hs_i st)) r (hs_tables st)))"

partial_function (option) open_tables :: "huft_input \<Rightarrow> nat \<Rightarrow> nat \<Rightarrow> huft_state \<Rightarrow> huft_state option" where
  "open_tables hi k a st =
     (if int k > hs_w st + int (hi_l hi) then Option.bind (open_table hi k a st) (open_tables hi k a)
      else Some st)"

declare open_tables.simps [code]

text \<open>The entry for the next value. Beyond the last value the old content of \<open>r.v\<close> stays.\<close>

definition next_entry :: "huft_input \<Rightarrow> nat \<Rightarrow> huft_state \<Rightarrow> huft_state option" where
  "next_entry hi k st = (
     let r = (hs_r st)\<lparr>h_b := k - nat (hs_w st)\<rparr>
     in if hs_p st \<ge> hi_n hi then Some (st\<lparr>hs_r := r\<lparr>h_e := 99\<rparr>\<rparr>)
        else do {
          v \<leftarrow> hi_v hi (hs_p st);
          (if v < hi_s hi
           then Some (st\<lparr>hs_r := r\<lparr>h_e := (if v < 256 then 16 else 15), h_v := Num v\<rparr>, hs_p := hs_p st + 1\<rparr>)
           else if v - hi_s hi < length (hi_e hi) \<and> v - hi_s hi < length (hi_d hi)
           then Some (st\<lparr>hs_r := r\<lparr>h_e := hi_e hi ! (v - hi_s hi), h_v := Num (hi_d hi ! (v - hi_s hi))\<rparr>,
                          hs_p := hs_p st + 1\<rparr>)
           else None)
        })"

function fill_entries :: "nat \<Rightarrow> nat \<Rightarrow> huft \<Rightarrow> huft option list \<Rightarrow> huft option list" where
  "fill_entries j f r q =
     (if j < length q \<and> 0 < f then fill_entries (j + f) f r (q[j := Some r]) else q)"
  by auto
termination by (relation "measure (\<lambda>(j, f, r, q). length q - j)") auto

declare fill_entries.simps [simp del]

text \<open>The \<open>m\<close>-bit code, whose first bit is bit 0, is increased by one: a carry from its last bit on.\<close>

fun increment_code :: "nat \<Rightarrow> nat \<Rightarrow> nat" where
  "increment_code 0 i = i"
| "increment_code (Suc m) i = (if bit i m then increment_code m (i XOR 2 ^ m) else i XOR 2 ^ m)"

function back_up :: "(nat \<Rightarrow> nat) \<Rightarrow> nat \<Rightarrow> nat \<Rightarrow> int \<Rightarrow> int \<Rightarrow> (int \<times> int) option" where
  "back_up x l i h w =
     (if h < 0 then None
      else if i AND (2 ^ nat w - 1) \<noteq> x (nat h) then back_up x l i (h - 1) (w - int l)
      else Some (h, w))"
  by auto
termination by (relation "measure (\<lambda>(x, l, i, h, w). nat (h + 1))") auto

declare back_up.simps [simp del]

text \<open>The body of the loop over the codes of length \<open>k\<close>, with \<open>a\<close> more to come.\<close>

definition place_code :: "huft_input \<Rightarrow> nat \<times> nat \<Rightarrow> huft_state \<Rightarrow> huft_state option" where
  "place_code hi = (\<lambda>(k, a) st. do {
     st \<leftarrow> open_tables hi k a st;
     st \<leftarrow> next_entry hi k st;
     let t = hs_q st;
     let w = nat (hs_w st);
     (if t < length (hs_tables st) then Some () else None);
     let q = fill_entries (drop_bit w (hs_i st)) (2 ^ (k - w)) (hs_r st) (hs_tables st ! t);
     let i = increment_code k (hs_i st);
     (h, w) \<leftarrow> back_up (hs_x st) (hi_l hi) i (hs_h st) (hs_w st);
     Some (st\<lparr>hs_tables := (hs_tables st)[t := q], hs_i := i, hs_h := h, hs_w := w\<rparr>)
   })"

definition code_order :: "(nat \<Rightarrow> nat) \<Rightarrow> nat \<Rightarrow> nat \<Rightarrow> (nat \<times> nat) list" where
  "code_order c k g = concat (map (\<lambda>k. map (Pair k) (rev [0..<c k])) [k..<g + 1])"

definition huft_start :: "huft_input \<Rightarrow> huft_state" where
  "huft_start hi = \<lparr>hs_tables = [], hs_p = 0, hs_i = 0, hs_h = - 1, hs_w = - int (hi_l hi),
     hs_q = 0, hs_u = (\<lambda>_. 0), hs_x = (\<lambda>_. 0), hs_r = \<lparr>h_e = 0, h_b = 0, h_v = Unset\<rparr>\<rparr>"

text \<open>
  The result code (0 fine, 1 incomplete, 2 too many codes), the tables and the number of bits the
  first one is indexed by. \<open>b\<close> has the code lengths, \<open>m\<close> the number of bits asked for.
\<close>

definition huft_build ::
  "nat list \<Rightarrow> nat \<Rightarrow> nat list \<Rightarrow> nat list \<Rightarrow> nat \<Rightarrow> (nat \<times> decoder \<times> nat) option" where
  "huft_build b s d e m = (
     let c = length_counts b in
     if c 0 = length b then Some (0, [], 0)
     else let j = min_length c; g = max_length c;
              l = (if m < j then j else m);
              l = (if l > g then g else l)
     in case codes_left c j g (2 ^ j) of
          None \<Rightarrow> Some (2, [], l)
        | Some y \<Rightarrow> do {
            let hi = \<lparr>hi_c = c(g := c g + nat y), hi_g = g, hi_l = l, hi_n = length b, hi_s = s,
                      hi_d = d, hi_e = e, hi_v = value_table b 0 (value_offsets c g) (\<lambda>_. None)\<rparr>;
            st \<leftarrow> for_each (place_code hi) (code_order (hi_c hi) j g) (huft_start hi);
            Some (if y \<noteq> 0 \<and> g \<noteq> 1 then 1 else 0, hs_tables st, l)
          })"

end
