(* ===== verification/Huft_Facts.thy ===== *)
theory Huft_Facts
  imports Huft
begin

text \<open>
  The verdict of \<open>huft_build\<close> on a set of code lengths: the loop that subtracts the codes of each
  length computes what is left of Kraft's sum, so the result code says whether the lengths can be
  those of a prefix code, and whether that code is complete. The codes themselves: \<open>increment_code\<close>
  counts in bit-reversed order, so a code's value is the part of the code space used up before it.
\<close>

subsection \<open>Counting\<close>

lemma length_counts_fold: "fold (\<lambda>k c. c(k := c k + 1)) b c k = c k + count_list b k"
  by (induction b arbitrary: c) (simp_all add: fun_upd_def)

lemma length_counts_count: "length_counts b k = count_list b k"
  using length_counts_fold [of b "\<lambda>_. 0" k] by (simp add: length_counts_def)

lemma count_zero_iff: "count_list b 0 = length b \<longleftrightarrow> (\<forall>k \<in> set b. k = (0 :: nat))"
proof (induction b)
  case (Cons k b)
  have "count_list b 0 \<le> length b" by (rule count_le_length)
  with Cons show ?case by auto
qed simp

text \<open>Kraft's sum, in units of \<open>2 ^ - m\<close>.\<close>

definition kraft :: "nat \<Rightarrow> nat list \<Rightarrow> nat" where
  "kraft m b = (\<Sum>k \<leftarrow> filter ((\<noteq>) 0) b. 2 ^ (m - k))"

lemma kraft_counts:
  assumes "set b \<subseteq> {..m}"
  shows "kraft m b = (\<Sum>k = 1..m. count_list b k * 2 ^ (m - k))"
  using assms
proof (induction b)
  case (Cons a b)
  have step: "count_list (a # b) k * p = count_list b k * p + (if k = a then p else 0)" for k p :: nat by simp
  have "(\<Sum>k = 1..m. count_list (a # b) k * 2 ^ (m - k))
      = (\<Sum>k = 1..m. count_list b k * 2 ^ (m - k)) + (\<Sum>k = 1..m. if k = a then 2 ^ (m - k) else 0)"
    by (simp only: step sum.distrib)
  also have "(\<Sum>k = 1..m. if k = a then 2 ^ (m - k) else 0) = (if a = 0 then 0 else 2 ^ (m - a))"
    using Cons.prems by (simp add: sum.delta)
  finally show ?case using Cons by (simp add: kraft_def)
qed (simp add: kraft_def)

subsection \<open>The loop\<close>

lemma codes_left_sum:
  assumes "j \<le> i"
  shows "codes_left c j i y =
    (let z = y * 2 ^ (i - j) - (\<Sum>k = j..i. int (c k) * 2 ^ (i - k)) in if z < 0 then None else Some z)"
  using assms
proof (induction c j i y rule: codes_left.induct)
  case (1 c j i y)
  let ?y = "y - int (c j)"
  let ?tail = "\<Sum>k = Suc j..i. int (c k) * 2 ^ (i - k)"
  have tail: "0 \<le> ?tail" by (simp add: sum_nonneg)
  have split: "(\<Sum>k = j..i. int (c k) * 2 ^ (i - k)) = int (c j) * 2 ^ (i - j) + ?tail"
    using 1(2) by (simp add: sum.atLeast_Suc_atMost)
  then have z: "y * 2 ^ (i - j) - (\<Sum>k = j..i. int (c k) * 2 ^ (i - k)) = ?y * 2 ^ (i - j) - ?tail"
    by (simp add: algebra_simps)
  show ?case
  proof (cases "?y < 0")
    case True
    then have "?y * 2 ^ (i - j) < 0" by (simp add: mult_neg_pos)
    with tail have "?y * 2 ^ (i - j) - ?tail < 0" by linarith
    then show ?thesis using True by (simp add: codes_left.simps [of c j] z del: left_diff_distrib)
  next
    case False
    show ?thesis
    proof (cases "j < i")
      case True
      have "2 * ?y * 2 ^ (i - (j + 1)) = ?y * 2 ^ (i - j)"
      proof -
        have "i - j = Suc (i - (j + 1))" using True by simp
        then show ?thesis by (simp only: power_Suc mult.assoc mult.left_commute)
      qed
      with 1(1) [OF False True] True False show ?thesis
        by (simp add: codes_left.simps [of c j] z)
    next
      case False
      then have "j = i" using 1(2) by simp
      then show ?thesis using \<open>\<not> ?y < 0\<close> by (simp add: codes_left.simps)
    qed
  qed
qed

subsection \<open>The shortest and the longest length\<close>

lemma length_bounds:
  assumes "set b \<subseteq> {..BMAX}" and "\<exists>k \<in> set b. k \<noteq> 0"
  defines "c \<equiv> length_counts b"
  shows "1 \<le> min_length c" "min_length c \<le> max_length c" "max_length c \<le> BMAX"
    and "\<And>k. c k \<noteq> 0 \<Longrightarrow> k \<noteq> 0 \<Longrightarrow> min_length c \<le> k \<and> k \<le> max_length c"
    and "c (max_length c) \<noteq> 0"
proof -
  have c: "c k \<noteq> 0 \<longleftrightarrow> k \<in> set b" for k by (simp add: c_def length_counts_count count_list_0_iff)
  obtain k0 where k0: "k0 \<in> set b" "k0 \<noteq> 0" using assms(2) by blast
  have k0r: "k0 \<in> set [1..<BMAX + 1]" using k0 assms(1) by auto
  have ck0: "c k0 \<noteq> 0" using c k0 by simp
  obtain j where j: "find (\<lambda>j. c j \<noteq> 0) [1..<BMAX + 1] = Some j"
  proof (cases "find (\<lambda>j. c j \<noteq> 0) [1..<BMAX + 1]")
    case None
    with ck0 k0r show ?thesis unfolding find_None_iff by blast
  qed (rule that)
  obtain g where g: "find (\<lambda>j. c j \<noteq> 0) (rev [1..<BMAX + 1]) = Some g"
  proof (cases "find (\<lambda>j. c j \<noteq> 0) (rev [1..<BMAX + 1])")
    case None
    with ck0 k0r show ?thesis unfolding find_None_iff set_rev by blast
  qed (rule that)
  from j obtain m where m: "m < BMAX" "c (1 + m) \<noteq> 0" "j = 1 + m" "\<forall>i < m. c (1 + i) = 0"
    by (auto simp: find_Some_iff simp del: upt_Suc)
  have jmin: "j \<le> k" if "c k \<noteq> 0" "k \<noteq> 0" for k
    using m that by (cases k) (auto simp: not_less [symmetric])
  have "find (\<lambda>j. c j \<noteq> 0) (rev [1..<BMAX + 1]) = Some g" by (rule g)
  then obtain n where n': "n < BMAX" "c (Suc (BMAX - Suc n)) \<noteq> 0" "g = Suc (BMAX - Suc n)"
    "\<forall>i < n. c (Suc (BMAX - Suc i)) = 0"
    by (auto simp: find_Some_iff rev_nth simp del: upt_Suc)
  have "Suc (BMAX - Suc i) = BMAX - i" if "i \<le> n" for i using n'(1) that by simp
  with n' have n: "n < BMAX" "c (BMAX - n) \<noteq> 0" "g = BMAX - n" "\<forall>i < n. c (BMAX - i) = 0" by simp_all
  have gmax: "k \<le> g" if "c k \<noteq> 0" for k
  proof (rule ccontr)
    assume "\<not> k \<le> g"
    moreover have "k \<le> BMAX" using that c assms(1) by auto
    ultimately have "BMAX - k < n" "BMAX - (BMAX - k) = k" using n by simp_all
    with n(4) that show False by metis
  qed
  have mm: "min_length c = j" "max_length c = g" using j g by (simp_all add: min_length_def max_length_def)
  show "1 \<le> min_length c" "max_length c \<le> BMAX" "c (max_length c) \<noteq> 0" using m n by (simp_all add: mm)
  show "min_length c \<le> max_length c" using jmin [of g] n by (simp add: mm)
  show "\<And>k. c k \<noteq> 0 \<Longrightarrow> k \<noteq> 0 \<Longrightarrow> min_length c \<le> k \<and> k \<le> max_length c" using jmin gmax by (simp add: mm)
qed

lemma min_length_used:
  assumes "set b \<subseteq> {..BMAX}" and "\<exists>k \<in> set b. k \<noteq> 0"
  shows "length_counts b (min_length (length_counts b)) \<noteq> 0"
proof -
  from assms obtain k where "k \<in> set b" "k \<in> set [1..<BMAX + 1]" by fastforce
  then have "find (\<lambda>j. length_counts b j \<noteq> 0) [1..<BMAX + 1] \<noteq> None"
    unfolding find_None_iff by (auto simp: length_counts_count count_list_0_iff simp del: upt_Suc)
  then obtain j where j: "find (\<lambda>j. length_counts b j \<noteq> 0) [1..<BMAX + 1] = Some j" by blast
  then have "length_counts b j \<noteq> 0" unfolding find_Some_iff by blast
  with j show ?thesis by (simp add: min_length_def del: upt_Suc)
qed

text \<open>What the loop leaves is the complement of Kraft's sum.\<close>

lemma codes_left_kraft:
  assumes "set b \<subseteq> {..BMAX}" and "\<exists>k \<in> set b. k \<noteq> 0"
  defines "c \<equiv> length_counts b"
  obtains z where "codes_left c (min_length c) (max_length c) (2 ^ min_length c) = (if z < 0 then None else Some z)"
    and "z < 0 \<longleftrightarrow> 2 ^ BMAX < kraft BMAX b" and "z = 0 \<longleftrightarrow> kraft BMAX b = 2 ^ BMAX"
proof -
  let ?j = "min_length c" and ?g = "max_length c"
  note lb = length_bounds [OF assms(1,2), folded c_def]
  define S where "S = (\<Sum>k = ?j..?g. int (c k) * 2 ^ (?g - k))"
  have "int (kraft BMAX b) = (\<Sum>k = 1..BMAX. int (c k) * 2 ^ (BMAX - k))"
    using kraft_counts [OF assms(1)] by (simp add: c_def length_counts_count)
  also have "\<dots> = (\<Sum>k = ?j..?g. int (c k) * 2 ^ (BMAX - k))"
  proof (rule sum.mono_neutral_right)
    show "\<forall>i \<in> {1..BMAX} - {?j..?g}. int (c i) * 2 ^ (BMAX - i) = 0"
    proof
      fix i assume "i \<in> {1..BMAX} - {?j..?g}"
      then have "c i = 0" using lb(4) [of i] by fastforce
      then show "int (c i) * 2 ^ (BMAX - i) = 0" by simp
    qed
  qed (use lb in auto)
  also have "\<dots> = S * 2 ^ (BMAX - ?g)"
    unfolding S_def sum_distrib_right
  proof (rule sum.cong)
    fix k assume "k \<in> {?j..?g}"
    then have "BMAX - k = (?g - k) + (BMAX - ?g)" using lb(3) by simp
    then show "int (c k) * 2 ^ (BMAX - k) = int (c k) * 2 ^ (?g - k) * 2 ^ (BMAX - ?g)"
      by (simp only: power_add mult.assoc)
  qed simp
  finally have K: "int (kraft BMAX b) = S * 2 ^ (BMAX - ?g)" .
  have p: "(2 :: int) ^ BMAX = 2 ^ ?g * 2 ^ (BMAX - ?g)" using lb(3) by (simp flip: power_add)
  then have diff: "2 ^ BMAX - int (kraft BMAX b) = (2 ^ ?g - S) * 2 ^ (BMAX - ?g)"
    by (simp only: K left_diff_distrib)
  have z: "(2 :: int) ^ ?j * 2 ^ (?g - ?j) - S = 2 ^ ?g - S" using lb(2) by (simp flip: power_add)
  show ?thesis
  proof (rule that [of "2 ^ ?g - S"])
    show "codes_left c ?j ?g (2 ^ ?j) = (if 2 ^ ?g - S < 0 then None else Some (2 ^ ?g - S))"
      unfolding codes_left_sum [OF lb(2)] S_def [symmetric] z Let_def ..
    have p: "(2 :: int) ^ BMAX = int (2 ^ BMAX)" by simp
    have "2 ^ BMAX < kraft BMAX b \<longleftrightarrow> 2 ^ BMAX - int (kraft BMAX b) < 0" unfolding p by linarith
    then show "2 ^ ?g - S < 0 \<longleftrightarrow> 2 ^ BMAX < kraft BMAX b" by (simp only: diff mult_less_0_iff) simp
    have "kraft BMAX b = 2 ^ BMAX \<longleftrightarrow> 2 ^ BMAX - int (kraft BMAX b) = 0"
      unfolding p by linarith
    then show "2 ^ ?g - S = 0 \<longleftrightarrow> kraft BMAX b = 2 ^ BMAX" by (simp only: diff mult_eq_0_iff) simp
  qed
qed

text \<open>No codes at all, and too many.\<close>

lemma huft_build_refuses:
  assumes "set b \<subseteq> {..BMAX}"
  shows "(\<forall>k \<in> set b. k = 0) \<Longrightarrow> huft_build b s d e m = Some (0, [], 0)"
    and "2 ^ BMAX < kraft BMAX b \<Longrightarrow> \<exists>l. huft_build b s d e m = Some (2, [], l)"
proof -
  let ?c = "length_counts b"
  have zero: "?c 0 = length b \<longleftrightarrow> (\<forall>k \<in> set b. k = 0)" by (simp add: length_counts_count count_zero_iff)
  show "(\<forall>k \<in> set b. k = 0) \<Longrightarrow> huft_build b s d e m = Some (0, [], 0)"
    by (simp add: huft_build_def zero)
  assume K: "2 ^ BMAX < kraft BMAX b"
  then have "filter ((\<noteq>) 0) b \<noteq> []" by (auto simp: kraft_def)
  then have nz: "\<exists>k \<in> set b. k \<noteq> 0" by (auto simp: filter_empty_conv)
  from codes_left_kraft [OF assms nz]
  obtain z where "codes_left ?c (min_length ?c) (max_length ?c) (2 ^ min_length ?c) = (if z < 0 then None else Some z)"
    "z < 0 \<longleftrightarrow> 2 ^ BMAX < kraft BMAX b" by blast
  then show "\<exists>l. huft_build b s d e m = Some (2, [], l)"
    using K nz by (auto simp: huft_build_def zero Let_def)
qed

section \<open>The codes\<close>

text \<open>
  The codes \<open>huft_build\<close> assigns: they are kept with their first bit lowest. Read the other way
  round, as numbers of \<open>g\<close> bits, they are the partial sums of Kraft's sum, so a code of length \<open>k\<close>
  takes \<open>2 ^ (g - k)\<close> of the \<open>2 ^ g\<close> places and the codes of a table fill it from the start.
\<close>

subsection \<open>Bit reversal\<close>

fun brev :: "nat \<Rightarrow> nat \<Rightarrow> nat" where
  "brev 0 i = 0"
| "brev (Suc n) i = i mod 2 * 2 ^ n + brev n (i div 2)"

lemma brev_zero [simp]: "brev n 0 = 0"
  by (induction n) simp_all

lemma brev_less: "brev n i < 2 ^ n"
proof (induction n arbitrary: i)
  case (Suc n)
  have "i mod 2 * 2 ^ n \<le> 1 * 2 ^ n" by (rule mult_le_mono1) simp
  with Suc [of "i div 2"] show ?case unfolding brev.simps power_Suc by linarith
qed simp

lemma brev_add_bit:
  "i < 2 ^ m \<Longrightarrow> m < g \<Longrightarrow> brev g (i + 2 ^ m) = brev g i + 2 ^ (g - Suc m)"
proof (induction g arbitrary: i m)
  case (Suc g)
  show ?case
  proof (cases m)
    case (Suc m')
    have "i div 2 < 2 ^ m'" "m' < g" using Suc.prems Suc by auto
    moreover have "(i + 2 ^ m) div 2 = i div 2 + 2 ^ m'" "(i + 2 ^ m) mod 2 = i mod 2" using Suc by simp_all
    ultimately show ?thesis using Suc.IH [of "i div 2" m'] Suc by (simp only: brev.simps) simp
  qed (use Suc.prems in simp)
qed simp

text \<open>The first \<open>w\<close> bits of a code are the leading digits of its reversal.\<close>

lemma brev_prefix: "w \<le> g \<Longrightarrow> brev g i div 2 ^ (g - w) = brev w (i mod 2 ^ w)"
proof (induction w arbitrary: g i)
  case 0
  show ?case using brev_less [of g i] by simp
next
  case (Suc w)
  then obtain g' where g: "g = Suc g'" "w \<le> g'" by (cases g) auto
  have p: "(2 :: nat) ^ g' = 2 ^ w * 2 ^ (g' - w)" using g by (simp flip: power_add)
  have "(i mod 2 * 2 ^ g' + brev g' (i div 2)) div 2 ^ (g' - w) = i mod 2 * 2 ^ w + brev g' (i div 2) div 2 ^ (g' - w)"
    unfolding p mult.assoc [symmetric] by simp
  also have "\<dots> = i mod 2 * 2 ^ w + brev w (i div 2 mod 2 ^ w)" using Suc.IH [OF g(2)] by simp
  also have "i div 2 mod 2 ^ w = i mod 2 ^ Suc w div 2"
    by (simp add: mod_mult2_eq)
  finally show ?case using g by (simp add: mod_mod_cancel)
qed

lemma brev_inj: "i < 2 ^ n \<Longrightarrow> j < 2 ^ n \<Longrightarrow> brev n i = brev n j \<Longrightarrow> i = j"
proof (induction n arbitrary: i j)
  case (Suc n)
  have split: "brev (Suc n) x div 2 ^ n = x mod 2" "brev (Suc n) x mod 2 ^ n = brev n (x div 2)" for x
    using brev_less [of n "x div 2"] by simp_all
  have "i div 2 = j div 2"
  proof (rule Suc.IH)
    show "i div 2 < 2 ^ n" "j div 2 < 2 ^ n" using Suc.prems(1,2) by auto
    show "brev n (i div 2) = brev n (j div 2)" by (simp only: Suc.prems(3) flip: split(2))
  qed
  moreover have "i mod 2 = j mod 2" by (simp only: Suc.prems(3) flip: split(1))
  ultimately show ?case by (metis div_mult_mod_eq)
qed simp

lemma brev_short:
  assumes "i < 2 ^ l" "l \<le> g"
  shows "brev g i = brev l i * 2 ^ (g - l)"
  using assms
proof (induction l arbitrary: g i)
  case (Suc l)
  then obtain g' where g: "g = Suc g'" "l \<le> g'" by (cases g) auto
  have p: "(2 :: nat) ^ g' = 2 ^ l * 2 ^ (g' - l)" using g by (simp flip: power_add)
  have "i div 2 < 2 ^ l" using Suc.prems(1) by auto
  from Suc.IH [OF this g(2)] show ?case by (simp add: g p add_mult_distrib)
qed simp

subsection \<open>The next code\<close>

lemma high_bit:
  fixes i :: nat
  assumes "i < 2 ^ Suc k"
  shows "bit i k \<longleftrightarrow> 2 ^ k \<le> i"
proof -
  have "i div 2 ^ k < 2" using assms by (simp add: less_mult_imp_div_less)
  moreover have "2 ^ k \<le> i \<longleftrightarrow> 0 < i div 2 ^ k" by (simp add: div_greater_zero_iff)
  ultimately show ?thesis by (cases "i div 2 ^ k = 0") (auto simp: bit_iff_odd)
qed

lemma xor_high:
  fixes i :: nat
  assumes "i < 2 ^ k"
  shows "i XOR 2 ^ k = i + 2 ^ k" "(i + 2 ^ k) XOR 2 ^ k = i"
proof -
  have "\<not> bit i k" using high_bit [of i k] assms by simp
  then show eq: "i XOR 2 ^ k = i + 2 ^ k"
    using flip_bit_eq_if [of k i] by (simp add: flip_bit_eq_xor push_bit_of_1 set_bit_eq)
  show "(i + 2 ^ k) XOR 2 ^ k = i" by (simp add: xor.assoc flip: eq)
qed

text \<open>One step of the carry: the last bit is set, or cleared with a carry into the shorter code.\<close>

lemma increment_code_Suc:
  assumes "i < 2 ^ k"
  shows "increment_code (Suc k) i = i + 2 ^ k" "increment_code (Suc k) (i + 2 ^ k) = increment_code k i"
  using high_bit [of i k] high_bit [of "i + 2 ^ k" k] assms by (simp_all add: xor_high)

declare increment_code.simps(2) [simp del]

lemma code_cases:
  assumes "i < 2 ^ Suc k"
  obtains (zero) "i < 2 ^ k" | (one) j where "j < 2 ^ k" "i = j + (2 :: nat) ^ k"
  using that assms by (cases "i < 2 ^ k") (auto intro: that(2) [of "i - 2 ^ k"])

lemma increment_code_less: "i < 2 ^ k \<Longrightarrow> increment_code k i < 2 ^ k"
proof (induction k arbitrary: i)
  case (Suc k)
  from Suc.prems show ?case
  proof (cases rule: code_cases)
    case (one j)
    then show ?thesis using Suc.IH [of j] by (simp add: increment_code_Suc)
  qed (simp add: increment_code_Suc)
qed simp

text \<open>Reversed, the next code is one unit of its length further on, modulo the size of the code.\<close>

lemma brev_increment:
  "i < 2 ^ k \<Longrightarrow> k \<le> g \<Longrightarrow> brev g (increment_code k i) = (brev g i + 2 ^ (g - k)) mod 2 ^ g"
proof (induction k arbitrary: i)
  case (Suc k)
  from Suc.prems(1) show ?case
  proof (cases rule: code_cases)
    case zero
    then have "brev g (increment_code (Suc k) i) = brev g i + 2 ^ (g - Suc k)"
      using Suc.prems(2) by (simp add: increment_code_Suc brev_add_bit)
    moreover have "brev g (i + 2 ^ k) < 2 ^ g" by (rule brev_less)
    ultimately show ?thesis using Suc.prems(2) zero by (simp add: brev_add_bit)
  next
    case (one j)
    have "(2 :: nat) ^ (g - k) = 2 ^ (g - Suc k) + 2 ^ (g - Suc k)"
      using Suc.prems(2) by (simp flip: power_Suc mult_2 add: Suc_diff_Suc)
    then show ?thesis using one Suc.prems(2) Suc.IH [of j]
      by (simp add: increment_code_Suc brev_add_bit add.assoc)
  qed
qed (simp add: brev_less)

text \<open>A carry that reaches the first \<open>w\<close> bits clears all the others.\<close>

lemma increment_code_carry:
  "i < 2 ^ k \<Longrightarrow> w \<le> k \<Longrightarrow> increment_code k i < 2 ^ w \<or> increment_code k i mod 2 ^ w = i mod 2 ^ w"
proof (induction k arbitrary: i)
  case (Suc k)
  show ?case
  proof (cases "w = Suc k")
    case False
    with Suc.prems(2) have w: "w \<le> k" by simp
    then have "2 ^ w dvd (2 :: nat) ^ k" by (rule le_imp_power_dvd)
    then have *: "(x + 2 ^ k) mod 2 ^ w = x mod 2 ^ w" for x :: nat
      by (metis add_0_right dvd_imp_mod_0 mod_add_right_eq)
    from Suc.prems(1) show ?thesis
    proof (cases rule: code_cases)
      case (one j)
      then show ?thesis using Suc.IH [of j] w * by (simp add: increment_code_Suc)
    qed (simp add: increment_code_Suc *)
  qed (use Suc.prems increment_code_less [of i "Suc k"] in simp)
qed simp

subsection \<open>The codes of a list of lengths\<close>

fun codes_from :: "nat list \<Rightarrow> nat \<Rightarrow> (nat \<times> nat) list" where
  "codes_from [] i = []"
| "codes_from (k # ks) i = (k, i) # codes_from ks (increment_code k i)"

definition units :: "nat \<Rightarrow> nat list \<Rightarrow> nat" where
  "units g ks = (\<Sum>k \<leftarrow> ks. 2 ^ (g - k))"

lemma units_simps [simp]:
  "units g [] = 0" "units g (k # ks) = 2 ^ (g - k) + units g ks" "units g (ks @ ks') = units g ks + units g ks'"
  "units g (replicate n k) = n * 2 ^ (g - k)"
  by (simp_all add: units_def sum_list_replicate)

text \<open>A code fits its length and every later one, so the next one does.\<close>

definition fits :: "nat list \<Rightarrow> nat \<Rightarrow> bool" where
  "fits ks i \<longleftrightarrow> sorted ks \<and> (\<forall>k \<in> set ks. i < 2 ^ k)"

lemma fits_appendD: "fits (ks @ ks') i \<Longrightarrow> fits ks i"
  by (simp add: fits_def sorted_append)

lemma fits_next: "fits (k # ks) i \<Longrightarrow> fits ks (increment_code k i)"
  unfolding fits_def using increment_code_less [of i k]
  by (auto intro: less_le_trans [OF _ power_increasing])

lemma fits_code: "fits ks i \<Longrightarrow> (k, j) \<in> set (codes_from ks i) \<Longrightarrow> j < 2 ^ k \<and> k \<in> set ks"
proof (induction ks arbitrary: i)
  case (Cons k' ks)
  then show ?case using fits_next [OF Cons.prems(1)] by (auto simp: fits_def)
qed simp

lemma codes_from_value:
  assumes "fits (ks @ k # ks') i" and "\<forall>k \<in> set (ks @ k # ks'). k \<le> g"
    and "brev g i + units g (ks @ k # ks') \<le> 2 ^ g"
  shows "brev g (fold increment_code ks i) = brev g i + units g ks"
  using assms
proof (induction ks arbitrary: i)
  case (Cons q ks)
  have i: "i < 2 ^ q" "q \<le> g" using Cons.prems by (auto simp: fits_def)
  have "brev g i + 2 ^ (g - q) + (2 ^ (g - k) + (units g ks + units g ks')) \<le> 2 ^ g"
    using Cons.prems(3) by (simp add: ac_simps)
  moreover have "0 < (2 :: nat) ^ (g - k)" by simp
  ultimately have "brev g i + 2 ^ (g - q) < 2 ^ g" by linarith
  then have inc: "brev g (increment_code q i) = brev g i + 2 ^ (g - q)" using brev_increment [OF i] by simp
  have "fits (ks @ k # ks') (increment_code q i)" using fits_next Cons.prems(1) by simp
  from Cons.IH [OF this] Cons.prems(2,3) show ?case by (simp add: inc add.assoc)
qed simp

lemma codes_from_split:
  "(k, j) \<in> set (codes_from ks i) \<Longrightarrow> \<exists>ys zs. ks = ys @ k # zs \<and> j = fold increment_code ys i"
proof (induction ks arbitrary: i)
  case (Cons q ks)
  from Cons.prems consider "k = q" "j = i" | "(k, j) \<in> set (codes_from ks (increment_code q i))" by auto
  then show ?case
  proof cases
    case 1
    then show ?thesis by (intro exI [of _ "[]"] exI [of _ ks]) simp
  next
    case 2
    from Cons.IH [OF this] obtain ys zs where "ks = ys @ k # zs" "j = fold increment_code ys (increment_code q i)" by blast
    then show ?thesis by (intro exI [of _ "q # ys"] exI [of _ zs]) simp
  qed
qed simp

lemma codes_from_append:
  "codes_from (ys @ zs) i = codes_from ys i @ codes_from zs (fold increment_code ys i)"
  by (induction ys arbitrary: i) simp_all

text \<open>Once the codes with a common start of \<open>w\<close> bits are used up, no later code has that start.\<close>

lemma later_start_differs:
  assumes "fits (ys @ zs) i" and "\<forall>k \<in> set (ys @ zs). k \<le> g" and "brev g i + units g (ys @ zs) \<le> 2 ^ g"
    and "w \<le> g" and "2 ^ (g - w) \<le> units g ys"
    and "(k, j) \<in> set (codes_from zs (fold increment_code ys i))"
  shows "j mod 2 ^ w \<noteq> i mod 2 ^ w"
proof
  assume eq: "j mod 2 ^ w = i mod 2 ^ w"
  from codes_from_split [OF assms(6)] obtain z z' where z: "zs = z @ k # z'" "j = fold increment_code (ys @ z) i" by auto
  with codes_from_value [of "ys @ z" k z' i g] assms(1-3) have "brev g j = brev g i + (units g ys + units g z)" by simp
  then have "brev g i + 2 ^ (g - w) \<le> brev g j" using assms(5) by simp
  then have "(brev g i + 2 ^ (g - w)) div 2 ^ (g - w) \<le> brev g j div 2 ^ (g - w)" by (rule div_le_mono)
  moreover have "brev g i div 2 ^ (g - w) = brev g j div 2 ^ (g - w)" using brev_prefix [OF assms(4)] eq by simp
  moreover have "(brev g i + 2 ^ (g - w)) div 2 ^ (g - w) = brev g i div 2 ^ (g - w) + 1" by (rule div_add_self2) simp
  ultimately show False by simp
qed

subsection \<open>The order of the loops\<close>

text \<open>The pairs of \<open>code_order\<close> from the one with \<open>a\<close> more codes of length \<open>k\<close> on.\<close>

definition order_tail :: "(nat \<Rightarrow> nat) \<Rightarrow> nat \<Rightarrow> nat \<Rightarrow> nat \<Rightarrow> (nat \<times> nat) list" where
  "order_tail c k a g = map (Pair k) (rev [0..<a]) @ code_order c (Suc k) g"

definition tail_lengths :: "(nat \<Rightarrow> nat) \<Rightarrow> nat \<Rightarrow> nat \<Rightarrow> nat \<Rightarrow> nat list" where
  "tail_lengths c k a g = replicate a k @ concat (map (\<lambda>k. replicate (c k) k) [Suc k..<Suc g])"

lemma code_order_tail: "k \<le> g \<Longrightarrow> code_order c k g = order_tail c k (c k) g"
  by (simp add: code_order_def order_tail_def upt_conv_Cons [of k "Suc g"] del: upt_Suc)

lemma order_tail_lengths: "map fst (order_tail c k a g) = tail_lengths c k a g"
  by (simp add: order_tail_def tail_lengths_def code_order_def map_concat comp_def map_replicate_const)

lemma order_tail_Cons:
  "order_tail c k a g = x # xs \<Longrightarrow> k \<le> g \<Longrightarrow> \<exists>k' a'. x = (k', a') \<and> k \<le> k' \<and> k' \<le> g \<and> xs = order_tail c k' a' g"
proof (induction "g - k" arbitrary: k a)
  case (Suc n)
  show ?case
  proof (cases a)
    case 0
    then have "order_tail c (Suc k) (c (Suc k)) g = x # xs"
      using Suc by (simp add: order_tail_def [of c k] code_order_tail)
    then have "\<exists>k' a'. x = (k', a') \<and> Suc k \<le> k' \<and> k' \<le> g \<and> xs = order_tail c k' a' g"
      using Suc.hyps by (intro Suc.hyps(1)) simp_all
    then show ?thesis using Suc_leD by blast
  qed (use Suc.prems in \<open>auto simp: order_tail_def\<close>)
next
  case 0
  then have "code_order c (Suc k) g = []" by (simp add: code_order_def)
  with 0 show ?case by (cases a) (auto simp: order_tail_def)
qed

lemma tail_lengths_sorted: "sorted (tail_lengths c k a g)" "r \<in> set (tail_lengths c k a g) \<Longrightarrow> k \<le> r"
proof -
  have s: "sorted (concat (map (\<lambda>k. replicate (c k) k) [m..<n]))" for m n :: nat
    by (induction n) (auto simp: sorted_append)
  show "sorted (tail_lengths c k a g)" using s [of "Suc k" "Suc g"]
    by (auto simp: tail_lengths_def sorted_append simp del: upt_Suc)
  show "r \<in> set (tail_lengths c k a g) \<Longrightarrow> k \<le> r"
    by (auto simp: tail_lengths_def simp del: upt_Suc split: if_splits)
qed

lemma tail_lengths_le: "k \<le> g \<Longrightarrow> r \<in> set (tail_lengths c k a g) \<Longrightarrow> r \<le> g"
  by (auto simp: tail_lengths_def simp del: upt_Suc split: if_splits)

lemma tail_lengths_split:
  assumes "k \<le> m" "m \<le> g"
  shows "tail_lengths c k a g = tail_lengths c k a m @ concat (map (\<lambda>k. replicate (c k) k) [Suc m..<Suc g])"
proof -
  have "[Suc k..<Suc g] = [Suc k..<Suc m] @ [Suc m..<Suc g]"
    using assms upt_add_eq_append [of "Suc k" "Suc m" "g - m"] by simp
  then show ?thesis by (simp add: tail_lengths_def del: upt_Suc)
qed

lemma units_tail:
  "units g (tail_lengths c k a m) = a * 2 ^ (g - k) + (\<Sum>r = Suc k..m. c r * 2 ^ (g - r))"
proof -
  have "units g (concat (map (\<lambda>k. replicate (c k) k) rs)) = (\<Sum>r \<leftarrow> rs. c r * 2 ^ (g - r))" for rs
    by (induction rs) simp_all
  then show ?thesis
    by (simp add: tail_lengths_def sum_list_distinct_conv_sum_set atLeastLessThanSuc_atLeastAtMost del: upt_Suc)
qed

end
