(* ===== verification/Gzip_Io.thy ===== *)
theory Gzip_Io
  imports Prelude
begin

text \<open>
  boot/zBoot/misc.c and gzip.h: the buffers of the boot decompressor. The compressed kernel is
  linked behind the loader as \<open>input_data\<close>, a fixed memory from which \<open>get_byte\<close> reads through
  \<open>inbuf\<close>; the decompressed bytes collect in \<open>window\<close>, which \<open>flush_window\<close> copies to the memory at
  one megabyte (\<open>output_data\<close>) while it updates the check sum. \<open>error\<close> prints its message and
  spins, so it is \<open>None\<close>, like every access to memory that nothing has set.
\<close>

definition INBUFSIZ :: nat where "INBUFSIZ = 0x8000"
definition WSIZE :: nat where "WSIZE = 0x8000"

record gzip =
  input_data :: "nat \<Rightarrow> u8"
  input_len :: nat
  input_ptr :: nat
  inbuf :: "nat \<Rightarrow> u8"
  insize :: nat
  inptr :: nat
  bytes_in :: nat
  window :: "nat \<Rightarrow> u8"
  outcnt :: nat
  output_data :: "nat \<Rightarrow> u8"
  output_ptr :: nat
  bytes_out :: nat
  crc :: u32
  crc_32_tab :: "u8 \<Rightarrow> u32"
  bb :: u32
  bk :: nat

definition error_halt :: "string \<Rightarrow> 'a option" where
  "error_halt message = None"

subsection \<open>The check sum\<close>

text \<open>The exponents of the polynomial, and the polynomial with its bits reversed.\<close>

definition crc_exponents :: "nat list" where
  "crc_exponents = [0, 1, 2, 4, 5, 7, 8, 10, 11, 12, 16, 22, 23, 26]"

definition crc_poly :: u32 where
  "crc_poly = fold (\<lambda>p e. e OR push_bit (31 - p) 1) crc_exponents 0"

text \<open>The inner loop of \<open>makecrc\<close>: \<open>k\<close> runs down to its marker bit.\<close>

definition crc_shift :: "u32 \<Rightarrow> u32 \<Rightarrow> u32" where
  "crc_shift e c = (if c AND 1 \<noteq> 0 then drop_bit 1 c XOR e else drop_bit 1 c)"

function crc_entry :: "u32 \<Rightarrow> nat \<Rightarrow> u32 \<Rightarrow> u32" where
  "crc_entry e k c =
     (if k \<le> 1 then c
      else let c = crc_shift e c;
               c = (if k mod 2 = 1 then c XOR e else c)
           in crc_entry e (k div 2) c)"
  by auto
termination by (relation "measure (\<lambda>(e, k, c). k)") auto

declare crc_entry.simps [simp del]

definition makecrc :: "gzip \<Rightarrow> gzip" where
  "makecrc s = s\<lparr>crc_32_tab := (\<lambda>i. if i = 0 then 0 else crc_entry crc_poly (unat i + 256) 0)\<rparr>"

text \<open>\<open>updcrc(NULL, 0)\<close> starts a new sum; the loop runs the bytes through the shift register.\<close>

definition crc_step :: "(u8 \<Rightarrow> u32) \<Rightarrow> u8 \<Rightarrow> u32 \<Rightarrow> u32" where
  "crc_step tab x c = tab (ucast (c XOR ucast x)) XOR drop_bit 8 c"

definition updcrc_init :: "gzip \<Rightarrow> gzip" where
  "updcrc_init s = s\<lparr>crc := 0xFFFFFFFF\<rparr>"

definition updcrc :: "(nat \<Rightarrow> u8) \<Rightarrow> nat \<Rightarrow> gzip \<Rightarrow> u32 \<times> gzip" where
  "updcrc p n s = (
     let c = fold (\<lambda>i. crc_step (crc_32_tab s) (p i)) [0..<n] (crc s)
     in (c XOR 0xFFFFFFFF, s\<lparr>crc := c\<rparr>))"

subsection \<open>Input\<close>

definition clear_bufs :: "gzip \<Rightarrow> gzip" where
  "clear_bufs s = s\<lparr>outcnt := 0, insize := 0, inptr := 0, bytes_in := 0, bytes_out := 0\<rparr>"

text \<open>
  The loop of \<open>fill_inbuf\<close>. The bound \<open>input_len - input_ptr + 1\<close> counts one byte more than there
  are, the first byte of what the linker puts behind the data. The source's test for \<open>EOF\<close> never
  holds for a length read from memory below \<open>input_len\<close>; a negative length copies nothing.
\<close>

definition inbuf_room :: "gzip \<Rightarrow> int" where
  "inbuf_room s =
     (let len = int INBUFSIZ - int (insize s);
          left = int (input_len s) - int (input_ptr s) + 1
      in if len > left then left else len)"

partial_function (option) fill_loop :: "gzip \<Rightarrow> gzip option" where
  "fill_loop s =
     (let len = inbuf_room s
      in if len = 0 \<or> len = - 1 then Some s
         else let n = nat len;
                  s = s\<lparr>inbuf := (\<lambda>j. if insize s \<le> j \<and> j < insize s + n
                                       then input_data s (input_ptr s + (j - insize s)) else inbuf s j),
                        insize := insize s + n, input_ptr := input_ptr s + n\<rparr>
              in if insize s < INBUFSIZ then fill_loop s else Some s)"

declare fill_loop.simps [code]

definition fill_inbuf :: "gzip \<Rightarrow> (u8 \<times> gzip) option" where
  "fill_inbuf s = do {
     s \<leftarrow> fill_loop (s\<lparr>insize := 0\<rparr>);
     (if insize s = 0 then error_halt ''unable to fill buffer''
      else Some (inbuf s 0, s\<lparr>bytes_in := bytes_in s + insize s, inptr := 1\<rparr>))
   }"

definition get_byte :: "gzip \<Rightarrow> (u8 \<times> gzip) option" where
  "get_byte s =
     (if inptr s < insize s then Some (inbuf s (inptr s), s\<lparr>inptr := inptr s + 1\<rparr>)
      else fill_inbuf s)"

text \<open>Little-endian 16-bit and 32-bit values of the input, read byte by byte.\<close>

definition SH :: "u8 \<Rightarrow> u8 \<Rightarrow> u32" where
  "SH b0 b1 = ucast b0 OR push_bit 8 (ucast b1)"

definition LG :: "u8 \<Rightarrow> u8 \<Rightarrow> u8 \<Rightarrow> u8 \<Rightarrow> u32" where
  "LG b0 b1 b2 b3 = SH b0 b1 OR push_bit 16 (SH b2 b3)"

subsection \<open>Output\<close>

definition flush_window :: "gzip \<Rightarrow> gzip" where
  "flush_window s =
     (if outcnt s = 0 then s
      else let s = snd (updcrc (window s) (outcnt s) s)
           in s\<lparr>output_data := (\<lambda>j. if output_ptr s \<le> j \<and> j < output_ptr s + outcnt s
                                     then window s (j - output_ptr s) else output_data s j),
                bytes_out := bytes_out s + outcnt s, output_ptr := output_ptr s + outcnt s,
                outcnt := 0\<rparr>)"

text \<open>\<open>slide[w++] = c\<close> with the flush of a full window, as \<open>put_char\<close> and inflate.c have it.\<close>

definition put_window :: "u8 \<Rightarrow> gzip \<Rightarrow> gzip" where
  "put_window c s =
     (let s = s\<lparr>window := (window s)(outcnt s := c), outcnt := outcnt s + 1\<rparr>
      in if outcnt s = WSIZE then flush_window s else s)"

end
