(* ===== verification/Inflate.thy ===== *)
theory Inflate
  imports Gzip_Io Huft
begin

text \<open>
  boot/zBoot/inflate.c: the decompressor proper. \<open>bb\<close> and \<open>bk\<close> are the bit buffer and the number of
  bits in it; the routines work on local copies of them and of the window position and write them
  back when they succeed, which the model leaves out: after a failure nothing reads them. Every
  routine has a result code: 0, or 1 and 2 for bad data, which \<open>unzip\<close> reports.
\<close>

subsection \<open>Constant tables\<close>

definition border :: "nat list" where
  "border = [16, 17, 18, 0, 8, 7, 9, 6, 10, 5, 11, 4, 12, 3, 13, 2, 14, 1, 15]"

definition cplens :: "nat list" where
  "cplens = [3, 4, 5, 6, 7, 8, 9, 10, 11, 13, 15, 17, 19, 23, 27, 31,
     35, 43, 51, 59, 67, 83, 99, 115, 131, 163, 195, 227, 258, 0, 0]"

definition cplext :: "nat list" where
  "cplext = [0, 0, 0, 0, 0, 0, 0, 0, 1, 1, 1, 1, 2, 2, 2, 2,
     3, 3, 3, 3, 4, 4, 4, 4, 5, 5, 5, 5, 0, 99, 99]"

definition cpdist :: "nat list" where
  "cpdist = [1, 2, 3, 4, 5, 7, 9, 13, 17, 25, 33, 49, 65, 97, 129, 193,
     257, 385, 513, 769, 1025, 1537, 2049, 3073, 4097, 6145, 8193, 12289, 16385, 24577]"

definition cpdext :: "nat list" where
  "cpdext = [0, 0, 0, 0, 1, 1, 2, 2, 3, 3, 4, 4, 5, 5, 6, 6,
     7, 7, 8, 8, 9, 9, 10, 10, 11, 11, 12, 12, 13, 13]"

definition mask_bits :: "u32 list" where
  "mask_bits = [0x0000, 0x0001, 0x0003, 0x0007, 0x000f, 0x001f, 0x003f, 0x007f, 0x00ff,
     0x01ff, 0x03ff, 0x07ff, 0x0fff, 0x1fff, 0x3fff, 0x7fff, 0xffff]"

definition lbits :: nat where "lbits = 9"
definition dbits :: nat where "dbits = 6"

subsection \<open>The bit buffer\<close>

partial_function (option) NEEDBITS :: "nat \<Rightarrow> gzip \<Rightarrow> gzip option" where
  "NEEDBITS n s =
     (if bk s < n
      then Option.bind (get_byte s) (\<lambda>(c, s).
             NEEDBITS n (s\<lparr>bb := bb s OR push_bit (bk s) (ucast c), bk := bk s + 8\<rparr>))
      else Some s)"

declare NEEDBITS.simps [code]

text \<open>The source never removes more bits than there are; the count would wrap.\<close>

definition DUMPBITS :: "nat \<Rightarrow> gzip \<Rightarrow> gzip option" where
  "DUMPBITS n s =
     (if n \<le> bk s then Some (s\<lparr>bb := drop_bit n (bb s), bk := bk s - n\<rparr>) else None)"

text \<open>\<open>b & mask_bits[n]\<close>.\<close>

definition low_bits :: "nat \<Rightarrow> gzip \<Rightarrow> nat option" where
  "low_bits n s = (if n < length mask_bits then Some (unat (bb s AND mask_bits ! n)) else None)"

text \<open>The sequence \<open>NEEDBITS(n)\<close>, \<open>b & mask\<close>, \<open>DUMPBITS(n)\<close>.\<close>

definition read_bits :: "nat \<Rightarrow> gzip \<Rightarrow> (nat \<times> gzip) option" where
  "read_bits n s = do {
     s \<leftarrow> NEEDBITS n s;
     v \<leftarrow> low_bits n s;
     s \<leftarrow> DUMPBITS n s;
     Some (v, s)
   }"

subsection \<open>Decoding a symbol\<close>

definition table_entry :: "decoder \<Rightarrow> nat \<Rightarrow> nat \<Rightarrow> huft option" where
  "table_entry D t i = (if t < length D \<and> i < length (D ! t) then D ! t ! i else None)"

definition num_of :: "huft_val \<Rightarrow> nat option" where
  "num_of v = (case v of Num n \<Rightarrow> Some n | _ \<Rightarrow> None)"

definition tab_of :: "huft_val \<Rightarrow> nat option" where
  "tab_of v = (case v of Tab t \<Rightarrow> Some t | _ \<Rightarrow> None)"

text \<open>From an entry through sub-tables to a symbol's entry; \<open>None\<close> inside is an invalid code.\<close>

partial_function (option) decode_entry :: "decoder \<Rightarrow> huft \<Rightarrow> gzip \<Rightarrow> (huft option \<times> gzip) option" where
  "decode_entry D r s =
     (if h_e r > 16
      then if h_e r = 99 then Some (None, s)
           else do {
             s \<leftarrow> DUMPBITS (h_b r) s;
             let e = h_e r - 16;
             s \<leftarrow> NEEDBITS e s;
             i \<leftarrow> low_bits e s;
             t \<leftarrow> tab_of (h_v r);
             r \<leftarrow> table_entry D t i;
             decode_entry D r s
           }
      else do {
        s \<leftarrow> DUMPBITS (h_b r) s;
        Some (Some r, s)
      })"

declare decode_entry.simps [code]

definition decode_symbol :: "decoder \<Rightarrow> nat \<Rightarrow> gzip \<Rightarrow> (huft option \<times> gzip) option" where
  "decode_symbol D bits s = do {
     s \<leftarrow> NEEDBITS bits s;
     i \<leftarrow> low_bits bits s;
     r \<leftarrow> table_entry D 0 i;
     decode_entry D r s
   }"

subsection \<open>Copying from the window\<close>

text \<open>Byte by byte upwards, which is also how \<open>memcpy\<close> of misc.c copies.\<close>

fun copy_bytes :: "(nat \<Rightarrow> u8) \<Rightarrow> nat \<Rightarrow> nat \<Rightarrow> nat \<Rightarrow> (nat \<Rightarrow> u8)" where
  "copy_bytes win w d 0 = win"
| "copy_bytes win w d (Suc e) = copy_bytes (win(w := win d)) (w + 1) (d + 1) e"

text \<open>
  \<open>n\<close> bytes from place \<open>d\<close> of the window on, in pieces that stay inside it. The source calls
  \<open>memcpy\<close> when source and destination do not overlap and copies in a loop otherwise.
\<close>

partial_function (option) copy_match :: "nat \<Rightarrow> nat \<Rightarrow> gzip \<Rightarrow> gzip option" where
  "copy_match n d s = (
     let d = d AND (WSIZE - 1);
         w = outcnt s;
         e = WSIZE - (if d > w then d else w);
         e = (if e > n then n else e);
         n = n - e;
         s = s\<lparr>window := copy_bytes (window s) w d e, outcnt := w + e\<rparr>;
         s = (if outcnt s = WSIZE then flush_window s else s)
     in if n \<noteq> 0 then copy_match n (d + e) s else Some s)"

declare copy_match.simps [code]

text \<open>The distance as an unsigned subtraction from the window position, brought into the window.\<close>

definition match_start :: "nat \<Rightarrow> nat \<Rightarrow> nat" where
  "match_start w dist = unat ((of_nat w - of_nat dist :: u32) AND of_nat (WSIZE - 1))"

subsection \<open>Blocks\<close>

partial_function (option) inflate_codes ::
  "decoder \<Rightarrow> decoder \<Rightarrow> nat \<Rightarrow> nat \<Rightarrow> gzip \<Rightarrow> (nat \<times> gzip) option" where
  "inflate_codes lt dt bl bd s =
     Option.bind (decode_symbol lt bl s) (\<lambda>(r, s).
     case r of
       None \<Rightarrow> Some (1, s)
     | Some r \<Rightarrow>
         if h_e r = 16 then do {
           v \<leftarrow> num_of (h_v r);
           inflate_codes lt dt bl bd (put_window (of_nat v) s)
         }
         else if h_e r = 15 then Some (0, s)
         else do {
           base \<leftarrow> num_of (h_v r);
           (x, s) \<leftarrow> read_bits (h_e r) s;
           Option.bind (decode_symbol dt bd s) (\<lambda>(r', s).
           case r' of
             None \<Rightarrow> Some (1, s)
           | Some r' \<Rightarrow> do {
               dbase \<leftarrow> num_of (h_v r');
               (y, s) \<leftarrow> read_bits (h_e r') s;
               s \<leftarrow> copy_match (base + x) (match_start (outcnt s) (dbase + y)) s;
               inflate_codes lt dt bl bd s
             })
         })"

declare inflate_codes.simps [code]

text \<open>The bytes of a stored block.\<close>

fun stored_bytes :: "nat \<Rightarrow> gzip \<Rightarrow> gzip option" where
  "stored_bytes 0 s = Some s"
| "stored_bytes (Suc n) s = do {
     s \<leftarrow> NEEDBITS 8 s;
     s \<leftarrow> DUMPBITS 8 (put_window (ucast (bb s)) s);
     stored_bytes n s
   }"

definition inflate_stored :: "gzip \<Rightarrow> (nat \<times> gzip) option" where
  "inflate_stored s = do {
     s \<leftarrow> DUMPBITS (bk s mod 8) s;
     (n, s) \<leftarrow> read_bits 16 s;
     s \<leftarrow> NEEDBITS 16 s;
     (if n \<noteq> unat (NOT (bb s) AND 0xffff) then Some (1, s)
      else do {
        s \<leftarrow> DUMPBITS 16 s;
        s \<leftarrow> stored_bytes n s;
        Some (0, s)
      })
   }"

definition fixed_lengths :: "nat list" where
  "fixed_lengths = replicate 144 8 @ replicate 112 9 @ replicate 24 7 @ replicate 8 8"

text \<open>The distance code of a fixed block is incomplete, which \<open>huft_build\<close> reports with 1.\<close>

definition inflate_fixed :: "gzip \<Rightarrow> (nat \<times> gzip) option" where
  "inflate_fixed s = do {
     (i, lt, bl) \<leftarrow> huft_build fixed_lengths 257 cplens cplext 7;
     (if i \<noteq> 0 then Some (i, s)
      else do {
        (i, dt, bd) \<leftarrow> huft_build (replicate 30 5) 0 cpdist cpdext 5;
        (if i > 1 then Some (i, s)
         else do {
           (r, s) \<leftarrow> inflate_codes lt dt bl bd s;
           Some (if r \<noteq> 0 then 1 else 0, s)
         })
      })
   }"

text \<open>The code lengths of the code that describes the code lengths, in the order of \<open>border\<close>.\<close>

fun border_lengths :: "nat list \<Rightarrow> nat \<Rightarrow> nat list \<Rightarrow> gzip \<Rightarrow> (nat list \<times> gzip) option" where
  "border_lengths [] nb ll s = Some (ll, s)"
| "border_lengths (p # ps) nb ll s =
     (case nb of
        0 \<Rightarrow> border_lengths ps 0 (ll[p := 0]) s
      | Suc nb \<Rightarrow> do {
          (k, s) \<leftarrow> read_bits 3 s;
          border_lengths ps nb (ll[p := k]) s
        })"

text \<open>
  The run-length coded code lengths: \<open>ll\<close> the lengths so far, \<open>l\<close> the last one, \<open>n\<close> the number
  wanted. \<open>Inl\<close> is the result code of a run that is too long.
\<close>

partial_function (option) read_lengths ::
  "decoder \<Rightarrow> nat \<Rightarrow> nat \<Rightarrow> nat list \<Rightarrow> nat \<Rightarrow> gzip \<Rightarrow> ((nat + nat list) \<times> gzip) option" where
  "read_lengths lt bl n ll l s =
     (if length ll < n then do {
        s \<leftarrow> NEEDBITS bl s;
        i \<leftarrow> low_bits bl s;
        r \<leftarrow> table_entry lt 0 i;
        s \<leftarrow> DUMPBITS (h_b r) s;
        j \<leftarrow> num_of (h_v r);
        (if j < 16 then read_lengths lt bl n (ll @ [j]) j s
         else if j = 16 then do {
           (x, s) \<leftarrow> read_bits 2 s;
           (if length ll + (3 + x) > n then Some (Inl 1, s)
            else read_lengths lt bl n (ll @ replicate (3 + x) l) l s)
         }
         else if j = 17 then do {
           (x, s) \<leftarrow> read_bits 3 s;
           (if length ll + (3 + x) > n then Some (Inl 1, s)
            else read_lengths lt bl n (ll @ replicate (3 + x) 0) 0 s)
         }
         else do {
           (x, s) \<leftarrow> read_bits 7 s;
           (if length ll + (11 + x) > n then Some (Inl 1, s)
            else read_lengths lt bl n (ll @ replicate (11 + x) 0) 0 s)
         })
      }
      else Some (Inr ll, s))"

declare read_lengths.simps [code]

text \<open>The two decoding tables of a dynamic block; incomplete codes are reported and end the boot.\<close>

definition inflate_trees :: "nat \<Rightarrow> nat list \<Rightarrow> gzip \<Rightarrow> (nat \<times> gzip) option" where
  "inflate_trees nl ll s = do {
     (i, lt, bl) \<leftarrow> huft_build (take nl ll) 257 cplens cplext lbits;
     (if i = 1 then error_halt '' incomplete literal tree''
      else if i \<noteq> 0 then Some (i, s)
      else do {
        (i, dt, bd) \<leftarrow> huft_build (drop nl ll) 0 cpdist cpdext dbits;
        (if i = 1 then error_halt '' incomplete distance tree''
         else if i \<noteq> 0 then Some (i, s)
         else do {
           (r, s) \<leftarrow> inflate_codes lt dt bl bd s;
           Some (if r \<noteq> 0 then 1 else 0, s)
         })
      })
   }"

definition inflate_dynamic :: "gzip \<Rightarrow> (nat \<times> gzip) option" where
  "inflate_dynamic s = do {
     (x, s) \<leftarrow> read_bits 5 s;
     let nl = 257 + x;
     (x, s) \<leftarrow> read_bits 5 s;
     let nd = 1 + x;
     (x, s) \<leftarrow> read_bits 4 s;
     let nb = 4 + x;
     (if nl > 286 \<or> nd > 30 then Some (1, s)
      else do {
        (ll, s) \<leftarrow> border_lengths border nb (replicate 19 0) s;
        (i, lt, bl) \<leftarrow> huft_build ll 19 [] [] 7;
        (if i \<noteq> 0 then Some (i, s)
         else do {
           (r, s) \<leftarrow> read_lengths lt bl (nl + nd) [] 0 s;
           (case r of Inl code \<Rightarrow> Some (code, s) | Inr ll \<Rightarrow> inflate_trees nl ll s)
         })
      })
   }"

text \<open>The flag of the last block, and the result code of the block.\<close>

definition inflate_block :: "gzip \<Rightarrow> (bool \<times> nat \<times> gzip) option" where
  "inflate_block s = do {
     (e, s) \<leftarrow> read_bits 1 s;
     (t, s) \<leftarrow> read_bits 2 s;
     (r, s) \<leftarrow> (if t = 2 then inflate_dynamic s
                 else if t = 0 then inflate_stored s
                 else if t = 1 then inflate_fixed s
                 else Some (2, s));
     Some (e \<noteq> 0, r, s)
   }"

partial_function (option) inflate_blocks :: "gzip \<Rightarrow> (nat \<times> gzip) option" where
  "inflate_blocks s =
     Option.bind (inflate_block s) (\<lambda>(e, r, s).
       if r \<noteq> 0 then Some (r, s) else if e then Some (0, s) else inflate_blocks s)"

declare inflate_blocks.simps [code]

text \<open>Whole bytes left in the bit buffer go back to the input buffer.\<close>

function undo_lookahead :: "gzip \<Rightarrow> gzip option" where
  "undo_lookahead s =
     (if bk s \<ge> 8
      then if inptr s = 0 then None else undo_lookahead (s\<lparr>bk := bk s - 8, inptr := inptr s - 1\<rparr>)
      else Some s)"
  by auto
termination by (relation "measure bk") auto

declare undo_lookahead.simps [simp del]

definition inflate :: "gzip \<Rightarrow> (nat \<times> gzip) option" where
  "inflate s = do {
     (r, s) \<leftarrow> inflate_blocks (s\<lparr>outcnt := 0, bk := 0, bb := 0\<rparr>);
     (if r \<noteq> 0 then Some (r, s)
      else do {
        s \<leftarrow> undo_lookahead s;
        Some (0, flush_window s)
      })
   }"

end
