(* ===== verification/Huft_Tables.thy ===== *)
theory Huft_Tables
  imports Huft_Facts Inflate
begin

text \<open>
  \<open>huft_build\<close> stays inside its arrays: the stack of tables always has a table for the start of the
  code at hand, a link to a new table is stored inside the table above, and the way back always ends.
  So the routine returns for every set of code lengths that leaves no value unset.
\<close>

subsection \<open>The size of a new table\<close>

text \<open>
  Either the table has the bits asked for, or the codes up to its last index bit use up all the
  places with the common start.
\<close>

lemma table_bits_covers:
  fixes c :: "nat \<Rightarrow> nat" and f :: nat
  assumes "k + (z - j) \<le> g" "j < z"
  defines "J \<equiv> table_bits c k f j z"
  shows "j < J \<and> J \<le> z \<and> (z = J \<or> f * 2 ^ (g - k) \<le> (\<Sum>r = Suc k..k + (J - j). c r * 2 ^ (g - r)))"
  using assms(1,2) unfolding J_def
proof (induction c k f j z rule: table_bits.induct)
  case (1 c k f j z)
  have p: "(2 :: nat) ^ (g - k) = 2 * 2 ^ (g - Suc k)"
    using 1(2,3) by (simp flip: power_Suc add: Suc_diff_Suc)
  show ?case
  proof (cases "j + 1 < z")
    case lt: True
    show ?thesis
    proof (cases "2 * f \<le> c (k + 1)")
      case True
      then have "f * 2 ^ (g - k) \<le> c (Suc k) * 2 ^ (g - Suc k)" by (simp add: p mult.assoc [symmetric] mult.commute)
      with True lt show ?thesis by (simp add: table_bits.simps [of c k])
    next
      case False
      define J where "J = table_bits c (k + 1) (2 * f - c (k + 1)) (j + 1) z"
      have IH: "j + 1 < J" "J \<le> z"
        "z = J \<or> (2 * f - c (k + 1)) * 2 ^ (g - (k + 1)) \<le> (\<Sum>r = Suc (k + 1)..k + 1 + (J - (j + 1)). c r * 2 ^ (g - r))"
        using 1(1) [OF lt False] 1(2) lt unfolding J_def by simp_all
      have J: "table_bits c k f j z = J" using lt False by (simp add: table_bits.simps [of c k] J_def)
      have "k + 1 + (J - (j + 1)) = k + (J - j)" using IH(1) by simp
      moreover have "(\<Sum>r = Suc k..k + (J - j). c r * 2 ^ (g - r))
          = c (Suc k) * 2 ^ (g - Suc k) + (\<Sum>r = Suc (Suc k)..k + (J - j). c r * 2 ^ (g - r))"
        using IH(1) by (simp add: sum.atLeast_Suc_atMost)
      moreover have "f * 2 ^ (g - k) = (2 * f - c (k + 1)) * 2 ^ (g - (k + 1)) + c (Suc k) * 2 ^ (g - Suc k)"
      proof -
        have "2 * f = (2 * f - c (k + 1)) + c (Suc k)" using False by simp
        then have "2 * f * 2 ^ (g - Suc k) = (2 * f - c (k + 1)) * 2 ^ (g - Suc k) + c (Suc k) * 2 ^ (g - Suc k)"
          by (metis add_mult_distrib)
        then show ?thesis by (simp add: p mult.assoc mult.left_commute)
      qed
      ultimately show ?thesis using IH unfolding J by auto
    qed
  next
    case False
    then show ?thesis using 1(3) by (simp add: table_bits.simps [of c k])
  qed
qed

text \<open>The codes still to come, with the one at hand.\<close>

definition later_lengths :: "huft_input \<Rightarrow> nat \<Rightarrow> nat \<Rightarrow> nat list" where
  "later_lengths hi k a = tail_lengths (hi_c hi) k (Suc a) (hi_g hi)"

lemma new_table_bits_covers:
  fixes a :: nat
  assumes "w < k" "k \<le> hi_g hi"
  defines "J \<equiv> new_table_bits hi k a w"
  shows "k - w \<le> J"
    and "hi_l hi \<le> J \<or> hi_g hi \<le> w + J \<or>
      2 ^ (hi_g hi - w) \<le> units (hi_g hi) (tail_lengths (hi_c hi) k (Suc a) (w + J))"
proof -
  let ?g = "hi_g hi" and ?l = "hi_l hi" and ?c = "hi_c hi"
  define z where "z = (if ?g - w > ?l then ?l else ?g - w)"
  define j where "j = k - w"
  define f :: nat where "f = 2 ^ j - (a + 1)"
  have J: "J = (if 2 ^ j > a + 1 then table_bits ?c k f j z else j)"
    unfolding J_def new_table_bits_def z_def [symmetric] j_def [symmetric] Let_def f_def ..
  have j: "0 < j" "w + j = k" using assms(1) by (simp_all add: j_def)
  have zg: "w + z \<le> ?g" using assms by (auto simp: z_def)
  have pw: "(2 :: nat) ^ (?g - w) = 2 ^ j * 2 ^ (?g - k)" using j(2) assms(2) by (simp flip: power_add)
  have units: "units ?g (tail_lengths ?c k (Suc a) (w + J))
      = (a + 1) * 2 ^ (?g - k) + (\<Sum>r = Suc k..w + J. ?c r * 2 ^ (?g - r))"
    by (simp add: units_tail)
  consider "2 ^ j \<le> a + 1" | "2 ^ j > a + 1" "j < z" | "2 ^ j > a + 1" "z \<le> j" by linarith
  then have "j \<le> J \<and> (z \<le> J \<or> 2 ^ (?g - w) \<le> units ?g (tail_lengths ?c k (Suc a) (w + J)))"
  proof cases
    case 1
    then have "2 ^ j * 2 ^ (?g - k) \<le> (a + 1) * 2 ^ (?g - k)" by (rule mult_le_mono1)
    then show ?thesis using 1 J unfolding units pw by simp
  next
    case 2
    then have t: "J = table_bits ?c k f j z" using J by simp
    have "k + (z - j) \<le> ?g" using zg j 2(2) by simp
    from table_bits_covers [OF this 2(2), of ?c f, folded t]
    have b: "j < J" "z = J \<or> f * 2 ^ (?g - k) \<le> (\<Sum>r = Suc k..k + (J - j). ?c r * 2 ^ (?g - r))" by auto
    have "k + (J - j) = w + J" using j b(1) by simp
    moreover have "2 ^ j * 2 ^ (?g - k) = (a + 1) * 2 ^ (?g - k) + f * 2 ^ (?g - k)"
      unfolding f_def add_mult_distrib [symmetric] using 2(1) by simp
    ultimately show ?thesis using b unfolding units pw by auto
  next
    case 3
    then have "J = j + 1" using J by (simp add: table_bits.simps)
    then show ?thesis using 3 by simp
  qed
  then show "k - w \<le> J" "?l \<le> J \<or> ?g \<le> w + J \<or> 2 ^ (?g - w) \<le> units ?g (tail_lengths ?c k (Suc a) (w + J))"
    using zg by (auto simp: j_def z_def split: if_splits)
qed

subsection \<open>The stack of tables\<close>

text \<open>
  The sizes of the tables alone decide whether \<open>huft_build\<close> stays inside them. On level \<open>m\<close> the
  stack has a table for the codes that start with the \<open>m * l\<close> bits \<open>p\<close>. Either it has room for every
  further \<open>l\<close> bits, or no code that is still to come needs a table below it.
\<close>

definition level_ok :: "nat \<Rightarrow> (nat \<times> nat) list \<Rightarrow> nat list \<Rightarrow> nat \<Rightarrow> nat \<Rightarrow> nat \<Rightarrow> bool" where
  "level_ok l codes ls t p m \<longleftrightarrow> t < length ls \<and>
     (\<exists>J. ls ! t = 2 ^ J \<and> (l \<le> J \<or> (\<forall>(k, i) \<in> set codes. m * l + J < k \<longrightarrow> i mod 2 ^ (m * l) \<noteq> p)))"

abbreviation sizes :: "huft_state \<Rightarrow> nat list" where
  "sizes st \<equiv> map length (hs_tables st)"

definition stack_ok :: "huft_input \<Rightarrow> nat list \<Rightarrow> nat \<Rightarrow> huft_state \<Rightarrow> bool" where
  "stack_ok hi ks H st \<longleftrightarrow> hs_h st = int H - 1 \<and> hs_w st = (int H - 1) * int (hi_l hi) \<and>
     hs_i st < 2 ^ (H * hi_l hi) \<and> (\<forall>k \<in> set ks. H * hi_l hi < k + hi_l hi) \<and>
     ((\<exists>m. H = Suc m \<and> hs_q st = hs_u st m) \<or> (\<forall>k \<in> set ks. H * hi_l hi < k)) \<and>
     hs_x st 0 = 0 \<and> (\<forall>m < H. hs_x st m = hs_i st mod 2 ^ (m * hi_l hi) \<and>
        level_ok (hi_l hi) (codes_from ks (hs_i st)) (sizes st) (hs_u st m) (hs_x st m) m)"

lemma level_ok_append: "level_ok l codes ls t p m \<Longrightarrow> level_ok l codes (ls @ ls') t p m"
  unfolding level_ok_def by (auto simp: nth_append)

lemma level_ok_fewer: "level_ok l codes ls t p m \<Longrightarrow> set codes' \<subseteq> set codes \<Longrightarrow> level_ok l codes' ls t p m"
  unfolding level_ok_def by blast

text \<open>The codes from here on, as the loop sees them.\<close>

definition codes_ok :: "huft_input \<Rightarrow> nat list \<Rightarrow> nat \<Rightarrow> bool" where
  "codes_ok hi ks i \<longleftrightarrow> fits ks i \<and> (\<forall>k \<in> set ks. k \<le> hi_g hi) \<and>
     brev (hi_g hi) i + units (hi_g hi) ks \<le> 2 ^ hi_g hi"

definition input_ok :: "huft_input \<Rightarrow> bool" where
  "input_ok hi \<longleftrightarrow> 1 \<le> hi_l hi \<and> hi_l hi \<le> hi_g hi \<and> hi_g hi \<le> BMAX"

lemma codes_ok_next:
  assumes "codes_ok hi (k # ks) i"
  shows "codes_ok hi ks (increment_code k i)"
proof -
  have i: "i < 2 ^ k" "k \<le> hi_g hi" using assms by (auto simp: codes_ok_def fits_def)
  have "brev (hi_g hi) (increment_code k i) \<le> brev (hi_g hi) i + 2 ^ (hi_g hi - k)"
    unfolding brev_increment [OF i] by (rule mod_less_eq_dividend)
  with assms fits_next [of k ks i] show ?thesis by (auto simp: codes_ok_def)
qed

text \<open>A new table is such a table.\<close>

lemma new_level_ok:
  assumes "codes_ok hi (later_lengths hi k a) i" and "m * hi_l hi < k" "k \<le> hi_g hi"
  shows "level_ok (hi_l hi) (codes_from (later_lengths hi k a) i)
    (ls @ [2 ^ new_table_bits hi k a (m * hi_l hi)]) (length ls) (i mod 2 ^ (m * hi_l hi)) m"
proof -
  let ?g = "hi_g hi" and ?l = "hi_l hi" and ?c = "hi_c hi"
  let ?w = "m * ?l" and ?ks = "later_lengths hi k a"
  define J where "J = new_table_bits hi k a ?w"
  note cov = new_table_bits_covers [OF assms(2,3), of a, folded J_def]
  have differs: "j mod 2 ^ ?w \<noteq> i mod 2 ^ ?w"
    if nl: "\<not> ?l \<le> J" and kj: "(k', j) \<in> set (codes_from ?ks i)" "?w + J < k'" for k' j
  proof -
    have "k' \<in> set ?ks" using fits_code [of ?ks i k' j] assms(1) kj(1) by (simp add: codes_ok_def)
    then have g: "k' \<le> ?g" using assms(1) by (simp add: codes_ok_def)
    then have full: "2 ^ (?g - ?w) \<le> units ?g (tail_lengths ?c k (Suc a) (?w + J))" using cov(2) nl kj(2) by simp
    let ?ys = "tail_lengths ?c k (Suc a) (?w + J)"
      and ?zs = "concat (map (\<lambda>k. replicate (?c k) k) [Suc (?w + J)..<Suc ?g])"
    have split: "?ks = ?ys @ ?zs"
      using tail_lengths_split [of k "?w + J" ?g ?c "Suc a"] cov(1) assms(2) kj(2) g by (simp add: later_lengths_def)
    from assms(1) have ok: "fits (?ys @ ?zs) i" "\<forall>k \<in> set (?ys @ ?zs). k \<le> ?g" "brev ?g i + units ?g (?ys @ ?zs) \<le> 2 ^ ?g"
      unfolding codes_ok_def split by blast+
    have wg: "?w \<le> ?g" using assms(2,3) by simp
    have kJ: "k \<le> ?w + J" using cov(1) assms(2) by simp
    have notys: "k' \<notin> set ?ys" using tail_lengths_le [OF kJ, of k' ?c "Suc a"] kj(2) by linarith
    from kj(1) have "(k', j) \<in> set (codes_from ?ys i) \<or> (k', j) \<in> set (codes_from ?zs (fold increment_code ?ys i))"
      unfolding split codes_from_append by simp
    with fits_code [OF fits_appendD [OF ok(1)]] notys
    have "(k', j) \<in> set (codes_from ?zs (fold increment_code ?ys i))" by blast
    then show ?thesis by (rule later_start_differs [OF ok wg full])
  qed
  then have "?l \<le> J \<or> (\<forall>(k', j) \<in> set (codes_from ?ks i). ?w + J < k' \<longrightarrow> j mod 2 ^ ?w \<noteq> i mod 2 ^ ?w)"
    by blast
  then show ?thesis unfolding level_ok_def J_def [symmetric] by (intro conjI exI [of _ J]) simp_all
qed

text \<open>One more table: the entry that points to it is inside the table above.\<close>

lemma open_table_ok:
  assumes "stack_ok hi (later_lengths hi k a) H st" and "codes_ok hi (later_lengths hi k a) (hs_i st)"
    and "input_ok hi" and "H * hi_l hi < k" "k \<le> hi_g hi"
  obtains st' where "open_table hi k a st = Some st'" "stack_ok hi (later_lengths hi k a) (Suc H) st'"
    "hs_i st' = hs_i st" "hs_p st' = hs_p st"
proof -
  let ?l = "hi_l hi" and ?ks = "later_lengths hi k a" and ?i = "hs_i st"
  define w where "w = H * ?l"
  define J where "J = new_table_bits hi k a w"
  define ls where "ls = sizes st"
  have st: "hs_h st + 1 = int H" "hs_w st + int ?l = int w" 
    using assms(1) by (simp_all add: stack_ok_def w_def algebra_simps)
  have nat: "nat (int H) = H" "nat (int w) = w" by simp_all
  have i: "?i < 2 ^ w" using assms(1) by (simp add: stack_ok_def w_def)
  have old: "hs_x st m = ?i mod 2 ^ (m * ?l)"
    "level_ok ?l (codes_from ?ks ?i) (sizes st) (hs_u st m) (hs_x st m) m" if "m < H" for m
    using assms(1) that unfolding stack_ok_def by blast+
  have new: "level_ok ?l (codes_from ?ks ?i) (sizes st @ [2 ^ J]) (length (hs_tables st)) (?i mod 2 ^ w) H"
    using new_level_ok [OF assms(2,4,5), of "sizes st"] by (simp add: w_def J_def)
  have mono: "w < k' + ?l \<Longrightarrow> w + ?l < k' + ?l \<longleftrightarrow> w < k'" for k' by simp
  have wk: "w < k'" if "k' \<in> set ?ks" for k'
    using tail_lengths_sorted(2) [of k' "hi_c hi" k "Suc a" "hi_g hi"] that assms(4)
    by (simp add: later_lengths_def w_def)
  have i': "?i < 2 ^ (w + ?l)" using i by (rule less_le_trans) simp
  show ?thesis
  proof (cases H)
    case 0
    show ?thesis
    proof (rule that)
      show "open_table hi k a st = Some (st\<lparr>hs_h := int H, hs_w := int w, hs_tables := hs_tables st @ [replicate (2 ^ J) None],
                  hs_q := length (hs_tables st), hs_u := (hs_u st)(H := length (hs_tables st))\<rparr>)"
        unfolding open_table_def Let_def st nat J_def using 0 by simp
    qed (use 0 new wk i' assms(1) in \<open>auto simp: stack_ok_def w_def\<close>)
  next
    case (Suc H')
    let ?t = "hs_u st H'" and ?j = "drop_bit (w - ?l) ?i"
    have w': "w - ?l = H' * ?l" by (simp add: w_def Suc)
    have lev: "level_ok ?l (codes_from ?ks ?i) (sizes st) ?t (?i mod 2 ^ (H' * ?l)) H'" and t: "?t < length (hs_tables st)"
      using old [of H'] Suc by (auto simp: level_ok_def)
    from lev obtain K where K: "sizes st ! ?t = 2 ^ K"
      "?l \<le> K \<or> (\<forall>(k, i) \<in> set (codes_from ?ks ?i). H' * ?l + K < k \<longrightarrow> i mod 2 ^ (H' * ?l) \<noteq> ?i mod 2 ^ (H' * ?l))"
      unfolding level_ok_def by blast
    obtain ks' where ks': "?ks = k # ks'" by (simp add: later_lengths_def tail_lengths_def)
    have "?l \<le> K"
    proof (rule ccontr)
      assume "\<not> ?l \<le> K"
      moreover have "H' * ?l + ?l < k" using assms(4) Suc by simp
      ultimately show False using K(2) by (auto simp: ks')
    qed
    have "?i < 2 ^ (H' * ?l) * 2 ^ ?l" using i by (simp add: w_def Suc power_add mult.commute)
    then have "?j < 2 ^ ?l" by (simp add: w' drop_bit_eq_div less_mult_imp_div_less mult.commute)
    also have "2 ^ ?l \<le> (2 :: nat) ^ K" using \<open>?l \<le> K\<close> by simp
    finally have j: "?j < length (hs_tables st ! ?t)" using K(1) t by simp
    have HB: "H < BMAX"
    proof -
      have "H * 1 \<le> H * ?l" using assms(3) by (intro mult_le_mono2) (simp add: input_ok_def)
      also note assms(4)
      also note assms(5)
      also have "hi_g hi \<le> BMAX" using assms(3) by (simp add: input_ok_def)
      finally show ?thesis by simp
    qed
    let ?r = "\<lparr>h_e = 16 + J, h_b = ?l, h_v = Tab (length (hs_tables st))\<rparr>"
    let ?ts = "hs_tables st @ [replicate (2 ^ J) None]"
    let ?st = "st\<lparr>hs_h := int H, hs_w := int w, hs_tables := ?ts[?t := (?ts ! ?t)[?j := Some ?r]],
      hs_q := length (hs_tables st), hs_u := (hs_u st)(H := length (hs_tables st)),
      hs_x := (hs_x st)(H := ?i), hs_r := ?r\<rparr>"
    have sz: "sizes ?st = sizes st @ [2 ^ J]" using t by (simp add: map_update nth_append list_update_append list_update_same_conv)
    show ?thesis
    proof (rule that)
      have "nat (int H - 1) = H'" using Suc by simp
      then show "open_table hi k a st = Some ?st"
        unfolding open_table_def Let_def st nat J_def using Suc HB t j by (simp add: set_entry_def nth_append)
      show "stack_ok hi ?ks (Suc H) ?st"
        unfolding stack_ok_def sz
        using old new wk i' i level_ok_append assms(1) by (auto simp: w_def less_Suc_eq stack_ok_def add.commute)
    qed simp_all
  qed
qed

lemma open_tables_ok:
  assumes "stack_ok hi (later_lengths hi k a) H st" and "codes_ok hi (later_lengths hi k a) (hs_i st)"
    and "input_ok hi" and "k \<le> hi_g hi"
  obtains st' m where "open_tables hi k a st = Some st'" "stack_ok hi (later_lengths hi k a) (Suc m) st'"
    "hs_i st' = hs_i st" "hs_p st' = hs_p st" "k \<le> Suc m * hi_l hi" "m * hi_l hi < k" "hs_q st' = hs_u st' m"
  using assms
proof (induction "k - H * hi_l hi" arbitrary: H st thesis rule: less_induct)
  case less
  have kin: "k \<in> set (later_lengths hi k a)" by (simp add: later_lengths_def tail_lengths_def)
  have w: "hs_w st + int (hi_l hi) = int (H * hi_l hi)"
    using less.prems(2) by (simp add: stack_ok_def algebra_simps)
  show ?case
  proof (cases "H * hi_l hi < k")
    case True
    from open_table_ok [OF less.prems(2-4) True less.prems(5)] obtain st' where
      st': "open_table hi k a st = Some st'" "stack_ok hi (later_lengths hi k a) (Suc H) st'"
      "hs_i st' = hs_i st" "hs_p st' = hs_p st" by blast
    have "0 < hi_l hi" using less.prems(4) by (simp add: input_ok_def)
    then have "k - Suc H * hi_l hi < k - H * hi_l hi" using True by simp
    from less.hyps [OF this _ st'(2) _ less.prems(4,5)] less.prems(3) st' obtain st'' m where
      "open_tables hi k a st' = Some st''" "stack_ok hi (later_lengths hi k a) (Suc m) st''"
      "hs_i st'' = hs_i st" "hs_p st'' = hs_p st" "k \<le> Suc m * hi_l hi" "m * hi_l hi < k" "hs_q st'' = hs_u st'' m"
      by metis
    moreover have "hs_w st + int (hi_l hi) < int k" using True w by linarith
    ultimately show ?thesis using st'(1) less.prems(1) [of st'' m] by (simp add: open_tables.simps [of hi k a st])
  next
    case False
    then obtain m where m: "H = Suc m" "hs_q st = hs_u st m" using less.prems(2) kin by (auto simp: stack_ok_def)
    have "H * hi_l hi < k + hi_l hi" using less.prems(2) kin by (simp add: stack_ok_def)
    then have "m * hi_l hi < k" using m by simp
    moreover have "\<not> hs_w st + int (hi_l hi) < int k" using False w by linarith
    then have "open_tables hi k a st = Some st" by (simp add: open_tables.simps [of hi k a st])
    ultimately show ?thesis using less.prems(1,2) m False by (simp add: not_less)
  qed
qed

subsection \<open>Filling a table\<close>

lemma length_fill_entries [simp]: "length (fill_entries j f r q) = length q"
  by (induction j f r q rule: fill_entries.induct) (simp add: fill_entries.simps)

lemma nth_fill_entries:
  "0 < f \<Longrightarrow> n < length q \<Longrightarrow>
    fill_entries j f r q ! n = (if j \<le> n \<and> n mod f = j mod f then Some r else q ! n)"
proof (induction j f r q rule: fill_entries.induct)
  case (1 j f r q)
  show ?case
  proof (cases "j < length q")
    case True
    have "fill_entries j f r q ! n
        = (if j + f \<le> n \<and> n mod f = j mod f then Some r else q[j := Some r] ! n)"
      using 1 True by (simp add: fill_entries.simps [of j])
    moreover have "j + f \<le> n" if "j \<le> n" "n mod f = j mod f" "n \<noteq> j"
    proof -
      from that obtain d where d: "n = j + f * d" by (metis mod_eq_nat2E)
      then have "0 < d" using that(3) by (cases d) auto
      then have "f * 1 \<le> f * d" by (intro mult_le_mono2) simp
      then show ?thesis using d by simp
    qed
    ultimately show ?thesis using 1(3) True by (auto simp: nth_list_update)
  qed (use 1 in \<open>simp add: fill_entries.simps [of j]\<close>)
qed

text \<open>The entry of a symbol: the number of extra bits and the base, or the symbol itself.\<close>

definition symbol_entry :: "huft_input \<Rightarrow> nat \<Rightarrow> nat \<times> huft_val" where
  "symbol_entry hi v =
     (if v < hi_s hi then (if v < 256 then 16 else 15, Num v)
      else (hi_e hi ! (v - hi_s hi), Num (hi_d hi ! (v - hi_s hi))))"

definition values_ok :: "huft_input \<Rightarrow> nat \<Rightarrow> bool" where
  "values_ok hi N \<longleftrightarrow> (\<forall>p < N. \<exists>v. hi_v hi p = Some v \<and>
     (v < hi_s hi \<or> v - hi_s hi < length (hi_e hi) \<and> v - hi_s hi < length (hi_d hi)))"

lemma next_entry_ok:
  assumes "values_ok hi N" and "hs_p st < hi_n hi \<longrightarrow> hs_p st < N"
  obtains r where
    "next_entry hi k st = Some (st\<lparr>hs_r := r, hs_p := (if hs_p st < hi_n hi then Suc (hs_p st) else hs_p st)\<rparr>)"
    "h_b r = k - nat (hs_w st)"
    "hs_p st < hi_n hi \<longrightarrow> (h_e r, h_v r) = symbol_entry hi (the (hi_v hi (hs_p st)))"
proof (cases "hs_p st < hi_n hi")
  case True
  then obtain v where "hi_v hi (hs_p st) = Some v"
    "v < hi_s hi \<or> v - hi_s hi < length (hi_e hi) \<and> v - hi_s hi < length (hi_d hi)"
    using assms by (auto simp: values_ok_def)
  with True show ?thesis
    by (intro that [of "(hs_r st)\<lparr>h_b := k - nat (hs_w st), h_e := fst (symbol_entry hi v), h_v := snd (symbol_entry hi v)\<rparr>"])
      (auto simp: next_entry_def Let_def symbol_entry_def)
next
  case False
  then show ?thesis
    by (intro that [of "(hs_r st)\<lparr>h_b := k - nat (hs_w st), h_e := 99\<rparr>"]) (simp_all add: next_entry_def Let_def)
qed

subsection \<open>Placing a code\<close>

lemma and_low: "i AND (2 ^ n - Suc 0) = i mod 2 ^ n"
  using take_bit_eq_mask [of n i] by (simp add: take_bit_eq_mod mask_eq_exp_minus_1)

lemma back_up_nat:
  "back_up x l i (int n) (int (n * l)) = (if x n = i mod 2 ^ (n * l) then Some (int n, int (n * l))
    else back_up x l i (int n - 1) (int (n * l) - int l))"
proof -
  have "nat (int (n * l)) = n * l" by (rule nat_int)
  then show ?thesis unfolding back_up.simps [of x l i "int n"] by (simp add: and_low eq_commute del: of_nat_mult)
qed

text \<open>The way back to the table whose start the next code has.\<close>

lemma back_up_ok:
  assumes "x 0 = 0"
  obtains m' where "back_up x l i (int m) (int (m * l)) = Some (int m', int (m' * l))" "m' \<le> m"
    "x m' = i mod 2 ^ (m' * l)" "m' < m \<Longrightarrow> x (Suc m') \<noteq> i mod 2 ^ (Suc m' * l)"
proof (induction m arbitrary: thesis)
  case 0
  show ?case by (rule 0 [of 0]) (simp_all add: back_up.simps assms)
next
  case (Suc m)
  show ?case
  proof (cases "x (Suc m) = i mod 2 ^ (Suc m * l)")
    case True
    then show ?thesis by (intro Suc.prems [of "Suc m"]) (simp_all add: back_up_nat del: of_nat_mult of_nat_Suc mult_Suc)
  next
    case False
    from Suc.IH obtain m' where m': "back_up x l i (int m) (int (m * l)) = Some (int m', int (m' * l))" "m' \<le> m"
      "x m' = i mod 2 ^ (m' * l)" "m' < m \<Longrightarrow> x (Suc m') \<noteq> i mod 2 ^ (Suc m' * l)" by blast
    have "int (Suc m) - 1 = int m" "int (Suc m * l) - int l = int (m * l)" by simp_all
    then have "back_up x l i (int (Suc m)) (int (Suc m * l)) = Some (int m', int (m' * l))"
      unfolding back_up_nat if_not_P [OF False] by (simp only: m'(1))
    with m' False show ?thesis
      by (intro Suc.prems [of m']) (auto simp: le_less less_Suc_eq)
  qed
qed

text \<open>The state of the loop between two codes, with \<open>N\<close> values in the table of values.\<close>

definition loop_ok :: "huft_input \<Rightarrow> nat \<Rightarrow> nat list \<Rightarrow> nat \<Rightarrow> huft_state \<Rightarrow> bool" where
  "loop_ok hi N ks H st \<longleftrightarrow> stack_ok hi ks H st \<and> codes_ok hi ks (hs_i st) \<and> input_ok hi \<and> values_ok hi N \<and>
     (hs_p st + length ks \<le> N \<or> hi_n hi \<le> N)"

lemma later_lengths_Cons: "later_lengths hi k a = k # tail_lengths (hi_c hi) k a (hi_g hi)"
  by (simp add: later_lengths_def tail_lengths_def)

lemma place_code_ok:
  assumes "loop_ok hi N (later_lengths hi k a) H st"
  defines "ks \<equiv> tail_lengths (hi_c hi) k a (hi_g hi)" and "i' \<equiv> increment_code k (hs_i st)"
  obtains st1 m r m' where
    "open_tables hi k a st = Some st1" "stack_ok hi (later_lengths hi k a) (Suc m) st1"
    "hs_i st1 = hs_i st" "hs_p st1 = hs_p st" "k \<le> Suc m * hi_l hi" "m * hi_l hi < k" "hs_q st1 = hs_u st1 m"
    "h_b r = k - m * hi_l hi"
    "hs_p st < hi_n hi \<longrightarrow> (h_e r, h_v r) = symbol_entry hi (the (hi_v hi (hs_p st)))"
    "place_code hi (k, a) st = Some (st1\<lparr>hs_r := r, hs_p := (if hs_p st < hi_n hi then Suc (hs_p st) else hs_p st),
        hs_tables := (hs_tables st1)[hs_u st1 m := fill_entries (hs_i st div 2 ^ (m * hi_l hi)) (2 ^ (k - m * hi_l hi)) r
          (hs_tables st1 ! hs_u st1 m)], hs_i := i', hs_h := int m', hs_w := int (m' * hi_l hi)\<rparr>)"
    "m' \<le> m" "hs_x st1 m' = i' mod 2 ^ (m' * hi_l hi)"
    "m' < m \<Longrightarrow> hs_x st1 (Suc m') \<noteq> i' mod 2 ^ (Suc m' * hi_l hi)"
proof -
  let ?l = "hi_l hi"
  have ok: "stack_ok hi (later_lengths hi k a) H st" "codes_ok hi (later_lengths hi k a) (hs_i st)"
    "input_ok hi" "k \<le> hi_g hi" "values_ok hi N" "hs_p st < hi_n hi \<longrightarrow> hs_p st < N"
    using assms(1) by (auto simp: loop_ok_def codes_ok_def later_lengths_Cons)
  from open_tables_ok [OF ok(1-4)] obtain st1 m where
    o: "open_tables hi k a st = Some st1" "stack_ok hi (later_lengths hi k a) (Suc m) st1"
      "hs_i st1 = hs_i st" "hs_p st1 = hs_p st" "k \<le> Suc m * ?l" "m * ?l < k" "hs_q st1 = hs_u st1 m" by blast
  have w: "hs_w st1 = int (m * ?l)" "hs_h st1 = int m" "hs_x st1 0 = 0" "hs_u st1 m < length (hs_tables st1)"
    using o(2) by (auto simp: stack_ok_def level_ok_def)
  have p: "hs_p st1 < hi_n hi \<longrightarrow> hs_p st1 < N" using ok(6) o(4) by simp
  obtain r where "next_entry hi k st1 = Some (st1\<lparr>hs_r := r, hs_p := (if hs_p st1 < hi_n hi then Suc (hs_p st1) else hs_p st1)\<rparr>)"
    "h_b r = k - nat (hs_w st1)" "hs_p st1 < hi_n hi \<longrightarrow> (h_e r, h_v r) = symbol_entry hi (the (hi_v hi (hs_p st1)))"
    by (rule next_entry_ok [OF ok(5) p, of k])
  note r = this [unfolded o(4) w(1) nat_int]
  from back_up_ok [of "hs_x st1" ?l i' m, OF w(3)] obtain m' where
    b: "back_up (hs_x st1) ?l i' (int m) (int (m * ?l)) = Some (int m', int (m' * ?l))" "m' \<le> m"
      "hs_x st1 m' = i' mod 2 ^ (m' * ?l)" "m' < m \<Longrightarrow> hs_x st1 (Suc m') \<noteq> i' mod 2 ^ (Suc m' * ?l)" by blast
  show ?thesis
  proof (rule that [OF o r(2,3) _ b(2-4)])
    show "place_code hi (k, a) st = Some (st1\<lparr>hs_r := r, hs_p := (if hs_p st < hi_n hi then Suc (hs_p st) else hs_p st),
        hs_tables := (hs_tables st1)[hs_u st1 m := fill_entries (hs_i st div 2 ^ (m * ?l)) (2 ^ (k - m * ?l)) r
          (hs_tables st1 ! hs_u st1 m)], hs_i := i', hs_h := int m', hs_w := int (m' * ?l)\<rparr>)"
      using o w r(1) b(1) by (simp add: place_code_def i'_def drop_bit_eq_div Let_def del: of_nat_mult)
  qed
qed

lemma mod_power_le: "m \<le> n \<Longrightarrow> i mod 2 ^ n mod 2 ^ m = i mod (2 ^ m :: nat)"
  by (rule mod_mod_cancel) (rule le_imp_power_dvd)

text \<open>After the code at hand, the state is again one between codes.\<close>

lemma loop_ok_next:
  assumes inv: "loop_ok hi N (later_lengths hi k a) H st"
    and "stack_ok hi (later_lengths hi k a) (Suc m) st1" "hs_i st1 = hs_i st" "hs_p st1 = hs_p st"
    and "k \<le> Suc m * hi_l hi" "m * hi_l hi < k" "hs_q st1 = hs_u st1 m" "m' \<le> m"
    and "hs_x st1 m' = i' mod 2 ^ (m' * hi_l hi)"
    and "m' < m \<Longrightarrow> hs_x st1 (Suc m') \<noteq> i' mod 2 ^ (Suc m' * hi_l hi)"
    and i': "i' = increment_code k (hs_i st)"
    and st': "st' = st1\<lparr>hs_r := r, hs_p := (if hs_p st < hi_n hi then Suc (hs_p st) else hs_p st),
      hs_tables := (hs_tables st1)[hs_u st1 m := fill_entries j f r (hs_tables st1 ! hs_u st1 m)], hs_i := i',
      hs_h := int m', hs_w := int (m' * hi_l hi)\<rparr>"
  shows "loop_ok hi N (tail_lengths (hi_c hi) k a (hi_g hi)) (Suc m') st'"
proof -
  let ?l = "hi_l hi" and ?ks = "tail_lengths (hi_c hi) k a (hi_g hi)" and ?i = "hs_i st"
  have ks: "later_lengths hi k a = k # ?ks" by (rule later_lengths_Cons)
  have codes: "codes_ok hi (k # ?ks) ?i" using inv by (simp add: loop_ok_def ks)
  have i: "?i < 2 ^ k" "\<And>k'. k' \<in> set ?ks \<Longrightarrow> k \<le> k'" using codes by (auto simp: codes_ok_def fits_def)
  have lev: "hs_x st1 n = ?i mod 2 ^ (n * ?l)" "level_ok ?l (codes_from (k # ?ks) ?i) (sizes st1) (hs_u st1 n) (hs_x st1 n) n"
    if "n \<le> m" for n
    using assms(2,3) that unfolding stack_ok_def ks by (auto simp: less_Suc_eq_le)
  have small: "i' < 2 ^ (Suc m' * ?l)"
  proof (cases "m' = m")
    case True
    have "i' < 2 ^ k" unfolding i' using i(1) by (rule increment_code_less)
    also have "(2 :: nat) ^ k \<le> 2 ^ (Suc m' * ?l)" using assms(5) True by (intro power_increasing) simp_all
    finally show ?thesis .
  next
    case False
    then have lt: "Suc m' \<le> m" using assms(8) by simp
    then have "Suc m' * ?l \<le> m * ?l" by (rule mult_le_mono1)
    with assms(6) have "Suc m' * ?l \<le> k" by simp
    from increment_code_carry [OF i(1) this] show ?thesis using assms(10) lev(1) [OF lt] lt i' by auto
  qed
  have le: "m' * ?l \<le> m * ?l" using assms(8) by (rule mult_le_mono1)
  have q: "hs_q st1 = hs_u st1 m' \<and> m' = m \<or> (\<forall>k' \<in> set ?ks. Suc m' * ?l < k')"
  proof (cases "m' = m")
    case False
    then have "Suc m' * ?l \<le> m * ?l" using assms(8) by (intro mult_le_mono1) simp
    with assms(6) i(2) show ?thesis by fastforce
  qed (use assms(7) in simp)
  have "hs_u st1 m < length (hs_tables st1)" using lev(2) [of m] by (simp add: level_ok_def)
  then have sz: "sizes st' = sizes st1" by (simp add: st' map_update list_update_same_conv)
  have x: "hs_x st1 n = i' mod 2 ^ (n * ?l)" if "n \<le> m'" for n
  proof -
    have n: "n * ?l \<le> m' * ?l" using that by (rule mult_le_mono1)
    have "hs_x st1 n = hs_x st1 m' mod 2 ^ (n * ?l)"
      using lev(1) [of n] lev(1) [of m'] that assms(8) mod_power_le [OF n] by simp
    also have "\<dots> = i' mod 2 ^ (n * ?l)" using assms(9) mod_power_le [OF n] by simp
    finally show ?thesis .
  qed
  have "stack_ok hi ?ks (Suc m') st'"
    unfolding stack_ok_def sz
  proof (intro conjI allI ballI impI)
    show "hs_h st' = int (Suc m') - 1" "hs_w st' = (int (Suc m') - 1) * int ?l" by (simp_all add: st')
    show "hs_i st' < 2 ^ (Suc m' * ?l)" using small by (simp add: st')
    show "Suc m' * ?l < k' + ?l" if "k' \<in> set ?ks" for k' using le_less_trans [OF le assms(6)] i(2) [OF that] by simp
    show "(\<exists>n. Suc m' = Suc n \<and> hs_q st' = hs_u st' n) \<or> (\<forall>k' \<in> set ?ks. Suc m' * ?l < k')"
      using q by (auto simp: st')
    show "hs_x st' 0 = 0" using assms(2) by (simp add: st' stack_ok_def)
    fix n assume "n < Suc m'"
    then have n: "n \<le> m'" "n \<le> m" using assms(8) by simp_all
    show "hs_x st' n = hs_i st' mod 2 ^ (n * ?l)" using x [OF n(1)] by (simp add: st')
    have "set (codes_from ?ks i') \<subseteq> set (codes_from (k # ?ks) ?i)" by (auto simp: i')
    from level_ok_fewer [OF lev(2) [OF n(2)] this]
    show "level_ok ?l (codes_from ?ks (hs_i st')) (sizes st1) (hs_u st' n) (hs_x st' n) n" by (simp add: st')
  qed
  moreover have "codes_ok hi ?ks (hs_i st')" using codes_ok_next [OF codes] by (simp add: st' i')
  ultimately show ?thesis using inv by (auto simp: loop_ok_def ks st')
qed

lemma place_codes_total:
  assumes "map fst xs = ks" "\<exists>k a. xs = order_tail (hi_c hi) k a (hi_g hi) \<and> k \<le> hi_g hi" "loop_ok hi N ks H st"
  shows "\<exists>st'. for_each (place_code hi) xs st = Some st'"
  using assms
proof (induction xs arbitrary: ks H st)
  case (Cons x xs)
  then obtain k0 a0 where "order_tail (hi_c hi) k0 a0 (hi_g hi) = x # xs" "k0 \<le> hi_g hi" by metis
  from order_tail_Cons [OF this] obtain k a where
    x: "x = (k, a)" "k \<le> hi_g hi" "xs = order_tail (hi_c hi) k a (hi_g hi)" by blast
  have ks: "ks = later_lengths hi k a" using Cons.prems(1) x by (simp add: later_lengths_Cons order_tail_lengths)
  note inv = Cons.prems(3) [unfolded ks]
  show ?case
  proof (rule place_code_ok [OF inv], goal_cases)
    case (1 st1 m r m')
    let ?st' = "the (place_code hi (k, a) st)"
    from 1(10) have "?st' = st1\<lparr>hs_r := r, hs_p := (if hs_p st < hi_n hi then Suc (hs_p st) else hs_p st),
        hs_tables := (hs_tables st1)[hs_u st1 m := fill_entries (hs_i st div 2 ^ (m * hi_l hi)) (2 ^ (k - m * hi_l hi)) r
          (hs_tables st1 ! hs_u st1 m)], hs_i := increment_code k (hs_i st), hs_h := int m', hs_w := int (m' * hi_l hi)\<rparr>"
      by (simp only: option.sel)
    note next_ok = loop_ok_next [OF inv 1(2-7) 1(11-13) refl this]
    have "map fst xs = tail_lengths (hi_c hi) k a (hi_g hi)" using x(3) by (simp add: order_tail_lengths)
    from Cons.IH [OF this _ next_ok] x(2,3) have "\<exists>st''. for_each (place_code hi) xs ?st' = Some st''" by blast
    then show ?case unfolding x(1) for_each.simps 1(10) by simp
  qed
qed simp

end
