(* ===== verification/Huft_Decode.thy ===== *)
theory Huft_Decode
  imports Huft_Tables
begin

text \<open>
  What the tables of \<open>huft_build\<close> decode: walking from the first table along the links, every code placed
  so far is found, because no entry of a code or a link is ever written again.
\<close>

subsection \<open>Entries\<close>

lemma table_entry_append: "t < length ts \<Longrightarrow> table_entry (ts @ ts') t n = table_entry ts t n"
  by (simp add: table_entry_def nth_append)

lemma table_entry_update:
  "table_entry (ts[t := q]) t' n
    = (if t' = t \<and> t < length ts then (if n < length q then q ! n else None) else table_entry ts t' n)"
  by (cases "t' = t") (auto simp: table_entry_def nth_list_update)

lemma table_entry_Some: "table_entry ts t n = Some r \<Longrightarrow> t < length ts"
  by (simp add: table_entry_def split: if_splits)

text \<open>
  A code is looked up \<open>l\<close> bits at a time: after \<open>m\<close> links it has led to a table that is indexed by
  \<open>n\<close> bits. The first table is indexed by \<open>l\<close> bits, and so is every table that has links.
\<close>

inductive walks :: "decoder \<Rightarrow> nat \<Rightarrow> nat \<Rightarrow> nat \<Rightarrow> nat \<Rightarrow> nat \<Rightarrow> bool" for ts :: decoder and l i :: nat where
  root: "walks ts l i 0 0 l"
| link: "walks ts l i m t l \<Longrightarrow> n \<le> l \<Longrightarrow>
    table_entry ts t (i div 2 ^ (m * l) mod 2 ^ l) = Some \<lparr>h_e = 16 + n, h_b = l, h_v = Tab t'\<rparr> \<Longrightarrow>
    walks ts l i (Suc m) t' n"

inductive_cases walks_0E: "walks ts l i 0 t n"
inductive_cases walks_SucE: "walks ts l i (Suc m) t n"

lemma walks_bits: "walks ts l i m t n \<Longrightarrow> n \<le> l"
  by (induction rule: walks.induct) simp_all

lemma walks_det: "walks ts l i m t n \<Longrightarrow> walks ts l i m t' n' \<Longrightarrow> t' = t \<and> n' = n"
proof (induction arbitrary: t' n' rule: walks.induct)
  case (link m t n t'')
  from link.prems show ?case
    by (rule walks_SucE) (use link in auto)
qed (auto elim: walks_0E)

lemma div_mod_start: "i div 2 ^ a mod 2 ^ b = i mod 2 ^ (a + b) div (2 ^ a :: nat)"
  by (simp add: div_exp_mod_exp_eq)

lemma walks_start: "walks ts l i m t n \<Longrightarrow> i mod 2 ^ (m * l) = j mod 2 ^ (m * l) \<Longrightarrow> walks ts l j m t n"
proof (induction rule: walks.induct)
  case (link m t n t')
  have "i mod 2 ^ (m * l) = j mod 2 ^ (m * l)"
    using link.prems mod_power_le [of "m * l" "Suc m * l"] by (metis le_add2 mult_Suc)
  moreover have "i div 2 ^ (m * l) mod 2 ^ l = j div 2 ^ (m * l) mod 2 ^ l"
    using link.prems by (simp add: div_mod_start add.commute)
  ultimately show ?case using link.IH link.hyps by (auto intro: walks.link)
qed (rule walks.root)

lemma walks_cong:
  "walks ts l i m t n \<Longrightarrow>
    (\<And>m' t. m' < m \<Longrightarrow> walks ts l i m' t l \<Longrightarrow>
      table_entry ts' t (i div 2 ^ (m' * l) mod 2 ^ l) = table_entry ts t (i div 2 ^ (m' * l) mod 2 ^ l)) \<Longrightarrow>
    walks ts' l i m t n"
proof (induction rule: walks.induct)
  case (link m t n t')
  then show ?case by (auto intro!: walks.link)
qed (rule walks.root)

text \<open>Every input that starts with the code \<open>i\<close> of length \<open>k\<close> ends at the entry \<open>ev\<close>.\<close>

definition decodes :: "decoder \<Rightarrow> nat \<Rightarrow> nat \<Rightarrow> nat \<Rightarrow> nat \<times> huft_val \<Rightarrow> bool" where
  "decodes ts l k i ev \<longleftrightarrow> (\<exists>m t n. walks ts l i m t n \<and> m * l < k \<and> k \<le> m * l + n \<and>
     (\<forall>B. B mod 2 ^ (k - m * l) = i div 2 ^ (m * l) \<longrightarrow>
       table_entry ts t (B mod 2 ^ n) = Some \<lparr>h_e = fst ev, h_b = k - m * l, h_v = snd ev\<rparr>))"

text \<open>The codes placed so far come before the one at hand, so it does not start with any of them.\<close>

definition before :: "nat \<Rightarrow> (nat \<times> nat \<times> nat \<times> huft_val) list \<Rightarrow> nat \<Rightarrow> bool" where
  "before g es i \<longleftrightarrow> (\<forall>(k', i', ev) \<in> set es. k' \<le> g \<and> i' < 2 ^ k' \<and> brev g i' + 2 ^ (g - k') \<le> brev g i)"

lemma before_differs:
  assumes "before g es i" "(k', i', ev) \<in> set es"
  shows "i mod 2 ^ k' \<noteq> i'"
proof
  assume eq: "i mod 2 ^ k' = i'"
  have e: "k' \<le> g" "i' < 2 ^ k'" "brev g i' + 2 ^ (g - k') \<le> brev g i" using assms by (auto simp: before_def)
  then have "(brev g i' + 2 ^ (g - k')) div 2 ^ (g - k') \<le> brev g i div 2 ^ (g - k')" by (intro div_le_mono)
  moreover have "(brev g i' + 2 ^ (g - k')) div 2 ^ (g - k') = brev g i' div 2 ^ (g - k') + 1"
    by (rule div_add_self2) simp
  moreover have "brev g i' div 2 ^ (g - k') = brev g i div 2 ^ (g - k')"
    using brev_prefix [OF e(1)] eq e(2) by simp
  ultimately show False by simp
qed

text \<open>Starts of codes come in order and never come back.\<close>

lemma start_passed:
  assumes "brev g i' \<le> brev g i" "brev g i \<le> brev g j" "l \<le> g" "j mod 2 ^ l \<noteq> i mod 2 ^ l"
  shows "i' mod 2 ^ l \<noteq> j mod 2 ^ l"
proof
  assume eq: "i' mod 2 ^ l = j mod 2 ^ l"
  note p = brev_prefix [OF assms(3), symmetric]
  have "brev l (i' mod 2 ^ l) \<le> brev l (i mod 2 ^ l)" unfolding p by (rule div_le_mono [OF assms(1)])
  moreover have "brev l (i mod 2 ^ l) \<le> brev l (j mod 2 ^ l)" unfolding p by (rule div_le_mono [OF assms(2)])
  ultimately have "brev l (i mod 2 ^ l) = brev l (j mod 2 ^ l)" unfolding eq by (intro le_antisym)
  then have "i mod 2 ^ l = j mod 2 ^ l" by (rule brev_inj [rotated 2]) simp_all
  with assms(4) show False by simp
qed

subsection \<open>The tree of tables\<close>

type_synonym placed = "(nat \<times> nat \<times> nat \<times> huft_val) list"

abbreviation all_decode :: "decoder \<Rightarrow> nat \<Rightarrow> placed \<Rightarrow> bool" where
  "all_decode ts l es \<equiv> \<forall>(k, i, ev) \<in> set es. decodes ts l k i ev"

text \<open>The codes and levels whose tables are in use: those of the codes placed, and the stack.\<close>

definition used :: "nat \<Rightarrow> placed \<Rightarrow> nat \<Rightarrow> nat \<Rightarrow> (nat \<times> nat) set" where
  "used l es i H = {(i', m'). \<exists>k' ev. (k', i', ev) \<in> set es \<and> m' * l < k'} \<union> {(i', m'). i' = i \<and> m' < H}"

text \<open>They lead to tables, and only equal starts lead to the same table.\<close>

definition tree_ok :: "decoder \<Rightarrow> nat \<Rightarrow> (nat \<times> nat) set \<Rightarrow> bool" where
  "tree_ok ts l U \<longleftrightarrow> (\<forall>(i, m) \<in> U. \<exists>t n. walks ts l i m t n \<and> t < length ts) \<and>
     (\<forall>(i, m) \<in> U. \<forall>(i', m') \<in> U. \<forall>t n n'. walks ts l i m t n \<longrightarrow> walks ts l i' m' t n' \<longrightarrow>
        m = m' \<and> i mod 2 ^ (m * l) = i' mod 2 ^ (m * l))"

lemma tree_okD:
  assumes "tree_ok ts l U" "(i, m) \<in> U"
  shows "\<exists>t n. walks ts l i m t n \<and> t < length ts"
    and "(i', m') \<in> U \<Longrightarrow> walks ts l i m t n \<Longrightarrow> walks ts l i' m' t n' \<Longrightarrow>
      m = m' \<and> i mod 2 ^ (m * l) = i' mod 2 ^ (m * l)"
  using assms unfolding tree_ok_def by blast+

text \<open>Tables can be added and written to as long as the walks in use stay what they are.\<close>

lemma tree_ok_change:
  assumes "tree_ok ts l U" "length ts \<le> length ts'"
    and "\<And>i m t n. (i, m) \<in> U \<Longrightarrow> walks ts l i m t n \<Longrightarrow> walks ts' l i m t n"
  shows "tree_ok ts' l U"
  unfolding tree_ok_def
proof (intro conjI ballI, clarsimp, goal_cases)
  case (1 i m)
  from tree_okD(1) [OF assms(1) 1] assms(2,3) 1 show ?case by (meson less_le_trans)
next
  case (2 x)
  show ?case
  proof (clarsimp split: prod.splits, goal_cases)
    case (1 i m i' m' t n n')
    from 2 1 have u: "(i, m) \<in> U" "(i', m') \<in> U" by simp_all
    from tree_okD(1) [OF assms(1) u(1)] tree_okD(1) [OF assms(1) u(2)] obtain t0 n0 t1 n1 where
      w: "walks ts l i m t0 n0" "walks ts l i' m' t1 n1" by blast
    have "t0 = t" "t1 = t" using walks_det assms(3) [OF u(1) w(1)] assms(3) [OF u(2) w(2)] 1 by blast+
    with tree_okD(2) [OF assms(1) u, of t n0 n1] w show ?case by metis
  qed
qed

text \<open>A code with the same start can stand for one in use.\<close>

lemma tree_ok_start:
  assumes "tree_ok ts l U" and "\<And>i m. (i, m) \<in> U' \<Longrightarrow> \<exists>j. (j, m) \<in> U \<and> j mod 2 ^ (m * l) = i mod 2 ^ (m * l)"
  shows "tree_ok ts l U'"
  unfolding tree_ok_def
proof (intro conjI ballI, clarsimp, goal_cases)
  case (1 i m)
  from assms(2) [OF 1] obtain j where "(j, m) \<in> U" "j mod 2 ^ (m * l) = i mod 2 ^ (m * l)" by blast
  with tree_okD(1) [OF assms(1)] walks_start show ?case by meson
next
  case (2 x)
  show ?case
  proof (clarsimp split: prod.splits, goal_cases)
    case (1 i m i' m' t n n')
    from assms(2) 2 1 obtain j j' where j: "(j, m) \<in> U" "j mod 2 ^ (m * l) = i mod 2 ^ (m * l)"
      "(j', m') \<in> U" "j' mod 2 ^ (m' * l) = i' mod 2 ^ (m' * l)" by (metis (no_types))
    have "walks ts l j m t n" "walks ts l j' m' t n'" using 1 j by (auto intro: walks_start)
    from tree_okD(2) [OF assms(1) j(1,3) this] j show ?case by metis
  qed
qed

lemma code_split:
  assumes "i mod 2 ^ w = i' mod 2 ^ w" "i div 2 ^ w mod 2 ^ (k - w) = i' div 2 ^ w mod 2 ^ (k - w)" "w \<le> k"
  shows "i mod 2 ^ k = i' mod (2 ^ k :: nat)"
  using mod_mult2_eq [of i "2 ^ w" "2 ^ (k - w)"] mod_mult2_eq [of i' "2 ^ w" "2 ^ (k - w)"] assms
  by (simp flip: power_add)

text \<open>An input below a table cannot go on both with a code placed there and with the one at hand.\<close>

lemma not_both:
  assumes "before g es i" "(k', i', ev) \<in> set es" "i' mod 2 ^ w = i mod 2 ^ w" "w < k'" "k' \<le> k"
    and "B mod 2 ^ (k' - w) = i' div 2 ^ w"
  shows "B mod 2 ^ (k - w) \<noteq> i div 2 ^ w mod 2 ^ (k - w)"
proof
  assume "B mod 2 ^ (k - w) = i div 2 ^ w mod 2 ^ (k - w)"
  then have "B mod 2 ^ (k' - w) = i div 2 ^ w mod 2 ^ (k' - w)"
    using mod_power_le [of "k' - w" "k - w"] assms(5) by (metis diff_le_mono)
  moreover have "i' div 2 ^ w mod 2 ^ (k' - w) = i' div 2 ^ w" unfolding assms(6) [symmetric] by (rule mod_mod_trivial)
  ultimately have "i div 2 ^ w mod 2 ^ (k' - w) = i' div 2 ^ w mod 2 ^ (k' - w)" using assms(6) by simp
  from code_split [OF assms(3) [symmetric] this] assms(4) have "i mod 2 ^ k' = i' mod 2 ^ k'" by simp
  with before_differs [OF assms(1,2)] assms(1,2) show False by (auto simp: before_def)
qed

subsection \<open>Filling in a code\<close>

lemma decodes_change:
  assumes "decodes ts l k i ev"
    and "\<And>m t n. m * l < k \<Longrightarrow> walks ts l i m t n \<Longrightarrow> walks ts' l i m t n"
    and "\<And>m t n B. walks ts l i m t n \<Longrightarrow> m * l < k \<Longrightarrow> k \<le> m * l + n \<Longrightarrow> B mod 2 ^ (k - m * l) = i div 2 ^ (m * l) \<Longrightarrow>
      table_entry ts t (B mod 2 ^ n) \<noteq> None \<Longrightarrow> table_entry ts' t (B mod 2 ^ n) = table_entry ts t (B mod 2 ^ n)"
  shows "decodes ts' l k i ev"
proof -
  from assms(1) obtain m t n where d: "walks ts l i m t n" "m * l < k" "k \<le> m * l + n"
    "\<And>B. B mod 2 ^ (k - m * l) = i div 2 ^ (m * l) \<Longrightarrow>
      table_entry ts t (B mod 2 ^ n) = Some \<lparr>h_e = fst ev, h_b = k - m * l, h_v = snd ev\<rparr>"
    by (auto simp: decodes_def)
  have "table_entry ts' t (B mod 2 ^ n) = Some \<lparr>h_e = fst ev, h_b = k - m * l, h_v = snd ev\<rparr>"
    if "B mod 2 ^ (k - m * l) = i div 2 ^ (m * l)" for B
    using assms(3) [OF d(1-3) that] d(4) [OF that] by simp
  with assms(2) [OF d(2,1)] d(2,3) show ?thesis unfolding decodes_def by blast
qed

lemma used_placed: "(k', i', ev) \<in> set es \<Longrightarrow> m' * l < k' \<Longrightarrow> (i', m') \<in> used l es i H"
  unfolding used_def by blast

lemma used_stack: "m < H \<Longrightarrow> (i, m) \<in> used l es i H"
  by (simp add: used_def)

lemma short_level: "m * l < (k :: nat) \<Longrightarrow> k \<le> Suc m * l \<Longrightarrow> m' * l < k \<Longrightarrow> m' \<le> m"
  by (metis less_le_trans mult_less_cancel2 less_Suc_eq_le)

lemma fill_level:
  assumes tree: "tree_ok ts l (used l es i (Suc m))" and w: "walks ts l i m t n" "2 ^ n \<le> length (ts ! t)"
    and k: "m * l < k" "k \<le> m * l + n" "i < 2 ^ k" and bf: "before g es i" and shorter: "\<forall>(k', i', ev) \<in> set es. k' \<le> k"
    and r: "h_b r = k - m * l" and dec: "all_decode ts l es"
  defines "ts' \<equiv> ts[t := fill_entries (i div 2 ^ (m * l)) (2 ^ (k - m * l)) r (ts ! t)]"
  shows "\<And>i' m' t' n'. (i', m') \<in> used l es i (Suc m) \<Longrightarrow> walks ts l i' m' t' n' \<Longrightarrow> walks ts' l i' m' t' n'"
    and "all_decode ts' l (es @ [(k, i, h_e r, h_v r)])"
proof -
  let ?U = "used l es i (Suc m)" and ?w = "m * l"
  have im: "(i, m) \<in> ?U" by (rule used_stack) simp
  then have t: "t < length ts" using tree_okD(1) [OF tree im] walks_det [OF w(1)] by blast
  have nl: "n \<le> l" by (rule walks_bits [OF w(1)])
  then have k1: "k \<le> Suc m * l" using k(2) by simp
  have other: "table_entry ts' t' c = table_entry ts t' c" if "t' \<noteq> t" for t' c
    using that by (simp add: ts'_def table_entry_update)
  have iw: "i div 2 ^ ?w < 2 ^ (k - ?w)"
  proof -
    have "i < 2 ^ (k - ?w) * 2 ^ ?w" using k(1,3) by (simp flip: power_add)
    then show ?thesis by (rule less_mult_imp_div_less)
  qed
  have te: "table_entry ts' t (B mod 2 ^ n) = (if B mod 2 ^ (k - ?w) = i div 2 ^ ?w then Some r else table_entry ts t (B mod 2 ^ n))" for B
  proof -
    have "B mod 2 ^ n < length (ts ! t)" using w(2) by (rule less_le_trans [rotated]) simp
    moreover have "B mod 2 ^ n mod 2 ^ (k - ?w) = B mod 2 ^ (k - ?w)" using k(2) by (intro mod_power_le) simp
    moreover have "B mod 2 ^ n mod 2 ^ (k - ?w) \<le> B mod 2 ^ n" by simp
    ultimately show ?thesis using t iw by (auto simp: ts'_def table_entry_update nth_fill_entries table_entry_def)
  qed
  have same: "m' = m \<and> i' mod 2 ^ ?w = i mod 2 ^ ?w \<and> n' = n" if u: "(i', m') \<in> ?U" "walks ts l i' m' t n'" for i' m' n'
  proof -
    from tree_okD(2) [OF tree u(1) im u(2) w(1)] have e: "m' = m" "i' mod 2 ^ ?w = i mod 2 ^ ?w" by auto
    with walks_det [OF w(1)] walks_start [OF u(2), of i] show ?thesis by simp
  qed
  show keep: "walks ts' l i' m' t' n'" if u: "(i', m') \<in> ?U" and wk: "walks ts l i' m' t' n'" for i' m' t' n'
  proof (rule walks_cong [OF wk])
    fix m'' t'' assume m'': "m'' < m'" and wt: "walks ts l i' m'' t'' l"
    have l0: "0 < l" using k nl by (cases l) simp_all
    have um: "(i', m'') \<in> ?U" using u m'' l0 by (auto simp: used_def intro: le_less_trans [OF mult_le_mono1 [OF less_imp_le]])
    have "t'' \<noteq> t"
    proof
      assume "t'' = t"
      with same [OF um, of l] wt have "m'' = m" by simp
      then have "Suc m * l \<le> m' * l" using m'' by (intro mult_le_mono1) simp
      moreover have "(i', m') \<notin> {(i', m'). i' = i \<and> m' < Suc m}" using \<open>m'' = m\<close> m'' by simp
      then obtain k' ev where "(k', i', ev) \<in> set es" "m' * l < k'" using u by (auto simp: used_def)
      ultimately show False using shorter k1 by fastforce
    qed
    then show "table_entry ts' t'' (i' div 2 ^ (m'' * l) mod 2 ^ l) = table_entry ts t'' (i' div 2 ^ (m'' * l) mod 2 ^ l)"
      by (rule other)
  qed
  have "decodes ts' l k' i' ev" if e: "(k', i', ev) \<in> set es" for k' i' ev
  proof (rule decodes_change)
    show "decodes ts l k' i' ev" using dec e by auto
    show "walks ts' l i' m' t' n'" if "m' * l < k'" "walks ts l i' m' t' n'" for m' t' n'
      using keep [OF used_placed [OF e that(1)] that(2)] .
    fix m' t' n' B
    assume h: "walks ts l i' m' t' n'" "m' * l < k'" "B mod 2 ^ (k' - m' * l) = i' div 2 ^ (m' * l)"
    show "table_entry ts' t' (B mod 2 ^ n') = table_entry ts t' (B mod 2 ^ n')"
    proof (cases "t' = t")
      case True
      with same [OF used_placed [OF e h(2)], of n'] h(1) have s: "m' = m" "i' mod 2 ^ ?w = i mod 2 ^ ?w" "n' = n" by simp_all
      have "k' \<le> k" using e shorter by auto
      from not_both [OF bf e s(2) _ this, of B] h(2,3) s(1) have "B mod 2 ^ (k - ?w) \<noteq> i div 2 ^ ?w mod 2 ^ (k - ?w)" by simp
      then show ?thesis using te [of B] iw True s(3) by simp
    qed (rule other)
  qed
  moreover have "decodes ts' l k i (h_e r, h_v r)"
    unfolding decodes_def using keep [OF im w(1)] k(1,2) r te
    by (intro exI [of _ m] exI [of _ t] exI [of _ n]) simp
  ultimately show "all_decode ts' l (es @ [(k, i, h_e r, h_v r)])" by auto
qed

text \<open>A new table below the top one, at the entry where the code at hand goes on.\<close>

lemma open_link:
  assumes tree: "tree_ok ts l (used l es i (Suc m))" and w: "walks ts l i m t l" "2 ^ l \<le> length (ts ! t)"
    and i: "i < 2 ^ (Suc m * l)" and bf: "before g es i" and J: "J \<le> l" and l0: "0 < l" and dec: "all_decode ts l es"
    and k: "Suc m * l < k" "\<forall>(k', i', ev) \<in> set es. k' \<le> k"
    and passed: "\<forall>(k', i', ev) \<in> set es. Suc m * l < k' \<longrightarrow> i' mod 2 ^ (Suc m * l) \<noteq> i mod 2 ^ (Suc m * l)"
  defines "c \<equiv> i div 2 ^ (m * l)"
  defines "ts' \<equiv> (ts @ [replicate (2 ^ J) None])[t := (ts ! t)[c := Some \<lparr>h_e = 16 + J, h_b = l, h_v = Tab (length ts)\<rparr>]]"
  shows "\<And>i' m' t' n'. (i', m') \<in> used l es i (Suc m) \<Longrightarrow> walks ts l i' m' t' n' \<Longrightarrow> walks ts' l i' m' t' n'"
    and "walks ts' l i (Suc m) (length ts) J" "all_decode ts' l es" "tree_ok ts' l (used l es i (Suc (Suc m)))"
proof -
  let ?U = "used l es i (Suc m)" and ?w = "m * l" and ?r = "\<lparr>h_e = 16 + J, h_b = l, h_v = Tab (length ts)\<rparr>"
  have im: "(i, m) \<in> ?U" by (rule used_stack) simp
  then have t: "t < length ts" using tree_okD(1) [OF tree im] walks_det [OF w(1)] by blast
  have c: "c < 2 ^ l" unfolding c_def using i by (intro less_mult_imp_div_less) (simp add: power_add mult.commute)
  have top: "table_entry ts' t d = (if d = c then Some ?r else table_entry ts t d)" for d
    using c t w(2) by (simp add: ts'_def table_entry_def nth_append)
  have other: "table_entry ts' t' d = table_entry ts t' d" if "t' \<noteq> t" "t' < length ts" for t' d
    using that by (simp add: ts'_def table_entry_def nth_append)
  have len: "length ts \<le> length ts'" by (simp add: ts'_def)
  have lt: "t' < length ts" if "(i', m') \<in> ?U" "walks ts l i' m' t' n'" for i' m' t' n'
    using tree_okD(1) [OF tree that(1)] walks_det [OF that(2)] by blast
  have same: "m' = m \<and> i' mod 2 ^ ?w = i mod 2 ^ ?w \<and> n' = l" if u: "(i', m') \<in> ?U" "walks ts l i' m' t n'" for i' m' n'
  proof -
    from tree_okD(2) [OF tree u(1) im u(2) w(1)] have e: "m' = m" "i' mod 2 ^ ?w = i mod 2 ^ ?w" by auto
    with walks_det [OF w(1)] walks_start [OF u(2), of i] show ?thesis by simp
  qed
  show keep: "walks ts' l i' m' t' n'" if u: "(i', m') \<in> ?U" and wk: "walks ts l i' m' t' n'" for i' m' t' n'
  proof (rule walks_cong [OF wk])
    fix m'' t'' assume m'': "m'' < m'" and wt: "walks ts l i' m'' t'' l"
    have um: "(i', m'') \<in> ?U" using u m'' l0 by (auto simp: used_def intro: le_less_trans [OF mult_le_mono1 [OF less_imp_le]])
    show "table_entry ts' t'' (i' div 2 ^ (m'' * l) mod 2 ^ l) = table_entry ts t'' (i' div 2 ^ (m'' * l) mod 2 ^ l)"
    proof (cases "t'' = t")
      case True
      with same [OF um, of l] wt have s: "m'' = m" "i' mod 2 ^ ?w = i mod 2 ^ ?w" by simp_all
      have "(i', m') \<notin> {(i', m'). i' = i \<and> m' < Suc m}" using s(1) m'' by simp
      then obtain k' ev where e: "(k', i', ev) \<in> set es" "m' * l < k'" using u by (auto simp: used_def)
      have "Suc m * l \<le> m' * l" using m'' s(1) by (intro mult_le_mono1) simp
      then have ne: "i' mod 2 ^ (Suc m * l) \<noteq> i mod 2 ^ (Suc m * l)" using passed e by fastforce
      have "i' div 2 ^ ?w mod 2 ^ l \<noteq> c"
      proof
        assume "i' div 2 ^ ?w mod 2 ^ l = c"
        then have "i' div 2 ^ ?w mod 2 ^ (Suc m * l - ?w) = i div 2 ^ ?w mod 2 ^ (Suc m * l - ?w)"
          using c by (simp add: c_def)
        from code_split [OF s(2) this] ne show False by simp
      qed
      then show ?thesis unfolding True s(1) by (simp add: top)
    qed (use other lt [OF um wt] in simp)
  qed
  have step: "i div 2 ^ ?w mod 2 ^ l = c" using c by (simp add: c_def)
  show new: "walks ts' l i (Suc m) (length ts) J"
    by (rule walks.link [OF keep [OF im w(1)] J]) (simp add: step top)
  have "decodes ts' l k' i' ev" if e: "(k', i', ev) \<in> set es" for k' i' ev
  proof (rule decodes_change)
    show "decodes ts l k' i' ev" using dec e by auto
    show "walks ts' l i' m' t' n'" if "m' * l < k'" "walks ts l i' m' t' n'" for m' t' n'
      using keep [OF used_placed [OF e that(1)] that(2)] .
    fix m' t' n' B
    assume h: "walks ts l i' m' t' n'" "m' * l < k'" "k' \<le> m' * l + n'" "B mod 2 ^ (k' - m' * l) = i' div 2 ^ (m' * l)"
    note u = used_placed [OF e h(2)]
    show "table_entry ts' t' (B mod 2 ^ n') = table_entry ts t' (B mod 2 ^ n')"
    proof (cases "t' = t")
      case True
      with same [OF u, of n'] h(1) have s: "m' = m" "i' mod 2 ^ ?w = i mod 2 ^ ?w" "n' = l" by simp_all
      have "k' \<le> Suc m * l" using h(3) s by simp
      from not_both [OF bf e s(2) _ this, of B] h(2,4) s(1) have "B mod 2 ^ l \<noteq> c" using c by (simp add: c_def)
      then show ?thesis using True s(3) by (simp add: top)
    qed (use other lt [OF u h(1)] in simp)
  qed
  then show "all_decode ts' l es" by auto
  have old: "tree_ok ts' l ?U" by (rule tree_ok_change [OF tree len keep])
  have cases: "(i', m') \<in> ?U \<or> i' = i \<and> m' = Suc m" if "(i', m') \<in> used l es i (Suc (Suc m))" for i' m'
    using that by (auto simp: used_def)
  have fresh: "t' \<noteq> length ts" if u: "(i', m') \<in> ?U" "walks ts' l i' m' t' n'" for i' m' t' n'
  proof -
    obtain t0 n0 where "walks ts l i' m' t0 n0" "t0 < length ts" using tree_okD(1) [OF tree u(1)] by blast
    with keep [OF u(1)] walks_det u(2) show ?thesis by blast
  qed
  have len': "length ts < length ts'" by (simp add: ts'_def)
  show "tree_ok ts' l (used l es i (Suc (Suc m)))"
    unfolding tree_ok_def
  proof (intro conjI ballI, clarsimp, goal_cases)
    case (1 i' m')
    from cases [OF 1] show ?case using tree_okD(1) [OF old] new len' by blast
  next
    case (2 x)
    show ?case
    proof (clarsimp split: prod.splits, goal_cases)
      case (1 a m1 b m2 t' n1 n2)
      from 2 1 cases have "(a, m1) \<in> ?U \<or> a = i \<and> m1 = Suc m" "(b, m2) \<in> ?U \<or> b = i \<and> m2 = Suc m" by blast+
      with 1 fresh walks_det [OF new] tree_okD(2) [OF old, of a m1 b m2] show ?case by metis
    qed
  qed
qed

subsection \<open>The room in a new table\<close>

text \<open>
  Below the first level a table has at most \<open>l\<close> index bits, if there are fewer than \<open>2 ^ l\<close> codes or
  they need no third level.
\<close>

lemma units_count: "\<forall>r \<in> set ks. k \<le> r \<Longrightarrow> units g ks \<le> length ks * 2 ^ (g - k)"
proof (induction ks)
  case (Cons r ks)
  have "(2 :: nat) ^ (g - r) \<le> 2 ^ (g - k)" using Cons.prems by (intro power_increasing) auto
  moreover have "units g ks \<le> length ks * 2 ^ (g - k)" using Cons by simp
  ultimately show ?case by (simp add: add_mono)
qed simp

lemma new_table_bits_le:
  assumes few: "length (later_lengths hi k a) < 2 ^ hi_l hi \<or> hi_g hi \<le> 2 * hi_l hi"
    and "hi_l hi \<le> w" "w < k" "k \<le> hi_g hi" "i < 2 ^ w"
    and full: "brev (hi_g hi) i + units (hi_g hi) (later_lengths hi k a) = 2 ^ hi_g hi"
  shows "new_table_bits hi k a w \<le> hi_l hi"
proof -
  let ?g = "hi_g hi" and ?l = "hi_l hi" and ?c = "hi_c hi" and ?ks = "later_lengths hi k a"
  define z where "z = (if ?g - w > ?l then ?l else ?g - w)"
  define j where "j = k - w"
  define f :: nat where "f = 2 ^ j - (a + 1)"
  have J: "new_table_bits hi k a w = (if 2 ^ j > a + 1 then table_bits ?c k f j z else j)"
    unfolding new_table_bits_def z_def [symmetric] j_def [symmetric] Let_def f_def ..
  have j: "w + j = k" "j \<le> ?g - w" "z \<le> ?l" using assms(3,4) by (auto simp: j_def z_def)
  have count: "2 ^ j \<le> length ?ks"
  proof -
    have "brev w i < 2 ^ w" by (rule brev_less)
    then have "(brev w i + 1) * 2 ^ (?g - w) \<le> 2 ^ w * 2 ^ (?g - w)" by (intro mult_le_mono1) simp
    also have "\<dots> = 2 ^ ?g" using assms(3,4) by (simp flip: power_add)
    finally have "2 ^ (?g - w) \<le> units ?g ?ks" using full brev_short [OF assms(5), of ?g] assms(3,4) by simp
    also have "\<dots> \<le> length ?ks * 2 ^ (?g - k)"
      using tail_lengths_sorted(2) by (intro units_count) (auto simp: later_lengths_def)
    also have "?g - w = j + (?g - k)" using j(1) assms(4) by linarith
    finally have "2 ^ j * 2 ^ (?g - k) \<le> length ?ks * 2 ^ (?g - k)" by (simp only: power_add)
    then show ?thesis by simp
  qed
  have jl: "j \<le> ?l"
    using few
  proof
    assume "length ?ks < 2 ^ ?l"
    with count have "(2 :: nat) ^ j < 2 ^ ?l" by linarith
    then show ?thesis by simp
  qed (use j assms(2) in linarith)
  show ?thesis
  proof (cases "2 ^ j > a + 1")
    case more: True
    show ?thesis
    proof (cases "j < z")
      case True
      have "k + (z - j) \<le> ?g" using j assms(4) True by (auto simp: z_def split: if_splits)
      from table_bits_covers [OF this True, of ?c f] j(3) more show ?thesis by (simp add: J)
    next
      case False
      have "k \<noteq> ?g"
      proof
        assume "k = ?g"
        then have "length ?ks = a + 1" by (simp add: later_lengths_def tail_lengths_def)
        with count more show False by simp
      qed
      then have "\<not> ?g - w \<le> ?l" using False j assms(4) by (auto simp: z_def)
      then have "z = ?l" "j = ?l" using False jl by (auto simp: z_def)
      with few count have "?g \<le> 2 * ?l" by auto
      with \<open>\<not> ?g - w \<le> ?l\<close> assms(2) show ?thesis by linarith
    qed
  qed (use J jl in simp)
qed

lemma open_tables_id: "\<not> hs_w st + int (hi_l hi) < int k \<Longrightarrow> open_tables hi k a st = Some st"
  by (simp add: open_tables.simps [of hi k a st])

lemma open_tables_once:
  assumes "hs_w st + int (hi_l hi) < int k" "open_table hi k a st = Some st'" "\<not> hs_w st' + int (hi_l hi) < int k"
  shows "open_tables hi k a st = Some st'"
  using assms open_tables_id [OF assms(3)] by (simp add: open_tables.simps [of hi k a st])

subsection \<open>The loop\<close>

text \<open>Level \<open>m\<close> of the stack holds the table the code at hand leads to.\<close>

definition stack_walks :: "decoder \<Rightarrow> nat \<Rightarrow> nat \<Rightarrow> nat \<Rightarrow> (nat \<Rightarrow> nat) \<Rightarrow> bool" where
  "stack_walks ts l i H u \<longleftrightarrow> (\<forall>m < H. \<exists>n. walks ts l i m (u m) n \<and> 2 ^ n \<le> length (ts ! u m) \<and>
     (m = 0 \<or> length (ts ! u m) = 2 ^ n))"

text \<open>The state between two codes, with the codes placed so far.\<close>

definition placed_ok :: "huft_input \<Rightarrow> nat list \<Rightarrow> placed \<Rightarrow> nat \<Rightarrow> huft_state \<Rightarrow> bool" where
  "placed_ok hi ks es H st \<longleftrightarrow> (let g = hi_g hi; l = hi_l hi; i = hs_i st; ts = hs_tables st in
     (length ks < 2 ^ l \<or> g \<le> 2 * l) \<and>
     (ks \<noteq> [] \<longrightarrow> brev g i + units g ks = 2 ^ g \<and> before g es i \<and>
       (\<forall>(k', i', ev) \<in> set es. H * l < k' \<longrightarrow> i' mod 2 ^ (H * l) \<noteq> i mod 2 ^ (H * l))) \<and>
     (\<forall>(k', i', ev) \<in> set es. \<forall>k \<in> set ks. k' \<le> k) \<and>
     all_decode ts l es \<and> tree_ok ts l (used l es i H) \<and> stack_walks ts l i H (hs_u st) \<and>
     (H = 0 \<longrightarrow> es = [] \<and> ts = [] \<and> g \<in> set ks \<and> hd ks \<le> l))"

text \<open>After the tables are opened: the top table has room for the code at hand.\<close>

definition opened_ok :: "huft_input \<Rightarrow> nat \<Rightarrow> placed \<Rightarrow> nat \<Rightarrow> huft_state \<Rightarrow> bool" where
  "opened_ok hi k es m st \<longleftrightarrow> (let g = hi_g hi; l = hi_l hi; i = hs_i st; ts = hs_tables st in
     before g es i \<and> (\<forall>(k', i', ev) \<in> set es. k' \<le> k) \<and> all_decode ts l es \<and>
     tree_ok ts l (used l es i (Suc m)) \<and> stack_walks ts l i (Suc m) (hs_u st))"

lemma codes_from_lengths: "map fst (codes_from ks i) = ks"
  by (induction ks arbitrary: i) simp_all

text \<open>The top table is indexed by enough bits for the code at hand, and by \<open>l\<close> if that goes on below it.\<close>

lemma top_bits:
  assumes "stack_ok hi (k # ks) (Suc m) st" "stack_walks (hs_tables st) (hi_l hi) (hs_i st) (Suc m) (hs_u st)"
  obtains n where "walks (hs_tables st) (hi_l hi) (hs_i st) m (hs_u st m) n" "2 ^ n \<le> length (hs_tables st ! hs_u st m)"
    "n = hi_l hi \<or> k \<le> m * hi_l hi + n"
proof -
  let ?l = "hi_l hi"
  obtain n where n: "walks (hs_tables st) ?l (hs_i st) m (hs_u st m) n" "2 ^ n \<le> length (hs_tables st ! hs_u st m)"
    "m = 0 \<or> length (hs_tables st ! hs_u st m) = 2 ^ n"
    using assms(2) by (auto simp: stack_walks_def)
  have "level_ok ?l (codes_from (k # ks) (hs_i st)) (sizes st) (hs_u st m) (hs_i st mod 2 ^ (m * ?l)) m"
    using assms(1) by (auto simp: stack_ok_def)
  then obtain J where J: "length (hs_tables st ! hs_u st m) = 2 ^ J" "?l \<le> J \<or> k \<le> m * ?l + J"
    by (auto simp: level_ok_def not_less)
  have "n = ?l \<or> k \<le> m * ?l + n"
  proof (cases "m = 0")
    case True
    then show ?thesis using n(1) by (auto elim: walks_0E)
  next
    case False
    then have "n = J" using n(3) J(1) by simp
    with J(2) walks_bits [OF n(1)] show ?thesis by auto
  qed
  with that n show ?thesis by blast
qed

lemma opened:
  assumes inv: "loop_ok hi N (later_lengths hi k a) H st" and pl: "placed_ok hi (later_lengths hi k a) es H st"
    and o: "open_tables hi k a st = Some st1" "stack_ok hi (later_lengths hi k a) (Suc m) st1"
  shows "opened_ok hi k es m st1"
proof -
  let ?g = "hi_g hi" and ?l = "hi_l hi" and ?i = "hs_i st" and ?ks = "later_lengths hi k a" and ?ts = "hs_tables st"
  have ks: "?ks = k # tail_lengths (hi_c hi) k a ?g" by (rule later_lengths_Cons)
  have sok: "stack_ok hi ?ks H st" using inv by (simp add: loop_ok_def)
  then have "hs_w st = (int H - 1) * int ?l" by (simp add: stack_ok_def)
  then have "hs_w st + int ?l = int (H * ?l)" by (simp add: algebra_simps)
  with sok have st: "hs_h st = int H - 1" "hs_w st + int ?l = int (H * ?l)" "?i < 2 ^ (H * ?l)" "stack_ok hi ?ks H st"
    unfolding stack_ok_def by blast+
  have l: "1 \<le> ?l" "?l \<le> ?g" "k \<le> ?g" "?g \<le> BMAX" using inv by (simp_all add: loop_ok_def input_ok_def codes_ok_def ks)
  have p: "length ?ks < 2 ^ ?l \<or> ?g \<le> 2 * ?l" "brev ?g ?i + units ?g ?ks = 2 ^ ?g" "before ?g es ?i"
    "\<forall>(k', i', ev) \<in> set es. k' \<le> k" "all_decode ?ts ?l es" "tree_ok ?ts ?l (used ?l es ?i H)"
    "stack_walks ?ts ?l ?i H (hs_u st)"
    "\<forall>(k', i', ev) \<in> set es. H * ?l < k' \<longrightarrow> i' mod 2 ^ (H * ?l) \<noteq> ?i mod 2 ^ (H * ?l)"
    using pl by (auto simp: placed_ok_def Let_def ks)
  have m: "hs_h st1 = int m" using o(2) by (simp add: stack_ok_def)
  have BH: "H < BMAX" if "H * ?l < k"
  proof -
    have "H * 1 \<le> H * ?l" using l(1) by (rule mult_le_mono2)
    then show ?thesis using that l(3,4) by linarith
  qed
  consider "H = 0" | "\<not> H * ?l < k" | m' where "H = Suc m'" "Suc m' * ?l < k" by (cases H) auto
  then show ?thesis
  proof cases
    case 1
    have e: "es = []" "?ts = []" "?g \<in> set ?ks" "k \<le> ?l" using pl 1 by (auto simp: placed_ok_def Let_def ks)
    let ?st1 = "st\<lparr>hs_h := 0, hs_w := 0, hs_tables := [replicate (2 ^ new_table_bits hi k a 0) None], hs_q := 0, hs_u := (hs_u st)(0 := 0)\<rparr>"
    have k0: "0 < k" using inv 1 by (simp add: loop_ok_def stack_ok_def ks)
    have ot: "open_table hi k a st = Some ?st1"
      using 1 st(1,2) e(2) by (simp add: open_table_def Let_def)
    have "open_tables hi k a st = Some ?st1"
      by (rule open_tables_once [OF _ ot]) (use 1 st(2) k0 e(4) in simp_all)
    then have st1: "st1 = ?st1" using o(1) by simp
    have "level_ok ?l (codes_from ?ks ?i) [2 ^ new_table_bits hi k a 0] 0 0 0"
      using new_level_ok [of hi k a ?i 0 "[]"] inv k0 l(3) by (simp add: loop_ok_def)
    then obtain J where J: "new_table_bits hi k a 0 = J" "?l \<le> J \<or> (\<forall>(k, i) \<in> set (codes_from ?ks ?i). k \<le> J)"
      by (auto simp: level_ok_def not_less)
    have "?g \<in> fst ` set (codes_from ?ks ?i)" using e(3) by (metis codes_from_lengths set_map)
    with J(2) l(2) have "?l \<le> J" by auto
    moreover have "m = 0" using m st1 by simp
    moreover have "tree_ok [replicate (2 ^ J) None] ?l (used ?l [] ?i 1)"
      by (auto simp: tree_ok_def used_def elim: walks_0E intro: walks.root)
    ultimately show ?thesis using J(1) e(1) by (auto simp: opened_ok_def Let_def st1 before_def stack_walks_def intro: walks.root)
  next
    case 2
    then have "\<not> hs_w st + int ?l < int k" unfolding st(2) of_nat_less_iff .
    then have "st1 = st" using o(1) open_tables_id by simp
    moreover from this have "H = Suc m" using m st(1) by simp
    ultimately show ?thesis using p by (simp add: opened_ok_def Let_def)
  next
    case (3 m')
    let ?t = "hs_u st m'"
    from top_bits [of hi k _ m' st] st(4) p(7) obtain n where
      n: "walks ?ts ?l ?i m' ?t n" "2 ^ n \<le> length (?ts ! ?t)" "n = ?l \<or> k \<le> m' * ?l + n"
      unfolding ks 3(1) by blast
    then have nl: "n = ?l" using 3(2) walks_bits [OF n(1)] by auto
    define J where "J = new_table_bits hi k a (H * ?l)"
    have J: "J \<le> ?l" unfolding J_def
      by (rule new_table_bits_le [OF p(1) _ _ l(3) st(3) p(2)]) (use 3 in simp_all)
    have kJ: "k \<le> Suc H * ?l"
    proof -
      have "k - H * ?l \<le> J" unfolding J_def using 3 l(3) by (intro new_table_bits_covers(1)) simp_all
      then show ?thesis using J by simp
    qed
    note link = open_link [OF p(6) [unfolded 3(1)] n(1) [unfolded nl] n(2) [unfolded nl] st(3) [unfolded 3(1)] p(3) J _ p(5) 3(2) p(4) p(8) [unfolded 3(1)]]
    have l0: "0 < ?l" using l(1) by simp
    let ?c = "?i div 2 ^ (m' * ?l)" and ?r = "\<lparr>h_e = 16 + J, h_b = ?l, h_v = Tab (length ?ts)\<rparr>"
    let ?ts1 = "(?ts @ [replicate (2 ^ J) None])[?t := (?ts ! ?t)[?c := Some ?r]]"
    let ?st1 = "st\<lparr>hs_h := int H, hs_w := int (H * ?l), hs_tables := ?ts1, hs_q := length ?ts,
      hs_u := (hs_u st)(H := length ?ts), hs_x := (hs_x st)(H := ?i), hs_r := ?r\<rparr>"
    have t: "?t < length ?ts" using tree_okD(1) [OF p(6), of ?i m'] walks_det [OF n(1)] used_stack [of m' H] 3(1) by fastforce
    have c: "?c < 2 ^ ?l" using st(3) 3(1) by (intro less_mult_imp_div_less) (simp add: power_add mult.commute)
    then have ct: "?c < length (?ts ! ?t)" using n(2) nl by simp
    have nat: "nat (hs_w st + int ?l) = H * ?l" "nat (hs_h st + 1) = H" "hs_h st + 1 = int H" using st(1,2) by (simp_all del: of_nat_mult)
    have "H * ?l - ?l = m' * ?l" "nat (int H - 1) = m'" using 3(1) by simp_all
    then have ot: "open_table hi k a st = Some ?st1"
      unfolding open_table_def Let_def nat st(2) J_def [symmetric] nat_int
      using 3 t ct BH by (simp add: set_entry_def nth_append drop_bit_eq_div)
    have "open_tables hi k a st = Some ?st1"
    proof (rule open_tables_once [OF _ ot])
      show "hs_w st + int ?l < int k" unfolding st(2) of_nat_less_iff using 3 by simp
      have "hs_w ?st1 = int (H * ?l)" by simp
      then have "hs_w ?st1 + int ?l = int (Suc H * ?l)" by simp
      with kJ show "\<not> hs_w ?st1 + int ?l < int k" by (simp only: of_nat_less_iff not_less)
    qed
    then have st1: "st1 = ?st1" using o(1) by simp
    then have mH: "m = Suc m'" using m 3(1) by simp
    have lens: "length (?ts1 ! t') = (if t' = length ?ts then 2 ^ J else length (?ts ! t'))" if "t' \<le> length ?ts" for t'
      using that t by (simp add: nth_append nth_list_update)
    have "stack_walks ?ts1 ?l ?i (Suc H) ((hs_u st)(H := length ?ts))"
      unfolding stack_walks_def
    proof (intro allI impI)
      fix m'' assume "m'' < Suc H"
      then consider "m'' = H" | "m'' < H" by linarith
      then show "\<exists>n. walks ?ts1 ?l ?i m'' (((hs_u st)(H := length ?ts)) m'') n \<and>
          2 ^ n \<le> length (?ts1 ! ((hs_u st)(H := length ?ts)) m'') \<and>
          (m'' = 0 \<or> length (?ts1 ! ((hs_u st)(H := length ?ts)) m'') = 2 ^ n)"
      proof cases
        case 1
        then show ?thesis using link(2) [OF l0] lens [of "length ?ts"] 3(1) by auto
      next
        case 2
        then obtain n' where n': "walks ?ts ?l ?i m'' (hs_u st m'') n'" "2 ^ n' \<le> length (?ts ! hs_u st m'')"
          "m'' = 0 \<or> length (?ts ! hs_u st m'') = 2 ^ n'" using p(7) by (auto simp: stack_walks_def)
        have u: "(?i, m'') \<in> used ?l es ?i (Suc m')" using 2 3(1) by (simp add: used_stack)
        have "hs_u st m'' < length ?ts" using tree_okD(1) [OF p(6), of ?i m''] walks_det [OF n'(1)] u 3(1) by fastforce
        then show ?thesis using link(1) [OF l0 u n'(1)] n'(2,3) lens [of "hs_u st m''"] 2 by auto
      qed
    qed
    with link(3,4) [OF l0] p(3,4) 3(1) mH show ?thesis by (simp add: opened_ok_def Let_def st1)
  qed
qed

text \<open>The code at hand is placed.\<close>

lemma placed_next:
  assumes inv: "loop_ok hi N (later_lengths hi k a) H st" and pl: "placed_ok hi (later_lengths hi k a) es H st"
    and op: "opened_ok hi k es m st1"
    and sk: "stack_ok hi (later_lengths hi k a) (Suc m) st1" and "hs_i st1 = hs_i st" "m * hi_l hi < k" "m' \<le> m"
    and k1: "k \<le> Suc m * hi_l hi"
    and r: "h_b r = k - m * hi_l hi" and x: "hs_x st1 m' = i' mod 2 ^ (m' * hi_l hi)"
    and "m' < m \<Longrightarrow> hs_x st1 (Suc m') \<noteq> i' mod 2 ^ (Suc m' * hi_l hi)"
    and i': "i' = increment_code k (hs_i st)"
    and st': "st' = st1\<lparr>hs_r := r, hs_p := p',
      hs_tables := (hs_tables st1)[hs_u st1 m := fill_entries (hs_i st div 2 ^ (m * hi_l hi)) (2 ^ (k - m * hi_l hi)) r
        (hs_tables st1 ! hs_u st1 m)], hs_i := i', hs_h := h', hs_w := w'\<rparr>"
  shows "placed_ok hi (tail_lengths (hi_c hi) k a (hi_g hi)) (es @ [(k, hs_i st, h_e r, h_v r)]) (Suc m') st'"
proof -
  let ?g = "hi_g hi" and ?l = "hi_l hi" and ?i = "hs_i st" and ?ks = "tail_lengths (hi_c hi) k a (hi_g hi)"
  let ?es = "es @ [(k, ?i, h_e r, h_v r)]" and ?ts = "hs_tables st1" and ?ts' = "hs_tables st'"
  have ks: "later_lengths hi k a = k # ?ks" by (rule later_lengths_Cons)
  have i: "?i < 2 ^ k" "k \<le> ?g" "?l \<le> ?g" "\<And>k'. k' \<in> set ?ks \<Longrightarrow> k \<le> k'"
    using inv by (auto simp: loop_ok_def input_ok_def codes_ok_def fits_def ks)
  have few: "length ?ks < 2 ^ ?l \<or> ?g \<le> 2 * ?l" and full: "brev ?g ?i + (2 ^ (?g - k) + units ?g ?ks) = 2 ^ ?g"
    using pl by (auto simp: placed_ok_def Let_def ks)
  have o: "before ?g es ?i" "\<forall>(k', i', ev) \<in> set es. k' \<le> k" "all_decode ?ts ?l es"
    "tree_ok ?ts ?l (used ?l es ?i (Suc m))" "stack_walks ?ts ?l ?i (Suc m) (hs_u st1)"
    using op assms(5) by (simp_all add: opened_ok_def Let_def)
  have later: "brev ?g i' = brev ?g ?i + 2 ^ (?g - k)" if "?ks \<noteq> []"
  proof -
    have "0 < units ?g ?ks" using that by (cases ?ks) simp_all
    then have "brev ?g ?i + 2 ^ (?g - k) < 2 ^ ?g" using full by linarith
    then show ?thesis using brev_increment [OF i(1,2)] by (simp add: i')
  qed
  have before: "brev ?g i' + units ?g ?ks = 2 ^ ?g \<and> before ?g ?es i'" if "?ks \<noteq> []"
    using later [OF that] full o(1) i(1,2) by (fastforce simp: before_def)
  have order: "\<forall>(k', i', ev) \<in> set ?es. \<forall>k \<in> set ?ks. k' \<le> k" using o(2) i(4) by fastforce
  from top_bits [of hi k ?ks m st1] sk o(5) assms(5) obtain n where
    n: "walks ?ts ?l ?i m (hs_u st1 m) n" "2 ^ n \<le> length (?ts ! hs_u st1 m)" "n = ?l \<or> k \<le> m * ?l + n"
    unfolding ks by auto
  have kn: "k \<le> m * ?l + n" using n(3) k1 by auto
  note fill = fill_level [OF o(4) n(1,2) assms(6) kn i(1) o(1,2) r o(3)]
  have ts': "?ts' = ?ts[hs_u st1 m := fill_entries (?i div 2 ^ (m * ?l)) (2 ^ (k - m * ?l)) r (?ts ! hs_u st1 m)]"
    by (simp add: st')
  have tree: "tree_ok ?ts' ?l (used ?l es ?i (Suc m))"
    unfolding ts' by (rule tree_ok_change [OF o(4) _ fill(1)]) simp
  have start: "?i mod 2 ^ (m'' * ?l) = i' mod 2 ^ (m'' * ?l)" if "m'' \<le> m'" for m''
  proof -
    have "hs_x st1 m' = ?i mod 2 ^ (m' * ?l)" using sk assms(5,7) by (simp add: stack_ok_def)
    with x have "?i mod 2 ^ (m' * ?l) mod 2 ^ (m'' * ?l) = i' mod 2 ^ (m' * ?l) mod 2 ^ (m'' * ?l)" by simp
    then show ?thesis using mod_power_le [of "m'' * ?l" "m' * ?l"] that by simp
  qed
  have tree': "tree_ok ?ts' ?l (used ?l ?es i' (Suc m'))"
  proof (rule tree_ok_start [OF tree])
    fix i'' m'' assume "(i'', m'') \<in> used ?l ?es i' (Suc m')"
    then consider k' ev where "(k', i'', ev) \<in> set es" "m'' * ?l < k'" | "i'' = ?i" "m'' * ?l < k" | "i'' = i'" "m'' \<le> m'"
      by (auto simp: used_def)
    then show "\<exists>j. (j, m'') \<in> used ?l es ?i (Suc m) \<and> j mod 2 ^ (m'' * ?l) = i'' mod 2 ^ (m'' * ?l)"
    proof cases
      case 1
      then show ?thesis using used_placed by blast
    next
      case 2
      then have "m'' \<le> m" using short_level [OF assms(6) k1] by simp
      then show ?thesis using 2 by (auto simp: used_def)
    next
      case 3
      then show ?thesis using start [of m''] assms(7) by (auto simp: used_def)
    qed
  qed
  have walk': "stack_walks ?ts' ?l i' (Suc m') (hs_u st1)"
    unfolding stack_walks_def
  proof (intro allI impI)
    fix m'' assume "m'' < Suc m'"
    then have m'': "m'' \<le> m'" "m'' < Suc m" using assms(7) by simp_all
    then obtain n'' where "walks ?ts ?l ?i m'' (hs_u st1 m'') n''" "2 ^ n'' \<le> length (?ts ! hs_u st1 m'')"
      "m'' = 0 \<or> length (?ts ! hs_u st1 m'') = 2 ^ n''" using o(5) by (auto simp: stack_walks_def)
    moreover have "length (?ts' ! t) = length (?ts ! t)" for t
      unfolding ts' by (cases "t = hs_u st1 m"; cases "hs_u st1 m < length ?ts") (simp_all add: list_update_beyond)
    ultimately show "\<exists>n. walks ?ts' ?l i' m'' (hs_u st1 m'') n \<and> 2 ^ n \<le> length (?ts' ! hs_u st1 m'') \<and>
        (m'' = 0 \<or> length (?ts' ! hs_u st1 m'') = 2 ^ n)"
      using fill(1) [OF used_stack [OF m''(2)], folded ts'] walks_start [OF _ start [OF m''(1)]] by metis
  qed
  have passed: "i'' mod 2 ^ (Suc m' * ?l) \<noteq> i' mod 2 ^ (Suc m' * ?l)"
    if e: "(k', i'', ev) \<in> set ?es" "Suc m' * ?l < k'" "?ks \<noteq> []" for k' i'' ev
  proof (rule start_passed)
    have "k' \<le> k" using e(1) o(2) by auto
    then have lt: "Suc m' * ?l < k" using e(2) by simp
    then have "Suc m' \<le> m" by (rule short_level [OF assms(6) k1])
    then have "hs_x st1 (Suc m') = ?i mod 2 ^ (Suc m' * ?l)" using sk assms(5) by (simp add: stack_ok_def)
    then show "i' mod 2 ^ (Suc m' * ?l) \<noteq> ?i mod 2 ^ (Suc m' * ?l)" using assms(11) \<open>Suc m' \<le> m\<close> by simp
    show "brev ?g i'' \<le> brev ?g ?i" using e(1) o(1) by (auto simp: before_def)
    show "brev ?g ?i \<le> brev ?g i'" using later [OF e(3)] by simp
    show "Suc m' * ?l \<le> ?g" using lt i(2) by simp
  qed
  have u: "hs_u st' = hs_u st1" "hs_i st' = i'" by (simp_all add: st')
  show ?thesis
    unfolding placed_ok_def Let_def u
  proof (intro conjI impI)
    show "\<forall>(k', i'', ev) \<in> set ?es. Suc m' * ?l < k' \<longrightarrow> i'' mod 2 ^ (Suc m' * ?l) \<noteq> i' mod 2 ^ (Suc m' * ?l)" if "?ks \<noteq> []"
      using passed that by blast
    show "all_decode ?ts' ?l ?es" unfolding ts' by (rule fill(2))
  qed (use few before order tree' walk' in simp_all)
qed

abbreviation code_of :: "nat \<times> nat \<times> nat \<times> huft_val \<Rightarrow> nat \<times> nat" where
  "code_of \<equiv> (\<lambda>(k, i, ev). (k, i))"

lemma place_codes:
  assumes "map fst xs = ks" "\<exists>k a. xs = order_tail (hi_c hi) k a (hi_g hi) \<and> k \<le> hi_g hi"
    and "loop_ok hi N ks H st" "placed_ok hi ks es H st"
  shows "\<exists>st' es'. for_each (place_code hi) xs st = Some st' \<and> all_decode (hs_tables st') (hi_l hi) (es @ es') \<and>
    map code_of es' = codes_from ks (hs_i st) \<and>
    (\<forall>n < length es'. hs_p st + n < hi_n hi \<longrightarrow> snd (snd (es' ! n)) = symbol_entry hi (the (hi_v hi (hs_p st + n))))"
  using assms
proof (induction xs arbitrary: ks H st es)
  case Nil
  then show ?case by (intro exI [of _ st] exI [of _ "[]"]) (simp add: placed_ok_def Let_def)
next
  case (Cons x xs)
  then obtain k0 a0 where "order_tail (hi_c hi) k0 a0 (hi_g hi) = x # xs" "k0 \<le> hi_g hi" by metis
  from order_tail_Cons [OF this] obtain k a where
    x: "x = (k, a)" "k \<le> hi_g hi" "xs = order_tail (hi_c hi) k a (hi_g hi)" by blast
  let ?ks = "tail_lengths (hi_c hi) k a (hi_g hi)"
  have ks: "ks = later_lengths hi k a" using Cons.prems(1) x by (simp add: later_lengths_Cons order_tail_lengths)
  note inv = Cons.prems(3) [unfolded ks] and pl = Cons.prems(4) [unfolded ks]
  show ?case
  proof (rule place_code_ok [OF inv], goal_cases)
    case (1 st1 m r m')
    let ?st' = "the (place_code hi (k, a) st)" and ?e = "(k, hs_i st, h_e r, h_v r)"
    from 1(10) have st': "?st' = st1\<lparr>hs_r := r, hs_p := (if hs_p st < hi_n hi then Suc (hs_p st) else hs_p st),
        hs_tables := (hs_tables st1)[hs_u st1 m := fill_entries (hs_i st div 2 ^ (m * hi_l hi)) (2 ^ (k - m * hi_l hi)) r
          (hs_tables st1 ! hs_u st1 m)], hs_i := increment_code k (hs_i st), hs_h := int m', hs_w := int (m' * hi_l hi)\<rparr>"
      by (simp only: option.sel)
    note next_ok = loop_ok_next [OF inv 1(2-7) 1(11-13) refl st']
    note next_pl = placed_next [OF inv pl opened [OF inv pl 1(1,2)] 1(2,3,6,11,5,8,12,13) refl st']
    have "map fst xs = ?ks" using x(3) by (simp add: order_tail_lengths)
    from Cons.IH [OF this _ next_ok next_pl] x(2,3) obtain st'' es' where
      IH: "for_each (place_code hi) xs ?st' = Some st''" "all_decode (hs_tables st'') (hi_l hi) (es @ ?e # es')"
        "map code_of es' = codes_from ?ks (hs_i ?st')"
        "\<And>n. n < length es' \<Longrightarrow> hs_p ?st' + n < hi_n hi \<Longrightarrow> snd (snd (es' ! n)) = symbol_entry hi (the (hi_v hi (hs_p ?st' + n)))"
      by auto
    have p: "hs_p ?st' = (if hs_p st < hi_n hi then Suc (hs_p st) else hs_p st)" and i: "hs_i ?st' = increment_code k (hs_i st)"
      unfolding st' by simp_all
    show ?case
    proof (intro exI conjI allI impI)
      show "for_each (place_code hi) (x # xs) st = Some st''"
        using IH(1) 1(10) unfolding x(1) for_each.simps by simp
      show "all_decode (hs_tables st'') (hi_l hi) (es @ ?e # es')" by (rule IH(2))
      show "map code_of (?e # es') = codes_from ks (hs_i st)" using IH(3) by (simp add: ks later_lengths_Cons i)
      fix n assume n: "n < length (?e # es')" "hs_p st + n < hi_n hi"
      show "snd (snd ((?e # es') ! n)) = symbol_entry hi (the (hi_v hi (hs_p st + n)))"
        using n IH(4) [of "n - 1"] 1(9) by (cases n) (auto simp: p)
    qed
  qed
qed

end
