(* ===== verification/Huft_Props.thy ===== *)
theory Huft_Props
  imports Huft_Decode
begin
text \<open>
  The symbols of an alphabet in the order of their codes, and the canonical code of DEFLATE: the
  places all codes before it take, in units of its own length.
\<close>

definition coded_up_to :: "nat list \<Rightarrow> nat \<Rightarrow> nat list" where
  "coded_up_to b m = concat (map (\<lambda>k. filter (\<lambda>q. b ! q = k) [0..<length b]) [1..<m])"

definition coded :: "nat list \<Rightarrow> nat list" where
  "coded b = coded_up_to b (Suc BMAX)"

definition codes_before :: "nat list \<Rightarrow> nat \<Rightarrow> nat set" where
  "codes_before b q = set (filter (\<lambda>r. b ! r \<noteq> 0 \<and> (b ! r < b ! q \<or> b ! r = b ! q \<and> r < q)) [0..<length b])"

definition canonical :: "nat list \<Rightarrow> nat \<Rightarrow> nat" where
  "canonical b q = (\<Sum>r \<in> codes_before b q. 2 ^ (b ! q - b ! r))"

subsection \<open>Places\<close>

text \<open>The first place of a length, and the place of a symbol.\<close>

definition first_place :: "nat list \<Rightarrow> nat \<Rightarrow> nat" where
  "first_place b k = (\<Sum>r = 1..<k. count_list b r)"

definition place :: "nat list \<Rightarrow> nat \<Rightarrow> nat" where
  "place b q = first_place b (b ! q) + count_list (take q b) (b ! q)"

lemma first_place_Suc: "1 \<le> k \<Longrightarrow> first_place b (Suc k) = first_place b k + count_list b k"
  by (simp add: first_place_def)

lemma first_place_mono: "k \<le> k' \<Longrightarrow> first_place b k \<le> first_place b k'"
  unfolding first_place_def by (rule sum_mono2) auto

lemma count_take: "count_list (take q b) k \<le> count_list b k"
  using count_list_append [of "take q b" "drop q b" k] by simp

lemma count_take_less:
  assumes "r < q" "q \<le> length b" "b ! r = k"
  shows "count_list (take r b) k < count_list (take q b) k"
proof -
  have "count_list (take (Suc r) b) k = Suc (count_list (take r b) k)"
    using assms by (simp add: take_Suc_conv_app_nth)
  moreover have "count_list (take (Suc r) b) k \<le> count_list (take q b) k"
    using count_take [of "Suc r" "take q b" k] assms(1) by (simp add: min_def)
  ultimately show ?thesis by simp
qed

lemma place_bounds:
  assumes "q < length b" "b ! q \<noteq> 0"
  shows "first_place b (b ! q) \<le> place b q" "place b q < first_place b (Suc (b ! q))"
proof -
  have "count_list (take q b) (b ! q) < count_list (take (length b) b) (b ! q)"
    by (rule count_take_less) (use assms in auto)
  then show "first_place b (b ! q) \<le> place b q" "place b q < first_place b (Suc (b ! q))"
    using assms(2) by (simp_all add: place_def first_place_Suc)
qed

lemma place_less:
  assumes "r \<in> codes_before b q" "q < length b"
  shows "place b r < place b q"
proof (cases "b ! r = b ! q")
  case True
  then show ?thesis using assms count_take_less [of r q b "b ! q"] by (auto simp: codes_before_def place_def)
next
  case False
  then have r: "r < length b" "b ! r \<noteq> 0" "Suc (b ! r) \<le> b ! q" using assms(1) by (auto simp: codes_before_def)
  have "place b r < first_place b (Suc (b ! r))" by (rule place_bounds(2) [OF r(1,2)])
  also have "\<dots> \<le> first_place b (b ! q)" by (rule first_place_mono [OF r(3)])
  also have "\<dots> \<le> place b q" by (rule place_bounds) (use r assms in auto)
  finally show ?thesis .
qed

lemma place_less_iff:
  assumes "r < length b" "b ! r \<noteq> 0" "q < length b" "b ! q \<noteq> 0"
  shows "place b r < place b q \<longleftrightarrow> r \<in> codes_before b q"
proof -
  have "r \<in> codes_before b q \<or> q \<in> codes_before b r \<or> r = q"
    using assms by (auto simp: codes_before_def)
  then show ?thesis using place_less assms(1,3) by (auto dest: less_asym)
qed

subsection \<open>The list of symbols\<close>

lemma nth_filter_upt:
  "n < length (filter P [0..<m]) \<Longrightarrow> filter P [0..<m] ! n < m \<and> P (filter P [0..<m] ! n) \<and>
    length (filter P [0..<filter P [0..<m] ! n]) = n"
  by (induction m) (auto simp: nth_append less_Suc_eq)

lemma count_take_filter: "q \<le> length b \<Longrightarrow> length (filter (\<lambda>r. b ! r = k) [0..<q]) = count_list (take q b) k"
  by (induction q) (auto simp: take_Suc_conv_app_nth)

lemma length_coded_up_to: "length (coded_up_to b m) = first_place b m"
proof (induction m)
  case (Suc m)
  show ?case
  proof (cases m)
    case (Suc m')
    then show ?thesis using Suc.IH count_take_filter [of "length b" b m]
      by (simp add: coded_up_to_def first_place_def)
  qed (simp add: coded_up_to_def first_place_def)
qed (simp add: coded_up_to_def first_place_def)

lemma coded_up_to_nth:
  "p < length (coded_up_to b m) \<Longrightarrow> coded_up_to b m ! p < length b \<and> b ! (coded_up_to b m ! p) \<noteq> 0 \<and>
    place b (coded_up_to b m ! p) = p"
proof (induction m)
  case (Suc m)
  show ?case
  proof (cases "1 \<le> m")
    case True
    let ?f = "filter (\<lambda>q. b ! q = m) [0..<length b]"
    have split: "coded_up_to b (Suc m) = coded_up_to b m @ ?f" using True by (simp add: coded_up_to_def)
    show ?thesis
    proof (cases "p < length (coded_up_to b m)")
      case False
      then have n: "p - first_place b m < length ?f" and p: "first_place b m \<le> p"
        using Suc.prems by (simp_all add: split length_coded_up_to)
      from nth_filter_upt [OF n] count_take_filter [of "?f ! (p - first_place b m)" b m] p True
      show ?thesis by (simp add: split nth_append length_coded_up_to False place_def)
    qed (use Suc.IH in \<open>simp add: split nth_append\<close>)
  qed (use Suc.prems in \<open>simp add: coded_up_to_def\<close>)
qed (simp add: coded_up_to_def)

lemmas coded_nth = coded_up_to_nth [of _ _ "Suc BMAX", folded coded_def]

lemma set_coded: "set b \<subseteq> {..BMAX} \<Longrightarrow> q \<in> set (coded b) \<longleftrightarrow> q < length b \<and> b ! q \<noteq> 0"
  by (auto simp: coded_def coded_up_to_def subset_iff less_Suc_eq_le simp del: upt_Suc)

lemma coded_place:
  assumes "set b \<subseteq> {..BMAX}" "q < length b" "b ! q \<noteq> 0"
  shows "place b q < length (coded b)" "coded b ! place b q = q"
proof -
  from assms obtain p where "p < length (coded b)" "coded b ! p = q" by (metis set_coded in_set_conv_nth)
  with coded_nth [of p b] show "place b q < length (coded b)" "coded b ! place b q = q" by auto
qed

lemma distinct_coded: "distinct (coded b)"
  unfolding distinct_conv_nth using coded_nth [of _ b] by metis

lemma length_coded:
  assumes "set b \<subseteq> {..BMAX}"
  shows "length (coded b) \<le> length b"
proof -
  have "set (coded b) \<subseteq> {..<length b}" using set_coded [OF assms] by auto
  then show ?thesis using distinct_coded [of b] by (metis card_lessThan card_mono distinct_card finite_lessThan)
qed

text \<open>The code of a symbol counts the places of the codes before it.\<close>

lemma canonical_units:
  assumes b: "set b \<subseteq> {..g}" "g \<le> BMAX" and q: "q < length b" "b ! q \<noteq> 0"
  shows "units g (take (place b q) (map ((!) b) (coded b))) = canonical b q * 2 ^ (g - b ! q)"
proof -
  have bm: "set b \<subseteq> {..BMAX}" using b by auto
  note pq = coded_place [OF bm q]
  have before: "set (take (place b q) (coded b)) = codes_before b q"
  proof (intro set_eqI iffI)
    fix r assume "r \<in> set (take (place b q) (coded b))"
    then obtain p where "p < place b q" "p < length (coded b)" "coded b ! p = r" by (auto simp: in_set_conv_nth)
    then have "r < length b" "b ! r \<noteq> 0" "place b r < place b q" using coded_nth [of p b] by auto
    with q show "r \<in> codes_before b q" using place_less_iff by blast
  next
    fix r assume r: "r \<in> codes_before b q"
    then have r': "r < length b" "b ! r \<noteq> 0" by (auto simp: codes_before_def)
    have "place b r < place b q" by (rule place_less [OF r q(1)])
    with coded_place [OF bm r'] show "r \<in> set (take (place b q) (coded b))"
      by (auto simp: in_set_conv_nth intro!: exI [of _ "place b r"])
  qed
  have dist: "distinct (take (place b q) (coded b))" using distinct_coded by (rule distinct_take)
  have "units g (take (place b q) (map ((!) b) (coded b))) = (\<Sum>r \<leftarrow> take (place b q) (coded b). 2 ^ (g - b ! r))"
    by (simp add: units_def take_map comp_def)
  also have "\<dots> = (\<Sum>r \<in> codes_before b q. 2 ^ (g - b ! r))"
    using sum_list_distinct_conv_sum_set [OF dist] by (simp add: before)
  also have "\<dots> = (\<Sum>r \<in> codes_before b q. 2 ^ (b ! q - b ! r) * 2 ^ (g - b ! q))"
  proof (rule sum.cong)
    fix r assume "r \<in> codes_before b q"
    then have "b ! r \<le> b ! q" by (auto simp: codes_before_def)
    moreover have "b ! q \<le> g" using b(1) nth_mem [OF q(1)] by auto
    ultimately have "g - b ! r = (b ! q - b ! r) + (g - b ! q)" by simp
    then show "(2 :: nat) ^ (g - b ! r) = 2 ^ (b ! q - b ! r) * 2 ^ (g - b ! q)" by (simp only: power_add)
  qed simp
  finally show ?thesis by (simp add: canonical_def sum_distrib_right)
qed

subsection \<open>The table of values\<close>

lemma length_counts_eq: "length_counts b = count_list b"
  by (simp add: fun_eq_iff length_counts_count)

lemma value_offsets_places:
  "k \<le> g \<Longrightarrow> value_offsets (count_list b) g k = first_place b k"
proof (induction g arbitrary: k)
  case 0
  then show ?case by (simp add: value_offsets_def first_place_def)
next
  case (Suc g)
  show ?case
  proof (cases "1 \<le> g")
    case True
    then have step: "value_offsets (count_list b) (Suc g)
        = (let x = value_offsets (count_list b) g in x(Suc g := x g + count_list b g))"
      by (simp add: value_offsets_def Let_def)
    show ?thesis
    proof (cases "k = Suc g")
      case True
      then show ?thesis using Suc.IH [of g] \<open>1 \<le> g\<close>
        by (simp add: step Let_def first_place_Suc)
    qed (use Suc in \<open>simp add: step Let_def\<close>)
  next
    case False
    then have "k = 0 \<or> k = 1" using Suc.prems by linarith
    then show ?thesis using False by (auto simp: value_offsets_def first_place_def)
  qed
qed

text \<open>Every symbol is stored at its place, and stays there as the ranges of the lengths are disjoint.\<close>

definition ranges_apart :: "nat list \<Rightarrow> (nat \<Rightarrow> nat) \<Rightarrow> bool" where
  "ranges_apart b x \<longleftrightarrow> (\<forall>k k' n n'. k \<noteq> 0 \<longrightarrow> k' \<noteq> 0 \<longrightarrow> n < count_list b k \<longrightarrow> n' < count_list b k' \<longrightarrow>
     x k + n = x k' + n' \<longrightarrow> k = k')"

lemma value_table_other:
  "(\<And>k n. k \<noteq> 0 \<Longrightarrow> n < count_list b k \<Longrightarrow> p \<noteq> x k + n) \<Longrightarrow> value_table b i x v p = v p"
proof (induction b arbitrary: i x v)
  case (Cons a b)
  show ?case
  proof (cases "a = 0")
    case True
    then show ?thesis using Cons.IH Cons.prems by simp
  next
    case False
    have "p \<noteq> (x(a := x a + 1)) k + n" if "k \<noteq> 0" "n < count_list b k" for k n
      using Cons.prems [of k "if k = a then Suc n else n"] that by auto
    then have "value_table b (i + 1) (x(a := x a + 1)) (v(x a \<mapsto> i)) p = (v(x a \<mapsto> i)) p" by (rule Cons.IH)
    moreover have "p \<noteq> x a" using Cons.prems [of a 0] False by simp
    ultimately show ?thesis using False by simp
  qed
qed simp

lemma value_table_place:
  assumes "ranges_apart b x" "q < length b" "b ! q \<noteq> 0"
  shows "value_table b i x v (x (b ! q) + count_list (take q b) (b ! q)) = Some (i + q)"
  using assms
proof (induction b arbitrary: i x v q)
  case (Cons a b)
  show ?case
  proof (cases "a = 0")
    case True
    then obtain q' where q: "q = Suc q'" using Cons.prems(3) by (cases q) auto
    have "ranges_apart b x" using Cons.prems(1) True by (auto simp: ranges_apart_def)
    from Cons.IH [OF this, of q'] Cons.prems q True show ?thesis by simp
  next
    case False
    let ?x = "x(a := x a + 1)"
    have apart: "ranges_apart b ?x"
      unfolding ranges_apart_def
    proof (intro allI impI)
      fix k k' n n' assume h: "k \<noteq> 0" "k' \<noteq> 0" "n < count_list b k" "n' < count_list b k'" "?x k + n = ?x k' + n'"
      show "k = k'"
        using Cons.prems(1) [unfolded ranges_apart_def, rule_format, of k k' "if k = a then Suc n else n" "if k' = a then Suc n' else n'"] h
        by (cases "k = a"; cases "k' = a") auto
    qed
    show ?thesis
    proof (cases q)
      case 0
      have "x a \<noteq> ?x k + n" if "k \<noteq> 0" "n < count_list b k" for k n
        using Cons.prems(1) [unfolded ranges_apart_def, rule_format, of a k 0 n] that False by auto
      then have "value_table b (i + 1) ?x (v(x a \<mapsto> i)) (x a) = (v(x a \<mapsto> i)) (x a)" by (rule value_table_other)
      then show ?thesis using 0 False by simp
    next
      case (Suc q')
      have "value_table (a # b) i x v = value_table b (i + 1) ?x (v(x a \<mapsto> i))" using False by simp
      moreover have "x ((a # b) ! q) + count_list (take q (a # b)) ((a # b) ! q) = ?x (b ! q') + count_list (take q' b) (b ! q')"
        using Suc by simp
      moreover have "value_table b (i + 1) ?x (v(x a \<mapsto> i)) (?x (b ! q') + count_list (take q' b) (b ! q')) = Some (i + 1 + q')"
        using Cons.prems(2,3) Suc by (intro Cons.IH [OF apart]) simp_all
      moreover have "i + 1 + q' = i + q" using Suc by simp
      ultimately show ?thesis by (simp only:)
    qed
  qed
qed simp

lemma values_at_places:
  assumes "set b \<subseteq> {..g}" "q < length b" "b ! q \<noteq> 0"
  shows "value_table b 0 (value_offsets (length_counts b) g) (\<lambda>_. None) (place b q) = Some q"
proof -
  let ?x = "value_offsets (count_list b) g"
  have x: "?x k = first_place b k" if "count_list b k \<noteq> 0" for k
    using that assms(1) by (intro value_offsets_places) (auto simp: count_list_0_iff)
  have order: "first_place b k + n < first_place b k' + n'" if "k \<noteq> 0" "n < count_list b k" "k < k'" for k k' n n'
    using first_place_mono [of "Suc k" k' b] that by (simp add: first_place_Suc)
  have "ranges_apart b ?x"
    unfolding ranges_apart_def
  proof (intro allI impI)
    fix k k' n n' assume h: "k \<noteq> 0" "k' \<noteq> 0" "n < count_list b k" "n' < count_list b k'" "?x k + n = ?x k' + n'"
    then have "first_place b k + n = first_place b k' + n'" using x [of k] x [of k'] by simp
    then show "k = k'" using order [of k n k' n'] order [of k' n' k n] h by (metis less_irrefl nat_neq_iff)
  qed
  from value_table_place [OF this assms(2,3), of 0 "\<lambda>_. None"] assms show ?thesis
    by (simp add: place_def x count_list_0_iff length_counts_eq)
qed

subsection \<open>The whole routine\<close>

lemma lengths_of_coded:
  assumes b: "set b \<subseteq> {..BMAX}" "\<exists>k \<in> set b. k \<noteq> 0"
  defines "c \<equiv> length_counts b"
  shows "map fst (code_order (c(max_length c := c (max_length c) + y)) (min_length c) (max_length c))
    = map ((!) b) (coded b) @ replicate y (max_length c)"
proof -
  let ?j = "min_length c" and ?g = "max_length c" and ?c = "c(max_length c := c (max_length c) + y)"
  let ?reps = "\<lambda>c m n. concat (map (\<lambda>k. replicate (c k) k) [m..<n])"
  note lb = length_bounds [OF b, folded c_def]
  have reps: "?reps c' m n = []" if "\<And>k. m \<le> k \<Longrightarrow> k < n \<Longrightarrow> c' k = 0" for c' :: "nat \<Rightarrow> nat" and m n
    using that by simp
  have order: "map fst (code_order c' m n) = ?reps c' m (Suc n)" for c' m n
    by (simp add: code_order_def map_concat comp_def map_replicate_const del: upt_Suc)
  have "?reps ?c ?j ?g = ?reps c ?j ?g"
    by (intro arg_cong [where f = concat] map_cong) auto
  then have "?reps ?c ?j (Suc ?g) = ?reps c ?j (Suc ?g) @ replicate y ?g"
    using lb(2) by (simp add: replicate_add)
  moreover have "map ((!) b) (coded b) = ?reps c 1 (Suc BMAX)"
  proof -
    have "map ((!) b) (filter (\<lambda>q. b ! q = k) [0..<length b]) = replicate (c k) k" for k
    proof -
      have "map ((!) b) (filter (\<lambda>q. b ! q = k) [0..<length b]) = replicate (length (filter (\<lambda>q. b ! q = k) [0..<length b])) k"
        by (rule replicate_eqI [symmetric, THEN sym]) auto
      then show ?thesis using count_take_filter [of "length b" b k] by (simp add: c_def length_counts_eq)
    qed
    then show ?thesis by (simp add: coded_def coded_up_to_def map_concat comp_def del: upt_Suc)
  qed
  moreover have "?reps c 1 (Suc BMAX) = ?reps c ?j (Suc ?g)"
  proof -
    have "[1..<Suc BMAX] = [1..<?j] @ [?j..<Suc ?g] @ [Suc ?g..<Suc BMAX]"
      using lb(1-3) upt_add_eq_append [of 1 ?j "Suc BMAX - ?j"] upt_add_eq_append [of ?j "Suc ?g" "BMAX - ?g"] by simp
    moreover have "?reps c 1 ?j = []" "?reps c (Suc ?g) (Suc BMAX) = []"
      using lb(4) by (intro reps; fastforce)+
    ultimately show ?thesis by (simp only: map_append concat_append append_Nil append_Nil2)
  qed
  ultimately show ?thesis by (simp only: order)
qed

lemma brev_brev: "i < 2 ^ n \<Longrightarrow> brev n (brev n i) = i"
proof (induction n arbitrary: i)
  case (Suc n)
  let ?b = "brev n (i div 2)"
  have h: "i div 2 < 2 ^ n" using Suc.prems by auto
  have b: "?b < 2 ^ n" by (rule brev_less)
  have "brev (Suc n) ?b = 2 * (i div 2)"
    using brev_short [OF b, of "Suc n"] Suc.IH [OF h] by simp
  moreover have "brev (Suc n) (?b + 2 ^ n) = brev (Suc n) ?b + 1" using brev_add_bit [OF b, of "Suc n"] by simp
  moreover have "brev (Suc n) i = i mod 2 * 2 ^ n + ?b" by simp
  moreover have "i = 2 * (i div 2) + i mod 2" by simp
  moreover have "i mod 2 = 0 \<or> i mod 2 = 1" by linarith
  ultimately show ?case by (metis add.commute add_0 mult_1 mult_zero_left)
qed simp

text \<open>
  The lengths the theorems are about: a complete code, or one in which every symbol has a code; each
  symbol from \<open>s\<close> on has its base and extra bits.
\<close>

definition lengths_ok :: "nat list \<Rightarrow> nat \<Rightarrow> nat list \<Rightarrow> nat list \<Rightarrow> bool" where
  "lengths_ok b s d e \<longleftrightarrow> set b \<subseteq> {..BMAX} \<and> (\<exists>k \<in> set b. k \<noteq> 0) \<and> kraft BMAX b \<le> 2 ^ BMAX \<and>
     (kraft BMAX b = 2 ^ BMAX \<or> 0 \<notin> set b) \<and> length b \<le> s + length d \<and> length b \<le> s + length e"

text \<open>
  The tables are fit for look-up when no code needs a third level, or there are fewer symbols than
  the first table has entries.
\<close>

definition table_room :: "nat list \<Rightarrow> nat \<Rightarrow> bool" where
  "table_room b m \<longleftrightarrow> (\<forall>k \<in> set b. k \<le> 2 * m) \<or> kraft BMAX b = 2 ^ BMAX \<and> length b < 2 ^ m"

definition entry_of :: "nat \<Rightarrow> nat list \<Rightarrow> nat list \<Rightarrow> nat \<Rightarrow> nat \<times> huft_val" where
  "entry_of s d e v = (if v < s then (if v < 256 then 16 else 15, Num v) else (e ! (v - s), Num (d ! (v - s))))"

definition root_bits :: "nat list \<Rightarrow> nat \<Rightarrow> nat" where
  "root_bits b m = min (max m (min_length (length_counts b))) (max_length (length_counts b))"

definition built_input :: "nat list \<Rightarrow> nat \<Rightarrow> nat list \<Rightarrow> nat list \<Rightarrow> nat \<Rightarrow> nat \<Rightarrow> huft_input" where
  "built_input b s d e m y = (let c = length_counts b; g = max_length c in
     \<lparr>hi_c = c(g := c g + y), hi_g = g, hi_l = root_bits b m, hi_n = length b, hi_s = s,
      hi_d = d, hi_e = e, hi_v = value_table b 0 (value_offsets c g) (\<lambda>_. None)\<rparr>)"

lemma huft_build_loop:
  assumes ok: "lengths_ok b s d e"
  defines "c \<equiv> length_counts b"
  obtains y where
    "huft_build b s d e m = Option.bind (for_each (place_code (built_input b s d e m y))
        (code_order (hi_c (built_input b s d e m y)) (min_length c) (max_length c)) (huft_start (built_input b s d e m y)))
       (\<lambda>st. Some (if kraft BMAX b = 2 ^ BMAX \<or> (\<forall>k \<in> set b. k \<le> 1) then 0 else 1, hs_tables st, root_bits b m))"
    "y = 0 \<or> kraft BMAX b \<noteq> 2 ^ BMAX \<and> 0 \<notin> set b"
    "units (max_length c) (map fst (code_order (hi_c (built_input b s d e m y)) (min_length c) (max_length c))) = 2 ^ max_length c"
proof -
  let ?j = "min_length c" and ?g = "max_length c"
  have b: "set b \<subseteq> {..BMAX}" "\<exists>k \<in> set b. k \<noteq> 0" "kraft BMAX b \<le> 2 ^ BMAX" using ok by (auto simp: lengths_ok_def)
  note lb = length_bounds [OF b(1,2), folded c_def]
  obtain z where z: "codes_left c ?j ?g (2 ^ ?j) = (if z < 0 then None else Some z)"
    "z < 0 \<longleftrightarrow> 2 ^ BMAX < kraft BMAX b" "z = 0 \<longleftrightarrow> kraft BMAX b = 2 ^ BMAX"
    using codes_left_kraft [OF b(1,2)] unfolding c_def by blast
  have z0: "0 \<le> z" using z(2) b(3) by simp
  let ?hi = "built_input b s d e m (nat z)"
  let ?r = "if kraft BMAX b = 2 ^ BMAX \<or> (\<forall>k \<in> set b. k \<le> 1) then 0 else 1"
  have l: "(let l = if m < ?j then ?j else m in if l > ?g then ?g else l) = root_bits b m"
    by (simp add: root_bits_def c_def Let_def min_def max_def)
  have c0: "c 0 \<noteq> length b" using b(2) by (auto simp: c_def length_counts_count count_zero_iff)
  have build: "huft_build b s d e m = Option.bind (for_each (place_code ?hi) (code_order (hi_c ?hi) ?j ?g) (huft_start ?hi))
       (\<lambda>st. Some (if z \<noteq> 0 \<and> ?g \<noteq> 1 then 1 else 0, hs_tables st, root_bits b m))"
    using z0 z(1) c0 l by (simp add: huft_build_def Let_def built_input_def flip: c_def)
  have "?g = 1 \<longleftrightarrow> (\<forall>k \<in> set b. k \<le> 1)"
  proof -
    have "c k \<noteq> 0 \<longleftrightarrow> k \<in> set b" for k by (simp add: c_def length_counts_count count_list_0_iff)
    with lb(1,2,4,5) show ?thesis by (metis (no_types, opaque_lifting) le_antisym le_trans nat_le_linear le_zero_eq)
  qed
  then have verdict: "(if z \<noteq> 0 \<and> ?g \<noteq> 1 then 1 else 0 :: nat) = ?r" using z(3) by auto
  have "codes_left c ?j ?g (2 ^ ?j) = Some z" using z(1) z0 by simp
  then have "z = 2 ^ ?j * 2 ^ (?g - ?j) - (\<Sum>k = ?j..?g. int (c k) * 2 ^ (?g - k))"
    unfolding codes_left_sum [OF lb(2)] by (simp add: Let_def split: if_splits)
  then have sum: "(\<Sum>k = ?j..?g. int (c k) * 2 ^ (?g - k)) + z = 2 ^ ?g" using lb(2) by (simp flip: power_add)
  have units: "units ?g (map fst (code_order (hi_c ?hi) ?j ?g)) = 2 ^ ?g"
  proof -
    have "units ?g (map fst (code_order (hi_c ?hi) ?j ?g)) = (\<Sum>k = ?j..?g. (c(?g := c ?g + nat z)) k * 2 ^ (?g - k))"
      using lb(2) by (simp add: code_order_tail order_tail_lengths units_tail built_input_def Let_def sum.atLeast_Suc_atMost flip: c_def)
    also have "\<dots> = (\<Sum>k = ?j..?g. c k * 2 ^ (?g - k) + (if k = ?g then nat z else 0))"
      by (intro sum.cong) auto
    also have "\<dots> = (\<Sum>k = ?j..?g. c k * 2 ^ (?g - k)) + nat z" using lb(2) by (simp add: sum.distrib)
    finally have "int (units ?g (map fst (code_order (hi_c ?hi) ?j ?g))) = 2 ^ ?g" using sum z0 by simp
    then show ?thesis by (metis of_nat_eq_iff of_nat_numeral of_nat_power)
  qed
  show ?thesis
  proof (rule that [of "nat z"])
    show "nat z = 0 \<or> kraft BMAX b \<noteq> 2 ^ BMAX \<and> 0 \<notin> set b" using ok z(3) by (auto simp: lengths_ok_def)
  qed (use build verdict units in simp_all)
qed

lemma start_ok:
  fixes m :: nat
  assumes ok: "lengths_ok b s d e" and y: "y = 0 \<or> kraft BMAX b \<noteq> 2 ^ BMAX \<and> 0 \<notin> set b"
  defines "c \<equiv> length_counts b" and "hi \<equiv> built_input b s d e m y"
  defines "xs \<equiv> code_order (hi_c hi) (min_length c) (max_length c)"
  assumes units: "units (max_length c) (map fst xs) = 2 ^ max_length c"
  shows "\<exists>k a. xs = order_tail (hi_c hi) k a (hi_g hi) \<and> k \<le> hi_g hi"
    and "loop_ok hi (length (coded b)) (map fst xs) 0 (huft_start hi)"
    and "table_room b m \<Longrightarrow> placed_ok hi (map fst xs) [] 0 (huft_start hi)"
proof -
  let ?j = "min_length c" and ?g = "max_length c" and ?l = "root_bits b m"
  have b: "set b \<subseteq> {..BMAX}" "\<exists>k \<in> set b. k \<noteq> 0" "length b \<le> s + length d" "length b \<le> s + length e"
    using ok by (auto simp: lengths_ok_def)
  note lb = length_bounds [OF b(1,2), folded c_def]
  have hi: "hi_g hi = ?g" "hi_l hi = ?l" "hi_n hi = length b" "hi_s hi = s" "hi_d hi = d" "hi_e hi = e"
    "hi_c hi = c(?g := c ?g + y)" "hi_v hi = value_table b 0 (value_offsets c ?g) (\<lambda>_. None)"
    by (simp_all add: hi_def built_input_def Let_def c_def)
  have l: "1 \<le> ?l" "?l \<le> ?g" "?j \<le> ?l" using lb(1,2) by (auto simp: root_bits_def c_def)
  have order: "xs = order_tail (hi_c hi) ?j (hi_c hi ?j) ?g" using lb(2) by (simp add: xs_def code_order_tail)
  then show "\<exists>k a. xs = order_tail (hi_c hi) k a (hi_g hi) \<and> k \<le> hi_g hi" using lb(2) by (auto simp: hi)
  have ks: "map fst xs = tail_lengths (hi_c hi) ?j (hi_c hi ?j) ?g" by (simp add: order order_tail_lengths)
  have low: "?j \<le> k" "k \<le> ?g" if "k \<in> set (map fst xs)" for k
    using that tail_lengths_sorted(2) tail_lengths_le [OF lb(2)] unfolding ks by blast+
  have len: "map fst xs = map ((!) b) (coded b) @ replicate y ?g"
    using lengths_of_coded [OF b(1,2), of y] by (simp add: xs_def hi c_def)
  have "fits (map fst xs) 0" unfolding ks fits_def using tail_lengths_sorted(1) by simp
  then have codes: "codes_ok hi (map fst xs) 0" using low(2) units by (simp add: codes_ok_def hi del: set_map)
  have bg: "set b \<subseteq> {..?g}"
  proof
    fix k assume "k \<in> set b"
    then have "c k \<noteq> 0" by (simp add: c_def length_counts_count count_list_0_iff)
    then show "k \<in> {..?g}" using lb(4) [of k] by (cases "k = 0") auto
  qed
  have vals: "values_ok hi (length (coded b))"
    unfolding values_ok_def
  proof (intro allI impI)
    fix p assume "p < length (coded b)"
    from coded_nth [OF this] have q: "coded b ! p < length b" "b ! (coded b ! p) \<noteq> 0" "place b (coded b ! p) = p" by auto
    from values_at_places [OF bg q(1,2)] q(3) have "hi_v hi p = Some (coded b ! p)" by (simp add: hi c_def)
    with q(1) b(3,4) show "\<exists>v. hi_v hi p = Some v \<and> (v < hi_s hi \<or> v - hi_s hi < length (hi_e hi) \<and> v - hi_s hi < length (hi_d hi))"
      by (auto simp: hi)
  qed
  have all: "length b \<le> length (coded b)" if "0 \<notin> set b"
  proof -
    have "{..<length b} \<subseteq> set (coded b)"
    proof
      fix q assume "q \<in> {..<length b}"
      then have "q < length b" by simp
      with nth_mem [OF this] that show "q \<in> set (coded b)" by (metis set_coded [OF b(1)])
    qed
    then have "card {..<length b} \<le> card (set (coded b))" by (intro card_mono) auto
    also have "\<dots> \<le> length (coded b)" by (rule card_length)
    finally show ?thesis by simp
  qed
  have "stack_ok hi (map fst xs) 0 (huft_start hi)"
    using low(1) lb(1) l(1) by (force simp: stack_ok_def huft_start_def hi simp del: set_map)
  with codes vals all y l lb(3) show "loop_ok hi (length (coded b)) (map fst xs) 0 (huft_start hi)"
    by (auto simp: loop_ok_def input_ok_def len hi huft_start_def)
  assume m: "table_room b m"
  have "length (map fst xs) < 2 ^ ?l \<or> ?g \<le> 2 * ?l"
  proof (cases "\<forall>k \<in> set b. k \<le> 2 * m")
    case True
    have "?g \<in> set b" using lb(5) by (simp add: c_def length_counts_count count_list_0_iff)
    with True have "?g \<le> 2 * ?l" by (auto simp: root_bits_def c_def)
    then show ?thesis ..
  next
    case False
    then have "y = 0" "length b < 2 ^ m" using m y by (auto simp: table_room_def)
    then have len': "length (map fst xs) < 2 ^ m" using length_coded [OF b(1)] by (simp add: len)
    show ?thesis
    proof (cases "?l = ?g")
      case False
      then have "m \<le> ?l" by (auto simp: root_bits_def c_def)
      then have "(2 :: nat) ^ m \<le> 2 ^ ?l" by simp
      with len' show ?thesis by linarith
    qed simp
  qed
  moreover have "?g \<in> set (map fst xs)"
  proof -
    have "?g \<in> set b" using lb(5) by (simp add: c_def length_counts_count count_list_0_iff)
    then obtain q where "q < length b" "b ! q = ?g" by (auto simp: in_set_conv_nth)
    with lb(1,2) have "q \<in> set (coded b)" by (simp add: set_coded [OF b(1)])
    with \<open>b ! q = ?g\<close> show ?thesis unfolding len by force
  qed
  moreover have "hd (map fst xs) \<le> ?l"
  proof -
    have "c ?j \<noteq> 0" using lb(1,2) min_length_used [OF b(1,2)] by (simp add: c_def)
    then have "hi_c hi ?j \<noteq> 0" by (auto simp: hi)
    then have "hd (map fst xs) = ?j" unfolding ks by (simp add: tail_lengths_def hd_append)
    then show ?thesis using l(3) by simp
  qed
  ultimately show "placed_ok hi (map fst xs) [] 0 (huft_start hi)"
    using units by (simp add: placed_ok_def Let_def hi huft_start_def before_def used_def tree_ok_def stack_walks_def del: set_map)
qed

text \<open>It returns, whatever the number of levels.\<close>

lemma huft_build_returns:
  assumes "lengths_ok b s d e"
  shows "\<exists>ts. huft_build b s d e m
    = Some (if kraft BMAX b = 2 ^ BMAX \<or> (\<forall>k \<in> set b. k \<le> 1) then 0 else 1, ts, root_bits b m)"
proof (rule huft_build_loop [OF assms, of m], goal_cases)
  case (1 y)
  note start = start_ok [OF assms 1(2,3)]
  from place_codes_total [OF refl start(1,2)] 1(1) show ?thesis by auto
qed

text \<open>Its tables decode the canonical code.\<close>

lemma huft_build_decodes:
  assumes ok: "lengths_ok b s d e" and two: "table_room b m" and q: "q < length b" "b ! q \<noteq> 0"
    and h: "huft_build b s d e m = Some (r, ts, l)"
  shows "decodes ts l (b ! q) (brev (b ! q) (canonical b q)) (entry_of s d e q)"
proof (rule huft_build_loop [OF ok, of m], goal_cases)
  case (1 y)
  define c where "c = length_counts b"
  define hi where "hi = built_input b s d e m y"
  define xs where "xs = code_order (hi_c hi) (min_length c) (max_length c)"
  have b: "set b \<subseteq> {..BMAX}" "\<exists>k \<in> set b. k \<noteq> 0" using ok by (auto simp: lengths_ok_def)
  note lb = length_bounds [OF b, folded c_def]
  have g: "hi_g hi = max_length c" "hi_l hi = root_bits b m" "hi_n hi = length b"
    by (simp_all add: hi_def built_input_def Let_def c_def)
  note start = start_ok [OF ok 1(2,3), folded c_def hi_def, folded xs_def]
  from place_codes [OF refl start(1,2) start(3) [OF two]] obtain st es where
    es: "for_each (place_code hi) xs (huft_start hi) = Some st" "all_decode (hs_tables st) (hi_l hi) es"
      "map code_of es = codes_from (map fst xs) 0"
      "\<And>n. n < length es \<Longrightarrow> n < hi_n hi \<Longrightarrow> snd (snd (es ! n)) = symbol_entry hi (the (hi_v hi n))"
    by (auto simp: huft_start_def)
  have ts: "ts = hs_tables st" "l = root_bits b m" using h 1(1) es(1) by (simp_all add: xs_def hi_def c_def)
  let ?p = "place b q" and ?ks = "map fst xs" and ?k = "b ! q" and ?g = "max_length c"
  have len: "?ks = map ((!) b) (coded b) @ replicate y ?g"
    using lengths_of_coded [OF b, of y] by (simp add: xs_def g c_def hi_def built_input_def Let_def)
  note pq = coded_place [OF b(1) q]
  have lks: "length es = length ?ks" using es(3) by (metis codes_from_lengths length_map)
  have p: "?p < length ?ks" "?ks ! ?p = ?k" using pq by (simp_all add: len nth_append)
  obtain k i ev where e: "es ! ?p = (k, i, ev)" by (metis prod_cases3)
  have "codes_from ?ks 0 ! ?p = (k, i)" using es(3) e p(1) lks by (metis case_prod_conv nth_map)
  moreover have nth: "n < length ks \<Longrightarrow> codes_from ks j ! n = (ks ! n, fold increment_code (take n ks) j)" for ks j n
    by (induction ks arbitrary: j n) (auto simp: nth_Cons split: nat.splits)
  ultimately have ki: "k = ?k" "i = fold increment_code (take ?p ?ks) 0" using p by (auto simp del: fold_simps)
  have codes: "codes_ok hi ?ks 0" using start(2) by (simp add: loop_ok_def huft_start_def)
  have split: "?ks = take ?p ?ks @ ?k # drop (Suc ?p) ?ks" using p by (metis id_take_nth_drop)
  have "k \<le> ?g" using codes p by (metis codes_ok_def g(1) ki(1) nth_mem)
  have bg: "set b \<subseteq> {..?g}"
  proof
    fix k assume "k \<in> set b"
    then have "c k \<noteq> 0" by (simp add: c_def length_counts_count count_list_0_iff)
    then show "k \<in> {..?g}" using lb(4) [of k] by (cases "k = 0") auto
  qed
  have "brev ?g i = units ?g (take ?p ?ks)"
    using codes_from_value [of "take ?p ?ks" ?k "drop (Suc ?p) ?ks" 0 ?g] codes unfolding split [symmetric] codes_ok_def g ki
    by simp
  also have "\<dots> = canonical b q * 2 ^ (?g - ?k)"
    using canonical_units [OF bg lb(3) q] pq(1) by (simp add: len)
  finally have v: "brev ?g i = canonical b q * 2 ^ (?g - ?k)" .
  have "(k, i) \<in> set (codes_from ?ks 0)" using es(3) e p(1) lks by (force simp: in_set_conv_nth simp flip: es(3))
  then have ik: "i < 2 ^ ?k" using fits_code [of ?ks 0 k i] codes ki(1) by (simp add: codes_ok_def)
  have "brev ?k i = canonical b q" using brev_short [OF ik, of ?g] v \<open>k \<le> ?g\<close> ki(1) by simp
  then have i: "i = brev ?k (canonical b q)" using brev_brev [OF ik] by simp
  have "?p < length b" using pq(1) length_coded [OF b(1)] by simp
  then have "ev = symbol_entry hi (the (hi_v hi ?p))" using es(4) [of ?p] e p(1) lks by (simp add: g)
  also have "hi_v hi ?p = Some q" using values_at_places [OF bg q] by (simp add: hi_def built_input_def Let_def c_def)
  finally have "ev = entry_of s d e q" by (simp add: symbol_entry_def entry_of_def hi_def built_input_def Let_def)
  moreover have "(k, i, ev) \<in> set es" using e p(1) lks by (metis nth_mem)
  ultimately show ?thesis using es(2) ki(1) i by (auto simp: ts g)
qed

subsection \<open>The property\<close>



text \<open>An incomplete code with lengths 0: the read of a value that was never stored.\<close>

lemma huft_build_reads_unset: "huft_build [0, 1] 0 [1, 2] [0, 0] 6 = None"
  by code_simp

text \<open>A complete code, and its two tables.\<close>

lemma huft_build_sample:
  "huft_build [2, 1, 3, 3] 4 [] [] 2 = Some (0,
    [[Some \<lparr>h_e = 16, h_b = 1, h_v = Num 1\<rparr>, Some \<lparr>h_e = 16, h_b = 2, h_v = Num 0\<rparr>,
      Some \<lparr>h_e = 16, h_b = 1, h_v = Num 1\<rparr>, Some \<lparr>h_e = 17, h_b = 2, h_v = Tab 1\<rparr>],
     [Some \<lparr>h_e = 16, h_b = 1, h_v = Num 2\<rparr>, Some \<lparr>h_e = 16, h_b = 1, h_v = Num 3\<rparr>]], 2)"
  by code_simp

end
