(* ===== verification/Gzip_Facts.thy ===== *)
theory Gzip_Facts
  imports Gzip_Io
begin


section \<open>The check sum\<close>

text \<open>
  The table-driven check sum of boot/zBoot/misc.c computes the bit-by-bit division by the CRC-32
  polynomial: one shift is linear over exclusive-or, so the shifts of a byte can be tabulated.
\<close>

named_theorems crc_simps \<open>the shift register of the check sum\<close>

text \<open>The reference: a byte is added at the low end and shifted out bit by bit.\<close>

definition crc_byte :: "u8 \<Rightarrow> u32 \<Rightarrow> u32" where
  "crc_byte x c = (crc_shift crc_poly ^^ 8) (c XOR ucast x)"

definition crc32 :: "u8 list \<Rightarrow> u32" where
  "crc32 xs = NOT (fold crc_byte xs 0xFFFFFFFF)"

lemma crc_poly_value: "crc_poly = 0xEDB88320"
  by (simp add: crc_poly_def crc_exponents_def push_bit_eq_mult)

lemma odd_xor: "odd (a XOR b :: u32) \<longleftrightarrow> odd a \<noteq> odd b"
  using bit_xor_iff [of a b 0] by (simp add: bit_0)

lemma crc_shift_alt: "crc_shift e c = (if odd c then e else 0) XOR drop_bit 1 c"
  by (simp add: crc_shift_def and_one_eq mod_2_eq_odd xor.commute)

lemma crc_shift_xor [crc_simps]: "crc_shift e (a XOR b) = crc_shift e a XOR crc_shift e b"
  by (cases "odd a"; cases "odd b") (simp_all add: crc_shift_alt odd_xor drop_bit_xor ac_simps)

lemma crc_shifts_xor [crc_simps]:
  "(crc_shift e ^^ n) (a XOR b) = (crc_shift e ^^ n) a XOR (crc_shift e ^^ n) b"
  by (induction n) (simp_all add: crc_simps)

text \<open>Low bits that are zero are shifted out.\<close>

lemma crc_shifts_high [crc_simps]: "(crc_shift e ^^ n) (push_bit n (w :: u32)) = drop_bit n (push_bit n w)"
proof (induction n arbitrary: w)
  case (Suc n)
  have pushes: "push_bit (Suc n) w = push_bit n (push_bit 1 w)" by (simp add: push_bit_push_bit)
  have drops: "drop_bit (Suc n) v = drop_bit 1 (drop_bit n v)" for v :: u32 by (simp add: drop_bit_drop_bit)
  have "(crc_shift e ^^ Suc n) (push_bit (Suc n) w) = crc_shift e ((crc_shift e ^^ n) (push_bit n (push_bit 1 w)))"
    by (simp only: funpow.simps comp_apply pushes)
  also have "\<dots> = crc_shift e (drop_bit n (push_bit n (push_bit 1 w)))" by (simp only: Suc.IH)
  also have "\<dots> = drop_bit 1 (drop_bit n (push_bit n (push_bit 1 w)))"
  proof -
    have "\<not> bit (drop_bit n (push_bit n (push_bit 1 w)) :: u32) 0"
      by (simp only: bit_drop_bit_eq bit_push_bit_iff comp_apply) simp
    then have "even (drop_bit n (push_bit n (push_bit 1 w)) :: u32)" by (simp only: bit_0 not_not)
    then show ?thesis by (simp add: crc_shift_alt)
  qed
  also have "\<dots> = drop_bit (Suc n) (push_bit (Suc n) w)"
    by (simp only: pushes drops)
  finally show ?case .
qed simp

text \<open>The loop of \<open>makecrc\<close> shifts the bits of its index in, lowest first.\<close>

lemma crc_entry_shifts:
  "i < 2 ^ n \<Longrightarrow> n < 32 \<Longrightarrow> crc_entry e (i + 2 ^ n) c = (crc_shift e ^^ n) (c XOR of_nat i)"
proof (induction n arbitrary: i c)
  case 0
  then show ?case by (simp add: crc_entry.simps)
next
  case (Suc n)
  have split: "crc_shift e (c XOR of_nat i)
      = (if odd i then crc_shift e c XOR e else crc_shift e c) XOR of_nat (i div 2)"
  proof -
    have "drop_bit 1 (of_nat i :: u32) = of_nat (i div 2)"
    proof (rule unsigned_word_eqI)
      have i: "i < 2 ^ 32" using Suc.prems power_increasing [of "Suc n" 32 "2 :: nat"] by simp
      then have "i div 2 < 2 ^ 32" by simp
      with i show "unat (drop_bit 1 (of_nat i :: u32)) = unat (of_nat (i div 2) :: u32)"
        by (simp add: unat_drop_bit_eq unat_of_nat take_bit_nat_eq_self drop_bit_eq_div unat_div)
    qed
    then have "crc_shift e (of_nat i) = (if odd i then e else 0) XOR of_nat (i div 2)"
      by (simp add: crc_shift_alt)
    then show ?thesis by (simp add: crc_shift_xor xor.assoc)
  qed
  have k: "(i + 2 ^ Suc n) div 2 = i div 2 + 2 ^ n" "(i + 2 ^ Suc n) mod 2 = i mod 2" by simp_all
  have k1: "\<not> i + 2 ^ Suc n \<le> 1"
  proof -
    have "0 < (2 :: nat) ^ n" by simp
    then show ?thesis unfolding power_Suc by linarith
  qed
  have "crc_entry e (i + 2 ^ Suc n) c
      = crc_entry e (i div 2 + 2 ^ n) (if odd i then crc_shift e c XOR e else crc_shift e c)"
    by (subst crc_entry.simps) (simp only: k k1 Let_def odd_iff_mod_2_eq_one if_False)
  also have "\<dots> = (crc_shift e ^^ n) (crc_shift e (c XOR of_nat i))"
  proof -
    have "i div 2 < 2 ^ n" "n < 32" using Suc.prems by simp_all
    from Suc.IH [OF this] show ?thesis by (simp only: split)
  qed
  finally show ?case by (simp only: funpow_Suc_right comp_apply)
qed

lemma makecrc_entry: "crc_32_tab (makecrc s) x = (crc_shift crc_poly ^^ 8) (ucast x)"
proof -
  have "crc_entry crc_poly (unat x + 2 ^ 8) 0 = (crc_shift crc_poly ^^ 8) (of_nat (unat x))"
    using unsigned_less [of x, where 'a = nat] by (subst crc_entry_shifts) simp_all
  moreover have "(of_nat (unat x) :: u32) = ucast x" by simp
  moreover have "(crc_shift crc_poly ^^ 8) 0 = 0"
    using crc_shifts_high [where e = crc_poly and n = 8 and w = 0] by simp
  ultimately show ?thesis by (simp add: makecrc_def)
qed

lemma low_and_high: "(c :: u32) = ucast (ucast c :: u8) XOR push_bit 8 (drop_bit 8 c)"
proof (rule bit_word_eqI)
  fix n assume "n < LENGTH(32)"
  then show "bit c n \<longleftrightarrow> bit (ucast (ucast c :: u8) XOR push_bit 8 (drop_bit 8 c)) n"
    by (auto simp: bit_simps)
qed

lemma crc_step_byte:
  assumes "\<And>x. tab x = (crc_shift crc_poly ^^ 8) (ucast x)"
  shows "crc_step tab x c = crc_byte x c"
proof -
  let ?c = "c XOR ucast x"
  have "crc_byte x c = (crc_shift crc_poly ^^ 8) (ucast (ucast ?c :: u8) XOR push_bit 8 (drop_bit 8 ?c))"
    unfolding crc_byte_def using low_and_high [of ?c] by simp
  also have "\<dots> = tab (ucast ?c) XOR drop_bit 8 (push_bit 8 (drop_bit 8 ?c))"
    by (simp only: crc_shifts_xor crc_shifts_high assms)
  also have "drop_bit 8 (push_bit 8 (drop_bit 8 ?c)) = drop_bit 8 c"
    by (rule bit_word_eqI) (auto simp: bit_simps dest: bit_imp_le_length)
  finally show ?thesis by (simp add: crc_step_def)
qed

definition crc_table_ok :: "gzip \<Rightarrow> bool" where
  "crc_table_ok s \<longleftrightarrow> (\<forall>x. crc_32_tab s x = (crc_shift crc_poly ^^ 8) (ucast x))"

lemma makecrc_ok [simp]: "crc_table_ok (makecrc s)"
  by (simp add: crc_table_ok_def makecrc_entry)

lemma updcrc_fold:
  assumes "crc_table_ok s"
  shows "updcrc p n s = (let c = fold crc_byte (map p [0..<n]) (crc s) in (NOT c, s\<lparr>crc := c\<rparr>))"
proof -
  have "crc_step (crc_32_tab s) = crc_byte"
    using assms by (simp add: fun_eq_iff crc_step_byte crc_table_ok_def)
  then have "fold (\<lambda>i. crc_step (crc_32_tab s) (p i)) [0..<n] (crc s) = fold crc_byte (map p [0..<n]) (crc s)"
    by (simp add: fold_map comp_def)
  moreover have "c XOR 0xFFFFFFFF = NOT c" for c :: u32
  proof -
    have "(0xFFFFFFFF :: u32) = - 1" by simp
    then show ?thesis by (simp only: bit.xor_one_right)
  qed
  ultimately show ?thesis by (simp add: updcrc_def Let_def)
qed

section \<open>The buffers as lists\<close>

text \<open>
  The buffers of the boot decompressor as lists: \<open>unread\<close> is the input not yet read, \<open>out_bytes\<close>
  the output produced so far, in \<open>output_data\<close> and in the window. Reading takes a byte from the one
  and \<open>put_window\<close> adds one to the other, whatever the buffers' fill; the sliding window always
  holds the last 32 kilobytes of output.
\<close>

named_theorems gzip_simps \<open>the buffers of the decompressor as lists\<close>

subsection \<open>Input\<close>

text \<open>The last element is the byte behind the data that \<open>fill_inbuf\<close> counts in.\<close>

definition unread :: "gzip \<Rightarrow> u8 list" where
  "unread s = map (inbuf s) [inptr s..<insize s] @ map (input_data s) [input_ptr s..<input_len s + 1]"

text \<open>Everything but the input buffer.\<close>

definition same_but_input :: "gzip \<Rightarrow> gzip \<Rightarrow> bool" where
  "same_but_input s s' \<longleftrightarrow>
     s'\<lparr>inbuf := inbuf s, insize := insize s, inptr := inptr s, input_ptr := input_ptr s,
        bytes_in := bytes_in s\<rparr> = s"

lemma same_but_input_refl [simp]: "same_but_input s s"
  by (simp add: same_but_input_def)

lemma same_but_inputD:
  assumes "same_but_input s s'"
  shows "input_data s' = input_data s" "input_len s' = input_len s" "window s' = window s" "outcnt s' = outcnt s"
    "output_data s' = output_data s" "output_ptr s' = output_ptr s" "bytes_out s' = bytes_out s"
    "crc s' = crc s" "crc_32_tab s' = crc_32_tab s" "bb s' = bb s" "bk s' = bk s"
  using assms by (cases s; cases s'; simp add: same_but_input_def)+

lemma same_but_input_trans: "same_but_input s t \<Longrightarrow> same_but_input t u \<Longrightarrow> same_but_input s u"
  by (cases s; cases t; cases u) (simp add: same_but_input_def)

lemma map_upt_shift: "map (\<lambda>j. f (a + (j - b))) [b..<b + n] = map f [a..<a + n]"
  by (rule nth_equalityI) simp_all

text \<open>\<open>fill_loop\<close> reads all that fits.\<close>

lemma fill_loop_done:
  assumes "inbuf_room s = 0"
  shows "fill_loop s = Some s"
  using assms by (simp add: fill_loop.simps)

lemma fill_loop_reads:
  fixes s :: gzip
  defines "left \<equiv> input_len s + 1 - input_ptr s"
  defines "n \<equiv> min INBUFSIZ left"
  assumes "insize s = 0" and "input_ptr s \<le> input_len s + 1"
  shows "\<exists>f. fill_loop s = Some (s\<lparr>inbuf := f, insize := n, input_ptr := input_ptr s + n\<rparr>)
           \<and> map f [0..<n] = map (input_data s) [input_ptr s..<input_ptr s + n]"
proof (cases "left = 0")
  case True
  then have "inbuf_room s = 0" using assms by (simp add: inbuf_room_def INBUFSIZ_def)
  then show ?thesis using True assms by (intro exI [of _ "inbuf s"]) (simp add: fill_loop_done)
next
  case False
  let ?f = "\<lambda>j. if insize s \<le> j \<and> j < insize s + n then input_data s (input_ptr s + (j - insize s)) else inbuf s j"
  let ?s = "s\<lparr>inbuf := ?f, insize := insize s + n, input_ptr := input_ptr s + n\<rparr>"
  have room: "inbuf_room s = int n"
    using assms unfolding inbuf_room_def Let_def n_def left_def by auto
  moreover have pos: "0 < n" using False by (simp add: n_def INBUFSIZ_def)
  ultimately have "fill_loop s = (if insize ?s < INBUFSIZ then fill_loop ?s else Some ?s)"
    by (subst fill_loop.simps) (simp add: Let_def)
  moreover have "fill_loop ?s = Some ?s" if "n < INBUFSIZ"
  proof -
    have "n = left" using that by (simp add: n_def min_def split: if_splits)
    then have "inbuf_room ?s = 0"
      using assms(3,4) that unfolding inbuf_room_def Let_def left_def by auto
    then show ?thesis by (rule fill_loop_done)
  qed
  ultimately have "fill_loop s = Some ?s" using assms(3) by simp
  moreover have "map ?f [0..<n] = map (input_data s) [input_ptr s..<input_ptr s + n]"
    using assms(3) by (simp add: list_eq_iff_nth_eq)
  ultimately show ?thesis using assms(3) by (intro exI [of _ ?f]) simp
qed

lemma get_byte_unread:
  assumes "unread s = c # cs" and "input_ptr s \<le> input_len s + 1"
  obtains s' where "get_byte s = Some (c, s')" and "unread s' = cs" and "same_but_input s s'"
    and "input_ptr s' \<le> input_len s + 1" and "0 < inptr s'" and "unread (s'\<lparr>inptr := inptr s' - 1\<rparr>) = c # cs"
proof (cases "inptr s < insize s")
  case True
  show ?thesis
  proof (rule that [of "s\<lparr>inptr := inptr s + 1\<rparr>"])
    show "get_byte s = Some (c, s\<lparr>inptr := inptr s + 1\<rparr>)" "unread (s\<lparr>inptr := inptr s + 1\<rparr>) = cs"
      using True assms(1) by (simp_all add: get_byte_def unread_def upt_conv_Cons)
    show "unread (s\<lparr>inptr := inptr s + 1\<rparr>\<lparr>inptr := inptr (s\<lparr>inptr := inptr s + 1\<rparr>) - 1\<rparr>) = c # cs"
      using assms(1) by (simp add: unread_def)
  qed (use assms(2) in \<open>simp_all add: same_but_input_def\<close>)
next
  case False
  let ?s = "s\<lparr>insize := 0\<rparr>"
  define left where "left = input_len s + 1 - input_ptr s"
  define n where "n = min INBUFSIZ left"
  have p: "map (input_data s) [input_ptr s..<input_len s + 1] = c # cs"
    using assms(1) False by (simp add: unread_def)
  then have "0 < left" by (simp add: left_def split: if_splits)
  then have pos: "0 < n" by (simp add: n_def INBUFSIZ_def)
  obtain f where f: "fill_loop ?s = Some (?s\<lparr>inbuf := f, insize := n, input_ptr := input_ptr s + n\<rparr>)"
    and m: "map f [0..<n] = map (input_data s) [input_ptr s..<input_ptr s + n]"
    using fill_loop_reads [of ?s] assms(2) by (auto simp: n_def left_def)
  let ?t = "?s\<lparr>inbuf := f, insize := n, input_ptr := input_ptr s + n, bytes_in := bytes_in s + n, inptr := 1\<rparr>"
  have le: "input_ptr s + n \<le> input_len s + 1" using assms(2) by (simp add: n_def left_def)
  have "map f [0..<n] @ map (input_data s) [input_ptr s + n..<input_len s + 1]
      = map (input_data s) [input_ptr s..<input_len s + 1]"
  proof -
    obtain k where k: "input_len s + 1 = input_ptr s + n + k" using le le_Suc_ex by blast
    show ?thesis unfolding m k
      using upt_add_eq_append [of "input_ptr s" "input_ptr s + n" k] by (simp flip: map_append)
  qed
  then have all: "map f [0..<n] @ map (input_data s) [input_ptr s + n..<input_len s + 1] = c # cs" using p by simp
  then have "f 0 # map f [1..<n] @ map (input_data s) [input_ptr s + n..<input_len s + 1] = c # cs"
    using pos by (simp add: upt_conv_Cons)
  moreover have "unread (?t\<lparr>inptr := inptr ?t - 1\<rparr>) = c # cs" using all by (simp add: unread_def)
  ultimately have g: "get_byte s = Some (c, ?t)" "unread ?t = cs" "unread (?t\<lparr>inptr := inptr ?t - 1\<rparr>) = c # cs"
    using f False pos by (simp_all add: get_byte_def fill_inbuf_def unread_def)
  show ?thesis
    by (rule that [OF g(1,2) _ _ _ g(3)]) (use le in \<open>simp_all add: same_but_input_def\<close>)
qed

subsection \<open>Output\<close>

definition out_bytes :: "gzip \<Rightarrow> u8 list" where
  "out_bytes s = map (output_data s) [0..<output_ptr s] @ map (window s) [0..<outcnt s]"

text \<open>The part of the window behind the write position still holds the block before.\<close>

definition window_ok :: "gzip \<Rightarrow> bool" where
  "window_ok s \<longleftrightarrow> outcnt s < WSIZE \<and> WSIZE dvd output_ptr s \<and>
     (0 < output_ptr s \<longrightarrow> (\<forall>k. outcnt s \<le> k \<and> k < WSIZE \<longrightarrow>
        window s k = output_data s (output_ptr s - WSIZE + k)))"

text \<open>The check sum and the counter cover what has been flushed.\<close>

definition sums_ok :: "gzip \<Rightarrow> bool" where
  "sums_ok s \<longleftrightarrow> crc_table_ok s \<and> bytes_out s = output_ptr s \<and>
     crc s = fold crc_byte (map (output_data s) [0..<output_ptr s]) 0xFFFFFFFF"

text \<open>What output does not touch.\<close>

definition same_but_output :: "gzip \<Rightarrow> gzip \<Rightarrow> bool" where
  "same_but_output s s' \<longleftrightarrow>
     s'\<lparr>window := window s, outcnt := outcnt s, output_data := output_data s, output_ptr := output_ptr s,
        bytes_out := bytes_out s, crc := crc s\<rparr> = s"

lemma same_but_output_refl [simp]: "same_but_output s s"
  by (simp add: same_but_output_def)

lemma same_but_output_trans: "same_but_output s t \<Longrightarrow> same_but_output t u \<Longrightarrow> same_but_output s u"
  by (cases s; cases t; cases u) (simp add: same_but_output_def)

lemma same_but_outputD:
  assumes "same_but_output s s'"
  shows "unread s' = unread s" "input_ptr s' = input_ptr s" "input_len s' = input_len s"
    "inptr s' = inptr s" "crc_32_tab s' = crc_32_tab s" "bb s' = bb s" "bk s' = bk s"
    "unread (s'\<lparr>inptr := n\<rparr>) = unread (s\<lparr>inptr := n\<rparr>)"
  using assms by (cases s; cases s'; simp add: same_but_output_def unread_def)+

lemma output_frame:
  assumes "same_but_input s s'"
  shows "out_bytes s' = out_bytes s" "window_ok s' \<longleftrightarrow> window_ok s" "sums_ok s' \<longleftrightarrow> sums_ok s"
  using same_but_inputD [OF assms] by (simp_all add: out_bytes_def window_ok_def sums_ok_def crc_table_ok_def)

lemma map_block: "map (\<lambda>j. if a \<le> j \<and> j < a + n then f (j - a) else g j) [0..<a + n] = map g [0..<a] @ map f [0..<n]"
  by (rule nth_equalityI) (auto simp: nth_append)

text \<open>One form for both cases of \<open>flush_window\<close>.\<close>

lemma flush_window_eq:
  "flush_window s = s\<lparr>crc := fold (\<lambda>i. crc_step (crc_32_tab s) (window s i)) [0..<outcnt s] (crc s),
     output_data := (\<lambda>j. if output_ptr s \<le> j \<and> j < output_ptr s + outcnt s
                          then window s (j - output_ptr s) else output_data s j),
     bytes_out := bytes_out s + outcnt s, output_ptr := output_ptr s + outcnt s, outcnt := 0\<rparr>"
proof (cases "outcnt s = 0")
  case True
  have "(\<lambda>j. if output_ptr s \<le> j \<and> j < output_ptr s then window s (j - output_ptr s) else output_data s j)
      = output_data s" by (rule ext) auto
  then show ?thesis using True by (cases s) (simp add: flush_window_def)
next
  case False
  then show ?thesis by (simp add: flush_window_def updcrc_def Let_def cong: if_cong)
qed

text \<open>A flush moves the window's bytes to their place; nothing of the output is lost.\<close>

lemma flush_window_output:
  "out_bytes (flush_window s) = out_bytes s" "outcnt (flush_window s) = 0"
  "window (flush_window s) = window s" "output_ptr (flush_window s) = output_ptr s + outcnt s"
  "same_but_output s (flush_window s)"
  using map_block [of "output_ptr s" "outcnt s" "window s" "output_data s"]
  by (simp_all add: flush_window_eq out_bytes_def same_but_output_def)

lemma flush_window_sums:
  assumes "sums_ok s"
  shows "sums_ok (flush_window s)"
proof -
  have "crc_step (crc_32_tab s) = crc_byte"
    using assms by (simp add: fun_eq_iff crc_step_byte sums_ok_def crc_table_ok_def)
  then have "fold (\<lambda>i. crc_step (crc_32_tab s) (window s i)) [0..<outcnt s] (crc s)
      = fold crc_byte (map (window s) [0..<outcnt s]) (crc s)"
    by (simp add: fold_map comp_def)
  then show ?thesis
    using assms map_block [of "output_ptr s" "outcnt s" "window s" "output_data s"]
    by (simp add: flush_window_eq sums_ok_def crc_table_ok_def)
qed

lemma put_window_output:
  assumes "window_ok s"
  shows "out_bytes (put_window c s) = out_bytes s @ [c]" "window_ok (put_window c s)"
    "same_but_output s (put_window c s)"
proof -
  let ?s = "s\<lparr>window := (window s)(outcnt s := c), outcnt := outcnt s + 1\<rparr>"
  have w: "outcnt s < WSIZE" and d: "WSIZE dvd output_ptr s" using assms by (simp_all add: window_ok_def)
  have put: "put_window c s = (if outcnt s + 1 = WSIZE then flush_window ?s else ?s)"
    by (simp add: put_window_def Let_def)
  have out: "out_bytes ?s = out_bytes s @ [c]" by (simp add: out_bytes_def)
  show "out_bytes (put_window c s) = out_bytes s @ [c]"
    using out by (simp only: put flush_window_output if_cancel if_distrib [of out_bytes])
  show "same_but_output s (put_window c s)"
  proof -
    have "same_but_output s ?s" by (simp add: same_but_output_def)
    then show ?thesis using flush_window_output(5) [of ?s]
      by (auto simp: put intro: same_but_output_trans)
  qed
  show "window_ok (put_window c s)"
  proof (cases "outcnt s + 1 = WSIZE")
    case True
    have "window_ok (flush_window ?s)"
      using d True by (auto simp: window_ok_def flush_window_eq WSIZE_def)
    then show ?thesis using True by (simp add: put)
  next
    case False
    then have "window_ok ?s" using assms by (auto simp: window_ok_def)
    then show ?thesis using False by (simp add: put)
  qed
qed

lemma put_window_sums: "sums_ok s \<Longrightarrow> sums_ok (put_window c s)"
proof -
  assume "sums_ok s"
  then have "sums_ok (s\<lparr>window := (window s)(outcnt s := c), outcnt := outcnt s + 1\<rparr>)"
    by (simp add: sums_ok_def crc_table_ok_def)
  then show ?thesis by (auto simp: put_window_def Let_def intro!: flush_window_sums)
qed

text \<open>When everything has been flushed the register and the counter are those of the whole output.\<close>

lemma flushed_sums:
  assumes "sums_ok s" and "outcnt s = 0"
  shows "NOT (crc s) = crc32 (out_bytes s)" "bytes_out s = length (out_bytes s)"
  using assms by (simp_all add: sums_ok_def crc32_def out_bytes_def)

end
