(* ===== verification/Inflate_Facts.thy ===== *)
theory Inflate_Facts
  imports Gzip_Facts Inflate
begin

text \<open>
  The parts of boot/zBoot/inflate.c against their specifications: the window copy repeats output
  from a given distance back, the bit buffer is a list of bits taken from the front of the input,
  and a stored block delivers its bytes.
\<close>

subsection \<open>Copying matches\<close>

text \<open>The specification: \<open>n\<close> times, the byte \<open>dist\<close> places back is appended to the output.\<close>

fun lz_extend :: "nat \<Rightarrow> nat \<Rightarrow> u8 list \<Rightarrow> u8 list" where
  "lz_extend 0 dist out = out"
| "lz_extend (Suc n) dist out = lz_extend n dist (out @ [out ! (length out - dist)])"

text \<open>The copy one byte at a time, through the routine that literals go through.\<close>

fun copy_steps :: "nat \<Rightarrow> nat \<Rightarrow> gzip \<Rightarrow> gzip" where
  "copy_steps 0 d s = s"
| "copy_steps (Suc n) d s = copy_steps n (d + 1) (put_window (window s (d mod WSIZE)) s)"

lemma copy_steps_add: "copy_steps (m + n) d s = copy_steps n (d + m) (copy_steps m d s)"
  by (induction m arbitrary: d s) simp_all

lemma copy_steps_mod: "copy_steps n (d mod WSIZE + k) s = copy_steps n (d + k) s"
proof (induction n arbitrary: k s)
  case (Suc n)
  have "(d mod WSIZE + k) mod WSIZE = (d + k) mod WSIZE" by (simp add: mod_add_left_eq)
  then show ?case using Suc.IH [of "k + 1"] by (simp add: add.assoc)
qed simp

text \<open>A piece that stays inside the window.\<close>

lemma copy_chunk:
  assumes "outcnt s + e \<le> WSIZE" and "d + e \<le> WSIZE" and "outcnt s < WSIZE"
  shows "copy_steps e d s =
    (let t = s\<lparr>window := copy_bytes (window s) (outcnt s) d e, outcnt := outcnt s + e\<rparr>
     in if outcnt t = WSIZE then flush_window t else t)"
  using assms
proof (induction e arbitrary: d s)
  case (Suc e)
  let ?s = "s\<lparr>window := (window s)(outcnt s := window s d), outcnt := outcnt s + 1\<rparr>"
  have d: "d mod WSIZE = d" using Suc.prems by simp
  show ?case
  proof (cases "outcnt s + 1 = WSIZE")
    case True
    then have "e = 0" using Suc.prems by simp
    then show ?thesis using True by (simp add: put_window_def Let_def d fun_upd_def)
  next
    case False
    then have "put_window (window s (d mod WSIZE)) s = ?s" by (simp add: put_window_def Let_def d)
    moreover have "outcnt ?s + e \<le> WSIZE" "d + 1 + e \<le> WSIZE" "outcnt ?s < WSIZE"
      using Suc.prems False by simp_all
    ultimately show ?thesis using Suc.IH [of ?s "d + 1"] by (simp add: Let_def fun_upd_def)
  qed
qed (simp add: Let_def)

lemma put_window_room: "outcnt s < WSIZE \<Longrightarrow> outcnt (put_window c s) < WSIZE"
  by (auto simp: put_window_def Let_def flush_window_output WSIZE_def)

lemma copy_steps_room: "outcnt s < WSIZE \<Longrightarrow> outcnt (copy_steps n d s) < WSIZE"
  by (induction n arbitrary: d s) (simp_all add: put_window_room)

lemma and_window: "d AND (WSIZE - 1) = d mod WSIZE"
proof -
  have m: "WSIZE - 1 = (mask 15 :: nat)" "WSIZE = 2 ^ 15" by (simp_all add: WSIZE_def mask_eq_exp_minus_1)
  show ?thesis unfolding m(1) unfolding m(2) by (simp only: take_bit_eq_mod flip: take_bit_eq_mask)
qed

lemma copy_match_steps:
  assumes "outcnt s < WSIZE"
  shows "copy_match n d s = Some (copy_steps n d s)"
  using assms
proof (induction n arbitrary: d s rule: less_induct)
  case (less n)
  define a where "a = d mod WSIZE"
  define e where "e = min (WSIZE - max a (outcnt s)) n"
  have a: "a < WSIZE" by (simp add: a_def WSIZE_def)
  have e: "a + e \<le> WSIZE" "outcnt s + e \<le> WSIZE" "e \<le> n" "0 < n \<Longrightarrow> 0 < e"
    using a less.prems by (simp_all add: e_def)
  let ?t = "s\<lparr>window := copy_bytes (window s) (outcnt s) a e, outcnt := outcnt s + e\<rparr>"
  let ?u = "if outcnt ?t = WSIZE then flush_window ?t else ?t"
  have u: "?u = copy_steps e a s" using copy_chunk [of s e a] e less.prems by (simp add: Let_def)
  have e': "e = (let e = WSIZE - (if a > outcnt s then a else outcnt s) in if e > n then n else e)"
    by (simp add: e_def min_def max_def)
  have "copy_match n d s = (if n - e \<noteq> 0 then copy_match (n - e) (a + e) ?u else Some ?u)"
    by (subst copy_match.simps) (simp only: Let_def and_window flip: a_def e' [unfolded Let_def])
  also have "\<dots> = Some (copy_steps (n - e) (a + e) (copy_steps e a s))"
  proof (cases "n - e = 0")
    case False
    then have "n - e < n" using e by auto
    from less.IH [OF this copy_steps_room [OF less.prems]] False show ?thesis by (simp only: u if_True not_False_eq_True)
  qed (simp only: u copy_steps.simps simp_thms if_False)
  also have "copy_steps (n - e) (a + e) (copy_steps e a s) = copy_steps n d s"
    using copy_steps_add [of e "n - e" a s] e copy_steps_mod [of n d 0 s] by (simp add: a_def)
  finally show ?case .
qed

text \<open>The byte \<open>dist\<close> back is where the copy looks for it.\<close>

lemma window_history:
  assumes ok: "window_ok s" and dist: "0 < dist" "dist \<le> WSIZE" "dist \<le> length (out_bytes s)"
    and d: "d mod WSIZE = (length (out_bytes s) - dist) mod WSIZE"
  shows "window s (d mod WSIZE) = out_bytes s ! (length (out_bytes s) - dist)"
proof -
  define P where "P = length (out_bytes s) - dist"
  have len: "length (out_bytes s) = output_ptr s + outcnt s" by (simp add: out_bytes_def)
  have dP: "d mod WSIZE = P mod WSIZE" using d by (simp add: P_def)
  have w: "outcnt s < WSIZE" "WSIZE dvd output_ptr s" using ok by (simp_all add: window_ok_def)
  show ?thesis
  proof (cases "output_ptr s \<le> P")
    case True
    define k where "k = P - output_ptr s"
    have k: "P = output_ptr s + k" "k < outcnt s" using True dist len by (simp_all add: P_def k_def)
    then have "P mod WSIZE = k" using w by (auto elim!: dvdE)
    then show ?thesis unfolding dP P_def [symmetric] using k by (simp add: out_bytes_def nth_append)
  next
    case False
    define k where "k = P - (output_ptr s - WSIZE)"
    have op: "WSIZE \<le> output_ptr s" using False w by (intro dvd_imp_le) simp_all
    have "output_ptr s + outcnt s - WSIZE \<le> P" using dist len by (simp add: P_def)
    then have k: "P = output_ptr s - WSIZE + k" "outcnt s \<le> k" "k < WSIZE"
      using False op by (simp_all add: k_def)
    have "WSIZE dvd output_ptr s - WSIZE" using w by simp
    then have "P mod WSIZE = k" using k by (auto elim!: dvdE)
    moreover have "window s k = output_data s P" using ok k op by (simp add: window_ok_def WSIZE_def)
    ultimately show ?thesis unfolding dP P_def [symmetric] using False by (simp add: out_bytes_def nth_append)
  qed
qed

lemma copy_steps_history:
  assumes "window_ok s" and "0 < dist" "dist \<le> WSIZE" "dist \<le> length (out_bytes s)"
    and "d mod WSIZE = (length (out_bytes s) - dist) mod WSIZE"
  shows "out_bytes (copy_steps n d s) = lz_extend n dist (out_bytes s) \<and> window_ok (copy_steps n d s)
    \<and> same_but_output s (copy_steps n d s)"
  using assms
proof (induction n arbitrary: d s)
  case (Suc n)
  let ?s = "put_window (window s (d mod WSIZE)) s"
  have h: "window s (d mod WSIZE) = out_bytes s ! (length (out_bytes s) - dist)"
    using Suc.prems by (rule window_history)
  note put = put_window_output [OF Suc.prems(1), of "window s (d mod WSIZE)"]
  have "length (out_bytes ?s) - dist = (length (out_bytes s) - dist) + 1"
  proof -
    have "length (out_bytes ?s) = length (out_bytes s) + 1" unfolding put(1) by simp
    then show ?thesis using Suc.prems(4) by linarith
  qed
  then have "(d + 1) mod WSIZE = (length (out_bytes ?s) - dist) mod WSIZE"
    using Suc.prems(5) by (metis mod_add_left_eq)
  from Suc.IH [OF put(2) Suc.prems(2,3) _ this] Suc.prems(4) put h
  show ?case by (auto intro: same_but_output_trans)
qed simp

lemma copy_steps_sums: "sums_ok s \<Longrightarrow> sums_ok (copy_steps n d s)"
  by (induction n arbitrary: d s) (simp_all add: put_window_sums)

lemma match_start_mod:
  assumes "w < WSIZE" and "dist \<le> WSIZE"
  shows "match_start w dist = (w + WSIZE - dist) mod WSIZE"
proof -
  have uw: "unat (of_nat w :: u32) = w" "unat (of_nat dist :: u32) = dist"
    using assms by (simp_all add: unat_of_nat take_bit_nat_eq_self WSIZE_def)
  have m: "of_nat (WSIZE - 1) = (mask 15 :: u32)" "WSIZE = 2 ^ 15" by (simp_all add: WSIZE_def mask_eq_exp_minus_1)
  have "match_start w dist = unat (of_nat w - of_nat dist :: u32) mod WSIZE"
    unfolding match_start_def m(1) unfolding m(2)
    by (simp only: unsigned_take_bit_eq flip: take_bit_eq_mask) (simp only: take_bit_eq_mod)
  also have "\<dots> = (w + WSIZE - dist) mod WSIZE"
  proof (cases "dist \<le> w")
    case True
    then have "unat (of_nat w - of_nat dist :: u32) = w - dist" by (simp only: unat_sub_if' uw if_True)
    moreover have "w + WSIZE - dist = (w - dist) + WSIZE" using True by linarith
    ultimately show ?thesis by (simp only: mod_add_self2)
  next
    case False
    then have "unat (of_nat w - of_nat dist :: u32) = 2 ^ 32 + w - dist"
      by (simp only: unat_sub_if' uw if_False) simp
    moreover have "(2 ^ 32 + w - dist) mod WSIZE = (w + WSIZE - dist) mod WSIZE"
    proof -
      have "2 ^ 32 + w - dist = (w + WSIZE - dist) + WSIZE * (2 ^ 17 - 1)"
        using assms False by (simp add: WSIZE_def)
      then show ?thesis by (simp only: mod_mult_self2)
    qed
    ultimately show ?thesis by simp
  qed
  finally show ?thesis .
qed

lemma match_start_history:
  assumes "window_ok s" and "dist \<le> WSIZE" "dist \<le> length (out_bytes s)"
  shows "match_start (outcnt s) dist mod WSIZE = (length (out_bytes s) - dist) mod WSIZE"
proof -
  have w: "outcnt s < WSIZE" and "WSIZE dvd output_ptr s" using assms by (simp_all add: window_ok_def)
  then obtain q where q: "output_ptr s = WSIZE * q" by (elim dvdE)
  have "(length (out_bytes s) - dist) mod WSIZE = (length (out_bytes s) - dist + WSIZE) mod WSIZE" by simp
  also have "length (out_bytes s) - dist + WSIZE = (outcnt s + WSIZE - dist) + WSIZE * q"
    using assms(2,3) by (simp add: out_bytes_def q)
  finally show ?thesis using match_start_mod [OF w assms(2)] by simp
qed

subsection \<open>The bit buffer\<close>

text \<open>The bits still to come: those in the buffer, then those of the bytes not yet read.\<close>

definition byte_bits :: "u8 \<Rightarrow> bool list" where
  "byte_bits c = map (bit c) [0..<8]"

definition bits :: "gzip \<Rightarrow> bool list" where
  "bits s = map (bit (bb s)) [0..<bk s] @ concat (map byte_bits (unread s))"

text \<open>A whole byte in the buffer is the byte read last, so it can be given back.\<close>

definition last_byte_ok :: "gzip \<Rightarrow> bool" where
  "last_byte_ok s \<longleftrightarrow> (8 \<le> bk s \<longrightarrow> 0 < inptr s \<and> (\<exists>c. unread (s\<lparr>inptr := inptr s - 1\<rparr>) = c # unread s \<and>
     map (bit (bb s)) [bk s - 8..<bk s] = byte_bits c))"

definition bits_ok :: "gzip \<Rightarrow> bool" where
  "bits_ok s \<longleftrightarrow> bk s \<le> 32 \<and> (\<forall>n \<ge> bk s. \<not> bit (bb s) n) \<and> input_ptr s \<le> input_len s + 1 \<and> last_byte_ok s"

definition bits_value :: "bool list \<Rightarrow> nat" where
  "bits_value bs = horner_sum of_bool 2 bs"

text \<open>What reading does not touch.\<close>

definition same_but_reader :: "gzip \<Rightarrow> gzip \<Rightarrow> bool" where
  "same_but_reader s s' \<longleftrightarrow> same_but_input s (s'\<lparr>bb := bb s, bk := bk s\<rparr>)"

lemma same_but_reader_refl [simp]: "same_but_reader s s"
  by (simp add: same_but_reader_def)

lemma same_but_reader_trans: "same_but_reader s t \<Longrightarrow> same_but_reader t u \<Longrightarrow> same_but_reader s u"
  by (cases s; cases t; cases u) (simp add: same_but_reader_def same_but_input_def)

lemma same_but_reader_upd [simp]:
  "same_but_reader s (t\<lparr>bb := x, bk := n\<rparr>) \<longleftrightarrow> same_but_reader s t"
  by (cases s; cases t) (simp add: same_but_reader_def same_but_input_def)

lemma reader_frame:
  assumes "same_but_reader s s'"
  shows "out_bytes s' = out_bytes s" "window_ok s' \<longleftrightarrow> window_ok s" "sums_ok s' \<longleftrightarrow> sums_ok s"
    "outcnt s' = outcnt s" "input_data s' = input_data s" "input_len s' = input_len s" "window s' = window s"
  using output_frame [OF assms[unfolded same_but_reader_def]] same_but_inputD [OF assms[unfolded same_but_reader_def]]
  by (simp_all add: out_bytes_def window_ok_def sums_ok_def crc_table_ok_def)

lemma bits_output:
  assumes "same_but_output s s'"
  shows "bits s' = bits s" "bits_ok s' \<longleftrightarrow> bits_ok s"
  using same_but_outputD [OF assms] by (simp_all add: bits_def bits_ok_def last_byte_ok_def)

lemma NEEDBITS_bits:
  assumes "bits_ok s" and "n \<le> 25" and "n \<le> length (bits s)"
  shows "\<exists>s'. NEEDBITS n s = Some s' \<and> bits s' = bits s \<and> n \<le> bk s' \<and> bits_ok s' \<and> same_but_reader s s'
    \<and> bk s' \<le> max (bk s) (n + 7)"
  using assms
proof (induction "n - bk s" arbitrary: s rule: less_induct)
  case less
  show ?case
  proof (cases "bk s < n")
    case False
    then have "NEEDBITS n s = Some s" by (simp add: NEEDBITS.simps)
    then show ?thesis using False less.prems by simp
  next
    case True
    then have "unread s \<noteq> []" using less.prems(3) by (auto simp: bits_def)
    then obtain c cs where p: "unread s = c # cs" by (cases "unread s") auto
    moreover have "input_ptr s \<le> input_len s + 1" using less.prems by (simp add: bits_ok_def)
    ultimately obtain t where g: "get_byte s = Some (c, t)" and pt: "unread t = cs"
      and fr: "same_but_input s t" and ip: "input_ptr t \<le> input_len s + 1"
      and prev: "0 < inptr t" "unread (t\<lparr>inptr := inptr t - 1\<rparr>) = c # cs"
      by (rule get_byte_unread)
    note sD = same_but_inputD [OF fr]
    let ?t = "t\<lparr>bb := bb t OR push_bit (bk t) (ucast c), bk := bk t + 8\<rparr>"
    have hi: "\<forall>n \<ge> bk s. \<not> bit (bb s) n" using less.prems(1) by (simp add: bits_ok_def)
    have bk: "bk s + 8 \<le> 32" using True less.prems(2) by simp
    have bt: "bits ?t = bits s"
    proof -
      have "map (bit (bb ?t)) [0..<bk ?t] = map (bit (bb s)) [0..<bk s] @ byte_bits c"
        using hi bk unfolding byte_bits_def
        by (intro nth_equalityI) (auto simp: nth_append bit_simps sD)
      moreover have "unread ?t = cs" using pt by (simp add: unread_def)
      ultimately show ?thesis by (simp only: bits_def p list.simps concat.simps append_assoc)
    qed
    have "map (bit (bb ?t)) [bk ?t - 8..<bk ?t] = byte_bits c"
      using hi bk unfolding byte_bits_def by (intro nth_equalityI) (auto simp: bit_simps sD)
    then have "last_byte_ok ?t" using prev pt by (simp add: last_byte_ok_def unread_def)
    then have ok: "bits_ok ?t"
      using hi bk ip by (auto simp: bits_ok_def sD bit_simps dest: bit_imp_le_length)
    have fr': "same_but_reader s ?t"
      using fr by (cases s; cases t) (simp add: same_but_reader_def same_but_input_def)
    have "n - bk ?t < n - bk s" using True by (simp add: sD)
    from less.hyps [OF this ok less.prems(2)] less.prems(3) bt
    obtain s' where "NEEDBITS n ?t = Some s'" "bits s' = bits s" "n \<le> bk s'" "bits_ok s'" "same_but_reader ?t s'"
      "bk s' \<le> max (bk ?t) (n + 7)"
      by auto
    moreover have "bk ?t \<le> n + 7" using True by (simp add: sD)
    ultimately show ?thesis using True g fr' same_but_reader_trans [OF fr', of s']
      by (subst NEEDBITS.simps) auto
  qed
qed

lemma mask_bits_nth:
  assumes "n \<le> 16"
  shows "mask_bits ! n = mask n"
proof -
  have "\<forall>n \<in> {..16}. mask_bits ! n = (mask n :: u32)"
    by (simp add: mask_bits_def mask_eq_exp_minus_1 atMost_Suc numeral_eq_Suc)
  with assms show ?thesis by simp
qed

lemma low_bits_value:
  assumes "n \<le> 16" and "n \<le> bk s"
  shows "low_bits n s = Some (bits_value (take n (bits s)))"
proof -
  have "take n (bits s) = map (bit (bb s)) [0..<n]"
    using assms by (simp add: bits_def take_map min_def)
  moreover have "unat (take_bit n (bb s)) = horner_sum of_bool 2 (map (bit (bb s)) [0..<n])"
  proof -
    have "unat (take_bit n (bb s)) = take_bit n (unat (bb s))" by (simp add: unsigned_take_bit_eq)
    also have "\<dots> = horner_sum of_bool 2 (map (bit (unat (bb s))) [0..<n])"
      by (simp only: horner_sum_bit_eq_take_bit)
    also have "bit (unat (bb s)) = bit (bb s)" by (rule ext) (simp add: bit_unsigned_iff)
    finally show ?thesis .
  qed
  ultimately show ?thesis
    using assms(1) by (simp add: low_bits_def mask_bits_nth bits_value_def take_bit_eq_mask) (simp add: mask_bits_def)
qed

lemma DUMPBITS_bits:
  assumes "n \<le> bk s" and "bits_ok s"
  shows "\<exists>s'. DUMPBITS n s = Some s' \<and> bits s' = drop n (bits s) \<and> bits_ok s' \<and> bk s' = bk s - n
    \<and> same_but_reader s s'"
proof -
  let ?t = "s\<lparr>bb := drop_bit n (bb s), bk := bk s - n\<rparr>"
  have "map (bit (drop_bit n (bb s))) [0..<bk s - n] = drop n (map (bit (bb s)) [0..<bk s])"
    by (rule nth_equalityI) (simp_all add: bit_simps)
  then have "bits ?t = drop n (bits s)" using assms(1) by (simp add: bits_def unread_def)
  moreover have "last_byte_ok ?t"
  proof (cases "8 \<le> bk s - n")
    case True
    then have "map (bit (bb ?t)) [bk ?t - 8..<bk ?t] = map (bit (bb s)) [bk s - 8..<bk s]"
      by (intro nth_equalityI) (simp_all add: bit_simps)
    then show ?thesis using True assms(2) by (auto simp: last_byte_ok_def bits_ok_def unread_def)
  qed (simp add: last_byte_ok_def)
  then have "bits_ok ?t" using assms by (auto simp: bits_ok_def bit_simps)
  ultimately show ?thesis using assms(1) by (simp add: DUMPBITS_def)
qed

text \<open>The three together read a number off the front of the bit list.\<close>

lemma read_bits_front:
  assumes "bits_ok s" and "n \<le> 16" and "n \<le> length (bits s)"
  obtains s' where "read_bits n s = Some (bits_value (take n (bits s)), s')" and "bits s' = drop n (bits s)"
    and "bits_ok s'" and "same_but_reader s s'" and "bk s' \<le> max (bk s) (n + 7) - n"
proof -
  from NEEDBITS_bits [OF assms(1) _ assms(3)] assms(2)
  obtain t where t: "NEEDBITS n s = Some t" "bits t = bits s" "n \<le> bk t" "bits_ok t" "same_but_reader s t"
    "bk t \<le> max (bk s) (n + 7)" by auto
  from DUMPBITS_bits [OF t(3,4)]
  obtain u where u: "DUMPBITS n t = Some u" "bits u = drop n (bits t)" "bits_ok u" "bk u = bk t - n"
    "same_but_reader t u" by blast
  show ?thesis
  proof (rule that)
    show "read_bits n s = Some (bits_value (take n (bits s)), u)"
      using low_bits_value [OF assms(2) t(3)] t u by (simp add: read_bits_def)
    show "bits u = drop n (bits s)" "bits_ok u" using t u by simp_all
    show "same_but_reader s u" using t(5) u(5) by (rule same_but_reader_trans)
    show "bk u \<le> max (bk s) (n + 7) - n" using t(6) u(4) by simp
  qed
qed

section \<open>Stored blocks\<close>

text \<open>
  Bits and bytes: a stored block delivers the bytes it was made from, and the input is left at the bit
  behind it.
\<close>

named_theorems stored_simps \<open>bytes as bits\<close>

lemma byte_bits_length [stored_simps]: "length (byte_bits c) = 8"
  by (simp add: byte_bits_def)

lemma byte_bits_not_Nil [simp]: "byte_bits c \<noteq> []"
  by (simp add: byte_bits_def)

lemma concat_bytes_length [stored_simps]: "length (concat (map byte_bits cs)) = 8 * length cs"
  by (induction cs) (simp_all add: stored_simps)

lemma byte_bits_inj: "byte_bits c = byte_bits d \<longleftrightarrow> c = d"
proof
  assume "byte_bits c = byte_bits d"
  then have "\<forall>n < 8. bit c n = bit d n" by (simp add: byte_bits_def map_eq_conv)
  then show "c = d" by (intro bit_word_eqI) simp
qed simp

lemma concat_bytes_inj: "concat (map byte_bits cs) = concat (map byte_bits ds) \<longleftrightarrow> cs = ds"
proof (induction cs arbitrary: ds)
  case Nil
  then show ?case by (cases ds) (auto simp: byte_bits_def)
next
  case (Cons c cs)
  then show ?case by (cases ds) (auto simp: byte_bits_inj stored_simps)
qed

lemma bits_value_byte [stored_simps]: "bits_value (byte_bits c) = unat c"
proof -
  have "bits_value (byte_bits c) = horner_sum of_bool 2 (map (bit (unat c)) [0..<8])"
  proof -
    have "bit (unat c) = bit c" by (rule ext) (simp add: bit_unsigned_iff)
    then show ?thesis by (simp only: bits_value_def byte_bits_def)
  qed
  also have "\<dots> = unat c"
    using unsigned_less [of c, where 'a = nat] by (simp add: horner_sum_bit_eq_take_bit take_bit_nat_eq_self)
  finally show ?thesis .
qed

lemma bits_value_append [stored_simps]: "bits_value (xs @ ys) = bits_value xs + 2 ^ length xs * bits_value ys"
  by (simp add: bits_value_def horner_sum_append)

text \<open>The number of buffered bits is the distance to a byte boundary of the input.\<close>

lemma bits_boundary: "length (bits s) mod 8 = bk s mod 8"
  by (simp add: bits_def stored_simps)

lemma bits_aligned:
  assumes "bits s = concat (map byte_bits cs)" and "bk s \<le> 7"
  shows "bk s = 0 \<and> unread s = cs"
proof -
  have "bk s mod 8 = 0" using bits_boundary [of s] assms(1) by (simp add: stored_simps)
  then have "bk s = 0" using assms(2) by simp
  then show ?thesis using assms(1) by (simp add: bits_def concat_bytes_inj)
qed

subsection \<open>One block\<close>

definition le16 :: "nat \<Rightarrow> u8 list" where
  "le16 n = [of_nat n, of_nat (n div 256)]"

definition stored_body :: "u8 list \<Rightarrow> u8 list" where
  "stored_body xs = le16 (length xs) @ map NOT (le16 (length xs)) @ xs"

lemma le16_value:
  assumes "n < 2 ^ 16"
  shows "bits_value (concat (map byte_bits (le16 n))) = n"
proof -
  have "n div 256 < 256" using assms by simp
  then show ?thesis by (simp add: le16_def stored_simps unat_of_nat take_bit_eq_mod)
qed

lemma le16_not_value:
  assumes "n < 2 ^ 16"
  shows "bits_value (concat (map byte_bits (map NOT (le16 n)))) = 2 ^ 16 - 1 - n"
proof -
  have nn: "unat (NOT w :: u8) = 255 - unat w" for w
  proof -
    have "NOT w = 255 - w" by (simp add: not_eq_complement)
    moreover have "unat w < 256" using unsigned_less [of w] by simp
    ultimately show ?thesis by (simp add: unat_sub_if')
  qed
  define q where "q = n div 256"
  define r where "r = n mod 256"
  have n: "n = r + 256 * q" by (simp add: q_def r_def)
  have "q < 256" "r < 256" using assms by (simp_all add: q_def r_def)
  then have "255 + 256 * (255 - q) - r = 65535 - n" unfolding n by simp
  moreover have "n div 256 < 256" using assms by simp
  ultimately show ?thesis by (simp add: le16_def stored_simps unat_of_nat take_bit_eq_mod nn q_def r_def)
qed

lemma read_bits_bytes:
  assumes "bits_ok s" and "bits s = concat (map byte_bits xs) @ r" and "length xs \<le> 2" and "bk s \<le> m" "7 \<le> m"
  obtains s' where "read_bits (8 * length xs) s = Some (bits_value (concat (map byte_bits xs)), s')" and "bits s' = r"
    and "bits_ok s'" and "same_but_reader s s'" and "bk s' \<le> m"
proof (rule read_bits_front [of s "8 * length xs"])
  show "bits_ok s" "8 * length xs \<le> 16" "8 * length xs \<le> length (bits s)"
    using assms by (simp_all add: stored_simps)
next
  fix s' assume s': "read_bits (8 * length xs) s = Some (bits_value (take (8 * length xs) (bits s)), s')"
    "bits s' = drop (8 * length xs) (bits s)" "bits_ok s'" "same_but_reader s s'"
    "bk s' \<le> max (bk s) (8 * length xs + 7) - 8 * length xs"
  show thesis
    by (rule that [of s']) (use s' assms(2,4,5) in \<open>simp_all add: stored_simps\<close>)
qed

lemma stored_bytes_out:
  assumes "bits_ok s" and "window_ok s" and "bits s = concat (map byte_bits xs) @ r" and "bk s \<le> m" "7 \<le> m"
  shows "\<exists>s'. stored_bytes (length xs) s = Some s' \<and> bits s' = r \<and> bits_ok s' \<and> window_ok s' \<and>
    out_bytes s' = out_bytes s @ xs \<and> bk s' \<le> m \<and> (sums_ok s \<longrightarrow> sums_ok s')"
  using assms
proof (induction xs arbitrary: s)
  case (Cons c xs)
  have len: "8 \<le> length (bits s)" using Cons.prems(3) by (simp add: stored_simps)
  from NEEDBITS_bits [OF Cons.prems(1) _ len]
  obtain t where t: "NEEDBITS 8 s = Some t" "bits t = bits s" "8 \<le> bk t" "bits_ok t" "same_but_reader s t"
    "bk t \<le> max (bk s) 15" by auto
  note tf = reader_frame [OF t(5)]
  have "take 8 (bits t) = byte_bits c" using t(2) Cons.prems(3) by (simp add: stored_simps)
  then have "map (bit (bb t)) [0..<8] = byte_bits c" using t(3) by (simp add: bits_def take_map min_def)
  then have c: "ucast (bb t) = c" by (intro bit_word_eqI) (simp add: byte_bits_def map_eq_conv bit_simps)
  let ?u = "put_window c t"
  have wt: "window_ok t" using Cons.prems(2) tf by simp
  note u = put_window_output [OF wt, of c]
  note uf = same_but_outputD [OF u(3)] bits_output [OF u(3)]
  from DUMPBITS_bits [of 8 ?u] obtain v where v: "DUMPBITS 8 ?u = Some v" "bits v = drop 8 (bits ?u)" "bits_ok v"
    "bk v = bk ?u - 8" "same_but_reader ?u v" using t(3,4) uf by auto
  note vf = reader_frame [OF v(5)]
  have "bits v = concat (map byte_bits xs) @ r" "bk v \<le> m" "window_ok v"
    using v t(2,6) uf Cons.prems(3-5) vf u(2) by (simp_all add: stored_simps)
  from Cons.IH [OF v(3) this(3,1,2) Cons.prems(5)]
  obtain s' where "stored_bytes (length xs) v = Some s'" "bits s' = r" "bits_ok s'" "window_ok s'"
    "out_bytes s' = out_bytes v @ xs" "bk s' \<le> m" "sums_ok v \<longrightarrow> sums_ok s'" by blast
  then show ?case using t(1) c v(1) vf u(1) tf put_window_sums [of t c] by auto
qed simp

lemma inflate_stored_out:
  assumes "bits_ok s" and "window_ok s" and "bk s \<le> m" "7 \<le> m" and "length xs < 2 ^ 16"
    and "drop (bk s mod 8) (bits s) = concat (map byte_bits (stored_body xs)) @ r"
  shows "\<exists>s'. inflate_stored s = Some (0, s') \<and> bits s' = r \<and> bits_ok s' \<and> window_ok s' \<and>
    out_bytes s' = out_bytes s @ xs \<and> bk s' \<le> m \<and> (sums_ok s \<longrightarrow> sums_ok s')"
proof -
  let ?n = "length xs"
  let ?rest = "concat (map byte_bits (map NOT (le16 ?n))) @ concat (map byte_bits xs) @ r"
  have "bk s mod 8 \<le> bk s" by simp
  from DUMPBITS_bits [OF this assms(1)]
  obtain t where t: "DUMPBITS (bk s mod 8) s = Some t" "bits t = drop (bk s mod 8) (bits s)" "bits_ok t"
    "bk t = bk s - bk s mod 8" "same_but_reader s t" by blast
  have bk: "bk t \<le> m" using t(4) assms(3) by simp
  have bt: "bits t = concat (map byte_bits (le16 ?n)) @ ?rest"
    using t(2) assms(6) by (simp add: stored_body_def)
  have l: "length (le16 ?n) = 2" by (simp add: le16_def)
  from read_bits_bytes [OF t(3) bt _ bk assms(4)] l le16_value [OF assms(5)]
  obtain u where u: "read_bits 16 t = Some (?n, u)" "bits u = ?rest" "bits_ok u" "same_but_reader t u" "bk u \<le> m"
    by auto
  have lu: "16 \<le> length (bits u)" using u(2) by (simp add: stored_simps le16_def)
  from NEEDBITS_bits [OF u(3) _ lu]
  obtain v where v: "NEEDBITS 16 u = Some v" "bits v = bits u" "16 \<le> bk v" "bits_ok v" "same_but_reader u v"
    "bk v \<le> max (bk u) 23" by auto
  have "low_bits 16 v = Some (bits_value (concat (map byte_bits (map NOT (le16 ?n)))))"
    using low_bits_value [OF _ v(3)] v(2) u(2) by (simp add: stored_simps le16_def)
  then have low: "unat (bb v AND 0xffff) = 2 ^ 16 - 1 - ?n"
    using le16_not_value [OF assms(5)] by (simp add: low_bits_def mask_bits_def split: if_splits)
  have check: "unat (NOT (bb v) AND 0xffff) = ?n"
  proof -
    have m: "(0xffff :: u32) = mask 16" by (simp add: mask_eq_exp_minus_1)
    have "NOT (bb v) AND mask 16 = mask 16 - (bb v AND mask 16)"
      by (simp only: take_bit_not_eq_mask_diff flip: take_bit_eq_mask)
    then show ?thesis using low assms(5) unfolding m
      by (simp add: unat_sub_if' mask_eq_exp_minus_1)
  qed
  from DUMPBITS_bits [OF v(3,4)]
  obtain w where w: "DUMPBITS 16 v = Some w" "bits w = drop 16 (bits v)" "bits_ok w" "bk w = bk v - 16" "same_but_reader v w"
    by blast
  have fr: "same_but_reader s w"
    using t(5) u(4) v(5) w(5) by (meson same_but_reader_trans)
  note wf = reader_frame [OF fr]
  have "bits w = concat (map byte_bits xs) @ r" "bk w \<le> m" "window_ok w"
    using w v u(2,5) wf assms(2,4) by (simp_all add: stored_simps le16_def)
  from stored_bytes_out [OF w(3) this(3,1,2) assms(4)]
  obtain s' where "stored_bytes ?n w = Some s'" "bits s' = r" "bits_ok s'" "window_ok s'"
    "out_bytes s' = out_bytes w @ xs" "bk s' \<le> m" "sums_ok w \<longrightarrow> sums_ok s'" by blast
  then show ?thesis using t(1) u(1) v(1) w(1) check wf by (simp add: inflate_stored_def)
qed

end
