(* ===== verification/Deflate_Facts.thy ===== *)
theory Deflate_Facts
  imports Huft_Props Inflate_Facts
begin

text \<open>
  The DEFLATE format as an encoder writes it, and boot/zBoot/inflate.c as its inverse: literals and
  matches in canonical Huffman codes, in blocks with fixed, transmitted or no codes. Whatever choices
  the encoder makes, the decompressor delivers what the blocks stand for.
\<close>

subsection \<open>Numbers and codes as bits\<close>

definition nat_bits :: "nat \<Rightarrow> nat \<Rightarrow> bool list" where
  "nat_bits n x = map (bit x) [0..<n]"

text \<open>A Huffman code is sent from its most significant bit on.\<close>

definition code_bits :: "nat list \<Rightarrow> nat \<Rightarrow> bool list" where
  "code_bits b q = map (bit (canonical b q)) (rev [0..<b ! q])"

lemma length_nat_bits [simp]: "length (nat_bits n x) = n"
  by (simp add: nat_bits_def)

lemma length_code_bits [simp]: "length (code_bits b q) = b ! q"
  by (simp add: code_bits_def)

lemma bits_value_nat_bits: "x < 2 ^ n \<Longrightarrow> bits_value (nat_bits n x) = x"
  by (simp add: nat_bits_def bits_value_def horner_sum_bit_eq_take_bit take_bit_nat_eq_self)

lemma bits_value_rev: "bits_value (map (bit x) (rev [0..<k])) = brev k x"
proof (induction k arbitrary: x)
  case (Suc k)
  have "rev [0..<Suc k] = map Suc (rev [0..<k]) @ [0]"
    by (metis map_Suc_upt rev_map upt_conv_Cons zero_less_Suc rev.simps(2))
  then have "map (bit x) (rev [0..<Suc k]) = map (bit (x div 2)) (rev [0..<k]) @ [odd x]"
    by (simp add: bit_Suc bit_0 comp_def)
  then have "bits_value (map (bit x) (rev [0..<Suc k])) = brev k (x div 2) + 2 ^ k * of_bool (odd x)"
    using Suc by (simp add: bits_value_append) (simp add: bits_value_def)
  then show ?case by (simp add: mod2_eq_if)
qed (simp add: bits_value_def)

lemma bits_value_code: "bits_value (code_bits b q) = brev (b ! q) (canonical b q)"
  by (simp add: code_bits_def bits_value_rev)

lemma bits_value_take: "bits_value (take n bs) = bits_value bs mod 2 ^ n"
proof (cases "n \<le> length bs")
  case True
  have "bits_value (take n bs) < 2 ^ n" for bs
  proof (induction bs arbitrary: n)
    case (Cons x bs)
    show ?case
    proof (cases n)
      case (Suc n')
      with Cons [of n'] show ?thesis by (auto simp: bits_value_def)
    qed (simp add: bits_value_def)
  qed (simp add: bits_value_def)
  moreover have "bits_value bs = bits_value (take n bs) + 2 ^ n * bits_value (drop n bs)"
    using bits_value_append [of "take n bs" "drop n bs"] True by simp
  ultimately show ?thesis by (simp add: mod_less)
next
  case False
  have "bits_value bs < 2 ^ length bs" for bs
    by (induction bs) (auto simp: bits_value_def)
  then have "bits_value bs < 2 ^ n" using False by (meson less_le_trans nat_le_linear one_le_numeral power_increasing)
  then show ?thesis using False by simp
qed

lemma bits_value_drop: "n \<le> length bs \<Longrightarrow> bits_value (drop n bs) = bits_value bs div 2 ^ n"
proof -
  assume n: "n \<le> length bs"
  have "bits_value bs = bits_value (take n bs) + 2 ^ n * bits_value (drop n bs)"
    using bits_value_append [of "take n bs" "drop n bs"] n by simp
  moreover have "bits_value (take n bs) < 2 ^ n" by (simp add: bits_value_take)
  ultimately show ?thesis by simp
qed

subsection \<open>Looking up a symbol\<close>

text \<open>One table: its entry for the bits at the front.\<close>

lemma table_bits_read:
  assumes "bits_ok s" "n \<le> 9" "n \<le> length (bits s)" "bk s \<le> 15"
    and h: "h \<le> n" "0 < h"
  obtains t u where "NEEDBITS n s = Some t" "low_bits n t = Some (bits_value (bits s) mod 2 ^ n)"
    "DUMPBITS h t = Some u" "bits u = drop h (bits s)" "bits_ok u" "bk u \<le> 15" "same_but_reader s u"
proof -
  from NEEDBITS_bits [OF assms(1) _ assms(3)] assms(2)
  obtain t where t: "NEEDBITS n s = Some t" "bits t = bits s" "n \<le> bk t" "bits_ok t" "same_but_reader s t"
    "bk t \<le> max (bk s) (n + 7)" by auto
  have "low_bits n t = Some (bits_value (bits s) mod 2 ^ n)"
    using low_bits_value [OF _ t(3)] assms(2) t(2) by (simp add: bits_value_take)
  moreover have "h \<le> bk t" using h t(3) by simp
  from DUMPBITS_bits [OF this t(4)] obtain u where
    u: "DUMPBITS h t = Some u" "bits u = drop h (bits t)" "bits_ok u" "bk u = bk t - h" "same_but_reader t u" by blast
  moreover have "bk u \<le> 15" using u(4) t(6) assms(2,4) h by simp
  ultimately show ?thesis using that t(1,2) same_but_reader_trans [OF t(5) u(5)] by simp
qed

text \<open>After \<open>m\<close> links the first \<open>m * l\<close> bits are gone and the next table is at hand.\<close>

lemma decode_walk:
  assumes "walks D l i m t n" and "l \<le> 9" and "bits_ok s" "bk s \<le> 15" and "V = bits_value (bits s)"
    and "V mod 2 ^ k = i" "m * l < k" "0 < n" "k + 9 \<le> length (bits s)"
  shows "\<exists>s'. decode_symbol D l s = do { s \<leftarrow> NEEDBITS n s'; j \<leftarrow> low_bits n s; r \<leftarrow> table_entry D t j; decode_entry D r s } \<and>
    bits s' = drop (m * l) (bits s) \<and> bits_ok s' \<and> bk s' \<le> 15 \<and> same_but_reader s s'"
  using assms(1,7,8)
proof (induction rule: walks.induct)
  case root
  then show ?case using assms(3,4) by (intro exI [of _ s]) (simp add: decode_symbol_def)
next
  case (link m t n t')
  have lpos: "0 < l" using link.hyps(2) link.prems(2) by simp
  have ml: "m * l < k" "Suc m * l \<le> k" using link.prems(1) by simp_all
  from link.IH [OF ml(1) lpos] obtain s' where
    IH: "decode_symbol D l s = do { s \<leftarrow> NEEDBITS l s'; j \<leftarrow> low_bits l s; r \<leftarrow> table_entry D t j; decode_entry D r s }"
    "bits s' = drop (m * l) (bits s)" "bits_ok s'" "bk s' \<le> 15" "same_but_reader s s'" by blast
  have "l \<le> length (bits s')" using IH(2) ml assms(9) by simp
  from table_bits_read [OF IH(3) assms(2) this IH(4) order_refl lpos] obtain u v where
    u: "NEEDBITS l s' = Some u" "low_bits l u = Some (bits_value (bits s') mod 2 ^ l)"
    and v: "DUMPBITS l u = Some v" "bits v = drop l (bits s')" "bits_ok v" "bk v \<le> 15" "same_but_reader s' v" by blast
  have "bits_value (bits s') mod 2 ^ l = V div 2 ^ (m * l) mod 2 ^ l"
    unfolding IH(2) assms(5) using ml assms(9) by (subst bits_value_drop) simp_all
  also have "\<dots> = i div 2 ^ (m * l) mod 2 ^ l"
    using mod_power_le [of "m * l + l" k V] ml(2) assms(6) by (simp add: div_mod_start add.commute)
  finally have j: "low_bits l u = Some (i div 2 ^ (m * l) mod 2 ^ l)" using u(2) by simp
  let ?r = "\<lparr>h_e = 16 + n, h_b = l, h_v = Tab t'\<rparr>"
  have "decode_entry D ?r u = do { s \<leftarrow> NEEDBITS n v; j \<leftarrow> low_bits n s; r \<leftarrow> table_entry D t' j; decode_entry D r s }"
    using link.prems(2) link.hyps(2) assms(2) v(1)
    by (simp add: decode_entry.simps [of D ?r] Let_def tab_of_def)
  then have "decode_symbol D l s = do { s \<leftarrow> NEEDBITS n v; j \<leftarrow> low_bits n s; r \<leftarrow> table_entry D t' j; decode_entry D r s }"
    unfolding IH(1) u(1) using j link.hyps(3) by simp
  moreover have "bits v = drop (Suc m * l) (bits s)" using v(2) IH(2) by (simp add: add.commute)
  ultimately show ?case using v(3,4) same_but_reader_trans [OF IH(5) v(5)] by blast
qed

lemma decode_symbol_code:
  assumes "decodes D l k i ev" and "l \<le> 9" and "bits_ok s" "bk s \<le> 15" and b: "bits s = cs @ r" "length cs = k" "bits_value cs = i"
    and "9 \<le> length r" "fst ev \<le> 16"
  obtains s' h where "decode_symbol D l s = Some (Some \<lparr>h_e = fst ev, h_b = h, h_v = snd ev\<rparr>, s')" "bits s' = r" "bits_ok s'"
    "bk s' \<le> 15" "same_but_reader s s'"
proof -
  obtain m t n where d: "walks D l i m t n" "m * l < k" "k \<le> m * l + n"
    "\<And>B. B mod 2 ^ (k - m * l) = i div 2 ^ (m * l) \<Longrightarrow>
       table_entry D t (B mod 2 ^ n) = Some \<lparr>h_e = fst ev, h_b = k - m * l, h_v = snd ev\<rparr>"
    using assms(1) by (auto simp: decodes_def)
  define V where "V = bits_value (bits s)"
  have V: "V mod 2 ^ k = i" using bits_value_take [of k "bits s"] b by (simp add: V_def)
  have n: "0 < n" "n \<le> 9" using d(2,3) walks_bits [OF d(1)] assms(2) by simp_all
  have len: "k + 9 \<le> length (bits s)" using b assms(8) by simp
  from decode_walk [OF d(1) assms(2-4) V_def V d(2) n(1) len] obtain s' where
    w: "decode_symbol D l s = do { s \<leftarrow> NEEDBITS n s'; j \<leftarrow> low_bits n s; r \<leftarrow> table_entry D t j; decode_entry D r s }"
    "bits s' = drop (m * l) (bits s)" "bits_ok s'" "bk s' \<le> 15" "same_but_reader s s'" by blast
  let ?B = "bits_value (bits s')" and ?h = "k - m * l"
  have ns: "n \<le> length (bits s')" using w(2) len d(2) n(2) by simp
  have h: "?h \<le> n" "0 < ?h" using d(2,3) by simp_all
  from table_bits_read [OF w(3) n(2) ns w(4) h] obtain u v where
    u: "NEEDBITS n s' = Some u" "low_bits n u = Some (?B mod 2 ^ n)"
    and v: "DUMPBITS ?h u = Some v" "bits v = drop ?h (bits s')" "bits_ok v" "bk v \<le> 15" "same_but_reader s' v" by blast
  have "?B = V div 2 ^ (m * l)" unfolding w(2) V_def using len d(2) by (intro bits_value_drop) simp
  then have "?B mod 2 ^ ?h = i div 2 ^ (m * l)"
    using d(2) V by (simp add: div_mod_start)
  from d(4) [OF this] have "decode_symbol D l s = Some (Some \<lparr>h_e = fst ev, h_b = ?h, h_v = snd ev\<rparr>, v)"
    unfolding w(1) using u v(1) assms(9) by (simp add: decode_entry.simps)
  moreover have "bits v = r" using v(2) w(2) b d(2) by simp
  ultimately show ?thesis using that v(3,4) same_but_reader_trans [OF w(5) v(5)] by blast
qed

subsection \<open>Literals and matches\<close>

text \<open>A match names its length and its distance by a symbol each and the value of the extra bits.\<close>

datatype token = Literal u8 | Match nat nat nat nat

definition match_length :: "nat \<Rightarrow> nat \<Rightarrow> nat" where
  "match_length lc lx = cplens ! lc + lx"

definition match_distance :: "nat \<Rightarrow> nat \<Rightarrow> nat" where
  "match_distance dc dx = cpdist ! dc + dx"

fun token_out :: "token \<Rightarrow> u8 list \<Rightarrow> u8 list" where
  "token_out (Literal c) out = out @ [c]"
| "token_out (Match lc lx dc dx) out = lz_extend (match_length lc lx) (match_distance dc dx) out"

text \<open>The distance reaches back at most to the start of the output.\<close>

fun token_ok :: "nat list \<Rightarrow> nat list \<Rightarrow> u8 list \<Rightarrow> token \<Rightarrow> bool" where
  "token_ok lb db out (Literal c) \<longleftrightarrow> unat c < length lb \<and> lb ! unat c \<noteq> 0"
| "token_ok lb db out (Match lc lx dc dx) \<longleftrightarrow>
     lc < 29 \<and> 257 + lc < length lb \<and> lb ! (257 + lc) \<noteq> 0 \<and> lx < 2 ^ (cplext ! lc) \<and>
     dc < 30 \<and> dc < length db \<and> db ! dc \<noteq> 0 \<and> dx < 2 ^ (cpdext ! dc) \<and> match_distance dc dx \<le> length out"

fun token_bits :: "nat list \<Rightarrow> nat list \<Rightarrow> token \<Rightarrow> bool list" where
  "token_bits lb db (Literal c) = code_bits lb (unat c)"
| "token_bits lb db (Match lc lx dc dx) = code_bits lb (257 + lc) @ nat_bits (cplext ! lc) lx @
     code_bits db dc @ nat_bits (cpdext ! dc) dx"

fun tokens_ok :: "nat list \<Rightarrow> nat list \<Rightarrow> u8 list \<Rightarrow> token list \<Rightarrow> bool" where
  "tokens_ok lb db out [] \<longleftrightarrow> True"
| "tokens_ok lb db out (t # ts) \<longleftrightarrow> token_ok lb db out t \<and> tokens_ok lb db (token_out t out) ts"

definition tokens_bits :: "nat list \<Rightarrow> nat list \<Rightarrow> token list \<Rightarrow> bool list" where
  "tokens_bits lb db ts = concat (map (token_bits lb db) ts) @ code_bits lb 256"

text \<open>Tables for a code: they decode its symbols to the entries of the constant tables.\<close>

definition decodes_all :: "decoder \<Rightarrow> nat \<Rightarrow> nat list \<Rightarrow> nat \<Rightarrow> nat list \<Rightarrow> nat list \<Rightarrow> bool" where
  "decodes_all D l b s d e \<longleftrightarrow> l \<le> 9 \<and>
     (\<forall>q < length b. b ! q \<noteq> 0 \<longrightarrow> decodes D l (b ! q) (brev (b ! q) (canonical b q)) (entry_of s d e q))"

lemma read_symbol:
  assumes "decodes_all D l b s0 d e" "q < length b" "b ! q \<noteq> 0" "fst (entry_of s0 d e q) \<le> 16"
    and "bits s = code_bits b q @ r" "bits_ok s" "bk s \<le> 15" "9 \<le> length r"
  obtains s' h where
    "decode_symbol D l s = Some (Some \<lparr>h_e = fst (entry_of s0 d e q), h_b = h, h_v = snd (entry_of s0 d e q)\<rparr>, s')"
    "bits s' = r" "bits_ok s'" "bk s' \<le> 15" "same_but_reader s s'"
proof -
  have "decodes D l (b ! q) (brev (b ! q) (canonical b q)) (entry_of s0 d e q)" "l \<le> 9"
    using assms(1-3) by (auto simp: decodes_all_def)
  from decode_symbol_code [OF this assms(6,7,5) length_code_bits bits_value_code assms(8,4)] show ?thesis
    using that by blast
qed

lemma read_number:
  assumes "bits s = nat_bits n x @ r" "x < 2 ^ n" "n \<le> 16" "bits_ok s" "bk s \<le> 15"
  obtains s' where "read_bits n s = Some (x, s')" "bits s' = r" "bits_ok s'" "bk s' \<le> 15" "same_but_reader s s'"
proof -
  from read_bits_front [OF assms(4,3)] assms(1) obtain s' where
    "read_bits n s = Some (bits_value (take n (bits s)), s')" "bits s' = drop n (bits s)" "bits_ok s'"
    "same_but_reader s s'" "bk s' \<le> max (bk s) (n + 7) - n" by auto
  with assms that [of s'] show ?thesis by (simp add: bits_value_nat_bits)
qed

lemma length_table: "lc < 29 \<Longrightarrow> cplext ! lc \<le> 5"
proof -
  have "list_all (\<lambda>x. x \<le> 5) (take 29 cplext)" "length cplext = 31" by (simp_all add: cplext_def)
  then show "lc < 29 \<Longrightarrow> cplext ! lc \<le> 5" by (auto simp: list_all_length)
qed

lemma distance_table:
  assumes "dc < 30"
  shows "cpdext ! dc \<le> 13 \<and> 0 < cpdist ! dc \<and> cpdist ! dc + 2 ^ (cpdext ! dc) \<le> WSIZE + 1"
proof -
  have "list_all2 (\<lambda>d x. x \<le> 13 \<and> 0 < d \<and> d + 2 ^ x \<le> WSIZE + 1) cpdist cpdext"
    by (simp add: cpdext_def cpdist_def WSIZE_def)
  moreover have "length cpdist = 30" by (simp add: cpdist_def)
  ultimately show ?thesis using assms by (auto dest: list_all2_nthD)
qed

lemma entry_values:
  "entry_of 257 cplens cplext (unat (c :: u8)) = (16, Num (unat c))"
  "entry_of 257 cplens cplext 256 = (15, Num 256)"
  "entry_of 257 cplens cplext (257 + lc) = (cplext ! lc, Num (cplens ! lc))"
  "entry_of 0 cpdist cpdext dc = (cpdext ! dc, Num (cpdist ! dc))"
  using unsigned_less [of c, where 'a = nat] by (simp_all add: entry_of_def)

subsection \<open>Symbols of a block\<close>

text \<open>Between two symbols.\<close>

definition ready :: "gzip \<Rightarrow> bool" where
  "ready s \<longleftrightarrow> bits_ok s \<and> window_ok s \<and> bk s \<le> 15"

text \<open>From \<open>s\<close> the decompressor has come to \<open>s'\<close>, where \<open>r\<close> is left to read and \<open>out\<close> has been produced.\<close>

definition reached :: "gzip \<Rightarrow> bool list \<Rightarrow> u8 list \<Rightarrow> gzip \<Rightarrow> bool" where
  "reached s r out s' \<longleftrightarrow> ready s' \<and> bits s' = r \<and> out_bytes s' = out \<and> (sums_ok s \<longrightarrow> sums_ok s')"

lemma reached_trans: "reached s r out t \<Longrightarrow> reached t r' out' u \<Longrightarrow> reached s r' out' u"
  by (simp add: reached_def)

lemma reader_reached:
  assumes "same_but_reader s s'" "ready s" "bits_ok s'" "bk s' \<le> 15"
  shows "reached s (bits s') (out_bytes s) s'"
  using assms reader_frame [OF assms(1)] by (simp add: reached_def ready_def)

lemma put_reached:
  assumes "ready s"
  shows "reached s (bits s) (out_bytes s @ [c]) (put_window c s)"
proof -
  have w: "window_ok s" using assms by (simp add: ready_def)
  note put = put_window_output [OF w, of c]
  show ?thesis
    using assms put bits_output [OF put(3)] same_but_outputD [OF put(3)] put_window_sums [of s c]
    by (simp add: reached_def ready_def)
qed

lemma copy_reached:
  assumes "ready s" and "0 < dist" "dist \<le> WSIZE" "dist \<le> length (out_bytes s)"
  obtains s' where "copy_match n (match_start (outcnt s) dist) s = Some s'"
    "reached s (bits s) (lz_extend n dist (out_bytes s)) s'"
proof -
  have w: "window_ok s" "outcnt s < WSIZE" using assms(1) by (simp_all add: ready_def window_ok_def)
  let ?d = "match_start (outcnt s) dist"
  note h = copy_steps_history [OF w(1) assms(2-4) match_start_history [OF w(1) assms(3,4)], of n]
  have f: "same_but_output s (copy_steps n ?d s)" using h by blast
  have "reached s (bits s) (lz_extend n dist (out_bytes s)) (copy_steps n ?d s)"
    using assms(1) h bits_output [OF f] same_but_outputD [OF f] copy_steps_sums [of s n ?d]
    by (simp add: reached_def ready_def)
  with copy_match_steps [OF w(2)] that show ?thesis by blast
qed

lemma symbol_reached:
  assumes "ready s" "decodes_all D l b s0 d e" "q < length b" "b ! q \<noteq> 0" "entry_of s0 d e q = (x, v)" "x \<le> 16"
    and "bits s = code_bits b q @ r" "9 \<le> length r"
  obtains s' h where "decode_symbol D l s = Some (Some \<lparr>h_e = x, h_b = h, h_v = v\<rparr>, s')" "reached s r (out_bytes s) s'"
proof -
  have "bits_ok s" "bk s \<le> 15" "fst (entry_of s0 d e q) \<le> 16" using assms by (simp_all add: ready_def)
  from read_symbol [OF assms(2-4) this(3) assms(7) this(1,2) assms(8)] obtain s' h where
    "decode_symbol D l s = Some (Some \<lparr>h_e = x, h_b = h, h_v = v\<rparr>, s')" "bits s' = r" "bits_ok s'" "bk s' \<le> 15"
    "same_but_reader s s'" unfolding assms(5) fst_conv snd_conv .
  with reader_reached [OF this(5) assms(1) this(3,4)] that show ?thesis by simp
qed

lemma number_reached:
  assumes "ready s" "bits s = nat_bits n x @ r" "x < 2 ^ n" "n \<le> 16"
  obtains s' where "read_bits n s = Some (x, s')" "reached s r (out_bytes s) s'"
proof -
  have "bits_ok s" "bk s \<le> 15" using assms(1) by (simp_all add: ready_def)
  from read_number [OF assms(2-4) this] obtain s' where "read_bits n s = Some (x, s')" "bits s' = r" "bits_ok s'"
    "bk s' \<le> 15" "same_but_reader s s'" by blast
  with reader_reached [OF this(5) assms(1) this(3,4)] that show ?thesis by simp
qed

lemma reachedD: "reached s r out t \<Longrightarrow> ready t" "reached s r out t \<Longrightarrow> bits t = r" "reached s r out t \<Longrightarrow> out_bytes t = out"
  by (simp_all add: reached_def)

text \<open>One literal or match.\<close>

lemma inflate_codes_token:
  assumes lt: "decodes_all lt bl lb 257 cplens cplext" and dt: "decodes_all dt bd db 0 cpdist cpdext"
    and s: "ready s" "token_ok lb db (out_bytes s) x" "bits s = token_bits lb db x @ r" "9 \<le> length r"
  obtains s' where "inflate_codes lt dt bl bd s = inflate_codes lt dt bl bd s'" "reached s r (token_out x (out_bytes s)) s'"
proof (cases x)
  case (Literal c)
  have b: "bits s = code_bits lb (unat c) @ r" "unat c < length lb" "lb ! unat c \<noteq> 0" using s Literal by simp_all
  from symbol_reached [OF s(1) lt b(2,3) entry_values(1) order_refl b(1) s(4)] obtain t h where
    t: "decode_symbol lt bl s = Some (Some \<lparr>h_e = 16, h_b = h, h_v = Num (unat c)\<rparr>, t)" "reached s r (out_bytes s) t" .
  have "inflate_codes lt dt bl bd s = inflate_codes lt dt bl bd (put_window c t)"
    by (subst inflate_codes.simps) (simp add: t(1) num_of_def)
  moreover have "reached s r (token_out x (out_bytes s)) (put_window c t)"
    using reached_trans [OF t(2) put_reached [OF reachedD(1) [OF t(2)]]] by (simp add: reachedD [OF t(2)] Literal)
  ultimately show ?thesis by (rule that)
next
  case (Match lc lx dc dx)
  let ?r3 = "nat_bits (cpdext ! dc) dx @ r"
  let ?r2 = "code_bits db dc @ ?r3"
  let ?r1 = "nat_bits (cplext ! lc) lx @ ?r2"
  have l: "lc < 29" "257 + lc < length lb" "lb ! (257 + lc) \<noteq> 0" "lx < 2 ^ (cplext ! lc)"
    and d: "dc < 30" "dc < length db" "db ! dc \<noteq> 0" "dx < 2 ^ (cpdext ! dc)" "match_distance dc dx \<le> length (out_bytes s)"
    and b: "bits s = code_bits lb (257 + lc) @ ?r1" "9 \<le> length ?r1" "9 \<le> length ?r3"
    using s Match by simp_all
  have tab: "cplext ! lc \<le> 5" "cpdext ! dc \<le> 13" "0 < match_distance dc dx" "match_distance dc dx \<le> WSIZE"
    using length_table [OF l(1)] distance_table [OF d(1)] d(4) by (simp_all add: match_distance_def)
  have x: "cplext ! lc \<le> 16" "cpdext ! dc \<le> 16" using tab by simp_all
  from symbol_reached [OF s(1) lt l(2,3) entry_values(3) x(1) b(1,2)] obtain t h where
    t: "decode_symbol lt bl s = Some (Some \<lparr>h_e = cplext ! lc, h_b = h, h_v = Num (cplens ! lc)\<rparr>, t)"
      "reached s ?r1 (out_bytes s) t" .
  note tD = reachedD [OF t(2)]
  from number_reached [OF tD(1,2) l(4) x(1)] obtain u where
    u: "read_bits (cplext ! lc) t = Some (lx, u)" "reached t ?r2 (out_bytes t) u" .
  note uD = reachedD [OF u(2)]
  from symbol_reached [OF uD(1) dt d(2,3) entry_values(4) x(2) uD(2) b(3)] obtain v k where
    v: "decode_symbol dt bd u = Some (Some \<lparr>h_e = cpdext ! dc, h_b = k, h_v = Num (cpdist ! dc)\<rparr>, v)"
      "reached u ?r3 (out_bytes u) v" .
  note vD = reachedD [OF v(2)]
  from number_reached [OF vD(1,2) d(4) x(2)] obtain w where
    w: "read_bits (cpdext ! dc) v = Some (dx, w)" "reached v r (out_bytes v) w" .
  note wD = reachedD [OF w(2)]
  have out: "out_bytes w = out_bytes s" using tD uD vD wD by simp
  have far: "match_distance dc dx \<le> length (out_bytes w)" using d(5) out by simp
  from copy_reached [OF wD(1) tab(3,4) far, of "match_length lc lx"] obtain z where
    z: "copy_match (match_length lc lx) (match_start (outcnt w) (match_distance dc dx)) w = Some z"
      "reached w (bits w) (lz_extend (match_length lc lx) (match_distance dc dx) (out_bytes w)) z" .
  have "inflate_codes lt dt bl bd s = inflate_codes lt dt bl bd z"
    using tab(1) z(1) by (subst inflate_codes.simps)
      (simp add: t(1) u(1) v(1) w(1) num_of_def match_length_def match_distance_def)
  moreover have "reached s r (token_out x (out_bytes s)) z"
    using t(2) u(2) v(2) w(2) z(2) by (simp add: reached_def Match)
  ultimately show ?thesis by (rule that)
qed

lemma inflate_codes_tokens:
  assumes lt: "decodes_all lt bl lb 257 cplens cplext" and dt: "decodes_all dt bd db 0 cpdist cpdext"
    and "256 < length lb" "lb ! 256 \<noteq> 0" "9 \<le> length r"
  shows "ready s \<Longrightarrow> tokens_ok lb db (out_bytes s) xs \<Longrightarrow> bits s = tokens_bits lb db xs @ r \<Longrightarrow>
    \<exists>s'. inflate_codes lt dt bl bd s = Some (0, s') \<and> reached s r (fold token_out xs (out_bytes s)) s'"
proof (induction xs arbitrary: s)
  case Nil
  then have "bits s = code_bits lb 256 @ r" by (simp add: tokens_bits_def)
  moreover have "15 \<le> (16 :: nat)" by simp
  ultimately obtain t h where
    t: "decode_symbol lt bl s = Some (Some \<lparr>h_e = 15, h_b = h, h_v = Num 256\<rparr>, t)" "reached s r (out_bytes s) t"
    using symbol_reached [OF Nil.prems(1) lt assms(3,4) entry_values(2) _ _ assms(5)] by blast
  then show ?case by (subst inflate_codes.simps) simp
next
  case (Cons x xs)
  have b: "bits s = token_bits lb db x @ (tokens_bits lb db xs @ r)" using Cons.prems(3) by (simp add: tokens_bits_def)
  have x: "token_ok lb db (out_bytes s) x" "9 \<le> length (tokens_bits lb db xs @ r)" using Cons.prems(2) assms(5) by simp_all
  from inflate_codes_token [OF lt dt Cons.prems(1) x(1) b x(2)] obtain t where
    t: "inflate_codes lt dt bl bd s = inflate_codes lt dt bl bd t"
      "reached s (tokens_bits lb db xs @ r) (token_out x (out_bytes s)) t" .
  note tD = reachedD [OF t(2)]
  have "tokens_ok lb db (out_bytes t) xs" using Cons.prems(2) tD(3) by simp
  from Cons.IH [OF tD(1) this tD(2)] obtain u where
    "inflate_codes lt dt bl bd t = Some (0, u)" "reached t r (fold token_out xs (out_bytes t)) u" by blast
  then show ?case using t reached_trans tD(3) by auto
qed

subsection \<open>Tables for a code\<close>

lemma built_decodes_all:
  assumes "lengths_ok b s d e" "table_room b m" "root_bits b m \<le> 9"
  obtains ts where "huft_build b s d e m
      = Some (if kraft BMAX b = 2 ^ BMAX \<or> (\<forall>k \<in> set b. k \<le> 1) then 0 else 1, ts, root_bits b m)"
    "decodes_all ts (root_bits b m) b s d e"
proof -
  from huft_build_returns [OF assms(1)] obtain ts where
    ts: "huft_build b s d e m
      = Some (if kraft BMAX b = 2 ^ BMAX \<or> (\<forall>k \<in> set b. k \<le> 1) then 0 else 1, ts, root_bits b m)" by blast
  from huft_build_decodes [OF assms(1,2) _ _ ts] assms(3) have "decodes_all ts (root_bits b m) b s d e"
    by (simp add: decodes_all_def)
  with ts show ?thesis by (rule that)
qed

text \<open>A complete code of fewer than \<open>2 ^ m\<close> symbols has one of at most \<open>m\<close> bits.\<close>

definition complete :: "nat list \<Rightarrow> bool" where
  "complete b \<longleftrightarrow> set b \<subseteq> {..BMAX} \<and> kraft BMAX b = 2 ^ BMAX"

lemma complete_used: "complete b \<Longrightarrow> \<exists>k \<in> set b. k \<noteq> 0"
proof (rule ccontr)
  assume b: "complete b" "\<not> (\<exists>k \<in> set b. k \<noteq> 0)"
  then have "filter ((\<noteq>) 0) b = []" by (simp add: filter_empty_conv)
  with b(1) show False by (simp add: complete_def kraft_def del: not_gr_zero)
qed

lemma complete_root:
  assumes "complete b" "length b < 2 ^ m"
  shows "root_bits b m \<le> m"
proof -
  have b: "set b \<subseteq> {..BMAX}" "kraft BMAX b = 2 ^ BMAX" using assms(1) by (simp_all add: complete_def)
  let ?j = "min_length (length_counts b)"
  note lb = length_bounds [OF b(1) complete_used [OF assms(1)]]
  have "?j \<le> m"
  proof (rule ccontr)
    assume "\<not> ?j \<le> m"
    then have less: "m < ?j" by simp
    have "?j \<le> k" if "k \<in> set b" "k \<noteq> 0" for k
      using lb(4) [of k] that by (simp add: length_counts_count count_list_0_iff)
    then have le: "2 ^ (BMAX - k) \<le> (2 :: nat) ^ (BMAX - Suc m)" if "k \<in> set (filter ((\<noteq>) 0) b)" for k
      using that less by (intro power_increasing) fastforce+
    have "kraft BMAX b \<le> (\<Sum>k \<leftarrow> filter ((\<noteq>) 0) b. 2 ^ (BMAX - Suc m))"
      unfolding kraft_def by (rule sum_list_mono) (rule le)
    also have "\<dots> \<le> length b * 2 ^ (BMAX - Suc m)" by (simp add: sum_list_triv)
    also have "\<dots> < 2 ^ m * 2 ^ (BMAX - Suc m)" using assms(2) by simp
    also have "\<dots> \<le> 2 ^ BMAX" using less lb(1-3) by (simp flip: power_add)
    finally show False using b(2) by simp
  qed
  then show ?thesis by (simp add: root_bits_def)
qed

lemma complete_tables:
  assumes "complete b" "length b < 2 ^ m" "m \<le> 9" "length b \<le> s + length d" "length b \<le> s + length e"
  obtains ts where "huft_build b s d e m = Some (0, ts, root_bits b m)" "decodes_all ts (root_bits b m) b s d e"
proof -
  have "lengths_ok b s d e" "table_room b m" "kraft BMAX b = 2 ^ BMAX"
    using assms complete_used [OF assms(1)] by (simp_all add: lengths_ok_def table_room_def complete_def)
  moreover have "root_bits b m \<le> 9" using complete_root [OF assms(1,2)] assms(3) by simp
  ultimately show ?thesis using built_decodes_all [of b s d e m] that by auto
qed

subsection \<open>Blocks with fixed codes\<close>

definition fixed_distances :: "nat list" where
  "fixed_distances = replicate 30 5"

lemma fixed_lengths_nth:
  "q < 288 \<Longrightarrow> fixed_lengths ! q = (if q < 144 then 8 else if q < 256 then 9 else if q < 280 then 7 else 8)"
  by (auto simp: fixed_lengths_def nth_append)

lemma fixed_lengths_length [simp]: "length fixed_lengths = 288"
  by (simp add: fixed_lengths_def)

lemma fixed_roots: "root_bits fixed_lengths 7 = 7" "root_bits fixed_distances 5 = 5"
proof -
  have rep: "count_list (replicate n x) k = (if k = x then n else 0)" for n k x :: nat by (induction n) auto
  have "length_counts fixed_lengths = (\<lambda>k. if k = 8 then 152 else if k = 9 then 112 else if k = 7 then 24 else 0)"
    "length_counts fixed_distances = (\<lambda>k. if k = 5 then 30 else 0)"
    by (simp_all add: fun_eq_iff length_counts_count fixed_lengths_def fixed_distances_def rep)
  then show "root_bits fixed_lengths 7 = 7" "root_bits fixed_distances 5 = 5"
    by (simp_all add: root_bits_def min_length_def max_length_def BMAX_def upt_rec)
qed

lemma fixed_tables:
  obtains lt dt where "huft_build fixed_lengths 257 cplens cplext 7 = Some (0, lt, 7)"
    "decodes_all lt 7 fixed_lengths 257 cplens cplext"
    "huft_build (replicate 30 5) 0 cpdist cpdext 5 = Some (1, dt, 5)"
    "decodes_all dt 5 fixed_distances 0 cpdist cpdext"
proof -
  have "kraft BMAX fixed_lengths = 2 ^ BMAX" by (simp add: kraft_def fixed_lengths_def BMAX_def sum_list_replicate)
  moreover then have "lengths_ok fixed_lengths 257 cplens cplext"
    by (simp add: lengths_ok_def BMAX_def) (simp add: fixed_lengths_def cplens_def cplext_def)
  moreover have "table_room fixed_lengths 7" by (simp add: table_room_def fixed_lengths_def)
  ultimately obtain lt where lt: "huft_build fixed_lengths 257 cplens cplext 7 = Some (0, lt, 7)"
    "decodes_all lt 7 fixed_lengths 257 cplens cplext"
    using built_decodes_all [of fixed_lengths 257 cplens cplext 7] unfolding fixed_roots by auto
  have k: "kraft BMAX fixed_distances = 61440" by (simp add: kraft_def fixed_distances_def BMAX_def sum_list_replicate)
  then have ok: "lengths_ok fixed_distances 0 cpdist cpdext"
    by (simp add: lengths_ok_def BMAX_def) (simp add: fixed_distances_def cpdist_def cpdext_def)
  have room: "table_room fixed_distances 5" by (simp add: table_room_def fixed_distances_def)
  have "(if kraft BMAX fixed_distances = 2 ^ BMAX \<or> (\<forall>k \<in> set fixed_distances. k \<le> 1) then 0 else 1 :: nat) = 1"
    using k by (simp add: BMAX_def) (simp add: fixed_distances_def)
  from built_decodes_all [OF ok room, unfolded this fixed_roots] obtain dt where "huft_build fixed_distances 0 cpdist cpdext 5 = Some (1, dt, 5)"
    "decodes_all dt 5 fixed_distances 0 cpdist cpdext"
    by auto
  with lt show ?thesis using that unfolding fixed_distances_def by blast
qed

lemma inflate_fixed_tokens:
  assumes "ready s" "tokens_ok fixed_lengths fixed_distances (out_bytes s) xs"
    "bits s = tokens_bits fixed_lengths fixed_distances xs @ r" "9 \<le> length r"
  shows "\<exists>s'. inflate_fixed s = Some (0, s') \<and> reached s r (fold token_out xs (out_bytes s)) s'"
proof (rule fixed_tables)
  fix lt dt assume t: "huft_build fixed_lengths 257 cplens cplext 7 = Some (0, lt, 7)"
    "decodes_all lt 7 fixed_lengths 257 cplens cplext" "huft_build (replicate 30 5) 0 cpdist cpdext 5 = Some (1, dt, 5)"
    "decodes_all dt 5 fixed_distances 0 cpdist cpdext"
  have "256 < length fixed_lengths" "fixed_lengths ! 256 \<noteq> 0" by (simp_all add: fixed_lengths_nth)
  from inflate_codes_tokens [OF t(2,4) this assms(4,1-3)] t(1,3) show ?thesis
    by (auto simp: inflate_fixed_def)
qed

subsection \<open>Blocks that transmit their codes\<close>

text \<open>The code lengths, with a code of their own: a length, a repetition of the last one, or zeros.\<close>

datatype length_item = Len nat | Again nat | Zeros nat | More_Zeros nat

definition last_length :: "nat list \<Rightarrow> nat" where
  "last_length ll = last (0 # ll)"

lemma last_length_simps [simp]:
  "last_length [] = 0" "last_length (ll @ [k]) = k" "0 < n \<Longrightarrow> last_length (ll @ replicate n k) = k"
  by (auto simp: last_length_def last_append last_replicate)

fun item_lengths :: "length_item \<Rightarrow> nat list \<Rightarrow> nat list" where
  "item_lengths (Len k) ll = ll @ [k]"
| "item_lengths (Again x) ll = ll @ replicate (3 + x) (last_length ll)"
| "item_lengths (Zeros x) ll = ll @ replicate (3 + x) 0"
| "item_lengths (More_Zeros x) ll = ll @ replicate (11 + x) 0"

text \<open>The symbol of an item, and the number in its extra bits.\<close>

fun item_code :: "length_item \<Rightarrow> nat \<times> nat \<times> nat" where
  "item_code (Len k) = (k, 0, 0)"
| "item_code (Again x) = (16, 2, x)"
| "item_code (Zeros x) = (17, 3, x)"
| "item_code (More_Zeros x) = (18, 7, x)"

definition item_ok :: "nat list \<Rightarrow> length_item \<Rightarrow> bool" where
  "item_ok cl it \<longleftrightarrow> (case item_code it of (q, n, x) \<Rightarrow> q < 19 \<and> cl ! q \<noteq> 0 \<and> x < 2 ^ n \<and> (n = 0 \<longrightarrow> q < 16))"

definition item_bits :: "nat list \<Rightarrow> length_item \<Rightarrow> bool list" where
  "item_bits cl it = (case item_code it of (q, n, x) \<Rightarrow> code_bits cl q @ nat_bits n x)"

text \<open>The code of the code lengths fits in one table.\<close>

definition length_code_ok :: "nat list \<Rightarrow> bool" where
  "length_code_ok cl \<longleftrightarrow> complete cl \<and> length cl = 19 \<and> set cl \<subseteq> {..7}"

lemma length_code_root:
  assumes "length_code_ok cl"
  shows "root_bits cl 7 \<le> 7" "k \<in> set cl \<Longrightarrow> k \<le> root_bits cl 7"
proof -
  have c: "complete cl" "set cl \<subseteq> {..BMAX}" "set cl \<subseteq> {..7}" "length cl < 2 ^ 7"
    using assms by (simp_all add: length_code_ok_def complete_def)
  note lb = length_bounds [OF c(2) complete_used [OF c(1)]]
  show "root_bits cl 7 \<le> 7" by (rule complete_root [OF c(1,4)])
  assume k: "k \<in> set cl"
  then have "k \<le> max_length (length_counts cl)"
    using lb(4) [of k] by (cases "k = 0") (simp_all add: length_counts_count count_list_0_iff)
  moreover have "k \<le> 7" using k c(3) by auto
  ultimately show "k \<le> root_bits cl 7" by (simp add: root_bits_def)
qed

lemma decodes_direct:
  assumes "decodes D l k i ev" "k \<le> l" "B mod 2 ^ k = i"
  shows "table_entry D 0 (B mod 2 ^ l) = Some \<lparr>h_e = fst ev, h_b = k, h_v = snd ev\<rparr>"
proof -
  obtain m t n where d: "walks D l i m t n" "m * l < k"
    "\<And>B. B mod 2 ^ (k - m * l) = i div 2 ^ (m * l) \<Longrightarrow>
       table_entry D t (B mod 2 ^ n) = Some \<lparr>h_e = fst ev, h_b = k - m * l, h_v = snd ev\<rparr>"
    using assms(1) by (auto simp: decodes_def)
  have m: "m = 0"
  proof (cases m)
    case (Suc m')
    then have "l \<le> m * l" by simp
    then show ?thesis using d(2) assms(2) by linarith
  qed simp
  with d(1) have "t = 0" "n = l" by (auto elim: walks_0E)
  with d(3) [of B] m assms(3) show ?thesis by simp
qed

lemma length_symbol:
  assumes "ready s" "length_code_ok cl" "decodes_all D (root_bits cl 7) cl 19 [] []" "q < 19" "cl ! q \<noteq> 0"
    and "bits s = code_bits cl q @ r" "9 \<le> length r"
  obtains t i h u where "NEEDBITS (root_bits cl 7) s = Some t" "low_bits (root_bits cl 7) t = Some i"
    "table_entry D 0 i = Some \<lparr>h_e = 16, h_b = h, h_v = Num q\<rparr>" "DUMPBITS h t = Some u" "reached s r (out_bytes s) u"
proof -
  let ?l = "root_bits cl 7" and ?k = "cl ! q"
  have q: "q < length cl" using assms(2,4) by (simp add: length_code_ok_def)
  have l: "?l \<le> 9" "?k \<le> ?l" using length_code_root [OF assms(2)] q by (auto intro: order_trans)
  have s: "bits_ok s" "bk s \<le> 15" using assms(1) by (simp_all add: ready_def)
  have len: "?l \<le> length (bits s)" using assms(6,7) l by simp
  have k: "0 < ?k" using assms(5) by simp
  from table_bits_read [OF s(1) l(1) len s(2) l(2) k] obtain t u where
    t: "NEEDBITS ?l s = Some t" "low_bits ?l t = Some (bits_value (bits s) mod 2 ^ ?l)"
      "DUMPBITS ?k t = Some u" "bits u = drop ?k (bits s)" "bits_ok u" "bk u \<le> 15" "same_but_reader s u" .
  have "bits_value (bits s) mod 2 ^ ?k = brev ?k (canonical cl q)"
    using bits_value_take [of ?k "bits s"] assms(6) by (simp add: bits_value_code)
  moreover have "decodes D ?l ?k (brev ?k (canonical cl q)) (entry_of 19 [] [] q)"
    using assms(3,5) q by (simp add: decodes_all_def)
  ultimately have "table_entry D 0 (bits_value (bits s) mod 2 ^ ?l) = Some \<lparr>h_e = 16, h_b = ?k, h_v = Num q\<rparr>"
    using decodes_direct [OF _ l(2)] assms(4) by (simp add: entry_of_def)
  moreover have "reached s r (out_bytes s) u"
    using reader_reached [OF t(7) assms(1) t(5,6)] t(4) assms(6) by simp
  ultimately show ?thesis using that t(1-3) by blast
qed

lemma item_step:
  assumes "ready s" "length_code_ok cl" "decodes_all D (root_bits cl 7) cl 19 [] []" "item_ok cl it"
    and "bits s = item_bits cl it @ r" "9 \<le> length r" "length (item_lengths it ll) \<le> n"
  obtains s' where "read_lengths D (root_bits cl 7) n ll (last_length ll) s
      = read_lengths D (root_bits cl 7) n (item_lengths it ll) (last_length (item_lengths it ll)) s'"
    "reached s r (out_bytes s) s'"
proof -
  obtain q m x where c: "item_code it = (q, m, x)" by (metis prod_cases3)
  have q: "q < 19" "cl ! q \<noteq> 0" "x < 2 ^ m" "m = 0 \<longrightarrow> q < 16" and b: "bits s = code_bits cl q @ (nat_bits m x @ r)"
    using assms(4,5) by (simp_all add: item_ok_def item_bits_def c)
  have r: "9 \<le> length (nat_bits m x @ r)" using assms(6) by simp
  from length_symbol [OF assms(1-3) q(1,2) b r] obtain t i h u where
    t: "NEEDBITS (root_bits cl 7) s = Some t" "low_bits (root_bits cl 7) t = Some i"
      "table_entry D 0 i = Some \<lparr>h_e = 16, h_b = h, h_v = Num q\<rparr>" "DUMPBITS h t = Some u"
      "reached s (nat_bits m x @ r) (out_bytes s) u" .
  note uD = reachedD [OF t(5)]
  have "m \<le> 16" using c by (cases it) simp_all
  from number_reached [OF uD(1,2) q(3) this] obtain v where
    v: "read_bits m u = Some (x, v)" "reached u r (out_bytes u) v" .
  let ?s' = "if m = 0 then u else v"
  have "length ll < n" using assms(7) by (cases it) simp_all
  then have "read_lengths D (root_bits cl 7) n ll (last_length ll) s
      = read_lengths D (root_bits cl 7) n (item_lengths it ll) (last_length (item_lengths it ll)) ?s'"
    using t(1-4) v(1) c q(4) assms(7)
    by (subst read_lengths.simps) (cases it; simp add: num_of_def)
  moreover have "reached s r (out_bytes s) ?s'"
    using t(5) v(2) uD(3) reached_trans [of s _ _ u] by (cases "m = 0") (auto simp: nat_bits_def)
  ultimately show ?thesis by (rule that)
qed

lemma items_longer: "length ll \<le> length (fold item_lengths its ll)"
proof (induction its arbitrary: ll)
  case (Cons it its)
  have "length ll \<le> length (item_lengths it ll)" by (cases it) simp_all
  with Cons [of "item_lengths it ll"] show ?case by simp
qed simp

lemma read_lengths_items:
  assumes cl: "length_code_ok cl" "decodes_all D (root_bits cl 7) cl 19 [] []" "9 \<le> length r"
  shows "ready s \<Longrightarrow> \<forall>it \<in> set its. item_ok cl it \<Longrightarrow> bits s = concat (map (item_bits cl) its) @ r \<Longrightarrow>
    \<exists>s'. read_lengths D (root_bits cl 7) (length (fold item_lengths its ll)) ll (last_length ll) s
      = Some (Inr (fold item_lengths its ll), s') \<and> reached s r (out_bytes s) s'"
proof (induction its arbitrary: ll s)
  case Nil
  then show ?case by (subst read_lengths.simps) (simp add: reached_def)
next
  case (Cons it its)
  let ?ll = "item_lengths it ll" and ?r = "concat (map (item_bits cl) its) @ r"
  have it: "item_ok cl it" "bits s = item_bits cl it @ ?r" "9 \<le> length ?r"
    "length ?ll \<le> length (fold item_lengths its ?ll)"
    using Cons.prems cl(3) items_longer by simp_all
  from item_step [OF Cons.prems(1) cl(1,2) it] obtain t where
    t: "read_lengths D (root_bits cl 7) (length (fold item_lengths its ?ll)) ll (last_length ll) s
      = read_lengths D (root_bits cl 7) (length (fold item_lengths its ?ll)) ?ll (last_length ?ll) t"
      "reached s ?r (out_bytes s) t" .
  note tD = reachedD [OF t(2)]
  have "\<forall>it \<in> set its. item_ok cl it" using Cons.prems(2) by simp
  from Cons.IH [OF tD(1) this tD(2), of ?ll] obtain u where
    "read_lengths D (root_bits cl 7) (length (fold item_lengths its ?ll)) ?ll (last_length ?ll) t
      = Some (Inr (fold item_lengths its ?ll), u)" "reached t r (out_bytes t) u" by blast
  then show ?case using t reached_trans tD(3) by auto
qed

text \<open>The lengths of that code come in the order of \<open>border\<close>, without trailing zeros.\<close>

definition border_bits :: "nat list \<Rightarrow> nat \<Rightarrow> bool list" where
  "border_bits cl nb = concat (map (\<lambda>p. nat_bits 3 (cl ! p)) (take nb border))"

lemma fold_update_nth:
  "q < length ll \<Longrightarrow> fold (\<lambda>p ll. ll[p := f p]) ps ll ! q = (if q \<in> set ps then f q else ll ! q)"
  by (induction ps arbitrary: ll) (auto simp: nth_list_update)

lemma fold_update_length [simp]: "length (fold (\<lambda>p ll. ll[p := f p]) ps ll) = length ll"
  by (induction ps arbitrary: ll) simp_all

lemma border_all: "length cl = 19 \<Longrightarrow> fold (\<lambda>p ll. ll[p := cl ! p]) border (replicate 19 0) = cl"
proof (rule nth_equalityI)
  fix q assume q: "q < length (fold (\<lambda>p ll. ll[p := cl ! p]) border (replicate 19 0))"
  have "list_all (\<lambda>q. q \<in> set border) [0..<19]" by (simp add: border_def upt_rec)
  then have "q \<in> set border" using q by (simp add: list_all_iff)
  with q show "fold (\<lambda>p ll. ll[p := cl ! p]) border (replicate 19 0) ! q = cl ! q"
    by (subst fold_update_nth) simp_all
qed simp

lemma border_lengths_read:
  assumes "\<forall>p \<in> set ps. cl ! p < 8"
  shows "ready s \<Longrightarrow> \<forall>p \<in> set (drop nb ps). cl ! p = 0 \<Longrightarrow>
    bits s = concat (map (\<lambda>p. nat_bits 3 (cl ! p)) (take nb ps)) @ r \<Longrightarrow>
    \<exists>s'. border_lengths ps nb ll s = Some (fold (\<lambda>p ll. ll[p := cl ! p]) ps ll, s') \<and> reached s r (out_bytes s) s'"
  using assms
proof (induction ps nb ll s rule: border_lengths.induct)
  case (1 nb ll s)
  then show ?case by (simp add: reached_def)
next
  case (2 p ps nb ll s)
  show ?case
  proof (cases nb)
    case 0
    with 2 show ?thesis by simp
  next
    case (Suc n)
    have b: "bits s = nat_bits 3 (cl ! p) @ (concat (map (\<lambda>p. nat_bits 3 (cl ! p)) (take n ps)) @ r)"
      "cl ! p < 2 ^ 3" "(3 :: nat) \<le> 16"
      using "2.prems" Suc by simp_all
    from number_reached [OF "2.prems"(1) b] obtain t where
      t: "read_bits 3 s = Some (cl ! p, t)" "reached s (concat (map (\<lambda>p. nat_bits 3 (cl ! p)) (take n ps)) @ r) (out_bytes s) t" .
    note tD = reachedD [OF t(2)]
    have "\<forall>p \<in> set (drop n ps). cl ! p = 0" "\<forall>p \<in> set ps. cl ! p < 8" using "2.prems" Suc by simp_all
    from "2.IH"(2) [OF Suc t(1) refl tD(1) this(1) tD(2) this(2)] obtain u where
      "border_lengths ps n (ll[p := cl ! p]) t = Some (fold (\<lambda>p ll. ll[p := cl ! p]) ps (ll[p := cl ! p]), u)"
      "reached t r (out_bytes t) u" by blast
    then show ?thesis using Suc t tD(3) reached_trans by auto
  qed
qed

text \<open>A block: its trees, given by the items of their lengths, and its symbols.\<close>

record trees =
  tr_nb :: nat
  tr_code :: "nat list"
  tr_items :: "length_item list"
  tr_nl :: nat

definition tr_lengths :: "trees \<Rightarrow> nat list" where
  "tr_lengths t = fold item_lengths (tr_items t) []"

definition literals :: "trees \<Rightarrow> nat list" where
  "literals t = take (tr_nl t) (tr_lengths t)"

definition distances :: "trees \<Rightarrow> nat list" where
  "distances t = drop (tr_nl t) (tr_lengths t)"

definition trees_ok :: "trees \<Rightarrow> bool" where
  "trees_ok t \<longleftrightarrow> 4 \<le> tr_nb t \<and> tr_nb t \<le> 19 \<and> length_code_ok (tr_code t) \<and> (\<forall>p \<in> set (drop (tr_nb t) border). tr_code t ! p = 0) \<and>
     (\<forall>it \<in> set (tr_items t). item_ok (tr_code t) it) \<and> 257 \<le> tr_nl t \<and> tr_nl t \<le> 286 \<and>
     tr_nl t < length (tr_lengths t) \<and> length (tr_lengths t) \<le> tr_nl t + 30 \<and>
     complete (literals t) \<and> complete (distances t) \<and> literals t ! 256 \<noteq> 0"

definition trees_bits :: "trees \<Rightarrow> bool list" where
  "trees_bits t = nat_bits 5 (tr_nl t - 257) @ nat_bits 5 (length (tr_lengths t) - tr_nl t - 1) @ nat_bits 4 (tr_nb t - 4) @
     border_bits (tr_code t) (tr_nb t) @ concat (map (item_bits (tr_code t)) (tr_items t))"

lemma inflate_trees_tokens:
  assumes t: "trees_ok t" and s: "ready s" "tokens_ok (literals t) (distances t) (out_bytes s) xs"
    "bits s = tokens_bits (literals t) (distances t) xs @ r" "9 \<le> length r"
  shows "\<exists>s'. inflate_trees (tr_nl t) (tr_lengths t) s = Some (0, s') \<and> reached s r (fold token_out xs (out_bytes s)) s'"
proof -
  have c: "complete (literals t)" "complete (distances t)" "literals t ! 256 \<noteq> 0" "256 < length (literals t)"
    and ll: "length (literals t) \<le> 286" and ld: "length (distances t) \<le> 30"
    using t by (auto simp: trees_ok_def literals_def distances_def)
  have lb: "lbits = 9" "dbits = 6" by (simp_all add: lbits_def dbits_def)
  have "length (literals t) < 2 ^ 9" "length (literals t) \<le> 257 + length cplens" "length (literals t) \<le> 257 + length cplext"
    using ll by (simp_all add: cplens_def cplext_def)
  from complete_tables [OF c(1) this(1) _ this(2,3)] obtain lt where
    lt: "huft_build (literals t) 257 cplens cplext 9 = Some (0, lt, root_bits (literals t) 9)"
      "decodes_all lt (root_bits (literals t) 9) (literals t) 257 cplens cplext" by auto
  have "length (distances t) < 2 ^ 6" "length (distances t) \<le> 0 + length cpdist" "length (distances t) \<le> 0 + length cpdext"
    using ld by (simp_all add: cpdist_def cpdext_def)
  from complete_tables [OF c(2) this(1) _ this(2,3)] obtain dt where
    dt: "huft_build (distances t) 0 cpdist cpdext 6 = Some (0, dt, root_bits (distances t) 6)"
      "decodes_all dt (root_bits (distances t) 6) (distances t) 0 cpdist cpdext" by auto
  from inflate_codes_tokens [OF lt(2) dt(2) c(4,3) s(4,1-3)] lt(1) dt(1) show ?thesis
    by (auto simp: inflate_trees_def literals_def distances_def lb)
qed

lemma inflate_dynamic_tokens:
  assumes t: "trees_ok t" and s: "ready s" "tokens_ok (literals t) (distances t) (out_bytes s) xs"
    "bits s = trees_bits t @ tokens_bits (literals t) (distances t) xs @ r" "9 \<le> length r"
  shows "\<exists>s'. inflate_dynamic s = Some (0, s') \<and> reached s r (fold token_out xs (out_bytes s)) s'"
proof -
  let ?r5 = "tokens_bits (literals t) (distances t) xs @ r"
  let ?r4 = "concat (map (item_bits (tr_code t)) (tr_items t)) @ ?r5"
  let ?r3 = "border_bits (tr_code t) (tr_nb t) @ ?r4"
  let ?r2 = "nat_bits 4 (tr_nb t - 4) @ ?r3"
  let ?nd = "length (tr_lengths t) - tr_nl t"
  let ?r1 = "nat_bits 5 (?nd - 1) @ ?r2"
  have cl: "length_code_ok (tr_code t)" "\<forall>p \<in> set (drop (tr_nb t) border). tr_code t ! p = 0"
    "\<forall>it \<in> set (tr_items t). item_ok (tr_code t) it"
    and n: "4 \<le> tr_nb t" "tr_nb t \<le> 19" "257 \<le> tr_nl t" "tr_nl t \<le> 286" "1 \<le> ?nd" "?nd \<le> 30"
    using t by (auto simp: trees_ok_def)
  have b: "bits s = nat_bits 5 (tr_nl t - 257) @ ?r1" "tr_nl t - 257 < 2 ^ 5" "?nd - 1 < 2 ^ 5" "tr_nb t - 4 < 2 ^ 4"
    using s(3) n by (simp_all add: trees_bits_def)
  have m: "5 \<le> (16 :: nat)" "4 \<le> (16 :: nat)" by simp_all
  from number_reached [OF s(1) b(1,2) m(1)] obtain u where
    u: "read_bits 5 s = Some (tr_nl t - 257, u)" "reached s ?r1 (out_bytes s) u" .
  note uD = reachedD [OF u(2)]
  from number_reached [OF uD(1,2) b(3) m(1)] obtain v where
    v: "read_bits 5 u = Some (?nd - 1, v)" "reached u ?r2 (out_bytes u) v" .
  note vD = reachedD [OF v(2)]
  from number_reached [OF vD(1,2) b(4) m(2)] obtain w where
    w: "read_bits 4 v = Some (tr_nb t - 4, w)" "reached v ?r3 (out_bytes v) w" .
  note wD = reachedD [OF w(2)]
  have code: "complete (tr_code t)" "length (tr_code t) = 19" "set (tr_code t) \<subseteq> {..7}"
    using cl(1) by (simp_all add: length_code_ok_def)
  have "\<forall>p \<in> set border. tr_code t ! p < 8"
  proof
    fix p assume "p \<in> set border"
    then have "p < length (tr_code t)" using code(2) by (auto simp: border_def)
    then have "tr_code t ! p \<le> 7" using code(3) nth_mem by blast
    then show "tr_code t ! p < 8" by simp
  qed
  from border_lengths_read [OF this wD(1) cl(2) wD(2) [unfolded border_bits_def], of "replicate 19 0"] obtain x where
    x: "border_lengths border (tr_nb t) (replicate 19 0) w = Some (tr_code t, x)" "reached w ?r4 (out_bytes w) x"
    using border_all [OF code(2)] by auto
  note xD = reachedD [OF x(2)]
  have "length (tr_code t) < 2 ^ 7" "length (tr_code t) \<le> 19 + length ([] :: nat list)" using code(2) by simp_all
  from complete_tables [OF code(1) this(1) _ this(2,2)] obtain lt where
    lt: "huft_build (tr_code t) 19 [] [] 7 = Some (0, lt, root_bits (tr_code t) 7)"
      "decodes_all lt (root_bits (tr_code t) 7) (tr_code t) 19 [] []" by auto
  have "9 \<le> length ?r5" using s(4) by simp
  from read_lengths_items [OF cl(1) lt(2) this xD(1) cl(3) xD(2), of "[]"] obtain y where
    y: "read_lengths lt (root_bits (tr_code t) 7) (length (tr_lengths t)) [] 0 x = Some (Inr (tr_lengths t), y)"
      "reached x ?r5 (out_bytes x) y" by (auto simp: tr_lengths_def)
  note yD = reachedD [OF y(2)]
  have out: "out_bytes y = out_bytes s" using uD vD wD xD yD by simp
  then have "tokens_ok (literals t) (distances t) (out_bytes y) xs" using s(2) by simp
  from inflate_trees_tokens [OF t yD(1) this yD(2) s(4)] obtain z where
    z: "inflate_trees (tr_nl t) (tr_lengths t) y = Some (0, z)" "reached y r (fold token_out xs (out_bytes y)) z" by blast
  define a where "a = tr_nl t - 257"
  define b where "b = ?nd - 1"
  define c where "c = tr_nb t - 4"
  have sum: "257 + a = tr_nl t" "4 + c = tr_nb t" "tr_nl t + Suc b = length (tr_lengths t)" "b < 30" "a < 30"
    using n by (simp_all add: a_def b_def c_def)
  have "inflate_dynamic s = Some (0, z)"
    using sum(4,5) u(1) [folded a_def] v(1) [folded b_def] w(1) [folded c_def] x(1) lt(1) y(1) z(1)
    unfolding inflate_dynamic_def by (simp add: sum(1,2) Let_def sum(3) [simplified])
  moreover have "reached s r (fold token_out xs (out_bytes s)) z"
    using u(2) v(2) w(2) x(2) y(2) z(2) by (simp add: reached_def)
  ultimately show ?thesis by blast
qed

subsection \<open>Streams of blocks\<close>

datatype deflate_block = Stored "bool list" "u8 list" | Fixed "token list" | Dynamic trees "token list"

fun block_out :: "deflate_block \<Rightarrow> u8 list \<Rightarrow> u8 list" where
  "block_out (Stored pad xs) out = out @ xs"
| "block_out (Fixed ts) out = fold token_out ts out"
| "block_out (Dynamic t ts) out = fold token_out ts out"

text \<open>The kind of a block and what follows it; the bytes of a stored block start at a byte boundary.\<close>

fun block_bits :: "deflate_block \<Rightarrow> bool list" where
  "block_bits (Stored pad xs) = nat_bits 2 0 @ pad @ concat (map byte_bits (stored_body xs))"
| "block_bits (Fixed ts) = nat_bits 2 1 @ tokens_bits fixed_lengths fixed_distances ts"
| "block_bits (Dynamic t ts) = nat_bits 2 2 @ trees_bits t @ tokens_bits (literals t) (distances t) ts"

text \<open>A block that starts at bit \<open>pos\<close>, behind the output \<open>out\<close>.\<close>

fun block_ok :: "nat \<Rightarrow> u8 list \<Rightarrow> deflate_block \<Rightarrow> bool" where
  "block_ok pos out (Stored pad xs) \<longleftrightarrow> length pad < 8 \<and> (pos + 3 + length pad) mod 8 = 0 \<and> length xs < 2 ^ 16"
| "block_ok pos out (Fixed ts) \<longleftrightarrow> tokens_ok fixed_lengths fixed_distances out ts"
| "block_ok pos out (Dynamic t ts) \<longleftrightarrow> trees_ok t \<and> tokens_ok (literals t) (distances t) out ts"

fun stream_bits :: "deflate_block list \<Rightarrow> bool list" where
  "stream_bits [] = []"
| "stream_bits (b # bs) = (bs = []) # block_bits b @ stream_bits bs"

fun stream_ok :: "nat \<Rightarrow> u8 list \<Rightarrow> deflate_block list \<Rightarrow> bool" where
  "stream_ok pos out [] \<longleftrightarrow> True"
| "stream_ok pos out (b # bs) \<longleftrightarrow> block_ok pos out b \<and> stream_ok (pos + Suc (length (block_bits b))) (block_out b out) bs"

lemma fill_length:
  fixes k n p :: nat
  assumes "(p + (3 + n)) mod 8 = 0" "(p + 3 + k) mod 8 = 0" "k < 8"
  shows "n mod 8 = k"
proof -
  have "(p + 3 + n) mod 8 = (p + 3 + k) mod 8" using assms(1,2) by (simp add: add.assoc)
  then obtain x y where "p + 3 + n + 8 * x = p + 3 + k + 8 * y" by (auto simp: nat_mod_eq_iff)
  then have "n + 8 * x = k + 8 * y" by simp
  then have "(n + 8 * x) mod 8 = (k + 8 * y) mod 8" by (rule arg_cong)
  then show ?thesis using assms(3) by simp
qed

lemma inflate_block_out:
  assumes s: "ready s" "block_ok pos (out_bytes s) b" "bits s = fin # block_bits b @ r" "9 \<le> length r"
    and pos: "(pos + length (bits s)) mod 8 = 0"
  shows "\<exists>s'. inflate_block s = Some (fin, 0, s') \<and> reached s r (block_out b (out_bytes s)) s'"
proof -
  obtain k r' where k: "block_bits b = nat_bits 2 k @ r'" "k < 2 ^ 2"
    "k = (case b of Stored _ _ \<Rightarrow> 0 | Fixed _ \<Rightarrow> 1 | Dynamic _ _ \<Rightarrow> 2)" by (cases b) auto
  have small: "1 \<le> (16 :: nat)" "2 \<le> (16 :: nat)" "of_bool fin < (2 :: nat) ^ 1" by simp_all
  have "bits s = nat_bits 1 (of_bool fin) @ (nat_bits 2 k @ r' @ r)" using s(3) k(1) by (simp add: nat_bits_def bit_0)
  from number_reached [OF s(1) this small(3,1)] obtain t where
    t: "read_bits 1 s = Some (of_bool fin, t)" "reached s (nat_bits 2 k @ r' @ r) (out_bytes s) t" .
  note tD = reachedD [OF t(2)]
  from number_reached [OF tD(1,2) k(2) small(2)] obtain u where
    u: "read_bits 2 t = Some (k, u)" "reached t (r' @ r) (out_bytes t) u" .
  note uD = reachedD [OF u(2)]
  have out: "out_bytes u = out_bytes s" using tD uD by simp
  have len: "length (bits s) = 3 + length (r' @ r)" using s(3) k(1) by simp
  have "\<exists>s'. (if k = 2 then inflate_dynamic u else if k = 0 then inflate_stored u else if k = 1 then inflate_fixed u
      else Some (2, u)) = Some (0, s') \<and> reached u r (block_out b (out_bytes u)) s'"
  proof (cases b)
    case (Stored pad xs)
    have u': "bits_ok u" "window_ok u" "bk u \<le> 15" using uD(1) by (simp_all add: ready_def)
    have r': "r' = pad @ concat (map byte_bits (stored_body xs))" using k Stored by (simp add: nat_bits_def)
    have al: "(pos + (3 + length (r' @ r))) mod 8 = 0" using pos len by simp
    have pad: "length pad < 8" "(pos + 3 + length pad) mod 8 = 0" "length xs < 2 ^ 16" using s(2) Stored by simp_all
    have "bk u mod 8 = length pad" using bits_boundary [of u] uD(2) fill_length [OF al pad(2,1)] by simp
    then have "drop (bk u mod 8) (bits u) = concat (map byte_bits (stored_body xs)) @ r" using uD(2) r' by simp
    from inflate_stored_out [OF u' _ pad(3) this] obtain s' where
      "inflate_stored u = Some (0, s')" "bits s' = r" "bits_ok s'" "window_ok s'" "out_bytes s' = out_bytes u @ xs"
      "bk s' \<le> 15" "sums_ok u \<longrightarrow> sums_ok s'" by auto
    then show ?thesis using Stored k(3) by (simp add: reached_def ready_def)
  next
    case (Fixed ts)
    then have "bits u = tokens_bits fixed_lengths fixed_distances ts @ r" using uD(2) k by (simp add: nat_bits_def)
    from inflate_fixed_tokens [OF uD(1) _ this s(4)] s(2) Fixed out k(3) show ?thesis by simp
  next
    case (Dynamic tr ts)
    then have "bits u = trees_bits tr @ tokens_bits (literals tr) (distances tr) ts @ r" using uD(2) k by (simp add: nat_bits_def)
    from inflate_dynamic_tokens [OF _ uD(1) _ this s(4)] s(2) Dynamic out k(3) show ?thesis by simp
  qed
  then obtain s' where s': "(if k = 2 then inflate_dynamic u else if k = 0 then inflate_stored u
      else if k = 1 then inflate_fixed u else Some (2, u)) = Some (0, s')" "reached u r (block_out b (out_bytes u)) s'" by blast
  have "inflate_block s = Some (fin, 0, s')" unfolding inflate_block_def using t(1) u(1) s'(1) by simp
  moreover have "reached s r (block_out b (out_bytes s)) s'"
    using reached_trans [OF t(2) reached_trans [OF u(2) s'(2)]] out by simp
  ultimately show ?thesis by blast
qed

lemma inflate_blocks_out:
  assumes "9 \<le> length r" "bs \<noteq> []"
  shows "ready s \<Longrightarrow> stream_ok pos (out_bytes s) bs \<Longrightarrow> bits s = stream_bits bs @ r \<Longrightarrow> (pos + length (bits s)) mod 8 = 0 \<Longrightarrow>
    \<exists>s'. inflate_blocks s = Some (0, s') \<and> reached s r (fold block_out bs (out_bytes s)) s'"
  using assms(2)
proof (induction bs arbitrary: s pos)
  case (Cons b bs)
  have b: "bits s = (bs = []) # block_bits b @ (stream_bits bs @ r)" "9 \<le> length (stream_bits bs @ r)"
    "block_ok pos (out_bytes s) b"
    using Cons.prems assms(1) by simp_all
  from inflate_block_out [OF Cons.prems(1) b(3,1,2) Cons.prems(4)] obtain t where
    t: "inflate_block s = Some (bs = [], 0, t)" "reached s (stream_bits bs @ r) (block_out b (out_bytes s)) t" by blast
  note tD = reachedD [OF t(2)]
  show ?case
  proof (cases "bs = []")
    case True
    then show ?thesis using t by (subst inflate_blocks.simps) simp
  next
    case False
    let ?pos = "pos + Suc (length (block_bits b))"
    have st: "stream_ok ?pos (out_bytes t) bs" using Cons.prems(2) tD(3) by simp
    have "(?pos + length (bits t)) mod 8 = 0" using Cons.prems(4) b(1) tD(2) by (simp add: add.assoc)
    from Cons.IH [OF tD(1) st tD(2) this False] obtain u where
      "inflate_blocks t = Some (0, u)" "reached t r (fold block_out bs (out_bytes t)) u" by blast
    then show ?thesis using t False tD(3) reached_trans by (subst inflate_blocks.simps) auto
  qed
qed simp

text \<open>Bytes that hold a stream, filled up to a byte boundary.\<close>

definition packs :: "u8 list \<Rightarrow> deflate_block list \<Rightarrow> bool list \<Rightarrow> bool" where
  "packs cs bs fill \<longleftrightarrow> bs \<noteq> [] \<and> stream_ok 0 [] bs \<and> length fill < 8 \<and> concat (map byte_bits cs) = stream_bits bs @ fill"

text \<open>At most one byte was read too many, and it goes back.\<close>

lemma undo_lookahead_bytes:
  assumes "ready s" "bits s = fill @ concat (map byte_bits r)" "length fill < 8"
  obtains s' where "undo_lookahead s = Some s'" "unread s' = r"
    "s' = s\<lparr>bk := bk s', inptr := inptr s'\<rparr>"
proof (cases "8 \<le> bk s")
  case True
  have ok: "last_byte_ok s" "bk s \<le> 15" using assms(1) by (simp_all add: ready_def bits_ok_def)
  then obtain c where c: "0 < inptr s" "unread (s\<lparr>inptr := inptr s - 1\<rparr>) = c # unread s"
    "map (bit (bb s)) [bk s - 8..<bk s] = byte_bits c" using True by (auto simp: last_byte_ok_def)
  let ?s = "s\<lparr>bk := bk s - 8, inptr := inptr s - 1\<rparr>"
  have "length (bits s) mod 8 = length fill" using assms(2,3) by (simp add: stored_simps)
  then have "bk s mod 8 = length fill" using bits_boundary [of s] by simp
  then have fill: "bk s - 8 = length fill" using True ok(2) by (simp add: le_mod_geq)
  have "[0..<bk s] = [0..<bk s - 8] @ [bk s - 8..<bk s]"
    using True upt_add_eq_append [of 0 "bk s - 8" 8] by simp
  then have "bits s = map (bit (bb s)) [0..<bk s - 8] @ concat (map byte_bits (c # unread s))"
    by (simp add: bits_def c(3))
  then have "concat (map byte_bits (c # unread s)) = concat (map byte_bits r)"
    using assms(2) fill by (simp add: append_eq_append_conv)
  then have "c # unread s = r" by (simp only: concat_bytes_inj)
  then have r: "unread ?s = r" using c(2) by (simp add: unread_def)
  have "undo_lookahead s = undo_lookahead ?s" using True c(1) by (subst undo_lookahead.simps) simp
  also have "\<dots> = Some ?s" using ok(2) by (subst undo_lookahead.simps) simp
  finally show ?thesis by (rule that) (use r in simp_all)
next
  case False
  have "length (bits s) mod 8 = length fill" using assms(2,3) by (simp add: stored_simps)
  then have fill: "bk s = length fill" using bits_boundary [of s] False by simp
  then have "concat (map byte_bits (unread s)) = concat (map byte_bits r)"
    using assms(2) by (simp add: bits_def append_eq_append_conv)
  then have "unread s = r" by (simp only: concat_bytes_inj)
  moreover have "undo_lookahead s = Some s" using False by (subst undo_lookahead.simps) simp
  ultimately show ?thesis using that [of s] by simp
qed

end
