(* ===== verification/Unzip.thy ===== *)
theory Unzip
  imports Inflate
begin


section \<open>The loader's screen and memory\<close>

text \<open>
  boot/zBoot/misc.c: the loader's text output, its byte comparison and its memory allocator. The
  cursor is where the BIOS left it; \<open>vidmem\<close> is text memory, two bytes for a character.
\<close>

record boot_screen =
  vidmem :: "nat \<Rightarrow> u8"
  b_lines :: int
  b_cols :: int
  orig_x :: int
  orig_y :: int

subsection \<open>Text output\<close>

fun blank_cells :: "(nat \<Rightarrow> u8) \<Rightarrow> nat \<Rightarrow> nat \<Rightarrow> (nat \<Rightarrow> u8)" where
  "blank_cells v i 0 = v"
| "blank_cells v i (Suc n) = blank_cells (v(i := 0x20)) (i + 2) n"

text \<open>The length is unsigned in \<open>memcpy\<close>; the blanks go to every second byte of the last line.\<close>

definition boot_scroll :: "int \<Rightarrow> int \<Rightarrow> (nat \<Rightarrow> u8) \<Rightarrow> (nat \<Rightarrow> u8)" where
  "boot_scroll lines cols v = (
     let v = copy_bytes v 0 (nat (cols * 2)) (unat (word_of_int ((lines - 1) * cols * 2) :: u32))
     in blank_cells v (nat ((lines - 1) * cols * 2)) (nat cols))"

definition boot_newline :: "int \<Rightarrow> int \<Rightarrow> int \<Rightarrow> (nat \<Rightarrow> u8) \<Rightarrow> int \<times> int \<times> (nat \<Rightarrow> u8)" where
  "boot_newline lines cols y v =
     (if y + 1 \<ge> lines then (0, y, boot_scroll lines cols v) else (0, y + 1, v))"

definition boot_putc ::
  "int \<Rightarrow> int \<Rightarrow> char \<Rightarrow> int \<times> int \<times> (nat \<Rightarrow> u8) \<Rightarrow> int \<times> int \<times> (nat \<Rightarrow> u8)" where
  "boot_putc lines cols c = (\<lambda>(x, y, v).
     if c = CHR 0x0A then boot_newline lines cols y v
     else let v = v(nat ((x + cols * y) * 2) := of_char c)
          in if x + 1 \<ge> cols then boot_newline lines cols y v else (x + 1, y, v))"

text \<open>The cursor goes back to the BIOS's bytes.\<close>

definition boot_puts :: "string \<Rightarrow> boot_screen \<Rightarrow> boot_screen" where
  "boot_puts msg sc = (
     let (x, y, v) = fold (boot_putc (b_lines sc) (b_cols sc)) msg (orig_x sc, orig_y sc, vidmem sc)
     in sc\<lparr>vidmem := v, orig_x := x mod 256, orig_y := y mod 256\<rparr>)"

subsection \<open>Comparing bytes\<close>

text \<open>
  \<open>memcmp\<close> starts from a counter \<open>i\<close> it never sets, and compares before it counts.
\<close>

function boot_memcmp :: "(nat \<Rightarrow> u8) \<Rightarrow> (nat \<Rightarrow> u8) \<Rightarrow> nat \<Rightarrow> nat \<Rightarrow> nat \<Rightarrow> int" where
  "boot_memcmp s1 s2 p i n =
     (if s1 p = s2 p \<and> i < n then (if s1 p = 0 then 0 else boot_memcmp s1 s2 (p + 1) (i + 1) n)
      else sint (s1 p) - sint (s2 p))"
  by auto
termination by (relation "measure (\<lambda>(s1, s2, p, i, n). n - i)") auto

declare boot_memcmp.simps [simp del]

subsection \<open>Memory for tables\<close>

text \<open>
  \<open>malloc\<close> hands out memory upwards and \<open>free\<close> does nothing. \<open>prog_end\<close> is the end of the loader,
  \<open>data_at\<close> the address of the compressed data, \<open>used\<close> the number of its bytes already read, whose
  place may be reused. The third component says whether it has complained.
\<close>

partial_function (option) malloc_loop ::
  "int \<Rightarrow> int \<Rightarrow> int \<Rightarrow> int \<Rightarrow> int \<Rightarrow> bool \<Rightarrow> (int \<times> int \<times> bool) option" where
  "malloc_loop prog_end data_at used sz ptr warned =
     (let p = ptr + 3 - (ptr + 3) mod 4;
          ptr' = p + sz
      in if ptr' < prog_end
         then if ptr' > data_at + used then error_halt ''Out of memory'' else Some (p, ptr', warned)
         else if ptr' < 0x90000 then Some (p, ptr', warned)
         else malloc_loop prog_end data_at used sz data_at True)"

declare malloc_loop.simps [code]

definition boot_malloc :: "int \<Rightarrow> int \<Rightarrow> int \<Rightarrow> int \<Rightarrow> int \<Rightarrow> (int \<times> int \<times> bool) option" where
  "boot_malloc prog_end data_at used sz free_mem_ptr =
     (if sz < 0 then error_halt ''Malloc error''
      else if free_mem_ptr \<le> 0 then error_halt ''Memory error''
      else malloc_loop prog_end data_at used sz free_mem_ptr False)"

section \<open>Unpacking a file\<close>

text \<open>
  boot/zBoot/unzip.c and the rest of misc.c: the header of the compressed file, the decompression
  with its checks, and \<open>decompress_kernel\<close>, which the loader calls before it jumps to the kernel.
\<close>

record loader =
  gz :: gzip
  screen :: boot_screen
  comp_method :: int
  part_nb :: nat
  pkzip :: bool
  extended :: bool
  decrypt :: bool

definition STORED :: int where "STORED = 0"
definition DEFLATED :: int where "DEFLATED = 8"

definition CONTINUATION :: u8 where "CONTINUATION = 0x02"
definition EXTRA_FIELD :: u8 where "EXTRA_FIELD = 0x04"
definition ORIG_NAME :: u8 where "ORIG_NAME = 0x08"
definition COMMENT :: u8 where "COMMENT = 0x10"
definition ENCRYPTED :: u8 where "ENCRYPTED = 0x20"
definition RESERVED :: u8 where "RESERVED = 0xC0"

definition GZIP_MAGIC :: "nat \<Rightarrow> u8" where
  "GZIP_MAGIC = (\<lambda>i. if i = 0 then 0x1F else if i = 1 then 0x8B else 0)"

definition OLD_GZIP_MAGIC :: "nat \<Rightarrow> u8" where
  "OLD_GZIP_MAGIC = (\<lambda>i. if i = 0 then 0x1F else if i = 1 then 0x9E else 0)"

definition LOCSIG :: u32 where "LOCSIG = 0x04034b50"
definition LOCFLG :: nat where "LOCFLG = 6"
definition CRPFLG :: u8 where "CRPFLG = 1"
definition EXTFLG :: u8 where "EXTFLG = 8"
definition LOCHOW :: nat where "LOCHOW = 8"
definition LOCCRC :: nat where "LOCCRC = 14"
definition LOCSIZ :: nat where "LOCSIZ = 18"
definition LOCLEN :: nat where "LOCLEN = 22"
definition LOCFIL :: nat where "LOCFIL = 26"
definition LOCEXT :: nat where "LOCEXT = 28"
definition LOCHDR :: nat where "LOCHDR = 30"
definition EXTHDR :: nat where "EXTHDR = 16"
definition RAND_HEAD_LEN :: u32 where "RAND_HEAD_LEN = 12"

definition flag_set :: "u8 \<Rightarrow> u8 \<Rightarrow> bool" where
  "flag_set flags f \<longleftrightarrow> flags AND f \<noteq> 0"

subsection \<open>Reading header fields\<close>

fun get_bytes :: "nat \<Rightarrow> gzip \<Rightarrow> (u8 list \<times> gzip) option" where
  "get_bytes 0 s = Some ([], s)"
| "get_bytes (Suc n) s = do {
     (c, s) \<leftarrow> get_byte s;
     (cs, s) \<leftarrow> get_bytes n s;
     Some (c # cs, s)
   }"

partial_function (option) skip_string :: "gzip \<Rightarrow> gzip option" where
  "skip_string s = Option.bind (get_byte s) (\<lambda>(c, s). if c \<noteq> 0 then skip_string s else Some s)"

declare skip_string.simps [code]

text \<open>
  What the stack holds matters: \<open>memcmp\<close> starts from an unset counter (\<open>junk_i\<close>) and may look at
  the byte behind the two of \<open>magic\<close> (\<open>junk\<close>).
\<close>

definition magic_is :: "nat \<Rightarrow> u8 \<Rightarrow> u8 list \<Rightarrow> (nat \<Rightarrow> u8) \<Rightarrow> bool" where
  "magic_is junk_i junk magic m \<longleftrightarrow>
     boot_memcmp (\<lambda>i. if i < 2 then magic ! i else junk) m 0 junk_i 2 = 0"

text \<open>The optional fields of the header; a name is skipped in the second part of a file only.\<close>

definition header_fields :: "u8 \<Rightarrow> nat \<Rightarrow> gzip \<Rightarrow> gzip option" where
  "header_fields flags part s = do {
     (_, s) \<leftarrow> get_bytes 6 s;
     s \<leftarrow> (if flag_set flags EXTRA_FIELD then do {
              (b, s) \<leftarrow> get_bytes 2 s;
              (_, s) \<leftarrow> get_bytes (unat (SH (b ! 0) (b ! 1))) s;
              Some s }
            else Some s);
     s \<leftarrow> (if flag_set flags ORIG_NAME \<and> part > 1 then skip_string s else Some s);
     (if flag_set flags COMMENT then skip_string s else Some s)
   }"

definition get_method :: "nat \<Rightarrow> u8 \<Rightarrow> loader \<Rightarrow> (int \<times> loader) option" where
  "get_method junk_i junk s = do {
     (magic, g) \<leftarrow> get_bytes 2 (gz s);
     let part = part_nb s + 1;
     (if magic_is junk_i junk magic GZIP_MAGIC \<or> magic_is junk_i junk magic OLD_GZIP_MAGIC
      then do {
        (m, g) \<leftarrow> get_byte g;
        (flags, g) \<leftarrow> get_byte g;
        (if flag_set flags ENCRYPTED then error_halt ''Input is encrypted''
         else if flag_set flags CONTINUATION then error_halt ''Multi part input''
         else if flag_set flags RESERVED then error_halt ''Input has invalid flags''
         else do {
           g \<leftarrow> header_fields flags part g;
           Some (uint m, s\<lparr>gz := g, comp_method := uint m, part_nb := part\<rparr>)
         })
      }
      else error_halt ''unknown compression method'')
   }"

subsection \<open>The local header of a PKZIP file\<close>

definition local_byte :: "gzip \<Rightarrow> nat \<Rightarrow> u8" where
  "local_byte g i = inbuf g (inptr g + i)"

definition inbuf_LG :: "gzip \<Rightarrow> nat \<Rightarrow> u32" where
  "inbuf_LG g i = LG (inbuf g i) (inbuf g (i + 1)) (inbuf g (i + 2)) (inbuf g (i + 3))"

definition check_zipfile :: "loader \<Rightarrow> (int \<times> loader) option" where
  "check_zipfile s = (
     let g = gz s;
         h = inptr g;
         p = h + LOCHDR + unat (SH (local_byte g LOCFIL) (local_byte g (LOCFIL + 1)))
               + unat (SH (local_byte g LOCEXT) (local_byte g (LOCEXT + 1)));
         method = uint (local_byte g LOCHOW)
     in if p > insize g \<or> inbuf_LG g h \<noteq> LOCSIG then error_halt ''input not a zip''
        else if method \<noteq> STORED \<and> method \<noteq> DEFLATED
        then error_halt ''first entry not deflated or stored--can't extract''
        else if flag_set (local_byte g LOCFLG) CRPFLG then error_halt ''encrypted file''
        else Some (0, s\<lparr>gz := g\<lparr>inptr := p\<rparr>, comp_method := method, decrypt := False,
                         extended := flag_set (local_byte g LOCFLG) EXTFLG, pkzip := True\<rparr>))"

subsection \<open>Unpacking\<close>

fun put_stored :: "nat \<Rightarrow> gzip \<Rightarrow> gzip option" where
  "put_stored 0 g = Some g"
| "put_stored (Suc n) g = do {
     (c, g) \<leftarrow> get_byte g;
     put_stored n (put_window c g)
   }"

definition unpack_data :: "loader \<Rightarrow> gzip \<Rightarrow> gzip option" where
  "unpack_data s g = (
     if comp_method s = DEFLATED then do {
       (res, g) \<leftarrow> inflate g;
       (if res = 3 then error_halt ''out of memory''
        else if res \<noteq> 0 then error_halt ''invalid compressed format''
        else Some g)
     }
     else if pkzip s \<and> comp_method s = STORED then
       (if inbuf_LG g LOCLEN \<noteq> inbuf_LG g LOCSIZ - (if decrypt s then RAND_HEAD_LEN else 0)
        then error_halt ''length mismatch''
        else put_stored (unat (inbuf_LG g LOCLEN)) g)
     else error_halt ''internal error, invalid method'')"

definition LG_at :: "u8 list \<Rightarrow> nat \<Rightarrow> u32" where
  "LG_at b i = LG (b ! i) (b ! (i + 1)) (b ! (i + 2)) (b ! (i + 3))"

text \<open>The check sum and the length the file gives, and the input after them.\<close>

definition original_sums :: "loader \<Rightarrow> gzip \<Rightarrow> gzip \<Rightarrow> (u32 \<times> u32 \<times> gzip) option" where
  "original_sums s g0 g =
     (if \<not> pkzip s then map_option (\<lambda>(b, g). (LG_at b 0, LG_at b 4, g)) (get_bytes 8 g)
      else if extended s then map_option (\<lambda>(b, g). (LG_at b 4, LG_at b 12, g)) (get_bytes EXTHDR g)
      else Some (inbuf_LG g0 LOCCRC, inbuf_LG g0 LOCLEN, g))"

definition unzip :: "loader \<Rightarrow> loader option" where
  "unzip s = do {
     let g0 = updcrc_init (gz s);
     g \<leftarrow> unpack_data s g0;
     (orig_crc, orig_len, g) \<leftarrow> original_sums s g0 g;
     let (c, g) = updcrc (\<lambda>_. 0) 0 g;
     (if orig_crc \<noteq> c then error_halt ''crc error''
      else if orig_len \<noteq> of_nat (bytes_out g) then error_halt ''length error''
      else if pkzip s \<and> inptr g + 4 < insize g \<and> inbuf_LG g (inptr g) = LOCSIG
      then error_halt ''zip file has more than one entry''
      else Some (s\<lparr>gz := g, pkzip := False, extended := False\<rparr>))
   }"

subsection \<open>The entry point\<close>

text \<open>What the set-up code left at 0x90000: the screen and the size of extended memory.\<close>

record boot_params =
  video_mode :: u8
  video_lines :: u8
  video_cols :: u8
  ext_mem_k :: nat

definition boot_say :: "string \<Rightarrow> loader \<Rightarrow> loader" where
  "boot_say msg s = s\<lparr>screen := boot_puts msg (screen s)\<rparr>"

definition vidmem_base :: "boot_params \<Rightarrow> u32" where
  "vidmem_base p = (if video_mode p = 7 then 0xb0000 else 0xb8000)"

definition decompress_kernel :: "boot_params \<Rightarrow> nat \<Rightarrow> u8 \<Rightarrow> loader \<Rightarrow> loader option" where
  "decompress_kernel p junk_i junk s = (
     let s = s\<lparr>screen := (screen s)\<lparr>b_lines := uint (video_lines p), b_cols := uint (video_cols p)\<rparr>\<rparr>
     in if ext_mem_k p < 1024 then error_halt ''<2M of mem''
        else let s = s\<lparr>gz := makecrc (clear_bufs ((gz s)\<lparr>output_ptr := 0, input_ptr := 0\<rparr>)), part_nb := 0\<rparr>;
                 s = boot_say ''Uncompressing the kernel...'' s
             in do {
               (m, s) \<leftarrow> get_method junk_i junk s;
               s \<leftarrow> unzip (s\<lparr>comp_method := m\<rparr>);
               let s = boot_say (''done.'' @ [CHR 0x0A]) s;
               Some (boot_say (''Now booting the kernel'' @ [CHR 0x0A]) s)
             })"

end
