(* ===== verification/Unzip_Facts.thy ===== *)
theory Unzip_Facts
  imports Deflate_Facts Unzip
begin

text \<open>
  The boot decompressor as a whole: a stream of blocks and the file around it, and, for any input,
  that the check sum and the byte count stay in step with the output.
\<close>

subsection \<open>A stream\<close>

text \<open>The states between which the decompressor works.\<close>

definition gz_fresh :: "gzip \<Rightarrow> bool" where
  "gz_fresh g \<longleftrightarrow> crc_table_ok g \<and> output_ptr g = 0 \<and> outcnt g = 0 \<and> bytes_out g = 0 \<and> input_ptr g \<le> input_len g + 1"

lemma inflate_packed:
  assumes "gz_fresh g" and "crc g = 0xFFFFFFFF" and p: "packs cs bs fill" and "unread g = cs @ r" and "2 \<le> length r"
  shows "\<exists>g'. inflate g = Some (0, g') \<and> unread g' = r \<and> out_bytes g' = fold block_out bs [] \<and> outcnt g' = 0
    \<and> sums_ok g' \<and> input_ptr g' \<le> input_len g' + 1"
proof -
  let ?s = "g\<lparr>outcnt := 0, bk := 0, bb := 0\<rparr>"
  let ?r = "fill @ concat (map byte_bits r)"
  have ok: "ready ?s"
    using assms(1) by (auto simp: ready_def bits_ok_def last_byte_ok_def window_ok_def gz_fresh_def WSIZE_def)
  have sums: "sums_ok ?s" and out: "out_bytes ?s = []"
    using assms(1,2) by (simp_all add: sums_ok_def gz_fresh_def crc_table_ok_def out_bytes_def)
  have bs: "bs \<noteq> []" "stream_ok 0 (out_bytes ?s) bs" "length fill < 8" using p out by (simp_all add: packs_def)
  have c: "bits ?s = concat (map byte_bits (cs @ r))" using assms(4) by (simp add: bits_def unread_def)
  then have b: "bits ?s = stream_bits bs @ ?r" using p by (simp add: packs_def)
  have len: "9 \<le> length ?r" "(0 + length (bits ?s)) mod 8 = 0"
    using assms(5) concat_bytes_length [of r] concat_bytes_length [of "cs @ r"] by (simp, simp only: c) simp
  from inflate_blocks_out [OF len(1) bs(1) ok bs(2) b len(2)]
  obtain t where t: "inflate_blocks ?s = Some (0, t)" "reached ?s ?r (fold block_out bs []) t" using out by auto
  note tD = reachedD [OF t(2)]
  from undo_lookahead_bytes [OF tD(1,2) bs(3)] obtain u where
    u: "undo_lookahead t = Some u" "unread u = r" "u = t\<lparr>bk := bk u, inptr := inptr u\<rparr>" .
  have ti: "sums_ok t" "input_ptr t \<le> input_len t + 1"
    using t(2) sums by (simp_all add: reached_def ready_def bits_ok_def)
  obtain k i where ki: "u = t\<lparr>bk := k, inptr := i\<rparr>" using u(3) by blast
  have us: "sums_ok u" "out_bytes u = fold block_out bs []"
    using ti(1) tD(3) unfolding ki by (simp_all add: sums_ok_def crc_table_ok_def out_bytes_def)
  have ui: "input_ptr u \<le> input_len u + 1" using ti(2) unfolding ki by simp
  note fl = flush_window_output [of u] flush_window_sums [OF us(1)]
  show ?thesis
    using t(1) u(1,2) us ui fl same_but_outputD [OF fl(5)] by (simp add: inflate_def)
qed

subsection \<open>The file around them\<close>

definition le32 :: "u32 \<Rightarrow> u8 list" where
  "le32 v = [ucast v, ucast (drop_bit 8 v), ucast (drop_bit 16 v), ucast (drop_bit 24 v)]"

lemma LG_le32: "LG (ucast v) (ucast (drop_bit 8 v)) (ucast (drop_bit 16 v)) (ucast (drop_bit 24 v)) = v"
  using bytes_of_word [of v] by (simp add: LG_def SH_def push_bit_or or.assoc)

lemma get_bytes_unread:
  assumes "unread s = cs @ r" and "input_ptr s \<le> input_len s + 1"
  shows "\<exists>s'. get_bytes (length cs) s = Some (cs, s') \<and> unread s' = r \<and> same_but_input s s'
    \<and> input_ptr s' \<le> input_len s' + 1"
  using assms
proof (induction cs arbitrary: s)
  case (Cons c cs)
  then have "unread s = c # (cs @ r)" by simp
  from get_byte_unread [OF this Cons.prems(2)]
  obtain t where t: "get_byte s = Some (c, t)" "unread t = cs @ r" "same_but_input s t" "input_ptr t \<le> input_len s + 1"
    by blast
  have "input_ptr t \<le> input_len t + 1" using t(4) same_but_inputD [OF t(3)] by simp
  from Cons.IH [OF t(2) this] t show ?case by (auto intro: same_but_input_trans)
qed simp

text \<open>A header without optional fields: the time stamp and two more bytes are skipped.\<close>

definition gzip_header :: "u8 list \<Rightarrow> u8 list" where
  "gzip_header skipped = [0x1F, 0x8B, 8, 0] @ skipped"

definition gzip_file :: "u8 list \<Rightarrow> u8 list \<Rightarrow> u8 list \<Rightarrow> u8 list" where
  "gzip_file skipped cs data = gzip_header skipped @ cs @ le32 (crc32 data) @ le32 (of_nat (length data))"

text \<open>The comparison with the magic number looks at a third byte when the counter starts at 0.\<close>

lemma magic_is_gzip:
  "magic_is junk_i junk [0x1F, 0x8B] GZIP_MAGIC \<longleftrightarrow> junk_i \<noteq> 0 \<or> junk = 0"
proof -
  have "sint junk = 0 \<longleftrightarrow> junk = 0" by (metis signed_0 signed_word_eqI)
  then show ?thesis by (simp add: magic_is_def GZIP_MAGIC_def boot_memcmp.simps)
qed

lemma get_method_plain:
  assumes "unread (gz s) = gzip_header skipped @ r" and "length skipped = 6"
    and "input_ptr (gz s) \<le> input_len (gz s) + 1" and "junk_i \<noteq> 0 \<or> junk = 0"
  shows "\<exists>g. get_method junk_i junk s = Some (8, s\<lparr>gz := g, comp_method := 8, part_nb := part_nb s + 1\<rparr>) \<and>
    unread g = r \<and> same_but_input (gz s) g \<and> input_ptr g \<le> input_len g + 1"
proof -
  have "unread (gz s) = [0x1F, 0x8B] @ 8 # 0 # skipped @ r" using assms(1) by (simp add: gzip_header_def)
  from get_bytes_unread [OF this assms(3)]
  obtain t where t: "get_bytes 2 (gz s) = Some ([0x1F, 0x8B], t)" "unread t = 8 # 0 # skipped @ r"
    "same_but_input (gz s) t" "input_ptr t \<le> input_len t + 1" by (auto simp: numeral_eq_Suc)
  from get_byte_unread [OF t(2,4)]
  obtain u where u: "get_byte t = Some (8, u)" "unread u = 0 # skipped @ r" "same_but_input t u"
    "input_ptr u \<le> input_len t + 1" by blast
  have iu: "input_ptr u \<le> input_len u + 1" using u(4) same_but_inputD [OF u(3)] by simp
  from get_byte_unread [OF u(2) iu]
  obtain v where v: "get_byte u = Some (0, v)" "unread v = skipped @ r" "same_but_input u v"
    "input_ptr v \<le> input_len u + 1" by blast
  have iv: "input_ptr v \<le> input_len v + 1" using v(4) same_but_inputD [OF v(3)] by simp
  from get_bytes_unread [OF v(2) iv] assms(2)
  obtain w where w: "get_bytes 6 v = Some (skipped, w)" "unread w = r" "same_but_input v w"
    "input_ptr w \<le> input_len w + 1" by auto
  have "same_but_input (gz s) w" using t(3) u(3) v(3) w(3) by (meson same_but_input_trans)
  moreover have "header_fields 0 (part_nb s + 1) v = Some w"
    using w(1) by (simp add: header_fields_def flag_set_def)
  ultimately show ?thesis
    using t(1) u(1) v(1) w(2,4) assms(4)
    by (auto simp: get_method_def magic_is_gzip flag_set_def)
qed

text \<open>Unpacking from the byte behind the header on.\<close>

lemma unzip_packed:
  assumes "gz_fresh (gz s)" and "\<not> pkzip s" and "comp_method s = DEFLATED" and p: "packs cs bs fill"
  defines "data \<equiv> fold block_out bs []"
  assumes "unread (gz s) = cs @ le32 (crc32 data) @ le32 (of_nat (length data)) @ r"
  shows "\<exists>s'. unzip s = Some s' \<and> out_bytes (gz s') = data \<and> outcnt (gz s') = 0 \<and> unread (gz s') = r"
proof -
  let ?data = data
  let ?g = "updcrc_init (gz s)"
  have fresh: "gz_fresh ?g" "crc ?g = 0xFFFFFFFF"
    using assms(1) by (simp_all add: gz_fresh_def updcrc_init_def crc_table_ok_def)
  have u: "unread ?g = cs @ (le32 (crc32 ?data) @ le32 (of_nat (length ?data))) @ r"
    using assms(6) by (simp add: unread_def updcrc_init_def)
  have "2 \<le> length ((le32 (crc32 ?data) @ le32 (of_nat (length ?data))) @ r)" by (simp add: le32_def)
  from inflate_packed [OF fresh p u this, folded data_def]
  obtain g where g: "inflate ?g = Some (0, g)" "unread g = (le32 (crc32 ?data) @ le32 (of_nat (length ?data))) @ r"
    "out_bytes g = ?data" "outcnt g = 0" "sums_ok g" "input_ptr g \<le> input_len g + 1" by blast
  define b where "b = le32 (crc32 ?data) @ le32 (of_nat (length ?data))"
  have "length b = 8" by (simp add: b_def le32_def)
  with get_bytes_unread [of g b r] g(2,6)
  obtain g' where g': "get_bytes 8 g = Some (b, g')" "unread g' = r" "same_but_input g g'" by (auto simp: b_def)
  note gD = same_but_inputD [OF g'(3)] output_frame [OF g'(3)]
  have sums: "sums_ok g'" "outcnt g' = 0" using g(4,5) gD by simp_all
  have tab: "crc_table_ok g'" using sums(1) by (simp add: sums_ok_def)
  have up: "updcrc (\<lambda>_. 0) 0 g' = (crc32 ?data, g')"
    using flushed_sums(1) [OF sums] updcrc_fold [OF tab, of "\<lambda>_. 0" 0] gD(12) g(3) by simp
  have "LG_at b 0 = crc32 ?data" "LG_at b 4 = of_nat (length ?data)"
    using LG_le32 [of "crc32 ?data"] LG_le32 [of "of_nat (length ?data)"]
    by (simp_all add: LG_at_def b_def le32_def)
  moreover have "bytes_out g' = length ?data" using flushed_sums(2) [OF sums] gD(12) g(3) by simp
  ultimately have "unzip s = Some (s\<lparr>gz := g', pkzip := False, extended := False\<rparr>)"
    using assms(2,3) g(1) g'(1) up
    by (simp add: unzip_def unpack_data_def original_sums_def Let_def)
  then show ?thesis using g'(2) sums(2) gD(12) g(3) by simp
qed

text \<open>The state in which \<open>decompress_kernel\<close> starts to read.\<close>

definition loader_started :: "boot_params \<Rightarrow> loader \<Rightarrow> loader" where
  "loader_started p s = boot_say ''Uncompressing the kernel...''
     (s\<lparr>screen := (screen s)\<lparr>b_lines := uint (video_lines p), b_cols := uint (video_cols p)\<rparr>,
        gz := makecrc (clear_bufs ((gz s)\<lparr>output_ptr := 0, input_ptr := 0\<rparr>)), part_nb := 0\<rparr>)"

lemma loader_started_gz:
  "gz_fresh (gz (loader_started p s))" "pkzip (loader_started p s) = pkzip s"
  "unread (gz (loader_started p s)) = map (input_data (gz s)) [0..<input_len (gz s) + 1]"
  using makecrc_ok [of "clear_bufs ((gz s)\<lparr>output_ptr := 0, input_ptr := 0\<rparr>)"]
  by (simp_all add: loader_started_def boot_say_def gz_fresh_def unread_def)
    (simp_all add: clear_bufs_def makecrc_def)

lemma decompress_kernel_eq:
  "decompress_kernel p junk_i junk s =
    (if ext_mem_k p < 1024 then None
     else do {
      (m, s) \<leftarrow> get_method junk_i junk (loader_started p s);
      s \<leftarrow> unzip (s\<lparr>comp_method := m\<rparr>);
      Some (boot_say (''Now booting the kernel'' @ [CHR 0x0A]) (boot_say (''done.'' @ [CHR 0x0A]) s)) })"
  by (simp add: decompress_kernel_def loader_started_def Let_def error_halt_def)

lemma kernel_unpacked:
  assumes "map (input_data (gz s)) [0..<input_len (gz s)] = gzip_file skipped cs (fold block_out bs [])"
    and "length skipped = 6" and "packs cs bs fill" and "\<not> pkzip s"
    and "1024 \<le> ext_mem_k p" and "junk_i \<noteq> 0 \<or> junk = 0"
  shows "\<exists>s'. decompress_kernel p junk_i junk s = Some s' \<and> output_ptr (gz s') = length (fold block_out bs []) \<and>
    map (output_data (gz s')) [0..<length (fold block_out bs [])] = fold block_out bs []"
proof -
  let ?kernel = "fold block_out bs []"
  let ?s1 = "loader_started p s"
  define r where "r = [input_data (gz s) (input_len (gz s))]"
  note s1 = loader_started_gz [of p s]
  have p1: "unread (gz ?s1) = gzip_header skipped @ (cs @
      le32 (crc32 ?kernel) @ le32 (of_nat (length ?kernel)) @ r)"
    using assms(1) by (simp add: s1(3) gzip_file_def r_def)
  have "input_ptr (gz ?s1) \<le> input_len (gz ?s1) + 1" using s1(1) by (simp add: gz_fresh_def)
  from get_method_plain [OF p1 assms(2) this assms(6)]
  obtain g2 where g2: "get_method junk_i junk ?s1 = Some (8, ?s1\<lparr>gz := g2, comp_method := 8, part_nb := part_nb ?s1 + 1\<rparr>)"
    "unread g2 = cs @ le32 (crc32 ?kernel) @ le32 (of_nat (length ?kernel)) @ r"
    "same_but_input (gz ?s1) g2" "input_ptr g2 \<le> input_len g2 + 1" by blast
  define s2 where "s2 = ?s1\<lparr>gz := g2, comp_method := 8, part_nb := part_nb ?s1 + 1\<rparr>"
  have "gz_fresh (gz s2)"
    using s1(1) g2(4) same_but_inputD [OF g2(3)] by (simp add: s2_def gz_fresh_def crc_table_ok_def)
  moreover have "\<not> pkzip s2" "comp_method s2 = DEFLATED" using assms(4) by (simp_all add: s2_def s1 DEFLATED_def)
  ultimately obtain s3 where s3: "unzip s2 = Some s3" "out_bytes (gz s3) = ?kernel" "outcnt (gz s3) = 0"
    using unzip_packed [OF _ _ _ assms(3), of s2 r] g2(2) by (auto simp: s2_def)
  have "s2\<lparr>comp_method := 8\<rparr> = s2" by (simp add: s2_def)
  then have "\<exists>s'. decompress_kernel p junk_i junk s = Some s' \<and> gz s' = gz s3"
    using assms(5) s3(1) by (simp add: decompress_kernel_eq g2(1) [folded s2_def] boot_say_def)
  moreover have m: "map (output_data (gz s3)) [0..<output_ptr (gz s3)] = ?kernel"
    using s3(2,3) by (simp add: out_bytes_def)
  moreover have "output_ptr (gz s3) = length ?kernel" using arg_cong [OF m, of length] by simp
  ultimately show ?thesis by auto
qed

text \<open>In particular a kernel in stored blocks.\<close>

fun stored_stream :: "u8 list list \<Rightarrow> u8 list" where
  "stored_stream [] = []"
| "stored_stream (xs # yss) = (if yss = [] then 1 else 0) # stored_body xs @ stored_stream yss"

definition stored_blocks :: "u8 list list \<Rightarrow> deflate_block list" where
  "stored_blocks = map (Stored (replicate 5 False))"

lemma stored_blocks_out: "fold block_out (stored_blocks blocks) out = out @ concat blocks"
  by (induction blocks arbitrary: out) (simp_all add: stored_blocks_def)

lemma stored_stream_bits: "concat (map byte_bits (stored_stream blocks)) = stream_bits (stored_blocks blocks)"
proof (induction blocks)
  case (Cons xs yss)
  have "byte_bits (if yss = [] then 1 else 0) = (yss = []) # nat_bits 2 0 @ replicate 5 False"
    by (simp add: byte_bits_def nat_bits_def upt_conv_Cons numeral_eq_Suc)
  with Cons show ?case by (simp add: stored_blocks_def)
qed (simp add: stored_blocks_def)

lemma stored_stream_ok:
  "\<forall>xs \<in> set blocks. length xs < 2 ^ 16 \<Longrightarrow> pos mod 8 = 0 \<Longrightarrow> stream_ok pos out (stored_blocks blocks)"
proof (induction blocks arbitrary: pos out)
  case (Cons xs yss)
  let ?n = "length (block_bits (Stored (replicate 5 False) xs))"
  have "Suc ?n = 8 * Suc (length (stored_body xs))" using concat_bytes_length [of "stored_body xs"] by simp
  then have "(pos + Suc ?n) mod 8 = 0" using Cons.prems(2) by (simp only: mod_mult_self2)
  then have "stream_ok (pos + Suc ?n) (out @ xs) (stored_blocks yss)" using Cons by simp
  moreover have "(pos + 8) mod 8 = 0" using Cons.prems(2) by simp
  ultimately show ?case using Cons.prems(1) by (simp add: stored_blocks_def)
qed (simp add: stored_blocks_def)

lemma stored_stream_packs:
  "blocks \<noteq> [] \<Longrightarrow> \<forall>xs \<in> set blocks. length xs < 2 ^ 16 \<Longrightarrow> packs (stored_stream blocks) (stored_blocks blocks) []"
  using stored_stream_ok [of blocks 0 "[]"] by (simp add: packs_def stored_stream_bits) (simp add: stored_blocks_def)

subsection \<open>Whatever the input\<close>

text \<open>Reading leaves the output alone, and every routine keeps the check sum in step with it.\<close>

lemma fill_loop_frame: "fill_loop s = Some s' \<Longrightarrow> same_but_input s s'"
proof (induction rule: fill_loop.raw_induct [rotated, consumes 1])
  case (1 fill s s')
  show ?case
  proof (cases "inbuf_room s = 0 \<or> inbuf_room s = - 1")
    case False
    define t where "t = s\<lparr>inbuf := (\<lambda>j. if insize s \<le> j \<and> j < insize s + nat (inbuf_room s)
        then input_data s (input_ptr s + (j - insize s)) else inbuf s j),
      insize := insize s + nat (inbuf_room s), input_ptr := input_ptr s + nat (inbuf_room s)\<rparr>"
    have "same_but_input s t" by (simp add: t_def same_but_input_def)
    moreover have "(if insize t < INBUFSIZ then fill t else Some t) = Some s'"
      using 1(2) False unfolding t_def by (simp add: Let_def split: if_splits)
    ultimately show ?thesis using 1(1) by (auto split: if_splits intro: same_but_input_trans)
  qed (use 1(2) in \<open>simp add: Let_def\<close>)
qed

lemma get_byte_frame: "get_byte s = Some (c, s') \<Longrightarrow> same_but_input s s'"
proof (cases "inptr s < insize s")
  case False
  assume "get_byte s = Some (c, s')"
  then obtain t where "fill_loop (s\<lparr>insize := 0\<rparr>) = Some t"
    and s': "s' = t\<lparr>bytes_in := bytes_in t + insize t, inptr := 1\<rparr>"
    using False by (auto simp: get_byte_def fill_inbuf_def bind_eq_Some_conv error_halt_def split: if_splits)
  from fill_loop_frame [OF this(1)] have "same_but_input (s\<lparr>insize := 0\<rparr>) t" .
  then show ?thesis by (cases s; cases t) (simp add: same_but_input_def s')
qed (auto simp: get_byte_def same_but_input_def)

lemma same_but_input_reader: "same_but_input s t \<Longrightarrow> same_but_reader s t"
  by (cases s; cases t) (simp add: same_but_input_def same_but_reader_def)

lemma NEEDBITS_frame: "NEEDBITS n s = Some s' \<Longrightarrow> same_but_reader s s'"
proof (induction arbitrary: rule: NEEDBITS.raw_induct [rotated, consumes 1])
  case (1 need n s s')
  show ?case
  proof (cases "bk s < n")
    case True
    with 1(2) obtain c t where g: "get_byte s = Some (c, t)"
      and n: "need n (t\<lparr>bb := bb t OR push_bit (bk t) (ucast c), bk := bk t + 8\<rparr>) = Some s'"
      by (auto simp: bind_eq_Some_conv)
    have "same_but_reader s t" using get_byte_frame [OF g] by (rule same_but_input_reader)
    then show ?thesis using 1(1) [OF n] same_but_reader_trans same_but_reader_upd by blast
  qed (use 1(2) in simp)
qed

lemma DUMPBITS_frame: "DUMPBITS n s = Some s' \<Longrightarrow> same_but_reader s s'"
  by (auto simp: DUMPBITS_def split: if_splits)

lemma read_bits_frame: "read_bits n s = Some (v, s') \<Longrightarrow> same_but_reader s s'"
  by (auto simp: read_bits_def bind_eq_Some_conv
      intro: same_but_reader_trans dest!: NEEDBITS_frame DUMPBITS_frame)

lemma decode_entry_reader: "decode_entry D r s = Some y \<Longrightarrow> same_but_reader s (snd y)"
proof (induction arbitrary: rule: decode_entry.raw_induct [rotated, consumes 1])
  case (1 dec D r s y)
  show ?case
  proof (cases "h_e r > 16 \<and> h_e r \<noteq> 99")
    case True
    with 1(2) obtain t u r' where "DUMPBITS (h_b r) s = Some t" "NEEDBITS (h_e r - 16) t = Some u" "dec D r' u = Some y"
      by (auto simp: bind_eq_Some_conv Let_def)
    then show ?thesis using 1(1) [of D r' u]
      by (metis DUMPBITS_frame NEEDBITS_frame same_but_reader_trans prod.collapse)
  qed (use 1(2) in \<open>auto simp: bind_eq_Some_conv split: if_splits dest: DUMPBITS_frame\<close>)
qed

lemma decode_entry_frame: "decode_entry D r s = Some (x, s') \<Longrightarrow> same_but_reader s s'"
  using decode_entry_reader by fastforce

lemma decode_symbol_frame: "decode_symbol D n s = Some (x, s') \<Longrightarrow> same_but_reader s s'"
  by (auto simp: decode_symbol_def bind_eq_Some_conv
      intro: same_but_reader_trans dest!: NEEDBITS_frame decode_entry_frame)
named_theorems sums_intros \<open>the check sum is kept in step\<close>

lemma reader_sums: "same_but_reader s s' \<Longrightarrow> sums_ok s \<Longrightarrow> sums_ok s'"
  using reader_frame(3) by blast

lemmas read_sums [sums_intros] =
  NEEDBITS_frame [THEN reader_sums] DUMPBITS_frame [THEN reader_sums] read_bits_frame [THEN reader_sums]
  decode_symbol_frame [THEN reader_sums]

lemma copy_match_sums [sums_intros]: "copy_match n d s = Some s' \<Longrightarrow> sums_ok s \<Longrightarrow> sums_ok s'"
proof (induction arbitrary: rule: copy_match.raw_induct [rotated, consumes 1])
  case (1 cm n d s s')
  define e where "e = (let e = WSIZE - (if d AND (WSIZE - 1) > outcnt s then d AND (WSIZE - 1) else outcnt s)
    in if e > n then n else e)"
  define t where "t = s\<lparr>window := copy_bytes (window s) (outcnt s) (d AND (WSIZE - 1)) e, outcnt := outcnt s + e\<rparr>"
  define u where "u = (if outcnt t = WSIZE then flush_window t else t)"
  have "sums_ok t" using 1(3) by (simp add: t_def sums_ok_def crc_table_ok_def)
  then have "sums_ok u" by (simp add: u_def flush_window_sums)
  moreover have "(if n - e \<noteq> 0 then cm (n - e) ((d AND (WSIZE - 1)) + e) u else Some u) = Some s'"
    using 1(2) unfolding u_def t_def e_def Let_def .
  ultimately show ?case using 1(1) by (auto split: if_splits)
qed

lemma inflate_codes_sums': "inflate_codes lt dt bl bd s = Some y \<Longrightarrow> sums_ok s \<Longrightarrow> sums_ok (snd y)"
proof (induction arbitrary: rule: inflate_codes.raw_induct [rotated, consumes 1])
  case (1 codes lt dt bl bd s y)
  from 1(2) obtain r t where t: "decode_symbol lt bl s = Some (r, t)" by (auto simp: bind_eq_Some_conv)
  have st: "sums_ok t" using t 1(3) by (rule sums_intros)
  show ?case
  proof (cases r)
    case None
    then show ?thesis using 1(2) t st by auto
  next
    case (Some h)
    consider (lit) "h_e h = 16" | (eob) "h_e h = 15" | (match) "h_e h \<noteq> 16" "h_e h \<noteq> 15" by blast
    then show ?thesis
    proof cases
      case lit
      then obtain v where "codes lt dt bl bd (put_window (of_nat v) t) = Some y"
        using 1(2) t Some by (auto simp: bind_eq_Some_conv)
      from 1(1) [OF this] st show ?thesis by (simp add: put_window_sums)
    next
      case eob
      then show ?thesis using 1(2) t Some st by auto
    next
      case match
      then obtain base x u r' v where u: "read_bits (h_e h) t = Some (x, u)" "decode_symbol dt bd u = Some (r', v)"
        and rest: "(case r' of None \<Rightarrow> Some (1, v) | Some r' \<Rightarrow> do {
           dbase \<leftarrow> num_of (h_v r'); (y, s) \<leftarrow> read_bits (h_e r') v;
           s \<leftarrow> copy_match (base + x) (match_start (outcnt s) (dbase + y)) s; codes lt dt bl bd s }) = Some y"
        using 1(2) t Some by (auto simp: bind_eq_Some_conv)
      have sv: "sums_ok v" using u st by (blast intro: sums_intros)
      show ?thesis
      proof (cases r')
        case None
        then show ?thesis using rest sv by auto
      next
        case (Some h')
        then obtain dbase z a b where "read_bits (h_e h') v = Some (z, a)"
          "copy_match (base + x) (match_start (outcnt a) (dbase + z)) a = Some b" "codes lt dt bl bd b = Some y"
          using rest by (auto simp: bind_eq_Some_conv)
        then show ?thesis using 1(1) sv by (blast intro: sums_intros)
      qed
    qed
  qed
qed

lemma inflate_codes_sums [sums_intros]: "inflate_codes lt dt bl bd s = Some (c, s') \<Longrightarrow> sums_ok s \<Longrightarrow> sums_ok s'"
  using inflate_codes_sums' by fastforce

lemma stored_bytes_sums [sums_intros]: "stored_bytes n s = Some s' \<Longrightarrow> sums_ok s \<Longrightarrow> sums_ok s'"
proof (induction n arbitrary: s)
  case (Suc n)
  then obtain t u where t: "NEEDBITS 8 s = Some t" "DUMPBITS 8 (put_window (ucast (bb t)) t) = Some u"
    "stored_bytes n u = Some s'" by (auto simp: bind_eq_Some_conv)
  have "sums_ok t" using t(1) Suc.prems(2) by (rule sums_intros)
  then have "sums_ok (put_window (ucast (bb t)) t)" by (rule put_window_sums)
  with t(2) have "sums_ok u" by (rule sums_intros)
  with t(3) show ?case by (rule Suc.IH)
qed simp

lemma inflate_stored_sums [sums_intros]: "inflate_stored s = Some (c, s') \<Longrightarrow> sums_ok s \<Longrightarrow> sums_ok s'"
  by (auto simp: inflate_stored_def bind_eq_Some_conv split: if_splits) ((drule (1) sums_intros)+, assumption)+

lemma inflate_fixed_sums [sums_intros]: "inflate_fixed s = Some (c, s') \<Longrightarrow> sums_ok s \<Longrightarrow> sums_ok s'"
  by (auto simp: inflate_fixed_def bind_eq_Some_conv split: if_splits) ((drule (1) sums_intros)+, assumption)+

lemma border_lengths_sums [sums_intros]: "border_lengths ps nb ll s = Some (r, s') \<Longrightarrow> sums_ok s \<Longrightarrow> sums_ok s'"
proof (induction ps arbitrary: nb ll s)
  case (Cons p ps)
  show ?case
  proof (cases nb)
    case 0
    then show ?thesis using Cons by auto
  next
    case (Suc m)
    then obtain k t where t: "read_bits 3 s = Some (k, t)" "border_lengths ps m (ll[p := k]) t = Some (r, s')"
      using Cons.prems(1) by (auto simp: bind_eq_Some_conv)
    have "sums_ok t" using t(1) Cons.prems(2) by (rule sums_intros)
    with t(2) show ?thesis by (rule Cons.IH)
  qed
qed simp

lemma read_lengths_sums': "read_lengths lt bl n ll l s = Some y \<Longrightarrow> sums_ok s \<Longrightarrow> sums_ok (snd y)"
proof (induction arbitrary: rule: read_lengths.raw_induct [rotated, consumes 1])
  case (1 rl lt bl n ll l s y)
  show ?case
  proof (cases "length ll < n")
    case True
    with 1(2) obtain t u and r :: huft and j where t: "NEEDBITS bl s = Some t" "DUMPBITS (h_b r) t = Some u"
      and rest: "(if j < 16 then rl lt bl n (ll @ [j]) j u
         else if j = 16 then do {
           (x, s) \<leftarrow> read_bits 2 u;
           (if length ll + (3 + x) > n then Some (Inl 1, s) else rl lt bl n (ll @ replicate (3 + x) l) l s) }
         else if j = 17 then do {
           (x, s) \<leftarrow> read_bits 3 u;
           (if length ll + (3 + x) > n then Some (Inl 1, s) else rl lt bl n (ll @ replicate (3 + x) 0) 0 s) }
         else do {
           (x, s) \<leftarrow> read_bits 7 u;
           (if length ll + (11 + x) > n then Some (Inl 1, s) else rl lt bl n (ll @ replicate (11 + x) 0) 0 s) }) = Some y"
      by (auto simp: bind_eq_Some_conv)
    have "sums_ok u" using t 1(3) by (blast intro: sums_intros)
    then have step: "read_bits k u = Some (x, v) \<Longrightarrow> sums_ok v" for k x v by (blast intro: read_bits_frame reader_sums)
    show ?thesis using rest \<open>sums_ok u\<close>
      by (auto simp: bind_eq_Some_conv split: if_splits dest!: step 1(1))
  qed (use 1(2,3) in auto)
qed

lemma read_lengths_sums [sums_intros]: "read_lengths lt bl n ll l s = Some (r, s') \<Longrightarrow> sums_ok s \<Longrightarrow> sums_ok s'"
  using read_lengths_sums' by fastforce

lemma inflate_trees_sums [sums_intros]: "inflate_trees nl ll s = Some (c, s') \<Longrightarrow> sums_ok s \<Longrightarrow> sums_ok s'"
  by (auto simp: inflate_trees_def bind_eq_Some_conv error_halt_def split: if_splits) ((drule (1) sums_intros)+, assumption)+

lemma lengths_result_sums [sums_intros]:
  "(case r of Inl code \<Rightarrow> Some (code, s) | Inr ll \<Rightarrow> inflate_trees nl ll s) = Some (c, s') \<Longrightarrow>
     sums_ok s \<Longrightarrow> sums_ok s'"
  by (cases r) (auto intro: inflate_trees_sums)

lemma inflate_dynamic_sums [sums_intros]: "inflate_dynamic s = Some (c, s') \<Longrightarrow> sums_ok s \<Longrightarrow> sums_ok s'"
  by (auto simp: inflate_dynamic_def bind_eq_Some_conv Let_def split: if_splits) ((drule (1) sums_intros)+, assumption)+

lemma inflate_block_sums [sums_intros]: "inflate_block s = Some (e, c, s') \<Longrightarrow> sums_ok s \<Longrightarrow> sums_ok s'"
  by (auto simp: inflate_block_def bind_eq_Some_conv split: if_splits) ((drule (1) sums_intros)+, assumption)+

lemma inflate_blocks_sums: "inflate_blocks s = Some y \<Longrightarrow> sums_ok s \<Longrightarrow> sums_ok (snd y)"
proof (induction arbitrary: rule: inflate_blocks.raw_induct [rotated, consumes 1])
  case (1 ib s y)
  from 1(2) obtain e r t where t: "inflate_block s = Some (e, r, t)"
    and rest: "(if r \<noteq> 0 then Some (r, t) else if e then Some (0, t) else ib t) = Some y"
    by (auto simp: bind_eq_Some_conv)
  have "sums_ok t" using t 1(3) by (rule sums_intros)
  then show ?case using rest 1(1) by (auto split: if_splits)
qed

lemma undo_lookahead_sums: "undo_lookahead s = Some s' \<Longrightarrow> sums_ok s \<Longrightarrow> sums_ok s'"
proof (induction s rule: undo_lookahead.induct)
  case (1 s)
  show ?case
  proof (cases "bk s \<ge> 8 \<and> inptr s \<noteq> 0")
    case True
    then have "undo_lookahead (s\<lparr>bk := bk s - 8, inptr := inptr s - 1\<rparr>) = Some s'"
      using 1(2) by (subst (asm) undo_lookahead.simps) simp
    with 1(1,3) True show ?thesis by (simp add: sums_ok_def crc_table_ok_def)
  next
    case False
    then have "s' = s" using 1(2) by (subst (asm) undo_lookahead.simps) (auto split: if_splits)
    then show ?thesis using 1(3) by simp
  qed
qed

lemma inflate_sums:
  assumes "inflate s = Some (0, s')" and "sums_ok s"
  shows "sums_ok s'" "outcnt s' = 0"
proof -
  let ?s = "s\<lparr>outcnt := 0, bk := 0, bb := 0\<rparr>"
  from assms(1) obtain t u where t: "inflate_blocks ?s = Some (0, t)" "undo_lookahead t = Some u" "s' = flush_window u"
    by (auto simp: inflate_def bind_eq_Some_conv split: if_splits)
  have "sums_ok ?s" using assms(2) by (simp add: sums_ok_def crc_table_ok_def)
  from inflate_blocks_sums [OF t(1) this] have "sums_ok t" by simp
  with t(2) have "sums_ok u" by (rule undo_lookahead_sums)
  then show "sums_ok s'" "outcnt s' = 0" by (simp_all add: t(3) flush_window_sums flush_window_output)
qed
lemma get_bytes_frame: "get_bytes n s = Some (cs, s') \<Longrightarrow> same_but_input s s'"
  by (induction n arbitrary: s cs) (auto simp: bind_eq_Some_conv intro: same_but_input_trans dest!: get_byte_frame)

lemma skip_string_frame: "skip_string s = Some s' \<Longrightarrow> same_but_input s s'"
proof (induction arbitrary: rule: skip_string.raw_induct [rotated, consumes 1])
  case (1 sk s s')
  then show ?case
    by (auto simp: bind_eq_Some_conv split: if_splits intro: same_but_input_trans dest!: get_byte_frame 1(1))
qed

lemma header_fields_frame: "header_fields flags part s = Some s' \<Longrightarrow> same_but_input s s'"
  by (auto simp: header_fields_def bind_eq_Some_conv split: if_splits
      dest!: get_bytes_frame skip_string_frame) (blast intro: same_but_input_trans)+

lemma get_method_frame:
  assumes "get_method junk_i junk s = Some (m, s')"
  shows "same_but_input (gz s) (gz s')" "pkzip s' = pkzip s"
proof -
  from assms obtain magic g m g2 flags g3 g4 where "get_bytes 2 (gz s) = Some (magic, g)" "get_byte g = Some (m, g2)"
    "get_byte g2 = Some (flags, g3)" "header_fields flags (part_nb s + 1) g3 = Some g4" "gz s' = g4" "pkzip s' = pkzip s"
    by (auto simp: get_method_def bind_eq_Some_conv Let_def error_halt_def split: if_splits)
  then show "same_but_input (gz s) (gz s')" "pkzip s' = pkzip s"
    by (auto dest!: get_bytes_frame get_byte_frame header_fields_frame intro: same_but_input_trans)
qed

text \<open>What \<open>unzip\<close> has compared when it returns.\<close>

lemma unzip_checked:
  assumes "unzip s = Some s'" and "\<not> pkzip s"
    and "crc_table_ok (gz s)" "output_ptr (gz s) = 0" "bytes_out (gz s) = 0"
  shows "\<exists>g b. get_bytes 8 g = Some (b, gz s') \<and> LG_at b 0 = crc32 (out_bytes (gz s')) \<and>
    LG_at b 4 = of_nat (length (out_bytes (gz s'))) \<and> outcnt (gz s') = 0"
proof -
  let ?g = "updcrc_init (gz s)"
  from assms(1,2) obtain g b g' where g: "unpack_data s ?g = Some g" "get_bytes 8 g = Some (b, g')"
    and c: "LG_at b 0 = fst (updcrc (\<lambda>_. 0) 0 g')" "LG_at b 4 = of_nat (bytes_out (snd (updcrc (\<lambda>_. 0) 0 g')))"
    and s': "gz s' = snd (updcrc (\<lambda>_. 0) 0 g')"
    by (auto simp: unzip_def original_sums_def bind_eq_Some_conv error_halt_def case_prod_beta split: if_splits)
  have i: "inflate ?g = Some (0, g)"
    using g(1) assms(2) by (auto simp: unpack_data_def bind_eq_Some_conv error_halt_def split: if_splits)
  have "sums_ok ?g"
    using assms(3-5) by (simp add: sums_ok_def updcrc_init_def crc_table_ok_def)
  note inf = inflate_sums [OF i this]
  note fr = get_bytes_frame [OF g(2)]
  have sums: "sums_ok g'" "outcnt g' = 0" using inf output_frame [OF fr] same_but_inputD [OF fr] by simp_all
  have "crc_table_ok g'" using sums(1) by (simp add: sums_ok_def)
  from updcrc_fold [OF this, of "\<lambda>_. 0" 0]
  have up: "updcrc (\<lambda>_. 0) 0 g' = (NOT (crc g'), g')" by simp
  show ?thesis using g(2) c s' sums flushed_sums [OF sums] by (auto simp: up)
qed

lemma decompress_checked:
  assumes "decompress_kernel p junk_i junk s = Some s'" and "\<not> pkzip s"
  shows "\<exists>g b. get_bytes 8 g = Some (b, gz s') \<and>
    LG_at b 0 = crc32 (map (output_data (gz s')) [0..<output_ptr (gz s')]) \<and> LG_at b 4 = of_nat (output_ptr (gz s'))"
proof -
  let ?s1 = "loader_started p s"
  note s1 = loader_started_gz [of p s]
  from assms(1) obtain m s2 s3 where m: "get_method junk_i junk ?s1 = Some (m, s2)"
    and u: "unzip (s2\<lparr>comp_method := m\<rparr>) = Some s3" and s': "gz s' = gz s3"
    by (auto simp: decompress_kernel_eq bind_eq_Some_conv boot_say_def split: if_splits)
  note fr = get_method_frame [OF m]
  have "\<not> pkzip (s2\<lparr>comp_method := m\<rparr>)" "crc_table_ok (gz (s2\<lparr>comp_method := m\<rparr>))"
    "output_ptr (gz (s2\<lparr>comp_method := m\<rparr>)) = 0" "bytes_out (gz (s2\<lparr>comp_method := m\<rparr>)) = 0"
    using s1(1,2) assms(2) fr(2) same_but_inputD [OF fr(1)]
    by (simp_all add: gz_fresh_def crc_table_ok_def)
  from unzip_checked [OF u this] obtain g b where "get_bytes 8 g = Some (b, gz s3)"
    "LG_at b 0 = crc32 (out_bytes (gz s3))" "LG_at b 4 = of_nat (length (out_bytes (gz s3)))" "outcnt (gz s3) = 0"
    by blast
  then show ?thesis by (intro exI [of _ g] exI [of _ b]) (simp add: s' out_bytes_def)
qed

end
