(* ===== verification/Unzip_Props.thy ===== *)
theory Unzip_Props
  imports Unzip_Facts
begin

text \<open>
  What the boot decompressor guarantees: a compressed kernel is unpacked to its bytes at one megabyte,
  whatever its size and the encoder's choices, and the loader goes on only with output whose check sum and length
  are those the file gives.
\<close>

subsection \<open>Properties\<close>

text \<open>A concrete loader: a stored block of two bytes, one with the fixed codes, in which a literal is
  repeated three times, and one that transmits codes for one literal, the end and two distances.\<close>

definition sample_trees :: trees where
  "sample_trees = \<lparr>tr_nb = 18, tr_code = (replicate 19 0)[1 := 1, 18 := 1], tr_items = [More_Zeros 53, Len 1,
     More_Zeros 127, More_Zeros 42, Len 1, Len 1, Len 1], tr_nl = 257\<rparr>"

definition boot_blocks :: "deflate_block list" where
  "boot_blocks = [Stored (replicate 5 False) [0xEB, 0xFE], Fixed [Literal 0x40, Match 0 0 0 0],
     Dynamic sample_trees [Literal 0x40]]"

definition boot_payload :: "u8 list" where
  "boot_payload = [0x00, 0x02, 0x00, 0xFD, 0xFF, 0xEB, 0xFE, 0x72, 0x00, 0x02, 0x40, 0x41,
     0x70, 0x20, 0x00, 0x00, 0x00, 0x00, 0x00, 0x64, 0xCD, 0x7F, 0x15, 0x04]"

definition boot_bytes :: "u8 list" where
  "boot_bytes = gzip_file [0, 0, 0, 0, 0, 3] boot_payload [0xEB, 0xFE, 0x40, 0x40, 0x40, 0x40, 0x40]"

definition sample_loader :: loader where
  "sample_loader = \<lparr>gz = \<lparr>input_data = (\<lambda>i. if i < length boot_bytes then boot_bytes ! i else 0),
      input_len = length boot_bytes, input_ptr = 0, inbuf = (\<lambda>_. 0), insize = 0, inptr = 0, bytes_in = 0,
      window = (\<lambda>_. 0), outcnt = 0, output_data = (\<lambda>_. 0), output_ptr = 0, bytes_out = 0, crc = 0,
      crc_32_tab = (\<lambda>_. 0), bb = 0, bk = 0\<rparr>,
     screen = \<lparr>vidmem = (\<lambda>_. 0), b_lines = 0, b_cols = 0, orig_x = 0, orig_y = 10\<rparr>,
     comp_method = 0, part_nb = 0, pkzip = False, extended = False, decrypt = False\<rparr>"

definition sample_params :: boot_params where
  "sample_params = \<lparr>video_mode = 3, video_lines = 25, video_cols = 80, ext_mem_k = 4096\<rparr>"

lemma boot_kernel: "fold block_out boot_blocks [] = [0xEB, 0xFE, 0x40, 0x40, 0x40, 0x40, 0x40]"
  by (simp add: boot_blocks_def match_length_def match_distance_def cplens_def cpdist_def numeral_eq_Suc)

lemma boot_kernel_length: "length (fold block_out boot_blocks []) = 7"
  unfolding boot_kernel by simp

lemma sample_input:
  "map (input_data (gz sample_loader)) [0..<input_len (gz sample_loader)]
     = gzip_file [0, 0, 0, 0, 0, 3] boot_payload (fold block_out boot_blocks [])"
  unfolding boot_kernel by (rule nth_equalityI) (simp_all add: sample_loader_def boot_bytes_def)

lemma codes_before_fixed:
  "codes_before fixed_lengths 256 = {}" "codes_before fixed_lengths 257 = {256}"
  "codes_before fixed_lengths 64 = {..<64} \<union> {256..<280}" "codes_before fixed_distances 0 = {}"
proof -
  have len: "fixed_lengths ! r = (if r < 144 then 8 else if r < 256 then 9 else if r < 280 then 7 else 8)"
    if "r < 288" for r using that by (rule fixed_lengths_nth)
  show "codes_before fixed_lengths 256 = {}" "codes_before fixed_lengths 257 = {256}"
    "codes_before fixed_lengths 64 = {..<64} \<union> {256..<280}"
    by (auto simp: codes_before_def len split: if_splits)
  show "codes_before fixed_distances 0 = {}" by (auto simp: codes_before_def fixed_distances_def)
qed

lemma sample_codes:
  "canonical fixed_lengths 256 = 0" "canonical fixed_lengths 257 = 1" "canonical fixed_lengths 64 = 112"
  "canonical fixed_distances 0 = 0"
proof -
  have "(\<Sum>r \<in> {..<64 :: nat} \<union> {256..<280}. 2 ^ (fixed_lengths ! 64 - fixed_lengths ! r))
      = (\<Sum>r \<in> {..<64 :: nat}. 1 :: nat) + (\<Sum>r \<in> {256..<280 :: nat}. 2)"
    by (subst sum.union_disjoint) (auto simp: fixed_lengths_nth intro!: arg_cong2 [where f = "(+)"] sum.cong)
  then show "canonical fixed_lengths 64 = 112" by (simp add: canonical_def codes_before_fixed)
qed (simp_all add: canonical_def codes_before_fixed fixed_lengths_nth)

lemma sample_lengths:
  "literals sample_trees = replicate 64 0 @ 1 # replicate 191 0 @ [1]" "distances sample_trees = [1, 1]"
proof -
  have "replicate 191 (0 :: nat) = replicate 138 0 @ replicate 53 0" by (simp flip: replicate_add)
  then have "tr_lengths sample_trees = replicate 64 0 @ 1 # replicate 191 0 @ [1, 1, 1]"
    unfolding tr_lengths_def by (simp add: sample_trees_def)
  then show "literals sample_trees = replicate 64 0 @ 1 # replicate 191 0 @ [1]" "distances sample_trees = [1, 1]"
    unfolding literals_def distances_def by (simp_all add: sample_trees_def)
qed

lemma sample_literals_nth: "r < 257 \<Longrightarrow> literals sample_trees ! r = (if r = 64 \<or> r = 256 then 1 else 0)"
  by (auto simp: sample_lengths nth_append nth_Cons split: nat.splits)

lemma sample_trees_ok: "trees_ok sample_trees"
proof -
  have cl: "tr_code sample_trees = [0, 1, 0, 0, 0, 0, 0, 0, 0, 0, 0, 0, 0, 0, 0, 0, 0, 0, 1]" by code_simp
  have "length (tr_lengths sample_trees) = length (literals sample_trees @ distances sample_trees)"
    by (simp only: literals_def distances_def append_take_drop_id)
  then have "length (tr_lengths sample_trees) = 259" by (simp add: sample_lengths)
  moreover have "complete (literals sample_trees)" "complete (distances sample_trees)"
    by (auto simp: complete_def sample_lengths kraft_def BMAX_def)
  moreover have "length_code_ok (tr_code sample_trees)" by (simp add: cl length_code_ok_def complete_def kraft_def BMAX_def)
  moreover have "literals sample_trees ! 256 \<noteq> 0" by (simp add: sample_literals_nth)
  moreover note cl
  ultimately show ?thesis by (simp add: trees_ok_def sample_trees_def border_def item_ok_def)
qed

lemma sample_tree_codes:
  "code_bits (literals sample_trees) 64 = [False]" "code_bits (literals sample_trees) 256 = [True]"
  "code_bits (tr_code sample_trees) 1 = [False]" "code_bits (tr_code sample_trees) 18 = [True]"
proof -
  have n: "length (literals sample_trees) = 257" by (simp add: sample_lengths)
  have "codes_before (literals sample_trees) 64 = {}" "codes_before (literals sample_trees) 256 = {64}"
    by (auto simp: codes_before_def n sample_literals_nth split: if_splits)
  then show "code_bits (literals sample_trees) 64 = [False]" "code_bits (literals sample_trees) 256 = [True]"
    by (simp_all add: code_bits_def canonical_def sample_literals_nth bit_0)
qed (code_simp+)

lemma sample_packs: "packs boot_payload boot_blocks (replicate 5 False)"
proof -
  have d: "fixed_distances ! 0 = 5" "length fixed_distances = 30" by (simp_all add: fixed_distances_def)
  have lits: "length (literals sample_trees) = 257" by (simp add: sample_lengths)
  have ok: "stream_ok 0 [] boot_blocks"
    by (simp add: boot_blocks_def stored_simps stored_body_def le16_def fixed_lengths_nth d cplext_def cpdext_def
        match_distance_def cpdist_def sample_trees_ok lits sample_literals_nth)
  have st: "stored_body [0xEB, 0xFE] = [0x02, 0x00, 0xFD, 0xFF, 0xEB, 0xFE]" by code_simp
  have codes: "code_bits fixed_lengths 64 = map (bit (112 :: nat)) (rev [0..<8])"
    "code_bits fixed_lengths 257 = map (bit (1 :: nat)) (rev [0..<7])"
    "code_bits fixed_lengths 256 = replicate 7 False" "code_bits fixed_distances 0 = replicate 5 False"
    unfolding code_bits_def sample_codes by (simp_all add: fixed_lengths_nth d bot_fun_def map_replicate_const)
  have tr: "trees_bits sample_trees = nat_bits 5 0 @ nat_bits 5 1 @ nat_bits 4 14 @
      border_bits ((replicate 19 0)[1 := 1, 18 := 1]) 18 @
      (True # nat_bits 7 53) @ [False] @ (True # nat_bits 7 127) @ (True # nat_bits 7 42) @ [False, False, False]"
  proof -
    have "length (tr_lengths sample_trees) = length (literals sample_trees @ distances sample_trees)"
      by (simp only: literals_def distances_def append_take_drop_id)
    then have "length (tr_lengths sample_trees) = 259" by (simp add: sample_lengths)
    moreover have "tr_nl sample_trees = 257" "tr_nb sample_trees = 18"
      "tr_items sample_trees = [More_Zeros 53, Len 1, More_Zeros 127, More_Zeros 42, Len 1, Len 1, Len 1]"
      by (simp_all add: sample_trees_def)
    moreover have "nat_bits 0 0 = []" by (simp add: nat_bits_def)
    ultimately show ?thesis
      unfolding trees_bits_def by (simp add: item_bits_def sample_tree_codes sample_tree_codes(3) [unfolded One_nat_def]) (simp add: sample_trees_def)
  qed
  have "stream_bits boot_blocks = (False # nat_bits 2 0 @ replicate 5 False @
      concat (map byte_bits [0x02, 0x00, 0xFD, 0xFF, 0xEB, 0xFE])) @ (False # nat_bits 2 1 @
      (map (bit (112 :: nat)) (rev [0..<8]) @ map (bit (1 :: nat)) (rev [0..<7]) @ replicate 5 False) @ replicate 7 False) @
      True # nat_bits 2 2 @ trees_bits sample_trees @ [False] @ [True]"
    unfolding boot_blocks_def
    by (simp add: st tokens_bits_def codes sample_tree_codes cplext_def cpdext_def nat_bits_def del: upt_Suc)
  also have "\<dots> @ replicate 5 False = concat (map byte_bits boot_payload)" unfolding tr by code_simp
  finally show ?thesis using ok by (simp add: packs_def boot_blocks_def)
qed

lemma sample_facts: "\<not> pkzip sample_loader" "1024 \<le> ext_mem_k sample_params" "length [0, 0, 0, 0, 0, 3 :: u8] = 6"
  "(5 :: nat) \<noteq> 0 \<or> (7 :: u8) = 0"
  by (simp_all add: sample_loader_def sample_params_def)



text \<open>The special case of an encoder that does not compress.\<close>

lemma stored_kernel_boots:
  assumes "map (input_data (gz s)) [0..<input_len (gz s)] = gzip_file skipped (stored_stream blocks) (concat blocks)"
    and "length skipped = 6" and "blocks \<noteq> []" and "\<forall>xs \<in> set blocks. length xs < 2 ^ 16" and "\<not> pkzip s"
    and "1024 \<le> ext_mem_k p" and "junk_i \<noteq> 0 \<or> junk = 0"
  shows "\<exists>s'. decompress_kernel p junk_i junk s = Some s' \<and> output_ptr (gz s') = length (concat blocks) \<and>
    map (output_data (gz s')) [0..<length (concat blocks)] = concat blocks"
  using kernel_unpacked [OF _ assms(2) stored_stream_packs [OF assms(3,4)] assms(5-7)] assms(1)
  by (simp add: stored_blocks_out)

text \<open>C13: The loader starts a kernel only after comparing: when \<open>decompress_kernel\<close> returns, whatever the
  input and the kind of its blocks, the eight bytes read last are the CRC-32 of the memory it has
  written, bit by bit, and the number of bytes.\<close>

theorem kernel_is_checked:
  assumes "decompress_kernel p junk_i junk s = Some s'" and "\<not> pkzip s"
  shows "\<exists>g b. get_bytes 8 g = Some (b, gz s') \<and>
    LG_at b 0 = crc32 (map (output_data (gz s')) [0..<output_ptr (gz s')]) \<and> LG_at b 4 = of_nat (output_ptr (gz s'))"
  using assms by (rule decompress_checked)

theorem kernel_is_checked_witness:
  "\<exists>s' g b. decompress_kernel sample_params 5 7 sample_loader = Some s' \<and> get_bytes 8 g = Some (b, gz s') \<and>
     LG_at b 0 = crc32 [0xEB, 0xFE, 0x40, 0x40, 0x40, 0x40, 0x40] \<and> LG_at b 4 = 7"
proof -
  from kernel_unpacked [OF sample_input sample_facts(3) sample_packs sample_facts(1,2,4)]
  obtain s' where s': "decompress_kernel sample_params 5 7 sample_loader = Some s'" "output_ptr (gz s') = 7"
    "map (output_data (gz s')) [0..<7] = [0xEB, 0xFE, 0x40, 0x40, 0x40, 0x40, 0x40]"
    unfolding boot_kernel_length unfolding boot_kernel by (elim exE conjE) (rule that)
  from kernel_is_checked [OF s'(1) sample_facts(1)] show ?thesis using s' by auto
qed


text \<open>C14: A match copies from the output, not just from the buffer: although the window is flushed and
  reused every 32 kilobytes, the copy appends, byte by byte, what stands the given distance back in
  all the output so far, overlapping itself where the distance is shorter than the match.\<close>

theorem match_repeats_output:
  assumes "window_ok s" and "0 < dist" "dist \<le> WSIZE" "dist \<le> length (out_bytes s)"
  shows "\<exists>s'. copy_match n (match_start (outcnt s) dist) s = Some s' \<and>
    out_bytes s' = lz_extend n dist (out_bytes s) \<and> window_ok s' \<and> same_but_output s s'"
proof -
  have "outcnt s < WSIZE" using assms(1) by (simp add: window_ok_def)
  from copy_match_steps [OF this] copy_steps_history [OF assms match_start_history [OF assms(1,3,4)]]
  show ?thesis by blast
qed

text \<open>Two bytes of output, and four more copied from a distance of 2.\<close>

definition sample_window :: gzip where
  "sample_window = (gz sample_loader)\<lparr>window := (\<lambda>_. 0)(0 := 1, 1 := 2), outcnt := 2\<rparr>"

theorem match_repeats_output_witness:
  "\<exists>s'. copy_match 4 (match_start 2 2) sample_window = Some s' \<and> out_bytes s' = [1, 2, 1, 2, 1, 2]"
proof -
  have "window_ok sample_window"
    by (simp add: sample_window_def sample_loader_def window_ok_def WSIZE_def)
  moreover have out: "out_bytes sample_window = [1, 2]"
    by (simp add: sample_window_def sample_loader_def out_bytes_def numeral_2_eq_2)
  moreover have "(0 :: nat) < 2" "2 \<le> WSIZE" by (simp_all add: WSIZE_def)
  moreover have "2 \<le> length (out_bytes sample_window)" unfolding out by simp
  ultimately have "\<exists>s'. copy_match 4 (match_start (outcnt sample_window) 2) sample_window = Some s' \<and>
      out_bytes s' = lz_extend 4 2 (out_bytes sample_window) \<and> window_ok s' \<and> same_but_output sample_window s'"
    by (intro match_repeats_output)
  then obtain s' where "copy_match 4 (match_start (outcnt sample_window) 2) sample_window = Some s'"
    "out_bytes s' = lz_extend 4 2 (out_bytes sample_window)" by (elim exE conjE) (rule that)
  moreover have "lz_extend 4 2 [1, 2] = [1, 2, 1, 2, 1, 2]" by (simp add: numeral_eq_Suc)
  moreover have "outcnt sample_window = 2" by (simp add: sample_window_def)
  ultimately show ?thesis unfolding out by (intro exI [of _ s']) simp
qed
end
