(* ===== verification/Qsort.thy ===== *)
theory Qsort
  imports Prelude
begin

text \<open>
  lib/libxc/qsort.c. An array of elements of \<open>es\<close> bytes is the list of its elements, and a pointer
  \<open>a + k * es\<close> into it is the number \<open>k\<close>; the comparison is the caller's, a function on elements.
  The two exchange routines are also given on bytes, where the facts theory shows that they do what
  the list versions say.
\<close>

subsection \<open>Exchanging on bytes\<close>

text \<open>\<open>qsexc\<close> and \<open>qstexc\<close>: two and three blocks of \<open>n\<close> bytes.\<close>

fun qsexc_bytes :: "bytes \<Rightarrow> u32 \<Rightarrow> u32 \<Rightarrow> nat \<Rightarrow> bytes" where
  "qsexc_bytes m ri rj 0 = m"
| "qsexc_bytes m ri rj (Suc n) =
     (let c = m ri; m = m(ri := m rj); m = m(rj := c) in qsexc_bytes m (ri + 1) (rj + 1) n)"

fun qstexc_bytes :: "bytes \<Rightarrow> u32 \<Rightarrow> u32 \<Rightarrow> u32 \<Rightarrow> nat \<Rightarrow> bytes" where
  "qstexc_bytes m ri rj rk 0 = m"
| "qstexc_bytes m ri rj rk (Suc n) =
     (let c = m ri; m = m(ri := m rk); m = m(rk := m rj); m = m(rj := c)
      in qstexc_bytes m (ri + 1) (rj + 1) (rk + 1) n)"

subsection \<open>Exchanging elements\<close>

definition qsexc :: "nat \<Rightarrow> nat \<Rightarrow> 'a list \<Rightarrow> 'a list" where
  "qsexc i j xs = xs[i := xs ! j, j := xs ! i]"

definition qstexc :: "nat \<Rightarrow> nat \<Rightarrow> nat \<Rightarrow> 'a list \<Rightarrow> 'a list" where
  "qstexc i j k xs =
     (let c = xs ! i; xs = xs[i := xs ! k]; xs = xs[k := xs ! j] in xs[j := c])"

subsection \<open>Partitioning\<close>

text \<open>
  The loop of \<open>qs1\<close> up to the point where a part is sorted recursively, one pass at a time.
  \<open>at_loop\<close> says that control is at the label \<open>loop\<close>, past the examination of the left side. The
  elements from \<open>lp\<close> to \<open>hp\<close> are known to be equal to the pivot. \<open>None\<close>: both sides are done.
\<close>

record 'a qs_state =
  qs_array :: "'a list"
  qs_i :: nat
  qs_j :: nat
  qs_lp :: nat
  qs_hp :: nat

definition qs_right :: "('a \<Rightarrow> 'a \<Rightarrow> int) \<Rightarrow> 'a qs_state \<Rightarrow> (bool \<times> 'a qs_state) option" where
  "qs_right cmp st =
     (let xs = qs_array st; i = qs_i st; j = qs_j st; lp = qs_lp st; hp = qs_hp st
      in if j > hp then
           let c = cmp (xs ! hp) (xs ! j)
           in if c = 0 then Some (True, st\<lparr>qs_array := qsexc (hp + 1) j xs, qs_hp := hp + 1\<rparr>)
              else if c > 0 then
                (if i = lp
                 then Some (True, st\<lparr>qs_array := qstexc i (hp + 1) j xs, qs_hp := hp + 1,
                                    qs_lp := lp + 1, qs_i := lp + 1\<rparr>)
                 else Some (False, st\<lparr>qs_array := qsexc i j xs, qs_j := j - 1, qs_i := i + 1\<rparr>))
              else Some (True, st\<lparr>qs_j := j - 1\<rparr>)
         else if i = lp then None
         else Some (False, st\<lparr>qs_array := qstexc j (lp - 1) i xs, qs_lp := lp - 1,
                            qs_hp := hp - 1, qs_j := hp - 1\<rparr>))"

definition qs_pass :: "('a \<Rightarrow> 'a \<Rightarrow> int) \<Rightarrow> bool \<Rightarrow> 'a qs_state \<Rightarrow> (bool \<times> 'a qs_state) option" where
  "qs_pass cmp at_loop st =
     (let xs = qs_array st; i = qs_i st; lp = qs_lp st
      in if \<not> at_loop \<and> i < lp then
           let c = cmp (xs ! i) (xs ! lp)
           in if c = 0 then Some (False, st\<lparr>qs_array := qsexc i (lp - 1) xs, qs_lp := lp - 1\<rparr>)
              else if c < 0 then Some (False, st\<lparr>qs_i := i + 1\<rparr>)
              else qs_right cmp st
         else qs_right cmp st)"

partial_function (option) qs_partition ::
  "('a \<Rightarrow> 'a \<Rightarrow> int) \<Rightarrow> bool \<Rightarrow> 'a qs_state \<Rightarrow> 'a qs_state option" where
  "qs_partition cmp at_loop st =
     (case qs_pass cmp at_loop st of
        None \<Rightarrow> Some st
      | Some r \<Rightarrow> qs_partition cmp (fst r) (snd r))"

declare qs_partition.simps [code]

text \<open>The smaller side is sorted by a recursive call, the other by going round.\<close>

definition qs_start :: "'a list \<Rightarrow> nat \<Rightarrow> nat \<Rightarrow> 'a qs_state" where
  "qs_start xs a l = (let n = (l - a) div 2
     in \<lparr>qs_array = xs, qs_i = a, qs_j = l - 1, qs_lp = a + n, qs_hp = a + n\<rparr>)"

partial_function (option) qs1 :: "('a \<Rightarrow> 'a \<Rightarrow> int) \<Rightarrow> 'a list \<Rightarrow> nat \<Rightarrow> nat \<Rightarrow> 'a list option" where
  "qs1 cmp xs a l =
     (if l - a \<le> 1 then Some xs
      else Option.bind (qs_partition cmp False (qs_start xs a l)) (\<lambda>st.
             let xs = qs_array st; lp = qs_lp st; hp = qs_hp st
             in if lp - a \<ge> l - hp
                then Option.bind (qs1 cmp xs (hp + 1) l) (\<lambda>xs. qs1 cmp xs a lp)
                else Option.bind (qs1 cmp xs a lp) (\<lambda>xs. qs1 cmp xs (hp + 1) l)))"

declare qs1.simps [code]

definition qsort :: "('a \<Rightarrow> 'a \<Rightarrow> int) \<Rightarrow> 'a list \<Rightarrow> 'a list option" where
  "qsort cmp xs = qs1 cmp xs 0 (length xs)"

end
