(* ===== verification/Qsort_Facts.thy ===== *)
theory Qsort_Facts
  imports Qsort "HOL-Library.Multiset"
begin

text \<open>
  \<open>qsort\<close> sorts. A comparison function is a \<open>comparator\<close> on a set of elements when its sign orders
  them totally, equal elements allowed; the partitioning loop is proved by an invariant on the five
  regions of the array, and both loops end.
\<close>

locale comparator =
  fixes S :: "'a set" and cmp :: "'a \<Rightarrow> 'a \<Rightarrow> int"
  assumes flip: "x \<in> S \<Longrightarrow> y \<in> S \<Longrightarrow> cmp x y < 0 \<longleftrightarrow> 0 < cmp y x"
    and trans: "x \<in> S \<Longrightarrow> y \<in> S \<Longrightarrow> z \<in> S \<Longrightarrow> cmp x y \<le> 0 \<Longrightarrow> cmp y z \<le> 0 \<Longrightarrow> cmp x z \<le> 0"
begin

lemma self: "x \<in> S \<Longrightarrow> cmp x x = 0"
  using flip [of x x] by linarith

lemma le_flip: "x \<in> S \<Longrightarrow> y \<in> S \<Longrightarrow> cmp x y \<le> 0 \<longleftrightarrow> 0 \<le> cmp y x"
  using flip [of y x] by linarith

lemma eq_flip: "x \<in> S \<Longrightarrow> y \<in> S \<Longrightarrow> cmp x y = 0 \<longleftrightarrow> cmp y x = 0"
  using le_flip [of x y] le_flip [of y x] by linarith

text \<open>Equal elements compare alike.\<close>

lemma like:
  assumes "x \<in> S" "y \<in> S" "p \<in> S" and "cmp y p = 0"
  shows "cmp x y = 0 \<longleftrightarrow> cmp x p = 0" "cmp x y < 0 \<longleftrightarrow> cmp x p < 0" "0 < cmp x y \<longleftrightarrow> 0 < cmp x p"
proof -
  have py: "cmp p y = 0" using assms eq_flip [of y p] by simp
  have le: "cmp x y \<le> 0 \<longleftrightarrow> cmp x p \<le> 0"
    using trans [of x y p] trans [of x p y] assms py by (metis order_refl)
  have ge: "0 \<le> cmp x y \<longleftrightarrow> 0 \<le> cmp x p"
    using trans [of y p x] trans [of p y x] assms py le_flip [of y x] le_flip [of p x] by (metis order_refl)
  show "cmp x y = 0 \<longleftrightarrow> cmp x p = 0" "cmp x y < 0 \<longleftrightarrow> cmp x p < 0" "0 < cmp x y \<longleftrightarrow> 0 < cmp x p"
    using le ge by linarith+
qed

subsection \<open>The partitioning loop\<close>

text \<open>
  The regions between \<open>a\<close> and \<open>l\<close>: below the pivot up to \<open>i\<close>, unknown up to \<open>lp\<close>, equal up to \<open>hp\<close>,
  unknown up to \<open>j\<close>, above the pivot from there. At the label \<open>loop\<close> the element at \<open>i\<close> is above.
\<close>

definition qs_inv :: "'a list \<Rightarrow> nat \<Rightarrow> nat \<Rightarrow> 'a \<Rightarrow> bool \<Rightarrow> 'a qs_state \<Rightarrow> bool" where
  "qs_inv xs0 a l p at_loop st \<longleftrightarrow>
     (let xs = qs_array st; i = qs_i st; j = qs_j st; lp = qs_lp st; hp = qs_hp st in
      mset xs = mset xs0 \<and> a \<le> i \<and> i \<le> lp \<and> lp \<le> hp \<and> hp \<le> j \<and> j < l \<and> l \<le> length xs \<and>
      (\<forall>k. k < a \<or> l \<le> k \<longrightarrow> xs ! k = xs0 ! k) \<and>
      (\<forall>k. a \<le> k \<and> k < i \<longrightarrow> cmp (xs ! k) p < 0) \<and>
      (\<forall>k. lp \<le> k \<and> k \<le> hp \<longrightarrow> cmp (xs ! k) p = 0) \<and>
      (\<forall>k. j < k \<and> k < l \<longrightarrow> 0 < cmp (xs ! k) p) \<and>
      (at_loop \<and> i < lp \<longrightarrow> 0 < cmp (xs ! i) p))"

definition qs_unknown :: "'a qs_state \<Rightarrow> nat" where
  "qs_unknown st = (qs_lp st - qs_i st) + (qs_j st - qs_hp st)"

lemma length_qsexc [simp]: "length (qsexc i j xs) = length xs"
  by (simp add: qsexc_def)

lemma length_qstexc [simp]: "length (qstexc i j k xs) = length xs"
  by (simp add: qstexc_def Let_def)

lemma mset_qsexc: "i < length xs \<Longrightarrow> j < length xs \<Longrightarrow> mset (qsexc i j xs) = mset xs"
  by (simp add: qsexc_def mset_swap)

lemma mset_qstexc:
  assumes "i < length xs" "j < length xs" "k < length xs" and "i \<noteq> j" "i \<noteq> k"
  shows "mset (qstexc i j k xs) = mset xs"
proof -
  have "qstexc i j k xs = (if j = k then qsexc i k xs else qsexc j k (qsexc i k xs))"
    using assms by (auto simp: qstexc_def qsexc_def Let_def nth_list_update list_eq_iff_nth_eq)
  then show ?thesis using assms by (simp add: mset_qsexc)
qed

text \<open>What a pass does to the element at each place.\<close>

lemma qsexc_nth:
  assumes "i < length xs" "j < length xs"
  shows "qsexc i j xs ! k = (if k = j then xs ! i else if k = i then xs ! j else xs ! k)"
  using assms by (simp add: qsexc_def nth_list_update)

lemma qstexc_nth:
  assumes "i < length xs" "j < length xs" "k < length xs" and "i \<noteq> j" "i \<noteq> k"
  shows "qstexc i j k xs ! n =
    (if n = j then xs ! i else if n = k then xs ! j else if n = i then xs ! k else xs ! n)"
  using assms by (auto simp: qstexc_def Let_def nth_list_update)

lemma qs_inv_signs:
  assumes "qs_inv xs0 a l p b st" and "set xs0 \<subseteq> S" and "p \<in> S"
  defines "xs \<equiv> qs_array st" and "i \<equiv> qs_i st" and "j \<equiv> qs_j st" and "lp \<equiv> qs_lp st" and "hp \<equiv> qs_hp st"
  shows "cmp (xs ! i) (xs ! lp) = 0 \<longleftrightarrow> cmp (xs ! i) p = 0" "cmp (xs ! i) (xs ! lp) < 0 \<longleftrightarrow> cmp (xs ! i) p < 0"
    "cmp (xs ! hp) (xs ! j) = 0 \<longleftrightarrow> cmp (xs ! j) p = 0" "0 < cmp (xs ! hp) (xs ! j) \<longleftrightarrow> cmp (xs ! j) p < 0"
proof -
  have m: "mset xs = mset xs0" and r: "i \<le> lp" "lp \<le> hp" "hp \<le> j" "j < length xs"
    and e: "cmp (xs ! lp) p = 0" "cmp (xs ! hp) p = 0"
    using assms(1) by (simp_all add: qs_inv_def Let_def xs_def i_def j_def lp_def hp_def)
  have "set xs \<subseteq> S" using m assms(2) by (metis set_mset_mset)
  then have S: "xs ! i \<in> S" "xs ! lp \<in> S" "xs ! hp \<in> S" "xs ! j \<in> S" using r by (auto intro: nth_mem)
  note lp = like [OF S(1,2) assms(3) e(1)] and hp = like [OF S(4,3) assms(3) e(2)]
  show "cmp (xs ! i) (xs ! lp) = 0 \<longleftrightarrow> cmp (xs ! i) p = 0" "cmp (xs ! i) (xs ! lp) < 0 \<longleftrightarrow> cmp (xs ! i) p < 0"
    using lp by simp_all
  show "cmp (xs ! hp) (xs ! j) = 0 \<longleftrightarrow> cmp (xs ! j) p = 0" "0 < cmp (xs ! hp) (xs ! j) \<longleftrightarrow> cmp (xs ! j) p < 0"
    using hp eq_flip [OF S(3,4)] flip [OF S(4,3)] by simp_all
qed

text \<open>The passes that look at the right side, and those that look at the left side.\<close>

lemma qs_right_inv:
  assumes inv: "qs_inv xs0 a l p b st" and S: "set xs0 \<subseteq> S" "p \<in> S"
    and above: "qs_i st < qs_lp st \<longrightarrow> 0 < cmp (qs_array st ! qs_i st) p"
    and step: "qs_right cmp st = Some (b', st')"
  shows "qs_inv xs0 a l p b' st' \<and> qs_unknown st' < qs_unknown st"
proof -
  define xs i j lp hp where d: "xs = qs_array st" "i = qs_i st" "j = qs_j st" "lp = qs_lp st" "hp = qs_hp st"
  note signs = qs_inv_signs [OF inv S, folded d]
  note I = inv [unfolded qs_inv_def Let_def, folded d]
  have r: "a \<le> i" "i \<le> lp" "lp \<le> hp" "hp \<le> j" "j < l" "l \<le> length xs" using I by simp_all
  consider (eq) "j > hp" "cmp (xs ! j) p = 0" | (below) "j > hp" "cmp (xs ! j) p < 0" "i = lp"
    | (swap) "j > hp" "cmp (xs ! j) p < 0" "i < lp" | (above) "j > hp" "0 < cmp (xs ! j) p" | (left) "j = hp" "i < lp"
    | (fin) "j = hp" "i = lp"
    using r by linarith
  then show ?thesis
  proof cases
    case eq
    then have st': "b' = True" "st' = st\<lparr>qs_array := qsexc (hp + 1) j xs, qs_hp := hp + 1\<rparr>"
      using step signs by (simp_all add: qs_right_def Let_def flip: d)
    have "qs_inv xs0 a l p True (st\<lparr>qs_array := qsexc (hp + 1) j xs, qs_hp := hp + 1\<rparr>)"
      using I eq r above by (auto simp: qs_inv_def Let_def qsexc_nth mset_qsexc le_Suc_eq simp flip: d)
    then show ?thesis using eq r by (simp add: st' qs_unknown_def flip: d)
  next
    case below
    then have st': "b' = True" "st' = st\<lparr>qs_array := qstexc i (hp + 1) j xs, qs_hp := hp + 1, qs_lp := lp + 1, qs_i := lp + 1\<rparr>"
      using step signs by (simp_all add: qs_right_def Let_def flip: d)
    have "qs_inv xs0 a l p True (st\<lparr>qs_array := qstexc i (hp + 1) j xs, qs_hp := hp + 1, qs_lp := lp + 1, qs_i := lp + 1\<rparr>)"
      using I below r above by (auto simp: qs_inv_def Let_def qstexc_nth mset_qstexc le_Suc_eq less_Suc_eq simp flip: d)
    then show ?thesis using below r by (simp add: st' qs_unknown_def flip: d)
  next
    case swap
    then have st': "b' = False" "st' = st\<lparr>qs_array := qsexc i j xs, qs_j := j - 1, qs_i := i + 1\<rparr>"
      using step signs by (simp_all add: qs_right_def Let_def flip: d)
    have "qs_inv xs0 a l p False (st\<lparr>qs_array := qsexc i j xs, qs_j := j - 1, qs_i := i + 1\<rparr>)"
      using I swap r above by (auto simp: qs_inv_def Let_def qsexc_nth mset_qsexc less_Suc_eq simp flip: d)
    then show ?thesis using swap r by (simp add: st' qs_unknown_def flip: d)
  next
    case above
    then have st': "b' = True" "st' = st\<lparr>qs_j := j - 1\<rparr>"
      using step signs by (simp_all add: qs_right_def Let_def flip: d)
    have "0 < cmp (xs ! k) p" if "j - 1 < k" "k < l" for k
      using I above(2) that by (cases "k = j") auto
    moreover have "hp \<le> j - 1" "j - 1 < l" using above r by auto
    ultimately have "qs_inv xs0 a l p True (st\<lparr>qs_j := j - 1\<rparr>)"
      using I r \<open>qs_i st < qs_lp st \<longrightarrow> _\<close> by (simp add: qs_inv_def Let_def flip: d)
    then show ?thesis using above r by (simp add: st' qs_unknown_def flip: d)
  next
    case left
    then have st': "b' = False" "st' = st\<lparr>qs_array := qstexc j (lp - 1) i xs, qs_lp := lp - 1, qs_hp := hp - 1, qs_j := hp - 1\<rparr>"
      using step signs by (simp_all add: qs_right_def Let_def flip: d)
    define ys where "ys = qstexc j (lp - 1) i xs"
    have b: "i < length xs" "j < length xs" "lp - 1 < length xs" "j \<noteq> lp - 1" "j \<noteq> i" "hp - 1 < l" "lp - 1 < hp"
      "i \<le> lp - 1" "lp - 1 \<le> hp - 1" using left r by auto
    have ys: "ys ! n = (if n = lp - 1 then xs ! j else if n = i then xs ! (lp - 1) else if n = j then xs ! i else xs ! n)" for n
      unfolding ys_def using b by (intro qstexc_nth)
    have m: "mset ys = mset xs" "length ys = length xs" unfolding ys_def using b by (simp_all add: mset_qstexc)
    have out: "ys ! k = xs ! k" if "k < a \<or> l \<le> k" for k using that left r by (auto simp: ys)
    have low: "cmp (ys ! k) p < 0" if "a \<le> k" "k < i" for k using that left r I by (auto simp: ys)
    have mid: "cmp (ys ! k) p = 0" if "lp - 1 \<le> k" "k \<le> hp - 1" for k
    proof (cases "k = lp - 1")
      case False
      then have "lp \<le> k" "k < hp" "k \<noteq> i" "k \<noteq> j" using that left r by auto
      with False show ?thesis using I by (simp add: ys)
    qed (use I left r in \<open>simp add: ys\<close>)
    have high: "0 < cmp (ys ! k) p" if "hp - 1 < k" "k < l" for k
      using that left r I above b by (cases "k = hp") (auto simp: ys simp flip: d)
    have "qs_inv xs0 a l p False (st\<lparr>qs_array := ys, qs_lp := lp - 1, qs_hp := hp - 1, qs_j := hp - 1\<rparr>)"
      using I m out low mid high left r b by (simp add: qs_inv_def Let_def flip: d)
    then show ?thesis using left r b by (simp add: st' qs_unknown_def ys_def flip: d)
  next
    case fin
    then show ?thesis using step by (simp add: qs_right_def Let_def flip: d)
  qed
qed

lemma qs_pass_inv:
  assumes inv: "qs_inv xs0 a l p b st" and S: "set xs0 \<subseteq> S" "p \<in> S"
    and step: "qs_pass cmp b st = Some (b', st')"
  shows "qs_inv xs0 a l p b' st' \<and> qs_unknown st' < qs_unknown st"
proof -
  define xs i j lp hp where d: "xs = qs_array st" "i = qs_i st" "j = qs_j st" "lp = qs_lp st" "hp = qs_hp st"
  note signs = qs_inv_signs [OF inv S, folded d]
  note I = inv [unfolded qs_inv_def Let_def, folded d]
  have r: "a \<le> i" "i \<le> lp" "lp \<le> hp" "hp \<le> j" "j < l" "l \<le> length xs" using I by simp_all
  consider (eq) "\<not> b" "i < lp" "cmp (xs ! i) p = 0" | (below) "\<not> b" "i < lp" "cmp (xs ! i) p < 0"
    | (right) "i < lp \<longrightarrow> 0 < cmp (xs ! i) p"
    using I by linarith
  then show ?thesis
  proof cases
    case eq
    then have st': "b' = False" "st' = st\<lparr>qs_array := qsexc i (lp - 1) xs, qs_lp := lp - 1\<rparr>"
      using step signs by (simp_all add: qs_pass_def Let_def flip: d)
    have "qs_inv xs0 a l p False (st\<lparr>qs_array := qsexc i (lp - 1) xs, qs_lp := lp - 1\<rparr>)"
      using I eq r by (auto simp: qs_inv_def Let_def qsexc_nth mset_qsexc simp flip: d)
    then show ?thesis using eq r by (simp add: st' qs_unknown_def flip: d)
  next
    case below
    then have st': "b' = False" "st' = st\<lparr>qs_i := i + 1\<rparr>"
      using step signs by (simp_all add: qs_pass_def Let_def flip: d)
    have "qs_inv xs0 a l p False (st\<lparr>qs_i := i + 1\<rparr>)"
      using I below r by (auto simp: qs_inv_def Let_def less_Suc_eq simp flip: d)
    then show ?thesis using below r by (simp add: st' qs_unknown_def flip: d)
  next
    case right
    then have "qs_right cmp st = Some (b', st')"
      using step signs by (simp add: qs_pass_def Let_def split: if_splits flip: d)
    then show ?thesis using qs_right_inv [OF inv S] right by (simp flip: d)
  qed
qed

lemma qs_pass_stops:
  assumes "qs_inv xs0 a l p b st" and "qs_pass cmp b st = None"
  shows "qs_i st = qs_lp st" "qs_j st = qs_hp st"
  using assms by (auto simp: qs_pass_def qs_right_def qs_inv_def Let_def split: if_splits)

lemma qs_partition_inv:
  assumes "qs_inv xs0 a l p b st" and S: "set xs0 \<subseteq> S" "p \<in> S"
  shows "\<exists>b' st'. qs_partition cmp b st = Some st' \<and> qs_inv xs0 a l p b' st' \<and>
    qs_i st' = qs_lp st' \<and> qs_j st' = qs_hp st'"
  using assms(1)
proof (induction "qs_unknown st" arbitrary: b st rule: less_induct)
  case less
  show ?case
  proof (cases "qs_pass cmp b st")
    case None
    then show ?thesis
      using less.prems qs_pass_stops [OF less.prems] by (auto simp: qs_partition.simps [of cmp b st])
  next
    case (Some r)
    obtain b' st' where r: "r = (b', st')" by fastforce
    then show ?thesis
      using Some qs_pass_inv [OF less.prems S] less.hyps [of st' b']
      by (simp add: qs_partition.simps [of cmp b st])
  qed
qed

subsection \<open>Sorting a part of the array\<close>

definition sorted_part :: "'a list \<Rightarrow> nat \<Rightarrow> nat \<Rightarrow> bool" where
  "sorted_part xs a l \<longleftrightarrow> (\<forall>i k. a \<le> i \<and> i < k \<and> k < l \<longrightarrow> cmp (xs ! i) (xs ! k) \<le> 0)"

lemma qs_start_inv:
  assumes "2 \<le> l - a" "l \<le> length xs" "set xs \<subseteq> S"
  shows "qs_inv xs a l (xs ! (a + (l - a) div 2)) False (qs_start xs a l)"
proof -
  have "xs ! (a + (l - a) div 2) \<in> S" using assms by (intro subsetD [OF assms(3)] nth_mem) linarith
  then show ?thesis using assms by (auto simp: qs_inv_def qs_start_def Let_def self)
qed

end

text \<open>Rearranging a part of an array keeps what all its elements have in common.\<close>

definition part_permuted :: "nat \<Rightarrow> nat \<Rightarrow> 'a list \<Rightarrow> 'a list \<Rightarrow> bool" where
  "part_permuted a l xs ys \<longleftrightarrow> mset ys = mset xs \<and> (\<forall>k. k < a \<or> l \<le> k \<longrightarrow> ys ! k = xs ! k)"

lemma part_permuted_all:
  assumes "part_permuted a l xs ys" and "a \<le> l" "l \<le> length xs"
    and "\<And>k. a \<le> k \<Longrightarrow> k < l \<Longrightarrow> P (xs ! k)" and "a \<le> k" "k < l"
  shows "P (ys ! k)"
proof -
  let ?mid = "\<lambda>xs. take (l - a) (drop a xs)"
  have len: "length ys = length xs" using assms(1) by (auto simp: part_permuted_def dest: mset_eq_length)
  have split: "zs = take a zs @ ?mid zs @ drop l zs" if "length zs = length xs" for zs :: "'a list"
    using that assms(2,3) by (metis append_take_drop_id drop_drop le_add_diff_inverse2)
  have out: "take a ys = take a xs" "drop l ys = drop l xs"
    using assms(1-3) len by (auto simp: part_permuted_def list_eq_iff_nth_eq)
  have "mset ys = mset xs" using assms(1) by (simp add: part_permuted_def)
  then have "mset (?mid ys) = mset (?mid xs)"
    using split [OF len] split [OF refl] out by (metis add_left_cancel add_right_cancel mset_append)
  moreover have "ys ! k \<in> set (?mid ys)"
    using assms(2,3,5,6) len by (auto simp: in_set_conv_nth intro!: exI [of _ "k - a"])
  ultimately have "ys ! k \<in> set (?mid xs)" by (metis set_mset_mset)
  then obtain n where "n < l - a" "ys ! k = xs ! (a + n)"
    using assms(2,3) by (auto simp: in_set_conv_nth)
  then show ?thesis using assms(4) [of "a + n"] by simp
qed

lemma part_permuted_regions:
  assumes "part_permuted a l xs ys" and "a \<le> l" "l \<le> length xs"
    and "\<And>k. b \<le> k \<Longrightarrow> k < m \<Longrightarrow> P (xs ! k)" and "b = a \<and> m = l \<or> m \<le> a \<or> l \<le> b" and "b \<le> k" "k < m"
  shows "P (ys ! k)"
proof (cases "b = a \<and> m = l")
  case True
  then show ?thesis using part_permuted_all [OF assms(1-3), of P k] assms(4,6,7) by simp
next
  case False
  then have "ys ! k = xs ! k" using assms(1,5-7) by (auto simp: part_permuted_def)
  then show ?thesis using assms(4,6,7) by simp
qed

lemma part_permuted_mono: "part_permuted a l xs ys \<Longrightarrow> a' \<le> a \<Longrightarrow> l \<le> l' \<Longrightarrow> part_permuted a' l' xs ys"
  by (simp add: part_permuted_def)

lemma part_permuted_trans:
  "part_permuted a l xs ys \<Longrightarrow> part_permuted a l ys zs \<Longrightarrow> part_permuted a l xs zs"
  by (simp add: part_permuted_def)

context comparator
begin

text \<open>Two sorted sides around elements equal to the pivot.\<close>

lemma sorted_join:
  assumes sides: "sorted_part zs a lp" "sorted_part zs (hp + 1) l" and S: "set zs \<subseteq> S" "p \<in> S"
    and len: "l \<le> length zs" and low: "\<And>k. a \<le> k \<Longrightarrow> k < lp \<Longrightarrow> cmp (zs ! k) p < 0"
    and mid: "\<And>k. lp \<le> k \<Longrightarrow> k \<le> hp \<Longrightarrow> cmp (zs ! k) p = 0"
    and high: "\<And>k. hp < k \<Longrightarrow> k < l \<Longrightarrow> 0 < cmp (zs ! k) p"
  shows "sorted_part zs a l"
  unfolding sorted_part_def
proof (intro allI impI, elim conjE)
  fix i k assume k: "a \<le> i" "i < k" "k < l"
  have S': "zs ! i \<in> S" "zs ! k \<in> S" using k len S by (auto intro: nth_mem)
  show "cmp (zs ! i) (zs ! k) \<le> 0"
  proof (cases "k < lp \<or> hp < i")
    case True
    then show ?thesis using sides k by (auto simp: sorted_part_def)
  next
    case False
    then have "cmp (zs ! i) p \<le> 0" "0 \<le> cmp (zs ! k) p"
      using low [of i] mid [of i] mid [of k] high [of k] k by linarith+
    then show ?thesis using trans [of "zs ! i" p "zs ! k"] le_flip [of p "zs ! k"] S' S by simp
  qed
qed

text \<open>Sorting one part leaves a part beside it alone.\<close>

lemma sorted_beside:
  assumes "sorted_part ys a l" and "part_permuted a' l' ys zs" and "l \<le> a' \<or> l' \<le> a"
  shows "sorted_part zs a l"
proof -
  have "zs ! k = ys ! k" if "a \<le> k" "k < l" for k using assms(2,3) that by (auto simp: part_permuted_def)
  then show ?thesis using assms(1) by (auto simp: sorted_part_def)
qed

lemma sorted_sides:
  assumes one: "part_permuted a l ws ys" "sorted_part ys a l"
    and two: "part_permuted a' l' ys zs" "sorted_part zs a' l'"
    and side: "l \<le> a' \<or> l' \<le> a" and within: "b \<le> a" "b \<le> a'" "l \<le> m" "l' \<le> m"
  shows "part_permuted b m ws zs" "sorted_part zs a l" "sorted_part zs a' l'"
  using sorted_beside [OF one(2) two(1) side] two
    part_permuted_trans [OF part_permuted_mono [OF one(1)] part_permuted_mono [OF two(1)]] within
  by auto

lemma qs1_sorts:
  assumes "a \<le> l" "l \<le> length xs" "set xs \<subseteq> S"
  shows "\<exists>ys. qs1 cmp xs a l = Some ys \<and> part_permuted a l xs ys \<and> sorted_part ys a l"
  using assms
proof (induction "l - a" arbitrary: xs a l rule: less_induct)
  case less
  show ?case
  proof (cases "l - a \<le> 1")
    case True
    then show ?thesis by (auto simp: qs1.simps [of cmp xs a l] part_permuted_def sorted_part_def)
  next
    case False
    define p where "p = xs ! (a + (l - a) div 2)"
    have "p \<in> S" using less.prems False unfolding p_def by (intro subsetD [OF less.prems(3)] nth_mem) linarith
    then obtain b st where st: "qs_partition cmp False (qs_start xs a l) = Some st"
      and inv: "qs_inv xs a l p b st" and ends: "qs_i st = qs_lp st" "qs_j st = qs_hp st"
      using qs_partition_inv [OF qs_start_inv [of l a xs]] less.prems False by (auto simp: p_def)
    define ws lp hp where d: "ws = qs_array st" "lp = qs_lp st" "hp = qs_hp st"
    have parts: "a \<le> lp" "lp \<le> hp" "hp < l" and ws: "part_permuted a l xs ws"
      and low: "\<And>k. a \<le> k \<Longrightarrow> k < lp \<Longrightarrow> cmp (ws ! k) p < 0"
      and mid: "\<And>k. lp \<le> k \<Longrightarrow> k \<le> hp \<Longrightarrow> cmp (ws ! k) p = 0"
      and high: "\<And>k. hp < k \<Longrightarrow> k < l \<Longrightarrow> 0 < cmp (ws ! k) p"
      using inv by (auto simp: qs_inv_def Let_def part_permuted_def ends simp flip: d)
    have keep: "length zs = length xs" "set zs \<subseteq> S" if "part_permuted a l xs zs" for zs
      using that less.prems(3) by (auto simp: part_permuted_def dest: mset_eq_length mset_eq_setD)
    have ws': "length ws = length xs" "set ws \<subseteq> S" using keep [OF ws] by simp_all
    have sort: "\<exists>zs. qs1 cmp ys a' l' = Some zs \<and> part_permuted a' l' ys zs \<and> sorted_part zs a' l'"
      if "part_permuted a l xs ys" "a \<le> a'" "a' \<le> l'" "l' \<le> l" "l' - a' < l - a" for ys a' l'
      using less.hyps [of l' a' ys] that keep [OF that(1)] less.prems by auto
    have join: "part_permuted a l xs zs \<and> sorted_part zs a l"
      if one: "part_permuted x y ws ys" "sorted_part ys x y" and two: "part_permuted x' y' ys zs" "sorted_part zs x' y'"
        and w: "x = a \<and> y = lp \<and> x' = hp + 1 \<and> y' = l \<or> x = hp + 1 \<and> y = l \<and> x' = a \<and> y' = lp"
      for x y x' y' ys zs
    proof -
      have o: "y \<le> x' \<or> y' \<le> x" "a \<le> x" "a \<le> x'" "y \<le> l" "y' \<le> l" "x \<le> y" "x' \<le> y'" using w parts by auto
      note sides = sorted_sides [OF one two o(1-5)]
      have pz: "part_permuted a l xs zs" using part_permuted_trans [OF ws sides(1)] .
      have len: "l \<le> length ws" "y \<le> length ws" "y' \<le> length ys"
        using ws'(1) keep(1) [OF part_permuted_trans [OF ws part_permuted_mono [OF one(1) o(2,4)]]] o less.prems by simp_all
      have region: "P (zs ! k)"
        if "\<And>k. b \<le> k \<Longrightarrow> k < m \<Longrightarrow> P (ws ! k)" "b \<le> k" "k < m"
          and bm: "b = a \<and> m = lp \<or> b = lp \<and> m = hp + 1 \<or> b = hp + 1 \<and> m = l" for P b m k
      proof -
        have "b = x \<and> m = y \<or> m \<le> x \<or> y \<le> b" "b = x' \<and> m = y' \<or> m \<le> x' \<or> y' \<le> b" using bm w parts by auto
        then show ?thesis
          using part_permuted_regions [OF two(1) o(7) len(3), of b m P]
            part_permuted_regions [OF one(1) o(6) len(2), of b m P] that by metis
      qed
      have "sorted_part zs a l"
      proof (rule sorted_join)
        show "sorted_part zs a lp" "sorted_part zs (hp + 1) l" using sides(2,3) w by auto
        show "set zs \<subseteq> S" "l \<le> length zs" using keep [OF pz] less.prems by simp_all
        show "p \<in> S" by fact
        show "cmp (zs ! k) p < 0" if "a \<le> k" "k < lp" for k using region [of a lp "\<lambda>x. cmp x p < 0"] low that by simp
        show "cmp (zs ! k) p = 0" if "lp \<le> k" "k \<le> hp" for k
          using region [of lp "hp + 1" "\<lambda>x. cmp x p = 0"] mid that by simp
        show "0 < cmp (zs ! k) p" if "hp < k" "k < l" for k
          using region [of "hp + 1" l "\<lambda>x. 0 < cmp x p"] high that by simp
      qed
      with pz show ?thesis by simp
    qed
    have first: "\<exists>ys. qs1 cmp ws x y = Some ys \<and> part_permuted x y ws ys \<and> sorted_part ys x y \<and> part_permuted a l xs ys"
      if "a \<le> x" "x \<le> y" "y \<le> l" "y - x < l - a" for x y
      using sort [OF ws that] part_permuted_trans [OF ws part_permuted_mono] that by blast
    have widths: "l - (hp + 1) < l - a" "lp - a < l - a" "hp + 1 \<le> l" "a \<le> hp + 1" "lp \<le> l" using parts by auto
    have run: "qs1 cmp xs a l = (if lp - a \<ge> l - hp
        then Option.bind (qs1 cmp ws (hp + 1) l) (\<lambda>ys. qs1 cmp ys a lp)
        else Option.bind (qs1 cmp ws a lp) (\<lambda>ys. qs1 cmp ys (hp + 1) l))"
      using False st by (simp add: qs1.simps [of cmp xs a l] Let_def d)
    show ?thesis
    proof (cases "lp - a \<ge> l - hp")
      case True
      obtain ys where ys: "qs1 cmp ws (hp + 1) l = Some ys" "part_permuted (hp + 1) l ws ys"
        "sorted_part ys (hp + 1) l" "part_permuted a l xs ys"
        using first [of "hp + 1" l] widths by blast
      obtain zs where zs: "qs1 cmp ys a lp = Some zs" "part_permuted a lp ys zs" "sorted_part zs a lp"
        using sort [OF ys(4), of a lp] widths parts by blast
      show ?thesis using True run join [OF ys(2,3) zs(2,3)] ys(1) zs(1) by simp
    next
      case False
      obtain ys where ys: "qs1 cmp ws a lp = Some ys" "part_permuted a lp ws ys"
        "sorted_part ys a lp" "part_permuted a l xs ys"
        using first [of a lp] widths parts by blast
      obtain zs where zs: "qs1 cmp ys (hp + 1) l = Some zs" "part_permuted (hp + 1) l ys zs" "sorted_part zs (hp + 1) l"
        using sort [OF ys(4), of "hp + 1" l] widths by blast
      show ?thesis using False run join [OF ys(2,3) zs(2,3)] ys(1) zs(1) by simp
    qed
  qed
qed

text \<open>The whole array.\<close>

lemma qsort_run:
  assumes "set xs \<subseteq> S"
  shows "\<exists>ys. qsort cmp xs = Some ys \<and> mset ys = mset xs \<and> sorted_wrt (\<lambda>x y. cmp x y \<le> 0) ys"
proof -
  obtain ys where "qsort cmp xs = Some ys" "part_permuted 0 (length xs) xs ys" "sorted_part ys 0 (length xs)"
    using qs1_sorts [of 0 "length xs" xs] assms by (auto simp: qsort_def)
  then show ?thesis
    by (auto simp: part_permuted_def sorted_part_def sorted_wrt_iff_nth_less dest: mset_eq_length)
qed

end

end
