(* ===== verification/Qsort_Props.thy ===== *)
theory Qsort_Props
  imports Qsort_Facts Libc_Props
begin

text \<open>
  \<open>qsort\<close> with the library's own \<open>strcmp\<close> as its comparison sorts pointers to strings, and the exchange
  of elements of the model is what \<open>qsexc\<close> does to their bytes.
\<close>

subsection \<open>The comparison of strings\<close>

lemma compare_chars_flip: "compare_chars ds cs = - compare_chars cs ds"
  by (induction cs ds rule: compare_chars.induct) auto

lemma compare_chars_trans:
  assumes "0 \<notin> set cs" "0 \<notin> set ds" "0 \<notin> set es" and "compare_chars cs ds \<le> 0" "compare_chars ds es \<le> 0"
  shows "compare_chars cs es \<le> 0"
  using assms
proof (induction cs ds arbitrary: es rule: compare_chars.induct)
  case 1
  then show ?case by simp
next
  case (2 c cs)
  moreover have "sint c \<noteq> 0" using 2 signed_word_eqI [of c 0] by auto
  ultimately have "sint c < 0" by simp
  then show ?case using 2 by (cases es) auto
next
  case (3 d ds)
  then show ?case by (cases es) (auto split: if_splits)
next
  case (4 c cs d ds)
  have "sint c = sint d \<longleftrightarrow> c = d" using signed_word_eqI [of c d, where 'a = int] by auto
  with 4 show ?case by (cases es) (auto split: if_splits)
qed

text \<open>Pointers to terminated strings, compared by what they point to.\<close>

definition strings :: "bytes \<Rightarrow> u32 set" where
  "strings m = {p. \<exists>cs. str_at m p cs}"

definition strcmp_of :: "bytes \<Rightarrow> u32 \<Rightarrow> u32 \<Rightarrow> int" where
  "strcmp_of m p q = the (strcmp m p q)"

lemma strcmp_of_chars: "str_at m p cs \<Longrightarrow> str_at m q ds \<Longrightarrow> strcmp_of m p q = compare_chars cs ds"
  by (simp add: strcmp_of_def strcmp_run)

interpretation by_name: comparator "strings m" "strcmp_of m" for m
proof
  fix p q r assume s: "p \<in> strings m" "q \<in> strings m"
  then obtain cs ds where c: "str_at m p cs" "str_at m q ds" by (auto simp: strings_def)
  show "strcmp_of m p q < 0 \<longleftrightarrow> 0 < strcmp_of m q p"
    using compare_chars_flip [of ds cs] by (simp add: strcmp_of_chars [OF c] strcmp_of_chars [OF c(2,1)])
  assume "r \<in> strings m" and le: "strcmp_of m p q \<le> 0" "strcmp_of m q r \<le> 0"
  then obtain es where e: "str_at m r es" by (auto simp: strings_def)
  show "strcmp_of m p r \<le> 0"
    using compare_chars_trans [OF c [THEN str_at_nonzero] e [THEN str_at_nonzero]] le
    by (simp add: strcmp_of_chars [OF c] strcmp_of_chars [OF c(2) e] strcmp_of_chars [OF c(1) e])
qed

subsection \<open>Exchanging bytes\<close>

lemma disjoint_ranges_sym: "disjoint_ranges a b n \<Longrightarrow> disjoint_ranges b a n"
  by (metis disjoint_ranges_def)

lemma qsexc_bytes_exchanges:
  assumes "disjoint_ranges ri rj n"
  shows "(\<forall>x. (\<forall>i<n. x \<noteq> ri + of_nat i \<and> x \<noteq> rj + of_nat i) \<longrightarrow> qsexc_bytes m ri rj n x = m x) \<and>
    (\<forall>i<n. qsexc_bytes m ri rj n (ri + of_nat i) = m (rj + of_nat i) \<and>
           qsexc_bytes m ri rj n (rj + of_nat i) = m (ri + of_nat i))"
  using assms
proof (induction n arbitrary: m ri rj)
  case (Suc n)
  note d = disjoint_ranges_Suc [OF Suc.prems] disjoint_ranges_Suc [OF disjoint_ranges_sym [OF Suc.prems]]
  let ?m = "m(ri := m rj, rj := m ri)"
  have run: "qsexc_bytes m ri rj (Suc n) = qsexc_bytes ?m (ri + 1) (rj + 1) n" by (simp add: Let_def)
  note IH = Suc.IH [OF d(1), of ?m]
  have out: "qsexc_bytes ?m (ri + 1) (rj + 1) n x = ?m x"
    if "\<And>i. i < n \<Longrightarrow> ri + 1 + of_nat i \<noteq> x" "\<And>i. i < n \<Longrightarrow> rj + 1 + of_nat i \<noteq> x" for x
    using IH [THEN conjunct1, rule_format, of x] that by metis
  have "qsexc_bytes ?m (ri + 1) (rj + 1) n (ri + of_nat i) = m (rj + of_nat i) \<and>
    qsexc_bytes ?m (ri + 1) (rj + 1) n (rj + of_nat i) = m (ri + of_nat i)" if "i < Suc n" for i
  proof (cases i)
    case 0
    then show ?thesis using out [OF d(4,2)] out [OF d(6,8)] d(3) by simp
  next
    case (Suc k)
    then have k: "k < n" using that by simp
    have "x + of_nat (Suc k) = x + 1 + of_nat k" for x :: u32 by simp
    then show ?thesis
      unfolding Suc using IH [THEN conjunct2, rule_format, OF k] d(2,4,6,8) [OF k] by (metis fun_upd_apply)
  qed
  moreover have "qsexc_bytes ?m (ri + 1) (rj + 1) n x = m x"
    if "\<forall>i<Suc n. x \<noteq> ri + of_nat i \<and> x \<noteq> rj + of_nat i" for x
  proof -
    have "x \<noteq> ri + 1 + of_nat i \<and> x \<noteq> rj + 1 + of_nat i" if "i < n" for i
      using \<open>\<forall>i<Suc n. _ i\<close> [rule_format, of "Suc i"] that by (simp add: ac_simps)
    then show ?thesis using out [of x] that [rule_format, of 0] by auto
  qed
  ultimately show ?case unfolding run by blast
qed simp

text \<open>With two of the three blocks the same, the rotation is an exchange.\<close>

lemma qstexc_bytes_same: "qstexc_bytes m ri rj rj n = qsexc_bytes m ri rj n"
  by (induction n arbitrary: m ri rj) (simp_all add: Let_def)

lemma qstexc_bytes_rotates:
  assumes "disjoint_ranges ri rj n" "disjoint_ranges ri rk n" "disjoint_ranges rj rk n"
  shows "(\<forall>x. (\<forall>i<n. x \<noteq> ri + of_nat i \<and> x \<noteq> rj + of_nat i \<and> x \<noteq> rk + of_nat i) \<longrightarrow>
      qstexc_bytes m ri rj rk n x = m x) \<and>
    (\<forall>i<n. qstexc_bytes m ri rj rk n (ri + of_nat i) = m (rk + of_nat i) \<and>
           qstexc_bytes m ri rj rk n (rk + of_nat i) = m (rj + of_nat i) \<and>
           qstexc_bytes m ri rj rk n (rj + of_nat i) = m (ri + of_nat i))"
  using assms
proof (induction n arbitrary: m ri rj rk)
  case (Suc n)
  note d = Suc.prems [THEN disjoint_ranges_Suc(1)]
  note s = Suc.prems [THEN disjoint_ranges_sym]
  note ne = Suc.prems [THEN disjoint_ranges_Suc(3)]
  note off = Suc.prems [THEN disjoint_ranges_Suc(2)] s [THEN disjoint_ranges_Suc(2)]
    Suc.prems(1,2) [THEN disjoint_ranges_Suc(4)] s(1,3) [THEN disjoint_ranges_Suc(4)]
    Suc.prems(3) [THEN disjoint_ranges_Suc(4)] s(2) [THEN disjoint_ranges_Suc(4)]
  let ?m = "m(ri := m rk, rk := m rj, rj := m ri)"
  have run: "qstexc_bytes m ri rj rk (Suc n) = qstexc_bytes ?m (ri + 1) (rj + 1) (rk + 1) n"
    using ne by (simp add: Let_def)
  note IH = Suc.IH [OF d, of ?m]
  have out: "qstexc_bytes ?m (ri + 1) (rj + 1) (rk + 1) n x = ?m x"
    if "\<And>i. i < n \<Longrightarrow> ri + 1 + of_nat i \<noteq> x" "\<And>i. i < n \<Longrightarrow> rj + 1 + of_nat i \<noteq> x"
      "\<And>i. i < n \<Longrightarrow> rk + 1 + of_nat i \<noteq> x" for x
    using IH [THEN conjunct1, rule_format, of x] that by metis
  have "qstexc_bytes ?m (ri + 1) (rj + 1) (rk + 1) n (ri + of_nat i) = m (rk + of_nat i) \<and>
    qstexc_bytes ?m (ri + 1) (rj + 1) (rk + 1) n (rk + of_nat i) = m (rj + of_nat i) \<and>
    qstexc_bytes ?m (ri + 1) (rj + 1) (rk + 1) n (rj + of_nat i) = m (ri + of_nat i)" if "i < Suc n" for i
  proof (cases i)
    case 0
    then show ?thesis using out [of ri] out [of rj] out [of rk] off ne by simp
  next
    case (Suc k)
    then have k: "k < n" using that by simp
    have "x + of_nat (Suc k) = x + 1 + of_nat k" for x :: u32 by simp
    then show ?thesis
      unfolding Suc using IH [THEN conjunct2, rule_format, OF k] off [OF k] by (metis fun_upd_apply)
  qed
  moreover have "qstexc_bytes ?m (ri + 1) (rj + 1) (rk + 1) n x = m x"
    if "\<forall>i<Suc n. x \<noteq> ri + of_nat i \<and> x \<noteq> rj + of_nat i \<and> x \<noteq> rk + of_nat i" for x
  proof -
    have "x \<noteq> ri + 1 + of_nat i \<and> x \<noteq> rj + 1 + of_nat i \<and> x \<noteq> rk + 1 + of_nat i" if "i < n" for i
      using \<open>\<forall>i<Suc n. _ i\<close> [rule_format, of "Suc i"] that by (simp add: ac_simps)
    then show ?thesis using out [of x] that [rule_format, of 0] by auto
  qed
  ultimately show ?case unfolding run by blast
qed simp

subsection \<open>Sorting strings\<close>

text \<open>C37: \<open>qsort\<close> returns and sorts: called on an array of pointers to terminated strings with the
  comparison \<open>strcmp\<close>, it leaves the same pointers, every string not greater than any that comes
  after it.\<close>

theorem qsort_sorts_strings:
  assumes "\<forall>p \<in> set xs. \<exists>cs. str_at m p cs"
  shows "\<exists>ys. qsort (strcmp_of m) xs = Some ys \<and> mset ys = mset xs \<and>
    sorted_wrt (\<lambda>p q. strcmp_of m p q \<le> 0) ys"
  using by_name.qsort_run [of xs m] assms by (auto simp: strings_def)

lemma qsort_sorts_strings_witness:
  "\<exists>ys. qsort (strcmp_of sample_message) [0x102, 0x100, 0x200, 0x102] = Some ys \<and>
     mset ys = mset [0x102, 0x100, 0x200, 0x102] \<and> sorted_wrt (\<lambda>p q. strcmp_of sample_message p q \<le> 0) ys"
proof -
  have "str_at sample_message 0x100 [72]" "str_at sample_message 0x102 [73]" "str_at sample_message 0x200 []"
    by (simp_all add: sample_message_def)
  then have "\<forall>p \<in> set [0x102, 0x100, 0x200, 0x102]. \<exists>cs. str_at sample_message p cs" by (auto simp del: str_at.simps)
  from qsort_sorts_strings [OF this] show ?thesis .
qed

end
