(* ===== verification/Scan.thy ===== *)
theory Scan
  imports Libc
begin

text \<open>
  Formatted input, lib/libxc/doscan.c and scanf.c: the scanner over a source of characters, and the
  two sources the library has, a string (\<open>sgetch\<close>, \<open>sungetch\<close>) and a device with one character of
  look-ahead (\<open>getch\<close>, \<open>ungetch\<close>; the device's \<open>getc\<close> and \<open>control\<close> are not part of the
  repository and are arguments). The source's state is what \<open>arg2\<close> points to. doscan.c and scanf.c
  are compiled with different values of \<open>EOF\<close>.
\<close>

definition SCAN_EOF :: int where "SCAN_EOF = - 1"

definition XEROS_EOF :: int where "XEROS_EOF = - 2"

definition EMPTY :: int where "EMPTY = - 1"

definition TTC_NEXTC :: int where "TTC_NEXTC = 5"

lemmas scan_const_defs = SCAN_EOF_def XEROS_EOF_def EMPTY_def TTC_NEXTC_def

subsection \<open>Sources of characters\<close>

text \<open>A string: the state is the pointer to the next character.\<close>

definition sgetch :: "bytes \<Rightarrow> u32 \<Rightarrow> int \<times> u32" where
  "sgetch m cpp = (if m cpp = 0 then (XEROS_EOF, cpp) else (sint (m cpp), cpp + 1))"

definition sungetch :: "u32 \<Rightarrow> u32" where
  "sungetch cpp = cpp - 1"

text \<open>A device in state \<open>d\<close>, with the buffered character \<open>buf\<close>.\<close>

definition getch :: "('d \<Rightarrow> int \<times> 'd) \<Rightarrow> (int \<Rightarrow> 'd \<Rightarrow> int \<times> 'd) \<Rightarrow> bytes \<Rightarrow> int \<times> 'd \<Rightarrow> int \<times> (int \<times> 'd)" where
  "getch getc control m bd =
     (let (buf, d) = bd;
          (buf, d) = (if buf \<noteq> XEROS_EOF \<and> buf \<noteq> EMPTY then getc d else (buf, d));
          (buf, d) = (if buf \<noteq> XEROS_EOF then control TTC_NEXTC d else (buf, d))
      in (buf, (buf, d)))"

definition ungetch :: "int \<times> 'd \<Rightarrow> int \<times> 'd" where
  "ungetch bd = (EMPTY, snd bd)"

subsection \<open>Character classes\<close>

text \<open>
  \<open>_sctab\<close>: the flags of a character. The source indexes its 128 entries with whatever number it
  read, so the table is a function on all numbers; \<open>beside\<close> is what lies around it.
\<close>

definition SPC :: u8 where "SPC = 1"

definition STP :: u8 where "STP = 2"

definition sctab :: "(int \<Rightarrow> u8) \<Rightarrow> int \<Rightarrow> u8" where
  "sctab beside c = (if 0 \<le> c \<and> c < 128 then (if c = 9 \<or> c = 10 \<or> c = 32 then SPC else 0) else beside c)"

definition scan_isdigit :: "int \<Rightarrow> bool" where
  "scan_isdigit c \<longleftrightarrow> 48 \<le> c \<and> c \<le> 57"

definition is_blank :: "int \<Rightarrow> bool" where
  "is_blank c \<longleftrightarrow> c = 32 \<or> c = 9 \<or> c = 10"

text \<open>\<open>_getccl\<close>: the set between brackets marks the characters it leaves out.\<close>

partial_function (option) getccl_loop :: "bytes \<Rightarrow> bool \<Rightarrow> u32 \<Rightarrow> (int \<Rightarrow> u8) \<Rightarrow> (u32 \<times> (int \<Rightarrow> u8)) option" where
  "getccl_loop m t s tab =
     (if m s AND 0x7F = 0x5D then Some (s + 1, tab)
      else let c = sint (m s); tab = tab(c := (if t then tab c OR STP else tab c AND NOT STP))
           in if c + 1 = 0 then Some (s, tab) else getccl_loop m t (s + 1) tab)"

definition getccl :: "bytes \<Rightarrow> u32 \<Rightarrow> (int \<Rightarrow> u8) \<Rightarrow> (u32 \<times> (int \<Rightarrow> u8)) option" where
  "getccl m s tab =
     (let t = (m s = 0x5E); s = (if t then s + 1 else s)
      in getccl_loop m t s
           (\<lambda>c. if 0 \<le> c \<and> c < 128 then (if t then tab c AND NOT STP else tab c OR STP) else tab c))"

subsection \<open>Characters into a buffer\<close>

record 'i instr_state =
  is_mem :: bytes
  is_src :: 'i
  is_ch :: int
  is_ptr :: u32
  is_len :: int

partial_function (option) instr_skip ::
  "(bytes \<Rightarrow> 'i \<Rightarrow> int \<times> 'i) \<Rightarrow> (int \<Rightarrow> u8) \<Rightarrow> u8 \<Rightarrow> bytes \<Rightarrow> 'i \<Rightarrow> (int \<times> 'i) option" where
  "instr_skip get tab ignstp m i =
     (let r = get m i; ch = fst r
      in if tab ch AND ignstp \<noteq> 0 \<and> ch \<noteq> SCAN_EOF then instr_skip get tab ignstp m (snd r) else Some r)"

partial_function (option) instr_loop ::
  "(bytes \<Rightarrow> 'i \<Rightarrow> int \<times> 'i) \<Rightarrow> (int \<Rightarrow> u8) \<Rightarrow> u8 \<Rightarrow> 'i instr_state \<Rightarrow> 'i instr_state option" where
  "instr_loop get tab ignstp st =
     (let ch = is_ch st
      in if ch \<noteq> SCAN_EOF \<and> tab ch AND ignstp = 0 then
           let st = (if is_ptr st \<noteq> 0
                     then st\<lparr>is_mem := (is_mem st)(is_ptr st := word_of_int ch), is_ptr := is_ptr st + 1\<rparr> else st);
               st = st\<lparr>is_len := s32 (is_len st - 1)\<rparr>
           in if is_len st \<le> 0 then Some st
              else let r = get (is_mem st) (is_src st)
                   in instr_loop get tab ignstp (st\<lparr>is_ch := fst r, is_src := snd r\<rparr>)
         else Some st)"

text \<open>The result: matched, end of input, memory and source.\<close>

definition instr ::
  "(bytes \<Rightarrow> 'i \<Rightarrow> int \<times> 'i) \<Rightarrow> ('i \<Rightarrow> 'i) \<Rightarrow> (int \<Rightarrow> u8) \<Rightarrow> u32 \<Rightarrow> u8 \<Rightarrow> int \<Rightarrow> bytes \<Rightarrow> 'i \<Rightarrow>
   (bool \<times> bool \<times> bytes \<times> 'i) option" where
  "instr get unget tab ptr ty len m i = do {
     let len = (if ty = 0x63 \<and> len = 30000 then 1 else len);
     (ch, i) \<leftarrow> instr_skip get tab (if ty = 0x73 then SPC else 0) m i;
     let ignstp = (if ty = 0x63 then 0 else if ty = 0x5B then STP else SPC);
     st \<leftarrow> instr_loop get tab ignstp \<lparr>is_mem = m, is_src = i, is_ch = ch, is_ptr = ptr, is_len = len\<rparr>;
     let ended = (is_ch st = SCAN_EOF);
     let i = (if \<not> ended \<and> is_len st > 0 then unget (is_src st) else is_src st);
     (if ptr \<noteq> 0 \<and> is_ptr st \<noteq> ptr
      then Some (True, ended, (if ty \<noteq> 0x63 then (is_mem st)(is_ptr st := 0) else is_mem st), i)
      else Some (False, ended, is_mem st, i))
   }"

subsection \<open>Numbers\<close>

text \<open>
  The digits read so far: the character just read, the source, the characters still allowed, the
  value, and how many characters are in \<open>numbuf\<close>, which has room for 64.
\<close>

record 'i number_state =
  nm_c :: int
  nm_src :: 'i
  nm_len :: int
  nm_val :: int
  nm_np :: nat

definition scan_base :: "u8 \<Rightarrow> int" where
  "scan_base ty = (if ty = 0x6F then 8 else if ty = 0x78 then 16 else 10)"

definition base_digit :: "int \<Rightarrow> int \<Rightarrow> bool" where
  "base_digit base c \<longleftrightarrow> scan_isdigit c \<or> base = 16 \<and> (97 \<le> c \<and> c \<le> 102 \<or> 65 \<le> c \<and> c \<le> 70)"

definition digit_value :: "int \<Rightarrow> int" where
  "digit_value c = (if 48 \<le> c \<and> c \<le> 57 then c - 48 else if 97 \<le> c \<and> c \<le> 102 then c - (97 - 10) else c - (65 - 10))"

definition shift_base :: "int \<Rightarrow> int \<Rightarrow> int" where
  "shift_base base l =
     (if base = 8 then s32 (l * 8) else if base = 10 then s32 (s32 (s32 (l * 4) + l) * 2) else s32 (l * 16))"

partial_function (option) scan_blanks :: "(bytes \<Rightarrow> 'i \<Rightarrow> int \<times> 'i) \<Rightarrow> bytes \<Rightarrow> 'i \<Rightarrow> (int \<times> 'i) option" where
  "scan_blanks get m i =
     (let r = get m i in if is_blank (fst r) then scan_blanks get m (snd r) else Some r)"

partial_function (option) innum_loop ::
  "(bytes \<Rightarrow> 'i \<Rightarrow> int \<times> 'i) \<Rightarrow> bytes \<Rightarrow> int \<Rightarrow> 'i number_state \<Rightarrow> 'i number_state option" where
  "innum_loop get m base st =
     (let st = st\<lparr>nm_len := s32 (nm_len st - 1)\<rparr>; c = nm_c st
      in if nm_len st \<ge> 0 \<and> base_digit base c then
           if nm_np st \<ge> 64 then None
           else let r = get m (nm_src st)
                in innum_loop get m base
                     (st\<lparr>nm_val := s32 (shift_base base (nm_val st) + digit_value c),
                         nm_np := nm_np st + 1, nm_c := fst r, nm_src := snd r\<rparr>)
         else Some st)"

text \<open>The sign, after the blanks.\<close>

definition innum_sign :: "(bytes \<Rightarrow> 'i \<Rightarrow> int \<times> 'i) \<Rightarrow> bytes \<Rightarrow> int \<Rightarrow> int \<times> 'i \<Rightarrow> bool \<times> 'i number_state" where
  "innum_sign get m len ci =
     (let (c, i) = ci; next = get m i
      in if c = 45 then (True, \<lparr>nm_c = fst next, nm_src = snd next, nm_len = s32 (len - 1), nm_val = 0, nm_np = 1\<rparr>)
         else if c = 43 then (False, \<lparr>nm_c = fst next, nm_src = snd next, nm_len = s32 (len - 1), nm_val = 0, nm_np = 0\<rparr>)
         else (False, \<lparr>nm_c = c, nm_src = i, nm_len = len, nm_val = 0, nm_np = 0\<rparr>))"

datatype arg_size = SHORT | REGULAR | LONG

definition store_num :: "arg_size \<Rightarrow> bytes \<Rightarrow> u32 \<Rightarrow> int \<Rightarrow> bytes" where
  "store_num sz m p v =
     (let w = word_of_int v :: u32
      in case sz of SHORT \<Rightarrow> m(p := ucast w, p + 1 := ucast (drop_bit 8 w)) | _ \<Rightarrow> store32 m p w)"

text \<open>
  \<open>ptr\<close> is the argument's value, or nothing when \<open>*\<close> suppresses the assignment. \<open>None\<close>: the digits
  overran \<open>numbuf\<close>.
\<close>

definition innum ::
  "(bytes \<Rightarrow> 'i \<Rightarrow> int \<times> 'i) \<Rightarrow> ('i \<Rightarrow> 'i) \<Rightarrow> (int \<Rightarrow> u8) \<Rightarrow> u32 option \<Rightarrow> u8 \<Rightarrow> int \<Rightarrow> arg_size \<Rightarrow> bytes \<Rightarrow> 'i \<Rightarrow>
   (bool \<times> bool \<times> bytes \<times> 'i) option" where
  "innum get unget tab ptr ty len sz m i =
     (if ty = 0x63 \<or> ty = 0x73 \<or> ty = 0x5B
      then instr get unget tab (case ptr of None \<Rightarrow> 0 | Some a \<Rightarrow> a) ty len m i
      else do {
        ci \<leftarrow> scan_blanks get m i;
        let (negflg, st) = innum_sign get m len ci;
        st \<leftarrow> innum_loop get m (scan_base ty) st;
        let lcval = (if negflg then s32 (- nm_val st) else nm_val st);
        let ended = (nm_c st = SCAN_EOF);
        let i = (if ended then nm_src st else unget (nm_src st));
        (case ptr of
           None \<Rightarrow> Some (False, ended, m, i)
         | Some a \<Rightarrow>
             if nm_np st = 0 then Some (False, ended, m, i)
             else if nm_np st \<ge> 64 then None
             else Some (True, ended, store_num sz m a lcval, i))
      })"

subsection \<open>The format\<close>

partial_function (option) scan_width :: "bytes \<Rightarrow> u32 \<Rightarrow> int \<Rightarrow> (int \<times> u32) option" where
  "scan_width m fmt len =
     (if scan_isdigit (sint (m fmt)) then scan_width m (fmt + 1) (s32 (len * 10 + sint (m fmt) - 48))
      else Some (len, fmt))"

record 'i scan_state =
  ss_mem :: bytes
  ss_src :: 'i
  ss_tab :: "int \<Rightarrow> u8"
  ss_fmt :: u32
  ss_arg :: nat
  ss_nmatch :: int

text \<open>
  A conversion specification, from behind its \<open>%\<close>: the index of the argument, the width, the
  size, the conversion letter, and the state with the format behind it.
\<close>

record 'i conversion_spec =
  sv_ptr :: "nat option"
  sv_len :: int
  sv_size :: arg_size
  sv_type :: u8
  sv_state :: "'i scan_state"

definition scan_spec :: "'i scan_state \<Rightarrow> 'i conversion_spec option" where
  "scan_spec st = do {
     let m = ss_mem st;
     let fmt = ss_fmt st;
     let star = (m fmt = 0x2A);
     let st = (if star then st else st\<lparr>ss_arg := ss_arg st + 1\<rparr>);
     let ptr = (if star then None else Some (ss_arg st - 1));
     (len, fmt) \<leftarrow> scan_width m (if star then fmt + 1 else fmt) 0;
     let len = (if len = 0 then 30000 else len);
     let ch = m fmt;
     let modifier = (ch = 0x6C \<or> ch = 0x68);
     let sz = (if ch = 0x6C then LONG else if ch = 0x68 then SHORT else REGULAR);
     (fmt, tab) \<leftarrow> (if ch = 0x5B then getccl m (fmt + 1) (ss_tab st)
                    else Some (if modifier then fmt + 2 else fmt + 1, ss_tab st));
     let ch = (if modifier then m (fmt - 1) else ch);
     let upper = (65 \<le> sint ch \<and> sint ch \<le> 90);
     Some \<lparr>sv_ptr = ptr, sv_len = len, sv_size = (if upper then LONG else sz),
           sv_type = (if upper then ch + 32 else ch), sv_state = st\<lparr>ss_fmt := fmt, ss_tab := tab\<rparr>\<rparr>
   }"

definition conversion ::
  "(bytes \<Rightarrow> 'i \<Rightarrow> int \<times> 'i) \<Rightarrow> ('i \<Rightarrow> 'i) \<Rightarrow> (nat \<Rightarrow> u32) \<Rightarrow> 'i scan_state \<Rightarrow>
   (int option \<times> 'i scan_state) option" where
  "conversion get unget args st = do {
     sv \<leftarrow> scan_spec st;
     let st = sv_state sv;
     (if sv_type sv = 0 then Some (Some (- 1), st)
      else do {
        (matched, ended, m, i) \<leftarrow> innum get unget (ss_tab st) (map_option args (sv_ptr sv)) (sv_type sv)
           (sv_len sv) (sv_size sv) (ss_mem st) (ss_src st);
        let n = ss_nmatch st + (if matched \<and> sv_ptr sv \<noteq> None then 1 else 0);
        let st = st\<lparr>ss_mem := m, ss_src := i, ss_nmatch := n\<rparr>;
        Some (if ended then Some (if n \<noteq> 0 then n else - 1) else None, st)
      })
   }"

definition match_literal ::
  "(bytes \<Rightarrow> 'i \<Rightarrow> int \<times> 'i) \<Rightarrow> ('i \<Rightarrow> 'i) \<Rightarrow> int \<Rightarrow> 'i scan_state \<Rightarrow> int option \<times> 'i scan_state" where
  "match_literal get unget ch st =
     (let (ch1, i) = get (ss_mem st) (ss_src st)
      in if ch1 = ch then (None, st\<lparr>ss_src := i\<rparr>)
         else if ch1 = SCAN_EOF then (Some (- 1), st\<lparr>ss_src := i\<rparr>)
         else (Some (ss_nmatch st), st\<lparr>ss_src := unget i\<rparr>))"

text \<open>One character of the format: the value to return, or nothing when the loop goes on.\<close>

definition scan_step ::
  "(bytes \<Rightarrow> 'i \<Rightarrow> int \<times> 'i) \<Rightarrow> ('i \<Rightarrow> 'i) \<Rightarrow> (nat \<Rightarrow> u32) \<Rightarrow> 'i scan_state \<Rightarrow>
   (int option \<times> 'i scan_state) option" where
  "scan_step get unget args st =
     (let ch = ss_mem st (ss_fmt st); st = st\<lparr>ss_fmt := ss_fmt st + 1\<rparr>
      in if ch = 0 then Some (Some (ss_nmatch st), st)
         else if ch = 0x25 then
           (if ss_mem st (ss_fmt st) = 0x25
            then Some (match_literal get unget 0x25 (st\<lparr>ss_fmt := ss_fmt st + 1\<rparr>))
            else conversion get unget args st)
         else if ch = 0x20 \<or> ch = 0x0A \<or> ch = 0x09 then do {
           (ch1, i) \<leftarrow> scan_blanks get (ss_mem st) (ss_src st);
           Some (None, st\<lparr>ss_src := (if ch1 \<noteq> SCAN_EOF then unget i else i)\<rparr>)
         }
         else Some (match_literal get unget (sint ch) st))"

partial_function (option) doscan_loop ::
  "(bytes \<Rightarrow> 'i \<Rightarrow> int \<times> 'i) \<Rightarrow> ('i \<Rightarrow> 'i) \<Rightarrow> (nat \<Rightarrow> u32) \<Rightarrow> 'i scan_state \<Rightarrow> (int \<times> 'i scan_state) option" where
  "doscan_loop get unget args st = do {
     r \<leftarrow> scan_step get unget args st;
     (case fst r of Some n \<Rightarrow> Some (n, snd r) | None \<Rightarrow> doscan_loop get unget args (snd r))
   }"

declare getccl_loop.simps [code] instr_skip.simps [code] instr_loop.simps [code] scan_blanks.simps [code]
  innum_loop.simps [code] scan_width.simps [code] doscan_loop.simps [code]

text \<open>\<open>_doscan\<close>: the number of matches, or -1, with the memory, source and class table it leaves.\<close>

definition doscan ::
  "(bytes \<Rightarrow> 'i \<Rightarrow> int \<times> 'i) \<Rightarrow> ('i \<Rightarrow> 'i) \<Rightarrow> (int \<Rightarrow> u8) \<Rightarrow> bytes \<Rightarrow> u32 \<Rightarrow> (nat \<Rightarrow> u32) \<Rightarrow> 'i \<Rightarrow>
   (int \<times> 'i scan_state) option" where
  "doscan get unget tab m fmt args i =
     doscan_loop get unget args
       \<lparr>ss_mem = m, ss_src = i, ss_tab = tab, ss_fmt = fmt, ss_arg = 0, ss_nmatch = 0\<rparr>"

subsection \<open>The entry points\<close>

definition sscanf :: "(int \<Rightarrow> u8) \<Rightarrow> bytes \<Rightarrow> u32 \<Rightarrow> u32 \<Rightarrow> (nat \<Rightarrow> u32) \<Rightarrow> (int \<times> u32 scan_state) option" where
  "sscanf tab m str fmt args = doscan sgetch sungetch tab m fmt args str"

text \<open>\<open>fscanf\<close> reads from a device, \<open>scanf\<close> from the console; both begin with an empty buffer.\<close>

definition fscanf ::
  "('d \<Rightarrow> int \<times> 'd) \<Rightarrow> (int \<Rightarrow> 'd \<Rightarrow> int \<times> 'd) \<Rightarrow> (int \<Rightarrow> u8) \<Rightarrow> bytes \<Rightarrow> u32 \<Rightarrow> (nat \<Rightarrow> u32) \<Rightarrow> 'd \<Rightarrow>
   (int \<times> (int \<times> 'd) scan_state) option" where
  "fscanf getc control tab m fmt args d = doscan (getch getc control) ungetch tab m fmt args (EMPTY, d)"

definition scanf ::
  "('d \<Rightarrow> int \<times> 'd) \<Rightarrow> (int \<Rightarrow> 'd \<Rightarrow> int \<times> 'd) \<Rightarrow> (int \<Rightarrow> u8) \<Rightarrow> bytes \<Rightarrow> u32 \<Rightarrow> (nat \<Rightarrow> u32) \<Rightarrow> 'd \<Rightarrow>
   (int \<times> (int \<times> 'd) scan_state) option" where
  "scanf getc control tab m fmt args console = doscan (getch getc control) ungetch tab m fmt args (EMPTY, console)"

end
