(* ===== verification/Scan_Props.thy ===== *)
theory Scan_Props
  imports Scan Format_Props
begin

text \<open>
  The scanner reads what the formatter printed. Over any source of characters that gives a character
  back after it was pushed back (\<open>char_source\<close>), the number conversion consumes a numeral and stops
  in front of what follows; a string is such a source.
\<close>

locale char_source =
  fixes get :: "bytes \<Rightarrow> 'i \<Rightarrow> int \<times> 'i" and unget :: "'i \<Rightarrow> 'i" and ready :: "bytes \<Rightarrow> 'i \<Rightarrow> bool"
  assumes pushback: "ready m i \<Longrightarrow> get m (unget (snd (get m i))) = get m i"
begin

text \<open>Reading the characters \<open>cs\<close> leads from \<open>i\<close> to \<open>j\<close>.\<close>

fun supplies :: "bytes \<Rightarrow> 'i \<Rightarrow> u8 list \<Rightarrow> 'i \<Rightarrow> bool" where
  "supplies m i [] j = (j = i)"
| "supplies m i (c # cs) j = (ready m i \<and> fst (get m i) = sint c \<and> supplies m (snd (get m i)) cs j)"

abbreviation looking_at :: "bytes \<Rightarrow> 'i \<Rightarrow> int \<Rightarrow> int \<Rightarrow> nat \<Rightarrow> 'i number_state" where
  "looking_at m i len v np \<equiv>
     \<lparr>nm_c = fst (get m i), nm_src = snd (get m i), nm_len = len, nm_val = v, nm_np = np\<rparr>"

lemma innum_loop_reads:
  assumes "supplies m i ds j" and "digits ds" and "\<not> scan_isdigit (fst (get m j))"
    and "int (length ds) < len" "len < 2 ^ 31" and "np + length ds \<le> 64"
    and "0 \<le> v" "decimal v ds < 2 ^ 31"
  shows "innum_loop get m 10 (looking_at m i len v np) =
    Some (looking_at m j (len - int (length ds) - 1) (decimal v ds) (np + length ds))"
  using assms
proof (induction ds arbitrary: i len v np)
  case Nil
  then have "s32 (len - 1) = len - 1" by (simp add: in_s32_def)
  then show ?case using Nil by (subst innum_loop.simps) (simp add: base_digit_def Let_def)
next
  case (Cons d ds)
  have len: "s32 (len - 1) = len - 1" using Cons.prems by (simp add: in_s32_def)
  have d: "48 \<le> sint d" "sint d \<le> 57" using Cons.prems by (simp_all add: digits_def)
  have "v * 10 + (sint d - 48) \<le> decimal (v * 10 + (sint d - 48)) ds"
    using Cons.prems d by (intro decimal_mono) (auto simp: digits_def)
  then have "v * 10 + (sint d - 48) < 2 ^ 31" using Cons.prems by simp
  then have val: "s32 (shift_base 10 v + digit_value (sint d)) = v * 10 + (sint d - 48)"
    using d Cons.prems by (simp add: shift_base_def digit_value_def in_s32_def)
  have "innum_loop get m 10 (looking_at m i len v np) =
      innum_loop get m 10 (looking_at m (snd (get m i)) (len - 1) (v * 10 + (sint d - 48)) (np + 1))"
    using Cons.prems d len val
    by (subst innum_loop.simps) (simp add: base_digit_def scan_isdigit_def Let_def)
  also have "\<dots> = Some (looking_at m j (len - 1 - int (length ds) - 1) (decimal (v * 10 + (sint d - 48)) ds) (np + 1 + length ds))"
    using Cons.prems d by (intro Cons.IH) (auto simp: digits_def)
  finally show ?case by (simp add: algebra_simps)
qed

text \<open>More than 64 digits do not fit \<open>numbuf\<close>, which is written and never read.\<close>

lemma numbuf_overrun:
  assumes "supplies m i ds j" and "digits ds" and "int (length ds) < len" "len < 2 ^ 31"
    and "np \<le> 64" "64 < np + length ds"
  shows "innum_loop get m 10 (looking_at m i len v np) = None"
  using assms
proof (induction ds arbitrary: i len v np)
  case (Cons d ds)
  have len: "s32 (len - 1) = len - 1" using Cons.prems by (simp add: in_s32_def)
  have d: "48 \<le> sint d" "sint d \<le> 57" using Cons.prems by (simp_all add: digits_def)
  show ?case
  proof (cases "np = 64")
    case True
    then show ?thesis using Cons.prems d len
      by (subst innum_loop.simps) (simp add: base_digit_def scan_isdigit_def Let_def)
  next
    case False
    then show ?thesis using Cons d len
      by (subst innum_loop.simps) (simp add: base_digit_def scan_isdigit_def digits_def Let_def)
  qed
qed simp

text \<open>A numeral at the front of the source, converted by \<open>%d\<close>.\<close>

lemma innum_numeral:
  assumes "supplies m i cs j" and n: "numeral_text n cs" "\<bar>n\<bar> < 2 ^ 31" and len: "length cs < 64"
    and stop: "\<not> scan_isdigit (fst (get m j))" "fst (get m j) \<noteq> SCAN_EOF"
  shows "innum get unget tab (Some a) 0x64 30000 REGULAR m i =
    Some (True, False, store32 m a (word_of_int n), unget (snd (get m j)))"
proof -
  obtain ds where ds: "digits ds" "ds \<noteq> []" "decimal 0 ds = \<bar>n\<bar>" "cs = (if n < 0 then 0x2D # ds else ds)"
    using n(1) by (auto simp: numeral_text_def)
  have nm: "s32 (- \<bar>n\<bar>) = - \<bar>n\<bar>" using n(2) by (simp add: in_s32_def)
  show ?thesis
  proof (cases "n < 0")
    case True
    let ?i = "snd (get m i)"
    have s: "fst (get m i) = 45" "supplies m ?i ds j" using assms(1) ds(4) True by auto
    have "scan_blanks get m i = Some (get m i)" using s by (subst scan_blanks.simps) (simp add: is_blank_def)
    moreover have "innum_sign get m 30000 (get m i) = (True, looking_at m ?i 29999 0 1)"
      using s by (simp add: innum_sign_def Let_def case_prod_beta in_s32_def)
    moreover have "innum_loop get m 10 (looking_at m ?i 29999 0 1) =
        Some (looking_at m j (29999 - int (length ds) - 1) \<bar>n\<bar> (1 + length ds))"
      using innum_loop_reads [OF s(2) ds(1) stop(1), of 29999 1 0] ds(3,4) len n True by simp
    ultimately show ?thesis
      using True ds len stop nm by (simp add: innum_def scan_base_def store_num_def Let_def)
  next
    case False
    then have cs: "cs = ds" using ds by simp
    then obtain d es where d: "ds = d # es" using ds by (cases ds) auto
    have s: "fst (get m i) = sint d" "48 \<le> sint d" "sint d \<le> 57"
      using assms(1) cs d ds(1) by (auto simp: digits_def)
    then have "scan_blanks get m i = Some (get m i)" by (subst scan_blanks.simps) (simp add: is_blank_def)
    moreover have "innum_sign get m 30000 (get m i) = (False, looking_at m i 30000 0 0)"
      using s by (simp add: innum_sign_def Let_def case_prod_beta)
    moreover have "innum_loop get m 10 (looking_at m i 30000 0 0) =
        Some (looking_at m j (30000 - int (length ds) - 1) \<bar>n\<bar> (0 + length ds))"
      using innum_loop_reads [OF assms(1) [unfolded cs] ds(1) stop(1), of 30000 0 0] ds(3) cs len n by simp
    ultimately show ?thesis
      using False ds(2) cs len stop by (simp add: innum_def scan_base_def store_num_def Let_def)
  qed
qed

text \<open>After it, the source stands in front of the character that ended the numeral.\<close>

lemma after_numeral: "ready m j \<Longrightarrow> get m (unget (snd (get m j))) = get m j"
  by (rule pushback)

end

text \<open>A string in memory.\<close>

interpretation from_string: char_source sgetch sungetch "\<lambda>m p. m p \<noteq> 0"
  by unfold_locales (simp add: sgetch_def sungetch_def)

lemma string_supplies: "str_at m p cs \<Longrightarrow> from_string.supplies m p cs (p + of_nat (length cs))"
  by (induction cs arbitrary: p) (auto simp: sgetch_def simp flip: add.assoc)

lemma str_at_end: "str_at m p cs \<Longrightarrow> m (p + of_nat (length cs)) = 0"
  by (induction cs arbitrary: p) (auto simp flip: add.assoc)

lemma store32_elsewhere:
  assumes "4 \<le> unat (x - a)"
  shows "store32 m a v x = m x"
proof -
  have "x \<noteq> a" "x \<noteq> a + 1" "x \<noteq> a + 2" "x \<noteq> a + 3" using assms by auto
  then show ?thesis by (simp add: store32_def)
qed

lemma sscanf_numeral:
  assumes p: "str_at m p cs" and n: "numeral_text n cs" "\<bar>n\<bar> < 2 ^ 31" "length cs < 64"
    and fmt: "percent_d m fmt" and apart: "4 \<le> unat (fmt + 2 - args 0)"
  shows "\<exists>st. sscanf tab m p fmt args = Some (1, st) \<and> ss_mem st = store32 m (args 0) (word_of_int n)"
proof -
  let ?e = "p + of_nat (length cs)" and ?m = "store32 m (args 0) (word_of_int n)"
  let ?st = "\<lambda>m i f a k. \<lparr>ss_mem = m, ss_src = i, ss_tab = tab, ss_fmt = f, ss_arg = a, ss_nmatch = k\<rparr>"
  have e: "sgetch m ?e = (XEROS_EOF, ?e)" using str_at_end [OF p] by (simp add: sgetch_def)
  have num: "innum sgetch sungetch tab (Some (args 0)) 0x64 30000 REGULAR m p =
      Some (True, False, ?m, sungetch ?e)"
    using from_string.innum_numeral [OF string_supplies [OF p] n, of tab "args 0"] e
    by (simp add: scan_isdigit_def scan_const_defs)
  have width: "scan_width m (fmt + 1) 0 = Some (0, fmt + 1)"
    using fmt by (subst scan_width.simps) (simp add: percent_d_def scan_isdigit_def)
  have spec: "scan_spec (?st m p (fmt + 1) 0 0) =
      Some \<lparr>sv_ptr = Some 0, sv_len = 30000, sv_size = REGULAR, sv_type = 0x64, sv_state = ?st m p (fmt + 2) 1 0\<rparr>"
    using fmt width by (simp add: scan_spec_def percent_d_def Let_def)
  have step: "scan_step sgetch sungetch args (?st m p fmt 0 0) = Some (None, ?st ?m (sungetch ?e) (fmt + 2) 1 1)"
    using fmt num spec by (simp add: scan_step_def conversion_def percent_d_def Let_def)
  have "?m (fmt + 2) = 0" using fmt store32_elsewhere [OF apart] by (simp add: percent_d_def)
  then have stop: "scan_step sgetch sungetch args (?st ?m (sungetch ?e) (fmt + 2) 1 1) =
      Some (Some 1, ?st ?m (sungetch ?e) (fmt + 2 + 1) 1 1)"
    by (simp add: scan_step_def Let_def)
  have "doscan_loop sgetch sungetch args (?st m p fmt 0 0) = Some (1, ?st ?m (sungetch ?e) (fmt + 2 + 1) 1 1)"
    using doscan_loop.simps [of sgetch sungetch args "?st m p fmt 0 0"]
      doscan_loop.simps [of sgetch sungetch args "?st ?m (sungetch ?e) (fmt + 2) 1 1"] step stop by simp
  then show ?thesis by (simp add: sscanf_def doscan_def)
qed

text \<open>C38: A number printed with \<open>%d\<close> is read back by \<open>sscanf\<close> with \<open>%d\<close>, whatever number above the least
  it is and wherever the text is stored: one item matched, and the number stored where the argument
  points, as long as that does not overwrite the end of the format.\<close>

theorem print_then_scan:
  assumes "percent_d m fmt" and "\<bar>sint (args 0)\<bar> < 2 ^ 31"
  shows "\<exists>cs. doprnt m fmt args string0 = Some cs \<and>
    (\<forall>m' p fmt' args'. str_at m' p cs \<and> percent_d m' fmt' \<and> 4 \<le> unat (fmt' + 2 - args' 0) \<longrightarrow>
       (\<exists>st. sscanf tab m' p fmt' args' = Some (1, st) \<and> ss_mem st = store32 m' (args' 0) (args 0)))"
proof -
  obtain cs where cs: "doprnt m fmt args string0 = Some cs" "numeral_text (sint (args 0)) cs" "length cs \<le> 11"
    using doprnt_percent_d [where args = args, OF assms] by blast
  have "\<exists>st. sscanf tab m' p fmt' args' = Some (1, st) \<and> ss_mem st = store32 m' (args' 0) (args 0)"
    if "str_at m' p cs" "percent_d m' fmt'" "4 \<le> unat (fmt' + 2 - args' 0)" for m' p fmt' args'
    using sscanf_numeral [where args = args' and tab = tab, OF that(1) cs(2) assms(2) _ that(2,3)] cs(3) by simp
  then show ?thesis using cs(1) by blast
qed

lemma print_then_scan_witness:
  "\<exists>cs. doprnt (\<lambda>a. if a = 0x100 then 0x25 else if a = 0x101 then 0x64 else 0) 0x100 (\<lambda>_. - 25) [] = Some cs \<and>
    (\<forall>m' p fmt' args'. str_at m' p cs \<and> percent_d m' fmt' \<and> 4 \<le> unat (fmt' + 2 - args' 0) \<longrightarrow>
       (\<exists>st. sscanf (sctab (\<lambda>_. 0)) m' p fmt' args' = Some (1, st) \<and> ss_mem st = store32 m' (args' 0) (- 25)))"
  using print_then_scan [of "\<lambda>a. if a = 0x100 then 0x25 else if a = 0x101 then 0x64 else 0" "0x100" "\<lambda>_. - 25" "[]" "sctab (\<lambda>_. 0)"]
  by (simp add: percent_d_def)

subsection \<open>Where the scanner runs on\<close>

text \<open>
  The end of a string is -2 to \<open>sgetch\<close> and -1 to \<open>_doscan\<close>: a conversion into a buffer takes the end
  for a character and fills the buffer with it up to the width, 30000 when the format gives none.
\<close>

lemma string_end_is_stored:
  assumes "m p = 0" and "tab XEROS_EOF AND ignstp = 0" and "0 < n" "n \<le> 30000"
    and "\<And>i. i < n \<Longrightarrow> b + of_nat i \<noteq> 0 \<and> b + of_nat i \<noteq> p"
  shows "instr_loop sgetch tab ignstp \<lparr>is_mem = m, is_src = p, is_ch = XEROS_EOF, is_ptr = b, is_len = int n\<rparr> =
    Some \<lparr>is_mem = write_chars m b (replicate n 0xFE), is_src = p, is_ch = XEROS_EOF,
          is_ptr = b + of_nat n, is_len = 0\<rparr>"
  using assms
proof (induction n arbitrary: m b)
  case (Suc n)
  let ?m = "m(b := 0xFE)"
  have b: "b \<noteq> 0" "b \<noteq> p" using Suc.prems(5) [of 0] by simp_all
  then have p: "?m p = 0" using Suc.prems(1) by simp
  have ch: "(word_of_int XEROS_EOF :: u8) = 0xFE" "XEROS_EOF \<noteq> SCAN_EOF" by (simp_all add: scan_const_defs)
  have len: "s32 (int (Suc n) - 1) = int n" using Suc.prems by (simp add: in_s32_def)
  have later: "b + 1 + of_nat i \<noteq> 0 \<and> b + 1 + of_nat i \<noteq> p" if "i < n" for i
    using Suc.prems(5) [of "Suc i"] that by (simp add: add.assoc)
  note step = instr_loop.simps [of sgetch tab ignstp
      "\<lparr>is_mem = m, is_src = p, is_ch = XEROS_EOF, is_ptr = b, is_len = int (Suc n)\<rparr>"]
  have g: "sgetch ?m p = (XEROS_EOF, p)" using p by (simp add: sgetch_def)
  show ?case
  proof (cases "n = 0")
    case True
    then show ?thesis using step b ch Suc.prems(2) by (simp add: Let_def in_s32_def fun_upd_def)
  next
    case False
    then have "instr_loop sgetch tab ignstp \<lparr>is_mem = ?m, is_src = p, is_ch = XEROS_EOF, is_ptr = b + 1, is_len = int n\<rparr> =
        Some \<lparr>is_mem = write_chars ?m (b + 1) (replicate n 0xFE), is_src = p, is_ch = XEROS_EOF,
              is_ptr = b + 1 + of_nat n, is_len = 0\<rparr>"
      using p Suc.prems(2,4) later by (intro Suc.IH) auto
    then show ?thesis using step b ch len g Suc.prems(2) False by (simp add: Let_def add.assoc del: of_nat_Suc) simp
  qed
qed simp

end
