(* ===== verification/Stdio.thy ===== *)
theory Stdio
  imports Doprnt
begin

text \<open>
  The line and formatted input and output of lib/libxc (gets.c, fgets.c, puts.c, fputs.c, printf.c,
  fprintf.c) and the character classes of ctype_.c. The device's \<open>getc\<close> and \<open>putc\<close> are not part of
  the repository: they are arguments, functions on the state \<open>d\<close> of the device.
\<close>

subsection \<open>Reading lines\<close>

text \<open>\<open>gets\<close> ends a line at a newline, a carriage return or the character 4.\<close>

partial_function (option) gets_loop ::
  "('d \<Rightarrow> int \<times> 'd) \<Rightarrow> bytes \<Rightarrow> u32 \<Rightarrow> 'd \<Rightarrow> (int \<times> u32 \<times> bytes \<times> 'd) option" where
  "gets_loop getc m cs d =
     (let r = getc d; c = fst r; d = snd r
      in if c \<noteq> 10 \<and> c \<noteq> 13 \<and> c \<noteq> 4 then gets_loop getc (m(cs := word_of_int c)) (cs + 1) d
         else Some (c, cs, m, d))"

definition gets :: "('d \<Rightarrow> int \<times> 'd) \<Rightarrow> bytes \<Rightarrow> u32 \<Rightarrow> 'd \<Rightarrow> (u32 \<times> bytes \<times> 'd) option" where
  "gets getc m s d = do {
     (c, cs, m, d) \<leftarrow> gets_loop getc m s d;
     (if c = 4 \<and> cs = s then Some (0, m, d) else Some (s, m(cs := 0), d))
   }"

text \<open>\<open>fgets\<close> also stops at a negative character and after \<open>n - 1\<close> characters, and keeps the newline.\<close>

fun fgets_loop :: "('d \<Rightarrow> int \<times> 'd) \<Rightarrow> bytes \<Rightarrow> u32 \<Rightarrow> nat \<Rightarrow> int \<Rightarrow> 'd \<Rightarrow> int \<times> u32 \<times> bytes \<times> 'd" where
  "fgets_loop getc m cs 0 c d = (c, cs, m, d)"
| "fgets_loop getc m cs (Suc n) c d =
     (let r = getc d; c = fst r; d = snd r
      in if c \<ge> 0 then
           let m = m(cs := word_of_int c); cs = cs + 1
           in if c = 10 then (c, cs, m, d) else fgets_loop getc m cs n c d
         else (c, cs, m, d))"

definition fgets :: "('d \<Rightarrow> int \<times> 'd) \<Rightarrow> bytes \<Rightarrow> u32 \<Rightarrow> int \<Rightarrow> 'd \<Rightarrow> u32 \<times> bytes \<times> 'd" where
  "fgets getc m s n d =
     (let (c, cs, m, d) = fgets_loop getc m s (nat (s32 (n - 1))) (- 88) d
      in if c < 0 \<and> cs = s then (0, m, d) else (s, m(cs := 0), d))"

subsection \<open>Writing\<close>

text \<open>The characters up to the terminator, one \<open>putc\<close> each; \<open>r\<close> is the last result.\<close>

partial_function (option) fputs_loop :: "(u8 \<Rightarrow> 'd \<Rightarrow> int \<times> 'd) \<Rightarrow> bytes \<Rightarrow> u32 \<Rightarrow> int \<Rightarrow> 'd \<Rightarrow> (int \<times> 'd) option" where
  "fputs_loop putc m s r d =
     (if m s = 0 then Some (r, d)
      else let x = putc (m s) d in fputs_loop putc m (s + 1) (fst x) (snd x))"

definition fputs :: "(u8 \<Rightarrow> 'd \<Rightarrow> int \<times> 'd) \<Rightarrow> bytes \<Rightarrow> u32 \<Rightarrow> 'd \<Rightarrow> (int \<times> 'd) option" where
  "fputs putc m s d = fputs_loop putc m s 0 d"

partial_function (option) puts_loop :: "(u8 \<Rightarrow> 'd \<Rightarrow> int \<times> 'd) \<Rightarrow> bytes \<Rightarrow> u32 \<Rightarrow> 'd \<Rightarrow> 'd option" where
  "puts_loop putc m s d = (if m s = 0 then Some d else puts_loop putc m (s + 1) (snd (putc (m s) d)))"

definition puts :: "(u8 \<Rightarrow> 'd \<Rightarrow> int \<times> 'd) \<Rightarrow> bytes \<Rightarrow> u32 \<Rightarrow> 'd \<Rightarrow> (int \<times> 'd) option" where
  "puts putc m s d = map_option (putc 0x0A) (puts_loop putc m s d)"

text \<open>
  \<open>printf\<close> and \<open>fprintf\<close>: \<open>_doprnt\<close> with \<open>putc\<close>. \<open>args n\<close> are the words on the caller's stack behind
  the format; \<open>fprintf\<close> passes the address of its parameter \<open>fmt\<close> itself, so the format comes first.
\<close>

fun put_all :: "(u8 \<Rightarrow> 'd \<Rightarrow> int \<times> 'd) \<Rightarrow> u8 list \<Rightarrow> 'd \<Rightarrow> 'd" where
  "put_all putc [] d = d"
| "put_all putc (c # cs) d = put_all putc cs (snd (putc c d))"

definition printf :: "(u8 \<Rightarrow> 'd \<Rightarrow> int \<times> 'd) \<Rightarrow> bytes \<Rightarrow> u32 \<Rightarrow> (nat \<Rightarrow> u32) \<Rightarrow> u8 list \<Rightarrow> 'd \<Rightarrow> (int \<times> 'd) option" where
  "printf putc m fmt args string0 d = map_option (\<lambda>cs. (1, put_all putc cs d)) (doprnt m fmt args string0)"

definition fprintf :: "(u8 \<Rightarrow> 'd \<Rightarrow> int \<times> 'd) \<Rightarrow> bytes \<Rightarrow> u32 \<Rightarrow> (nat \<Rightarrow> u32) \<Rightarrow> u8 list \<Rightarrow> 'd \<Rightarrow> (int \<times> 'd) option" where
  "fprintf putc m fmt args string0 d =
     (let argAddr = (\<lambda>n. if n = 0 then fmt else args (n - 1))
      in map_option (\<lambda>cs. (1, put_all putc cs d)) (doprnt m fmt argAddr string0))"

subsection \<open>Character classes\<close>

text \<open>\<open>_ctype_\<close>: the classes of character \<open>c\<close> are entry \<open>c + 1\<close>.\<close>

definition CT_U :: u8 where "CT_U = 0x01"
definition CT_L :: u8 where "CT_L = 0x02"
definition CT_N :: u8 where "CT_N = 0x04"
definition CT_C :: u8 where "CT_C = 0x08"
definition CT_P :: u8 where "CT_P = 0x10"
definition CT_S :: u8 where "CT_S = 0x20"
definition CT_X :: u8 where "CT_X = 0x40"

definition ctype :: "u8 list" where
  "ctype = [0] @
     [CT_C, CT_C, CT_C, CT_C, CT_C, CT_C, CT_C, CT_C] @
     [CT_C, CT_S, CT_S, CT_S, CT_S, CT_S, CT_C, CT_C] @
     replicate 8 CT_C @ replicate 8 CT_C @
     [CT_S] @ replicate 7 CT_P @ replicate 8 CT_P @
     replicate 8 CT_N @ [CT_N, CT_N] @ replicate 6 CT_P @
     [CT_P] @ replicate 6 (CT_U OR CT_X) @ [CT_U] @ replicate 8 CT_U @ replicate 8 CT_U @
     replicate 3 CT_U @ replicate 5 CT_P @
     [CT_P] @ replicate 6 (CT_L OR CT_X) @ [CT_L] @ replicate 8 CT_L @ replicate 8 CT_L @
     replicate 3 CT_L @ replicate 4 CT_P @ [CT_C]"

definition has_class :: "u8 \<Rightarrow> nat \<Rightarrow> bool" where
  "has_class k c \<longleftrightarrow> ctype ! (c + 1) AND k \<noteq> 0"

text \<open>The digits, letters and hexadecimal digits of the table are those of the ASCII code.\<close>

lemma ctype_classes:
  "length ctype = 129"
  "list_all (\<lambda>c. (has_class CT_N c \<longleftrightarrow> 48 \<le> c \<and> c \<le> 57) \<and> (has_class CT_U c \<longleftrightarrow> 65 \<le> c \<and> c \<le> 90) \<and>
     (has_class CT_L c \<longleftrightarrow> 97 \<le> c \<and> c \<le> 122) \<and> (has_class CT_S c \<longleftrightarrow> 9 \<le> c \<and> c \<le> 13 \<or> c = 32) \<and>
     (has_class CT_C c \<longleftrightarrow> (c < 9 \<or> 13 < c \<and> c < 32) \<or> c = 127)) [0..<128]"
  by code_simp+

end
