(* ===== verification/Stdio_Props.thy ===== *)
theory Stdio_Props
  imports Stdio Format_Props
begin

text \<open>
  \<open>fgets\<close> stays within its buffer whatever the device delivers, and \<open>fprintf\<close> prints the address of
  its format in place of its first argument.
\<close>

lemma fgets_loop_writes:
  "fgets_loop getc m cs k c d = (c', cs', m', d') \<Longrightarrow>
     \<exists>j\<le>k. cs' = cs + of_nat j \<and> (\<forall>x. (\<forall>i<j. x \<noteq> cs + of_nat i) \<longrightarrow> m' x = m x) \<and> (j = 0 \<longrightarrow> m' = m \<and> (c' < 0 \<or> c' = c))"
proof (induction k arbitrary: m cs c d)
  case (Suc k)
  let ?c = "fst (getc d)" and ?d = "snd (getc d)"
  let ?m = "m(cs := word_of_int ?c)"
  consider (stop) "?c < 0" | (line) "?c = 10" | (more) "0 \<le> ?c" "?c \<noteq> 10" by linarith
  then show ?case
  proof cases
    case stop
    then show ?thesis using Suc.prems by (auto simp: Let_def intro: exI [of _ 0])
  next
    case line
    then show ?thesis using Suc.prems by (auto simp: Let_def intro!: exI [of _ 1])
  next
    case more
    then have "fgets_loop getc ?m (cs + 1) k ?c ?d = (c', cs', m', d')" using Suc.prems by (simp add: Let_def)
    then obtain j where j: "j \<le> k" "cs' = cs + 1 + of_nat j"
      "\<And>x. (\<forall>i<j. x \<noteq> cs + 1 + of_nat i) \<Longrightarrow> m' x = ?m x" using Suc.IH by blast
    have "m' x = m x" if "\<forall>i<Suc j. x \<noteq> cs + of_nat i" for x
    proof -
      have "x \<noteq> cs + 1 + of_nat i" if "i < j" for i
        using \<open>\<forall>i<Suc j. _ i\<close> [rule_format, of "Suc i"] that by (simp add: ac_simps)
      then show ?thesis using j(3) that [rule_format, of 0] by simp
    qed
    then show ?thesis using j(1,2) by (intro exI [of _ "Suc j"]) (simp add: add.assoc)
  qed
qed simp

text \<open>C39: Whatever the device delivers, \<open>fgets\<close> with room for \<open>n\<close> characters changes only the \<open>n\<close> bytes at
  \<open>s\<close>, and either returns null having read nothing, or leaves a terminator among them.\<close>

theorem fgets_in_bounds:
  assumes "- (2 ^ 31) < n" and "n < 2 ^ 31" and "fgets getc m s n d = (r, m', d')"
  shows "(\<forall>x. (\<forall>i<nat n. x \<noteq> s + of_nat i) \<longrightarrow> m' x = m x) \<and>
    (r = 0 \<and> m' = m \<or> r = s \<and> (\<exists>i<nat n. m' (s + of_nat i) = 0))"
proof -
  have n: "s32 (n - 1) = n - 1" using assms(1,2) by (simp add: in_s32_def)
  obtain c cs m1 d1 where loop: "fgets_loop getc m s (nat (n - 1)) (- 88) d = (c, cs, m1, d1)"
    using prod_cases4 by blast
  obtain j where j: "j \<le> nat (n - 1)" "cs = s + of_nat j"
    "\<And>x. (\<forall>i<j. x \<noteq> s + of_nat i) \<Longrightarrow> m1 x = m x" "j = 0 \<Longrightarrow> m1 = m \<and> c < 0"
    using fgets_loop_writes [OF loop] by auto
  have r: "(r, m') = (if c < 0 \<and> cs = s then (0, m1) else (s, m1(cs := 0)))"
    using assms(3) by (auto simp: fgets_def n loop split: if_splits)
  show ?thesis
  proof (cases "j = 0")
    case True
    then show ?thesis using j r by auto
  next
    case False
    then have j': "j < nat n" using j(1) by linarith
    have "(of_nat j :: u32) \<noteq> 0"
      using False j' assms(2) by (simp add: word_of_nat_eq_0_iff nat_dvd_not_less)
    then have "r = s" "m' = m1(cs := 0)" using j(2) r by simp_all
    then show ?thesis using j j' by (auto intro!: exI [of _ j])
  qed
qed

lemma fgets_in_bounds_witness:
  "let (r, m', d') = fgets (\<lambda>cs. case cs of [] \<Rightarrow> (- 1, []) | c # cs \<Rightarrow> (c, cs)) (\<lambda>_. 7) 0x100 3 [65, 66, 67, 68]
   in m' 0x103 = 7 \<and> (r = 0 \<and> m' = (\<lambda>_. 7) \<or> r = 0x100 \<and> (\<exists>i<nat 3. m' (0x100 + of_nat i) = 0))"
proof -
  let ?getc = "\<lambda>cs :: int list. case cs of [] \<Rightarrow> (- 1, []) | c # cs \<Rightarrow> (c, cs)"
  obtain r m' d' where run: "fgets ?getc (\<lambda>_. 7) 0x100 3 [65, 66, 67, 68] = (r, m', d')"
    using prod_cases3 by blast
  have "\<forall>i<nat 3. (0x103 :: u32) \<noteq> 0x100 + of_nat i" by (auto simp: numeral_3_eq_3 less_Suc_eq)
  with fgets_in_bounds [OF _ _ run] show ?thesis by (simp add: run)
qed

text \<open>The first argument \<open>fprintf\<close> formats is the pointer to the format.\<close>

lemma fprintf_prints_format_address:
  assumes "percent_d m fmt" and "\<bar>sint fmt\<bar> < 2 ^ 31"
  shows "\<exists>cs. fprintf putc m fmt args string0 d = Some (1, put_all putc cs d) \<and> numeral_text (sint fmt) cs"
proof -
  obtain cs where "doprnt m fmt (\<lambda>n. if n = 0 then fmt else args (n - 1)) string0 = Some cs" "numeral_text (sint fmt) cs"
    using doprnt_percent_d [where args = "\<lambda>n. if n = 0 then fmt else args (n - 1)", OF assms(1)] assms(2) by auto
  then show ?thesis by (auto simp: fprintf_def Let_def)
qed

end
