(* ===== verification/Build_Tool.thy ===== *)
theory Build_Tool
  imports Prelude
begin

text \<open>
  boot/build.c, the host tool that puts the boot sector, the setup code and the system into one disk
  image, as its Makefile compiles it (with \<open>__BFD__\<close>, without \<open>__BIG_KERNEL__\<close>, for a 32-bit
  little-endian host). A file is its bytes, or nothing if it cannot be opened; \<open>read\<close> takes as many
  bytes as are asked for or left. Standard output accepts \<open>limit\<close> bytes and can be positioned
  if \<open>seekable\<close>; the numbers of the root device come from \<open>stat\<close>.
\<close>

datatype build_error =
    Usage | No_Stat | Cannot_Open | Short_Header | Non_Minix | Illegal_Data | Illegal_Bss | Illegal_Symbols
  | Boot_Size | No_Boot_Flag | Write_Failed | Too_Big | Read_Failed

definition on_ok :: "'e + 'a \<Rightarrow> ('a \<Rightarrow> 'e + 'b) \<Rightarrow> 'e + 'b" where
  "on_ok r f = (case r of Inl e \<Rightarrow> Inl e | Inr x \<Rightarrow> f x)"

lemma on_ok_simps [simp]: "on_ok (Inl e) f = Inl e" "on_ok (Inr x) f = f x"
  by (simp_all add: on_ok_def)

lemma on_ok_Inr_iff: "on_ok r f = Inr y \<longleftrightarrow> (\<exists>x. r = Inr x \<and> f x = Inr y)"
  by (cases r) auto

definition die_unless :: "bool \<Rightarrow> build_error \<Rightarrow> build_error + unit" where
  "die_unless b e = (if b then Inr () else Inl e)"

subsection \<open>Little-endian numbers\<close>

text \<open>The union \<open>conv\<close>: the bytes are stored one by one and read back as one object.\<close>

definition conv_bytes :: "u32 \<Rightarrow> u8 list" where
  "conv_bytes l = [ucast (l AND 0xFF), ucast (signed_drop_bit 8 l AND 0xFF),
     ucast (signed_drop_bit 8 (signed_drop_bit 8 l) AND 0xFF),
     ucast (signed_drop_bit 8 (signed_drop_bit 8 (signed_drop_bit 8 l)) AND 0xFF)]"

definition long_at :: "u8 list \<Rightarrow> nat \<Rightarrow> u32" where
  "long_at b i = ucast (b ! (4 * i)) OR push_bit 8 (ucast (b ! (4 * i + 1)))
     OR push_bit 16 (ucast (b ! (4 * i + 2))) OR push_bit 24 (ucast (b ! (4 * i + 3)))"

definition short_at :: "u8 list \<Rightarrow> nat \<Rightarrow> 16 word" where
  "short_at b i = ucast (b ! i) OR push_bit 8 (ucast (b ! (i + 1)))"

definition intel_long :: "u32 \<Rightarrow> u32" where
  "intel_long l = long_at (conv_bytes l) 0"

definition intel_int :: "u32 \<Rightarrow> u32" where
  "intel_int i = long_at (conv_bytes i) 0"

definition intel_short :: "16 word \<Rightarrow> 16 word" where
  "intel_short l = short_at [ucast (l AND 0xFF), ucast (signed_drop_bit 8 l AND 0xFF)] 0"

subsection \<open>Constants\<close>

definition DEF_SYSSIZE :: nat where "DEF_SYSSIZE = 0x7F00"

definition MINIX_HEADER :: nat where "MINIX_HEADER = 32"

definition SYS_SIZE :: nat where "SYS_SIZE = DEF_SYSSIZE"

definition SETUP_SECTS :: u8 where "SETUP_SECTS = 4"

definition BUFSIZE :: nat where "BUFSIZE = 1024"

subsection \<open>Output\<close>

definition write_out :: "nat \<Rightarrow> u8 list \<Rightarrow> u8 list \<Rightarrow> build_error + u8 list" where
  "write_out limit out bs = (if length out + length bs \<le> limit then Inr (out @ bs) else Inl Write_Failed)"

text \<open>The root device: none named, the one the root directory is on, the floppy, or a device file.\<close>

datatype root_arg = DEFAULT | CURRENT | FLOPPY | Device string

definition root_device :: "(string \<Rightarrow> (u8 \<times> u8) option) \<Rightarrow> root_arg \<Rightarrow> build_error + u8 \<times> u8" where
  "root_device stat a = (case a of
     CURRENT \<Rightarrow> (case stat ''/'' of None \<Rightarrow> Inl No_Stat | Some d \<Rightarrow> Inr d)
   | Device f \<Rightarrow> (case stat f of None \<Rightarrow> Inl No_Stat | Some d \<Rightarrow> Inr d)
   | FLOPPY \<Rightarrow> Inr (0, 0)
   | DEFAULT \<Rightarrow> Inr (0, 0))"

text \<open>The header of \<open>boot\<close> and of \<open>setup\<close>: what follows it in the file.\<close>

definition check_header :: "u8 list option \<Rightarrow> build_error + u8 list" where
  "check_header file = (case file of
     None \<Rightarrow> Inl Cannot_Open
   | Some bs \<Rightarrow>
       let buf = take MINIX_HEADER bs in
       on_ok (die_unless (length buf = MINIX_HEADER) Short_Header) (\<lambda>_.
       on_ok (die_unless (long_at buf 0 = intel_long 0x04100301) Non_Minix) (\<lambda>_.
       on_ok (die_unless (long_at buf 1 = intel_long (of_nat MINIX_HEADER)) Non_Minix) (\<lambda>_.
       on_ok (die_unless (long_at buf 3 = 0) Illegal_Data) (\<lambda>_.
       on_ok (die_unless (long_at buf 4 = 0) Illegal_Bss) (\<lambda>_.
       on_ok (die_unless (long_at buf 5 = 0) Non_Minix) (\<lambda>_.
       on_ok (die_unless (long_at buf 7 = 0) Illegal_Symbols) (\<lambda>_.
       Inr (drop MINIX_HEADER bs)))))))))"

text \<open>The boot sector, with the root device written into it.\<close>

definition boot_sector :: "u8 \<times> u8 \<Rightarrow> u8 list option \<Rightarrow> build_error + u8 list" where
  "boot_sector root file =
     on_ok (check_header file) (\<lambda>bs.
       let buf = take BUFSIZE bs in
       on_ok (die_unless (length buf = 512) Boot_Size) (\<lambda>_.
       on_ok (die_unless (short_at buf 510 = intel_short 0xAA55) No_Boot_Flag) (\<lambda>_.
       Inr (take 512 (buf[508 := snd root, 509 := fst root])))))"

text \<open>A file copied in pieces of \<open>BUFSIZE\<close> bytes; \<open>i\<close> counts them.\<close>

function copy_setup :: "nat \<Rightarrow> u8 list \<Rightarrow> nat \<Rightarrow> u8 list \<Rightarrow> build_error + nat \<times> u8 list" where
  "copy_setup limit out i bs =
     (let buf = take BUFSIZE bs; c = length buf
      in if c > 0 then on_ok (write_out limit out buf) (\<lambda>out. copy_setup limit out (i + c) (drop c bs))
         else Inr (i, out))"
  by pat_completeness auto

termination
  by (relation "measure (\<lambda>(limit, out, i, bs). length bs)") (auto simp: BUFSIZE_def)

definition setup_size :: "nat \<Rightarrow> u8" where
  "setup_size i = (let s = of_nat ((i + 511) div 512) in if s < SETUP_SECTS then SETUP_SECTS else s)"

function pad_setup :: "nat \<Rightarrow> u8 list \<Rightarrow> nat \<Rightarrow> nat \<Rightarrow> build_error + u8 list" where
  "pad_setup limit out i end =
     (if i < end then
        let c = (if end - i > BUFSIZE then BUFSIZE else end - i)
        in on_ok (write_out limit out (replicate c 0)) (\<lambda>out. pad_setup limit out (i + c) end)
      else Inr out)"
  by pat_completeness auto

termination
  by (relation "measure (\<lambda>(limit, out, i, end). end - i)") (auto simp: BUFSIZE_def)

function copy_system :: "nat \<Rightarrow> u8 list \<Rightarrow> nat \<Rightarrow> u8 list \<Rightarrow> build_error + u8 list" where
  "copy_system limit out sz bs =
     (if sz > 0 then
        let l = (if sz > BUFSIZE then BUFSIZE else sz); buf = take l bs
        in on_ok (die_unless (length buf = l) Read_Failed) (\<lambda>_.
           on_ok (write_out limit out buf) (\<lambda>out. copy_system limit out (sz - l) (drop l bs)))
      else Inr out)"
  by pat_completeness auto

termination
  by (relation "measure (\<lambda>(limit, out, sz, bs). sz)") (auto simp: BUFSIZE_def)

text \<open>The setup code, padded to whole sectors, and the system: the size of each and the output so far.\<close>

definition put_setup :: "nat \<Rightarrow> u8 list \<Rightarrow> u8 list option \<Rightarrow> build_error + u8 \<times> u8 list" where
  "put_setup limit out file =
     on_ok (check_header file) (\<lambda>bs.
     on_ok (copy_setup limit out 0 bs) (\<lambda>(i, out).
     on_ok (pad_setup limit out i (unat (setup_size i) * 512)) (\<lambda>out.
     Inr (setup_size i, out))))"

definition put_system :: "nat \<Rightarrow> u8 list \<Rightarrow> u8 list option \<Rightarrow> build_error + nat \<times> u8 list" where
  "put_system limit out file = (case file of
     None \<Rightarrow> Inl Cannot_Open
   | Some sys \<Rightarrow>
       let sz = length sys; sys_size = (sz + 15) div 16 in
       on_ok (die_unless (sys_size \<le> SYS_SIZE) Too_Big) (\<lambda>_.
       on_ok (copy_system limit out sz sys) (\<lambda>out.
       Inr (sys_size, out))))"

declare copy_setup.simps [simp del] pad_setup.simps [simp del] copy_system.simps [simp del]

subsection \<open>The tool\<close>

record build_input =
  bi_args :: "root_arg option"
  bi_boot :: "u8 list option"
  bi_setup :: "u8 list option"
  bi_system :: "u8 list option"
  bi_limit :: nat
  bi_seekable :: bool

text \<open>
  \<open>main\<close>: the image on standard output. \<open>bi_args\<close> is \<open>None\<close> for a wrong number of arguments. The
  sizes are written into the boot sector afterwards, if the output can be positioned.
\<close>

definition build :: "(string \<Rightarrow> (u8 \<times> u8) option) \<Rightarrow> build_input \<Rightarrow> build_error + u8 list" where
  "build stat inp = (let limit = bi_limit inp in
     on_ok (case bi_args inp of None \<Rightarrow> Inl Usage | Some a \<Rightarrow> root_device stat a) (\<lambda>root.
     on_ok (boot_sector root (bi_boot inp)) (\<lambda>boot.
     on_ok (write_out limit [] boot) (\<lambda>out.
     on_ok (put_setup limit out (bi_setup inp)) (\<lambda>(setup_sectors, out).
     on_ok (put_system limit out (bi_system inp)) (\<lambda>(sys_size, out).
     Inr (if bi_seekable inp
          then out[497 := setup_sectors, 500 := of_nat (sys_size mod 256), 501 := of_nat (sys_size div 256 mod 256)]
          else out)))))))"

section \<open>The object wrapper\<close>

text \<open>
  boot/zBoot/piggyback.c wraps the compressed system into an a.out object. The byte layout of the header and of a
  symbol, from the host's a.out.h, are arguments; only the fields the program sets are kept, the others are zero.
  Standard input is a file, \<open>None\<close> if it cannot be read.
\<close>

record exec_header =
  a_info :: u32
  a_data :: u32
  a_syms :: u32

record nlist =
  n_strx :: u32
  n_type :: u8
  n_value :: u32

datatype piggy_result = Overrun | Read_Error | Input_Too_Large | Object "u8 list"

definition TMP_BUF :: nat where "TMP_BUF = 512 * 1024"

definition string_names :: "u8 list" where
  "string_names = map (\<lambda>c. of_nat (of_char c)) ''_input_data'' @ [0] @ map (\<lambda>c. of_nat (of_char c)) ''_input_len'' @ [0, 0]"

definition var_names :: "u32 \<Rightarrow> nlist list" where
  "var_names v = [\<lparr>n_strx = 4, n_type = 7, n_value = 0\<rparr>, \<lparr>n_strx = 16, n_type = 7, n_value = v\<rparr>]"

text \<open>The loop asks for one byte more than the buffer has left.\<close>

function read_all :: "u8 list \<Rightarrow> u8 list \<Rightarrow> u8 list" where
  "read_all rest buf =
     (let n = min (TMP_BUF - length buf + 1) (length rest)
      in if 0 < n \<and> length buf \<le> TMP_BUF then read_all (drop n rest) (buf @ take n rest) else buf)"
  by auto
termination by (relation "measure (\<lambda>(rest, buf). length rest)") auto

declare read_all.simps [simp del]

definition piggyback :: "(exec_header \<Rightarrow> u8 list) \<Rightarrow> (nlist \<Rightarrow> u8 list) \<Rightarrow> u8 list option \<Rightarrow> piggy_result" where
  "piggyback exec_bytes nlist_bytes stdin = (case stdin of
     None \<Rightarrow> Read_Error
   | Some file \<Rightarrow>
       let tmp_buf = read_all file [];
           len = length tmp_buf
       in if len > TMP_BUF then Overrun
          else if len \<ge> TMP_BUF then Input_Too_Large
          else
            let syms = concat (map nlist_bytes (var_names (of_nat len)));
                obj = \<lparr>a_info = 0x00640107, a_data = of_nat (len + 4), a_syms = of_nat (length syms)\<rparr>
            in Object (exec_bytes obj @ tmp_buf @ conv_bytes (of_nat len) @ syms @
                 conv_bytes (of_nat (length string_names + 4)) @ string_names))"

lemma read_all_file: "length file \<le> TMP_BUF + 1 \<Longrightarrow> read_all file [] = file"
  by (subst read_all.simps) (auto simp: Let_def read_all.simps [of "[]"])

lemma read_all_long:
  assumes "length file > TMP_BUF"
  shows "length (read_all file []) = TMP_BUF + 1"
proof -
  have "read_all (drop (TMP_BUF + 1) file) (take (TMP_BUF + 1) file) = take (TMP_BUF + 1) file"
    using assms by (subst read_all.simps) simp
  then show ?thesis using assms by (subst read_all.simps) (auto simp: Let_def min_def)
qed

text \<open>The object of a file that fits: its data segment is the file with its length behind it, and the two
  symbols, whose names are at their places in the string table, are the start of each.\<close>

theorem piggyback_object:
  assumes "length file < TMP_BUF"
  obtains hd syms where "piggyback exec_bytes nlist_bytes (Some file) = Object (exec_bytes hd @ file @
      conv_bytes (of_nat (length file)) @ syms @ conv_bytes (of_nat (length string_names + 4)) @ string_names)"
    and "a_data hd = of_nat (length file + length (conv_bytes (of_nat (length file))))"
    and "a_syms hd = of_nat (length syms)"
    and "syms = nlist_bytes \<lparr>n_strx = 4, n_type = 7, n_value = 0\<rparr> @ nlist_bytes \<lparr>n_strx = 16, n_type = 7, n_value = of_nat (length file)\<rparr>"
proof -
  define syms where "syms = concat (map nlist_bytes (var_names (of_nat (length file))))"
  define obj where "obj = \<lparr>a_info = 0x00640107, a_data = of_nat (length file + 4), a_syms = of_nat (length syms)\<rparr>"
  show ?thesis
    by (rule that [of obj syms])
      (use assms in \<open>simp_all add: piggyback_def read_all_file obj_def syms_def var_names_def Let_def conv_bytes_def\<close>)
qed

lemma symbol_names:
  "map (\<lambda>c. of_nat (of_char c) :: u8) ''_input_data'' = take 11 (drop (4 - 4) string_names)"
  "map (\<lambda>c. of_nat (of_char c) :: u8) ''_input_len'' = take 10 (drop (16 - 4) string_names)"
  by (simp_all add: string_names_def)

text \<open>A longer file is found to be too large only after a byte has been stored behind the buffer.\<close>

lemma piggyback_overrun: "length file > TMP_BUF \<Longrightarrow> piggyback exec_bytes nlist_bytes (Some file) = Overrun"
  by (simp add: piggyback_def read_all_long Let_def)

end
