(* ===== verification/Build_Facts.thy ===== *)
theory Build_Facts
  imports Build_Tool
begin

text \<open>
  The disk image: where its parts lie, and that the numbers in the boot sector describe them, so that
  the boot code finds the setup code and the whole system.
\<close>

lemma low_byte: "ucast (x AND 0xFF :: u32) = (ucast x :: u8)" "ucast (y AND 0xFF :: 16 word) = (ucast y :: u8)"
proof -
  have m: "(0xFF :: u32) = mask 8" "(0xFF :: 16 word) = mask 8" by (simp_all add: mask_eq_exp_minus_1)
  show "ucast (x AND 0xFF :: u32) = (ucast x :: u8)" "ucast (y AND 0xFF :: 16 word) = (ucast y :: u8)"
    unfolding m by (rule bit_word_eqI; simp add: bit_simps)+
qed

lemma shifted_byte:
  "ucast (signed_drop_bit 8 l :: u32) = (ucast (drop_bit 8 l) :: u8)"
  "ucast (signed_drop_bit 16 l :: u32) = (ucast (drop_bit 16 l) :: u8)"
  "ucast (signed_drop_bit 24 l :: u32) = (ucast (drop_bit 24 l) :: u8)"
  "ucast (signed_drop_bit 8 k :: 16 word) = (ucast (drop_bit 8 k) :: u8)"
  by (rule bit_word_eqI; simp add: bit_simps ac_simps)+

lemma intel_long_id [simp]: "intel_long l = l"
  using bytes_of_word [of l] by (simp add: intel_long_def conv_bytes_def long_at_def low_byte shifted_byte)

lemma intel_short_id [simp]: "intel_short l = l"
proof -
  have "intel_short l = ucast (ucast l :: u8) OR push_bit 8 (ucast (ucast (drop_bit 8 l) :: u8))"
    by (simp add: intel_short_def short_at_def low_byte shifted_byte)
  also have "\<dots> = l" by (rule bit_word_eqI) (auto simp: bit_simps)
  finally show ?thesis .
qed

lemma die_unless_Inr [simp]: "die_unless b e = Inr u \<longleftrightarrow> b"
  by (simp add: die_unless_def)

lemma write_out_Inr: "write_out limit out bs = Inr out' \<longleftrightarrow> length out + length bs \<le> limit \<and> out' = out @ bs"
  by (auto simp: write_out_def)

text \<open>The header is taken off, and nothing else.\<close>

lemma check_header_Inr:
  assumes "check_header file = Inr bs"
  shows "\<exists>h. length h = MINIX_HEADER \<and> file = Some (h @ bs)"
  using assms
  by (auto simp: check_header_def Let_def on_ok_Inr_iff MINIX_HEADER_def split: option.splits
      intro!: exI [of _ "take 32 (the file)"])

text \<open>The copying loops append what they copy.\<close>

lemma copy_setup_Inr:
  "copy_setup limit out i bs = Inr r \<Longrightarrow> r = (i + length bs, out @ bs)"
proof (induction limit out i bs rule: copy_setup.induct)
  case (1 limit out i bs)
  show ?case
  proof (cases "bs = []")
    case True
    then show ?thesis using "1.prems" by (simp add: copy_setup.simps BUFSIZE_def)
  next
    case False
    then have c: "0 < length (take BUFSIZE bs)" by (simp add: BUFSIZE_def)
    then have "copy_setup limit (out @ take BUFSIZE bs) (i + length (take BUFSIZE bs)) (drop (length (take BUFSIZE bs)) bs) = Inr r"
      using "1.prems" by (subst (asm) copy_setup.simps) (auto simp: Let_def on_ok_Inr_iff write_out_Inr)
    from "1.IH" [OF refl refl c this] show ?thesis by (simp add: min_def)
  qed
qed

lemma pad_setup_Inr:
  "pad_setup limit out i e = Inr out' \<Longrightarrow> out' = out @ replicate (e - i) 0"
proof (induction limit out i e rule: pad_setup.induct)
  case (1 limit out i e)
  let ?c = "if e - i > BUFSIZE then BUFSIZE else e - i"
  show ?case
  proof (cases "i < e")
    case True
    then have "pad_setup limit (out @ replicate ?c 0) (i + ?c) e = Inr out'"
      using "1.prems" by (subst (asm) pad_setup.simps) (auto simp: Let_def on_ok_Inr_iff write_out_Inr split del: if_split)
    from "1.IH" [OF True refl this] have "out' = out @ replicate (?c + (e - (i + ?c))) 0" by (simp add: replicate_add)
    moreover have "?c + (e - (i + ?c)) = e - i" by auto
    ultimately show ?thesis by simp
  next
    case False
    then show ?thesis using "1.prems" by (simp add: pad_setup.simps)
  qed
qed

lemma copy_system_Inr:
  "copy_system limit out sz bs = Inr out' \<Longrightarrow> sz \<le> length bs \<and> out' = out @ take sz bs"
proof (induction limit out sz bs rule: copy_system.induct)
  case (1 limit out sz bs)
  let ?l = "if sz > BUFSIZE then BUFSIZE else sz"
  show ?case
  proof (cases "sz > 0")
    case True
    then have l: "length (take ?l bs) = ?l" and "copy_system limit (out @ take ?l bs) (sz - ?l) (drop ?l bs) = Inr out'"
      using "1.prems" unfolding copy_system.simps [of limit out sz bs]
      by (auto simp: Let_def on_ok_Inr_iff write_out_Inr split del: if_split)
    from "1.IH" [OF True refl refl this(2)] l
    have "sz - ?l \<le> length (drop ?l bs)" "out' = out @ take ?l bs @ take (sz - ?l) (drop ?l bs)"
      by (simp_all split del: if_split)
    moreover have "take ?l bs @ take (sz - ?l) (drop ?l bs) = take sz bs"
      using take_add [of ?l "sz - ?l" bs] by simp
    moreover have "?l \<le> length bs" "?l \<le> sz" using l by (simp_all add: min_def split: if_splits)
    ultimately show ?thesis by (simp split del: if_split)
  next
    case False
    then show ?thesis using "1.prems" by (simp add: copy_system.simps)
  qed
qed

text \<open>With room enough they succeed.\<close>

lemma copy_setup_ok:
  "length out + length bs \<le> limit \<Longrightarrow> copy_setup limit out i bs = Inr (i + length bs, out @ bs)"
proof (induction limit out i bs rule: copy_setup.induct)
  case (1 limit out i bs)
  then show ?case
    by (cases "bs = []"; subst copy_setup.simps) (auto simp: Let_def write_out_def BUFSIZE_def min_def)
qed

lemma pad_setup_ok:
  "length out + (e - i) \<le> limit \<Longrightarrow> pad_setup limit out i e = Inr (out @ replicate (e - i) 0)"
proof (induction limit out i e rule: pad_setup.induct)
  case (1 limit out i e)
  then show ?case
    by (subst pad_setup.simps) (auto simp: Let_def write_out_def simp flip: replicate_add)
qed

lemma copy_system_ok:
  "sz = length bs \<Longrightarrow> length out + length bs \<le> limit \<Longrightarrow> copy_system limit out sz bs = Inr (out @ bs)"
proof (induction limit out sz bs rule: copy_system.induct)
  case (1 limit out sz bs)
  then show ?case
    by (subst copy_system.simps) (auto simp: Let_def write_out_def die_unless_def)
qed

text \<open>The boot sector that is written.\<close>

lemma boot_sector_Inr:
  assumes "boot_sector root file = Inr boot"
  shows "length boot = 512" "boot ! 508 = snd root" "boot ! 509 = fst root" "boot ! 510 = 0x55" "boot ! 511 = 0xAA"
proof -
  obtain bs where bs: "length (take BUFSIZE bs) = 512" "short_at (take BUFSIZE bs) 510 = 0xAA55"
    "boot = take 512 ((take BUFSIZE bs)[508 := snd root, 509 := fst root])"
    using assms by (auto simp: boot_sector_def Let_def on_ok_Inr_iff)
  then show "length boot = 512" "boot ! 508 = snd root" "boot ! 509 = fst root" by (simp_all add: nth_list_update)
  have flag: "ucast x OR push_bit 8 (ucast y) = (0xAA55 :: 16 word) \<longleftrightarrow> x = 0x55 \<and> y = 0xAA" for x y :: u8
  proof
    let ?w = "ucast x OR push_bit 8 (ucast y) :: 16 word"
    have "x = ucast ?w" "y = ucast (drop_bit 8 ?w)"
      by (rule bit_word_eqI; auto simp: bit_simps dest: bit_imp_le_length)+
    note parts = this
    show "x = 0x55 \<and> y = 0xAA" if w: "?w = 0xAA55" using parts [unfolded w] by simp
    show "x = 0x55 \<and> y = 0xAA \<Longrightarrow> ?w = 0xAA55" by simp
  qed
  show "boot ! 510 = 0x55" "boot ! 511 = 0xAA"
    using bs flag by (simp_all add: short_at_def nth_list_update)
qed

lemma put_setup_Inr:
  assumes "put_setup limit out file = Inr (n, out')"
  shows "\<exists>h code. file = Some (h @ code) \<and> length h = MINIX_HEADER \<and> n = setup_size (length code) \<and>
    out' = out @ code @ replicate (unat n * 512 - length code) 0"
proof -
  obtain bs i out1 where s: "check_header file = Inr bs" "copy_setup limit out 0 bs = Inr (i, out1)"
    "pad_setup limit out1 i (unat n * 512) = Inr out'" "n = setup_size i"
    using assms by (auto simp: put_setup_def on_ok_Inr_iff)
  then show ?thesis
    using check_header_Inr [OF s(1)] copy_setup_Inr [OF s(2)] pad_setup_Inr [OF s(3)] by auto
qed

lemma put_system_Inr:
  assumes "put_system limit out file = Inr (p, out')"
  shows "\<exists>sys. file = Some sys \<and> p = (length sys + 15) div 16 \<and> p \<le> SYS_SIZE \<and> out' = out @ sys"
  using assms
  by (auto simp: put_system_def on_ok_Inr_iff Let_def split: option.splits dest!: copy_system_Inr)

lemma build_Inr:
  assumes "build stat inp = Inr img" and "bi_seekable inp"
  shows "\<exists>root a boot n p out out'. bi_args inp = Some a \<and> root_device stat a = Inr root \<and> boot_sector root (bi_boot inp) = Inr boot \<and>
    put_setup (bi_limit inp) boot (bi_setup inp) = Inr (n, out) \<and>
    put_system (bi_limit inp) out (bi_system inp) = Inr (p, out') \<and>
    img = out'[497 := n, 500 := of_nat (p mod 256), 501 := of_nat (p div 256 mod 256)]"
  using assms by (fastforce simp: build_def Let_def on_ok_Inr_iff write_out_Inr split: option.splits)

text \<open>The number of sectors of the setup code holds for setup code up to 255 sectors.\<close>

lemma setup_size_fits:
  assumes "n \<le> 255 * 512"
  shows "n \<le> unat (setup_size n) * 512" "4 \<le> unat (setup_size n)"
proof -
  let ?s = "(n + 511) div 512"
  have "n + 511 < ?s * 512 + 512" using div_mult_mod_eq [of "n + 511" 512] mod_less_divisor [of 512 "n + 511"] by linarith
  moreover have "?s \<le> 255" using div_le_mono [of "n + 511" "255 * 512 + 511" 512] assms by simp
  ultimately have s: "n \<le> ?s * 512" "?s \<le> 255" by linarith+
  then have "unat (of_nat ?s :: u8) = ?s" by (simp add: unat_of_nat)
  then show "n \<le> unat (setup_size n) * 512" "4 \<le> unat (setup_size n)"
    using s(1) by (auto simp: setup_size_def SETUP_SECTS_def Let_def word_less_nat_alt)
qed

text \<open>C40: An image the build tool writes can be taken apart by the numbers in its boot sector: byte 497 is
  the number of sectors behind the boot sector that begin with the setup code, the system follows
  them to the end, bytes 500 and 501 give its length in units of 16 bytes, rounded up; the boot
  sector is 512 bytes, ends in the boot flag and names the root device.\<close>

theorem build_image_layout:
  assumes "build stat inp = Inr img" and "bi_seekable inp" and "bi_setup inp = Some (h @ code)"
    and "length h = MINIX_HEADER" and "length code \<le> 255 * 512" and "bi_system inp = Some sys"
  defines "sectors \<equiv> unat (img ! 497)"
  shows "take (length code) (drop 512 img) = code \<and> length code \<le> sectors * 512 \<and>
    drop (512 + sectors * 512) img = sys \<and>
    unat (img ! 500) + 256 * unat (img ! 501) = (length sys + 15) div 16 \<and>
    img ! 510 = 0x55 \<and> img ! 511 = 0xAA \<and> (\<exists>a. bi_args inp = Some a \<and> root_device stat a = Inr (img ! 509, img ! 508))"
proof -
  obtain root a boot n p out out' where r: "bi_args inp = Some a" "root_device stat a = Inr root" and b: "boot_sector root (bi_boot inp) = Inr boot"
    "put_setup (bi_limit inp) boot (bi_setup inp) = Inr (n, out)"
    "put_system (bi_limit inp) out (bi_system inp) = Inr (p, out')"
    "img = out'[497 := n, 500 := of_nat (p mod 256), 501 := of_nat (p div 256 mod 256)]"
    using build_Inr [OF assms(1,2)] by blast
  have n: "n = setup_size (length code)" and out: "out = boot @ code @ replicate (unat n * 512 - length code) 0"
    using put_setup_Inr [OF b(2)] assms(3,4) by auto
  have p: "p = (length sys + 15) div 16" "p \<le> SYS_SIZE" "out' = out @ sys"
    using put_system_Inr [OF b(3)] assms(6) by auto
  note fits = setup_size_fits [OF assms(5), folded n]
  have boot: "length boot = 512" "boot ! 508 = snd root" "boot ! 509 = fst root" "boot ! 510 = 0x55" "boot ! 511 = 0xAA" using boot_sector_Inr [OF b(1)] by simp_all
  have img: "img = boot[497 := n, 500 := of_nat (p mod 256), 501 := of_nat (p div 256 mod 256)] @
      code @ replicate (unat n * 512 - length code) 0 @ sys"
    using b(4) boot(1) by (simp add: out p(3) list_update_append1)
  have "p \<le> 0x7F00" using p(2) by (simp add: SYS_SIZE_def DEF_SYSSIZE_def)
  then have "unat (of_nat (p mod 256) :: u8) + 256 * unat (of_nat (p div 256 mod 256) :: u8) = p"
    by (simp add: unat_of_nat)
  then show ?thesis
    using boot fits r by (simp add: img sectors_def nth_append nth_list_update p(1))
qed

text \<open>A small image: three bytes of setup code and three of system.\<close>

definition minix_header :: "u8 list" where
  "minix_header = [1, 3, 0x10, 4, 32] @ replicate 27 0"

definition sample_build :: build_input where
  "sample_build = \<lparr>bi_args = Some FLOPPY, bi_boot = Some (minix_header @ replicate 510 0 @ [0x55, 0xAA]),
     bi_setup = Some (minix_header @ [1, 2, 3]), bi_system = Some [7, 8, 9], bi_limit = 5000, bi_seekable = True\<rparr>"

lemma check_minix_header: "check_header (Some (minix_header @ bs)) = Inr bs"
proof -
  have "take MINIX_HEADER (minix_header @ bs) = minix_header" "length minix_header = MINIX_HEADER"
    by (simp_all add: minix_header_def MINIX_HEADER_def)
  moreover have "map (long_at minix_header) [0, 1, 3, 4, 5, 7] = [0x04100301, 32, 0, 0, 0, 0]" by code_simp
  ultimately show ?thesis by (simp add: check_header_def Let_def die_unless_def MINIX_HEADER_def)
qed

lemma build_image_layout_witness:
  "\<exists>img. build (\<lambda>_. None) sample_build = Inr img \<and>
     take (length [1, 2, 3 :: u8]) (drop 512 img) = [1, 2, 3] \<and> length [1, 2, 3 :: u8] \<le> unat (img ! 497) * 512 \<and>
     drop (512 + unat (img ! 497) * 512) img = [7, 8, 9] \<and>
     unat (img ! 500) + 256 * unat (img ! 501) = (length [7, 8, 9 :: u8] + 15) div 16 \<and>
     img ! 510 = 0x55 \<and> img ! 511 = 0xAA \<and>
     (\<exists>a. bi_args sample_build = Some a \<and> root_device (\<lambda>_. None) a = Inr (img ! 509, img ! 508))"
proof -
  have "\<exists>boot. boot_sector (0, 0) (bi_boot sample_build) = Inr boot \<and> length boot = 512"
    by (simp add: boot_sector_def sample_build_def check_minix_header die_unless_def BUFSIZE_def short_at_def nth_append)
  then obtain boot where boot: "boot_sector (0, 0) (bi_boot sample_build) = Inr boot" "length boot = 512" by blast
  have "\<exists>img. build (\<lambda>_. None) sample_build = Inr img"
    using boot by (simp add: build_def put_setup_def put_system_def sample_build_def root_device_def write_out_def check_minix_header copy_setup_ok
        pad_setup_ok copy_system_ok setup_size_def SETUP_SECTS_def die_unless_def SYS_SIZE_def DEF_SYSSIZE_def Let_def)
  then obtain img where img: "build (\<lambda>_. None) sample_build = Inr img" by blast
  have "bi_seekable sample_build" "bi_setup sample_build = Some (minix_header @ [1, 2, 3])"
    "length minix_header = MINIX_HEADER" "bi_system sample_build = Some [7, 8, 9]"
    by (simp_all add: sample_build_def minix_header_def MINIX_HEADER_def)
  from build_image_layout [OF img this(1-3) _ this(4)] img show ?thesis by auto
qed

end
