(* ===== verification/Diagnostics.thy ===== *)
theory Diagnostics
  imports Context_Props Mem_Contract
begin

text \<open>
  What the kernel prints about itself: the register dump of \<open>trap\<close> (c/evec.c) with the frame the
  entry stubs of c/xint.s and c/intr.S build for it, and the listings of a queue (c/pcb.c) and of the free list (c/mem.c).
  A call of \<open>kprintf\<close> is its format with its arguments. \<open>DEBUG\<close> is empty, as in the build without \<open>TESTING\<close>.
\<close>

datatype kprintf_arg = Num u32 | Text string

type_synonym kprintf_call = "string \<times> kprintf_arg list"

definition with_newline :: "string \<Rightarrow> string" where
  "with_newline s = s @ [CHR 0x0A]"

subsection \<open>Exceptions\<close>

definition inames :: "string list" where
  "inames = [''divided by zero'', ''debug exception'', ''NMI interrupt'', ''breakpoint'', ''overflow'',
     ''bounds check failed'', ''invalid opcode'', ''coprocessor not available'', ''double fault'',
     ''coprocessor segment overrun'', ''invalid TSS'', ''segment not present'', ''stack fault'',
     ''general protection violation'', ''page fault'', ''coprocessor error'']"

definition ELEMENTS_ON_STACK :: u32 where "ELEMENTS_ON_STACK = 14"

definition has_error_code :: "int \<Rightarrow> bool" where
  "has_error_code inum \<longleftrightarrow> inum = 8 \<or> (10 \<le> inum \<and> inum \<le> 14)"

text \<open>One line for each register, down the stack.\<close>

fun dump_registers :: "bytes \<Rightarrow> string list \<Rightarrow> u32 \<Rightarrow> kprintf_call list" where
  "dump_registers m [] sp = []"
| "dump_registers m (name # names) sp =
     (with_newline (name @ '' %08X (%u)''), [Num (load32 m sp), Num (load32 m sp)]) # dump_registers m names (sp - 4)"

text \<open>\<open>trap\<close> with frame pointer \<open>fp\<close>, its local variable \<open>sp\<close> at \<open>addr_sp\<close>: interrupts are turned off,
  the calls are made and the kernel halts. A negative number would read in front of \<open>inames\<close>.\<close>

definition trap_calls :: "bytes \<Rightarrow> u32 \<Rightarrow> u32 \<Rightarrow> kprintf_call list option" where
  "trap_calls m fp addr_sp = (
     let inum = sint (load32 m (fp + 8));
         sp = fp + 4 * ELEMENTS_ON_STACK;
         top = [(with_newline ''Address of sp %x value of sp %x'', [Num addr_sp, Num sp]),
                (''eflags %X '', [Num (load32 m sp)]),
                (''CS: %X '', [Num (load32 m (sp - 4))]),
                (with_newline ''eip %X'', [Num (load32 m (sp - 8))])];
         sp = sp - 12;
         err = (if has_error_code inum
                then [(with_newline ''error code %08x (%u)'', [Num (load32 m sp), Num (load32 m sp)])] else []);
         sp = (if has_error_code inum then sp - 4 else sp);
         sp = sp - 4
     in if inum < 0 then None
        else Some ((with_newline ''trap!'', []) #
          (if inum < 16 then (with_newline ''exception %d (%s)'', [Num (word_of_int inum), Text (inames ! nat inum)])
           else (with_newline ''exception %d'', [Num (word_of_int inum)])) #
          top @ err @ (with_newline ''register dump:'', []) #
          dump_registers m [''eax'', ''ecx'', ''edx'', ''ebx'', ''esp'', ''ebp'', ''esi'', ''edi''] sp @
          [([CHR 0x0A] @ with_newline ''Halting.....'', [])]))"

definition trap :: "bytes \<Rightarrow> u32 \<Rightarrow> u32 \<Rightarrow> io_state \<Rightarrow> (kprintf_call list \<times> io_state) option" where
  "trap m fp addr_sp s = map_option (\<lambda>cs. (cs, disable_interrupts s)) (trap_calls m fp addr_sp)"

text \<open>What is on the stack then: the processor's words, with an error code for some exceptions, those of
  the stub, and the call from \<open>Xtrap\<close> with the function's own frame pointer. The stub makes \<open>ebp\<close> its frame.\<close>

definition pushal :: "user_regs \<Rightarrow> u32 \<times> bytes \<Rightarrow> u32 \<times> bytes" where
  "pushal r = (\<lambda>(sp, m). push32 (r_edi r) (push32 (r_esi r) (push32 (r_ebp r) (push32 sp (push32 (r_ebx r)
     (push32 (r_edx r) (push32 (r_ecx r) (push32 (r_eax r) (sp, m)))))))))"

definition exception_entry :: "u32 \<Rightarrow> u32 option \<Rightarrow> u32 \<Rightarrow> user_regs \<Rightarrow> bytes \<Rightarrow> u32 \<times> bytes" where
  "exception_entry num err ret_addr r m = (
     let st = push32 (r_eip r) (push32 (r_cs r) (push32 (r_eflags r) (r_sp r, m)));
         st = (case err of None \<Rightarrow> st | Some e \<Rightarrow> push32 e st);
         st = push32 (r_ebp r) st;
         frame = fst st;
         st = push32 num (pushal (r\<lparr>r_ebp := frame\<rparr>) st)
     in push32 frame (push32 ret_addr st))"

definition dump_line :: "string \<Rightarrow> u32 \<Rightarrow> kprintf_call" where
  "dump_line name v = (with_newline (name @ '' %08X (%u)''), [Num v, Num v])"

lemmas exception_defs = exception_entry_def pushal_def push32_def Let_def

lemma exception_words:
  assumes "exception_entry num err ret_addr r m = (fp, m')" and "k = (if err = None then 0 else 4)"
  shows "fp = r_sp r - 60 - k" "load32 m' (fp + 8) = num" "load32 m' (fp + 12) = r_edi r" "load32 m' (fp + 16) = r_esi r"
    "load32 m' (fp + 20) = fp + 44" "load32 m' (fp + 24) = fp + 44" "load32 m' (fp + 28) = r_ebx r"
    "load32 m' (fp + 32) = r_edx r" "load32 m' (fp + 36) = r_ecx r" "load32 m' (fp + 40) = r_eax r"
    "load32 m' (fp + 44) = r_ebp r" "load32 m' (fp + 48 + k) = r_eip r" "load32 m' (fp + 52 + k) = r_cs r"
    "load32 m' (fp + 56 + k) = r_eflags r" "err = Some e \<Longrightarrow> load32 m' (fp + 48) = e"
proof -
  have "fst (exception_entry num err ret_addr r m) = r_sp r - 60 - k"
    using assms(2) by (cases err) (simp_all add: exception_defs)
  then show fp: "fp = r_sp r - 60 - k" by (simp add: assms(1))
  have m': "m' = snd (exception_entry num err ret_addr r m)" by (simp add: assms(1))
  show "load32 m' (fp + 8) = num" "load32 m' (fp + 12) = r_edi r" "load32 m' (fp + 16) = r_esi r"
    "load32 m' (fp + 20) = fp + 44" "load32 m' (fp + 24) = fp + 44" "load32 m' (fp + 28) = r_ebx r"
    "load32 m' (fp + 32) = r_edx r" "load32 m' (fp + 36) = r_ecx r" "load32 m' (fp + 40) = r_eax r"
    "load32 m' (fp + 44) = r_ebp r" "load32 m' (fp + 48 + k) = r_eip r" "load32 m' (fp + 52 + k) = r_cs r"
    "load32 m' (fp + 56 + k) = r_eflags r" "err = Some e \<Longrightarrow> load32 m' (fp + 48) = e"
    unfolding m' fp using assms(2)
    by (cases err; simp add: exception_defs load32_store32_apart apart_def)+
qed

lemma small_number:
  assumes "unat (w :: u32) < 16"
  shows "0 \<le> sint w" "sint w < 16" "nat (sint w) = unat w" "word_of_int (sint w) = w"
proof -
  have u: "uint w = int (unat w)" by simp
  then have hi: "uint w < 16" using assms by linarith
  have "- (2 ^ 31) \<le> uint w" by (rule order_trans [OF _ uint_ge_0]) simp
  moreover have "uint w < 2 ^ 31" using hi by simp
  ultimately have s: "sint w = uint w" by (simp add: sint_uint signed_take_bit_int_eq_self)
  show "0 \<le> sint w" "sint w < 16" "nat (sint w) = unat w" "word_of_int (sint w) = w"
    using hi by (simp_all add: s)
qed

text \<open>The dump in terms of the words of the frame.\<close>

definition dump_of :: "(string \<times> u32) list \<Rightarrow> kprintf_call list" where
  "dump_of = map (\<lambda>(name, v). (with_newline (name @ '' %08X (%u)''), [Num v, Num v]))"

definition trap_report ::
  "u32 \<Rightarrow> u32 \<Rightarrow> u32 \<Rightarrow> u32 \<Rightarrow> u32 \<Rightarrow> u32 \<Rightarrow> u32 option \<Rightarrow> (string \<times> u32) list \<Rightarrow> kprintf_call list" where
  "trap_report num a sp flags cs ip err regs =
     [(with_newline ''trap!'', []), (with_newline ''exception %d (%s)'', [Num num, Text (inames ! unat num)]),
      (with_newline ''Address of sp %x value of sp %x'', [Num a, Num sp]),
      (''eflags %X '', [Num flags]), (''CS: %X '', [Num cs]), (with_newline ''eip %X'', [Num ip])] @
     (case err of None \<Rightarrow> [] | Some e \<Rightarrow> [(with_newline ''error code %08x (%u)'', [Num e, Num e])]) @
     [(with_newline ''register dump:'', [])] @ dump_of regs @ [([CHR 0x0A] @ with_newline ''Halting.....'', [])]"

text \<open>Without an error code the dump shows the interrupted registers, except that \<open>esp\<close> and \<open>ebp\<close> are
  those of the stub.\<close>

theorem trap_shows_registers:
  assumes "unat num < 16" and "\<not> has_error_code (sint num)" and "exception_entry num None ret_addr r m = (fp, m')"
  shows "trap_calls m' fp a = Some (trap_report num a (fp + 56) (r_eflags r) (r_cs r) (r_eip r) None
      [(''eax'', r_eax r), (''ecx'', r_ecx r), (''edx'', r_edx r), (''ebx'', r_ebx r), (''esp'', fp + 44),
       (''ebp'', fp + 44), (''esi'', r_esi r), (''edi'', r_edi r)])"
proof -
  note w = exception_words [OF assms(3) refl, simplified]
  note num = small_number [OF assms(1)]
  show ?thesis
    using assms(2) unfolding trap_calls_def Let_def w(2) trap_report_def dump_of_def ELEMENTS_ON_STACK_def
    by (simp add: num num(1) [THEN leD] w(3-) add.commute [of _ fp])
qed

text \<open>With one it is a word off: every line shows what belongs to another.\<close>

theorem trap_misreads_error_frame:
  assumes "unat num < 16" and "has_error_code (sint num)" and "exception_entry num (Some e) ret_addr r m = (fp, m')"
  shows "trap_calls m' fp a = Some (trap_report num a (fp + 56) (r_cs r) (r_eip r) e (Some (r_ebp r))
      [(''eax'', r_ecx r), (''ecx'', r_edx r), (''edx'', r_ebx r), (''ebx'', fp + 44), (''esp'', fp + 44),
       (''ebp'', r_esi r), (''esi'', r_edi r), (''edi'', num)])"
proof -
  note w = exception_words [OF assms(3) refl, simplified]
  note num = small_number [OF assms(1)]
  have above: "load32 m' (fp + 52) = r_eip r" "load32 m' (fp + 56) = r_cs r"
    using exception_words(12,13) [OF assms(3) refl] by (simp_all add: add.assoc)
  show ?thesis
    using assms(2) unfolding trap_calls_def Let_def w(2) trap_report_def dump_of_def ELEMENTS_ON_STACK_def
    by (simp add: num num(1) [THEN leD] w(2-) above add.commute [of _ fp])
qed

subsection \<open>Queues and the free list\<close>

partial_function (option) print_queue_loop :: "proc_map \<Rightarrow> pcbref option \<Rightarrow> kprintf_call list option" where
  "print_queue_loop ps ptr =
     (case ptr of
        None \<Rightarrow> Some []
      | Some p \<Rightarrow> do {
          cs \<leftarrow> print_queue_loop ps (next_proc (ps p));
          Some ((''{PID: %d, state: %d}'', [Num (word_of_int (pid (ps p))), Num (word_of_int (proc_state_num (curr_state (ps p))))]) # cs)
        })"

definition print_pcb_queue :: "proc_state \<Rightarrow> kernel \<Rightarrow> kprintf_call list option" where
  "print_pcb_queue queue s = do {
     ASSERT (queue \<noteq> PROC_STATE_RUNNING);
     ASSERT (queue \<noteq> PROC_STATE_BLOCKED);
     cs \<leftarrow> print_queue_loop (procs s) (queue_heads s queue);
     Some (cs @ [([CHR 0x0A], [])])
   }"

definition kmem_dump_block :: "mem_state \<Rightarrow> u32 \<Rightarrow> kprintf_call list" where
  "kmem_dump_block s ptr = []"

partial_function (option) dump_free_loop :: "mem_state \<Rightarrow> u32 \<Rightarrow> kprintf_call list option" where
  "dump_free_loop s ptr =
     (if ptr = 0 then Some []
      else do {
        let cs = kmem_dump_block s ptr;
        cs' \<leftarrow> dump_free_loop s (mh_next (headers s ptr));
        Some (cs @ cs')
      })"

definition kmem_dump_free_list :: "mem_state \<Rightarrow> kprintf_call list option" where
  "kmem_dump_free_list s = dump_free_loop s (g_free_list s)"

text \<open>A queue is listed from its head to its tail; the loops end because the lists do.\<close>

definition queue_line :: "pcb \<Rightarrow> kprintf_call" where
  "queue_line c = (''{PID: %d, state: %d}'', [Num (word_of_int (pid c)), Num (word_of_int (proc_state_num (curr_state c)))])"

lemma print_queue_loop_links:
  "links Some (\<lambda>p. prev_proc (ps p)) (\<lambda>p. next_proc (ps p)) pv xs None \<Longrightarrow>
   print_queue_loop ps (headp Some xs None) = Some (map (\<lambda>p. queue_line (ps p)) xs)"
proof (induction xs arbitrary: pv)
  case Nil
  then show ?case by (simp add: print_queue_loop.simps [of ps None])
next
  case (Cons p xs)
  from Cons.prems have "links Some (\<lambda>p. prev_proc (ps p)) (\<lambda>p. next_proc (ps p)) (Some p) xs None"
    and n: "next_proc (ps p) = headp Some xs None" by simp_all
  note rest = Cons.IH [OF this(1)]
  show ?case by (simp add: print_queue_loop.simps [of ps "Some p"] n rest queue_line_def)
qed

theorem print_pcb_queue_lists:
  assumes "qinv s W qs" and "has_proc_queue st"
  shows "print_pcb_queue st s =
    Some (map (\<lambda>p. (''{PID: %d, state: %d}'', [Num (word_of_int (pid (procs s p))), Num (word_of_int (proc_state_num st))]))
      (qs (state_place st)) @ [([CHR 0x0A], [])])"
proof -
  note f = state_place_facts [OF assms(2)]
  have q: "queue_on (queue_heads s st, queue_tails s st, procs s) (qs (state_place st))"
    using qinvD(1) [OF assms(1) f(1)] f by (simp add: chain_at_queue_on)
  then have "print_queue_loop (procs s) (queue_heads s st) = Some (map (\<lambda>p. queue_line (procs s p)) (qs (state_place st)))"
    using print_queue_loop_links [of "procs s" None "qs (state_place st)"] by (simp add: queue_on_def)
  moreover have "curr_state (procs s p) = st" if "p \<in> set (qs (state_place st))" for p
    using queued_state [OF assms that] .
  ultimately show ?thesis
    using assms(2) by (auto simp: print_pcb_queue_def ASSERT_def queue_line_def has_proc_queue_cases)
qed

lemma dump_free_loop_chain:
  "chain s pv xs 0 \<Longrightarrow> 0 \<notin> set xs \<Longrightarrow> dump_free_loop s (headp (\<lambda>a. a) xs 0) = Some (concat (map (kmem_dump_block s) xs))"
proof (induction xs arbitrary: pv)
  case Nil
  then show ?case by (simp add: dump_free_loop.simps [of s 0])
next
  case (Cons a xs)
  from Cons.prems have n: "mh_next (headers s a) = headp (\<lambda>a. a) xs 0" and "chain s a xs 0" and "0 \<notin> set xs" "a \<noteq> 0"
    by auto
  note rest = Cons.IH [OF this(2,3)]
  show ?case using \<open>a \<noteq> 0\<close> by (simp add: dump_free_loop.simps [of s a] n rest)
qed

lemma kmem_dump_free_list_returns:
  "heap_inv s xs A \<Longrightarrow> kmem_dump_free_list s = Some (concat (map (kmem_dump_block s) xs))"
  using dump_free_loop_chain [of s 0 xs] by (simp add: kmem_dump_free_list_def heap_inv_def free_list_def)

end
