(* ===== verification/Trampoline.thy ===== *)
theory Trampoline
  imports User
begin

text \<open>
  The code the kernel starts in user mode: \<open>sigtramp\<close> of c/signal.c, which the context of a delivered
  signal resumes in, and \<open>idleproc\<close> of c/create.c. The handler is any program.
\<close>

text \<open>A call of \<open>p\<close> followed by \<open>q\<close>.\<close>

primrec u_then :: "uprog \<Rightarrow> uprog \<Rightarrow> uprog" where
  "u_then Return q = q"
| "u_then Again q = Again"
| "u_then (Do a k) q = Do a (\<lambda>r m. map_option (map_prod id (\<lambda>p. u_then p q)) (k r m))"

definition sigtramp :: "(u32 \<Rightarrow> uprog) \<Rightarrow> u32 \<Rightarrow> uprog" where
  "sigtramp handler cntx = u_then (handler cntx) (Do (Sys (syssigreturn cntx)) (\<lambda>_ m. Some (m, Return)))"

text \<open>One pass of its loop is a halt instruction, which no other program sees.\<close>

definition idleproc :: uprog where
  "idleproc = Again"

text \<open>\<open>runs p as q\<close>: for some results and memories, \<open>p\<close> makes the calls \<open>as\<close> and has \<open>q\<close> left.\<close>

inductive runs :: "uprog \<Rightarrow> action list \<Rightarrow> uprog \<Rightarrow> bool" where
  runs_none: "runs p [] p"
| runs_call: "k r m = Some (m', p) \<Longrightarrow> runs p as q \<Longrightarrow> runs (Do a k) (a # as) q"

inductive_cases runs_DoE: "runs (Do a k) as q"
inductive_cases runs_ReturnE: "runs Return as q"
inductive_cases runs_AgainE: "runs Again as q"

lemma runs_u_then:
  assumes "runs p as Return" and "runs q bs r"
  shows "runs (u_then p q) (as @ bs) r"
  using assms(1)
proof (induction p as "Return" rule: runs.induct)
  case runs_none
  then show ?case using assms(2) by simp
next
  case (runs_call k r' m m' p as a)
  then show ?case by (auto intro!: runs.runs_call)
qed

text \<open>A run of the trampoline is one of the handler, or one that ends with the call that gives the context
  back: a handler that returns always gets there, with the context it was given.\<close>

lemma runs_u_then_elim:
  assumes "runs (u_then p q) as r"
  shows "(\<exists>p'. runs p as p' \<and> r = u_then p' q) \<or> (\<exists>bs cs. as = bs @ cs \<and> runs p bs Return \<and> runs q cs r)"
  using assms
proof (induction as arbitrary: p)
  case Nil
  then show ?case by (auto elim: runs.cases intro: runs_none)
next
  case (Cons a as)
  show ?case
  proof (cases p)
    case Return
    then show ?thesis using Cons.prems runs_none by fastforce
  next
    case Again
    then show ?thesis using Cons.prems by (auto elim: runs_AgainE)
  next
    case (Do b k)
    with Cons.prems obtain x m m' p' where b: "a = b" "k x m = Some (m', p')" "runs (u_then p' q) as r"
      by (auto elim!: runs_DoE)
    show ?thesis
      using Cons.IH [OF b(3)] Do b(1,2) by (metis append_Cons runs_call)
  qed
qed

theorem sigtramp_returns_context:
  assumes "runs (sigtramp handler cntx) as r"
  shows "(\<exists>p. runs (handler cntx) as p) \<or>
    (\<exists>bs. runs (handler cntx) bs Return \<and> as = bs @ [Sys (syssigreturn cntx)] \<and> r = Return)"
proof -
  let ?q = "Do (Sys (syssigreturn cntx)) (\<lambda>_ m. Some (m, Return))"
  consider p where "runs (handler cntx) as p"
    | bs cs where "as = bs @ cs" "runs (handler cntx) bs Return" "runs ?q cs r"
    using runs_u_then_elim assms unfolding sigtramp_def by blast
  then show ?thesis
  proof cases
    case 2
    then show ?thesis by (auto elim!: runs_DoE runs_ReturnE)
  qed blast
qed

theorem sigtramp_completes:
  "runs (handler cntx) bs Return \<Longrightarrow> runs (sigtramp handler cntx) (bs @ [Sys (syssigreturn cntx)]) Return"
  unfolding sigtramp_def by (rule runs_u_then) (auto intro: runs_call runs_none)

end
