(* ===== verification/Float_Conv.thy ===== *)
theory Float_Conv
  imports Libc_Props Complex_Main
begin

text \<open>
  lib/libxc/ecvt.c and atof.c: floating-point numbers to and from decimal text. The arithmetic is an
  argument: a \<open>machine_double\<close> has the operations of \<open>double\<close> that the code uses, with \<open>modf\<close> and
  \<open>ldexp\<close> of the C library, so what holds for every argument holds whatever the rounding. \<open>exact\<close> is the
  arithmetic without rounding: there \<open>atof\<close> gives the value of a decimal fraction as long as the table of
  powers of five reaches, and \<open>ecvt\<close> writes the digits of a natural number. For every arithmetic \<open>ecvt\<close> stays in
  its buffer once the integer part fits.
\<close>

record 'd machine_double =
  d_lit :: "rat \<Rightarrow> 'd"
  d_of_int :: "int \<Rightarrow> 'd"
  d_add :: "'d \<Rightarrow> 'd \<Rightarrow> 'd"
  d_mul :: "'d \<Rightarrow> 'd \<Rightarrow> 'd"
  d_div :: "'d \<Rightarrow> 'd \<Rightarrow> 'd"
  d_neg :: "'d \<Rightarrow> 'd"
  d_less :: "'d \<Rightarrow> 'd \<Rightarrow> bool"
  d_eq :: "'d \<Rightarrow> 'd \<Rightarrow> bool"
  d_modf :: "'d \<Rightarrow> 'd \<times> 'd"
  d_to_int :: "'d \<Rightarrow> int"
  d_ldexp :: "'d \<Rightarrow> int \<Rightarrow> 'd"

definition rat_trunc :: "rat \<Rightarrow> int" where
  "rat_trunc x = (if x < 0 then - \<lfloor>- x\<rfloor> else \<lfloor>x\<rfloor>)"

definition exact :: "rat machine_double" where
  "exact = \<lparr>d_lit = id, d_of_int = of_int, d_add = (+), d_mul = (*), d_div = (/), d_neg = uminus, d_less = (<), d_eq = (=),
     d_modf = (\<lambda>x. (x - of_int (rat_trunc x), of_int (rat_trunc x))), d_to_int = rat_trunc,
     d_ldexp = (\<lambda>x e. if 0 \<le> e then x * 2 ^ nat e else x / 2 ^ nat (- e))\<rparr>"

subsection \<open>To text (ecvt.c)\<close>

text \<open>The static buffer by index; an access outside it is \<open>None\<close>.\<close>

definition NDIG :: int where "NDIG = 80"

type_synonym cvt_buf = "int \<Rightarrow> u8"

definition buf_put :: "int \<Rightarrow> u8 \<Rightarrow> cvt_buf \<Rightarrow> cvt_buf option" where
  "buf_put i c buf = (if 0 \<le> i \<and> i < NDIG then Some (buf(i := c)) else None)"

definition digit_char :: "int \<Rightarrow> u8" where
  "digit_char n = word_of_int (n + 0x30)"

text \<open>The integer part, written backwards from the end of the buffer.\<close>

partial_function (option) cvt_integer ::
  "'d machine_double \<Rightarrow> 'd \<Rightarrow> int \<Rightarrow> int \<Rightarrow> cvt_buf \<Rightarrow> (int \<times> int \<times> cvt_buf) option" where
  "cvt_integer D fi p1 r2 buf =
     (if d_eq D fi (d_of_int D 0) then Some (p1, r2, buf)
      else do {
        let (fj, fi) = d_modf D (d_div D fi (d_of_int D 10));
        let c = digit_char (d_to_int D (d_mul D (d_add D fj (d_lit D (3 / 100))) (d_of_int D 10)));
        buf \<leftarrow> buf_put (p1 - 1) c buf;
        cvt_integer D fi (p1 - 1) (r2 + 1) buf
      })"

text \<open>Its copy to the start; leading zeros of a fraction; and the digits of the fraction.\<close>

function cvt_copy :: "int \<Rightarrow> int \<Rightarrow> cvt_buf \<Rightarrow> int \<times> cvt_buf" where
  "cvt_copy p p1 buf = (if p1 < NDIG then cvt_copy (p + 1) (p1 + 1) (buf(p := buf p1)) else (p, buf))"
  by auto
termination by (relation "measure (\<lambda>(p, p1, buf). nat (NDIG - p1))") auto

declare cvt_copy.simps [simp del]

partial_function (option) cvt_leading ::
  "'d machine_double \<Rightarrow> 'd \<Rightarrow> int \<Rightarrow> ('d \<times> int) option" where
  "cvt_leading D arg r2 = (
     let fj = d_mul D arg (d_of_int D 10)
     in if d_less D fj (d_of_int D 1) then cvt_leading D fj (r2 - 1) else Some (arg, r2))"

function cvt_fraction :: "'d machine_double \<Rightarrow> 'd \<Rightarrow> int \<Rightarrow> int \<Rightarrow> cvt_buf \<Rightarrow> cvt_buf" where
  "cvt_fraction D arg p p1 buf =
     (if p \<le> p1 \<and> p < NDIG then
        let (arg, fj) = d_modf D (d_mul D arg (d_of_int D 10))
        in cvt_fraction D arg (p + 1) p1 (buf(p := digit_char (d_to_int D fj)))
      else buf)"
  by auto
termination by (relation "measure (\<lambda>(D, arg, p, p1, buf). nat (NDIG - p))") auto

declare cvt_fraction.simps [simp del]

text \<open>Rounding carries to the left; a carry out of the first digit moves the decimal point.\<close>

function cvt_round :: "bool \<Rightarrow> int \<Rightarrow> int \<Rightarrow> int \<Rightarrow> cvt_buf \<Rightarrow> (int \<times> int \<times> cvt_buf) option" where
  "cvt_round eflag p p1 decpt buf =
     (if sint (buf p1) \<le> 0x39 then Some (p, decpt, buf)
      else
        let buf = buf(p1 := 0x30)
        in if 0 < p1 then cvt_round eflag p (p1 - 1) decpt (buf(p1 - 1 := buf (p1 - 1) + 1))
           else
             let buf = buf(p1 := 0x31)
             in if eflag then Some (p, decpt + 1, buf)
                else do {
                  buf \<leftarrow> (if 0 < p then buf_put p 0x30 buf else Some buf);
                  Some (p + 1, decpt + 1, buf)
                })"
  by auto
termination by (relation "measure (\<lambda>(eflag, p, p1, decpt, buf). nat p1)") auto

declare cvt_round.simps [simp del]

definition cvt_finish ::
  "'d machine_double \<Rightarrow> 'd \<Rightarrow> int \<Rightarrow> int \<Rightarrow> bool \<Rightarrow> int \<Rightarrow> cvt_buf \<Rightarrow> (cvt_buf \<times> int) option" where
  "cvt_finish D arg ndigits r2 eflag p buf = (
     let p1 = ndigits + (if eflag then 0 else r2)
     in if p1 < 0 then Some (buf(0 := 0), r2)
        else
          let buf = cvt_fraction D arg p p1 buf
          in if p1 \<ge> NDIG then Some (buf(NDIG - 1 := 0), r2)
             else do {
               (p, decpt, buf) \<leftarrow> cvt_round eflag p1 p1 r2 (buf(p1 := buf p1 + 5));
               buf \<leftarrow> buf_put p 0 buf;
               Some (buf, decpt)
             })"

text \<open>The result: the buffer, \<open>decpt\<close> and \<open>sign\<close>.\<close>

definition cvt ::
  "'d machine_double \<Rightarrow> 'd \<Rightarrow> int \<Rightarrow> bool \<Rightarrow> cvt_buf \<Rightarrow> (cvt_buf \<times> int \<times> int) option" where
  "cvt D arg ndigits eflag buf = do {
     let ndigits = (if ndigits < 0 then 0 else ndigits);
     let ndigits = (if ndigits \<ge> NDIG - 1 then NDIG - 2 else ndigits);
     let sign = (if d_less D arg (d_of_int D 0) then 1 else 0);
     let arg = (if d_less D arg (d_of_int D 0) then d_neg D arg else arg);
     let (arg, fi) = d_modf D arg;
     (arg, p, r2, buf) \<leftarrow>
       (if \<not> d_eq D fi (d_of_int D 0) then do {
          (p1, r2, buf) \<leftarrow> cvt_integer D fi NDIG 0 buf;
          let (p, buf) = cvt_copy 0 p1 buf;
          Some (arg, p, r2, buf)
        }
        else if d_less D (d_of_int D 0) arg then do {
          (arg, r2) \<leftarrow> cvt_leading D arg 0;
          Some (arg, 0, r2, buf)
        }
        else Some (arg, 0, 0, buf));
     (buf, decpt) \<leftarrow> cvt_finish D arg ndigits r2 eflag p buf;
     Some (buf, decpt, sign)
   }"

definition ecvt :: "'d machine_double \<Rightarrow> 'd \<Rightarrow> int \<Rightarrow> cvt_buf \<Rightarrow> (cvt_buf \<times> int \<times> int) option" where
  "ecvt D arg ndigits buf = cvt D arg ndigits True buf"

definition fcvt :: "'d machine_double \<Rightarrow> 'd \<Rightarrow> int \<Rightarrow> cvt_buf \<Rightarrow> (cvt_buf \<times> int \<times> int) option" where
  "fcvt D arg ndigits buf = cvt D arg ndigits False buf"

subsection \<open>From text (atof.c)\<close>

definition twoe56 :: rat where "twoe56 = 72057594037927936"

definition exp5 :: "rat list" where
  "exp5 = [5, 25, 625, 390625, 152587890625, 23232710361480712890625]"

partial_function (option) atof_blanks :: "bytes \<Rightarrow> u32 \<Rightarrow> u32 option" where
  "atof_blanks m p = (if m p = 0x20 then atof_blanks m (p + 1) else Some p)"

text \<open>The sign, as the text's \<open>-\<close> found, and where the digits start.\<close>

definition atof_sign :: "bytes \<Rightarrow> u32 \<Rightarrow> bool \<times> u32" where
  "atof_sign m p = (if m p = 0x2D then (True, p + 1) else if m p = 0x2B then (False, p + 1) else (False, p))"

definition add_digit :: "'d machine_double \<Rightarrow> 'd \<Rightarrow> u8 \<Rightarrow> 'd" where
  "add_digit D fl c = d_add D (d_mul D (d_of_int D 10) fl) (d_of_int D (sint c - 0x30))"

text \<open>The digits in front of the point and behind it; \<open>p\<close> is left at the first other character.\<close>

partial_function (option) atof_integer :: "'d machine_double \<Rightarrow> bytes \<Rightarrow> u32 \<Rightarrow> 'd \<Rightarrow> int \<Rightarrow> (u32 \<times> 'd \<times> int) option" where
  "atof_integer D m p fl ex =
     (if is_digit (m p) then
        if d_less D fl (d_lit D twoe56) then atof_integer D m (p + 1) (add_digit D fl (m p)) ex
        else atof_integer D m (p + 1) fl (s32 (ex + 1))
      else Some (p, fl, ex))"

partial_function (option) atof_fraction :: "'d machine_double \<Rightarrow> bytes \<Rightarrow> u32 \<Rightarrow> 'd \<Rightarrow> int \<Rightarrow> (u32 \<times> 'd \<times> int) option" where
  "atof_fraction D m p fl ex =
     (if is_digit (m p) then
        if d_less D fl (d_lit D twoe56) then atof_fraction D m (p + 1) (add_digit D fl (m p)) (s32 (ex - 1))
        else atof_fraction D m (p + 1) fl ex
      else Some (p, fl, ex))"

partial_function (option) atof_exponent :: "bytes \<Rightarrow> u32 \<Rightarrow> int \<Rightarrow> int option" where
  "atof_exponent m p eexp =
     (if is_digit (m p) then atof_exponent m (p + 1) (s32 (10 * eexp + (sint (m p) - 0x30))) else Some eexp)"

text \<open>The power of five, from the six entries of \<open>exp5\<close>.\<close>

fun atof_flexp :: "'d machine_double \<Rightarrow> rat list \<Rightarrow> int \<Rightarrow> 'd \<Rightarrow> 'd" where
  "atof_flexp D [] ex flexp = flexp"
| "atof_flexp D (t # ts) ex flexp = (
     let flexp = (if ex mod 2 = 1 then d_mul D flexp (d_lit D t) else flexp);
         ex = ex div 2
     in if ex = 0 then flexp else atof_flexp D ts ex flexp)"

definition atof_scale :: "'d machine_double \<Rightarrow> 'd \<Rightarrow> int \<Rightarrow> 'd" where
  "atof_scale D fl bexp = (
     let flexp = atof_flexp D exp5 (if bexp < 0 then s32 (- bexp) else bexp) (d_of_int D 1)
     in d_ldexp D (if bexp < 0 then d_div D fl flexp else d_mul D fl flexp) bexp)"

definition atof :: "'d machine_double \<Rightarrow> bytes \<Rightarrow> u32 \<Rightarrow> 'd option" where
  "atof D m p = do {
     p \<leftarrow> atof_blanks m p;
     let (neg, p) = atof_sign m p;
     (p, fl, ex) \<leftarrow> atof_integer D m p (d_of_int D 0) 0;
     (p, fl, ex) \<leftarrow> (if m p = 0x2E then atof_fraction D m (p + 1) fl ex else Some (p, fl, ex));
     ex \<leftarrow> (if m p = 0x45 \<or> m p = 0x65 then do {
         let (negexp, q) = atof_sign m (p + 1);
         eexp \<leftarrow> atof_exponent m q 0;
         Some (s32 (ex + (if negexp then s32 (- eexp) else eexp)))
       } else Some ex);
     let fl = atof_scale D fl ex;
     Some (if neg then d_neg D fl else fl)
   }"

declare cvt_integer.simps [code] cvt_leading.simps [code] atof_blanks.simps [code] atof_integer.simps [code]
  atof_fraction.simps [code] atof_exponent.simps [code]

subsection \<open>Reading\<close>

lemma exact_simps [simp]:
  "d_lit exact = id" "d_of_int exact = of_int" "d_add exact = (+)" "d_mul exact = (*)" "d_div exact = (/)"
  "d_neg exact = uminus" "d_less exact = (<)" "d_eq exact = (=)" "d_to_int exact = rat_trunc"
  "d_modf exact = (\<lambda>x. (x - of_int (rat_trunc x), of_int (rat_trunc x)))"
  "d_ldexp exact = (\<lambda>x e. if 0 \<le> e then x * 2 ^ nat e else x / 2 ^ nat (- e))"
  by (simp_all add: exact_def)

definition not_digit_first :: "u8 list \<Rightarrow> bool" where
  "not_digit_first cs \<longleftrightarrow> (case cs of [] \<Rightarrow> True | c # _ \<Rightarrow> \<not> is_digit c)"

lemma str_at_append: "str_at m a (xs @ ys) \<Longrightarrow> str_at m (a + of_nat (length xs)) ys"
proof (induction xs arbitrary: a)
  case (Cons x xs)
  then have "str_at m (a + 1 + of_nat (length xs)) ys" by simp
  then show ?case by (simp add: add.assoc)
qed simp

lemma not_digit_first_at: "str_at m a cs \<Longrightarrow> not_digit_first cs \<Longrightarrow> \<not> is_digit (m a)"
  by (cases cs) (auto simp: not_digit_first_def not_digit_0)

lemma add_digit_exact: "add_digit exact (of_int n) d = of_int (n * 10 + (sint d - 48))"
  by (simp add: add_digit_def)

lemma below_twoe56: "d_less exact (of_int n) (d_lit exact twoe56) \<longleftrightarrow> n < 2 ^ 56"
proof -
  have t: "twoe56 = of_int (2 ^ 56)" by (simp add: twoe56_def)
  show ?thesis unfolding exact_simps id_apply t of_int_less_iff ..
qed

lemma digits_step:
  assumes "digits (d # ds)" and "0 \<le> n" and "decimal n (d # ds) < 2 ^ 56"
  shows "is_digit d" "digits ds" "n < 2 ^ 56" "0 \<le> n * 10 + (sint d - 48)" "decimal (n * 10 + (sint d - 48)) ds < 2 ^ 56"
proof -
  show d: "is_digit d" "digits ds" "0 \<le> n * 10 + (sint d - 48)" using assms by (auto simp: digits_def is_digit_def)
  show "decimal (n * 10 + (sint d - 48)) ds < 2 ^ 56" using assms(3) by simp
  then show "n < 2 ^ 56" using decimal_mono [OF assms(1,2)] assms(3) by simp
qed

lemma atof_integer_run:
  "str_at m a (ds @ cs) \<Longrightarrow> not_digit_first cs \<Longrightarrow> digits ds \<Longrightarrow> 0 \<le> n \<Longrightarrow> decimal n ds < 2 ^ 56 \<Longrightarrow>
   atof_integer exact m a (of_int n) ex = Some (a + of_nat (length ds), of_int (decimal n ds), ex)"
proof (induction ds arbitrary: a n)
  case Nil
  then show ?case using not_digit_first_at by (simp add: atof_integer.simps [of _ _ a])
next
  case (Cons d ds)
  note s = digits_step [OF Cons.prems(3-5)]
  have "m a = d" "str_at m (a + 1) (ds @ cs)" using Cons.prems(1) by auto
  then show ?case using Cons.IH [OF _ Cons.prems(2) s(2,4,5)] s(1,3)
    by (simp add: atof_integer.simps [of _ _ a] below_twoe56 add_digit_exact add.assoc del: exact_simps)
qed

lemma atof_fraction_run:
  "str_at m a (ds @ cs) \<Longrightarrow> not_digit_first cs \<Longrightarrow> digits ds \<Longrightarrow> 0 \<le> n \<Longrightarrow> decimal n ds < 2 ^ 56 \<Longrightarrow>
   in_s32 ex \<Longrightarrow> in_s32 (ex - int (length ds)) \<Longrightarrow>
   atof_fraction exact m a (of_int n) ex = Some (a + of_nat (length ds), of_int (decimal n ds), ex - int (length ds))"
proof (induction ds arbitrary: a n ex)
  case Nil
  then show ?case using not_digit_first_at by (simp add: atof_fraction.simps [of _ _ a])
next
  case (Cons d ds)
  note s = digits_step [OF Cons.prems(3-5)]
  have "in_s32 (ex - 1)" "in_s32 (ex - 1 - int (length ds))" using Cons.prems(6,7) by (auto simp: in_s32_def)
  moreover have "m a = d" "str_at m (a + 1) (ds @ cs)" using Cons.prems(1) by auto
  ultimately show ?case using Cons.IH [OF _ Cons.prems(2) s(2,4,5)] s(1,3)
    by (simp add: atof_fraction.simps [of _ _ a] below_twoe56 add_digit_exact add.assoc algebra_simps del: exact_simps)
qed

text \<open>Five entries of the table are right and give every power up to the 31st; the sixth is not \<open>5 ^ 32\<close>.\<close>

lemma atof_flexp_powers:
  "0 \<le> e \<Longrightarrow> e < 2 ^ n \<Longrightarrow> 0 < n \<Longrightarrow>
   atof_flexp exact (map (\<lambda>i. 5 ^ 2 ^ i) [k..<k + n] @ ts) e f = f * 5 ^ (nat e * 2 ^ k)"
proof (induction n arbitrary: k e f)
  case (Suc n)
  let ?f = "if e mod 2 = 1 then f * 5 ^ 2 ^ k else f"
  have l: "map (\<lambda>i. 5 ^ 2 ^ i :: rat) [k..<k + Suc n] = 5 ^ 2 ^ k # map (\<lambda>i. 5 ^ 2 ^ i) [Suc k..<Suc k + n]"
    by (simp add: upt_rec)
  define T where "T = map (\<lambda>i. 5 ^ 2 ^ i :: rat) [Suc k..<Suc k + n] @ ts"
  have e: "nat e = 2 * nat (e div 2) + (if e mod 2 = 1 then 1 else 0)" using Suc.prems(1) by (auto simp: nat_eq_iff) presburger+
  have "?f * 5 ^ (nat (e div 2) * 2 ^ Suc k) = f * 5 ^ (nat e * 2 ^ k)"
    by (subst e) (simp add: power_add algebra_simps)
  moreover have "atof_flexp exact T (e div 2) ?f = ?f * 5 ^ (nat (e div 2) * 2 ^ Suc k)"
    if "e div 2 \<noteq> 0"
    using that Suc.prems unfolding T_def by (intro Suc.IH) (cases n; auto)+
  ultimately show ?case unfolding l append_Cons T_def [symmetric] by (auto simp: Let_def)
qed simp

lemma exp5_powers: "exp5 = map (\<lambda>i. 5 ^ 2 ^ i) [0..<0 + 5] @ [23232710361480712890625]"
  by (simp add: exp5_def upt_rec)

lemma exp5_wrong: "exp5 ! 5 \<noteq> 5 ^ 32"
  by (simp add: exp5_def)

lemma atof_scale_exact:
  assumes "0 \<le> k" and "k < 32"
  shows "atof_scale exact f (- k) = f / 10 ^ nat k" and "atof_scale exact f k = f * 10 ^ nat k"
proof -
  have p: "atof_flexp exact exp5 k 1 = 5 ^ nat k"
    using atof_flexp_powers [of k 5 0 "[23232710361480712890625]" 1] assms by (simp add: exp5_powers)
  have "in_s32 k" using assms by (simp add: in_s32_def)
  moreover have "(5 :: rat) ^ nat k * 2 ^ nat k = 10 ^ nat k" by (simp flip: power_mult_distrib)
  ultimately show "atof_scale exact f (- k) = f / 10 ^ nat k" "atof_scale exact f k = f * 10 ^ nat k"
    using p assms(1) by (auto simp: atof_scale_def Let_def mult.assoc)
qed

theorem atof_decimal:
  assumes "str_at m p (ds @ 0x2E # es)" and "digits ds" "digits es" and "decimal 0 (ds @ es) < 2 ^ 56" and "length es < 32"
  shows "atof exact m p = Some (of_int (decimal 0 (ds @ es)) / 10 ^ length es)"
proof -
  have z: "0 \<le> decimal 0 ds" using decimal_mono [OF assms(2)] by simp
  have l: "decimal 0 ds < 2 ^ 56" using decimal_mono [OF assms(3) z] assms(4) by simp
  have nd: "not_digit_first (0x2E # es)" by (simp add: not_digit_first_def is_digit_def)
  obtain b where "m p = b" "b \<noteq> 0x20" "b \<noteq> 0x2D" "b \<noteq> 0x2B"
    using assms(1,2) by (cases ds) (auto dest: digit_not_sign)
  then have start: "atof_blanks m p = Some p" "atof_sign m p = (False, p)"
    by (simp_all add: atof_blanks.simps [of m p] atof_sign_def)
  let ?q = "p + of_nat (length ds)"
  have "str_at m ?q (0x2E # es)" using str_at_append assms(1) by blast
  then have dot: "m ?q = 0x2E" "str_at m (?q + 1) (es @ [])" by simp_all
  have end_char: "m (?q + 1 + of_nat (length es)) = 0" using str_at_append [of m "?q + 1" es "[]"] dot(2) by simp
  have "in_s32 (0 - int (length es))" using assms(5) by (simp add: in_s32_def)
  note f = atof_fraction_run [OF dot(2) _ assms(3) z _ _ this, simplified not_digit_first_def]
  have "atof_integer exact m p 0 0 = Some (?q, of_int (decimal 0 ds), 0)"
    using atof_integer_run [OF assms(1) nd assms(2) _ l, of 0] by simp
  moreover have "atof_fraction exact m (?q + 1) (of_int (decimal 0 ds)) 0 =
      Some (?q + 1 + of_nat (length es), of_int (decimal 0 (ds @ es)), - int (length es))"
    using f assms(4) by (simp add: in_s32_def)
  ultimately show ?thesis
    using start dot(1) end_char atof_scale_exact(1) [of "int (length es)"] assms(5)
    by (simp add: atof_def)
qed

text \<open>An exponent is reduced to its six low bits for the power of five, but not for the power of two.\<close>

lemma atof_large_exponent: "atof_scale exact 1 64 = 2 ^ 64"
  by (simp add: atof_scale_def exp5_def Let_def)

subsection \<open>Writing\<close>

text \<open>With \<open>eflag\<close> set the end of the digits does not move, so it stays in the buffer.\<close>

lemma cvt_round_ecvt: "\<exists>d b. cvt_round True p p1 decpt buf = Some (p, d, b)"
proof (induction "True" p p1 decpt buf rule: cvt_round.induct)
  case (1 p p1 decpt buf)
  then show ?case by (subst cvt_round.simps) (auto simp: Let_def)
qed

lemma cvt_finish_ecvt:
  assumes "0 \<le> ndigits" and "ndigits < NDIG"
  shows "\<exists>r. cvt_finish D arg ndigits r2 True p buf = Some r"
proof -
  let ?b = "cvt_fraction D arg p ndigits buf"
  obtain d b where "cvt_round True ndigits ndigits r2 (?b(ndigits := ?b ndigits + 5)) = Some (ndigits, d, b)"
    using cvt_round_ecvt by blast
  then show ?thesis using assms by (auto simp: cvt_finish_def Let_def buf_put_def)
qed

theorem ecvt_stays_in_buffer:
  fixes D :: "'d machine_double"
  defines "magnitude \<equiv> \<lambda>x. if d_less D x (d_of_int D 0) then d_neg D x else x"
  assumes "d_modf D (magnitude x) = (f, fi)"
    and "cvt_integer D fi NDIG 0 buf \<noteq> None" and "cvt_leading D f 0 \<noteq> None"
  shows "\<exists>r. ecvt D x ndigits buf = Some r"
proof -
  obtain p1 r2 b where i: "cvt_integer D fi NDIG 0 buf = Some (p1, r2, b)" using assms(3) by auto
  obtain a r where l: "cvt_leading D f 0 = Some (a, r)" using assms(4) by auto
  obtain p b' where c: "cvt_copy 0 p1 b = (p, b')" by (cases "cvt_copy 0 p1 b")
  define nd where "nd = (let n = if ndigits < 0 then 0 else ndigits in if n \<ge> NDIG - 1 then NDIG - 2 else n)"
  have nd: "0 \<le> nd" "nd < NDIG" by (auto simp: nd_def NDIG_def Let_def)
  note fin = cvt_finish_ecvt [OF nd, of D]
  obtain s1 s2 s3 where s: "cvt_finish D f nd r2 True p b' = Some s1" "cvt_finish D a nd r True 0 buf = Some s2"
    "cvt_finish D f nd 0 True 0 buf = Some s3" using fin by metis
  have m: "d_modf D (if d_less D x (d_of_int D 0) then d_neg D x else x) = (f, fi)" using assms(2) by (simp add: magnitude_def)
  show ?thesis
    unfolding ecvt_def cvt_def Let_def nd_def [unfolded Let_def, symmetric] m
    by (cases "d_eq D fi (d_of_int D 0)"; cases "d_less D (d_of_int D 0) f"; cases s1; cases s2; cases s3)
      (simp_all add: i l c s)
qed

text \<open>The decimal digits of a number as characters.\<close>

fun dec :: "nat \<Rightarrow> u8 list" where
  "dec n = (if n = 0 then [] else dec (n div 10) @ [digit_char (int (n mod 10))])"

declare dec.simps [simp del]

lemma dec_0 [simp]: "dec 0 = []"
  by (simp add: dec.simps)

lemma trunc_tenth: "rat_trunc (of_nat n / 10) = int (n div 10)"
  using floor_divide_of_nat_eq [of n 10, where ?'a = rat] by (simp add: rat_trunc_def)

lemma trunc_digit: "d < 10 \<Longrightarrow> rat_trunc ((of_nat d / 10 + 3 / 100) * 10) = int d"
  unfolding rat_trunc_def by (auto simp: floor_eq_iff field_simps)

lemma last_digit: "rat_trunc (of_nat n - of_nat (n div 10) * 10 + 3 / 10) = int (n mod 10)"
proof -
  have "(of_nat n :: rat) = of_nat (n div 10 * 10 + n mod 10)" by simp
  then have "(of_nat n :: rat) - of_nat (n div 10) * 10 = of_nat (n mod 10)" by (simp only: of_nat_add of_nat_mult)
  then show ?thesis using trunc_digit [of "n mod 10"] by (simp add: distrib_right)
qed

lemma cvt_integer_exact:
  "length (dec n) \<le> p1 \<Longrightarrow> p1 \<le> nat NDIG \<Longrightarrow>
   cvt_integer exact (of_nat n) (int p1) r2 buf = Some (int p1 - length (dec n), r2 + length (dec n),
     (\<lambda>j. if int p1 - length (dec n) \<le> j \<and> j < int p1 then dec n ! nat (j - (int p1 - length (dec n))) else buf j))"
proof (induction n arbitrary: p1 r2 buf rule: dec.induct)
  case (1 n)
  show ?case
  proof (cases "n = 0")
    case True
    then show ?thesis by (auto simp: cvt_integer.simps [of exact 0] fun_eq_iff)
  next
    case False
    let ?ds = "dec (n div 10)"
    let ?c = "digit_char (int (n mod 10))"
    have d: "dec n = ?ds @ [?c]" using False by (simp add: dec.simps [of n])
    have l: "length ?ds \<le> p1 - 1" "p1 - 1 \<le> nat NDIG" "int (p1 - 1) = int p1 - 1" using 1(2,3) by (auto simp: d)
    have put: "buf_put (int p1 - 1) ?c buf = Some (buf(int p1 - 1 := ?c))" using 1(2,3) by (auto simp: d buf_put_def NDIG_def)
    note rest = 1(1) [OF False l(1,2), of "r2 + 1" "buf(int p1 - 1 := ?c)", unfolded l(3)]
    have step: "cvt_integer exact (of_nat n) (int p1) r2 buf =
        cvt_integer exact (of_nat (n div 10)) (int p1 - 1) (r2 + 1) (buf(int p1 - 1 := ?c))"
      using False put by (simp add: cvt_integer.simps [of exact "of_nat n"] trunc_tenth last_digit Let_def)
    show ?thesis unfolding step rest
      using l(1) 1(2) by (auto simp: d fun_eq_iff nth_append nat_less_iff diff_diff_add)
  qed
qed

lemma cvt_copy_result:
  "p \<le> p1 \<Longrightarrow> p1 \<le> NDIG \<Longrightarrow>
   cvt_copy p p1 buf = (p + (NDIG - p1), (\<lambda>j. if p \<le> j \<and> j < p + (NDIG - p1) then buf (j + (p1 - p)) else buf j))"
proof (induction p p1 buf rule: cvt_copy.induct)
  case (1 p p1 buf)
  show ?case
  proof (cases "p1 < NDIG")
    case True
    have step: "cvt_copy p p1 buf = cvt_copy (p + 1) (p1 + 1) (buf(p := buf p1))"
      by (subst cvt_copy.simps) (simp add: True del: fun_upd_apply)
    have "p + 1 \<le> p1 + 1" "p1 + 1 \<le> NDIG" using 1(2) True by simp_all
    note rest = 1(1) [OF True this]
    show ?thesis unfolding step rest using 1(2) True by (auto simp: fun_eq_iff)
  next
    case False
    then show ?thesis using 1(2,3) by (subst cvt_copy.simps) (auto simp: fun_eq_iff)
  qed
qed

lemma rat_trunc_0 [simp]: "rat_trunc 0 = 0"
  by (simp add: rat_trunc_def)

lemma cvt_fraction_0:
  "cvt_fraction exact 0 p p1 buf = (\<lambda>j. if p \<le> j \<and> j \<le> p1 \<and> j < NDIG then 0x30 else buf j)"
proof (induction "exact" "0 :: rat" p p1 buf rule: cvt_fraction.induct)
  case (1 p p1 buf)
  show ?case
  proof (cases "p \<le> p1 \<and> p < NDIG")
    case True
    have "d_modf exact (d_mul exact 0 (d_of_int exact 10)) = (0, 0)" by simp
    from 1 [OF True this [symmetric] refl] show ?thesis
      using True by (subst cvt_fraction.simps) (auto simp: fun_eq_iff digit_char_def)
  next
    case False
    then show ?thesis by (subst cvt_fraction.simps) (auto simp: fun_eq_iff)
  qed
qed

theorem ecvt_natural:
  assumes "0 < n" and "length (dec n) \<le> nd" and "nd < nat NDIG - 1"
  obtains b where "ecvt exact (of_nat n) (int nd) buf = Some (b, int (length (dec n)), 0)"
    and "\<And>i. i < nd \<Longrightarrow> b (int i) = (dec n @ replicate (nd - length (dec n)) 0x30) ! i" and "b (int nd) = 0"
proof -
  let ?l = "length (dec n)"
  have nd: "\<not> int nd \<ge> NDIG - 1" "int nd < NDIG" "?l \<le> nat NDIG" using assms(2,3) by (auto simp: NDIG_def)
  have t: "rat_trunc (of_nat n) = int n" by (simp add: rat_trunc_def)
  have l: "int ?l \<le> NDIG" using assms(2,3) by (auto simp: NDIG_def)
  have N: "int (nat NDIG) = NDIG" by (simp add: NDIG_def)
  define b1 where "b1 = (\<lambda>j. if NDIG - ?l \<le> j \<and> j < NDIG then dec n ! nat (j - (NDIG - ?l)) else buf j)"
  have i: "cvt_integer exact (of_nat n) NDIG 0 buf = Some (NDIG - ?l, int ?l, b1)"
    using cvt_integer_exact [of n "nat NDIG" 0 buf, unfolded N] nd(3) by (simp add: b1_def)
  define b2 where "b2 = (\<lambda>j. if 0 \<le> j \<and> j < int ?l then b1 (j + (NDIG - ?l)) else b1 j)"
  have c: "cvt_copy 0 (NDIG - ?l) b1 = (int ?l, b2)"
    using cvt_copy_result [of 0 "NDIG - ?l" b1, unfolded diff_0_right] l by (simp add: b2_def)
  define b3 where "b3 = (\<lambda>j. if int ?l \<le> j \<and> j \<le> int nd \<and> j < NDIG then 0x30 else b2 j)"
  have f: "cvt_fraction exact 0 (int ?l) (int nd) b2 = b3" by (simp add: cvt_fraction_0 b3_def)
  have "b3 (int nd) = 0x30" using assms(2) nd(2) by (simp add: b3_def)
  then have r: "cvt_round True (int nd) (int nd) (int ?l) (b3(int nd := b3 (int nd) + 5)) = Some (int nd, int ?l, b3(int nd := 0x35))"
    by (subst cvt_round.simps) simp
  have result: "ecvt exact (of_nat n) (int nd) buf = Some (b3(int nd := 0), int ?l, 0)"
    using assms(1) nd i c f r t
    by (simp add: ecvt_def cvt_def cvt_finish_def buf_put_def)
  have chars: "(b3(int nd := 0)) (int i) = (dec n @ replicate (nd - ?l) 0x30) ! i" if "i < nd" for i
    using that nd(2) by (auto simp: b3_def b2_def b1_def nth_append)
  show ?thesis by (rule that [OF result chars]) simp_all
qed

end
