(* ===== verification/Segment.thy ===== *)
theory Segment
  imports Prelude
begin

text \<open>
  boot/zBoot/segment.h: access to the segment in \<open>fs\<close>. Its inline assembly is written out on two byte memories, the
  program's own (\<open>ds_mem\<close>) and the one \<open>fs\<close> selects (\<open>fs_mem\<close>); they are taken to be different storage.
\<close>

record segment_state =
  ds_mem :: bytes
  fs_mem :: bytes
  reg_ds :: "16 word"
  reg_fs :: "16 word"

definition load16 :: "bytes \<Rightarrow> u32 \<Rightarrow> 16 word" where
  "load16 m a = ucast (m a) OR push_bit 8 (ucast (m (a + 1)))"

definition store16 :: "bytes \<Rightarrow> u32 \<Rightarrow> 16 word \<Rightarrow> bytes" where
  "store16 m a v = m(a := ucast v, a + 1 := ucast (drop_bit 8 v))"

definition get_user_byte :: "u32 \<Rightarrow> segment_state \<Rightarrow> u8" where
  "get_user_byte addr s = fs_mem s addr"

definition get_user_word :: "u32 \<Rightarrow> segment_state \<Rightarrow> 16 word" where
  "get_user_word addr s = load16 (fs_mem s) addr"

definition get_user_long :: "u32 \<Rightarrow> segment_state \<Rightarrow> u32" where
  "get_user_long addr s = load32 (fs_mem s) addr"

definition put_user_byte :: "u8 \<Rightarrow> u32 \<Rightarrow> segment_state \<Rightarrow> segment_state" where
  "put_user_byte val addr s = s\<lparr>fs_mem := (fs_mem s)(addr := val)\<rparr>"

definition put_user_word :: "16 word \<Rightarrow> u32 \<Rightarrow> segment_state \<Rightarrow> segment_state" where
  "put_user_word val addr s = s\<lparr>fs_mem := store16 (fs_mem s) addr val\<rparr>"

definition put_user_long :: "u32 \<Rightarrow> u32 \<Rightarrow> segment_state \<Rightarrow> segment_state" where
  "put_user_long val addr s = s\<lparr>fs_mem := store32 (fs_mem s) addr val\<rparr>"

definition get_fs :: "segment_state \<Rightarrow> u32" where "get_fs s = ucast (reg_fs s)"

definition get_ds :: "segment_state \<Rightarrow> u32" where "get_ds s = ucast (reg_ds s)"

definition set_fs :: "u32 \<Rightarrow> segment_state \<Rightarrow> segment_state" where "set_fs val s = s\<lparr>reg_fs := ucast val\<rparr>"

subsection \<open>String moves\<close>

text \<open>\<open>movsb\<close>, \<open>movsw\<close> and \<open>movsl\<close> with the direction flag clear: the destination's memory, \<open>edi\<close> and \<open>esi\<close>.\<close>

type_synonym string_regs = "bytes \<times> u32 \<times> u32"

definition movsb :: "bytes \<Rightarrow> string_regs \<Rightarrow> string_regs" where
  "movsb src = (\<lambda>(dst, di, si). (dst(di := src si), di + 1, si + 1))"

definition movsw :: "bytes \<Rightarrow> string_regs \<Rightarrow> string_regs" where
  "movsw src = (\<lambda>(dst, di, si). (store16 dst di (load16 src si), di + 2, si + 2))"

definition movsl :: "bytes \<Rightarrow> string_regs \<Rightarrow> string_regs" where
  "movsl src = (\<lambda>(dst, di, si). (store32 dst di (load32 src si), di + 4, si + 4))"

text \<open>The two routines for a length that is not known to the compiler.\<close>

definition generic_moves :: "bytes \<Rightarrow> u32 \<Rightarrow> string_regs \<Rightarrow> string_regs" where
  "generic_moves src n r =
     (let r = (if n AND 1 = 0 then r else movsb src r);
          r = (if n AND 2 = 0 then r else movsw src r)
      in (movsl src ^^ unat (drop_bit 2 n)) r)"

definition generic_memcpy_tofs :: "u32 \<Rightarrow> u32 \<Rightarrow> u32 \<Rightarrow> segment_state \<Rightarrow> segment_state" where
  "generic_memcpy_tofs dest from n s = s\<lparr>fs_mem := fst (generic_moves (ds_mem s) n (fs_mem s, dest, from))\<rparr>"

definition generic_memcpy_fromfs :: "u32 \<Rightarrow> u32 \<Rightarrow> u32 \<Rightarrow> segment_state \<Rightarrow> segment_state" where
  "generic_memcpy_fromfs dest from n s = s\<lparr>ds_mem := fst (generic_moves (fs_mem s) n (ds_mem s, dest, from))\<rparr>"

text \<open>And for one that is: the macro \<open>COMMON\<close> with its tail.\<close>

definition common_moves :: "bytes \<Rightarrow> u32 \<Rightarrow> string_regs \<Rightarrow> string_regs" where
  "common_moves src n r =
     (let r = (movsl src ^^ unat (n div 4)) r
      in if n mod 4 = 0 then r
         else if n mod 4 = 1 then movsb src r
         else if n mod 4 = 2 then movsw src r
         else movsb src (movsw src r))"

definition constant_memcpy_tofs :: "u32 \<Rightarrow> u32 \<Rightarrow> u32 \<Rightarrow> segment_state \<Rightarrow> segment_state" where
  "constant_memcpy_tofs dest from n s =
     (if n = 0 then s
      else if n = 1 then put_user_byte (ds_mem s from) dest s
      else if n = 2 then put_user_word (load16 (ds_mem s) from) dest s
      else if n = 3 then put_user_byte (ds_mem s (2 + from)) (2 + dest) (put_user_word (load16 (ds_mem s) from) dest s)
      else if n = 4 then put_user_long (load32 (ds_mem s) from) dest s
      else s\<lparr>fs_mem := fst (common_moves (ds_mem s) n (fs_mem s, dest, from))\<rparr>)"

definition constant_memcpy_fromfs :: "u32 \<Rightarrow> u32 \<Rightarrow> u32 \<Rightarrow> segment_state \<Rightarrow> segment_state" where
  "constant_memcpy_fromfs dest from n s =
     (if n = 0 then s
      else if n = 1 then s\<lparr>ds_mem := (ds_mem s)(dest := get_user_byte from s)\<rparr>
      else if n = 2 then s\<lparr>ds_mem := store16 (ds_mem s) dest (get_user_word from s)\<rparr>
      else if n = 3 then
        let s = s\<lparr>ds_mem := store16 (ds_mem s) dest (get_user_word from s)\<rparr>
        in s\<lparr>ds_mem := (ds_mem s)(dest + 2 := get_user_byte (2 + from) s)\<rparr>
      else if n = 4 then s\<lparr>ds_mem := store32 (ds_mem s) dest (get_user_long from s)\<rparr>
      else s\<lparr>ds_mem := fst (common_moves (fs_mem s) n (ds_mem s, dest, from))\<rparr>)"

subsection \<open>All of them copy bytes\<close>

definition copy_range :: "bytes \<Rightarrow> nat \<Rightarrow> string_regs \<Rightarrow> string_regs" where
  "copy_range src k = (\<lambda>(dst, di, si).
     ((\<lambda>a. if unat (a - di) < k then src (si + (a - di)) else dst a), di + of_nat k, si + of_nat k))"

lemma copy_range_0: "copy_range src 0 r = r"
  by (simp add: copy_range_def split: prod.splits)

lemma copy_range_add:
  assumes "j + k < 2 ^ 32"
  shows "copy_range src k (copy_range src j r) = copy_range src (j + k) r"
proof -
  obtain dst di si where r: "r = (dst, di, si)" by (cases r)
  have "(if unat (a - (di + of_nat j)) < k then src (si + of_nat j + (a - (di + of_nat j)))
      else if unat (a - di) < j then src (si + (a - di)) else dst a) =
      (if unat (a - di) < j + k then src (si + (a - di)) else dst a)" for a
  proof -
    define x where "x = a - di"
    have j: "unat (of_nat j :: u32) = j" using assms by (simp add: unat_of_nat take_bit_nat_eq_self)
    have "unat (x - of_nat j) < k \<longleftrightarrow> j \<le> unat x \<and> unat x < j + k"
      using assms unsigned_less [of x, where 'a = nat] by (auto simp: unat_sub_if' j word_le_nat_alt)
    moreover have e: "a - (di + of_nat j) = x - of_nat j" "si + of_nat j + (x - of_nat j) = si + x" "a - di = x"
      by (simp_all add: x_def)
    ultimately show ?thesis unfolding e by auto
  qed
  then show ?thesis by (simp add: r copy_range_def add.assoc)
qed

lemma small_offset:
  "unat (x :: u32) < 2 \<longleftrightarrow> x = 0 \<or> x = 1" "unat (x :: u32) < 4 \<longleftrightarrow> x = 0 \<or> x = 1 \<or> x = 2 \<or> x = 3"
proof -
  have "unat x < 2 \<longleftrightarrow> unat x = unat (0 :: u32) \<or> unat x = unat (1 :: u32)"
    "unat x < 4 \<longleftrightarrow> unat x = unat (0 :: u32) \<or> unat x = unat (1 :: u32) \<or> unat x = unat (2 :: u32) \<or> unat x = unat (3 :: u32)"
    by auto
  then show "unat x < 2 \<longleftrightarrow> x = 0 \<or> x = 1" "unat x < 4 \<longleftrightarrow> x = 0 \<or> x = 1 \<or> x = 2 \<or> x = 3"
    unfolding word_unat_eq_iff by blast+
qed

lemma movsb_range: "movsb src = copy_range src 1"
  by (auto simp: movsb_def copy_range_def fun_eq_iff unat_eq_0)

lemma movsw_range: "movsw src = copy_range src 2"
proof -
  have "store16 dst di (load16 src si) = (\<lambda>a. if unat (a - di) < 2 then src (si + (a - di)) else dst a)" for dst di si
  proof
    fix a
    have "ucast (load16 src si) = src si" "ucast (drop_bit 8 (load16 src si)) = src (si + 1)"
      unfolding load16_def by (rule bit_word_eqI; auto simp: bit_simps dest: bit_imp_le_length)+
    then have "store16 dst di (load16 src si) (di + x) = (if unat x < 2 then src (si + x) else dst (di + x))" for x
      by (simp add: store16_def small_offset)
    from this [of "a - di"] show "store16 dst di (load16 src si) a = (if unat (a - di) < 2 then src (si + (a - di)) else dst a)"
      by simp
  qed
  then show ?thesis by (simp add: movsw_def copy_range_def fun_eq_iff)
qed

lemma movsl_range: "movsl src = copy_range src 4"
proof -
  have "store32 dst di (load32 src si) = (\<lambda>a. if unat (a - di) < 4 then src (si + (a - di)) else dst a)" for dst di si
  proof
    fix a
    have "ucast (load32 src si) = src si" "ucast (drop_bit 8 (load32 src si)) = src (si + 1)"
      "ucast (drop_bit 16 (load32 src si)) = src (si + 2)" "ucast (drop_bit 24 (load32 src si)) = src (si + 3)"
      unfolding load32_def by (rule bit_word_eqI; auto simp: bit_simps dest: bit_imp_le_length)+
    then have "store32 dst di (load32 src si) (di + x) = (if unat x < 4 then src (si + x) else dst (di + x))" for x
      by (simp add: store32_def small_offset)
    from this [of "a - di"] show "store32 dst di (load32 src si) a = (if unat (a - di) < 4 then src (si + (a - di)) else dst a)"
      by simp
  qed
  then show ?thesis by (simp add: movsl_def copy_range_def fun_eq_iff)
qed

lemma movsl_repeated: "4 * k < 2 ^ 32 \<Longrightarrow> (movsl src ^^ k) r = copy_range src (4 * k) r"
  by (induction k) (simp_all add: copy_range_0 movsl_range copy_range_add add.commute)

lemma generic_moves_range: "generic_moves src n r = copy_range src (unat n) r"
proof -
  let ?k = "unat n div 4"
  have k: "unat (drop_bit 2 n) = ?k" by (simp add: unsigned_drop_bit_eq drop_bit_eq_div unat_div)
  have b: "bit n i \<longleftrightarrow> odd (unat n div 2 ^ i)" for i
  proof -
    have "bit n i = bit (unat n) i" by (simp add: bit_simps)
    then show ?thesis by (simp only: bit_iff_odd)
  qed
  have 1: "n AND 1 = 0 \<longleftrightarrow> unat n mod 2 = 0" using and_exp_eq_0_iff_not_bit [of n 0] b [of 0] by (simp add: even_iff_mod_2_eq_zero)
  have 2: "n AND 2 = 0 \<longleftrightarrow> unat n div 2 mod 2 = 0" using and_exp_eq_0_iff_not_bit [of n 1] b [of 1] by (simp add: even_iff_mod_2_eq_zero)
  have n: "unat n < 2 ^ 32" using unsigned_less [of n, where 'a = nat] by simp
  have split: "unat n = unat n mod 2 + 2 * (unat n div 2 mod 2) + 4 * ?k" by presburger
  then have "4 * ?k < 2 ^ 32" "unat n mod 2 + 4 * ?k < 2 ^ 32" using n by linarith+
  then show ?thesis
    using n split
    by (cases "unat n mod 2 = 0"; cases "unat n div 2 mod 2 = 0")
      (simp_all add: generic_moves_def 1 2 k movsl_repeated movsb_range movsw_range copy_range_add Let_def)
qed

lemma common_moves_range: "common_moves src n r = copy_range src (unat n) r"
proof -
  let ?k = "unat n div 4"
  have k: "unat (n div 4) = ?k" "unat (n mod 4) = unat n mod 4" by (simp_all add: unat_div unat_mod)
  have m: "n mod 4 = 0 \<longleftrightarrow> unat n mod 4 = 0" "n mod 4 = 1 \<longleftrightarrow> unat n mod 4 = 1" "n mod 4 = 2 \<longleftrightarrow> unat n mod 4 = 2"
    by (simp_all add: word_unat_eq_iff unat_mod)
  have n: "unat n < 2 ^ 32" using unsigned_less [of n, where 'a = nat] by simp
  have split: "unat n = 4 * ?k + unat n mod 4" "unat n mod 4 < 4" by simp_all
  then consider "unat n mod 4 = 0" | "unat n mod 4 = 1" | "unat n mod 4 = 2" | "unat n mod 4 = 3" by linarith
  then show ?thesis
    using n split(1)
    by cases (simp_all add: common_moves_def m k movsl_repeated movsb_range movsw_range copy_range_add Let_def add.assoc)
qed

lemma constant_is_common:
  "constant_memcpy_tofs dest from n s = s\<lparr>fs_mem := fst (common_moves (ds_mem s) n (fs_mem s, dest, from))\<rparr>"
  "constant_memcpy_fromfs dest from n s = s\<lparr>ds_mem := fst (common_moves (fs_mem s) n (ds_mem s, dest, from))\<rparr>"
proof -
  have movsl: "(movsl src ^^ unat (4 div 4 :: u32)) r = movsl src r" for src r by (simp add: unat_div)
  note defs = constant_memcpy_tofs_def constant_memcpy_fromfs_def common_moves_def movsb_def movsw_def
    put_user_byte_def put_user_word_def put_user_long_def get_user_byte_def get_user_word_def get_user_long_def
  consider "n = 0" | "n = 1" | "n = 2" | "n = 3" | "n = 4" | "n \<notin> {0, 1, 2, 3, 4}" by blast
  then show "constant_memcpy_tofs dest from n s = s\<lparr>fs_mem := fst (common_moves (ds_mem s) n (fs_mem s, dest, from))\<rparr>"
    by cases (simp_all add: defs movsl movsl_def [of _, THEN fun_cong] add.commute [of 2 dest] add.commute [of 2 "from"])
  consider "n = 0" | "n = 1" | "n = 2" | "n = 3" | "n = 4" | "n \<notin> {0, 1, 2, 3, 4}" by blast
  then show "constant_memcpy_fromfs dest from n s = s\<lparr>ds_mem := fst (common_moves (fs_mem s) n (ds_mem s, dest, from))\<rparr>"
    by cases (simp_all add: defs movsl movsl_def [of _, THEN fun_cong] add.commute [of 2 dest] add.commute [of 2 "from"])
qed

text \<open>Both versions copy the same \<open>n\<close> bytes and nothing else, for every length and whatever wraps around.\<close>

theorem memcpy_fs_copies:
  "generic_memcpy_tofs dest from n s =
     s\<lparr>fs_mem := (\<lambda>a. if unat (a - dest) < unat n then ds_mem s (from + (a - dest)) else fs_mem s a)\<rparr>"
  "constant_memcpy_tofs dest from n s = generic_memcpy_tofs dest from n s"
  "generic_memcpy_fromfs dest from n s =
     s\<lparr>ds_mem := (\<lambda>a. if unat (a - dest) < unat n then fs_mem s (from + (a - dest)) else ds_mem s a)\<rparr>"
  "constant_memcpy_fromfs dest from n s = generic_memcpy_fromfs dest from n s"
  by (simp_all add: constant_is_common common_moves_range generic_memcpy_tofs_def generic_memcpy_fromfs_def
      generic_moves_range copy_range_def)

end
