(* ===== verification/Spec2Isabelle.thy ===== *)
theory Spec2Isabelle
  imports Kernel_Props Copy_Facts Ipc_Props Signal_Props Sched_Props Proc_Props Dev_Props Format_Props Console_Props
    Shell_Props Unzip_Props Huft_Props Qsort_Props Scan_Props Stdio_Props Build_Facts
    Diagnostics Trampoline Float_Conv Build_Tool Segment
begin

text \<open>
  A verification development for Xeros, the teaching kernel of this repository: a single-processor
  kernel for 32-bit x86 with pre-emptive processes, rendezvous messages, signals, a sleep device, a
  keyboard device, a text console, a login and a shell, with the loader that unpacks it, the tool
  that makes its disk image and the C library it is linked with.

  HOW THE PROGRAM WORKS. boot/build.c puts the boot sector, the setup code and the system into a disk
  image. The boot code loads it and calls \<open>decompress_kernel\<close> (boot/zBoot/misc.c), which unpacks the
  gzip file behind the loader (unzip.c, inflate.c) to one megabyte and jumps there. After the start-up
  code has sized memory and set up segments, \<open>initproc\<close> (c/init.c) initialises the interrupt vectors
  (c/i386.c, c/evec.c), the memory manager (c/mem.c), the tables of processes and devices, creates
  the idle process and the login process (c/create.c), starts the clock and enters \<open>dispatch\<close>
  (c/disp.c). The dispatcher is an endless loop: deliver the pending signals of the current process
  (c/signal.c), switch to it (c/ctsw.c), and handle the interrupt or system call that brings control
  back. Interrupts are disabled inside the kernel, so one pass of the loop is atomic. Processes are in
  exactly one place at any time: running, in the ready or stopped queue (c/pcb.c), in the delta list
  of sleepers (c/sleep.c), in a queue of senders, receivers or waiters of another process (c/msg.c,
  c/pcb.c), receiving from anyone, or blocked on a device (c/kbd.c, through c/di_calls.c). User code
  (c/user.c) reaches the kernel only through the stubs of c/syscall.c; c/copyinout.c checks the
  pointers it passes.

  THEORIES AND SOURCES. A definition has the name of the C function, constant or field it models;
  a C structure is a record, a C enumeration a datatype, a pointer to a control block a value of
  \<open>pcbref\<close> (\<open>None\<close> is \<open>NULL\<close>).
    Prelude      words, signed 32-bit arithmetic (\<open>s32\<close>), byte memory, \<open>ASSERT\<close>, bounded loops
    I386         c/i386.c, c/evec.c, h/i386.h: segments, ports, interrupt controller and vectors
    Diagnostics  c/evec.c, c/xint.s: the frame of an exception and the dump \<open>trap\<close> prints; the listings
                 of a queue and of the free list
    Mem          c/mem.c: \<open>kmeminit\<close>, \<open>kmalloc\<close>, \<open>kfree\<close> on the chain of block headers
    Kernel       h/xeroskernel.h, h/kbd.h: constants, control blocks, the record \<open>kernel\<close> of all state
    Queues       c/pcb.c: the ready, stopped and blocking queues
    Pcb          c/pcb.c, c/create.c: control blocks, clean-up, process numbers, \<open>create\<close>
    Sleep        c/sleep.c            Signals   c/signal.c, context frames
    Keyboard     c/kbd.c              Devices   c/di_calls.c
    Messages     c/msg.c              Copyinout c/copyinout.c
    Ctsw         c/ctsw.c: what is pushed on and popped from a process's stack
    Dispatch     c/disp.c: \<open>handle_request\<close>; a pass of the loop is \<open>dispatch_step\<close>, a run \<open>dispatch_run\<close>
    Boot         c/init.c             Console   c/kprintf.c
    Syscalls     c/syscall.c          User      c/user.c, as trees of system calls
    Trampoline   c/signal.c: \<open>sigtramp\<close>; the idle process
    Libc         lib/libxc: strings, \<open>atoi\<close>, memory
    Doprnt       lib/libxc/doprnt.c and sprintf.c: formatted output
    Scan         lib/libxc/doscan.c and scanf.c: formatted input
    Stdio        lib/libxc: \<open>gets\<close>, \<open>fgets\<close>, \<open>puts\<close>, \<open>fputs\<close>, \<open>printf\<close>, \<open>fprintf\<close>, character classes
    Qsort        lib/libxc/qsort.c
    Float_Conv   lib/libxc/ecvt.c and atof.c over a given arithmetic of doubles
    Gzip_Io      boot/zBoot/gzip.h, misc.c: the record \<open>gzip\<close> of input, window and check sum
    Huft         boot/zBoot/inflate.c: \<open>huft_build\<close>
    Inflate      boot/zBoot/inflate.c: the bit buffer, codes, the three kinds of block, \<open>inflate\<close>
    Unzip        boot/zBoot/unzip.c, misc.c: headers, \<open>unzip\<close>, \<open>decompress_kernel\<close>, text output,
                 \<open>memcmp\<close>, \<open>malloc\<close>
    Segment      boot/zBoot/segment.h
    Build_Tool   boot/build.c and boot/zBoot/piggyback.c
  The state of the kernel is the record \<open>kernel\<close>: control blocks, queue heads and tails, the heap,
  the devices, all of physical memory as bytes. The loader's is the record \<open>loader\<close> around \<open>gzip\<close>.
  An operation that changes the state takes and returns it. In the kernel and the library \<open>None\<close> is
  code that does not go on: a failed \<open>ASSERT\<close> (an endless loop in the source), a loop that never
  ends, or an access the source does not check. In the loader it is also a call of \<open>error\<close>, which
  prints a message and halts the machine. Theorems that something returns are therefore
  stated as \<open>Some\<close>, never under the assumption that it does.

  WHAT IS SHOWN. The abstract counterparts are lists: the free list (Mem_Proofs, Mem_Contract: the
  locale \<open>allocator\<close>), the queues (Dlist_Links, Queue_Facts: the locale \<open>fifo_queue\<close>), the sleepers
  as a delta list (Delta_List, Sleep_Facts). Sched_Inv defines where every process is, Kernel_Inv the
  invariant \<open>kinv\<close> of the whole kernel; Sched_Steps, Create, Handlers, Handlers_Ipc, Handlers_Msg,
  Handlers_Life, Handlers_Dev and Dev_Facts show that each handler returns and keeps it; Kernel_Step
  and Boot_Facts put that together for every event and for the start; Progress is about runs.
  Samples and Witness_States have the concrete states on which properties with premises are
  instantiated. For the loader, Gzip_Facts reads its buffers as lists of bytes and relates the
  check sum's table to the polynomial; Inflate_Facts reads the bit buffer as a list of bits and follows matches
  and stored blocks; Huft_Facts, Huft_Tables and Huft_Decode show that \<open>huft_build\<close> stays inside its
  arrays and that every code it has placed is found through the links between its tables;
  Deflate_Facts states the DEFLATE format as an encoder writes it (\<open>token\<close>, \<open>trees\<close>, \<open>deflate_block\<close> and
  their bits) and follows \<open>inflate_codes\<close>, \<open>inflate_fixed\<close>, \<open>inflate_dynamic\<close> and \<open>inflate_blocks\<close> through it;
  Unzip_Facts has the file around the blocks, and shows that check sum and byte count stay in step with the
  output for any input. Qsort_Facts
  proves the sort once for every comparison function (the locale \<open>comparator\<close>), Scan_Props the
  scanner once for every source of characters with push-back (the locale \<open>char_source\<close>).
  The properties proper, each with its claim number:
    Kernel_Props    C1-C6: the invariant in every reachable state, the dispatcher never stops unless a
                    process passes what an assertion refuses, memory of processes is disjoint, boot
                    establishes it all, ready processes run, sleepers wake on time
    Mem_Contract    C7-C11: allocated blocks are fresh and disjoint, memory is conserved, first fit,
                    insertion with merging, allocate-then-free
    Unzip_Props     C12-C14, C16: a compressed kernel is unpacked to its bytes, what the loader
                    starts has the check sum and length of its file, matches repeat earlier
                    output, the check sum is CRC-32
    Huft_Props      C15: which code lengths are accepted, and that the tables decode the canonical code
    Copy_Facts      C17-C18: what an accepted pointer guarantees, and that the check of a string ends
    Ipc_Props       C19-C21: every outcome of send and receive, and the order of senders
    Context_Props, Proc_Props, Sched_Props, Signal_Props
                    C22-C30: creation, termination, sleeping, signals, saved contexts
    Dev_Props       C31-C32: the keyboard's ring buffer, descriptors
    Libc_Props, Console_Props
                    C33-C34: \<open>strncpy\<close>, printing stays on the screen
    Shell_Props     C35-C36: the shell's parsing of a line, the states \<open>ps\<close> prints
    Qsort_Props, Scan_Props, Stdio_Props
                    C37-C39: sorting strings, reading back what was printed, \<open>fgets\<close> and its buffer
    Build_Facts     C40: where the parts of the disk image lie.
  Further theorems of these theories state what the source gets wrong, such as the
  sums of c/copyinout.c that overflow, the process numbers that run out, or the dump of \<open>trap\<close> that is a
  word off (Diagnostics). Trampoline shows that a signal handler that returns is followed by the
  call that gives its context back, Segment that the four copies through \<open>fs\<close> copy the same bytes, Float_Conv
  that \<open>atof\<close> and \<open>ecvt\<close> are right when arithmetic is exact and the table of powers reaches.

  BOUNDS. A loop of the source that may not end is a partial function into \<open>option\<close>, a loop with a
  counter recurses on it; no fuel is used. The invariant bounds what the source leaves unbounded:
  \<open>PCB_TABLE_SIZE\<close> processes, sleep times below \<open>MAX_TICKS\<close> so that no sum of the delta list
  overflows, memory below 2 GB, where signed and unsigned comparisons of addresses agree.

  NOT MODELLED. The assembly of c/startup.S, boot/boot and boot/zBoot/head.S, and of c/intr.S but for
  \<open>disable\<close> and the exception stubs; the functions that only read a register (\<open>getCS\<close>, \<open>getDS\<close>);
  bzero.c, which is commented out; h/xerosctype.h, a copy of a system header; declarations nothing
  defines (boot/zBoot/gzip.h, lzw.h); boot/build.c for a big kernel, which its Makefile does not build; c/tests,
  which exercise the code modelled here. Code outside the repository is an argument: the arithmetic of
  doubles with \<open>modf\<close> and \<open>ldexp\<close>, the layout of a.out.h, the device routines \<open>getc\<close>, \<open>putc\<close> and
  \<open>control\<close> that lib/libxc calls. What the processor runs in user mode between two events is an
  argument: a property about the dispatcher holds for every sequence of events.
\<close>

end
